(* ===== verification/AsioPrelude.thy ===== *)
theory AsioPrelude
  imports Main "HOL-Library.Multiset" "HOL-Library.Word"
begin

text \<open>
  The part of the library every component shares: pointers and field-wise heaps, singly and
  doubly linked chains in such a heap, and the sizes the code compares with.

  A pointer to an object of type \<open>'a\<close> is an \<open>'a option\<close>, with \<open>None\<close> for the null pointer. A field
  of all objects of a class is one function from objects to the field's value (a heap split by
  field), so that writing \<open>o->next_ = p\<close> is a function update and aliasing is visible.
\<close>

named_theorems chain_simps \<open>how pointer chains react to writes\<close>
named_theorems invs \<open>preservation of the components' invariants\<close>

type_synonym 'a ptr = "'a option"
type_synonym 'a field = "'a \<Rightarrow> 'a ptr"

text \<open>\<open>std::numeric_limits<std::size_t>::max()\<close> on the 64-bit targets of the library.\<close>

definition size_max :: nat where
  "size_max = 2 ^ 64 - 1"

lemma size_max_pos [simp]: "0 < size_max"
  by (simp add: size_max_def)

section \<open>Singly linked chains\<close>

text \<open>\<open>seg n p xs q\<close>: following the field \<open>n\<close> from \<open>p\<close> visits exactly \<open>xs\<close> and arrives at \<open>q\<close>.\<close>

fun seg :: "'a field \<Rightarrow> 'a ptr \<Rightarrow> 'a list \<Rightarrow> 'a ptr \<Rightarrow> bool" where
  "seg n p [] q \<longleftrightarrow> p = q"
| "seg n p (x # xs) q \<longleftrightarrow> p = Some x \<and> seg n (n x) xs q"

abbreviation chain :: "'a field \<Rightarrow> 'a ptr \<Rightarrow> 'a list \<Rightarrow> bool" where
  "chain n p xs \<equiv> seg n p xs None"

lemma seg_append [chain_simps]:
  "seg n p (xs @ ys) q \<longleftrightarrow> (\<exists>r. seg n p xs r \<and> seg n r ys q)"
  by (induction xs arbitrary: p) auto

lemma seg_upd_notin [chain_simps]:
  "x \<notin> set xs \<Longrightarrow> seg (n(x := r)) p xs q \<longleftrightarrow> seg n p xs q"
  by (induction xs arbitrary: p) auto

lemma seg_cong: "(\<And>x. x \<in> set xs \<Longrightarrow> n x = m x) \<Longrightarrow> seg n p xs q \<longleftrightarrow> seg m p xs q"
  by (induction xs arbitrary: p) auto

lemma chain_None [simp]: "chain n None xs \<longleftrightarrow> xs = []"
  by (cases xs) auto

lemma chain_Some: "chain n (Some x) xs \<longleftrightarrow> (\<exists>ys. xs = x # ys \<and> chain n (n x) ys)"
  by (cases xs) auto

lemma chain_unique: "chain n p xs \<Longrightarrow> chain n p ys \<Longrightarrow> xs = ys"
proof (induction xs arbitrary: p ys)
  case Nil
  then show ?case by simp
next
  case (Cons x xs)
  then obtain zs where "ys = x # zs" and "chain n (n x) zs"
    by (auto simp: chain_Some)
  with Cons show ?case by fastforce
qed

text \<open>A chain that ends at the null pointer cannot visit an object twice.\<close>

lemma chain_tail_notin: "chain n p (x # xs) \<Longrightarrow> x \<notin> set xs"
proof
  assume c: "chain n p (x # xs)" and "x \<in> set xs"
  then obtain as bs where xs: "xs = as @ x # bs"
    by (meson split_list)
  with c have "chain n (n x) (as @ x # bs)" and "chain n (n x) bs"
    by (auto simp: chain_simps)
  then have "as @ x # bs = bs"
    by (rule chain_unique)
  then have "length (as @ x # bs) = length bs"
    by (rule arg_cong)
  then show False
    by simp
qed

lemma chain_distinct: "chain n p xs \<Longrightarrow> distinct xs"
proof (induction xs arbitrary: p)
  case Nil
  then show ?case by simp
next
  case (Cons x xs)
  from Cons.prems have "x \<notin> set xs"
    by (rule chain_tail_notin)
  with Cons show ?case by auto
qed

lemma seg_last: "xs \<noteq> [] \<Longrightarrow> seg n p xs q \<Longrightarrow> n (last xs) = q"
  by (induction xs arbitrary: p) (auto split: if_splits)

text \<open>Writing the link of the last object extends the chain.\<close>

lemma chain_extend:
  assumes "xs \<noteq> []" and "chain n p xs" and "chain n q ys" and "set xs \<inter> set ys = {}"
  shows "chain (n(last xs := q)) p (xs @ ys)"
proof -
  from assms(1) obtain as a where xs: "xs = as @ [a]"
    by (metis append_butlast_last_id)
  with assms(2) have d: "a \<notin> set as"
    using chain_distinct by fastforce
  from assms(2) xs have "seg n p as (Some a)"
    by (auto simp: chain_simps)
  moreover from assms(4) xs have "a \<notin> set ys"
    by auto
  ultimately show ?thesis
    using assms(3) d xs by (auto simp: chain_simps)
qed

section \<open>Doubly linked chains\<close>

text \<open>
  \<open>dseg nx pv b p xs\<close>: the list \<open>xs\<close> hangs off \<open>p\<close> along \<open>nx\<close> up to the null pointer, and each
  object's \<open>pv\<close> is its predecessor, that of the first one \<open>b\<close>.
\<close>

fun dseg :: "'a field \<Rightarrow> 'a field \<Rightarrow> 'a ptr \<Rightarrow> 'a ptr \<Rightarrow> 'a list \<Rightarrow> bool" where
  "dseg nx pv b p [] \<longleftrightarrow> p = None"
| "dseg nx pv b p (x # xs) \<longleftrightarrow> p = Some x \<and> pv x = b \<and> dseg nx pv (Some x) (nx x) xs"

abbreviation dlist :: "'a field \<Rightarrow> 'a field \<Rightarrow> 'a ptr \<Rightarrow> 'a list \<Rightarrow> bool" where
  "dlist nx pv p xs \<equiv> dseg nx pv None p xs"

lemma dseg_chain: "dseg nx pv b p xs \<Longrightarrow> chain nx p xs"
  by (induction xs arbitrary: b p) auto

lemma dseg_distinct: "dseg nx pv b p xs \<Longrightarrow> distinct xs"
  using dseg_chain chain_distinct by blast

lemma dseg_nx_notin [chain_simps]:
  "x \<notin> set xs \<Longrightarrow> dseg (nx(x := r)) pv b p xs \<longleftrightarrow> dseg nx pv b p xs"
  by (induction xs arbitrary: b p) auto

lemma dseg_pv_notin [chain_simps]:
  "x \<notin> set xs \<Longrightarrow> dseg nx (pv(x := r)) b p xs \<longleftrightarrow> dseg nx pv b p xs"
  by (induction xs arbitrary: b p) auto

lemma dseg_cong:
  "(\<And>x. x \<in> set xs \<Longrightarrow> nx x = nx' x \<and> pv x = pv' x) \<Longrightarrow> dseg nx pv b p xs \<longleftrightarrow> dseg nx' pv' b p xs"
  by (induction xs arbitrary: b p) auto

lemma dlist_None [simp]: "dseg nx pv b None xs \<longleftrightarrow> xs = []"
  by (cases xs) auto

lemma dlist_hd: "dseg nx pv b (Some x) xs \<longleftrightarrow>
    (\<exists>ys. xs = x # ys \<and> pv x = b \<and> dseg nx pv (Some x) (nx x) ys)"
  by (cases xs) auto

lemma dseg_prev_in: "dseg nx pv b p xs \<Longrightarrow> x \<in> set xs \<Longrightarrow> pv x = Some y \<Longrightarrow> b = Some y \<or> y \<in> set xs"
  by (induction xs arbitrary: b p) auto

lemma dseg_prev_Some:
  "dseg nx pv b p xs \<Longrightarrow> x \<in> set xs \<Longrightarrow> p \<noteq> Some x \<Longrightarrow> pv x \<noteq> None"
proof (induction xs arbitrary: b p)
  case Nil
  then show ?case by simp
next
  case (Cons y ys)
  then have "x \<in> set ys" and d: "dseg nx pv (Some y) (nx y) ys"
    by auto
  show ?case
  proof (cases "nx y = Some x")
    case True
    with d show ?thesis by (auto simp: dlist_hd)
  next
    case False
    with Cons.IH d \<open>x \<in> set ys\<close> show ?thesis by blast
  qed
qed

lemma dlist_member_iff:
  assumes "dlist nx pv p xs" and "x \<notin> set xs \<Longrightarrow> pv x = None"
  shows "(pv x \<noteq> None \<or> Some x = p) \<longleftrightarrow> x \<in> set xs"
proof
  assume "pv x \<noteq> None \<or> Some x = p"
  then show "x \<in> set xs"
    using assms by (cases "x \<in> set xs") (auto simp: dlist_hd)
next
  assume "x \<in> set xs"
  then show "pv x \<noteq> None \<or> Some x = p"
    using dseg_prev_Some [OF assms(1)] by metis
qed

text \<open>
  The two writes that put an object in front of a list, and the ones that unlink an object. The
  code of the object pool and of the timer queue does exactly these, so their effect is proved
  once.
\<close>

definition front_prev :: "'a field \<Rightarrow> 'a ptr \<Rightarrow> 'a \<Rightarrow> 'a field" where
  "front_prev pv p x = (let pv1 = pv(x := None) in case p of None \<Rightarrow> pv1 | Some y \<Rightarrow> pv1(y := Some x))"

lemma dlist_push_front:
  assumes "dlist nx pv p xs" and "x \<notin> set xs"
  shows "dlist (nx(x := p)) (front_prev pv p x) (Some x) (x # xs)"
  using assms dseg_distinct [OF assms(1)] by (cases xs) (auto simp: front_prev_def chain_simps)

definition unlink_next :: "'a field \<Rightarrow> 'a field \<Rightarrow> 'a \<Rightarrow> 'a field" where
  "unlink_next nx pv x = (case pv x of None \<Rightarrow> nx | Some y \<Rightarrow> nx(y := nx x))"

definition unlink_prev :: "'a field \<Rightarrow> 'a field \<Rightarrow> 'a \<Rightarrow> 'a field" where
  "unlink_prev nx pv x = (case nx x of None \<Rightarrow> pv | Some y \<Rightarrow> pv(y := pv x))"

definition unlink_head :: "'a field \<Rightarrow> 'a ptr \<Rightarrow> 'a \<Rightarrow> 'a ptr" where
  "unlink_head nx p x = (if p = Some x then nx x else p)"

lemma dseg_unlink_tail:
  assumes "dseg nx pv b p (a # xs @ x # ys)" and "distinct (a # xs @ x # ys)"
  shows "dseg (unlink_next nx pv x) (unlink_prev nx pv x) b p (a # xs @ ys)"
  using assms
proof (induction xs arbitrary: a b p)
  case Nil
  show ?case
  proof (cases ys)
    case Nil
    with \<open>dseg nx pv b p (a # [] @ x # ys)\<close> show ?thesis
      by (simp add: unlink_next_def unlink_prev_def)
  next
    case (Cons c zs)
    with Nil.prems have un: "unlink_next nx pv x = nx(a := Some c)"
      and up: "unlink_prev nx pv x = pv(c := Some a)"
      by (simp_all add: unlink_next_def unlink_prev_def)
    from Nil.prems Cons have "dseg (nx(a := Some c)) (pv(c := Some a)) (Some c) (nx c) zs"
      by (subst dseg_nx_notin, simp, subst dseg_pv_notin, simp_all)
    moreover from Nil.prems Cons have "c \<noteq> a" "x \<noteq> a" "c \<noteq> x"
      by auto
    ultimately show ?thesis
      using Nil.prems Cons unfolding un up by (simp del: fun_upd_apply add: fun_upd_same fun_upd_other)
  qed
next
  case (Cons c xs)
  from Cons.prems have sub: "dseg nx pv (Some a) (nx a) (c # xs @ x # ys)"
    and d: "distinct (c # xs @ x # ys)" and pa: "pv a = b" and p: "p = Some a"
    by auto
  from sub have "\<forall>y. pv x = Some y \<longrightarrow> y \<in> set (c # xs)"
    using d by (induction xs arbitrary: a c) (auto)
  moreover have "\<forall>y. nx x = Some y \<longrightarrow> y \<in> set ys"
    using sub by (induction xs arbitrary: a c; cases ys) auto
  ultimately have na: "unlink_next nx pv x a = nx a" and pva: "unlink_prev nx pv x a = pv a"
    using Cons.prems(2) by (auto simp: unlink_next_def unlink_prev_def split: option.splits)
  from Cons.IH [OF sub d] na pva pa p show ?case
    by simp
qed

lemma dlist_unlink:
  assumes "dlist nx pv p (xs @ x # ys)"
  shows "dlist (unlink_next nx pv x) (unlink_prev nx pv x) (unlink_head nx p x) (xs @ ys)"
proof (cases xs)
  case Nil
  with assms have d: "distinct (x # ys)"
    using dseg_distinct by fastforce
  with Nil assms show ?thesis
    by (cases ys) (auto simp: unlink_next_def unlink_prev_def unlink_head_def chain_simps)
next
  case (Cons a as)
  with assms have d: "distinct (a # as @ x # ys)" and p: "p = Some a"
    using dseg_distinct by fastforce+
  then have "unlink_head nx p x = p"
    by (auto simp: unlink_head_def)
  with dseg_unlink_tail [of nx pv None p a as x ys] assms Cons d show ?thesis
    by simp
qed

lemma unlink_outside:
  assumes "dlist nx pv p (xs @ x # ys)" and "z \<notin> set (xs @ x # ys)"
  shows "unlink_next nx pv x z = nx z" and "unlink_prev nx pv x z = pv z"
proof -
  have "\<And>y. pv x = Some y \<Longrightarrow> y \<in> set (xs @ x # ys)"
    using dseg_prev_in [OF assms(1), of x] by auto
  then show "unlink_next nx pv x z = nx z"
    using assms(2) by (auto simp: unlink_next_def split: option.splits)
  have "chain nx p (xs @ x # ys)"
    using assms(1) by (rule dseg_chain)
  then have "chain nx (nx x) ys"
    by (auto simp: chain_simps)
  then have "\<And>y. nx x = Some y \<Longrightarrow> y \<in> set ys"
    by (auto simp: chain_Some)
  then show "unlink_prev nx pv x z = pv z"
    using assms(2) by (auto simp: unlink_prev_def split: option.splits)
qed

lemma dseg_prev_not_self: "dseg nx pv b p xs \<Longrightarrow> b \<noteq> Some x \<Longrightarrow> x \<in> set xs \<Longrightarrow> pv x \<noteq> Some x"
proof (induction xs arbitrary: b p)
  case Nil
  then show ?case by simp
next
  case (Cons y ys)
  have "y \<notin> set ys"
    using dseg_distinct [OF Cons.prems(1)] by simp
  with Cons show ?case by (cases "x = y") auto
qed

text \<open>The code writes the predecessor's link before the successor's; the second write still reads \<open>x\<close>'s own link.\<close>

lemma unlink_prev_after_next:
  assumes "dlist nx pv p (xs @ x # ys)"
  shows "unlink_prev (unlink_next nx pv x) pv x = unlink_prev nx pv x"
  using dseg_prev_not_self [OF assms, of x]
  by (auto simp: unlink_prev_def unlink_next_def split: option.splits)

text \<open>The neighbours of the object at each place, and renaming an object in place.\<close>

lemma dseg_nth:
  "dseg nx pv b p xs \<Longrightarrow> i < length xs \<Longrightarrow>
     pv (xs ! i) = (if i = 0 then b else Some (xs ! (i - 1))) \<and>
     nx (xs ! i) = (if Suc i < length xs then Some (xs ! Suc i) else None)"
proof (induction xs arbitrary: b p i)
  case Nil
  then show ?case by simp
next
  case (Cons x xs)
  show ?case
  proof (cases i)
    case 0
    with Cons.prems show ?thesis by (cases xs) auto
  next
    case (Suc j)
    with Cons.prems Cons.IH [of "Some x" "nx x" j] show ?thesis
      by (auto simp: nth_Cons split: nat.splits)
  qed
qed

lemma dlist_inverse:
  assumes d: "dlist nx pv p xs" and x: "x \<in> set xs" and y: "y \<in> set xs"
  shows "nx x = Some y \<longleftrightarrow> pv y = Some x"
proof -
  obtain i j where i: "i < length xs" "x = xs ! i" and j: "j < length xs" "y = xs ! j"
    using x y by (metis in_set_conv_nth)
  have eq: "xs ! k = xs ! l \<longleftrightarrow> k = l" if "k < length xs" "l < length xs" for k l
    using nth_eq_iff_index_eq [OF dseg_distinct [OF d]] that by blast
  have "nx x = Some y \<longleftrightarrow> Suc i = j"
    using dseg_nth [OF d i(1)] eq [of "Suc i" j] i j by auto
  moreover have "pv y = Some x \<longleftrightarrow> Suc i = j"
    using dseg_nth [OF d j(1)] eq [of "j - 1" i] i j by auto
  ultimately show ?thesis by simp
qed

lemma dseg_map:
  "dseg nx pv b p xs \<Longrightarrow>
     (\<And>x. x \<in> set xs \<Longrightarrow> nx' (f x) = map_option f (nx x) \<and> pv' (f x) = map_option f (pv x)) \<Longrightarrow>
     dseg nx' pv' (map_option f b) (map_option f p) (map f xs)"
  by (induction xs arbitrary: b p) fastforce+

lemma dlist_next_in: "dseg nx pv b p xs \<Longrightarrow> x \<in> set xs \<Longrightarrow> nx x = Some y \<Longrightarrow> y \<in> set xs \<and> y \<noteq> x"
proof -
  assume d: "dseg nx pv b p xs" and "x \<in> set xs" and n: "nx x = Some y"
  then obtain i where i: "i < length xs" "x = xs ! i"
    by (metis in_set_conv_nth)
  with dseg_nth [OF d i(1)] n have "Suc i < length xs" "y = xs ! Suc i"
    by (auto split: if_splits)
  with i nth_eq_iff_index_eq [OF dseg_distinct [OF d], of "Suc i" i] show ?thesis
    by simp
qed

end
