(* ===== verification/ErrorCodes.thy ===== *)
theory ErrorCodes
  imports AsioPrelude
begin

text \<open>
  \<open>include/asio/error/error.hpp\<close>, \<open>error.ipp\<close>, \<open>throw_error.hpp\<close>: the error enumerations, the
  categories, \<open>make_error_code\<close> and the category messages. An \<open>error_code\<close> is the pair of a number and
  a category, as \<open>std::error_code\<close> is; two of them are equal when both parts are. The numbers of the
  system, netdb and addrinfo enumerators are those of the Linux headers, where \<open>EWOULDBLOCK\<close> and
  \<open>EAGAIN\<close> are the same number.
\<close>

datatype basic_errors =
    access_denied | address_family_not_supported | address_in_use | already_connected
  | already_started | broken_pipe | connection_aborted | connection_refused | connection_reset
  | bad_descriptor | fault | host_unreachable | in_progress | interrupted | invalid_argument
  | message_size | name_too_long | network_down | network_reset | network_unreachable
  | no_descriptors | no_buffer_space | no_memory | no_permission | no_protocol_option
  | no_such_device | not_connected | not_socket | operation_aborted | operation_not_supported
  | shut_down | timed_out | try_again | would_block

datatype netdb_errors = host_not_found | host_not_found_try_again | no_data | no_recovery

datatype addrinfo_errors = service_not_found | socket_type_not_supported

datatype misc_errors = already_open | eof | not_found | fd_set_failure

datatype error_category = system_category | netdb_category | addrinfo_category | misc_category

datatype error_code = ErrorCode (ec_value: int) (ec_category: error_category)

text \<open>The default constructed code, \<open>error_code()\<close>, and the test \<open>if (ec)\<close>.\<close>

definition no_error :: error_code where
  "no_error = ErrorCode 0 system_category"

definition ec_failed :: "error_code \<Rightarrow> bool" where
  "ec_failed ec \<longleftrightarrow> ec_value ec \<noteq> 0"

fun basic_value :: "basic_errors \<Rightarrow> int" where
  "basic_value access_denied = 13"
| "basic_value address_family_not_supported = 97"
| "basic_value address_in_use = 98"
| "basic_value already_connected = 106"
| "basic_value already_started = 114"
| "basic_value broken_pipe = 32"
| "basic_value connection_aborted = 103"
| "basic_value connection_refused = 111"
| "basic_value connection_reset = 104"
| "basic_value bad_descriptor = 9"
| "basic_value fault = 14"
| "basic_value host_unreachable = 113"
| "basic_value in_progress = 115"
| "basic_value interrupted = 4"
| "basic_value invalid_argument = 22"
| "basic_value message_size = 90"
| "basic_value name_too_long = 36"
| "basic_value network_down = 100"
| "basic_value network_reset = 102"
| "basic_value network_unreachable = 101"
| "basic_value no_descriptors = 24"
| "basic_value no_buffer_space = 105"
| "basic_value no_memory = 12"
| "basic_value no_permission = 1"
| "basic_value no_protocol_option = 92"
| "basic_value no_such_device = 19"
| "basic_value not_connected = 107"
| "basic_value not_socket = 88"
| "basic_value operation_aborted = 125"
| "basic_value operation_not_supported = 95"
| "basic_value shut_down = 108"
| "basic_value timed_out = 110"
| "basic_value try_again = 11"
| "basic_value would_block = 11"

fun netdb_value :: "netdb_errors \<Rightarrow> int" where
  "netdb_value host_not_found = 1"
| "netdb_value host_not_found_try_again = 2"
| "netdb_value no_data = 4"
| "netdb_value no_recovery = 3"

fun addrinfo_value :: "addrinfo_errors \<Rightarrow> int" where
  "addrinfo_value service_not_found = - 8"
| "addrinfo_value socket_type_not_supported = - 7"

fun misc_value :: "misc_errors \<Rightarrow> int" where
  "misc_value already_open = 1"
| "misc_value eof = 2"
| "misc_value not_found = 3"
| "misc_value fd_set_failure = 4"

definition basic_ec :: "basic_errors \<Rightarrow> error_code" where
  "basic_ec e = ErrorCode (basic_value e) system_category"

definition netdb_ec :: "netdb_errors \<Rightarrow> error_code" where
  "netdb_ec e = ErrorCode (netdb_value e) netdb_category"

definition addrinfo_ec :: "addrinfo_errors \<Rightarrow> error_code" where
  "addrinfo_ec e = ErrorCode (addrinfo_value e) addrinfo_category"

definition misc_ec :: "misc_errors \<Rightarrow> error_code" where
  "misc_ec e = ErrorCode (misc_value e) misc_category"

text \<open>\<open>error_code(errno, get_system_category())\<close>.\<close>

definition system_ec :: "int \<Rightarrow> error_code" where
  "system_ec errno = ErrorCode errno system_category"

definition netdb_message :: "int \<Rightarrow> string" where
  "netdb_message value =
     (if value = netdb_value host_not_found then ''Host not found (authoritative)''
      else if value = netdb_value host_not_found_try_again
        then ''Host not found (non-authoritative), try again later''
      else if value = netdb_value no_data
        then ''The query is valid, but it does not have associated data''
      else if value = netdb_value no_recovery
        then ''A non-recoverable error occurred during database lookup''
      else ''asio.netdb error'')"

definition addrinfo_message :: "int \<Rightarrow> string" where
  "addrinfo_message value =
     (if value = addrinfo_value service_not_found then ''Service not found''
      else if value = addrinfo_value socket_type_not_supported then ''Socket type not supported''
      else ''asio.addrinfo error'')"

definition misc_message :: "int \<Rightarrow> string" where
  "misc_message value =
     (if value = misc_value already_open then ''Already open''
      else if value = misc_value eof then ''End of file''
      else if value = misc_value not_found then ''Element not found''
      else if value = misc_value fd_set_failure
        then ''The descriptor does not fit into the select call's fd_set''
      else ''asio.misc error'')"

text \<open>\<open>throw_error\<close> turns a failed code into an exception; the exception value is the code.\<close>

definition throw_error :: "error_code \<Rightarrow> error_code + unit" where
  "throw_error err = (if ec_failed err then Inl err else Inr ())"

lemma ec_failed_simps [simp]:
  "\<not> ec_failed no_error"
  "ec_failed (basic_ec e)"
  "ec_failed (netdb_ec n)"
  "ec_failed (addrinfo_ec a)"
  "ec_failed (misc_ec m)"
  by (simp_all add: ec_failed_def no_error_def basic_ec_def netdb_ec_def addrinfo_ec_def misc_ec_def)
    ((cases e; simp), (cases n; simp), (cases a; simp), (cases m; simp))

lemma would_block_is_try_again: "basic_ec would_block = basic_ec try_again"
  by (simp add: basic_ec_def)

lemma misc_ec_neq_basic [simp]: "misc_ec m \<noteq> basic_ec e" "basic_ec e \<noteq> misc_ec m"
  by (simp_all add: misc_ec_def basic_ec_def)

lemma basic_ec_neq_no_error [simp]: "basic_ec e \<noteq> no_error" "no_error \<noteq> basic_ec e"
  by (metis ec_failed_simps(1,2))+

lemma misc_ec_neq_no_error [simp]: "misc_ec m \<noteq> no_error" "no_error \<noteq> misc_ec m"
  by (metis ec_failed_simps(1,5))+

end
