(* ===== verification/OpQueue.thy ===== *)
theory OpQueue
  imports ErrorCodes
begin

text \<open>
  \<open>include/asio/detail/container/op_queue.hpp\<close>: the intrusive FIFO of operations. The links are the
  \<open>next_\<close> fields of the operations themselves (\<open>scheduler_operation\<close>), one field shared by every
  queue; a queue holds its two end pointers. An operation returns the field and the queue updated.
\<close>

record 'o op_queue =
  oq_front :: "'o ptr"
  oq_back :: "'o ptr"

definition op_queue_new :: "'o op_queue" where
  "op_queue_new = \<lparr>oq_front = None, oq_back = None\<rparr>"

definition op_queue_front :: "'o op_queue \<Rightarrow> 'o ptr" where
  "op_queue_front q = oq_front q"

definition op_queue_empty :: "'o op_queue \<Rightarrow> bool" where
  "op_queue_empty q \<longleftrightarrow> oq_front q = None"

definition op_queue_pop :: "'o field \<Rightarrow> 'o op_queue \<Rightarrow> 'o field \<times> 'o op_queue" where
  "op_queue_pop nxt q =
     (case oq_front q of
        None \<Rightarrow> (nxt, q)
      | Some tmp \<Rightarrow>
          let q1 = q\<lparr>oq_front := nxt tmp\<rparr>;
              q2 = (if oq_front q1 = None then q1\<lparr>oq_back := None\<rparr> else q1)
          in (nxt(tmp := None), q2))"

definition op_queue_push :: "'o field \<Rightarrow> 'o op_queue \<Rightarrow> 'o \<Rightarrow> 'o field \<times> 'o op_queue" where
  "op_queue_push nxt q h =
     (let next1 = nxt(h := None) in
      case oq_back q of
        Some b \<Rightarrow> (next1(b := Some h), q\<lparr>oq_back := Some h\<rparr>)
      | None \<Rightarrow> (next1, q\<lparr>oq_front := Some h, oq_back := Some h\<rparr>))"

text \<open>
  Pushing a whole queue: the links, the receiving queue and the emptied one. In C++ the two are
  distinct objects of possibly different element types.
\<close>

definition op_queue_push_queue ::
  "'o field \<Rightarrow> 'o op_queue \<Rightarrow> 'o op_queue \<Rightarrow> 'o field \<times> 'o op_queue \<times> 'o op_queue" where
  "op_queue_push_queue nxt q other =
     (case oq_front other of
        None \<Rightarrow> (nxt, q, other)
      | Some other_front \<Rightarrow>
          let (next1, q1) =
                (case oq_back q of
                   Some b \<Rightarrow> (nxt(b := Some other_front), q)
                 | None \<Rightarrow> (nxt, q\<lparr>oq_front := Some other_front\<rparr>))
          in (next1, q1\<lparr>oq_back := oq_back other\<rparr>, \<lparr>oq_front = None, oq_back = None\<rparr>))"

definition op_queue_is_enqueued :: "'o field \<Rightarrow> 'o op_queue \<Rightarrow> 'o \<Rightarrow> bool" where
  "op_queue_is_enqueued nxt q o' \<longleftrightarrow> nxt o' \<noteq> None \<or> oq_back q = Some o'"

text \<open>The destructor: pop and destroy until empty. The list collects what was destroyed, in order.\<close>

partial_function (option) op_queue_destroy ::
  "'o field \<Rightarrow> 'o op_queue \<Rightarrow> 'o list \<Rightarrow> ('o field \<times> 'o op_queue \<times> 'o list) option" where
  "op_queue_destroy nxt q destroyed =
     (case oq_front q of
        None \<Rightarrow> Some (nxt, q, destroyed)
      | Some op \<Rightarrow>
          op_queue_destroy (fst (op_queue_pop nxt q)) (snd (op_queue_pop nxt q))
            (destroyed @ [op]))"

text \<open>\<open>queue_of n q xs\<close>: with links \<open>n\<close>, the queue \<open>q\<close> holds the operations \<open>xs\<close>, front first.\<close>

definition queue_of :: "'o field \<Rightarrow> 'o op_queue \<Rightarrow> 'o list \<Rightarrow> bool" where
  "queue_of n q xs \<longleftrightarrow>
     chain n (oq_front q) xs \<and> oq_back q = (if xs = [] then None else Some (last xs))"

section \<open>The queue against its list\<close>

lemma queue_of_new: "queue_of n op_queue_new []"
  by (simp add: queue_of_def op_queue_new_def)

lemma queue_of_distinct: "queue_of n q xs \<Longrightarrow> distinct xs"
  by (auto simp: queue_of_def intro: chain_distinct)

lemma queue_of_unique: "queue_of n q xs \<Longrightarrow> queue_of n q ys \<Longrightarrow> xs = ys"
  by (auto simp: queue_of_def dest: chain_unique)

lemma queue_of_front: "queue_of n q xs \<Longrightarrow> op_queue_front q = (case xs of [] \<Rightarrow> None | x # _ \<Rightarrow> Some x)"
  by (cases xs) (auto simp: queue_of_def op_queue_front_def)

lemma queue_of_empty: "queue_of n q xs \<Longrightarrow> op_queue_empty q \<longleftrightarrow> xs = []"
  by (cases xs) (auto simp: queue_of_def op_queue_empty_def)

text \<open>A queue whose members a write does not touch keeps its contents.\<close>

lemma queue_of_frame: "queue_of n q xs \<Longrightarrow> (\<And>x. x \<in> set xs \<Longrightarrow> m x = n x) \<Longrightarrow> queue_of m q xs"
  using seg_cong [of xs m n] by (auto simp: queue_of_def)

lemma pop_writes: "queue_of n q (x # xs) \<Longrightarrow> fst (op_queue_pop n q) = n(x := None)"
  by (auto simp: queue_of_def op_queue_pop_def Let_def)

lemma queue_of_pop:
  assumes "queue_of n q (x # xs)"
  shows "queue_of (fst (op_queue_pop n q)) (snd (op_queue_pop n q)) xs"
proof -
  from assms have f: "oq_front q = Some x" and c: "chain n (n x) xs" and d: "x \<notin> set xs"
    and b: "oq_back q = Some (last (x # xs))"
    using queue_of_distinct [OF assms] by (auto simp: queue_of_def)
  from c d have "chain (n(x := None)) (n x) xs"
    by (simp add: chain_simps)
  moreover have "n x = None \<longleftrightarrow> xs = []"
    using c by (cases xs) auto
  ultimately show ?thesis
    using f b by (auto simp: op_queue_pop_def queue_of_def Let_def split: if_splits)
qed

lemma push_writes:
  "queue_of n q xs \<Longrightarrow> z \<noteq> h \<Longrightarrow> z \<notin> set xs \<Longrightarrow> fst (op_queue_push n q h) z = n z"
  by (auto simp: op_queue_push_def queue_of_def Let_def split: if_splits)

lemma queue_of_push:
  assumes "queue_of n q xs" and "h \<notin> set xs"
  shows "queue_of (fst (op_queue_push n q h)) (snd (op_queue_push n q h)) (xs @ [h])"
proof (cases "xs = []")
  case True
  with assms show ?thesis
    by (auto simp: op_queue_push_def queue_of_def Let_def)
next
  case False
  with assms have b: "oq_back q = Some (last xs)" and c: "chain n (oq_front q) xs"
    by (auto simp: queue_of_def)
  from c assms(2) have "chain (n(h := None)) (oq_front q) xs"
    by (simp add: chain_simps)
  then have "chain ((n(h := None))(last xs := Some h)) (oq_front q) (xs @ [h])"
    using False assms(2) by (intro chain_extend) auto
  with b show ?thesis
    by (simp add: op_queue_push_def queue_of_def Let_def)
qed

lemma push_queue_writes:
  "queue_of n q xs \<Longrightarrow> z \<notin> set xs \<Longrightarrow> fst (op_queue_push_queue n q r) z = n z"
  by (auto simp: op_queue_push_queue_def queue_of_def Let_def split: option.splits if_splits)

lemma queue_of_push_queue:
  assumes "queue_of n q xs" and "queue_of n r ys" and "set xs \<inter> set ys = {}"
    and "op_queue_push_queue n q r = (n', q', r')"
  shows "queue_of n' q' (xs @ ys) \<and> queue_of n' r' []"
proof (cases ys)
  case Nil
  with assms show ?thesis
    by (auto simp: op_queue_push_queue_def queue_of_def)
next
  case (Cons y zs)
  with assms(2) have f: "oq_front r = Some y" and b: "oq_back r = Some (last ys)"
    and c: "chain n (Some y) ys"
    by (auto simp: queue_of_def)
  show ?thesis
  proof (cases "xs = []")
    case True
    with assms f b c Cons show ?thesis
      by (auto simp: op_queue_push_queue_def queue_of_def Let_def)
  next
    case False
    with assms(1,3) c have "chain (n(last xs := Some y)) (oq_front q) (xs @ ys)"
      by (intro chain_extend) (auto simp: queue_of_def)
    with False assms(1,4) f b Cons show ?thesis
      by (auto simp: op_queue_push_queue_def queue_of_def Let_def)
  qed
qed

lemma is_enqueued_iff:
  assumes "queue_of n q xs" and "x \<notin> set xs \<Longrightarrow> n x = None"
  shows "op_queue_is_enqueued n q x \<longleftrightarrow> x \<in> set xs"
proof
  assume "op_queue_is_enqueued n q x"
  then show "x \<in> set xs"
    using assms by (cases "x \<in> set xs") (auto simp: op_queue_is_enqueued_def queue_of_def split: if_splits)
next
  assume "x \<in> set xs"
  then obtain as bs where xs: "xs = as @ x # bs"
    by (meson split_list)
  with assms(1) have "chain n (n x) bs"
    by (auto simp: queue_of_def chain_simps)
  then show "op_queue_is_enqueued n q x"
    using assms(1) xs by (cases bs) (auto simp: op_queue_is_enqueued_def queue_of_def)
qed

lemma op_queue_destroy_all:
  "queue_of n q xs \<Longrightarrow>
     \<exists>n' q'. op_queue_destroy n q ds = Some (n', q', ds @ xs) \<and> queue_of n' q' []"
proof (induction xs arbitrary: n q ds)
  case Nil
  then have "oq_front q = None"
    by (simp add: queue_of_def)
  with Nil show ?case
    by (subst op_queue_destroy.simps) simp
next
  case (Cons x xs)
  then have f: "oq_front q = Some x"
    by (simp add: queue_of_def)
  from Cons.IH [OF queue_of_pop [OF Cons.prems], of "ds @ [x]"] f show ?case
    by (subst op_queue_destroy.simps) simp
qed

section \<open>The interface\<close>

text \<open>
  What the reactors, the timer queue and the scheduler rely on: a memory \<open>'m\<close> of links, queues \<open>'q\<close>,
  and laws that say what each operation does to the contents of the queue it works on and that it
  leaves other queues alone.
\<close>

locale fifo =
  fixes holds :: "'m \<Rightarrow> 'q \<Rightarrow> 'o list \<Rightarrow> bool"
    and frontq :: "'q \<Rightarrow> 'o option"
    and popq :: "'m \<Rightarrow> 'q \<Rightarrow> 'm \<times> 'q"
    and pushq :: "'m \<Rightarrow> 'q \<Rightarrow> 'o \<Rightarrow> 'm \<times> 'q"
  assumes front_law: "holds m q xs \<Longrightarrow> frontq q = (case xs of [] \<Rightarrow> None | x # _ \<Rightarrow> Some x)"
    and distinct_law: "holds m q xs \<Longrightarrow> distinct xs"
    and pop_law: "holds m q (x # xs) \<Longrightarrow> holds (fst (popq m q)) (snd (popq m q)) xs"
    and pop_frame: "holds m q (x # xs) \<Longrightarrow> holds m r ys \<Longrightarrow> x \<notin> set ys \<Longrightarrow> holds (fst (popq m q)) r ys"
    and push_law: "holds m q xs \<Longrightarrow> x \<notin> set xs \<Longrightarrow>
      holds (fst (pushq m q x)) (snd (pushq m q x)) (xs @ [x])"
    and push_frame: "holds m q xs \<Longrightarrow> holds m r ys \<Longrightarrow> set xs \<inter> set ys = {} \<Longrightarrow> x \<notin> set ys \<Longrightarrow>
      holds (fst (pushq m q x)) r ys"

text \<open>
  The loop the reactors and the timer queue use to abort operations,
  \<^verbatim>\<open>while (op = src.front()) { op->ec_ = ec; src.pop(); dst.push(op); }\<close>
  over any implementation of the interface; \<open>ecs\<close> is the \<open>ec_\<close> field of the operations.
\<close>

partial_function (option) abort_ops ::
  "('q \<Rightarrow> 'o option) \<Rightarrow> ('m \<Rightarrow> 'q \<Rightarrow> 'm \<times> 'q) \<Rightarrow> ('m \<Rightarrow> 'q \<Rightarrow> 'o \<Rightarrow> 'm \<times> 'q) \<Rightarrow> error_code \<Rightarrow>
   ('o \<Rightarrow> error_code) \<Rightarrow> 'm \<Rightarrow> 'q \<Rightarrow> 'q \<Rightarrow> (('o \<Rightarrow> error_code) \<times> 'm \<times> 'q \<times> 'q) option" where
  "abort_ops frontq popq pushq e ecs m src dst =
     (case frontq src of
        None \<Rightarrow> Some (ecs, m, src, dst)
      | Some op \<Rightarrow>
          let (m1, src1) = popq m src;
              (m2, dst1) = pushq m1 dst op
          in abort_ops frontq popq pushq e (ecs(op := e)) m2 src1 dst1)"

context fifo
begin

lemma abort_ops_moves:
  assumes "holds m src xs" and "holds m dst ys" and "set xs \<inter> set ys = {}"
  shows "\<exists>m' src' dst'.
    abort_ops frontq popq pushq e ecs m src dst =
      Some (\<lambda>o'. if o' \<in> set xs then e else ecs o', m', src', dst') \<and>
    holds m' src' [] \<and> holds m' dst' (ys @ xs)"
  using assms
proof (induction xs arbitrary: m src dst ys ecs)
  case Nil
  then have "frontq src = None"
    using front_law by fastforce
  with Nil show ?case
    by (subst abort_ops.simps) auto
next
  case (Cons x xs)
  have f: "frontq src = Some x"
    using front_law [OF Cons.prems(1)] by simp
  obtain m1 src1 where p: "popq m src = (m1, src1)"
    by (cases "popq m src")
  obtain m2 dst1 where u: "pushq m1 dst x = (m2, dst1)"
    by (cases "pushq m1 dst x")
  have d: "x \<notin> set xs"
    using distinct_law [OF Cons.prems(1)] by simp
  have s1: "holds m1 src1 xs"
    using pop_law [OF Cons.prems(1)] p by simp
  have d1: "holds m1 dst ys"
    using pop_frame [OF Cons.prems(1,2)] Cons.prems(3) p by simp
  have s2: "holds m2 src1 xs"
    using push_frame [OF d1 s1, of x] Cons.prems(3) d u by auto
  have d2: "holds m2 dst1 (ys @ [x])"
    using push_law [OF d1, of x] Cons.prems(3) u by simp
  have "set xs \<inter> set (ys @ [x]) = {}"
    using Cons.prems(3) d by auto
  from Cons.IH [OF s2 d2 this, of "ecs(x := e)"] obtain m' src' dst' where
    "abort_ops frontq popq pushq e (ecs(x := e)) m2 src1 dst1 =
       Some (\<lambda>o'. if o' \<in> set xs then e else (ecs(x := e)) o', m', src', dst')"
    and "holds m' src' []" and "holds m' dst' ((ys @ [x]) @ xs)"
    by blast
  moreover have "(\<lambda>o'. if o' \<in> set xs then e else (ecs(x := e)) o') =
      (\<lambda>o'. if o' \<in> set (x # xs) then e else ecs o')"
    by auto
  ultimately show ?case
    by (subst abort_ops.simps) (auto simp: f p u)
qed

end

interpretation opq: fifo queue_of op_queue_front op_queue_pop op_queue_push
proof unfold_locales
  fix m :: "'a field" and q r :: "'a op_queue" and x :: 'a and xs ys :: "'a list"
  show "queue_of m q xs \<Longrightarrow> op_queue_front q = (case xs of [] \<Rightarrow> None | x # _ \<Rightarrow> Some x)"
    by (rule queue_of_front)
  show "queue_of m q xs \<Longrightarrow> distinct xs"
    by (rule queue_of_distinct)
  show "queue_of m q (x # xs) \<Longrightarrow>
      queue_of (fst (op_queue_pop m q)) (snd (op_queue_pop m q)) xs"
    by (rule queue_of_pop)
  show "queue_of m q (x # xs) \<Longrightarrow> queue_of m r ys \<Longrightarrow> x \<notin> set ys \<Longrightarrow>
      queue_of (fst (op_queue_pop m q)) r ys"
    by (rule queue_of_frame [of m]) (auto simp: pop_writes)
  show "queue_of m q xs \<Longrightarrow> x \<notin> set xs \<Longrightarrow>
      queue_of (fst (op_queue_push m q x)) (snd (op_queue_push m q x)) (xs @ [x])"
    by (rule queue_of_push)
  show "queue_of m q xs \<Longrightarrow> queue_of m r ys \<Longrightarrow> set xs \<inter> set ys = {} \<Longrightarrow> x \<notin> set ys \<Longrightarrow>
      queue_of (fst (op_queue_push m q x)) r ys"
    by (rule queue_of_frame [of m]) (auto intro!: push_writes)
qed

end
