(* ===== verification/TimerQueue.thy ===== *)
theory TimerQueue
  imports OpQueue
begin

text \<open>
  \<open>include/asio/detail/reactor/timeQueue/timer_queue.hpp\<close>: the timers of one time traits type, as a
  binary min-heap in a vector (each timer knows its index in the heap) and a doubly linked list of
  the active timers. The \<open>per_timer_data\<close> objects are of type \<open>'a\<close>; their four fields are functions in
  the state. The operations waiting on a timer are a list, which \<open>OpQueue.queue_of\<close> implements.
  \<open>Time_Traits::less_than\<close> is \<open><\<close> of a linear order, as in \<open>chrono_time_traits\<close>;
  \<open>is_positive_infinity\<close> is a parameter, since its overloads depend on the time type.
\<close>

record ('t, 'a, 'o) timer_queue =
  timers :: "'a ptr"
  heap :: "('t \<times> 'a) list"
  op_queue_of :: "'a \<Rightarrow> 'o list"
  heap_index :: "'a \<Rightarrow> nat"
  t_next :: "'a field"
  t_prev :: "'a field"

text \<open>A new queue, with every timer as its constructor leaves it.\<close>

definition timer_queue_new :: "('t, 'a, 'o) timer_queue" where
  "timer_queue_new =
     \<lparr>timers = None, heap = [], op_queue_of = (\<lambda>_. []), heap_index = (\<lambda>_. size_max),
      t_next = (\<lambda>_. None), t_prev = (\<lambda>_. None)\<rparr>"

definition timer_queue_empty :: "('t, 'a, 'o) timer_queue \<Rightarrow> bool" where
  "timer_queue_empty tq \<longleftrightarrow> timers tq = None"

definition swap_heap :: "('t, 'a, 'o) timer_queue \<Rightarrow> nat \<Rightarrow> nat \<Rightarrow> ('t, 'a, 'o) timer_queue" where
  "swap_heap tq index1 index2 =
     (let tmp = heap tq ! index1;
          h1 = (heap tq)[index1 := heap tq ! index2];
          h2 = h1[index2 := tmp]
      in tq\<lparr>heap := h2,
            heap_index := (heap_index tq)(snd (h2 ! index1) := index1, snd (h2 ! index2) := index2)\<rparr>)"

lemma length_heap_swap [simp]: "length (heap (swap_heap tq i j)) = length (heap tq)"
  by (simp add: swap_heap_def Let_def)

function up_heap :: "('t::linorder, 'a, 'o) timer_queue \<Rightarrow> nat \<Rightarrow> ('t, 'a, 'o) timer_queue" where
  "up_heap tq index =
     (if index > 0 then
        let parent = (index - 1) div 2 in
        if \<not> fst (heap tq ! index) < fst (heap tq ! parent) then tq
        else up_heap (swap_heap tq index parent) parent
      else tq)"
  by pat_completeness auto
termination
  by (relation "measure snd") auto

function down_heap :: "('t::linorder, 'a, 'o) timer_queue \<Rightarrow> nat \<Rightarrow> ('t, 'a, 'o) timer_queue" where
  "down_heap tq index =
     (let child = index * 2 + 1 in
      if child < length (heap tq) then
        let min_child =
              (if child + 1 = length (heap tq)
                  \<or> fst (heap tq ! child) < fst (heap tq ! (child + 1))
               then child else child + 1) in
        if fst (heap tq ! index) < fst (heap tq ! min_child) then tq
        else down_heap (swap_heap tq index min_child) min_child
      else tq)"
  by pat_completeness auto
termination
  by (relation "measure (\<lambda>(tq, index). length (heap tq) - index)") (auto split: if_splits)

declare up_heap.simps [simp del] down_heap.simps [simp del]

text \<open>Taking a timer out of the heap, the first half of \<open>remove_timer\<close>, and then off the list.\<close>

definition heap_remove :: "('t::linorder, 'a, 'o) timer_queue \<Rightarrow> 'a \<Rightarrow> ('t, 'a, 'o) timer_queue" where
  "heap_remove tq timer =
     (let index = heap_index tq timer in
      if heap tq \<noteq> [] \<and> index < length (heap tq) then
        if index = length (heap tq) - 1 then
          tq\<lparr>heap_index := (heap_index tq)(timer := size_max), heap := butlast (heap tq)\<rparr>
        else
          let s = swap_heap tq index (length (heap tq) - 1);
              s1 = s\<lparr>heap_index := (heap_index s)(timer := size_max), heap := butlast (heap s)\<rparr>
          in if index > 0 \<and> fst (heap s1 ! index) < fst (heap s1 ! ((index - 1) div 2))
             then up_heap s1 index else down_heap s1 index
      else tq)"

definition list_remove :: "('t, 'a, 'o) timer_queue \<Rightarrow> 'a \<Rightarrow> ('t, 'a, 'o) timer_queue" where
  "list_remove tq timer =
     (let tq1 = tq\<lparr>timers := unlink_head (t_next tq) (timers tq) timer\<rparr>;
          tq2 = tq1\<lparr>t_next := unlink_next (t_next tq1) (t_prev tq1) timer\<rparr>;
          tq3 = tq2\<lparr>t_prev := unlink_prev (t_next tq2) (t_prev tq2) timer\<rparr>
      in tq3\<lparr>t_next := (t_next tq3)(timer := None), t_prev := (t_prev tq3)(timer := None)\<rparr>)"

definition remove_timer :: "('t::linorder, 'a, 'o) timer_queue \<Rightarrow> 'a \<Rightarrow> ('t, 'a, 'o) timer_queue" where
  "remove_timer tq timer = list_remove (heap_remove tq timer) timer"

text \<open>\<open>timer.prev_ != 0 || &timer == timers_\<close>: the test for an active timer.\<close>

definition in_active_list :: "('t, 'a, 'o) timer_queue \<Rightarrow> 'a \<Rightarrow> bool" where
  "in_active_list tq timer \<longleftrightarrow> t_prev tq timer \<noteq> None \<or> Some timer = timers tq"

definition enqueue_timer ::
  "('t::linorder \<Rightarrow> bool) \<Rightarrow> 't \<Rightarrow> 'a \<Rightarrow> 'o \<Rightarrow> ('t, 'a, 'o) timer_queue \<Rightarrow>
   ('t, 'a, 'o) timer_queue \<times> bool" where
  "enqueue_timer is_positive_infinity time timer op tq =
     (let tq1 =
        (if t_prev tq timer = None \<and> Some timer \<noteq> timers tq then
           let tq2 =
             (if is_positive_infinity time then
                tq\<lparr>heap_index := (heap_index tq)(timer := size_max)\<rparr>
              else
                let h = heap tq @ [(time, timer)] in
                up_heap (tq\<lparr>heap_index := (heap_index tq)(timer := length (heap tq)), heap := h\<rparr>)
                  (length h - 1))
           in tq2\<lparr>t_next := (t_next tq2)(timer := timers tq2),
                  t_prev := front_prev (t_prev tq2) (timers tq2) timer,
                  timers := Some timer\<rparr>
         else tq);
          tq3 = tq1\<lparr>op_queue_of := (op_queue_of tq1)(timer := op_queue_of tq1 timer @ [op])\<rparr>
      in (tq3, heap_index tq3 timer = 0 \<and> hd (op_queue_of tq3 timer) = op))"

partial_function (option) get_ready_timers ::
  "'t::linorder \<Rightarrow> ('t, 'a, 'o) timer_queue \<Rightarrow> 'o list \<Rightarrow> (('t, 'a, 'o) timer_queue \<times> 'o list) option" where
  "get_ready_timers now tq ops =
     (if heap tq \<noteq> [] \<and> \<not> now < fst (heap tq ! 0) then
        (let timer = snd (heap tq ! 0) in
         get_ready_timers now
           (remove_timer (tq\<lparr>op_queue_of := (op_queue_of tq)(timer := [])\<rparr>) timer)
           (ops @ op_queue_of tq timer))
      else Some (tq, ops))"

partial_function (option) get_all_timers_loop ::
  "('t, 'a, 'o) timer_queue \<Rightarrow> 'o list \<Rightarrow> (('t, 'a, 'o) timer_queue \<times> 'o list) option" where
  "get_all_timers_loop tq ops =
     (case timers tq of
        None \<Rightarrow> Some (tq, ops)
      | Some timer \<Rightarrow>
          get_all_timers_loop
            (tq\<lparr>timers := t_next tq timer,
                op_queue_of := (op_queue_of tq)(timer := []),
                t_next := (t_next tq)(timer := None),
                t_prev := (t_prev tq)(timer := None)\<rparr>)
            (ops @ op_queue_of tq timer))"

definition get_all_timers ::
  "('t, 'a, 'o) timer_queue \<Rightarrow> 'o list \<Rightarrow> (('t, 'a, 'o) timer_queue \<times> 'o list) option" where
  "get_all_timers tq ops =
     map_option (\<lambda>(tq1, ops1). (tq1\<lparr>heap := []\<rparr>, ops1)) (get_all_timers_loop tq ops)"

text \<open>
  Cancelling at most \<open>max_cancelled\<close> operations of a timer. The loop pops from the timer's list while
  it is not empty and the count differs from the maximum; each popped operation's \<open>ec_\<close> is set.
\<close>

fun cancel_loop ::
  "nat \<Rightarrow> nat \<Rightarrow> ('o \<Rightarrow> error_code) \<Rightarrow> 'o list \<Rightarrow> 'o list \<Rightarrow>
   ('o \<Rightarrow> error_code) \<times> 'o list \<times> 'o list \<times> nat" where
  "cancel_loop max_cancelled num ecs [] ops = (ecs, [], ops, num)"
| "cancel_loop max_cancelled num ecs (op # q) ops =
     (if num \<noteq> max_cancelled then
        cancel_loop max_cancelled (Suc num) (ecs(op := basic_ec operation_aborted)) q (ops @ [op])
      else (ecs, op # q, ops, num))"

definition timer_cancel ::
  "('t::linorder, 'a, 'o) timer_queue \<Rightarrow> 'a \<Rightarrow> ('o \<Rightarrow> error_code) \<Rightarrow> 'o list \<Rightarrow> nat \<Rightarrow>
   ('t, 'a, 'o) timer_queue \<times> ('o \<Rightarrow> error_code) \<times> 'o list \<times> nat" where
  "timer_cancel tq timer ecs ops max_cancelled =
     (if in_active_list tq timer then
        let (ecs1, q, ops1, num) = cancel_loop max_cancelled 0 ecs (op_queue_of tq timer) ops;
            tq1 = tq\<lparr>op_queue_of := (op_queue_of tq)(timer := q)\<rparr>;
            tq2 = (if q = [] then remove_timer tq1 timer else tq1)
        in (tq2, ecs1, ops1, num)
      else (tq, ecs, ops, 0))"

definition move_timer :: "('t, 'a, 'o) timer_queue \<Rightarrow> 'a \<Rightarrow> 'a \<Rightarrow> ('t, 'a, 'o) timer_queue" where
  "move_timer tq target source =
     (let tq1 = tq\<lparr>op_queue_of := (op_queue_of tq)
                    (target := op_queue_of tq target @ op_queue_of tq source, source := [])\<rparr>;
          tq2 = tq1\<lparr>heap_index := (heap_index tq1)
                    (target := heap_index tq1 source, source := size_max)\<rparr>;
          tq3 = (if heap_index tq2 target < length (heap tq2)
                 then tq2\<lparr>heap := (heap tq2)[heap_index tq2 target :=
                        (fst (heap tq2 ! heap_index tq2 target), target)]\<rparr>
                 else tq2);
          tq4 = (if timers tq3 = Some source then tq3\<lparr>timers := Some target\<rparr> else tq3);
          tq5 = (case t_prev tq4 source of None \<Rightarrow> tq4
                 | Some p \<Rightarrow> tq4\<lparr>t_next := (t_next tq4)(p := Some target)\<rparr>);
          tq6 = (case t_next tq5 source of None \<Rightarrow> tq5
                 | Some n \<Rightarrow> tq5\<lparr>t_prev := (t_prev tq5)(n := Some target)\<rparr>);
          tq7 = tq6\<lparr>t_next := (t_next tq6)(target := t_next tq6 source)\<rparr>;
          tq8 = tq7\<lparr>t_prev := (t_prev tq7)(target := t_prev tq7 source)\<rparr>
      in tq8\<lparr>t_next := (t_next tq8)(source := None), t_prev := (t_prev tq8)(source := None)\<rparr>)"

text \<open>
  The conversion of a duration to a wait: the duration is given by its tick count and its length
  in whole units (milliseconds or microseconds), as the code reads it through \<open>ticks\<close> and
  \<open>total_milliseconds\<close> or \<open>total_microseconds\<close>.
\<close>

definition to_units :: "int \<Rightarrow> int \<Rightarrow> int \<Rightarrow> int" where
  "to_units ticks units max_duration =
     (if ticks \<le> 0 then 0
      else if units = 0 then 1
      else if units > max_duration then max_duration
      else units)"

definition wait_duration ::
  "('t \<Rightarrow> int) \<Rightarrow> ('t \<Rightarrow> int) \<Rightarrow> ('t, 'a, 'o) timer_queue \<Rightarrow> int \<Rightarrow> int" where
  "wait_duration ticks_until units_until tq max_duration =
     (if heap tq = [] then max_duration
      else to_units (ticks_until (fst (heap tq ! 0))) (units_until (fst (heap tq ! 0))) max_duration)"

end
