(* ===== verification/TimerHeap.thy ===== *)
theory TimerHeap
  imports TimerQueue
begin

text \<open>
  The heap of \<open>TimerQueue\<close>: \<open>up_heap\<close> and \<open>down_heap\<close> restore the order of a heap with one misplaced
  entry, keep the entries, and keep every timer's recorded index right.
\<close>

section \<open>Order and one defect\<close>

abbreviation key :: "('t \<times> 'a) list \<Rightarrow> nat \<Rightarrow> 't" where
  "key h i \<equiv> fst (h ! i)"

abbreviation parent_of :: "nat \<Rightarrow> nat" where
  "parent_of i \<equiv> (i - 1) div 2"

definition heap_ordered :: "('t::linorder \<times> 'a) list \<Rightarrow> bool" where
  "heap_ordered h \<longleftrightarrow> (\<forall>j. 0 < j \<and> j < length h \<longrightarrow> key h (parent_of j) \<le> key h j)"

text \<open>Ordered but for the entry at \<open>i\<close> being too small, or too large.\<close>

definition small_at :: "('t::linorder \<times> 'a) list \<Rightarrow> nat \<Rightarrow> bool" where
  "small_at h i \<longleftrightarrow> i < length h \<and>
     (\<forall>j. 0 < j \<and> j < length h \<and> j \<noteq> i \<longrightarrow> key h (parent_of j) \<le> key h j) \<and>
     (\<forall>j. 0 < j \<and> j < length h \<and> parent_of j = i \<and> 0 < i \<longrightarrow> key h (parent_of i) \<le> key h j)"

definition large_at :: "('t::linorder \<times> 'a) list \<Rightarrow> nat \<Rightarrow> bool" where
  "large_at h i \<longleftrightarrow> i < length h \<and>
     (\<forall>j. 0 < j \<and> j < length h \<and> parent_of j \<noteq> i \<longrightarrow> key h (parent_of j) \<le> key h j) \<and>
     (\<forall>j. 0 < j \<and> j < length h \<and> parent_of j = i \<and> 0 < i \<longrightarrow> key h (parent_of i) \<le> key h j)"

abbreviation swapped :: "'x list \<Rightarrow> nat \<Rightarrow> nat \<Rightarrow> 'x list" where
  "swapped h i j \<equiv> h[i := h ! j, j := h ! i]"

lemma heap_swap_heap: "heap (swap_heap tq i j) = swapped (heap tq) i j"
  by (simp add: swap_heap_def Let_def)

lemma nth_swapped:
  "i < length h \<Longrightarrow> j < length h \<Longrightarrow> k < length h \<Longrightarrow>
     swapped h i j ! k = (if k = j then h ! i else if k = i then h ! j else h ! k)"
  by (auto simp: nth_list_update)

lemma parent_less: "0 < i \<Longrightarrow> parent_of i < i"
  by auto

lemma small_at_swap:
  assumes s: "small_at h i" and i: "0 < i" and lt: "key h i < key h (parent_of i)"
  shows "small_at (swapped h i (parent_of i)) (parent_of i)"
proof -
  let ?p = "parent_of i" and ?h = "swapped h i (parent_of i)"
  have len: "i < length h" "?p < length h" "?p < i"
    using s parent_less [OF i] by (auto simp: small_at_def)
  have k: "\<And>x. x < length h \<Longrightarrow> key ?h x = (if x = ?p then key h i else if x = i then key h ?p else key h x)"
    using len by (simp add: nth_swapped)
  have ord: "key h (parent_of j) \<le> key h j" if "0 < j" "j < length h" "j \<noteq> i" for j
    using s that by (auto simp: small_at_def)
  have grand: "key h ?p \<le> key h j" if "0 < j" "j < length h" "parent_of j = i" for j
    using s that i by (auto simp: small_at_def)
  have "key ?h (parent_of j) \<le> key ?h j" if j: "0 < j" "j < length h" "j \<noteq> ?p" for j
  proof -
    have pj: "parent_of j < length h" "parent_of j \<noteq> j"
      using j by auto
    consider "j = i" | "j \<noteq> i" "parent_of j = ?p" | "j \<noteq> i" "parent_of j = i"
      | "j \<noteq> i" "parent_of j \<noteq> ?p" "parent_of j \<noteq> i"
      by blast
    then show ?thesis
    proof cases
      case 1
      with k len lt show ?thesis by simp
    next
      case 2
      have "key h ?p \<le> key h j"
        using ord [of j] j 2 by simp
      with lt have "key h i \<le> key h j"
        by simp
      with k [OF j(2)] k [OF pj(1)] 2 j show ?thesis
        by simp
    next
      case 3
      with grand [of j] k [OF j(2)] k [OF pj(1)] j len show ?thesis by simp
    next
      case 4
      with ord [of j] k [OF j(2)] k [OF pj(1)] j show ?thesis by simp
    qed
  qed
  moreover have "key ?h (parent_of ?p) \<le> key ?h j"
    if j: "0 < j" "j < length h" "parent_of j = ?p" and p: "0 < ?p" for j
  proof -
    have pp: "parent_of ?p < length h" "parent_of ?p < ?p"
      using less_trans [OF parent_less [OF p] len(2)] parent_less [OF p] by blast+
    have a: "key h (parent_of ?p) \<le> key h ?p"
      using ord [of ?p] p len by simp
    show ?thesis
    proof (cases "j = i")
      case True
      with a k [of i] k [OF pp(1)] len pp show ?thesis by simp
    next
      case False
      have "key h ?p \<le> key h j"
        using ord [of j] j False by simp
      with a have "key h (parent_of ?p) \<le> key h j"
        by simp
      moreover have "j \<noteq> ?p"
        using j parent_less [OF j(1)] by auto
      ultimately show ?thesis
        using k [OF j(2)] k [OF pp(1)] False pp len by simp
    qed
  qed
  ultimately show ?thesis
    using len(2) unfolding small_at_def length_list_update by blast
qed

lemma small_at_done:
  assumes "small_at h i" and "i = 0 \<or> \<not> key h i < key h (parent_of i)"
  shows "heap_ordered h"
  unfolding heap_ordered_def
proof (intro allI impI)
  fix j
  assume "0 < j \<and> j < length h"
  with assms show "key h (parent_of j) \<le> key h j"
    by (cases "j = i") (auto simp: small_at_def)
qed

lemma child_cases: "0 < j \<Longrightarrow> parent_of j = i \<Longrightarrow> j = 2 * i + 1 \<or> j = 2 * i + 2"
  by linarith

lemma large_at_swap:
  assumes l: "large_at h i" and c: "0 < c" "c < length h" "parent_of c = i"
    and min: "\<And>j. 0 < j \<Longrightarrow> j < length h \<Longrightarrow> parent_of j = i \<Longrightarrow> key h c \<le> key h j"
    and le: "key h c \<le> key h i"
  shows "large_at (swapped h i c) c"
proof -
  let ?h = "swapped h i c"
  have len: "i < length h" "i < c"
    using l c parent_less [OF c(1)] by (auto simp: large_at_def)
  have k: "\<And>x. x < length h \<Longrightarrow> key ?h x = (if x = c then key h i else if x = i then key h c else key h x)"
    using len c by (simp add: nth_swapped)
  have ord: "key h (parent_of j) \<le> key h j" if "0 < j" "j < length h" "parent_of j \<noteq> i" for j
    using l that by (auto simp: large_at_def)
  have "key ?h (parent_of j) \<le> key ?h j" if j: "0 < j" "j < length h" "parent_of j \<noteq> c" for j
  proof -
    have pj: "parent_of j < length h" "parent_of j < j"
      using j parent_less [OF j(1)] by auto
    show ?thesis
    proof (cases "parent_of j = i")
      case True
      with min [OF j(1,2)] le k [OF j(2)] k [OF pj(1)] len pj j show ?thesis by simp
    next
      case False
      then have o1: "key h (parent_of j) \<le> key h j" and jc: "j \<noteq> c"
        using ord j c by auto
      show ?thesis
      proof (cases "j = i")
        case True
        then have "key h (parent_of i) \<le> key h c"
          using l c j by (auto simp: large_at_def)
        moreover have "key ?h j = key h c"
          using k [OF j(2)] True jc by presburger
        moreover have "key ?h (parent_of j) = key h (parent_of j)"
          using k [OF pj(1)] j(3) \<open>parent_of j \<noteq> i\<close> by presburger
        ultimately show ?thesis
          unfolding True by (simp only:)
      next
        case False
        have "key ?h j = key h j"
          using k [OF j(2)] False jc by presburger
        moreover have "key ?h (parent_of j) = key h (parent_of j)"
          using k [OF pj(1)] j(3) \<open>parent_of j \<noteq> i\<close> by presburger
        ultimately show ?thesis
          using o1 by (simp only:)
      qed
    qed
  qed
  moreover have "key ?h i \<le> key ?h j" if j: "0 < j" "j < length h" "parent_of j = c" for j
  proof -
    have "c < j"
      using parent_less [OF j(1)] j by simp
    moreover have "key h c \<le> key h j"
      using ord [of j] j len by simp
    ultimately show ?thesis
      using k [OF j(2)] k [OF len(1)] len by simp
  qed
  ultimately show ?thesis
    using c(2) unfolding large_at_def c(3) length_list_update by blast
qed

lemma large_at_done:
  assumes "large_at h i" and "\<And>j. 0 < j \<Longrightarrow> j < length h \<Longrightarrow> parent_of j = i \<Longrightarrow> key h i \<le> key h j"
  shows "heap_ordered h"
  unfolding heap_ordered_def
proof (intro allI impI)
  fix j
  assume "0 < j \<and> j < length h"
  with assms show "key h (parent_of j) \<le> key h j"
    by (cases "parent_of j = i") (auto simp: large_at_def)
qed

text \<open>The first entry of an ordered heap is a least one.\<close>

lemma heap_ordered_min: "heap_ordered h \<Longrightarrow> i < length h \<Longrightarrow> key h 0 \<le> key h i"
proof (induction i rule: less_induct)
  case (less i)
  show ?case
  proof (cases "i = 0")
    case True
    then show ?thesis by simp
  next
    case False
    then have "key h (parent_of i) \<le> key h i"
      using less.prems by (auto simp: heap_ordered_def)
    moreover have "key h 0 \<le> key h (parent_of i)"
      using less.IH [of "parent_of i"] less.prems False by simp
    ultimately show ?thesis
      by simp
  qed
qed

lemma heap_ordered_butlast: "heap_ordered h \<Longrightarrow> heap_ordered (butlast h)"
  by (auto simp: heap_ordered_def nth_butlast)

lemma heap_ordered_snoc: "heap_ordered h \<Longrightarrow> small_at (h @ [e]) (length h)"
  unfolding small_at_def
proof (intro conjI allI impI)
  fix j
  assume h: "heap_ordered h"
  {
    assume "0 < j \<and> j < length (h @ [e]) \<and> j \<noteq> length h"
    with h show "key (h @ [e]) (parent_of j) \<le> key (h @ [e]) j"
      by (auto simp: heap_ordered_def nth_append)
  next
    assume j: "0 < j \<and> j < length (h @ [e]) \<and> parent_of j = length h \<and> 0 < length h"
    then have "parent_of j < j"
      by (intro parent_less) simp
    with j show "key (h @ [e]) (parent_of (length h)) \<le> key (h @ [e]) j"
      by simp
  }
qed simp

section \<open>Recorded positions\<close>

definition positions_ok :: "('t, 'a, 'o) timer_queue \<Rightarrow> bool" where
  "positions_ok tq \<longleftrightarrow> (\<forall>i < length (heap tq). heap_index tq (snd (heap tq ! i)) = i)"

abbreviation heap_timers :: "('t, 'a, 'o) timer_queue \<Rightarrow> 'a set" where
  "heap_timers tq \<equiv> snd ` set (heap tq)"

lemma positions_okD: "positions_ok tq \<Longrightarrow> i < length (heap tq) \<Longrightarrow> heap_index tq (snd (heap tq ! i)) = i"
  by (simp add: positions_ok_def)

lemma positions_distinct: "positions_ok tq \<Longrightarrow> distinct (map snd (heap tq))"
  by (auto simp: distinct_conv_nth) (metis positions_okD)

text \<open>Two states with the same entries, list and operations, that agree on the timers outside the heap.\<close>

definition same_but_heap :: "('t, 'a, 'o) timer_queue \<Rightarrow> ('t, 'a, 'o) timer_queue \<Rightarrow> bool" where
  "same_but_heap tq tq' \<longleftrightarrow>
     mset (heap tq') = mset (heap tq) \<and>
     (\<forall>t. t \<notin> heap_timers tq \<longrightarrow> heap_index tq' t = heap_index tq t) \<and>
     timers tq' = timers tq \<and> op_queue_of tq' = op_queue_of tq \<and>
     t_next tq' = t_next tq \<and> t_prev tq' = t_prev tq"

lemma same_but_heap_refl [simp]: "same_but_heap tq tq"
  by (simp add: same_but_heap_def)

lemma same_but_heap_set: "same_but_heap tq tq' \<Longrightarrow> set (heap tq') = set (heap tq)"
  by (metis same_but_heap_def set_mset_mset)

lemma same_but_heap_length: "same_but_heap tq tq' \<Longrightarrow> length (heap tq') = length (heap tq)"
  by (metis same_but_heap_def size_mset)

lemma same_but_heap_trans [trans]: "same_but_heap a b \<Longrightarrow> same_but_heap b c \<Longrightarrow> same_but_heap a c"
  using same_but_heap_set [of a b] by (auto simp: same_but_heap_def)

lemma mset_swapped: "i < length h \<Longrightarrow> j < length h \<Longrightarrow> mset (swapped h i j) = mset h"
  by (rule mset_swap)

lemma swap_heap_same:
  assumes "i < length (heap tq)" and "j < length (heap tq)"
  shows "same_but_heap tq (swap_heap tq i j)"
proof -
  let ?h = "swapped (heap tq) i j"
  have "?h ! i = heap tq ! j" "?h ! j = heap tq ! i"
    using assms by (auto simp: nth_list_update)
  moreover have "heap tq ! i \<in> set (heap tq)" "heap tq ! j \<in> set (heap tq)"
    using assms by auto
  ultimately show ?thesis
    using assms mset_swapped [of i "heap tq" j]
    by (auto simp: same_but_heap_def swap_heap_def Let_def)
qed

lemma swap_heap_positions:
  assumes p: "positions_ok tq" and i: "i < length (heap tq)" and j: "j < length (heap tq)"
  shows "positions_ok (swap_heap tq i j)"
proof -
  have d: "distinct (map snd (heap tq))"
    using p by (rule positions_distinct)
  have inj: "snd (heap tq ! a) = snd (heap tq ! b) \<longleftrightarrow> a = b"
    if "a < length (heap tq)" "b < length (heap tq)" for a b
    using d that by (auto simp: distinct_conv_nth)
  have "heap_index (swap_heap tq i j) (snd (swapped (heap tq) i j ! k)) = k"
    if k: "k < length (heap tq)" for k
    using i j k inj positions_okD [OF p]
    by (auto simp: swap_heap_def Let_def nth_list_update)
  then show ?thesis
    by (simp add: positions_ok_def heap_swap_heap)
qed

lemma up_heap_correct:
  assumes "small_at (heap tq) i" and "positions_ok tq"
  shows "heap_ordered (heap (up_heap tq i)) \<and> positions_ok (up_heap tq i) \<and> same_but_heap tq (up_heap tq i)"
  using assms
proof (induction tq i rule: up_heap.induct)
  case (1 tq i)
  have len: "i < length (heap tq)"
    using "1.prems" by (auto simp: small_at_def)
  show ?case
  proof (cases "0 < i \<and> key (heap tq) i < key (heap tq) (parent_of i)")
    case False
    then have "up_heap tq i = tq"
      by (subst up_heap.simps) (auto simp: Let_def)
    with False "1.prems" small_at_done [of "heap tq" i] show ?thesis
      by auto
  next
    case True
    let ?s = "swap_heap tq i (parent_of i)"
    have eq: "up_heap tq i = up_heap ?s (parent_of i)"
      using True by (subst up_heap.simps) (simp add: Let_def)
    have pl: "parent_of i < length (heap tq)"
      using len by simp
    have "small_at (heap ?s) (parent_of i)"
      using small_at_swap [OF "1.prems"(1)] True by (simp add: heap_swap_heap)
    with "1.IH" [OF _ refl] True swap_heap_positions [OF "1.prems"(2) len pl]
    have "heap_ordered (heap (up_heap ?s (parent_of i))) \<and> positions_ok (up_heap ?s (parent_of i))
        \<and> same_but_heap ?s (up_heap ?s (parent_of i))"
      by simp
    with swap_heap_same [OF len pl] eq show ?thesis
      using same_but_heap_trans by metis
  qed
qed

lemma down_heap_correct:
  assumes "large_at (heap tq) i" and "positions_ok tq"
  shows "heap_ordered (heap (down_heap tq i)) \<and> positions_ok (down_heap tq i)
    \<and> same_but_heap tq (down_heap tq i)"
  using assms
proof (induction tq i rule: down_heap.induct)
  case (1 tq i)
  let ?h = "heap tq"
  let ?c = "i * 2 + 1"
  let ?m = "if ?c + 1 = length ?h \<or> key ?h ?c < key ?h (?c + 1) then ?c else ?c + 1"
  have len: "i < length ?h"
    using "1.prems" by (auto simp: large_at_def)
  show ?case
  proof (cases "?c < length ?h")
    case False
    then have "down_heap tq i = tq"
      by (subst down_heap.simps) (simp add: Let_def)
    moreover have "heap_ordered ?h"
      using large_at_done [OF "1.prems"(1)] child_cases False by fastforce
    ultimately show ?thesis
      using "1.prems" by simp
  next
    case c: True
    have m: "0 < ?m" "?m < length ?h" "parent_of ?m = i"
      using c by (auto split: if_splits)
    have min: "key ?h ?m \<le> key ?h j" if "0 < j" "j < length ?h" "parent_of j = i" for j
      using child_cases [OF that(1,3)] that(2) by (auto simp: mult.commute)
    show ?thesis
    proof (cases "key ?h i < key ?h ?m")
      case True
      then have "down_heap tq i = tq"
        using c by (subst down_heap.simps) (simp only: Let_def if_True)
      moreover have "heap_ordered ?h"
        using large_at_done [OF "1.prems"(1)] min True by (meson less_imp_le order_trans)
      ultimately show ?thesis
        using "1.prems" by simp
    next
      case False
      let ?s = "swap_heap tq i ?m"
      have eq: "down_heap tq i = down_heap ?s ?m"
        using c False by (subst down_heap.simps) (simp only: Let_def if_True if_False)
      have "large_at (heap ?s) ?m"
        using large_at_swap [OF "1.prems"(1) m min] False by (simp add: heap_swap_heap)
      from "1.IH" [OF refl c refl False this swap_heap_positions [OF "1.prems"(2) len m(2)]]
        same_but_heap_trans [OF swap_heap_same [OF len m(2)]]
      show ?thesis
        unfolding eq by blast
    qed
  qed
qed

end
