(* ===== verification/TimerQueueInv.thy ===== *)
theory TimerQueueInv
  imports TimerHeap
begin

text \<open>
  The invariant of \<open>TimerQueue\<close> and what its operations do to the set of pending timers: the heap is
  ordered and indexed, the linked list holds exactly the timers with waiting operations, and every
  other timer is as its constructor left it.
\<close>

definition tq_inv_with :: "('t::linorder, 'a, 'o) timer_queue \<Rightarrow> 'a list \<Rightarrow> bool" where
  "tq_inv_with tq ts \<longleftrightarrow>
     heap_ordered (heap tq) \<and> positions_ok tq \<and> length (heap tq) < size_max \<and>
     dlist (t_next tq) (t_prev tq) (timers tq) ts \<and>
     heap_timers tq \<subseteq> set ts \<and>
     (\<forall>t. t \<notin> heap_timers tq \<longrightarrow> heap_index tq t = size_max) \<and>
     (\<forall>t. op_queue_of tq t \<noteq> [] \<longleftrightarrow> t \<in> set ts) \<and>
     (\<forall>t. t \<notin> set ts \<longrightarrow> t_next tq t = None \<and> t_prev tq t = None)"

definition tq_inv :: "('t::linorder, 'a, 'o) timer_queue \<Rightarrow> bool" where
  "tq_inv tq \<longleftrightarrow> (\<exists>ts. tq_inv_with tq ts)"

lemma tq_inv_new: "tq_inv (timer_queue_new :: ('t::linorder, 'a, 'o) timer_queue)"
  unfolding tq_inv_def
  by (rule exI [of _ "[]"])
    (simp add: tq_inv_with_def timer_queue_new_def heap_ordered_def positions_ok_def)

lemma active_iff: "tq_inv_with tq ts \<Longrightarrow> in_active_list tq t \<longleftrightarrow> t \<in> set ts"
  unfolding in_active_list_def
  by (rule dlist_member_iff) (auto simp: tq_inv_with_def)

lemma active_iff_ops: "tq_inv tq \<Longrightarrow> in_active_list tq t \<longleftrightarrow> op_queue_of tq t \<noteq> []"
proof -
  assume "tq_inv tq"
  then obtain ts where i: "tq_inv_with tq ts"
    by (auto simp: tq_inv_def)
  then have "op_queue_of tq t \<noteq> [] \<longleftrightarrow> t \<in> set ts"
    by (simp add: tq_inv_with_def)
  with active_iff [OF i] show ?thesis
    by blast
qed

section \<open>Removing a timer\<close>

text \<open>The heap after the entry at \<open>i\<close> was overwritten by the last one has one defect at \<open>i\<close>.\<close>

lemma replace_by_last:
  assumes h: "heap_ordered h" and i: "i < length h - 1"
    and h1: "h1 = butlast (swapped h i (length h - 1))"
  shows "if 0 < i \<and> key h1 i < key h1 (parent_of i) then small_at h1 i else large_at h1 i"
proof -
  let ?n = "length h - 1"
  have len: "length h1 = ?n" "i < length h1"
    using i h1 by simp_all
  have k: "\<And>x. x < ?n \<Longrightarrow> key h1 x = (if x = i then key h ?n else key h x)"
    using i h1 by (simp add: nth_butlast nth_list_update)
  have ord: "\<And>j. 0 < j \<Longrightarrow> j < length h \<Longrightarrow> key h (parent_of j) \<le> key h j"
    using h by (simp add: heap_ordered_def)
  have par: "\<And>j. 0 < j \<Longrightarrow> j < ?n \<Longrightarrow> parent_of j < ?n"
    using less_trans parent_less by blast
  have other: "key h1 (parent_of j) \<le> key h1 j"
    if "0 < j" "j < ?n" "j \<noteq> i" "parent_of j \<noteq> i" for j
    using ord [of j] k [of j] k [OF par] that by simp
  have grand: "key h1 (parent_of i) \<le> key h1 j"
    if j: "0 < j" "j < ?n" "parent_of j = i" and pos: "0 < i" for j
  proof -
    have ij: "i \<noteq> j" "parent_of i \<noteq> i"
      using parent_less j(1,3) parent_less [OF pos] by (metis less_irrefl)+
    have "key h (parent_of i) \<le> key h i" "key h i \<le> key h j"
      using ord [OF pos] ord [OF j(1)] i j by simp_all
    moreover have "key h1 (parent_of i) = key h (parent_of i)"
      using k [OF par] pos i ij(2) by simp
    moreover have "key h1 j = key h j"
      using k [OF j(2)] ij(1) by simp
    ultimately show ?thesis
      by simp
  qed
  show ?thesis
  proof (cases "0 < i \<and> key h1 i < key h1 (parent_of i)")
    case True
    have "key h1 (parent_of j) \<le> key h1 j" if "0 < j" "j < ?n" "j \<noteq> i" for j
    proof (cases "parent_of j = i")
      case pj: True
      from True grand [OF that(1,2) pj] have "key h1 i \<le> key h1 j"
        by (meson less_imp_le less_le_trans)
      then show ?thesis
        unfolding pj .
    next
      case False
      with other that show ?thesis by blast
    qed
    with True grand len show ?thesis
      by (simp add: small_at_def)
  next
    case False
    have "key h1 (parent_of j) \<le> key h1 j" if "0 < j" "j < ?n" "parent_of j \<noteq> i" for j
      using other that False by (cases "j = i") (auto simp: not_less)
    with grand len show ?thesis
      unfolding if_not_P [OF False] large_at_def by simp
  qed
qed

lemma mset_minus_last: "h \<noteq> [] \<Longrightarrow> mset (butlast h) = mset h - {#last h#}"
  by (induction h rule: rev_induct) auto

lemma heap_remove_member:
  assumes ord: "heap_ordered (heap tq)" and pos: "positions_ok tq"
    and e: "(time, t) \<in> set (heap tq)"
  defines "tq' \<equiv> heap_remove tq t"
  shows "heap_ordered (heap tq') \<and> positions_ok tq' \<and> mset (heap tq') = mset (heap tq) - {#(time, t)#}
    \<and> heap_index tq' t = size_max \<and> (\<forall>x. x \<notin> heap_timers tq \<longrightarrow> heap_index tq' x = heap_index tq x)
    \<and> timers tq' = timers tq \<and> op_queue_of tq' = op_queue_of tq
    \<and> t_next tq' = t_next tq \<and> t_prev tq' = t_prev tq"
proof -
  let ?h = "heap tq" and ?i = "heap_index tq t" and ?n = "length (heap tq) - 1"
  obtain k where k: "k < length ?h" "?h ! k = (time, t)"
    using e by (metis in_set_conv_nth)
  then have ik: "?i = k"
    using positions_okD [OF pos, of k] by simp
  have ne: "?h \<noteq> []" and i: "?i < length ?h" and hi: "?h ! ?i = (time, t)"
    using k ik by auto
  have d: "distinct (map snd ?h)"
    using pos by (rule positions_distinct)
  have tin: "t \<in> heap_timers tq"
    using e by force
  show ?thesis
  proof (cases "?i = ?n")
    case True
    have tq': "tq' = tq\<lparr>heap_index := (heap_index tq)(t := size_max), heap := butlast ?h\<rparr>"
      using ne i True by (simp add: tq'_def heap_remove_def Let_def)
    have "last ?h = (time, t)"
      using ne hi True by (simp add: last_conv_nth)
    then have m: "mset (butlast ?h) = mset ?h - {#(time, t)#}"
      using mset_minus_last [OF ne] by simp
    have "snd (?h ! j) \<noteq> t" if "j < ?n" for j
      using d that True i hi nth_eq_iff_index_eq [OF d, of j ?i] by auto
    then have "positions_ok tq'"
      using positions_okD [OF pos] by (simp add: tq' positions_ok_def nth_butlast)
    moreover have "heap_ordered (heap tq')"
      using heap_ordered_butlast [OF ord] by (simp add: tq')
    ultimately show ?thesis
      using m tin by (auto simp: tq')
  next
    case False
    let ?s = "swap_heap tq ?i ?n"
    let ?s1 = "?s\<lparr>heap_index := (heap_index ?s)(t := size_max), heap := butlast (heap ?s)\<rparr>"
    have n: "?n < length ?h" and iln: "?i < ?n"
      using ne i False by simp_all
    have tq': "tq' = (if 0 < ?i \<and> key (heap ?s1) ?i < key (heap ?s1) (parent_of ?i)
        then up_heap ?s1 ?i else down_heap ?s1 ?i)"
      using ne i False by (simp add: tq'_def heap_remove_def Let_def)
    have h1: "heap ?s1 = butlast (swapped ?h ?i ?n)"
      by (simp add: heap_swap_heap)
    have same: "same_but_heap tq ?s"
      using i n by (rule swap_heap_same)
    have lh: "length (heap ?s) = length ?h" and nes: "heap ?s \<noteq> []"
      using ne by (simp_all add: heap_swap_heap)
    have "last (heap ?s) = heap ?s ! ?n"
      using nes lh by (simp add: last_conv_nth)
    also have "\<dots> = (time, t)"
      using i n hi by (simp add: heap_swap_heap)
    finally have last: "last (heap ?s) = (time, t)" .
    have m1: "mset (heap ?s1) = mset ?h - {#(time, t)#}"
      using mset_minus_last [OF nes] last same by (simp add: same_but_heap_def)
    have ps: "positions_ok ?s"
      using pos i n by (rule swap_heap_positions)
    have notl: "snd (heap ?s ! j) \<noteq> t" if "j < ?n" for j
      using positions_okD [OF ps, of j] positions_okD [OF ps, of ?n] that n last lh nes
      by (metis last_conv_nth less_trans nat_neq_iff snd_conv)
    have p1: "positions_ok ?s1"
      using positions_okD [OF ps] notl by (simp add: positions_ok_def nth_butlast)
    have out: "t \<notin> heap_timers ?s1"
    proof
      assume "t \<in> heap_timers ?s1"
      then obtain e where e: "e \<in> set (butlast (heap ?s))" "snd e = t"
        by auto
      then obtain j where "j < length (butlast (heap ?s))" "butlast (heap ?s) ! j = e"
        by (metis in_set_conv_nth)
      with e(2) notl [of j] lh show False
        by (simp add: nth_butlast)
    qed
    have sub: "heap_timers ?s1 \<subseteq> heap_timers tq"
      using m1 by (metis diff_subset_eq_self image_mono mset_subset_eqD set_mset_mset subsetI)
    have res: "heap_ordered (heap tq') \<and> positions_ok tq' \<and> same_but_heap ?s1 tq'"
    proof (cases "0 < ?i \<and> key (heap ?s1) ?i < key (heap ?s1) (parent_of ?i)")
      case True
      then have "small_at (heap ?s1) ?i"
        using replace_by_last [OF ord iln h1] by simp
      from up_heap_correct [OF this p1] show ?thesis
        unfolding tq' if_P [OF True] .
    next
      case False
      then have "large_at (heap ?s1) ?i"
        using replace_by_last [OF ord iln h1] by (simp only: if_False)
      from down_heap_correct [OF this p1] show ?thesis
        unfolding tq' if_not_P [OF False] .
    qed
    have "heap_index tq' x = heap_index tq x" if "x \<notin> heap_timers tq" for x
    proof -
      have "heap_index tq' x = heap_index ?s1 x"
        using res sub that unfolding same_but_heap_def by blast
      also have "\<dots> = heap_index ?s x"
        using that tin by auto
      also have "\<dots> = heap_index tq x"
        using same that by (simp add: same_but_heap_def)
      finally show ?thesis .
    qed
    moreover have "heap_index tq' t = size_max"
      using res out unfolding same_but_heap_def by simp
    ultimately show ?thesis
      using res m1 same by (auto simp: same_but_heap_def)
  qed
qed

lemma heap_remove_other:
  "heap_index tq t = size_max \<Longrightarrow> length (heap tq) < size_max \<Longrightarrow> heap_remove tq t = tq"
  by (simp add: heap_remove_def Let_def)

lemma list_remove_links:
  assumes "dlist (t_next tq) (t_prev tq) (timers tq) (xs @ t # ys)"
    and "\<And>x. x \<notin> set (xs @ t # ys) \<Longrightarrow> t_next tq x = None \<and> t_prev tq x = None"
  defines "tq' \<equiv> list_remove tq t"
  shows "dlist (t_next tq') (t_prev tq') (timers tq') (xs @ ys)"
    and "\<And>x. x \<notin> set (xs @ ys) \<Longrightarrow> t_next tq' x = None \<and> t_prev tq' x = None"
    and "heap tq' = heap tq" and "heap_index tq' = heap_index tq" and "op_queue_of tq' = op_queue_of tq"
proof -
  let ?nx = "t_next tq" and ?pv = "t_prev tq"
  have d: "distinct (xs @ t # ys)"
    using assms(1) by (rule dseg_distinct)
  then have tn: "t \<notin> set (xs @ ys)"
    by simp
  have nx: "t_next tq' = (unlink_next ?nx ?pv t)(t := None)"
    and pv: "t_prev tq' = (unlink_prev ?nx ?pv t)(t := None)"
    and hd: "timers tq' = unlink_head ?nx (timers tq) t"
    by (simp_all add: tq'_def list_remove_def Let_def unlink_prev_after_next [OF assms(1)])
  show "dlist (t_next tq') (t_prev tq') (timers tq') (xs @ ys)"
    unfolding nx pv hd dseg_nx_notin [OF tn] dseg_pv_notin [OF tn] by (rule dlist_unlink [OF assms(1)])
  show "t_next tq' x = None \<and> t_prev tq' x = None" if "x \<notin> set (xs @ ys)" for x
  proof (cases "x = t")
    case True
    then show ?thesis by (simp add: nx pv)
  next
    case False
    with that have x: "x \<notin> set (xs @ t # ys)"
      by simp
    with False show ?thesis
      using unlink_outside [OF assms(1) x] assms(2) [OF x] by (simp add: nx pv)
  qed
  show "heap tq' = heap tq" and "heap_index tq' = heap_index tq" and "op_queue_of tq' = op_queue_of tq"
    by (simp_all add: tq'_def list_remove_def Let_def)
qed

text \<open>
  Removing a timer whose operations have been taken. The other timers stay in the list in their
  order, and their entries in the heap.
\<close>

definition without_ops :: "('t, 'a, 'o) timer_queue \<Rightarrow> 'a \<Rightarrow> ('t, 'a, 'o) timer_queue" where
  "without_ops tq t = tq\<lparr>op_queue_of := (op_queue_of tq)(t := [])\<rparr>"

definition drop_timer :: "'a \<Rightarrow> ('t \<times> 'a) multiset \<Rightarrow> ('t \<times> 'a) multiset" where
  "drop_timer t M = filter_mset (\<lambda>e. snd e \<noteq> t) M"

lemma drop_timer_member:
  assumes "distinct (map snd h)" and "e \<in> set h" and "snd e = t"
  shows "drop_timer t (mset h) = mset h - {#e#}"
  using assms
proof (induction h)
  case Nil
  then show ?case by simp
next
  case (Cons x xs)
  show ?case
  proof (cases "x = e")
    case True
    with Cons.prems have "\<forall>y \<in> set xs. snd y \<noteq> t"
      by (metis distinct.simps(2) image_eqI image_set list.simps(9))
    then have "filter_mset (\<lambda>e. snd e \<noteq> t) (mset xs) = mset xs"
      by (simp add: filter_mset_eq_conv)
    with True Cons.prems(3) show ?thesis
      by (simp add: drop_timer_def)
  next
    case False
    with Cons.prems have e: "e \<in> set xs" "snd x \<noteq> t" and ih: "drop_timer t (mset xs) = mset xs - {#e#}"
      using Cons.IH by auto
    moreover have "add_mset x (mset xs) - {#e#} = add_mset x (mset xs - {#e#})"
      using diff_union_swap [OF False [symmetric], of "mset xs"] by (rule sym)
    ultimately show ?thesis
      by (simp add: drop_timer_def)
  qed
qed

lemma drop_timer_other: "t \<notin> snd ` set h \<Longrightarrow> drop_timer t (mset h) = mset h"
  unfolding drop_timer_def by (rule filter_mset_eq_conv [THEN iffD2]) auto

lemma heap_remove_correct:
  fixes t
  assumes "heap_ordered (heap tq)" and "positions_ok tq" and "length (heap tq) < size_max"
    and "\<forall>x. x \<notin> heap_timers tq \<longrightarrow> heap_index tq x = size_max"
  defines "tq' \<equiv> heap_remove tq t"
  shows "heap_ordered (heap tq') \<and> positions_ok tq' \<and> mset (heap tq') = drop_timer t (mset (heap tq))
    \<and> (\<forall>x. x \<notin> heap_timers tq' \<longrightarrow> heap_index tq' x = size_max)
    \<and> timers tq' = timers tq \<and> op_queue_of tq' = op_queue_of tq
    \<and> t_next tq' = t_next tq \<and> t_prev tq' = t_prev tq"
proof (cases "t \<in> heap_timers tq")
  case True
  then obtain time where e: "(time, t) \<in> set (heap tq)"
    by auto
  note r = heap_remove_member [OF assms(1,2) e, folded tq'_def]
  have d: "drop_timer t (mset (heap tq)) = mset (heap tq) - {#(time, t)#}"
    using drop_timer_member [OF positions_distinct [OF assms(2)] e] by simp
  have "set (heap tq') = {e \<in> set (heap tq). snd e \<noteq> t}"
    using r d by (metis drop_timer_def set_mset_filter set_mset_mset)
  then have "heap_timers tq' = heap_timers tq - {t}"
    by auto
  then have "\<forall>x. x \<notin> heap_timers tq' \<longrightarrow> heap_index tq' x = size_max"
    using r assms(4) by (metis Diff_iff singletonD)
  with r show ?thesis
    unfolding d by (elim conjE) (intro conjI)
next
  case False
  then have "heap_index tq t = size_max"
    using assms(4) by blast
  then have "tq' = tq"
    unfolding tq'_def using assms(3) by (rule heap_remove_other)
  with assms(1,2,4) False show ?thesis
    by (simp add: drop_timer_other)
qed

lemma tq_inv_withD:
  assumes "tq_inv_with tq ts"
  shows "heap_ordered (heap tq)" and "positions_ok tq" and "length (heap tq) < size_max"
    and "dlist (t_next tq) (t_prev tq) (timers tq) ts" and "heap_timers tq \<subseteq> set ts"
    and "\<forall>x. x \<notin> heap_timers tq \<longrightarrow> heap_index tq x = size_max"
    and "op_queue_of tq t \<noteq> [] \<longleftrightarrow> t \<in> set ts"
    and "t \<notin> set ts \<Longrightarrow> t_next tq t = None \<and> t_prev tq t = None"
    and "distinct ts"
  using assms dseg_distinct unfolding tq_inv_with_def by blast+

lemma drop_timer_set: "mset h' = drop_timer t (mset h) \<Longrightarrow> set h' = {e \<in> set h. snd e \<noteq> t}"
  by (metis drop_timer_def set_mset_filter set_mset_mset)

lemma drop_timer_length: "mset h' = drop_timer t (mset h) \<Longrightarrow> length h' \<le> length h"
  by (metis drop_timer_def multiset_filter_subset size_mset size_mset_mono)

lemma remove_timer_correct [invs]:
  assumes i: "tq_inv_with tq (xs @ t # ys)"
  defines "tq' \<equiv> remove_timer (without_ops tq t) t"
  shows "tq_inv_with tq' (xs @ ys)" and "mset (heap tq') = drop_timer t (mset (heap tq))"
    and "op_queue_of tq' = (op_queue_of tq)(t := [])"
proof -
  let ?w = "without_ops tq t" and ?h = "heap_remove (without_ops tq t) t"
  note w = without_ops_def [of tq t]
  have r: "heap_ordered (heap ?h) \<and> positions_ok ?h \<and> mset (heap ?h) = drop_timer t (mset (heap ?w))
    \<and> (\<forall>x. x \<notin> heap_timers ?h \<longrightarrow> heap_index ?h x = size_max)
    \<and> timers ?h = timers ?w \<and> op_queue_of ?h = op_queue_of ?w
    \<and> t_next ?h = t_next ?w \<and> t_prev ?h = t_prev ?w"
    using tq_inv_withD(1,2,3,6) [OF i] by (intro heap_remove_correct) (simp_all add: w positions_ok_def)
  have d: "dlist (t_next ?h) (t_prev ?h) (timers ?h) (xs @ t # ys)"
    using r tq_inv_withD(4) [OF i] by (simp add: w)
  have o: "t_next ?h x = None \<and> t_prev ?h x = None" if "x \<notin> set (xs @ t # ys)" for x
    using r tq_inv_withD(8) [OF i that] by (simp add: w)
  have tq': "tq' = list_remove ?h t"
    by (simp add: tq'_def remove_timer_def)
  have l: "dlist (t_next tq') (t_prev tq') (timers tq') (xs @ ys)"
      "\<forall>x. x \<notin> set (xs @ ys) \<longrightarrow> t_next tq' x = None \<and> t_prev tq' x = None"
      "heap tq' = heap ?h" "heap_index tq' = heap_index ?h" "op_queue_of tq' = op_queue_of ?h"
    unfolding tq' using list_remove_links [OF d o] by blast+
  show m: "mset (heap tq') = drop_timer t (mset (heap tq))"
    using r l(3) by (simp add: w)
  show ops: "op_queue_of tq' = (op_queue_of tq)(t := [])"
    using r l(5) by (simp add: w)
  have n: "t \<notin> set (xs @ ys)"
    using tq_inv_withD(9) [OF i] by auto
  have "heap_timers tq' \<subseteq> set (xs @ ys)"
    using tq_inv_withD(5) [OF i] drop_timer_set [OF m] by auto
  moreover have "length (heap tq') < size_max"
    using drop_timer_length [OF m] tq_inv_withD(3) [OF i] by simp
  moreover have "\<forall>x. op_queue_of tq' x \<noteq> [] \<longleftrightarrow> x \<in> set (xs @ ys)"
    using tq_inv_withD(7) [OF i] n unfolding ops by auto
  moreover have "positions_ok tq'"
    using r l(3,4) by (simp add: positions_ok_def)
  moreover have "heap_ordered (heap tq')"
    using r l(3) by simp
  moreover have "\<forall>x. x \<notin> heap_timers tq' \<longrightarrow> heap_index tq' x = size_max"
    unfolding l(3,4) using r by blast
  ultimately show "tq_inv_with tq' (xs @ ys)"
    using l(1,2) unfolding tq_inv_with_def by blast
qed

lemma remove_timer_inv [invs]:
  assumes "tq_inv tq" and "in_active_list tq t"
  shows "tq_inv (remove_timer (without_ops tq t) t)"
proof -
  obtain ts where i: "tq_inv_with tq ts"
    using assms(1) by (auto simp: tq_inv_def)
  from active_iff [OF i, of t] assms(2) have "t \<in> set ts"
    by (rule iffD1)
  then obtain xs ys where "ts = xs @ t # ys"
    by (meson split_list)
  with i have "tq_inv_with tq (xs @ t # ys)"
    by (simp only:)
  from remove_timer_correct(1) [OF this] show ?thesis
    unfolding tq_inv_def by (rule exI)
qed

end
