(* ===== verification/TimerQueueOps.thy ===== *)
theory TimerQueueOps
  imports TimerQueueInv
begin

text \<open>
  What the operations of \<open>TimerQueue\<close> do, under its invariant: scheduling a wait, collecting the
  expired timers, cancelling, moving and the next wait's length.
\<close>

definition next_expiry :: "('t, 'a, 'o) timer_queue \<Rightarrow> 't option" where
  "next_expiry tq = (if heap tq = [] then None else Some (fst (heap tq ! 0)))"

lemma next_expiry_min:
  "heap_ordered (heap tq) \<Longrightarrow> next_expiry tq = (if heap tq = [] then None else Some (Min (fst ` set (heap tq))))"
proof (cases "heap tq = []")
  case False
  assume h: "heap_ordered (heap tq)"
  have "Min (fst ` set (heap tq)) = fst (heap tq ! 0)"
  proof (rule Min_eqI)
    fix x assume "x \<in> fst ` set (heap tq)"
    then obtain i where "i < length (heap tq)" "x = fst (heap tq ! i)"
      by (metis (no_types, lifting) image_iff in_set_conv_nth)
    with heap_ordered_min [OF h, of i] show "fst (heap tq ! 0) \<le> x"
      by simp
  next
    show "fst (heap tq ! 0) \<in> fst ` set (heap tq)"
      using False by (simp add: image_iff) (metis length_greater_0_conv nth_mem prod.collapse)
  qed simp
  with False show ?thesis
    by (simp add: next_expiry_def)
qed (simp add: next_expiry_def)

section \<open>Scheduling a wait\<close>

text \<open>The heap with a new entry for a timer that has none.\<close>

definition heap_insert :: "'t \<Rightarrow> 'a \<Rightarrow> ('t::linorder, 'a, 'o) timer_queue \<Rightarrow> ('t, 'a, 'o) timer_queue" where
  "heap_insert time t tq =
     up_heap (tq\<lparr>heap_index := (heap_index tq)(t := length (heap tq)), heap := heap tq @ [(time, t)]\<rparr>)
       (length (heap tq))"

lemma heap_insert_correct:
  fixes t and time
  assumes "heap_ordered (heap tq)" and p: "positions_ok tq" and t: "t \<notin> heap_timers tq"
    and "\<forall>x. x \<notin> heap_timers tq \<longrightarrow> heap_index tq x = size_max"
  defines "tq' \<equiv> heap_insert time t tq"
  shows "heap_ordered (heap tq') \<and> positions_ok tq' \<and> mset (heap tq') = mset (heap tq) + {#(time, t)#}
    \<and> (\<forall>x. x \<notin> heap_timers tq' \<longrightarrow> heap_index tq' x = size_max)
    \<and> timers tq' = timers tq \<and> op_queue_of tq' = op_queue_of tq
    \<and> t_next tq' = t_next tq \<and> t_prev tq' = t_prev tq"
proof -
  let ?a = "tq\<lparr>heap_index := (heap_index tq)(t := length (heap tq)), heap := heap tq @ [(time, t)]\<rparr>"
  have tq': "tq' = up_heap ?a (length (heap tq))"
    by (simp add: tq'_def heap_insert_def)
  have "snd (heap tq ! j) \<noteq> t" if "j < length (heap tq)" for j
    using t that by (metis image_eqI nth_mem)
  then have pa: "positions_ok ?a"
    using p by (auto simp: positions_ok_def nth_append less_Suc_eq)
  have "small_at (heap ?a) (length (heap tq))"
    using heap_ordered_snoc [OF assms(1), of "(time, t)"] by simp
  note u = up_heap_correct [OF this pa, folded tq']
  have "set (heap tq') = insert (time, t) (set (heap tq))"
    using same_but_heap_set u by fastforce
  then have "heap_index tq' x = size_max" if "x \<notin> heap_timers tq'" for x
    using u assms(4) that by (auto simp: same_but_heap_def)
  with u show ?thesis
    by (simp add: same_but_heap_def)
qed

lemma enqueue_inactive:
  fixes is_inf time
  assumes "\<not> in_active_list tq t"
  defines "tq2 \<equiv> if is_inf time then tq\<lparr>heap_index := (heap_index tq)(t := size_max)\<rparr>
                 else heap_insert time t tq"
  shows "fst (enqueue_timer is_inf time t op tq) =
    tq2\<lparr>t_next := (t_next tq2)(t := timers tq2), t_prev := front_prev (t_prev tq2) (timers tq2) t,
        timers := Some t, op_queue_of := (op_queue_of tq2)(t := op_queue_of tq2 t @ [op])\<rparr>"
  using assms(1) unfolding tq2_def
  by (simp add: enqueue_timer_def in_active_list_def heap_insert_def Let_def)

lemma enqueue_active:
  "in_active_list tq t \<Longrightarrow>
    fst (enqueue_timer is_inf time t op tq) = tq\<lparr>op_queue_of := (op_queue_of tq)(t := op_queue_of tq t @ [op])\<rparr>"
  by (auto simp add: enqueue_timer_def in_active_list_def Let_def)

definition new_entries :: "('t \<Rightarrow> bool) \<Rightarrow> 't \<Rightarrow> 'a \<Rightarrow> bool \<Rightarrow> ('t \<times> 'a) multiset" where
  "new_entries is_inf time t active = (if active \<or> is_inf time then {#} else {#(time, t)#})"

lemma enqueue_timer_correct [invs]:
  fixes t and is_inf time op
  assumes i: "tq_inv_with tq ts" and len: "Suc (length (heap tq)) < size_max"
  defines "tq' \<equiv> fst (enqueue_timer is_inf time t op tq)"
  shows "tq_inv_with tq' (if t \<in> set ts then ts else t # ts)
    \<and> op_queue_of tq' = (op_queue_of tq)(t := op_queue_of tq t @ [op])
    \<and> mset (heap tq') = mset (heap tq) + new_entries is_inf time t (t \<in> set ts)"
proof (cases "t \<in> set ts")
  case True
  with active_iff [OF i] have "tq' = tq\<lparr>op_queue_of := (op_queue_of tq)(t := op_queue_of tq t @ [op])\<rparr>"
    unfolding tq'_def by (intro enqueue_active) simp
  with True i show ?thesis
    by (auto simp: tq_inv_with_def positions_ok_def new_entries_def)
next
  case False
  define tq2 where "tq2 = (if is_inf time then tq\<lparr>heap_index := (heap_index tq)(t := size_max)\<rparr>
    else heap_insert time t tq)"
  note d = tq_inv_withD [OF i]
  have th: "t \<notin> heap_timers tq"
    using False d(5) by blast
  have ops: "op_queue_of tq t = []"
    using False d(7) by blast
  have tq': "tq' = tq2\<lparr>t_next := (t_next tq2)(t := timers tq2), t_prev := front_prev (t_prev tq2) (timers tq2) t,
        timers := Some t, op_queue_of := (op_queue_of tq2)(t := op_queue_of tq2 t @ [op])\<rparr>"
    using enqueue_inactive [of tq t is_inf time op] False active_iff [OF i] by (simp add: tq'_def tq2_def)
  have h: "heap_ordered (heap tq2) \<and> positions_ok tq2
    \<and> mset (heap tq2) = mset (heap tq) + new_entries is_inf time t False
    \<and> (\<forall>x. x \<notin> heap_timers tq2 \<longrightarrow> heap_index tq2 x = size_max)
    \<and> timers tq2 = timers tq \<and> op_queue_of tq2 = op_queue_of tq
    \<and> t_next tq2 = t_next tq \<and> t_prev tq2 = t_prev tq"
  proof (cases "is_inf time")
    case True
    have "(heap_index tq)(t := size_max) = heap_index tq"
      using th d(6) by auto
    with True d(1,2,6) show ?thesis
      by (simp add: tq2_def new_entries_def)
  next
    case False
    with heap_insert_correct [OF d(1,2) th d(6), of time] show ?thesis
      by (simp add: tq2_def new_entries_def)
  qed
  have "length (heap tq2) \<le> Suc (length (heap tq))"
    using h by (metis add.right_neutral add_mset_add_single le_Suc_eq le_refl new_entries_def size_add_mset size_mset)
  moreover have "heap_timers tq2 \<subseteq> set (t # ts)"
    using h d(5) by (auto simp: new_entries_def dest!: mset_eq_setD [of "heap tq2" "heap tq @ _"] split: if_splits)
      (metis (no_types, lifting) Un_insert_right add_mset_add_single image_eqI insertE set_mset_add_mset_insert set_mset_mset snd_conv subset_iff sup_bot_right)+
  moreover have "dlist (t_next tq') (t_prev tq') (timers tq') (t # ts)"
    using dlist_push_front [OF d(4) False] h by (simp add: tq')
  moreover have "t_next tq' x = None \<and> t_prev tq' x = None" if "x \<notin> set (t # ts)" for x
  proof -
    have "timers tq \<noteq> Some x"
      using d(4) that by (auto simp: dlist_hd)
    then show ?thesis
      using h d(8) [of x] that by (auto simp: tq' front_prev_def Let_def split: option.splits)
  qed
  moreover have "op_queue_of tq' x \<noteq> [] \<longleftrightarrow> x \<in> set (t # ts)" for x
    using d(7) h by (simp add: tq')
  ultimately have "tq_inv_with tq' (t # ts)"
    using h len unfolding tq_inv_with_def by (simp add: tq' positions_ok_def)
  with False h show ?thesis
    by (simp add: tq')
qed

text \<open>
  The returned flag says that the reactor's wait must be cut short; when it is false, the first
  expiry is what it was.
\<close>

lemma enqueue_flag:
  "snd (enqueue_timer is_inf time t op tq) \<longleftrightarrow>
    heap_index (fst (enqueue_timer is_inf time t op tq)) t = 0 \<and>
    hd (op_queue_of (fst (enqueue_timer is_inf time t op tq)) t) = op"
  unfolding enqueue_timer_def Let_def fst_conv snd_conv ..

lemma enqueue_flag_false:
  assumes i: "tq_inv_with tq ts" and len: "Suc (length (heap tq)) < size_max"
    and e: "enqueue_timer is_inf time t op tq = (tq', False)"
  shows "next_expiry tq' = next_expiry tq"
proof -
  have tq': "tq' = fst (enqueue_timer is_inf time t op tq)"
    using e by simp
  note c = enqueue_timer_correct [OF i len, of is_inf time t op, folded tq'] and d = tq_inv_withD [OF i]
  have flag: "\<not> (heap_index tq' t = 0 \<and> hd (op_queue_of tq' t) = op)"
    using enqueue_flag [of is_inf time t op tq] e by simp
  show ?thesis
  proof (cases "t \<in> set ts \<or> is_inf time")
    case True
    then have m: "mset (heap tq') = mset (heap tq)"
      using c by (auto simp: new_entries_def)
    moreover have "heap_ordered (heap tq')" "heap_ordered (heap tq)"
      using c d(1) tq_inv_withD(1) by (metis, blast)
    ultimately show ?thesis
      using mset_eq_setD [OF m] by (simp add: next_expiry_min) (metis mset_zero_iff)
  next
    case False
    have n: "tq_inv_with tq' (t # ts)" and m: "mset (heap tq') = mset (heap tq) + {#(time, t)#}"
      and ops: "op_queue_of tq' t = [op]"
      using c False d(7) by (auto simp: new_entries_def)
    have ne: "heap tq' \<noteq> []"
      using m by auto
    have pos: "heap_index tq' (snd (heap tq' ! 0)) = 0"
      using positions_okD [OF tq_inv_withD(2) [OF n], of 0] ne by simp
    have "heap_index tq' t \<noteq> 0"
      using flag ops by simp
    then have "snd (heap tq' ! 0) \<noteq> t"
      using pos by auto
    moreover have s: "set (heap tq') = insert (time, t) (set (heap tq))"
      using mset_eq_setD [of "heap tq'" "heap tq @ [(time, t)]"] m by simp
    moreover have "heap tq' ! 0 \<in> set (heap tq')"
      using ne by simp
    ultimately have root: "heap tq' ! 0 \<in> set (heap tq)"
      by auto
    have "Min (fst ` set (heap tq)) = fst (heap tq' ! 0)"
    proof (rule Min_eqI)
      fix x assume "x \<in> fst ` set (heap tq)"
      then obtain j where "j < length (heap tq')" "x = fst (heap tq' ! j)"
        using s by (metis (no_types, lifting) image_iff in_set_conv_nth insertCI)
      with heap_ordered_min [OF tq_inv_withD(1) [OF n], of j] show "fst (heap tq' ! 0) \<le> x"
        by simp
    qed (use root in auto)
    then show ?thesis
      using ne root next_expiry_min [OF d(1)] by (auto simp: next_expiry_def [of tq'])
  qed
qed

section \<open>Collecting the expired timers\<close>

lemma pop_root:
  assumes i: "tq_inv tq" and ne: "heap tq \<noteq> []"
  defines "t \<equiv> snd (heap tq ! 0)"
  defines "tq1 \<equiv> remove_timer (without_ops tq t) t"
  shows "tq_inv tq1" and "mset (heap tq) = add_mset (heap tq ! 0) (mset (heap tq1))"
    and "op_queue_of tq1 = (op_queue_of tq)(t := [])" and "t \<notin> heap_timers tq1"
    and "\<forall>e \<in> set (heap tq). fst (heap tq ! 0) \<le> fst e"
proof -
  obtain ts where w: "tq_inv_with tq ts"
    using i by (auto simp: tq_inv_def)
  note d = tq_inv_withD [OF w]
  have root: "heap tq ! 0 \<in> set (heap tq)"
    using ne by simp
  then have "t \<in> set ts"
    using d(5) by (auto simp: t_def)
  then obtain xs ys where "ts = xs @ t # ys"
    by (meson split_list)
  with w have "tq_inv_with tq (xs @ t # ys)"
    by simp
  note r = remove_timer_correct [OF this, folded tq1_def]
  then show "tq_inv tq1" and "op_queue_of tq1 = (op_queue_of tq)(t := [])"
    by (auto simp: tq_inv_def)
  have "drop_timer t (mset (heap tq)) = mset (heap tq) - {#heap tq ! 0#}"
    by (rule drop_timer_member [OF positions_distinct [OF d(2)] root]) (simp add: t_def)
  with r(2) root show "mset (heap tq) = add_mset (heap tq ! 0) (mset (heap tq1))"
    by simp
  show "t \<notin> heap_timers tq1"
    using drop_timer_set [OF r(2)] by auto
  show "\<forall>e \<in> set (heap tq). fst (heap tq ! 0) \<le> fst e"
    using heap_ordered_min [OF d(1)] by (metis in_set_conv_nth)
qed

text \<open>What \<open>get_ready_timers\<close> promises: the expired entries \<open>es\<close>, earliest first.\<close>

definition ready_split ::
  "'t::linorder \<Rightarrow> ('t, 'a, 'o) timer_queue \<Rightarrow> ('t, 'a, 'o) timer_queue \<Rightarrow> ('t \<times> 'a) list \<Rightarrow> bool" where
  "ready_split now tq tq' es \<longleftrightarrow>
     mset (heap tq) = mset es + mset (heap tq') \<and> sorted (map fst es) \<and>
     (\<forall>e \<in> set es. fst e \<le> now) \<and> (\<forall>e \<in> set (heap tq'). now < fst e) \<and>
     op_queue_of tq' = (\<lambda>t. if t \<in> snd ` set es then [] else op_queue_of tq t)"

lemma ready_split_root:
  assumes i: "tq_inv tq" and ne: "heap tq \<noteq> []" and le: "\<not> now < fst (heap tq ! 0)"
    and r: "ready_split now (remove_timer (without_ops tq (snd (heap tq ! 0))) (snd (heap tq ! 0))) tq' es"
  shows "ready_split now tq tq' (heap tq ! 0 # es)"
    and "snd (heap tq ! 0) \<notin> snd ` set es"
proof -
  let ?e = "heap tq ! 0" and ?tq1 = "remove_timer (without_ops tq (snd (heap tq ! 0))) (snd (heap tq ! 0))"
  note p = pop_root [OF i ne]
  have sub: "set es \<subseteq> set (heap ?tq1)" and sub': "set (heap ?tq1) \<subseteq> set (heap tq)"
    using r p(2) unfolding ready_split_def
    by (metis set_mset_mset set_mset_union sup_ge1, metis set_mset_add_mset_insert set_mset_mset subset_insertI)
  show "snd ?e \<notin> snd ` set es"
    using sub p(4) by auto
  have "\<forall>x \<in> set es. fst ?e \<le> fst x"
    using sub sub' p(5) by blast
  then have "sorted (map fst (?e # es))"
    using r by (simp add: ready_split_def)
  moreover have "mset (heap tq) = mset (?e # es) + mset (heap tq')"
    using r p(2) by (simp add: ready_split_def)
  moreover have "op_queue_of tq' = (\<lambda>t. if t \<in> snd ` set (?e # es) then [] else op_queue_of tq t)"
    using r p(3) by (auto simp: ready_split_def)
  ultimately show "ready_split now tq tq' (?e # es)"
    using r le unfolding ready_split_def by simp
qed

lemma get_ready_timers_correct:
  "tq_inv tq \<Longrightarrow> \<exists>tq' es. get_ready_timers now tq ops =
       Some (tq', ops @ concat (map (\<lambda>e. op_queue_of tq (snd e)) es)) \<and>
     tq_inv tq' \<and> ready_split now tq tq' es"
proof (induction "length (heap tq)" arbitrary: tq ops rule: less_induct)
  case less
  show ?case
  proof (cases "heap tq \<noteq> [] \<and> \<not> now < fst (heap tq ! 0)")
    case False
    then have "get_ready_timers now tq ops = Some (tq, ops)"
      by (subst get_ready_timers.simps) (auto simp only: if_False)
    moreover have "ready_split now tq tq []"
      using False less.prems heap_ordered_min [of "heap tq"] unfolding ready_split_def tq_inv_def tq_inv_with_def
      by (auto simp: in_set_conv_nth) (metis fst_conv less_le_trans list.size(3) not_less0)
    ultimately show ?thesis
      using less.prems by (intro exI [of _ tq] exI [of _ "[]"]) simp
  next
    case True
    let ?t = "snd (heap tq ! 0)"
    let ?tq1 = "remove_timer (without_ops tq ?t) ?t"
    note p = pop_root [OF less.prems conjunct1 [OF True]]
    have "length (heap tq) = Suc (length (heap ?tq1))"
      using arg_cong [OF p(2), of size] by simp
    then obtain tq' es where g: "get_ready_timers now ?tq1 (ops @ op_queue_of tq ?t) =
         Some (tq', (ops @ op_queue_of tq ?t) @ concat (map (\<lambda>e. op_queue_of ?tq1 (snd e)) es))"
       and iv: "tq_inv tq'" and rs: "ready_split now ?tq1 tq' es"
      using less.hyps [OF _ p(1)] by fastforce
    note s = ready_split_root [OF less.prems conjunct1 [OF True] conjunct2 [OF True] rs]
    have "map (\<lambda>e. op_queue_of ?tq1 (snd e)) es = map (\<lambda>e. op_queue_of tq (snd e)) es"
    proof (rule map_cong [OF refl])
      fix e assume "e \<in> set es"
      with s(2) have "snd e \<noteq> ?t"
        by (metis image_eqI)
      with p(3) show "op_queue_of ?tq1 (snd e) = op_queue_of tq (snd e)"
        by simp
    qed
    with g have "get_ready_timers now tq ops =
        Some (tq', ops @ concat (map (\<lambda>e. op_queue_of tq (snd e)) (heap tq ! 0 # es)))"
      using True by (subst get_ready_timers.simps) (simp add: without_ops_def [symmetric] Let_def)
    with iv s(1) show ?thesis
      by blast
  qed
qed

section \<open>Taking every operation\<close>

definition emptied :: "'a set \<Rightarrow> ('t, 'a, 'o) timer_queue \<Rightarrow> ('t, 'a, 'o) timer_queue" where
  "emptied A tq =
     tq\<lparr>timers := None, op_queue_of := (\<lambda>t. if t \<in> A then [] else op_queue_of tq t),
        t_next := (\<lambda>t. if t \<in> A then None else t_next tq t),
        t_prev := (\<lambda>t. if t \<in> A then None else t_prev tq t)\<rparr>"

lemma emptied_insert:
  "emptied A (tq\<lparr>timers := p, op_queue_of := (op_queue_of tq)(t := []),
                t_next := (t_next tq)(t := None), t_prev := (t_prev tq)(t := None)\<rparr>) = emptied (insert t A) tq"
  unfolding emptied_def by (rule timer_queue.equality) (auto simp: fun_eq_iff)

lemma get_all_timers_loop_correct:
  "chain (t_next tq) (timers tq) ts \<Longrightarrow>
     get_all_timers_loop tq ops = Some (emptied (set ts) tq, ops @ concat (map (op_queue_of tq) ts))"
proof (induction ts arbitrary: tq ops)
  case Nil
  then show ?case
    by (subst get_all_timers_loop.simps) (simp add: emptied_def)
next
  case (Cons t ts)
  have d: "t \<notin> set ts"
    using chain_distinct [OF Cons.prems] by simp
  let ?tq = "tq\<lparr>timers := t_next tq t, op_queue_of := (op_queue_of tq)(t := []),
                t_next := (t_next tq)(t := None), t_prev := (t_prev tq)(t := None)\<rparr>"
  have c: "chain (t_next ?tq) (timers ?tq) ts" and p: "timers tq = Some t"
    using Cons.prems d by (simp_all add: chain_simps)
  have m: "map (op_queue_of ?tq) ts = map (op_queue_of tq) ts"
    using d by auto
  from Cons.IH [OF c, of "ops @ op_queue_of tq t", unfolded m emptied_insert] show ?case
    by (subst get_all_timers_loop.simps) (simp add: p)
qed

lemma get_all_timers_correct:
  assumes i: "tq_inv_with tq ts"
  shows "get_all_timers tq ops = Some
     (tq\<lparr>timers := None, heap := [], op_queue_of := (\<lambda>_. []), t_next := (\<lambda>_. None), t_prev := (\<lambda>_. None)\<rparr>,
      ops @ concat (map (op_queue_of tq) ts))"
proof -
  note d = tq_inv_withD [OF i]
  have "op_queue_of tq t = []" if "t \<notin> set ts" for t
    using d(7) that by blast
  then have "(\<lambda>t. if t \<in> set ts then [] else op_queue_of tq t) = (\<lambda>_. [])"
    and "(\<lambda>t. if t \<in> set ts then None else t_next tq t) = (\<lambda>_. None)"
    and "(\<lambda>t. if t \<in> set ts then None else t_prev tq t) = (\<lambda>_. None)"
    using d(8) by auto
  with get_all_timers_loop_correct [OF dseg_chain [OF d(4)], of ops] show ?thesis
    by (simp add: get_all_timers_def emptied_def)
qed

section \<open>Cancelling\<close>

definition set_ec :: "error_code \<Rightarrow> 'o list \<Rightarrow> ('o \<Rightarrow> error_code) \<Rightarrow> 'o \<Rightarrow> error_code" where
  "set_ec e os ecs = (\<lambda>x. if x \<in> set os then e else ecs x)"

lemma set_ec_upd: "set_ec e xs (\<lambda>y. if y = x then e else ecs y) = set_ec e (x # xs) ecs"
  by (auto simp: set_ec_def)

lemma set_ec_Nil [simp]: "set_ec e [] ecs = ecs"
  by (simp add: set_ec_def)

lemma cancel_loop_eq:
  "n \<le> m \<Longrightarrow> cancel_loop m n ecs q ops =
     (set_ec (basic_ec operation_aborted) (take (m - n) q) ecs, drop (m - n) q, ops @ take (m - n) q,
      n + min (m - n) (length q))"
proof (induction q arbitrary: n ecs ops)
  case Nil
  then show ?case by simp
next
  case (Cons x q)
  show ?case
  proof (cases "n = m")
    case True
    then show ?thesis by simp
  next
    case False
    with Cons.prems have "Suc n \<le> m" and m: "m - n = Suc (m - Suc n)"
      by auto
    with Cons.IH [of "Suc n" "ecs(x := basic_ec operation_aborted)" "ops @ [x]"] False show ?thesis
      by (simp add: set_ec_upd fun_upd_def)
  qed
qed

lemma timer_cancel_correct [invs]:
  fixes t and m
  assumes i: "tq_inv tq"
  defines "k \<equiv> min m (length (op_queue_of tq t))"
  shows "\<exists>tq'. timer_cancel tq t ecs ops m =
      (tq', set_ec (basic_ec operation_aborted) (take k (op_queue_of tq t)) ecs,
       ops @ take k (op_queue_of tq t), k) \<and> tq_inv tq'
    \<and> op_queue_of tq' = (op_queue_of tq)(t := drop k (op_queue_of tq t))
    \<and> mset (heap tq') = (if drop k (op_queue_of tq t) = [] then drop_timer t (mset (heap tq)) else mset (heap tq))"
proof (cases "in_active_list tq t")
  case False
  with i have o: "op_queue_of tq t = []"
    using active_iff_ops [OF i, of t] by simp
  then have "t \<notin> heap_timers tq"
    using i by (auto simp: tq_inv_def tq_inv_with_def)
  then have "drop_timer t (mset (heap tq)) = mset (heap tq)"
    by (rule drop_timer_other)
  moreover have "(op_queue_of tq)(t := []) = op_queue_of tq"
    using o by auto
  ultimately show ?thesis
    using False o i by (simp add: timer_cancel_def k_def)
next
  case True
  let ?q = "op_queue_of tq t"
  have tk: "take m ?q = take k ?q" "drop m ?q = drop k ?q"
    by (simp_all add: k_def min_def)
  let ?a = "tq\<lparr>op_queue_of := (op_queue_of tq)(t := drop k ?q)\<rparr>"
  have c: "timer_cancel tq t ecs ops m =
      (if drop k ?q = [] then remove_timer ?a t else ?a,
       set_ec (basic_ec operation_aborted) (take k ?q) ecs, ops @ take k ?q, k)"
    using True cancel_loop_eq [of 0 m ecs ?q ops] unfolding tk [symmetric]
    by (simp add: timer_cancel_def k_def)
  obtain ts where w: "tq_inv_with tq ts"
    using i by (auto simp: tq_inv_def)
  have tin: "t \<in> set ts"
    using active_iff [OF w, of t] True by simp
  show ?thesis
  proof (cases "drop k ?q = []")
    case e: True
    then have a: "?a = without_ops tq t"
      by (simp add: without_ops_def)
    obtain xs ys where "ts = xs @ t # ys"
      using tin by (meson split_list)
    with w have w': "tq_inv_with tq (xs @ t # ys)"
      by simp
    note r = remove_timer_correct [OF this]
    have "tq_inv (remove_timer ?a t)"
      using r(1) unfolding a tq_inv_def by (rule exI)
    with c e r(2,3) show ?thesis
      unfolding a by simp
  next
    case ne: False
    have "tq_inv_with ?a ts"
      using w ne tin unfolding tq_inv_with_def positions_ok_def by auto
    then have "tq_inv ?a"
      unfolding tq_inv_def by (rule exI)
    with c ne show ?thesis
      by simp
  qed
qed

section \<open>Moving a timer\<close>

definition rename1 :: "'a \<Rightarrow> 'a \<Rightarrow> 'a \<Rightarrow> 'a" where
  "rename1 s t x = (if x = s then t else x)"

definition upd_opt :: "('a \<Rightarrow> 'b) \<Rightarrow> 'a option \<Rightarrow> 'b \<Rightarrow> 'a \<Rightarrow> 'b" where
  "upd_opt f p v = (case p of None \<Rightarrow> f | Some x \<Rightarrow> f(x := v))"

lemma upd_opt_apply: "upd_opt f p v x = (if p = Some x then v else f x)"
  by (simp add: upd_opt_def split: option.splits)

lemma write_if_not_null:
  "(case p of None \<Rightarrow> r | Some x \<Rightarrow> r\<lparr>t_next := (t_next r)(x := v)\<rparr>) = r\<lparr>t_next := upd_opt (t_next r) p v\<rparr>"
  "(case p of None \<Rightarrow> r | Some x \<Rightarrow> r\<lparr>t_prev := (t_prev r)(x := v)\<rparr>) = r\<lparr>t_prev := upd_opt (t_prev r) p v\<rparr>"
  by (cases p; simp add: upd_opt_def)+

lemma write_if:
  "(if b then r\<lparr>timers := a\<rparr> else r) = r\<lparr>timers := if b then a else timers r\<rparr>"
  "(if b then r\<lparr>heap := h\<rparr> else r) = r\<lparr>heap := if b then h else heap r\<rparr>"
  by simp_all

definition move_links :: "'a field \<Rightarrow> 'a ptr \<Rightarrow> 'a \<Rightarrow> 'a \<Rightarrow> 'a ptr \<Rightarrow> 'a field" where
  "move_links l p s t r = (upd_opt l p (Some t))(t := r, s := None)"

lemma move_links_other:
  "x \<noteq> t \<Longrightarrow> x \<noteq> s \<Longrightarrow> move_links l p s t r x = (if p = Some x then Some t else l x)"
  by (simp add: move_links_def upd_opt_apply)

text \<open>
  The state after a move to a timer outside the list: the fields of the target are those of the
  source, references to the source name the target, the source is as constructed.
\<close>

lemma move_timer_eq:
  assumes w: "tq_inv_with tq ts" and t: "t \<notin> set ts" and st: "s \<noteq> t"
  shows "move_timer tq t s =
    tq\<lparr>op_queue_of := (op_queue_of tq)(t := op_queue_of tq s, s := []),
       heap_index := (heap_index tq)(t := heap_index tq s, s := size_max),
       heap := map (\<lambda>e. (fst e, rename1 s t (snd e))) (heap tq),
       timers := map_option (rename1 s t) (timers tq),
       t_next := move_links (t_next tq) (t_prev tq s) s t (t_next tq s),
       t_prev := move_links (t_prev tq) (t_next tq s) s t (t_prev tq s)\<rparr>"
proof -
  note d = tq_inv_withD [OF w]
  have ot: "op_queue_of tq t = []"
    using d(7) t by blast
  have hs: "snd (heap tq ! heap_index tq s) = s" if l: "heap_index tq s < length (heap tq)"
  proof -
    have "heap_index tq s \<noteq> size_max"
      using l d(3) by simp
    then have "s \<in> heap_timers tq"
      using d(6) by blast
    then obtain j where "j < length (heap tq)" "snd (heap tq ! j) = s"
      by (metis image_iff in_set_conv_nth)
    with positions_okD [OF d(2), of j] show ?thesis
      by simp
  qed
  have h: "(if heap_index tq s < length (heap tq)
      then (heap tq)[heap_index tq s := (fst (heap tq ! heap_index tq s), t)] else heap tq)
    = map (\<lambda>e. (fst e, rename1 s t (snd e))) (heap tq)"
  proof (rule nth_equalityI)
    fix j
    assume "j < length (if heap_index tq s < length (heap tq)
      then (heap tq)[heap_index tq s := (fst (heap tq ! heap_index tq s), t)] else heap tq)"
    then have j: "j < length (heap tq)"
      by (simp split: if_splits)
    have "snd (heap tq ! j) = s \<longleftrightarrow> heap_index tq s = j"
      using positions_okD [OF d(2) j] hs j by auto
    with j show "(if heap_index tq s < length (heap tq)
        then (heap tq)[heap_index tq s := (fst (heap tq ! heap_index tq s), t)] else heap tq) ! j
      = map (\<lambda>e. (fst e, rename1 s t (snd e))) (heap tq) ! j"
      by (auto simp: rename1_def nth_list_update prod_eq_iff)
  qed simp
  have p: "(if timers tq = Some s then Some t else timers tq) = map_option (rename1 s t) (timers tq)"
    by (cases "timers tq") (auto simp: rename1_def)
  have ns: "t_prev tq s \<noteq> Some s" "t_next tq s \<noteq> Some s"
    using dseg_prev_not_self [OF d(4), of s] dlist_next_in [OF d(4), of s s] d(8) [of s]
    by (cases "s \<in> set ts"; auto)+
  show ?thesis
    using ns st st [symmetric] ot unfolding h [symmetric] p [symmetric] move_timer_def Let_def
      write_if_not_null write_if
    by (simp add: upd_opt_apply move_links_def)
qed

lemma move_dlist:
  assumes d: "dlist nx pv p ts" and t: "t \<notin> set ts" and st: "s \<noteq> t"
    and o: "\<And>x. x \<notin> set ts \<Longrightarrow> nx x = None \<and> pv x = None"
  shows "dlist (move_links nx (pv s) s t (nx s)) (move_links pv (nx s) s t (pv s))
    (map_option (rename1 s t) p) (map (rename1 s t) ts)"
proof -
  have ns: "pv s \<noteq> Some s" "nx s \<noteq> Some s"
    using dseg_prev_not_self [OF d, of s] dlist_next_in [OF d, of s s] o [of s]
    by (cases "s \<in> set ts"; auto)+
  have fin: "map_option (rename1 s t) q = (if q = Some s then Some t else q)" for q
    by (cases q) (auto simp: rename1_def)
  have "move_links nx (pv s) s t (nx s) (rename1 s t x) = map_option (rename1 s t) (nx x) \<and>
     move_links pv (nx s) s t (pv s) (rename1 s t x) = map_option (rename1 s t) (pv x)"
    if x: "x \<in> set ts" for x
  proof (cases "x = s")
    case True
    with ns st show ?thesis
      by (simp add: fin rename1_def move_links_def)
  next
    case False
    have xt: "x \<noteq> t"
      using x t by blast
    have "pv s = Some x \<longleftrightarrow> nx x = Some s" "nx s = Some x \<longleftrightarrow> pv x = Some s"
    proof -
      have "s \<in> set ts" if "nx x = Some s \<or> pv x = Some s"
        using that dlist_next_in [OF d x, of s] dseg_prev_in [OF d x, of s] by blast
      moreover have "s \<in> set ts" if "pv s = Some x \<or> nx s = Some x"
        using that o [of s] by (metis option.distinct(1))
      ultimately show "pv s = Some x \<longleftrightarrow> nx x = Some s" "nx s = Some x \<longleftrightarrow> pv x = Some s"
        using dlist_inverse [OF d x, of s] dlist_inverse [OF d _ x, of s] by blast+
    qed
    with False xt show ?thesis
      by (simp add: fin move_links_other) (simp add: rename1_def move_links_other)
  qed
  from dseg_map [OF d this] show ?thesis
    by simp
qed

lemma move_timer_correct [invs]:
  assumes w: "tq_inv_with tq ts" and t: "t \<notin> set ts" and st: "s \<noteq> t"
  shows "tq_inv_with (move_timer tq t s) (map (rename1 s t) ts)"
proof -
  note d = tq_inv_withD [OF w] and m = move_timer_eq [OF w t st]
  have th: "t \<notin> heap_timers tq"
    using d(5) t by blast
  have keys: "key (map (\<lambda>e. (fst e, rename1 s t (snd e))) (heap tq)) i = key (heap tq) i"
    if "i < length (heap tq)" for i
    using that by simp
  have ordered: "heap_ordered (heap (move_timer tq t s))"
    unfolding heap_ordered_def
  proof (intro allI impI)
    fix j assume "0 < j \<and> j < length (heap (move_timer tq t s))"
    then have j: "0 < j" "j < length (heap tq)"
      by (simp_all add: m)
    then have "parent_of j < length (heap tq)"
      using parent_less less_trans by blast
    then show "key (heap (move_timer tq t s)) (parent_of j) \<le> key (heap (move_timer tq t s)) j"
      using d(1) j keys by (simp add: m heap_ordered_def)
  qed
  have lists: "dlist (t_next (move_timer tq t s)) (t_prev (move_timer tq t s))
      (timers (move_timer tq t s)) (map (rename1 s t) ts)"
    using move_dlist [OF d(4) t st d(8)] by (simp add: m)
  have "snd (heap tq ! i) \<noteq> t" if "i < length (heap tq)" for i
    using th that by (metis image_eqI nth_mem)
  then have pos: "positions_ok (move_timer tq t s)"
    using positions_okD [OF d(2)] st by (auto simp: m positions_ok_def rename1_def)
  have sub: "heap_timers (move_timer tq t s) \<subseteq> set (map (rename1 s t) ts)"
    using d(5) by (auto simp: m)
  have set_ts: "x \<in> set (map (rename1 s t) ts) \<longleftrightarrow> (if x = t then s \<in> set ts else x \<noteq> s \<and> x \<in> set ts)" for x
    using t st by (auto simp: rename1_def)
  have ops: "op_queue_of (move_timer tq t s) x \<noteq> [] \<longleftrightarrow> x \<in> set (map (rename1 s t) ts)" for x
    unfolding set_ts using d(7) st by (simp add: m)
  have idx: "heap_index (move_timer tq t s) x = size_max" if "x \<notin> heap_timers (move_timer tq t s)" for x
  proof -
    have "x = s \<or> (x = t \<and> s \<notin> heap_timers tq) \<or> (x \<noteq> t \<and> x \<notin> heap_timers tq)"
      using that by (force simp: m rename1_def)
    with d(6) st show ?thesis
      by (auto simp: m)
  qed
  have links: "t_next (move_timer tq t s) x = None \<and> t_prev (move_timer tq t s) x = None"
    if x: "x \<notin> set (map (rename1 s t) ts)" for x
  proof -
    consider "x = s" | "x = t" "s \<notin> set ts" | "x \<noteq> t" "x \<noteq> s" "x \<notin> set ts"
      using x unfolding set_ts by metis
    then show ?thesis
    proof cases
      case 1
      then show ?thesis by (simp add: m move_links_def)
    next
      case 2
      with d(8) [of s] d(8) [of t] t st show ?thesis by (simp add: m move_links_def)
    next
      case 3
      moreover have "t_prev tq s \<noteq> Some x" "t_next tq s \<noteq> Some x"
        using 3(3) dlist_next_in [OF d(4), of s x] dseg_prev_in [OF d(4), of s x] d(8) [of s]
        by (cases "s \<in> set ts"; auto)+
      ultimately show ?thesis
        using d(8) [of x] by (simp add: m move_links_other)
    qed
  qed
  have "length (heap (move_timer tq t s)) < size_max"
    using d(3) by (simp add: m)
  then show ?thesis
    using ordered pos lists sub idx ops links unfolding tq_inv_with_def by blast
qed

section \<open>How long to wait\<close>

lemma to_units_bounds:
  "0 \<le> m \<Longrightarrow> 0 \<le> units \<Longrightarrow> to_units ticks units m \<le> max 1 m \<and> 0 \<le> to_units ticks units m
     \<and> (0 < ticks \<and> 0 < m \<longrightarrow> 0 < to_units ticks units m)"
  by (auto simp: to_units_def)

section \<open>Properties\<close>

text \<open>A queue with three pending timers, for the witnesses.\<close>

definition demo_timers :: "(nat, nat, nat) timer_queue" where
  "demo_timers =
     fst (enqueue_timer (\<lambda>_. False) 5 3 30 (fst (enqueue_timer (\<lambda>_. False) 3 2 20
       (fst (enqueue_timer (\<lambda>_. False) 7 1 10 timer_queue_new)))))"

lemma tq_inv_with_new: "tq_inv_with (timer_queue_new :: ('t::linorder, 'a, 'o) timer_queue) []"
  by (simp add: tq_inv_with_def timer_queue_new_def heap_ordered_def positions_ok_def)

lemma demo_timers_inv: "tq_inv_with demo_timers [3, 2, 1]" "length (heap demo_timers) = 3"
    "op_queue_of demo_timers = (\<lambda>_. [])(1 := [10], 2 := [20], 3 := [30])"
    "mset (heap demo_timers) = {#(7, 1), (3, 2), (5, 3)#}"
proof -
  let ?e = "\<lambda>time t op tq. fst (enqueue_timer (\<lambda>_ :: nat. False) time t op tq) :: (nat, nat, nat) timer_queue"
  have c: "tq_inv_with (?e time t op tq) (t # ts)
    \<and> op_queue_of (?e time t op tq) = (op_queue_of tq)(t := [op])
    \<and> mset (heap (?e time t op tq)) = add_mset (time, t) (mset (heap tq))"
    if w: "tq_inv_with tq ts" and l: "Suc (length (heap tq)) < size_max" and t: "t \<notin> set ts" for time t op tq ts
  proof -
    have "op_queue_of tq t = []"
      using tq_inv_withD(7) [OF w, of t] t by blast
    then show ?thesis
      using enqueue_timer_correct [OF w l, of "\<lambda>_. False" time t op] t by (simp add: new_entries_def)
  qed
  have len: "length (heap (?e time t op tq)) = Suc (length (heap tq))"
    if w: "tq_inv_with tq ts" and l: "Suc (length (heap tq)) < size_max" and t: "t \<notin> set ts" for time t op tq ts
    using arg_cong [OF conjunct2 [OF conjunct2 [OF c [OF w l t]]], of size] by simp
  have h: "heap (timer_queue_new :: (nat, nat, nat) timer_queue) = []"
      "op_queue_of (timer_queue_new :: (nat, nat, nat) timer_queue) = (\<lambda>_. [])"
    by (simp_all add: timer_queue_new_def)
  note c1 = c [OF tq_inv_with_new, of 1 7 10] and l1 = len [OF tq_inv_with_new, of 1 7 10]
  have L: "Suc 2 < size_max" "Suc 1 < size_max" "Suc 0 < size_max"
    by (simp_all add: size_max_def)
  have a1: "tq_inv_with (?e 7 1 10 timer_queue_new) [1]" and m1: "length (heap (?e 7 1 10 timer_queue_new)) = 1"
    using c1 l1 L h by simp_all
  have a2: "tq_inv_with (?e 3 2 20 (?e 7 1 10 timer_queue_new)) [2, 1]"
    and m2: "length (heap (?e 3 2 20 (?e 7 1 10 timer_queue_new))) = 2"
    using c [OF a1, of 2 3 20] len [OF a1, of 2 3 20] L m1 by simp_all
  show "tq_inv_with demo_timers [3, 2, 1]" "length (heap demo_timers) = 3"
    using c [OF a2, of 3 5 30] len [OF a2, of 3 5 30] L m2 by (simp_all add: demo_timers_def)
  show "op_queue_of demo_timers = (\<lambda>_. [])(1 := [10], 2 := [20], 3 := [30])"
      "mset (heap demo_timers) = {#(7, 1), (3, 2), (5, 3)#}"
    using c1 c [OF a1, of 2 3 20] c [OF a2, of 3 5 30] L m1 m2 h
    by (simp_all add: demo_timers_def add_mset_commute)
qed

lemma demo_tq_inv: "tq_inv demo_timers"
  using demo_timers_inv(1) unfolding tq_inv_def by (rule exI)

text \<open>C1. Collecting expired timers (\<open>get_ready_timers\<close>) always returns. It takes exactly the entries
  whose expiry is not after \<open>now\<close>, earliest first, appends the operations of each of those timers in
  the order they were started, leaves the later entries and the operations of every other timer as
  they are, and keeps the queue's invariant.\<close>

theorem get_ready_timers_expired:
  assumes "tq_inv tq"
  shows "\<exists>tq' es. get_ready_timers now tq ops =
       Some (tq', ops @ concat (map (\<lambda>e. op_queue_of tq (snd e)) es)) \<and>
     tq_inv tq' \<and>
     mset (heap tq) = mset es + mset (heap tq') \<and>
     sorted (map fst es) \<and> (\<forall>e \<in> set es. fst e \<le> now) \<and> (\<forall>e \<in> set (heap tq'). now < fst e) \<and>
     op_queue_of tq' = (\<lambda>t. if t \<in> snd ` set es then [] else op_queue_of tq t)"
  using get_ready_timers_correct [OF assms, of now ops] unfolding ready_split_def .

theorem get_ready_timers_expired_witness:
  "\<exists>tq' es. get_ready_timers 5 demo_timers [] =
       Some (tq', concat (map (\<lambda>e. op_queue_of demo_timers (snd e)) es)) \<and>
     mset (heap demo_timers) = mset es + mset (heap tq')"
  using get_ready_timers_expired [OF demo_tq_inv, of 5 "[]"] by auto

text \<open>Scheduling a wait (\<open>enqueue_timer\<close>) keeps the invariant, appends the operation to its timer's
  operations and touches no other timer's; and when it returns \<open>false\<close>, the earliest expiry is
  unchanged, so that a reactor that is not interrupted does not oversleep.\<close>

theorem enqueue_timer_earliest:
  assumes "tq_inv tq" and "Suc (length (heap tq)) < size_max"
  shows "\<exists>tq' earliest. enqueue_timer is_inf time t op tq = (tq', earliest) \<and> tq_inv tq' \<and>
     op_queue_of tq' = (op_queue_of tq)(t := op_queue_of tq t @ [op]) \<and>
     (earliest \<or> next_expiry tq' = next_expiry tq)"
proof -
  obtain ts where w: "tq_inv_with tq ts"
    using assms(1) by (auto simp: tq_inv_def)
  obtain tq' earliest where e: "enqueue_timer is_inf time t op tq = (tq', earliest)"
    by (cases "enqueue_timer is_inf time t op tq")
  have "tq_inv tq'" "op_queue_of tq' = (op_queue_of tq)(t := op_queue_of tq t @ [op])"
    using enqueue_timer_correct [OF w assms(2), of is_inf time t op] e by (auto simp: tq_inv_def)
  moreover have "earliest \<or> next_expiry tq' = next_expiry tq"
    using enqueue_flag_false [OF w assms(2), of is_inf time t op tq'] e by (cases earliest) auto
  ultimately show ?thesis
    using e by blast
qed

theorem enqueue_timer_earliest_witness:
  "\<exists>tq' earliest. enqueue_timer (\<lambda>_. False) 4 9 40 demo_timers = (tq', earliest) \<and> tq_inv tq' \<and>
     op_queue_of tq' 9 = [40] \<and> (earliest \<or> next_expiry tq' = next_expiry demo_timers)"
proof -
  have "Suc (length (heap demo_timers)) < size_max"
    by (simp add: demo_timers_inv size_max_def)
  from enqueue_timer_earliest [OF demo_tq_inv this, of "\<lambda>_. False" 4 9 40] show ?thesis
    by (auto simp: demo_timers_inv)
qed

text \<open>Cancelling at most \<open>m\<close> operations of a timer (\<open>cancel_timer\<close>) takes the oldest
  \<open>min m (length \<dots>)\<close> of them, sets their result to \<open>operation_aborted\<close>, appends them to the caller's
  queue in order and returns their number; the timer leaves the heap exactly when none is left, and
  the invariant is kept.\<close>

theorem timer_cancel_aborts:
  assumes "tq_inv tq" and "k = min m (length (op_queue_of tq t))"
  shows "\<exists>tq'. timer_cancel tq t ecs ops m =
      (tq', (\<lambda>x. if x \<in> set (take k (op_queue_of tq t)) then basic_ec operation_aborted else ecs x),
       ops @ take k (op_queue_of tq t), k) \<and> tq_inv tq' \<and>
    op_queue_of tq' = (op_queue_of tq)(t := drop k (op_queue_of tq t)) \<and>
    mset (heap tq') = (if drop k (op_queue_of tq t) = [] then {# e \<in># mset (heap tq). snd e \<noteq> t #}
                       else mset (heap tq))"
  using timer_cancel_correct [OF assms(1), of t ecs ops m] unfolding assms(2) set_ec_def drop_timer_def .

theorem timer_cancel_aborts_witness:
  "\<exists>tq'. timer_cancel demo_timers 2 (\<lambda>_. no_error) [] 4 =
      (tq', (\<lambda>x. if x = 20 then basic_ec operation_aborted else no_error), [20], 1) \<and>
    mset (heap tq') = {#(7, 1), (5, 3)#}"
proof -
  have "(1::nat) = min 4 (length (op_queue_of demo_timers 2))"
    by (simp add: demo_timers_inv)
  from timer_cancel_aborts [OF demo_tq_inv this, of "\<lambda>_. no_error" "[]"] show ?thesis
    by (auto simp: demo_timers_inv)
qed

text \<open>Moving a timer to one with no waits (\<open>move_timer\<close>) renames the source to the target in the
  list and in the heap, hands over its operations and leaves the source as constructed; the
  invariant is kept.\<close>

theorem move_timer_renames:
  assumes "tq_inv_with tq ts" and "t \<notin> set ts" and "s \<noteq> t"
  shows "tq_inv_with (move_timer tq t s) (map (\<lambda>x. if x = s then t else x) ts) \<and>
     heap (move_timer tq t s) = map (\<lambda>(time, x). (time, if x = s then t else x)) (heap tq) \<and>
     op_queue_of (move_timer tq t s) = (op_queue_of tq)(t := op_queue_of tq s, s := []) \<and>
     heap_index (move_timer tq t s) s = size_max"
  using move_timer_correct [OF assms] unfolding move_timer_eq [OF assms] rename1_def
  by (simp add: case_prod_unfold)

theorem move_timer_renames_witness:
  "tq_inv_with (move_timer demo_timers 4 2) [3, 4, 1] \<and> op_queue_of (move_timer demo_timers 4 2) 4 = [20]"
proof -
  have "4 \<notin> set [3, 2, 1 :: nat]" and "(2 :: nat) \<noteq> 4"
    by simp_all
  from move_timer_renames [OF demo_timers_inv(1) this] show ?thesis
    by (simp add: demo_timers_inv)
qed

end
