(* ===== verification/PosixEvent.thy ===== *)
theory PosixEvent
  imports ErrorCodes "HOL-Library.Signed_Division"
begin

unbundle bit_operations_syntax

text \<open>
  \<open>include/asio/detail/base/posix/posix_event.hpp\<close> and \<open>conditionally_enabled_event.hpp\<close>: the event
  the scheduler's threads sleep on. Its state is the word \<open>state_\<close>: bit 0 says that the event is
  signalled, the rest counts the waiting threads (two per waiter). What a call does to the condition
  variable is returned as a \<open>cond_signal\<close>; the threads are part of the scheduler's state.
\<close>

datatype cond_signal = NoSignal | SignalOne | Broadcast

type_synonym event_state = nat

definition event_new :: event_state where
  "event_new = 0"

definition ev_signalled :: "event_state \<Rightarrow> bool" where
  "ev_signalled st \<longleftrightarrow> st AND 1 \<noteq> 0"

definition ev_signal_all :: "event_state \<Rightarrow> event_state \<times> cond_signal" where
  "ev_signal_all st = (st OR 1, Broadcast)"

definition ev_unlock_and_signal_one :: "event_state \<Rightarrow> event_state \<times> cond_signal" where
  "ev_unlock_and_signal_one st =
     (let st1 = st OR 1; have_waiters = st1 > 1
      in (st1, if have_waiters then SignalOne else NoSignal))"

text \<open>The flag says that the mutex was released and a waiter signalled.\<close>

definition ev_maybe_unlock_and_signal_one :: "event_state \<Rightarrow> event_state \<times> cond_signal \<times> bool" where
  "ev_maybe_unlock_and_signal_one st =
     (let st1 = st OR 1 in if st1 > 1 then (st1, SignalOne, True) else (st1, NoSignal, False))"

definition ev_clear :: "event_state \<Rightarrow> event_state" where
  "ev_clear st = unset_bit 0 st"

text \<open>
  A wait: the loop test, the registration before the thread sleeps on the condition variable, and
  the deregistration when it wakes up. \<open>None\<close> says that the thread does not sleep.
\<close>

definition ev_wait :: "event_state \<Rightarrow> event_state option" where
  "ev_wait st = (if st AND 1 = 0 then Some (st + 2) else None)"

definition ev_awake :: "event_state \<Rightarrow> event_state" where
  "ev_awake st = st - 2"

text \<open>
  The deadline of a timed wait, from the monotonic clock's seconds and nanoseconds. The code
  assigns the nanoseconds of the timeout to \<open>tv_nsec\<close>.
\<close>

definition ev_deadline :: "int \<times> int \<Rightarrow> int \<Rightarrow> int \<times> int" where
  "ev_deadline now usec =
     (let sec1 = fst now + usec sdiv 1000000;
          nsec1 = (usec smod 1000000) * 1000;
          sec2 = sec1 + nsec1 sdiv 1000000000
      in (sec2, nsec1 smod 1000000000))"

text \<open>\<open>conditionally_enabled_event\<close>: with locking disabled every operation does nothing.\<close>

definition cev_signal_all :: "bool \<Rightarrow> event_state \<Rightarrow> event_state \<times> cond_signal" where
  "cev_signal_all enabled st = (if enabled then ev_signal_all st else (st, NoSignal))"

definition cev_unlock_and_signal_one :: "bool \<Rightarrow> event_state \<Rightarrow> event_state \<times> cond_signal" where
  "cev_unlock_and_signal_one enabled st =
     (if enabled then ev_unlock_and_signal_one st else (st, NoSignal))"

definition cev_maybe_unlock_and_signal_one ::
  "bool \<Rightarrow> event_state \<Rightarrow> event_state \<times> cond_signal \<times> bool" where
  "cev_maybe_unlock_and_signal_one enabled st =
     (if enabled then ev_maybe_unlock_and_signal_one st else (st, NoSignal, False))"

definition cev_clear :: "bool \<Rightarrow> event_state \<Rightarrow> event_state" where
  "cev_clear enabled st = (if enabled then ev_clear st else st)"

section \<open>The two parts of the state word\<close>

definition ev_waiters :: "event_state \<Rightarrow> nat" where
  "ev_waiters st = st div 2"

lemma or_1_nat: "(st :: nat) OR Suc 0 = (if odd st then st else st + 1)"
  by (simp add: or_Suc_0_eq)

lemma ev_signalled_odd: "ev_signalled st \<longleftrightarrow> odd st"
  by (simp add: ev_signalled_def and_one_eq odd_iff_mod_2_eq_one)

lemma ev_new [simp]: "ev_waiters event_new = 0" "\<not> ev_signalled event_new"
  by (simp_all add: ev_waiters_def event_new_def ev_signalled_odd)

lemma ev_set_waiters [simp]: "ev_waiters (st OR Suc 0) = ev_waiters st"
  by (auto simp: ev_waiters_def or_1_nat elim: evenE)

lemma ev_set_signalled [simp]: "ev_signalled (st OR Suc 0)"
  by (simp add: ev_signalled_odd or_1_nat)

lemma ev_set_gt: "Suc 0 < st OR Suc 0 \<longleftrightarrow> 0 < ev_waiters st"
  by (auto simp: ev_waiters_def or_1_nat elim!: evenE oddE)

lemma ev_clear_facts [simp]: "ev_waiters (ev_clear st) = ev_waiters st" "\<not> ev_signalled (ev_clear st)"
  by (simp_all add: ev_clear_def ev_waiters_def ev_signalled_odd unset_bit_0)

lemma ev_wait_eq: "ev_wait st = (if ev_signalled st then None else Some (st + 2))"
  by (simp add: ev_wait_def ev_signalled_def)

lemma ev_add2 [simp]: "ev_waiters (Suc (Suc st)) = Suc (ev_waiters st)" "ev_signalled (Suc (Suc st)) = ev_signalled st"
  by (simp_all add: ev_waiters_def ev_signalled_odd)

lemma ev_awake_facts:
  "0 < ev_waiters st \<Longrightarrow> ev_waiters (ev_awake st) = ev_waiters st - 1"
  "0 < ev_waiters st \<Longrightarrow> ev_signalled (ev_awake st) = ev_signalled st"
  by (auto simp: ev_waiters_def ev_awake_def ev_signalled_odd)

section \<open>The timed wait's deadline\<close>

definition nanos :: "int \<times> int \<Rightarrow> int" where
  "nanos ts = fst ts * 1000000000 + snd ts"

lemma ev_deadline_nanos:
  assumes "0 \<le> usec"
  shows "nanos (ev_deadline now usec) = nanos now + usec * 1000 - snd now"
proof -
  have d: "usec sdiv 1000000 = usec div 1000000" "usec smod 1000000 = usec mod 1000000"
    using assms by (cases "usec = 0"; simp add: signed_divide_int_def signed_modulo_int_def)+
  define r where "r = usec mod 1000000 * 1000"
  have r: "0 \<le> r" "r < 1000000000"
    using pos_mod_bound [of 1000000 usec] by (simp_all add: r_def)
  have e: "r sdiv 1000000000 = 0" "r smod 1000000000 = r"
    using r by (cases "r = 0"; simp add: signed_divide_int_def signed_modulo_int_def)+
  have "usec = usec div 1000000 * 1000000 + usec mod 1000000"
    by simp
  then have "usec * 1000 = usec div 1000000 * 1000000000 + r"
    unfolding r_def by presburger
  then show ?thesis
    by (simp add: ev_deadline_def nanos_def Let_def d e r_def [symmetric])
qed

text \<open>The deadline that \<open>wait_for_usec\<close> computes is the requested number of microseconds after the
  start of the clock's current second, not after now: the clock's nanoseconds are lost, and when they
  exceed the timeout the deadline has passed before the wait begins.\<close>

theorem wait_deadline_loses_nanoseconds:
  assumes "0 \<le> usec"
  shows "nanos (ev_deadline now usec) = nanos now + usec * 1000 - snd now \<and>
    (nanos (ev_deadline now usec) < nanos now \<longleftrightarrow> usec * 1000 < snd now)"
  using ev_deadline_nanos [OF assms, of now] by auto

theorem wait_deadline_loses_nanoseconds_witness:
  "nanos (ev_deadline (10, 900000000) 500000) < nanos (10, 900000000)"
  using wait_deadline_loses_nanoseconds [of 500000 "(10, 900000000)"] by simp

end
