(* ===== verification/Scheduler.thy ===== *)
theory Scheduler
  imports PosixEvent OpQueue
begin

text \<open>
  \<open>include/asio/core/scheduler/scheduler.ipp\<close>, \<open>scheduler.hpp\<close>, \<open>scheduler_thread_info.hpp\<close>: the
  scheduler behind \<open>io_context\<close>. The mutex-protected state is the record \<open>sched\<close>; the queue is the
  list that \<open>OpQueue.queue_of\<close> relates to the intrusive queue, with \<open>TaskOp\<close> for the address of
  \<open>task_operation_\<close>. Every piece of a function that runs with the mutex held is one definition; the
  places where the mutex is free, a thread sleeps, the reactor runs or a handler runs are the
  program counters \<open>pc\<close> of the thread. The number of calls of \<open>task_->interrupt()\<close> is counted.
\<close>

datatype 'o item = TaskOp | Op 'o

record 'o sched =
  one_thread :: bool
  mutex_enabled :: bool
  wakeup_event :: event_state
  task_set :: bool
  task_interrupted :: bool
  outstanding_work :: int
  ready_queue :: "'o item list"
  stopped :: bool
  shut_down_flag :: bool
  interrupts :: nat

record 'o thread_info =
  private_op_queue :: "'o list"
  private_outstanding_work :: int

text \<open>The concurrency hint's bits (\<open>concurrency_hint.hpp\<close>).\<close>

definition hint_id :: "32 word" where "hint_id = 0xA5100000"
definition hint_id_mask :: "32 word" where "hint_id_mask = 0xFFFF0000"
definition locking_scheduler :: "32 word" where "locking_scheduler = 0x1"
definition locking_reactor_registration :: "32 word" where "locking_reactor_registration = 0x2"
definition locking_reactor_io :: "32 word" where "locking_reactor_io = 0x4"

definition hint_is_locking :: "32 word \<Rightarrow> 32 word \<Rightarrow> bool" where
  "hint_is_locking facility hint \<longleftrightarrow> (hint AND (hint_id_mask OR facility)) XOR hint_id \<noteq> 0"

definition sched_new :: "32 word \<Rightarrow> 'o sched" where
  "sched_new hint =
     \<lparr>one_thread = hint = 1 \<or> \<not> hint_is_locking locking_scheduler hint
                    \<or> \<not> hint_is_locking locking_reactor_io hint,
      mutex_enabled = hint_is_locking locking_scheduler hint,
      wakeup_event = event_new, task_set = False, task_interrupted = True, outstanding_work = 0,
      ready_queue = [], stopped = False, shut_down_flag = False, interrupts = 0\<rparr>"

definition info_new :: "'o thread_info" where
  "info_new = \<lparr>private_op_queue = [], private_outstanding_work = 0\<rparr>"

section \<open>Waking and stopping\<close>

definition interrupt_task :: "'o sched \<Rightarrow> 'o sched" where
  "interrupt_task s =
     (if \<not> task_interrupted s \<and> task_set s
      then s\<lparr>task_interrupted := True, interrupts := Suc (interrupts s)\<rparr> else s)"

definition wake_one_thread_and_unlock :: "'o sched \<Rightarrow> 'o sched \<times> cond_signal" where
  "wake_one_thread_and_unlock s =
     (let (e, c, signalled) = cev_maybe_unlock_and_signal_one (mutex_enabled s) (wakeup_event s);
          s1 = s\<lparr>wakeup_event := e\<rparr>
      in (if \<not> signalled then interrupt_task s1 else s1, c))"

definition stop_all_threads :: "'o sched \<Rightarrow> 'o sched \<times> cond_signal" where
  "stop_all_threads s =
     (let (e, c) = cev_signal_all (mutex_enabled s) (wakeup_event s)
      in (interrupt_task (s\<lparr>stopped := True, wakeup_event := e\<rparr>), c))"

text \<open>\<open>stop\<close> is \<open>stop_all_threads\<close> under the mutex.\<close>

definition sched_stop :: "'o sched \<Rightarrow> 'o sched \<times> cond_signal" where
  "sched_stop s = stop_all_threads s"

definition restart :: "'o sched \<Rightarrow> 'o sched" where
  "restart s = s\<lparr>stopped := False\<rparr>"

text \<open>\<open>if (more_handlers && !one_thread_) wake_one_thread_and_unlock(lock); else lock.unlock();\<close>\<close>

definition wake_if_more :: "'o sched \<Rightarrow> 'o sched \<times> cond_signal" where
  "wake_if_more s =
     (if ready_queue s \<noteq> [] \<and> \<not> one_thread s then wake_one_thread_and_unlock s else (s, NoSignal))"

section \<open>Work and completions\<close>

definition work_started :: "'o sched \<Rightarrow> 'o sched" where
  "work_started s = s\<lparr>outstanding_work := outstanding_work s + 1\<rparr>"

text \<open>The decrement, and whether the caller goes on to call \<open>stop\<close>.\<close>

definition work_finished :: "'o sched \<Rightarrow> 'o sched \<times> bool" where
  "work_finished s =
     (let s1 = s\<lparr>outstanding_work := outstanding_work s - 1\<rparr> in (s1, outstanding_work s1 = 0))"

definition compensating_work_started :: "'o thread_info \<Rightarrow> 'o thread_info" where
  "compensating_work_started ti = ti\<lparr>private_outstanding_work := private_outstanding_work ti + 1\<rparr>"

text \<open>
  The completions. The argument \<open>this\<close> is the result of \<open>thread_call_stack::contains(this)\<close>: the
  innermost run call of the calling thread on this scheduler.
\<close>

definition post_immediate_completion ::
  "'o \<Rightarrow> bool \<Rightarrow> 'o thread_info option \<Rightarrow> 'o sched \<Rightarrow> 'o sched \<times> 'o thread_info option \<times> cond_signal" where
  "post_immediate_completion op is_continuation this s =
     (case (if one_thread s \<or> is_continuation then this else None) of
        Some ti \<Rightarrow>
          (s, Some (ti\<lparr>private_outstanding_work := private_outstanding_work ti + 1,
                       private_op_queue := private_op_queue ti @ [op]\<rparr>), NoSignal)
      | None \<Rightarrow>
          let s1 = work_started s;
              (s2, c) = wake_one_thread_and_unlock (s1\<lparr>ready_queue := ready_queue s1 @ [Op op]\<rparr>)
          in (s2, this, c))"

definition post_deferred_completion ::
  "'o \<Rightarrow> 'o thread_info option \<Rightarrow> 'o sched \<Rightarrow> 'o sched \<times> 'o thread_info option \<times> cond_signal" where
  "post_deferred_completion op this s =
     (case (if one_thread s then this else None) of
        Some ti \<Rightarrow> (s, Some (ti\<lparr>private_op_queue := private_op_queue ti @ [op]\<rparr>), NoSignal)
      | None \<Rightarrow>
          let (s1, c) = wake_one_thread_and_unlock (s\<lparr>ready_queue := ready_queue s @ [Op op]\<rparr>)
          in (s1, this, c))"

definition post_deferred_completions ::
  "'o list \<Rightarrow> 'o thread_info option \<Rightarrow> 'o sched \<Rightarrow> 'o sched \<times> 'o thread_info option \<times> cond_signal" where
  "post_deferred_completions ops this s =
     (if ops = [] then (s, this, NoSignal)
      else case (if one_thread s then this else None) of
        Some ti \<Rightarrow> (s, Some (ti\<lparr>private_op_queue := private_op_queue ti @ ops\<rparr>), NoSignal)
      | None \<Rightarrow>
          let (s1, c) = wake_one_thread_and_unlock (s\<lparr>ready_queue := ready_queue s @ map Op ops\<rparr>)
          in (s1, this, c))"

definition do_dispatch :: "'o \<Rightarrow> 'o sched \<Rightarrow> 'o sched \<times> cond_signal" where
  "do_dispatch op s =
     (let s1 = work_started s
      in wake_one_thread_and_unlock (s1\<lparr>ready_queue := ready_queue s1 @ [Op op]\<rparr>))"

text \<open>\<open>abandon_operations\<close> destroys the operations: the caller's queue is empty, these are destroyed.\<close>

definition abandon_operations :: "'o list \<Rightarrow> 'o list \<times> 'o list" where
  "abandon_operations ops = ([], ops)"

definition init_task :: "'o sched \<Rightarrow> 'o sched \<times> cond_signal" where
  "init_task s =
     (if \<not> shut_down_flag s \<and> \<not> task_set s
      then wake_one_thread_and_unlock (s\<lparr>task_set := True, ready_queue := ready_queue s @ [TaskOp]\<rparr>)
      else (s, NoSignal))"

text \<open>The loop that destroys the queued handlers but not the task, and the whole of \<open>shutdown\<close>.\<close>

fun destroy_handlers :: "'o item list \<Rightarrow> 'o list \<Rightarrow> 'o list" where
  "destroy_handlers [] destroyed = destroyed"
| "destroy_handlers (i # q) destroyed =
     destroy_handlers q (case i of TaskOp \<Rightarrow> destroyed | Op o' \<Rightarrow> destroyed @ [o'])"

definition shutdown :: "'o sched \<Rightarrow> 'o sched \<times> 'o list" where
  "shutdown s =
     (s\<lparr>shut_down_flag := True, ready_queue := [], task_set := False\<rparr>, destroy_handlers (ready_queue s) [])"

section \<open>The clean-up classes\<close>

text \<open>\<open>~task_cleanup\<close>, which leaves the mutex locked.\<close>

definition task_cleanup :: "'o sched \<Rightarrow> 'o thread_info \<Rightarrow> 'o sched \<times> 'o thread_info" where
  "task_cleanup s ti =
     (let s1 = (if private_outstanding_work ti > 0
                then s\<lparr>outstanding_work := outstanding_work s + private_outstanding_work ti\<rparr> else s)
      in (s1\<lparr>task_interrupted := True,
             ready_queue := ready_queue s1 @ map Op (private_op_queue ti) @ [TaskOp]\<rparr>,
          info_new))"

text \<open>
  \<open>~work_cleanup\<close>: the count, with the flag that \<open>stop\<close> is to be called, and then the private
  queue, pushed with the mutex locked.
\<close>

definition work_cleanup_count :: "'o sched \<Rightarrow> 'o thread_info \<Rightarrow> 'o sched \<times> 'o thread_info \<times> bool" where
  "work_cleanup_count s ti =
     (if private_outstanding_work ti > 1 then
        (s\<lparr>outstanding_work := outstanding_work s + (private_outstanding_work ti - 1)\<rparr>,
         ti\<lparr>private_outstanding_work := 0\<rparr>, False)
      else if private_outstanding_work ti < 1 then
        (let (s1, stop) = work_finished s in (s1, ti\<lparr>private_outstanding_work := 0\<rparr>, stop))
      else (s, ti\<lparr>private_outstanding_work := 0\<rparr>, False))"

definition work_cleanup_queue :: "'o sched \<Rightarrow> 'o thread_info \<Rightarrow> 'o sched \<times> 'o thread_info" where
  "work_cleanup_queue s ti =
     (s\<lparr>ready_queue := ready_queue s @ map Op (private_op_queue ti)\<rparr>, ti\<lparr>private_op_queue := []\<rparr>)"

section \<open>Running\<close>

text \<open>
  The run functions. A call is at one of these points: not running (with the count it returned),
  about to lock the mutex for the next operation, asleep on the event or woken, in the reactor (with
  the time it may block: \<open>-1\<close> for ever), in a handler, or about to push its private queue.
\<close>

datatype mode = Run | RunOne | Poll | PollOne | WaitOne int

datatype 'o pc =
    Returned nat
  | Locking mode nat
  | Waiting mode nat
  | Woken mode nat
  | InTask mode nat int
  | InHandler mode nat 'o
  | Flushing mode nat

definition bump :: "nat \<Rightarrow> nat" where
  "bump n = (if n \<noteq> size_max then n + 1 else n)"

text \<open>Taking an operation off the queue and starting it, the last part of the three \<open>do_\<close> functions.\<close>

definition start_handler ::
  "'o sched \<Rightarrow> mode \<Rightarrow> nat \<Rightarrow> 'o \<Rightarrow> 'o item list \<Rightarrow> 'o sched \<times> 'o pc \<times> cond_signal" where
  "start_handler s m n o' q =
     (let (s1, c) = wake_if_more (s\<lparr>ready_queue := q\<rparr>) in (s1, InHandler m n o', c))"

text \<open>Taking the task off the queue; \<open>do_poll_one\<close> neither wakes a thread nor sets the flag.\<close>

definition start_task ::
  "'o sched \<Rightarrow> mode \<Rightarrow> nat \<Rightarrow> int \<Rightarrow> 'o item list \<Rightarrow> 'o sched \<times> 'o pc \<times> cond_signal" where
  "start_task s m n timeout q =
     (let more_handlers = q \<noteq> [];
          s1 = s\<lparr>ready_queue := q, task_interrupted := more_handlers\<rparr>;
          (e, c) = (if more_handlers \<and> \<not> one_thread s
                    then cev_unlock_and_signal_one (mutex_enabled s) (wakeup_event s)
                    else (wakeup_event s, NoSignal))
      in (s1\<lparr>wakeup_event := e\<rparr>, InTask m n (if more_handlers then 0 else timeout), c))"

definition go_to_sleep :: "'o sched \<Rightarrow> mode \<Rightarrow> nat \<Rightarrow> 'o sched \<times> 'o pc \<times> cond_signal" where
  "go_to_sleep s m n =
     (if mutex_enabled s then (s\<lparr>wakeup_event := ev_clear (wakeup_event s) + 2\<rparr>, Waiting m n, NoSignal)
      else (s, Waiting m n, NoSignal))"

text \<open>One round of the loop of \<open>do_run_one\<close>, from its test to the next release of the mutex.\<close>

definition run_round :: "'o sched \<Rightarrow> mode \<Rightarrow> nat \<Rightarrow> 'o sched \<times> 'o pc \<times> cond_signal" where
  "run_round s m n =
     (if stopped s then (s, Returned n, NoSignal)
      else case ready_queue s of
        [] \<Rightarrow> go_to_sleep s m n
      | TaskOp # q \<Rightarrow> start_task s m n (- 1) q
      | Op o' # q \<Rightarrow> start_handler s m n o' q)"

text \<open>\<open>do_poll_one\<close> up to the reactor, and after it.\<close>

definition poll_after_task :: "'o sched \<Rightarrow> mode \<Rightarrow> nat \<Rightarrow> 'o sched \<times> 'o pc \<times> cond_signal" where
  "poll_after_task s m n =
     (case ready_queue s of
        [] \<Rightarrow> (s, Returned n, NoSignal)
      | TaskOp # q \<Rightarrow>
          let (e, c, _) = cev_maybe_unlock_and_signal_one (mutex_enabled s) (wakeup_event s)
          in (s\<lparr>wakeup_event := e\<rparr>, Returned n, c)
      | Op o' # q \<Rightarrow> start_handler s m n o' q)"

definition poll_round :: "'o sched \<Rightarrow> mode \<Rightarrow> nat \<Rightarrow> 'o sched \<times> 'o pc \<times> cond_signal" where
  "poll_round s m n =
     (if stopped s then (s, Returned n, NoSignal)
      else case ready_queue s of
        [] \<Rightarrow> (s, Returned n, NoSignal)
      | TaskOp # q \<Rightarrow> (s\<lparr>ready_queue := q\<rparr>, InTask m n 0, NoSignal)
      | Op o' # q \<Rightarrow> start_handler s m n o' q)"

text \<open>\<open>do_wait_one\<close>: before the wait, after it (when the time has become 0) and after the reactor.\<close>

definition wait_after_task :: "'o sched \<Rightarrow> mode \<Rightarrow> nat \<Rightarrow> 'o sched \<times> 'o pc \<times> cond_signal" where
  "wait_after_task s m n =
     (case ready_queue s of
        [] \<Rightarrow> (s, Returned n, NoSignal)
      | TaskOp # q \<Rightarrow>
          if \<not> one_thread s then
            let (e, c, _) = cev_maybe_unlock_and_signal_one (mutex_enabled s) (wakeup_event s)
            in (s\<lparr>wakeup_event := e\<rparr>, Returned n, c)
          else (s, Returned n, NoSignal)
      | Op o' # q \<Rightarrow> start_handler s m n o' q)"

definition wait_take :: "'o sched \<Rightarrow> mode \<Rightarrow> nat \<Rightarrow> int \<Rightarrow> 'o sched \<times> 'o pc \<times> cond_signal" where
  "wait_take s m n usec =
     (case ready_queue s of
        [] \<Rightarrow> (s, Returned n, NoSignal)
      | TaskOp # q \<Rightarrow> start_task s m n usec q
      | Op o' # q \<Rightarrow> start_handler s m n o' q)"

definition wait_round :: "'o sched \<Rightarrow> mode \<Rightarrow> nat \<Rightarrow> int \<Rightarrow> 'o sched \<times> 'o pc \<times> cond_signal" where
  "wait_round s m n usec =
     (if stopped s then (s, Returned n, NoSignal)
      else if ready_queue s = [] then go_to_sleep s m n
      else wait_take s m n usec)"

text \<open>What a call does once it holds the mutex, and what it does when its reactor run is over.\<close>

definition next_round :: "'o sched \<Rightarrow> mode \<Rightarrow> nat \<Rightarrow> 'o sched \<times> 'o pc \<times> cond_signal" where
  "next_round s m n =
     (case m of
        Run \<Rightarrow> run_round s m n
      | RunOne \<Rightarrow> run_round s m n
      | Poll \<Rightarrow> poll_round s m n
      | PollOne \<Rightarrow> poll_round s m n
      | WaitOne usec \<Rightarrow> wait_round s m n usec)"

definition after_task :: "'o sched \<Rightarrow> mode \<Rightarrow> nat \<Rightarrow> 'o sched \<times> 'o pc \<times> cond_signal" where
  "after_task s m n =
     (case m of
        Run \<Rightarrow> run_round s m n
      | RunOne \<Rightarrow> run_round s m n
      | Poll \<Rightarrow> poll_after_task s m n
      | PollOne \<Rightarrow> poll_after_task s m n
      | WaitOne usec \<Rightarrow> wait_after_task s m n)"

text \<open>
  Waking up: the deregistration; the untimed wait goes back to sleep when the event is not
  signalled, the timed wait goes on in either case.
\<close>

definition wake_up :: "'o sched \<Rightarrow> mode \<Rightarrow> nat \<Rightarrow> 'o sched \<times> 'o pc \<times> cond_signal" where
  "wake_up s m n =
     (let s1 = (if mutex_enabled s then s\<lparr>wakeup_event := ev_awake (wakeup_event s)\<rparr> else s) in
      case m of
        WaitOne usec \<Rightarrow> wait_take s1 m n 0
      | _ \<Rightarrow>
          (case ev_wait (wakeup_event s1) of
             Some e \<Rightarrow> (s1\<lparr>wakeup_event := if mutex_enabled s then e else wakeup_event s1\<rparr>, Waiting m n, NoSignal)
           | None \<Rightarrow> run_round s1 m n))"

text \<open>After a handler: \<open>run\<close> and \<open>poll\<close> count it and go on, the others return 1.\<close>

definition after_handler :: "mode \<Rightarrow> nat \<Rightarrow> 'o pc" where
  "after_handler m n =
     (if m = Run \<or> m = Poll then Locking m (bump n) else Returned 1)"

text \<open>
  Entering a run function: with no outstanding work it stops the scheduler and returns 0 (the flag);
  otherwise a new thread info is on the call stack. In the single-threaded case \<open>poll\<close> and
  \<open>poll_one\<close> first move the operations of the enclosing run call to the main queue.
\<close>

definition begin_call :: "'o sched \<Rightarrow> mode \<Rightarrow> 'o pc \<times> bool" where
  "begin_call s m = (if outstanding_work s = 0 then (Returned 0, True) else (Locking m 0, False))"

definition poll_take_outer :: "'o sched \<Rightarrow> 'o thread_info \<Rightarrow> 'o sched \<times> 'o thread_info" where
  "poll_take_outer s outer =
     (if one_thread s
      then (s\<lparr>ready_queue := ready_queue s @ map Op (private_op_queue outer)\<rparr>,
            outer\<lparr>private_op_queue := []\<rparr>)
      else (s, outer))"

end
