(* ===== verification/SchedulerSteps.thy ===== *)
theory SchedulerSteps
  imports Scheduler
begin

text \<open>
  Any number of threads on one scheduler: the calls of the run functions as program counters with
  their thread infos, and the steps they and the rest of the program make. Each step is one section
  under the mutex, or one atomic operation on the work count. A step is indexed by the set \<open>M\<close> of run
  functions the program uses and the set \<open>D\<close> of descriptor operations: the reactor queues its
  descriptor states as operations that do not count as work (\<open>epoll_reactor.ipp\<close>, the loop of
  \<open>run\<close>), and their handler, \<open>descriptor_state::do_complete\<close>, either goes on as the handler of the
  first user operation that \<open>perform_io\<close> completed, or makes up with \<open>compensating_work_started\<close> for
  the decrement that the scheduler makes after every handler.

  A call may be made inside a handler: \<open>c_outer\<close> is then the call whose handler makes it, the entry
  below it on the thread's call stack. Ghost fields: the started work that is not yet an operation of
  a queue or of a running handler (\<open>credits\<close>), and what a running handler stands for (\<open>c_phase\<close>).
\<close>

datatype phase = Owner | Pending | Balanced

record 'o call =
  c_pc :: "'o pc"
  c_info :: "'o thread_info"
  c_phase :: phase
  c_outer :: "nat option"

record 'o config =
  sch :: "'o sched"
  calls :: "'o call list"
  credits :: nat
  pending_stops :: nat

definition idle_call :: "'o call" where
  "idle_call = \<lparr>c_pc = Returned 0, c_info = info_new, c_phase = Owner, c_outer = None\<rparr>"

definition initial :: "32 word \<Rightarrow> nat \<Rightarrow> 'o config" where
  "initial hint k =
     \<lparr>sch = sched_new hint, calls = replicate k idle_call, credits = 0, pending_stops = 0\<rparr>"

text \<open>How many of some operations count as work.\<close>

definition counted :: "'o set \<Rightarrow> 'o list \<Rightarrow> nat" where
  "counted D ops = length (filter (\<lambda>x. x \<notin> D) ops)"

text \<open>
  A call reaches its next point. The handler of a user operation stands for that operation; the
  handler of a descriptor operation stands for nothing until \<open>perform_io\<close> has returned.
\<close>

definition enter :: "'o set \<Rightarrow> 'o pc \<Rightarrow> 'o call \<Rightarrow> 'o call" where
  "enter D p k =
     k\<lparr>c_pc := p,
       c_phase := (case p of InHandler m n x \<Rightarrow> if x \<in> D then Pending else Owner | _ \<Rightarrow> Owner)\<rparr>"

definition wake_call :: "'o call \<Rightarrow> 'o call" where
  "wake_call c = (case c_pc c of Waiting m n \<Rightarrow> c\<lparr>c_pc := Woken m n\<rparr> | _ \<Rightarrow> c)"

fun is_waiting :: "'o pc \<Rightarrow> bool" where
  "is_waiting (Waiting m n) = True" | "is_waiting _ = False"

fun is_woken :: "'o pc \<Rightarrow> bool" where
  "is_woken (Woken m n) = True" | "is_woken _ = False"

fun in_handler :: "'o pc \<Rightarrow> bool" where
  "in_handler (InHandler m n x) = True" | "in_handler _ = False"

fun in_task :: "'o pc \<Rightarrow> bool" where
  "in_task (InTask m n t) = True" | "in_task _ = False"

text \<open>What a signal does to the sleeping calls. A signal with no sleeper left is lost.\<close>

inductive deliver :: "cond_signal \<Rightarrow> 'o call list \<Rightarrow> 'o call list \<Rightarrow> bool" where
  deliver_none: "deliver NoSignal cs cs"
| deliver_all: "deliver Broadcast cs (map wake_call cs)"
| deliver_one: "i < length cs \<Longrightarrow> is_waiting (c_pc (cs ! i)) \<Longrightarrow> deliver SignalOne cs (cs[i := wake_call (cs ! i)])"
| deliver_lost: "\<forall>c \<in> set cs. \<not> is_waiting (c_pc c) \<Longrightarrow> deliver SignalOne cs cs"

inductive_cases deliver_noneE: "deliver NoSignal cs cs'"
inductive_cases deliver_oneE: "deliver SignalOne cs cs'"
inductive_cases deliver_allE: "deliver Broadcast cs cs'"

definition set_call :: "nat \<Rightarrow> 'o call \<Rightarrow> 'o config \<Rightarrow> 'o config" where
  "set_call i k c = c\<lparr>calls := (calls c)[i := k]\<rparr>"

fun running :: "'o pc \<Rightarrow> bool" where
  "running (Returned n) = False" | "running _ = True"

text \<open>No running call was made by the handler of this one: it is its thread's top of the call stack.\<close>

definition innermost :: "'o call list \<Rightarrow> nat \<Rightarrow> bool" where
  "innermost cs i \<longleftrightarrow> (\<forall>k \<in> set cs. c_outer k = Some i \<longrightarrow> \<not> running (c_pc k))"

text \<open>A call of user code running in the handler of call \<open>i\<close>.\<close>

definition handling :: "'o call list \<Rightarrow> nat \<Rightarrow> bool" where
  "handling cs i \<longleftrightarrow> i < length cs \<and> in_handler (c_pc (cs ! i)) \<and> c_phase (cs ! i) = Owner \<and> innermost cs i"

definition may_nest :: "'o call list \<Rightarrow> nat option \<Rightarrow> bool" where
  "may_nest cs out \<longleftrightarrow> (case out of None \<Rightarrow> True | Some j \<Rightarrow> handling cs j)"

text \<open>\<open>poll\<close> and \<open>poll_one\<close> of a single-threaded scheduler, entered from a handler.\<close>

definition takes_outer :: "'o sched \<Rightarrow> 'o call \<Rightarrow> bool" where
  "takes_outer s k \<longleftrightarrow>
     one_thread s \<and> c_outer k \<noteq> None \<and> (c_pc k = Locking Poll 0 \<or> c_pc k = Locking PollOne 0)"

inductive step :: "mode set \<Rightarrow> 'o set \<Rightarrow> 'o config \<Rightarrow> 'o config \<Rightarrow> bool" for M D where
  begin_step:
    "i < length (calls c) \<Longrightarrow> c_pc (calls c ! i) = Returned k \<Longrightarrow> m \<in> M \<Longrightarrow> may_nest (calls c) out \<Longrightarrow>
     begin_call (sch c) m = (p, stop) \<Longrightarrow>
     step M D c (c\<lparr>calls := (calls c)[i := idle_call\<lparr>c_pc := p, c_outer := out\<rparr>],
                   pending_stops := pending_stops c + of_bool stop\<rparr>)"
| lock_step:
    "i < length (calls c) \<Longrightarrow> c_pc (calls c ! i) = Locking m n \<Longrightarrow> \<not> takes_outer (sch c) (calls c ! i) \<Longrightarrow>
     next_round (sch c) m n = (s', p, sig) \<Longrightarrow>
     deliver sig ((calls c)[i := enter D p (calls c ! i)]) cs' \<Longrightarrow>
     step M D c (c\<lparr>sch := s', calls := cs'\<rparr>)"
| poll_enter_step:
    "i < length (calls c) \<Longrightarrow> c_pc (calls c ! i) = Locking m 0 \<Longrightarrow> m \<in> M \<Longrightarrow> takes_outer (sch c) (calls c ! i) \<Longrightarrow>
     c_outer (calls c ! i) = Some j \<Longrightarrow> j < length (calls c) \<Longrightarrow> j \<noteq> i \<Longrightarrow>
     poll_take_outer (sch c) (c_info (calls c ! j)) = (s1, outer) \<Longrightarrow>
     next_round s1 m 0 = (s', p, sig) \<Longrightarrow>
     deliver sig ((calls c)[j := (calls c ! j)\<lparr>c_info := outer\<rparr>, i := enter D p (calls c ! i)]) cs' \<Longrightarrow>
     step M D c (c\<lparr>sch := s', calls := cs'\<rparr>)"
| wake_step:
    "i < length (calls c) \<Longrightarrow> c_pc (calls c ! i) = Waiting m n \<Longrightarrow>
     step M D c (c\<lparr>calls := (calls c)[i := (calls c ! i)\<lparr>c_pc := Woken m n\<rparr>]\<rparr>)"
| woken_step:
    "i < length (calls c) \<Longrightarrow> c_pc (calls c ! i) = Woken m n \<Longrightarrow>
     wake_up (sch c) m n = (s', p, sig) \<Longrightarrow>
     deliver sig ((calls c)[i := enter D p (calls c ! i)]) cs' \<Longrightarrow>
     step M D c (c\<lparr>sch := s', calls := cs'\<rparr>)"
| task_emit_step:
    "i < length (calls c) \<Longrightarrow> c_pc (calls c ! i) = InTask m n t \<Longrightarrow> counted D ops \<le> credits c \<Longrightarrow>
     ti = c_info (calls c ! i) \<Longrightarrow>
     step M D c (c\<lparr>calls := (calls c)[i := (calls c ! i)
                    \<lparr>c_info := ti\<lparr>private_op_queue := private_op_queue ti @ ops\<rparr>\<rparr>],
                   credits := credits c - counted D ops\<rparr>)"
| task_done_step:
    "i < length (calls c) \<Longrightarrow> c_pc (calls c ! i) = InTask m n t \<Longrightarrow>
     task_cleanup (sch c) (c_info (calls c ! i)) = (s1, ti) \<Longrightarrow>
     after_task s1 m n = (s', p, sig) \<Longrightarrow>
     deliver sig ((calls c)[i := enter D p ((calls c ! i)\<lparr>c_info := ti\<rparr>)]) cs' \<Longrightarrow>
     step M D c (c\<lparr>sch := s', calls := cs'\<rparr>)"
| adopt_step:
    "i < length (calls c) \<Longrightarrow> in_handler (c_pc (calls c ! i)) \<Longrightarrow> c_phase (calls c ! i) = Pending \<Longrightarrow>
     0 < credits c \<Longrightarrow>
     step M D c (c\<lparr>calls := (calls c)[i := (calls c ! i)\<lparr>c_phase := Owner\<rparr>], credits := credits c - 1\<rparr>)"
| balance_step:
    "i < length (calls c) \<Longrightarrow> in_handler (c_pc (calls c ! i)) \<Longrightarrow> c_phase (calls c ! i) = Pending \<Longrightarrow>
     step M D c (c\<lparr>calls := (calls c)[i := (calls c ! i)
                    \<lparr>c_info := compensating_work_started (c_info (calls c ! i)), c_phase := Balanced\<rparr>]\<rparr>)"
| post_private_step:
    "handling (calls c) i \<Longrightarrow> one_thread (sch c) \<or> is_continuation \<Longrightarrow> op \<notin> D \<Longrightarrow>
     post_immediate_completion op is_continuation (Some (c_info (calls c ! i))) (sch c) = (s', Some ti, sig) \<Longrightarrow>
     deliver sig ((calls c)[i := (calls c ! i)\<lparr>c_info := ti\<rparr>]) cs' \<Longrightarrow>
     step M D c (c\<lparr>sch := s', calls := cs'\<rparr>)"
| post_shared_step:
    "this = None \<or> \<not> one_thread (sch c) \<and> \<not> is_continuation \<Longrightarrow> op \<notin> D \<Longrightarrow>
     post_immediate_completion op is_continuation this (sch c) = (s', this', sig) \<Longrightarrow>
     deliver sig (calls c) cs' \<Longrightarrow>
     step M D c (c\<lparr>sch := s', calls := cs'\<rparr>)"
| dispatch_step:
    "op \<notin> D \<Longrightarrow> do_dispatch op (sch c) = (s', sig) \<Longrightarrow> deliver sig (calls c) cs' \<Longrightarrow>
     step M D c (c\<lparr>sch := s', calls := cs'\<rparr>)"
| deferred_private_step:
    "handling (calls c) i \<Longrightarrow> one_thread (sch c) \<Longrightarrow> counted D ops \<le> credits c \<Longrightarrow>
     post_deferred_completions ops (Some (c_info (calls c ! i))) (sch c) = (s', Some ti, sig) \<Longrightarrow>
     deliver sig ((calls c)[i := (calls c ! i)\<lparr>c_info := ti\<rparr>]) cs' \<Longrightarrow>
     step M D c (c\<lparr>sch := s', calls := cs', credits := credits c - counted D ops\<rparr>)"
| deferred_shared_step:
    "this = None \<or> \<not> one_thread (sch c) \<Longrightarrow> counted D ops \<le> credits c \<Longrightarrow>
     post_deferred_completions ops this (sch c) = (s', this', sig) \<Longrightarrow>
     deliver sig (calls c) cs' \<Longrightarrow>
     step M D c (c\<lparr>sch := s', calls := cs', credits := credits c - counted D ops\<rparr>)"
| work_started_step:
    "step M D c (c\<lparr>sch := work_started (sch c), credits := Suc (credits c)\<rparr>)"
| work_finished_step:
    "0 < credits c \<Longrightarrow> work_finished (sch c) = (s', stop) \<Longrightarrow>
     step M D c (c\<lparr>sch := s', credits := credits c - 1, pending_stops := pending_stops c + of_bool stop\<rparr>)"
| stop_step:
    "sched_stop (sch c) = (s', sig) \<Longrightarrow> deliver sig (calls c) cs' \<Longrightarrow>
     step M D c (c\<lparr>sch := s', calls := cs', pending_stops := pending_stops c - 1\<rparr>)"
| restart_step:
    "step M D c (c\<lparr>sch := restart (sch c)\<rparr>)"
| handler_done_step:
    "i < length (calls c) \<Longrightarrow> c_pc (calls c ! i) = InHandler m n x \<Longrightarrow> c_phase (calls c ! i) \<noteq> Pending \<Longrightarrow>
     innermost (calls c) i \<Longrightarrow>
     work_cleanup_count (sch c) (c_info (calls c ! i)) = (s', ti, stop) \<Longrightarrow>
     step M D c (c\<lparr>sch := s',
                   calls := (calls c)[i := (calls c ! i)
                     \<lparr>c_pc := if private_op_queue ti \<noteq> [] then Flushing m n else after_handler m n, c_info := ti\<rparr>],
                   pending_stops := pending_stops c + of_bool stop\<rparr>)"
| flush_step:
    "i < length (calls c) \<Longrightarrow> c_pc (calls c ! i) = Flushing m n \<Longrightarrow>
     work_cleanup_queue (sch c) (c_info (calls c ! i)) = (s', ti) \<Longrightarrow>
     step M D c (c\<lparr>sch := s', calls := (calls c)[i := (calls c ! i)\<lparr>c_pc := after_handler m n, c_info := ti\<rparr>]\<rparr>)"
| init_task_step:
    "init_task (sch c) = (s', sig) \<Longrightarrow> deliver sig (calls c) cs' \<Longrightarrow>
     step M D c (c\<lparr>sch := s', calls := cs'\<rparr>)"

inductive reachable :: "mode set \<Rightarrow> 'o set \<Rightarrow> 'o config \<Rightarrow> 'o config \<Rightarrow> bool" for M D where
  reach_start: "reachable M D c c"
| reach_step: "reachable M D a b \<Longrightarrow> step M D b c \<Longrightarrow> reachable M D a c"

section \<open>Counting over the calls\<close>

definition csum :: "('o call \<Rightarrow> int) \<Rightarrow> 'o call list \<Rightarrow> int" where
  "csum f cs = sum_list (map f cs)"

lemma csum_upd:
  "i < length cs \<Longrightarrow> csum f (cs[i := k]) = csum f cs - f (cs ! i) + f k"
proof (induction cs arbitrary: i)
  case Nil
  then show ?case by simp
next
  case (Cons c cs)
  then show ?case
    by (cases i) (auto simp: csum_def)
qed

lemma csum_map: "(\<And>c. f (g c) = f c) \<Longrightarrow> csum f (map g cs) = csum f cs"
  by (simp add: csum_def o_def)

lemma csum_replicate: "f k = 0 \<Longrightarrow> csum f (replicate n k) = 0"
  by (simp add: csum_def sum_list_replicate)

lemma csum_nonneg: "(\<And>c. c \<in> set cs \<Longrightarrow> 0 \<le> f c) \<Longrightarrow> 0 \<le> csum f cs"
  unfolding csum_def by (rule sum_list_nonneg) auto

lemma csum_zero_iff:
  "(\<And>c. c \<in> set cs \<Longrightarrow> 0 \<le> f c) \<Longrightarrow> csum f cs = 0 \<longleftrightarrow> (\<forall>c \<in> set cs. f c = 0)"
proof (induction cs)
  case Nil
  then show ?case by (simp add: csum_def)
next
  case (Cons c cs)
  then have "0 \<le> f c" "0 \<le> csum f cs"
    using csum_nonneg [of cs f] by auto
  moreover have "csum f (c # cs) = f c + csum f cs"
    by (simp add: csum_def)
  ultimately show ?case
    using Cons by (simp add: add_nonneg_eq_0_iff)
qed

lemma deliver_csum:
  "deliver sig cs cs' \<Longrightarrow> (\<And>c. f (wake_call c) = f c) \<Longrightarrow> csum f cs' = csum f cs"
  by (induction rule: deliver.induct) (simp_all add: csum_upd csum_map)

lemma deliver_length: "deliver sig cs cs' \<Longrightarrow> length cs' = length cs"
  by (induction rule: deliver.induct) simp_all

text \<open>What a delivered call has in common with the call before.\<close>

lemma wake_call_fields [simp]:
  "c_info (wake_call c) = c_info c" "c_phase (wake_call c) = c_phase c" "c_outer (wake_call c) = c_outer c"
  "in_handler (c_pc (wake_call c)) = in_handler (c_pc c)"
  "in_task (c_pc (wake_call c)) = in_task (c_pc c)"
  "is_waiting (c_pc (wake_call c)) = False"
  "is_woken (c_pc (wake_call c)) = (is_waiting (c_pc c) \<or> is_woken (c_pc c))"
  by (cases "c_pc c"; simp add: wake_call_def)+

lemma wake_call_other: "\<not> is_waiting (c_pc k) \<Longrightarrow> wake_call k = k"
  by (cases "c_pc k") (simp_all add: wake_call_def)

lemma deliver_set:
  "deliver sig cs cs' \<Longrightarrow> k \<in> set cs' \<Longrightarrow> k \<in> set cs \<or> (\<exists>c \<in> set cs. k = wake_call c)"
  by (induction rule: deliver.induct) (auto dest!: subsetD [OF set_update_subset_insert])

lemma enter_fields [simp]:
  "c_pc (enter D p k) = p" "c_info (enter D p k) = c_info k" "c_outer (enter D p k) = c_outer k"
  "\<not> in_handler p \<Longrightarrow> c_phase (enter D p k) = Owner"
  "c_phase (enter D p k) \<noteq> Balanced"
  by (auto simp: enter_def split: pc.splits)

lemma handlingD:
  "handling cs i \<Longrightarrow> i < length cs \<and> in_handler (c_pc (cs ! i)) \<and> c_phase (cs ! i) = Owner \<and> innermost cs i"
  by (simp add: handling_def)

lemma counted_simps [simp]:
  "counted D [] = 0" "counted D (xs @ ys) = counted D xs + counted D ys"
  "counted D (x # xs) = of_bool (x \<notin> D) + counted D xs"
  by (simp_all add: counted_def)

end
