(* ===== verification/SchedulerInv.thy ===== *)
theory SchedulerInv
  imports SchedulerSteps
begin

text \<open>
  The invariants of the scheduler's steps: the task is in exactly one place, the work count equals
  the work there is, and the event's waiter count is the number of sleeping calls.
\<close>

definition ops_of :: "'o item list \<Rightarrow> 'o list" where
  "ops_of q = concat (map (\<lambda>i. case i of TaskOp \<Rightarrow> [] | Op x \<Rightarrow> [x]) q)"

lemma ops_of_simps [simp]:
  "ops_of [] = []" "ops_of (TaskOp # q) = ops_of q" "ops_of (Op x # q) = x # ops_of q"
  "ops_of (q @ r) = ops_of q @ ops_of r" "ops_of (map Op xs) = xs"
  by (induction xs) (simp_all add: ops_of_def)

definition op_count :: "'o set \<Rightarrow> 'o item list \<Rightarrow> int" where
  "op_count D q = int (counted D (ops_of q))"

definition task_count :: "'o item list \<Rightarrow> int" where
  "task_count q = int (length (filter (\<lambda>i. i = TaskOp) q))"

lemma op_count_simps [simp]:
  "op_count D [] = 0" "op_count D (TaskOp # q) = op_count D q"
  "op_count D (Op x # q) = op_count D q + of_bool (x \<notin> D)"
  "op_count D (q @ r) = op_count D q + op_count D r" "op_count D (map Op xs) = int (counted D xs)"
  by (simp_all add: op_count_def)

lemma task_count_simps [simp]:
  "task_count [] = 0" "task_count (TaskOp # q) = task_count q + 1" "task_count (Op x # q) = task_count q"
  "task_count (q @ r) = task_count q + task_count r" "task_count (map Op xs) = 0"
  by (simp_all add: task_count_def)

lemma task_count_nonneg: "0 \<le> task_count q"
  by (simp add: task_count_def)

lemma task_count_zero: "task_count q = 0 \<longleftrightarrow> TaskOp \<notin> set q"
  by (auto simp: task_count_def filter_empty_conv)

section \<open>The accounting of a section under the mutex\<close>

text \<open>Two scheduler states with the same settings and work.\<close>

definition same_frame :: "'o sched \<Rightarrow> 'o sched \<Rightarrow> bool" where
  "same_frame s s' \<longleftrightarrow> one_thread s' = one_thread s \<and> mutex_enabled s' = mutex_enabled s \<and>
     task_set s' = task_set s \<and> shut_down_flag s' = shut_down_flag s \<and>
     outstanding_work s' = outstanding_work s"

text \<open>
  A section that takes the call to \<open>p\<close>: what leaves the queue is in the call, and the event counts
  the call if it goes to sleep.
\<close>

fun handled :: "'o set \<Rightarrow> 'o pc \<Rightarrow> int" where
  "handled D (InHandler m n x) = of_bool (x \<notin> D)"
| "handled D _ = 0"

definition round_ok :: "'o sched \<Rightarrow> 'o sched \<Rightarrow> 'o pc \<Rightarrow> bool" where
  "round_ok s s' p \<longleftrightarrow> same_frame s s' \<and> stopped s' = stopped s \<and>
     (\<forall>D. op_count D (ready_queue s) = op_count D (ready_queue s') + handled D p) \<and>
     task_count (ready_queue s) = task_count (ready_queue s') + of_bool (in_task p) \<and>
     (mutex_enabled s \<longrightarrow> ev_waiters (wakeup_event s') = ev_waiters (wakeup_event s) + of_bool (is_waiting p)) \<and>
     \<not> is_woken p"

lemma round_okD:
  assumes "round_ok s s' p"
  shows "mutex_enabled s' = mutex_enabled s" "one_thread s' = one_thread s" "task_set s' = task_set s"
    "outstanding_work s' = outstanding_work s" "stopped s' = stopped s"
    "op_count D (ready_queue s) = op_count D (ready_queue s') + handled D p"
    "task_count (ready_queue s) = task_count (ready_queue s') + of_bool (in_task p)"
    "mutex_enabled s \<Longrightarrow> ev_waiters (wakeup_event s') = ev_waiters (wakeup_event s) + of_bool (is_waiting p)"
    "\<not> is_woken p"
  using assms by (simp_all add: round_ok_def same_frame_def)

lemma cev_maybe_cases:
  "cev_maybe_unlock_and_signal_one en e = (e', c, b) \<Longrightarrow>
     ev_waiters e' = ev_waiters e \<and> (en \<longrightarrow> ev_signalled e' \<and> (b \<longleftrightarrow> 0 < ev_waiters e)) \<and>
     (b \<longrightarrow> c = SignalOne) \<and> (\<not> b \<longrightarrow> c = NoSignal)"
  by (auto simp: cev_maybe_unlock_and_signal_one_def ev_maybe_unlock_and_signal_one_def Let_def
      ev_set_gt split: if_splits)

lemma cev_unlock_cases:
  "cev_unlock_and_signal_one en e = (e', c) \<Longrightarrow>
     ev_waiters e' = ev_waiters e \<and> (en \<longrightarrow> ev_signalled e' \<and> (0 < ev_waiters e \<longrightarrow> c = SignalOne)) \<and>
     (c = NoSignal \<or> c = SignalOne)"
  by (auto simp: cev_unlock_and_signal_one_def ev_unlock_and_signal_one_def Let_def
      ev_set_gt split: if_splits)

lemma interrupt_task_frame [simp]:
  "ready_queue (interrupt_task s) = ready_queue s" "wakeup_event (interrupt_task s) = wakeup_event s"
  "stopped (interrupt_task s) = stopped s" "same_frame t (interrupt_task s) = same_frame t s"
  "mutex_enabled (interrupt_task s) = mutex_enabled s" "one_thread (interrupt_task s) = one_thread s"
  "task_set (interrupt_task s) = task_set s" "outstanding_work (interrupt_task s) = outstanding_work s"
  "shut_down_flag (interrupt_task s) = shut_down_flag s"
  by (auto simp: interrupt_task_def same_frame_def)

text \<open>What waking a thread guarantees: the event is signalled and a sleeper signalled, or the task
  interrupted.\<close>

lemma wake_one_cases:
  assumes "wake_one_thread_and_unlock s = (s', c)"
  shows "same_frame s s' \<and> stopped s' = stopped s \<and> ready_queue s' = ready_queue s \<and>
     ev_waiters (wakeup_event s') = ev_waiters (wakeup_event s) \<and> c \<noteq> Broadcast \<and>
     (mutex_enabled s \<longrightarrow> ev_signalled (wakeup_event s') \<and>
        (if 0 < ev_waiters (wakeup_event s) then c = SignalOne \<and> task_interrupted s' = task_interrupted s
         else task_interrupted s' \<or> \<not> task_set s))"
proof -
  obtain e k b where m: "cev_maybe_unlock_and_signal_one (mutex_enabled s) (wakeup_event s) = (e, k, b)"
    by (metis prod_cases3)
  note f = cev_maybe_cases [OF m]
  have "s' = (if b then s\<lparr>wakeup_event := e\<rparr> else interrupt_task (s\<lparr>wakeup_event := e\<rparr>))" "c = k"
    using assms m by (auto simp: wake_one_thread_and_unlock_def Let_def)
  with f show ?thesis
    by (auto simp: same_frame_def interrupt_task_def)
qed

lemma start_handler_ok:
  assumes "start_handler s m n x q = (s', p, c)" and "ready_queue s = Op x # q"
  shows "round_ok s s' p"
proof -
  obtain s1 k where w: "wake_if_more (s\<lparr>ready_queue := q\<rparr>) = (s1, k)"
    by (cases "wake_if_more (s\<lparr>ready_queue := q\<rparr>)")
  have "same_frame s s1 \<and> stopped s1 = stopped s \<and> ready_queue s1 = q \<and>
      ev_waiters (wakeup_event s1) = ev_waiters (wakeup_event s)"
    using w wake_one_cases [of "s\<lparr>ready_queue := q\<rparr>"]
    by (auto simp: wake_if_more_def same_frame_def split: if_splits)
  moreover have "s' = s1" "p = InHandler m n x"
    using assms(1) w by (auto simp: start_handler_def)
  ultimately show ?thesis
    using assms(2) by (simp add: round_ok_def)
qed

lemma start_task_ok:
  assumes "start_task s m n t q = (s', p, c)" and "ready_queue s = TaskOp # q"
  shows "round_ok s s' p"
proof -
  obtain e k where u: "cev_unlock_and_signal_one (mutex_enabled s) (wakeup_event s) = (e, k)"
    by (cases "cev_unlock_and_signal_one (mutex_enabled s) (wakeup_event s)")
  have "same_frame s s' \<and> stopped s' = stopped s \<and> ready_queue s' = q \<and> in_task p \<and>
      ev_waiters (wakeup_event s') = ev_waiters (wakeup_event s)"
    using assms(1) u cev_unlock_cases [OF u]
    by (auto simp: start_task_def same_frame_def Let_def split: if_splits)
  with assms(2) show ?thesis
    by (cases p) (auto simp: round_ok_def)
qed

lemma go_to_sleep_ok:
  "go_to_sleep s m n = (s', p, c) \<Longrightarrow> round_ok s s' p"
  by (auto simp: go_to_sleep_def round_ok_def same_frame_def split: if_splits)

lemma return_ok: "round_ok s s (Returned n)"
  by (simp add: round_ok_def same_frame_def)

lemma signal_return_ok:
  "cev_maybe_unlock_and_signal_one (mutex_enabled s) (wakeup_event s) = (e, c, b) \<Longrightarrow>
     round_ok s (s\<lparr>wakeup_event := e\<rparr>) (Returned n)"
  by (auto simp: round_ok_def same_frame_def dest: cev_maybe_cases)

lemma run_round_ok: "run_round s m n = (s', p, c) \<Longrightarrow> round_ok s s' p"
  by (auto simp: run_round_def intro: return_ok go_to_sleep_ok start_task_ok start_handler_ok
      split: if_splits list.splits item.splits)

lemma poll_after_task_ok: "poll_after_task s m n = (s', p, c) \<Longrightarrow> round_ok s s' p"
  by (auto simp: poll_after_task_def intro: return_ok start_handler_ok signal_return_ok
      split: list.splits item.splits prod.splits)

lemma poll_round_ok: "poll_round s m n = (s', p, c) \<Longrightarrow> round_ok s s' p"
  by (auto simp: poll_round_def intro: return_ok start_handler_ok
      split: if_splits list.splits item.splits) (simp add: round_ok_def same_frame_def)

lemma wait_after_task_ok: "wait_after_task s m n = (s', p, c) \<Longrightarrow> round_ok s s' p"
  by (auto simp: wait_after_task_def intro: return_ok start_handler_ok signal_return_ok
      split: if_splits list.splits item.splits prod.splits)

lemma wait_take_ok: "wait_take s m n t = (s', p, c) \<Longrightarrow> round_ok s s' p"
  by (auto simp: wait_take_def intro: return_ok start_handler_ok start_task_ok
      split: list.splits item.splits)

lemma wait_round_ok: "wait_round s m n t = (s', p, c) \<Longrightarrow> round_ok s s' p"
  by (auto simp: wait_round_def intro: return_ok go_to_sleep_ok wait_take_ok split: if_splits)

lemma next_round_ok: "next_round s m n = (s', p, c) \<Longrightarrow> round_ok s s' p"
  by (cases m) (auto simp: next_round_def intro: run_round_ok poll_round_ok wait_round_ok)

lemma after_task_ok: "after_task s m n = (s', p, c) \<Longrightarrow> round_ok s s' p"
  by (cases m) (auto simp: after_task_def intro: run_round_ok poll_after_task_ok wait_after_task_ok)

text \<open>Waking up takes the call out of the event's count, and going back to sleep puts it in again.\<close>

definition awake :: "'o sched \<Rightarrow> 'o sched" where
  "awake s = (if mutex_enabled s then s\<lparr>wakeup_event := ev_awake (wakeup_event s)\<rparr> else s)"

lemma wake_up_cases:
  assumes "wake_up s m n = (s', p, c)"
  shows "(\<exists>usec. m = WaitOne usec \<and> wait_take (awake s) m n 0 = (s', p, c)) \<or>
     (\<not> ev_signalled (wakeup_event (awake s)) \<and> p = Waiting m n \<and> c = NoSignal \<and>
      s' = (if mutex_enabled s then (awake s)\<lparr>wakeup_event := wakeup_event (awake s) + 2\<rparr> else awake s)) \<or>
     (ev_signalled (wakeup_event (awake s)) \<and> run_round (awake s) m n = (s', p, c))"
  using assms unfolding wake_up_def awake_def [symmetric] Let_def
  by (cases m) (auto simp: ev_wait_eq awake_def split: if_splits)

lemma wake_up_ok:
  assumes "wake_up s m n = (s', p, c)"
  shows "round_ok (awake s) s' p"
  using wake_up_cases [OF assms]
  by (auto intro: wait_take_ok run_round_ok) (auto simp: round_ok_def same_frame_def awake_def)

section \<open>The invariant\<close>

text \<open>
  What a call stands for in the work count: the operation it handles, and its private operations,
  less what its own count of private work will add.
\<close>

definition load :: "'o set \<Rightarrow> 'o call \<Rightarrow> int" where
  "load D k = of_bool (in_handler (c_pc k) \<and> c_phase k \<noteq> Pending) +
     int (counted D (private_op_queue (c_info k))) - private_outstanding_work (c_info k)"

definition has_task :: "'o call \<Rightarrow> int" where
  "has_task k = of_bool (in_task (c_pc k))"

definition sleeps :: "'o call \<Rightarrow> int" where
  "sleeps k = (if is_waiting (c_pc k) \<or> is_woken (c_pc k) then 1 else 0)"

fun may_hold_ops :: "'o pc \<Rightarrow> bool" where
  "may_hold_ops (InTask m n t) = True"
| "may_hold_ops (InHandler m n x) = True"
| "may_hold_ops (Flushing m n) = True"
| "may_hold_ops _ = False"

text \<open>
  The private work of a running handler belongs to its private operations or balances its decrement.
  A nested \<open>poll\<close> takes the operations and leaves the work, so this holds only where none can:
  \<open>may_splice\<close> says where one can.
\<close>

definition may_splice :: "mode set \<Rightarrow> 'o sched \<Rightarrow> bool" where
  "may_splice M s \<longleftrightarrow> one_thread s \<and> M \<inter> {Poll, PollOne} \<noteq> {}"

definition backed :: "'o set \<Rightarrow> 'o call \<Rightarrow> bool" where
  "backed D k \<longleftrightarrow> (in_handler (c_pc k) \<longrightarrow>
     (case c_phase k of
        Owner \<Rightarrow> private_outstanding_work (c_info k) \<le> int (counted D (private_op_queue (c_info k)))
      | Pending \<Rightarrow> private_outstanding_work (c_info k) = 0
      | Balanced \<Rightarrow> private_outstanding_work (c_info k) = 1))"

definition call_ok :: "bool \<Rightarrow> 'o set \<Rightarrow> 'o call \<Rightarrow> bool" where
  "call_ok b D k \<longleftrightarrow>
     0 \<le> private_outstanding_work (c_info k) \<and>
     (\<not> in_handler (c_pc k) \<longrightarrow> private_outstanding_work (c_info k) = 0) \<and>
     (\<not> may_hold_ops (c_pc k) \<longrightarrow> private_op_queue (c_info k) = []) \<and>
     (b \<or> backed D k)"

definition sched_inv :: "mode set \<Rightarrow> 'o set \<Rightarrow> 'o config \<Rightarrow> bool" where
  "sched_inv M D c \<longleftrightarrow>
     task_count (ready_queue (sch c)) + csum has_task (calls c) = of_bool (task_set (sch c)) \<and>
     outstanding_work (sch c) = int (credits c) + op_count D (ready_queue (sch c)) + csum (load D) (calls c) \<and>
     (mutex_enabled (sch c) \<longrightarrow> int (ev_waiters (wakeup_event (sch c))) = csum sleeps (calls c)) \<and>
     (\<forall>k \<in> set (calls c). call_ok (may_splice M (sch c)) D k)"

lemma csum_sleeps_zero: "csum sleeps cs = 0 \<longleftrightarrow> (\<forall>k \<in> set cs. \<not> is_waiting (c_pc k) \<and> \<not> is_woken (c_pc k))"
  using csum_zero_iff [of cs sleeps] by (simp add: sleeps_def)

lemma wake_measures [simp]:
  "load D (wake_call k) = load D k" "has_task (wake_call k) = has_task k" "sleeps (wake_call k) = sleeps k"
  by (simp_all add: load_def has_task_def sleeps_def)

lemma wake_may_hold: "may_hold_ops (c_pc (wake_call k)) = may_hold_ops (c_pc k)"
  by (cases "c_pc k") (simp_all add: wake_call_def)

lemma wake_call_ok [simp]: "call_ok b D (wake_call k) = call_ok b D k"
  by (simp add: call_ok_def wake_may_hold backed_def split: phase.split)

lemma deliver_call_ok:
  assumes "deliver sig cs cs'" and "\<forall>k \<in> set cs. call_ok b D k"
  shows "\<forall>k \<in> set cs'. call_ok b D k"
proof
  fix k assume "k \<in> set cs'"
  from deliver_set [OF assms(1) this] show "call_ok b D k"
    using assms(2) by auto
qed

lemma sched_inv_initial: "sched_inv M D (initial hint k)"
  by (auto simp: sched_inv_def initial_def sched_new_def csum_replicate idle_call_def info_new_def
      load_def has_task_def sleeps_def call_ok_def backed_def)

lemma load_enter:
  "load D (enter D p k) = handled D p + int (counted D (private_op_queue (c_info k))) -
     private_outstanding_work (c_info k)"
  by (cases p) (simp_all add: load_def enter_def)

lemma handling_pcs: "in_handler p \<Longrightarrow> may_hold_ops p \<and> \<not> in_task p \<and> \<not> is_waiting p \<and> \<not> is_woken p"
  "in_task p \<Longrightarrow> may_hold_ops p \<and> \<not> in_handler p \<and> \<not> is_waiting p \<and> \<not> is_woken p"
  by (cases p; simp)+

lemma call_ok_enter:
  "private_outstanding_work (c_info k) = 0 \<Longrightarrow> private_op_queue (c_info k) = [] \<Longrightarrow> call_ok b D (enter D p k)"
  by (cases p) (auto simp: call_ok_def backed_def enter_def)

text \<open>A step of one call, or of none, keeps the invariant when the balances agree.\<close>

lemma sched_inv_update:
  assumes inv: "sched_inv M D c" and i: "i < length (calls c)" and dl: "deliver sig ((calls c)[i := k]) cs'"
    and ok: "call_ok (may_splice M (sch c)) D k"
    and t: "task_count (ready_queue s') + has_task k - of_bool (task_set s') =
      task_count (ready_queue (sch c)) + has_task (calls c ! i) - of_bool (task_set (sch c))"
    and w: "outstanding_work s' - int cr - op_count D (ready_queue s') - load D k =
      outstanding_work (sch c) - int (credits c) - op_count D (ready_queue (sch c)) - load D (calls c ! i)"
    and m: "mutex_enabled s' = mutex_enabled (sch c)" "one_thread s' = one_thread (sch c)"
    and e: "mutex_enabled (sch c) \<Longrightarrow> int (ev_waiters (wakeup_event s')) - sleeps k =
      int (ev_waiters (wakeup_event (sch c))) - sleeps (calls c ! i)"
  shows "sched_inv M D (c\<lparr>sch := s', calls := cs', credits := cr, pending_stops := ps\<rparr>)"
proof -
  have "\<forall>k' \<in> set ((calls c)[i := k]). call_ok (may_splice M s') D k'"
    using inv ok m(2) by (auto simp: sched_inv_def may_splice_def dest!: subsetD [OF set_update_subset_insert])
  moreover have "csum (load D) cs' = csum (load D) (calls c) - load D (calls c ! i) + load D k"
    "csum has_task cs' = csum has_task (calls c) - has_task (calls c ! i) + has_task k"
    "csum sleeps cs' = csum sleeps (calls c) - sleeps (calls c ! i) + sleeps k"
    using deliver_csum [OF dl] csum_upd [OF i] by simp_all
  ultimately show ?thesis
    using inv t w m e deliver_call_ok [OF dl] by (auto simp: sched_inv_def)
qed

lemma sched_inv_shared:
  assumes inv: "sched_inv M D c" and dl: "deliver sig (calls c) cs'"
    and t: "task_count (ready_queue s') - of_bool (task_set s') =
      task_count (ready_queue (sch c)) - of_bool (task_set (sch c))"
    and w: "outstanding_work s' - int cr - op_count D (ready_queue s') =
      outstanding_work (sch c) - int (credits c) - op_count D (ready_queue (sch c))"
    and m: "mutex_enabled s' = mutex_enabled (sch c)" "one_thread s' = one_thread (sch c)"
    and e: "ev_waiters (wakeup_event s') = ev_waiters (wakeup_event (sch c))"
  shows "sched_inv M D (c\<lparr>sch := s', calls := cs', credits := cr, pending_stops := ps\<rparr>)"
proof -
  have "csum (load D) cs' = csum (load D) (calls c)" "csum has_task cs' = csum has_task (calls c)"
    "csum sleeps cs' = csum sleeps (calls c)"
    using deliver_csum [OF dl] by simp_all
  then show ?thesis
    using inv t w m e deliver_call_ok [OF dl] by (simp add: sched_inv_def may_splice_def)
qed

lemma sched_inv_call_ok:
  "sched_inv M D c \<Longrightarrow> i < length (calls c) \<Longrightarrow> call_ok (may_splice M (sch c)) D (calls c ! i)"
  by (simp add: sched_inv_def)

lemma sched_inv_waiter:
  assumes "sched_inv M D c" and "k \<in> set (calls c)" and "is_waiting (c_pc k) \<or> is_woken (c_pc k)"
    and "mutex_enabled (sch c)"
  shows "0 < ev_waiters (wakeup_event (sch c))"
proof -
  have "csum sleeps (calls c) \<noteq> 0"
    using assms(2,3) csum_zero_iff [of "calls c" sleeps] by (auto simp: sleeps_def)
  with assms show ?thesis
    by (auto simp: sched_inv_def)
qed

text \<open>A section with the mutex held, by a call that has no private operations.\<close>

lemma sched_inv_round:
  assumes inv: "sched_inv M D c" and i: "i < length (calls c)" and r: "round_ok s1 s' p"
    and s1: "ready_queue s1 = ready_queue (sch c)" "task_set s1 = task_set (sch c)"
      "outstanding_work s1 = outstanding_work (sch c)" "mutex_enabled s1 = mutex_enabled (sch c)"
      "one_thread s1 = one_thread (sch c)"
    and p0: "\<not> may_hold_ops (c_pc (calls c ! i))"
    and e: "mutex_enabled (sch c) \<Longrightarrow> int (ev_waiters (wakeup_event s1)) =
      int (ev_waiters (wakeup_event (sch c))) - sleeps (calls c ! i)"
    and dl: "deliver sig ((calls c)[i := enter D p (calls c ! i)]) cs'"
  shows "sched_inv M D (c\<lparr>sch := s', calls := cs'\<rparr>)"
proof -
  have ok: "call_ok (may_splice M (sch c)) D (calls c ! i)"
    using inv i by (rule sched_inv_call_ok)
  have h: "\<not> in_handler (c_pc (calls c ! i))" "\<not> in_task (c_pc (calls c ! i))"
    using p0 by (cases "c_pc (calls c ! i)"; simp)+
  have z: "private_outstanding_work (c_info (calls c ! i)) = 0" "private_op_queue (c_info (calls c ! i)) = []"
    using ok h p0 by (simp_all add: call_ok_def)
  note f = round_okD [OF r]
  have l: "load D (enter D p (calls c ! i)) = handled D p" "load D (calls c ! i) = 0"
    using z h by (simp add: load_enter, simp add: load_def)
  have "sched_inv M D (c\<lparr>sch := s', calls := cs', credits := credits c, pending_stops := pending_stops c\<rparr>)"
    by (rule sched_inv_update [OF inv i dl call_ok_enter [OF z]])
      (use h f(1-4,7-9) f(6) [of D] l s1 e in \<open>simp_all add: has_task_def sleeps_def\<close>)
  then show ?thesis
    by simp
qed

text \<open>The private operations of the enclosing call move to the queue.\<close>

lemma sched_inv_take_outer:
  assumes inv: "sched_inv M D c" and j: "j < length (calls c)" and b: "may_splice M (sch c)"
    and t: "poll_take_outer (sch c) (c_info (calls c ! j)) = (s1, outer)"
  shows "sched_inv M D (c\<lparr>sch := s1, calls := (calls c)[j := (calls c ! j)\<lparr>c_info := outer\<rparr>]\<rparr>)"
proof -
  have "sched_inv M D (c\<lparr>sch := s1, calls := (calls c)[j := (calls c ! j)\<lparr>c_info := outer\<rparr>],
      credits := credits c, pending_stops := pending_stops c\<rparr>)"
    by (rule sched_inv_update [OF inv j deliver_none])
      (use sched_inv_call_ok [OF inv j] t b in
        \<open>auto simp: poll_take_outer_def call_ok_def load_def has_task_def sleeps_def split: if_splits\<close>)
  then show ?thesis
    by simp
qed

section \<open>Every step keeps it\<close>

lemma work_cleanup_balance:
  assumes "work_cleanup_count s ti = (s', ti', stop)" and "0 \<le> private_outstanding_work ti"
  shows "same_frame (s\<lparr>outstanding_work := outstanding_work s + private_outstanding_work ti - 1\<rparr>) s' \<and>
    stopped s' = stopped s \<and> ready_queue s' = ready_queue s \<and> wakeup_event s' = wakeup_event s \<and>
    task_interrupted s' = task_interrupted s \<and>
    ti' = ti\<lparr>private_outstanding_work := 0\<rparr> \<and> (stop \<longrightarrow> outstanding_work s' = 0)"
  using assms by (auto simp: work_cleanup_count_def work_finished_def same_frame_def Let_def split: if_splits)

lemma after_handler_pcs: "\<not> may_hold_ops (after_handler m n)" "\<not> in_handler (after_handler m n)"
    "\<not> in_task (after_handler m n)" "\<not> is_waiting (after_handler m n)" "\<not> is_woken (after_handler m n)"
  by (simp_all add: after_handler_def)

lemma sched_inv_post:
  assumes inv: "sched_inv M D c" and dl: "deliver sig (calls c) cs'"
    and w: "wake_one_thread_and_unlock s1 = (s', sig)"
    and q: "ready_queue s1 = ready_queue (sch c) @ map Op ops"
    and o: "outstanding_work s1 = outstanding_work (sch c) + int k"
    and k: "counted D ops + cr = k + credits c"
    and f: "task_set s1 = task_set (sch c)" "mutex_enabled s1 = mutex_enabled (sch c)"
      "wakeup_event s1 = wakeup_event (sch c)" "one_thread s1 = one_thread (sch c)"
  shows "sched_inv M D (c\<lparr>sch := s', calls := cs', credits := cr\<rparr>)"
proof -
  have "sched_inv M D (c\<lparr>sch := s', calls := cs', credits := cr, pending_stops := pending_stops c\<rparr>)"
    by (rule sched_inv_shared [OF inv dl]) (use wake_one_cases [OF w] q o k f in \<open>auto simp: same_frame_def\<close>)
  then show ?thesis
    by simp
qed

lemma sched_inv_enter_poll:
  assumes inv: "sched_inv M D c" and i: "i < length (calls c)" and pc: "c_pc (calls c ! i) = Locking m 0"
    and m: "m \<in> M" and tk: "takes_outer (sch c) (calls c ! i)" and j: "j < length (calls c)" "j \<noteq> i"
    and po: "poll_take_outer (sch c) (c_info (calls c ! j)) = (s1, outer)"
    and nr: "next_round s1 m 0 = (s', p, sig)"
    and dl: "deliver sig ((calls c)[j := (calls c ! j)\<lparr>c_info := outer\<rparr>, i := enter D p (calls c ! i)]) cs'"
  shows "sched_inv M D (c\<lparr>sch := s', calls := cs'\<rparr>)"
proof -
  let ?c1 = "c\<lparr>sch := s1, calls := (calls c)[j := (calls c ! j)\<lparr>c_info := outer\<rparr>]\<rparr>"
  have b: "may_splice M (sch c)"
    using tk pc m by (auto simp: takes_outer_def may_splice_def)
  have nth: "calls ?c1 ! i = calls c ! i"
    using j(2) by simp
  have "sched_inv M D (?c1\<lparr>sch := s', calls := cs'\<rparr>)"
    by (rule sched_inv_round [OF sched_inv_take_outer [OF inv j(1) b po] _ next_round_ok [OF nr], of i])
      (use i j dl pc in \<open>simp_all add: sleeps_def\<close>)
  then show ?thesis
    by simp
qed

lemma sched_inv_step: "step M D c c' \<Longrightarrow> sched_inv M D c \<Longrightarrow> sched_inv M D c'"
proof (induction rule: step.induct)
  case (begin_step i c k m out p stop)
  have p: "p = Returned 0 \<or> p = Locking m 0"
    using begin_step(5) by (auto simp: begin_call_def split: if_splits)
  have "sched_inv M D (c\<lparr>sch := sch c, calls := (calls c)[i := idle_call\<lparr>c_pc := p, c_outer := out\<rparr>], credits := credits c,
      pending_stops := pending_stops c + of_bool stop\<rparr>)"
    by (rule sched_inv_update [OF begin_step(6,1) deliver_none])
      (use sched_inv_call_ok [OF begin_step(6,1)] p begin_step(2) in
        \<open>auto simp: call_ok_def backed_def idle_call_def info_new_def load_def has_task_def sleeps_def\<close>)
  then show ?case by simp
next
  case (lock_step i c m n s' p sig cs')
  show ?case
    by (rule sched_inv_round [OF lock_step(6,1) next_round_ok [OF lock_step(4)] _ _ _ _ _ _ _ lock_step(5)])
      (simp_all add: lock_step(2) sleeps_def)
next
  case (poll_enter_step i c m j s1 outer s' p sig cs')
  show ?case
    by (rule sched_inv_enter_poll [OF poll_enter_step(11,1-4,6-10)])
next
  case (wake_step i c m n)
  have "sched_inv M D (c\<lparr>sch := sch c, calls := (calls c)[i := (calls c ! i)\<lparr>c_pc := Woken m n\<rparr>], credits := credits c,
      pending_stops := pending_stops c\<rparr>)"
    by (rule sched_inv_update [OF wake_step(3,1) deliver_none])
      (use sched_inv_call_ok [OF wake_step(3,1)] wake_step(2) in
        \<open>auto simp: call_ok_def backed_def load_def has_task_def sleeps_def\<close>)
  then show ?case by simp
next
  case (woken_step i c m n s' p sig cs')
  have "0 < ev_waiters (wakeup_event (sch c))" if "mutex_enabled (sch c)"
    using sched_inv_waiter [OF woken_step(5) nth_mem [OF woken_step(1)] _ that] woken_step(2) by simp
  then show ?case
    by (intro sched_inv_round [OF woken_step(5,1) wake_up_ok [OF woken_step(3)] _ _ _ _ _ _ _ woken_step(4)])
      (auto simp: woken_step(2) sleeps_def awake_def ev_awake_facts)
next
  case (task_emit_step i c m n t ops ti)
  have "sched_inv M D (c\<lparr>sch := sch c, calls := (calls c)[i := (calls c ! i)
      \<lparr>c_info := ti\<lparr>private_op_queue := private_op_queue ti @ ops\<rparr>\<rparr>], credits := credits c - counted D ops,
      pending_stops := pending_stops c\<rparr>)"
    by (rule sched_inv_update [OF task_emit_step(5,1) deliver_none])
      (use sched_inv_call_ok [OF task_emit_step(5,1)] task_emit_step(2,3,4) in
        \<open>auto simp: call_ok_def backed_def load_def has_task_def sleeps_def of_nat_diff\<close>)
  then show ?case by simp
next
  case (task_done_step i c m n t s1 ti s' p sig cs')
  have pw: "private_outstanding_work (c_info (calls c ! i)) = 0"
    using sched_inv_call_ok [OF task_done_step(6,1)] task_done_step(2) by (simp add: call_ok_def)
  then have b: "s1 = (sch c)\<lparr>task_interrupted := True, ready_queue :=
        ready_queue (sch c) @ map Op (private_op_queue (c_info (calls c ! i))) @ [TaskOp]\<rparr>" "ti = info_new"
    using task_done_step(3) by (auto simp: task_cleanup_def Let_def)
  note f = round_okD [OF after_task_ok [OF task_done_step(4)]]
  have l: "load D (enter D p ((calls c ! i)\<lparr>c_info := ti\<rparr>)) = handled D p"
    "load D (calls c ! i) = int (counted D (private_op_queue (c_info (calls c ! i))))"
    using b(2) pw task_done_step(2) by (simp add: load_enter info_new_def, simp add: load_def)
  have "sched_inv M D (c\<lparr>sch := s', calls := cs', credits := credits c, pending_stops := pending_stops c\<rparr>)"
    by (rule sched_inv_update [OF task_done_step(6,1,5)])
      (use f(1-4,7-9) f(6) [of D] l b task_done_step(2) in \<open>simp_all add: call_ok_enter has_task_def sleeps_def info_new_def\<close>)
  then show ?case by simp
next
  case (adopt_step i c)
  have "sched_inv M D (c\<lparr>sch := sch c, calls := (calls c)[i := (calls c ! i)\<lparr>c_phase := Owner\<rparr>],
      credits := credits c - 1, pending_stops := pending_stops c\<rparr>)"
    by (rule sched_inv_update [OF adopt_step(5,1) deliver_none])
      (use sched_inv_call_ok [OF adopt_step(5,1)] adopt_step(2,3,4) in
        \<open>auto simp: call_ok_def backed_def load_def has_task_def sleeps_def of_nat_diff\<close>)
  then show ?case by simp
next
  case (balance_step i c)
  have "sched_inv M D (c\<lparr>sch := sch c, calls := (calls c)[i := (calls c ! i)
      \<lparr>c_info := compensating_work_started (c_info (calls c ! i)), c_phase := Balanced\<rparr>],
      credits := credits c, pending_stops := pending_stops c\<rparr>)"
    by (rule sched_inv_update [OF balance_step(4,1) deliver_none])
      (use sched_inv_call_ok [OF balance_step(4,1)] balance_step(2,3) in
        \<open>auto simp: call_ok_def backed_def load_def has_task_def sleeps_def compensating_work_started_def\<close>)
  then show ?case by simp
next
  case (post_private_step c i is_cont op s' ti sig cs')
  note h = handlingD [OF post_private_step(1)]
  have ok: "call_ok (may_splice M (sch c)) D (calls c ! i)"
    using sched_inv_call_ok [OF post_private_step(6)] h by simp
  have s: "s' = sch c" "sig = NoSignal" "ti = (c_info (calls c ! i))
      \<lparr>private_outstanding_work := private_outstanding_work (c_info (calls c ! i)) + 1,
       private_op_queue := private_op_queue (c_info (calls c ! i)) @ [op]\<rparr>"
    using post_private_step(2,4) by (auto simp: post_immediate_completion_def)
  have "sched_inv M D (c\<lparr>sch := s', calls := cs', credits := credits c, pending_stops := pending_stops c\<rparr>)"
    by (rule sched_inv_update [OF post_private_step(6) _ post_private_step(5)])
      (use ok h s handling_pcs post_private_step(3) in
        \<open>auto simp: call_ok_def backed_def load_def has_task_def sleeps_def\<close>)
  then show ?case by simp
next
  case (post_shared_step this c is_cont op s' this' sig cs')
  let ?s1 = "(work_started (sch c))\<lparr>ready_queue := ready_queue (sch c) @ [Op op]\<rparr>"
  have "wake_one_thread_and_unlock ?s1 = (s', sig)"
    using post_shared_step(1,3)
    by (auto simp: post_immediate_completion_def work_started_def Let_def split: prod.splits option.splits if_splits)
  from sched_inv_post [OF post_shared_step(5,4) this, of "[op]" 1 "credits c"] post_shared_step(2) show ?case
    by (simp add: work_started_def)
next
  case (dispatch_step op c s' sig cs')
  let ?s1 = "(work_started (sch c))\<lparr>ready_queue := ready_queue (sch c) @ [Op op]\<rparr>"
  have "wake_one_thread_and_unlock ?s1 = (s', sig)"
    using dispatch_step(2) by (auto simp: do_dispatch_def work_started_def Let_def)
  from sched_inv_post [OF dispatch_step(4,3) this, of "[op]" 1 "credits c"] dispatch_step(1) show ?case
    by (simp add: work_started_def)
next
  case (deferred_private_step c i ops s' ti sig cs')
  note h = handlingD [OF deferred_private_step(1)]
  have ok: "call_ok (may_splice M (sch c)) D (calls c ! i)"
    using sched_inv_call_ok [OF deferred_private_step(6)] h by simp
  have s: "s' = sch c" "sig = NoSignal" "ti = (c_info (calls c ! i))
      \<lparr>private_op_queue := private_op_queue (c_info (calls c ! i)) @ ops\<rparr>"
    using deferred_private_step(2,4) by (auto simp: post_deferred_completions_def split: if_splits)
  have "sched_inv M D (c\<lparr>sch := s', calls := cs', credits := credits c - counted D ops, pending_stops := pending_stops c\<rparr>)"
    by (rule sched_inv_update [OF deferred_private_step(6) _ deferred_private_step(5)])
      (use ok h s handling_pcs deferred_private_step(3) in
        \<open>auto simp: call_ok_def backed_def load_def has_task_def sleeps_def of_nat_diff\<close>)
  then show ?case by simp
next
  case (deferred_shared_step this c ops s' this' sig cs')
  show ?case
  proof (cases "ops = []")
    case True
    with deferred_shared_step(3,4) have "s' = sch c" "cs' = calls c"
      by (auto simp: post_deferred_completions_def elim: deliver_noneE)
    with True deferred_shared_step(5) show ?thesis by simp
  next
    case False
    have "wake_one_thread_and_unlock ((sch c)\<lparr>ready_queue := ready_queue (sch c) @ map Op ops\<rparr>) = (s', sig)"
      using deferred_shared_step(1,3) False
      by (auto simp: post_deferred_completions_def split: prod.splits option.splits if_splits)
    from sched_inv_post [OF deferred_shared_step(5,4) this, of ops 0 "credits c - counted D ops"]
      deferred_shared_step(2) show ?thesis
      by simp
  qed
next
  case (work_started_step c)
  then show ?case
    by (simp add: sched_inv_def may_splice_def work_started_def)
next
  case (work_finished_step c s' stop)
  then show ?case
    by (auto simp: sched_inv_def may_splice_def work_finished_def Let_def)
next
  case (stop_step c s' sig cs')
  have "sched_inv M D (c\<lparr>sch := s', calls := cs', credits := credits c, pending_stops := pending_stops c - 1\<rparr>)"
    by (rule sched_inv_shared [OF stop_step(3,2)])
      (use stop_step(1) in \<open>auto simp: sched_stop_def stop_all_threads_def cev_signal_all_def ev_signal_all_def Let_def
        split: if_splits\<close>)
  then show ?case by simp
next
  case (restart_step c)
  then show ?case
    by (simp add: sched_inv_def may_splice_def restart_def)
next
  case (handler_done_step i c m n x s' ti stop)
  have pw: "0 \<le> private_outstanding_work (c_info (calls c ! i))"
    using sched_inv_call_ok [OF handler_done_step(6,1)] by (simp add: call_ok_def)
  have b: "outstanding_work s' = outstanding_work (sch c) + private_outstanding_work (c_info (calls c ! i)) - 1"
      "one_thread s' = one_thread (sch c)" "mutex_enabled s' = mutex_enabled (sch c)" "task_set s' = task_set (sch c)"
      "ready_queue s' = ready_queue (sch c)" "wakeup_event s' = wakeup_event (sch c)"
      "ti = (c_info (calls c ! i))\<lparr>private_outstanding_work := 0\<rparr>"
    using work_cleanup_balance [OF handler_done_step(5) pw] by (simp_all add: same_frame_def)
  let ?k = "(calls c ! i)\<lparr>c_pc := if private_op_queue ti \<noteq> [] then Flushing m n else after_handler m n, c_info := ti\<rparr>"
  have "sched_inv M D (c\<lparr>sch := s', calls := (calls c)[i := ?k], credits := credits c,
      pending_stops := pending_stops c + of_bool stop\<rparr>)"
    by (rule sched_inv_update [OF handler_done_step(6,1) deliver_none])
      (use handler_done_step(3) in
        \<open>simp_all add: b handler_done_step(2) after_handler_pcs call_ok_def backed_def load_def has_task_def sleeps_def\<close>)
  then show ?case by simp
next
  case (flush_step i c m n s' ti)
  have ok: "call_ok (may_splice M (sch c)) D (calls c ! i)"
    using flush_step(4,1) by (rule sched_inv_call_ok)
  have "sched_inv M D (c\<lparr>sch := s', calls := (calls c)[i := (calls c ! i)\<lparr>c_pc := after_handler m n, c_info := ti\<rparr>],
      credits := credits c, pending_stops := pending_stops c\<rparr>)"
    by (rule sched_inv_update [OF flush_step(4,1) deliver_none])
      (use ok flush_step(2,3) after_handler_pcs [of m n] in
        \<open>auto simp: call_ok_def backed_def load_def has_task_def sleeps_def work_cleanup_queue_def\<close>)
  then show ?case by simp
next
  case (init_task_step c s' sig cs')
  show ?case
  proof (cases "\<not> shut_down_flag (sch c) \<and> \<not> task_set (sch c)")
    case True
    then have w: "wake_one_thread_and_unlock
        ((sch c)\<lparr>task_set := True, ready_queue := ready_queue (sch c) @ [TaskOp]\<rparr>) = (s', sig)"
      using init_task_step(1) by (simp add: init_task_def)
    have "sched_inv M D (c\<lparr>sch := s', calls := cs', credits := credits c, pending_stops := pending_stops c\<rparr>)"
      by (rule sched_inv_shared [OF init_task_step(3,2)])
        (use wake_one_cases [OF w] True in \<open>auto simp: same_frame_def\<close>)
    then show ?thesis by simp
  next
    case False
    then have "s' = sch c" "cs' = calls c"
      using init_task_step(1,2) by (auto simp: init_task_def elim: deliver_noneE)
    with init_task_step(3) show ?thesis by simp
  qed
qed

lemma sched_inv_reachable: "reachable M D a c \<Longrightarrow> sched_inv M D a \<Longrightarrow> sched_inv M D c"
  by (induction rule: reachable.induct) (auto intro: sched_inv_step)

end
