(* ===== verification/SchedulerWake.thy ===== *)
theory SchedulerWake
  imports SchedulerInv
begin

text \<open>
  No lost wake-ups: with a thread-safe scheduler and threads that use \<open>run\<close> and \<open>poll\<close>, a ready
  operation never sits in the queue while every thread sleeps. What fails when a thread uses
  \<open>run_one\<close>, and what the nested \<open>poll\<close> of the single-threaded case does to the work count.
\<close>

definition active :: "'o pc \<Rightarrow> bool" where
  "active p \<longleftrightarrow> (\<exists>m n. p = Locking m n \<or> p = Flushing m n)"

text \<open>The event is signalled and a sleeper is on its way, or nobody sleeps and the reactor is not left blocked.\<close>

definition guarded :: "'o sched \<Rightarrow> 'o call list \<Rightarrow> bool" where
  "guarded s cs \<longleftrightarrow> ev_signalled (wakeup_event s) \<and>
     ((\<exists>k \<in> set cs. is_woken (c_pc k)) \<or>
      ((\<forall>k \<in> set cs. \<not> is_waiting (c_pc k)) \<and> task_interrupted s))"

definition pc_mode_ok :: "mode set \<Rightarrow> 'o pc \<Rightarrow> bool" where
  "pc_mode_ok M p \<longleftrightarrow> (case p of Returned n \<Rightarrow> True | Locking m n \<Rightarrow> m \<in> M | Waiting m n \<Rightarrow> m \<in> M
     | Woken m n \<Rightarrow> m \<in> M | InTask m n t \<Rightarrow> m \<in> M | InHandler m n x \<Rightarrow> m \<in> M | Flushing m n \<Rightarrow> m \<in> M)"

definition wake_inv :: "'o config \<Rightarrow> bool" where
  "wake_inv c \<longleftrightarrow>
     mutex_enabled (sch c) \<and> \<not> one_thread (sch c) \<and>
     (\<not> task_set (sch c) \<longrightarrow> task_interrupted (sch c)) \<and>
     (\<forall>k \<in> set (calls c). pc_mode_ok {Run, Poll} (c_pc k)) \<and>
     (if stopped (sch c) then
        ev_signalled (wakeup_event (sch c)) \<and> (\<forall>k \<in> set (calls c). \<not> is_waiting (c_pc k)) \<and>
        task_interrupted (sch c)
      else ready_queue (sch c) \<noteq> [] \<longrightarrow> guarded (sch c) (calls c) \<or>
        (\<exists>k \<in> set (calls c). active (c_pc k)) \<and> TaskOp \<notin> set (ready_queue (sch c)))"

text \<open>What a section of a call leaves: nothing, a stopped scheduler, or a promise to be delivered.\<close>

definition promise :: "'o sched \<Rightarrow> cond_signal \<Rightarrow> bool" where
  "promise s c \<longleftrightarrow> ev_signalled (wakeup_event s) \<and>
     (if 0 < ev_waiters (wakeup_event s) then c = SignalOne else task_interrupted s)"

lemma deliver_one_cases:
  "deliver SignalOne cs cs' \<Longrightarrow>
     (\<exists>i. i < length cs \<and> is_waiting (c_pc (cs ! i)) \<and> cs' = cs[i := wake_call (cs ! i)]) \<or>
     ((\<forall>k \<in> set cs. \<not> is_waiting (c_pc k)) \<and> cs' = cs)"
  by (erule deliver_oneE) auto

lemma promise_guarded:
  assumes p: "promise s c" and d: "deliver c cs cs'"
    and n: "int (ev_waiters (wakeup_event s)) = csum sleeps cs"
  shows "guarded s cs'"
proof (cases "0 < ev_waiters (wakeup_event s)")
  case False
  then have "csum sleeps cs' = 0"
    using n deliver_csum [OF d, of sleeps] by simp
  then have "\<forall>k \<in> set cs'. \<not> is_waiting (c_pc k)"
    using csum_sleeps_zero by blast
  with p False show ?thesis
    by (simp add: promise_def guarded_def)
next
  case True
  then have "c = SignalOne"
    using p by (simp add: promise_def)
  have "csum sleeps cs \<noteq> 0"
    using True n by simp
  then have s: "\<exists>k \<in> set cs. is_waiting (c_pc k) \<or> is_woken (c_pc k)"
    using csum_sleeps_zero [of cs] by blast
  have "\<exists>k \<in> set cs'. is_woken (c_pc k)"
    using deliver_one_cases [OF d [unfolded \<open>c = SignalOne\<close>]]
  proof (elim disjE exE conjE)
    fix i assume i: "i < length cs" "is_waiting (c_pc (cs ! i))" "cs' = cs[i := wake_call (cs ! i)]"
    then have "wake_call (cs ! i) \<in> set cs'" and "is_woken (c_pc (wake_call (cs ! i)))"
      by (simp_all add: set_update_memI)
    then show ?thesis by blast
  next
    assume "\<forall>k \<in> set cs. \<not> is_waiting (c_pc k)" "cs' = cs"
    with s show ?thesis by blast
  qed
  with p show ?thesis
    by (simp add: promise_def guarded_def)
qed

lemma cev_promise:
  "cev_maybe_unlock_and_signal_one True e = (e', c, b) \<Longrightarrow> task_interrupted s \<Longrightarrow> promise (s\<lparr>wakeup_event := e'\<rparr>) c"
  "cev_unlock_and_signal_one True e = (e', c) \<Longrightarrow> task_interrupted s \<Longrightarrow> promise (s\<lparr>wakeup_event := e'\<rparr>) c"
  by (auto simp: promise_def dest!: cev_maybe_cases cev_unlock_cases)

lemma wake_promise:
  assumes "wake_one_thread_and_unlock s = (s', c)" and "mutex_enabled s"
    and "\<not> task_set s \<longrightarrow> task_interrupted s"
  shows "promise s' c \<and> (task_interrupted s \<longrightarrow> task_interrupted s')"
proof -
  have "task_interrupted s \<longrightarrow> task_interrupted s'"
    using assms(1) by (auto simp: wake_one_thread_and_unlock_def Let_def interrupt_task_def split: prod.splits if_splits)
  with wake_one_cases [OF assms(1)] assms(2,3) show ?thesis
    by (auto simp: promise_def same_frame_def split: if_splits)
qed

text \<open>A round of a call that enters the loop with the mutex.\<close>

definition round_wakes :: "'o sched \<Rightarrow> 'o sched \<Rightarrow> 'o pc \<Rightarrow> cond_signal \<Rightarrow> bool" where
  "round_wakes s s' p c \<longleftrightarrow>
     (\<not> task_set s' \<longrightarrow> task_interrupted s') \<and>
     (stopped s \<and> stopped s' \<and> (ev_signalled (wakeup_event s) \<longrightarrow> ev_signalled (wakeup_event s')) \<and>
        (task_interrupted s \<longrightarrow> task_interrupted s') \<and> \<not> is_waiting p \<or>
      \<not> stopped s' \<and> (ready_queue s' = [] \<or> promise s' c))"

lemma start_handler_wakes:
  assumes "start_handler s m n x q = (s', p, c)" and "mutex_enabled s" and "\<not> one_thread s"
    and "\<not> task_set s \<longrightarrow> task_interrupted s"
  shows "round_wakes s s' p c"
proof (cases "q = []")
  case True
  with assms show ?thesis
    by (auto simp: start_handler_def wake_if_more_def round_wakes_def)
next
  case False
  then have w: "wake_one_thread_and_unlock (s\<lparr>ready_queue := q\<rparr>) = (s', c)"
    using assms(1,3) by (auto simp: start_handler_def wake_if_more_def Let_def split: prod.splits)
  have p: "promise s' c \<and> (task_interrupted s \<longrightarrow> task_interrupted s')"
    using wake_promise [OF w] assms(2,4) by simp
  then have "ev_signalled (wakeup_event s')"
    by (simp add: promise_def)
  moreover have "\<not> is_waiting p"
    using assms(1) by (auto simp: start_handler_def split: prod.splits)
  ultimately show ?thesis
    using p wake_one_cases [OF w] assms(4) by (auto simp: round_wakes_def same_frame_def)
qed

lemma start_task_wakes:
  assumes "start_task s m n t q = (s', p, c)" and "\<not> stopped s" and "mutex_enabled s" and "\<not> one_thread s"
    and "task_set s"
  shows "round_wakes s s' p c"
proof (cases "q = []")
  case True
  with assms show ?thesis
    by (auto simp: start_task_def round_wakes_def)
next
  case False
  obtain e k where u: "cev_unlock_and_signal_one True (wakeup_event s) = (e, k)"
    by (cases "cev_unlock_and_signal_one True (wakeup_event s)")
  have "s' = s\<lparr>ready_queue := q, task_interrupted := True, wakeup_event := e\<rparr>" "c = k"
    using assms False u by (auto simp: start_task_def Let_def)
  with cev_promise(2) [OF u, of "s\<lparr>ready_queue := q, task_interrupted := True\<rparr>"] assms(2,5) show ?thesis
    by (simp add: round_wakes_def)
qed

lemma run_round_wakes:
  assumes "run_round s m n = (s', p, c)" and "mutex_enabled s" and "\<not> one_thread s"
    and "\<not> task_set s \<longrightarrow> task_interrupted s" and "TaskOp \<in> set (ready_queue s) \<longrightarrow> task_set s"
  shows "round_wakes s s' p c"
proof (cases "stopped s")
  case True
  with assms show ?thesis
    by (auto simp: run_round_def round_wakes_def)
next
  case False
  show ?thesis
  proof (cases "ready_queue s")
    case Nil
    with False assms show ?thesis
      by (auto simp: run_round_def go_to_sleep_def round_wakes_def)
  next
    case (Cons i q)
    show ?thesis
    proof (cases i)
      case TaskOp
      with Cons False assms show ?thesis
        by (auto simp: run_round_def intro: start_task_wakes)
    next
      case (Op x)
      with Cons False assms show ?thesis
        by (auto simp: run_round_def intro: start_handler_wakes)
    qed
  qed
qed

lemma poll_after_task_wakes:
  assumes "poll_after_task s m n = (s', p, c)" and "mutex_enabled s" and "\<not> one_thread s"
    and "task_interrupted s"
  shows "round_wakes s s' p c"
proof (cases "ready_queue s")
  case Nil
  with assms show ?thesis
    by (auto simp: poll_after_task_def round_wakes_def)
next
  case (Cons i q)
  show ?thesis
  proof (cases i)
    case TaskOp
    obtain e k b where u: "cev_maybe_unlock_and_signal_one True (wakeup_event s) = (e, k, b)"
      by (metis prod_cases3)
    have s': "s' = s\<lparr>wakeup_event := e\<rparr>" "c = k" "p = Returned n"
      using assms Cons TaskOp u by (auto simp: poll_after_task_def)
    have "promise s' c"
      using cev_promise(1) [OF u assms(4)] s' by simp
    then show ?thesis
      using assms(4) s' by (auto simp: round_wakes_def promise_def)
  next
    case (Op x)
    with Cons assms show ?thesis
      by (auto simp: poll_after_task_def intro: start_handler_wakes)
  qed
qed

text \<open>The only round that may take something off the queue and wake nobody is \<open>do_poll_one\<close> taking the task.\<close>

lemma poll_round_wakes:
  assumes "poll_round s m n = (s', p, c)" and "mutex_enabled s" and "\<not> one_thread s"
    and "\<not> task_set s \<longrightarrow> task_interrupted s"
  shows "round_wakes s s' p c \<or>
    (\<not> stopped s \<and> (\<exists>q. ready_queue s = TaskOp # q \<and> s' = s\<lparr>ready_queue := q\<rparr>) \<and> p = InTask m n 0 \<and> c = NoSignal)"
proof (cases "stopped s")
  case True
  with assms show ?thesis
    by (auto simp: poll_round_def round_wakes_def)
next
  case False
  show ?thesis
  proof (cases "ready_queue s")
    case Nil
    with False assms show ?thesis
      by (auto simp: poll_round_def round_wakes_def)
  next
    case (Cons i q)
    show ?thesis
    proof (cases i)
      case TaskOp
      with Cons False assms show ?thesis
        by (auto simp: poll_round_def)
    next
      case (Op x)
      with Cons False assms show ?thesis
        by (auto simp: poll_round_def intro: start_handler_wakes)
    qed
  qed
qed

section \<open>Every step keeps the promises\<close>

lemma wake_invD:
  assumes "wake_inv c"
  shows "mutex_enabled (sch c)" and "\<not> one_thread (sch c)"
    and "\<not> task_set (sch c) \<longrightarrow> task_interrupted (sch c)"
    and "\<forall>k \<in> set (calls c). pc_mode_ok {Run, Poll} (c_pc k)"
    and "stopped (sch c) \<Longrightarrow> ev_signalled (wakeup_event (sch c)) \<and>
      (\<forall>k \<in> set (calls c). \<not> is_waiting (c_pc k)) \<and> task_interrupted (sch c)"
    and "\<not> stopped (sch c) \<Longrightarrow> ready_queue (sch c) \<noteq> [] \<Longrightarrow> guarded (sch c) (calls c) \<or>
        (\<exists>k \<in> set (calls c). active (c_pc k)) \<and> TaskOp \<notin> set (ready_queue (sch c))"
  using assms by (auto simp: wake_inv_def)

lemma wake_pc_mode [simp]: "pc_mode_ok M (c_pc (wake_call k)) = pc_mode_ok M (c_pc k)"
  by (cases "c_pc k") (simp_all add: wake_call_def pc_mode_ok_def)

lemma deliver_modes:
  assumes "deliver sig cs cs'" and "\<forall>k \<in> set cs. pc_mode_ok M (c_pc k)"
  shows "\<forall>k \<in> set cs'. pc_mode_ok M (c_pc k)"
proof
  fix k assume "k \<in> set cs'"
  from deliver_set [OF assms(1) this] show "pc_mode_ok M (c_pc k)"
    using assms(2) by auto
qed

lemma deliver_not_waiting:
  assumes "deliver sig cs cs'" and "\<forall>k \<in> set cs. \<not> is_waiting (c_pc k)"
  shows "\<forall>k \<in> set cs'. \<not> is_waiting (c_pc k)"
proof
  fix k assume "k \<in> set cs'"
  from deliver_set [OF assms(1) this] show "\<not> is_waiting (c_pc k)"
    using assms(2) by auto
qed

lemma set_upd_cases: "k \<in> set (cs[i := x]) \<Longrightarrow> k = x \<or> k \<in> set cs"
  by (auto dest!: subsetD [OF set_update_subset_insert])

lemma set_upd_other: "k \<in> set cs \<Longrightarrow> i < length cs \<Longrightarrow> k \<noteq> cs ! i \<Longrightarrow> k \<in> set (cs[i := x])"
  by (metis in_set_conv_nth length_list_update nth_list_update_neq)

lemma round_modes:
  "round_ok s s' p \<Longrightarrow> next_round s m n = (s', p, c) \<Longrightarrow> m \<in> M \<Longrightarrow> pc_mode_ok M p"
  by (cases m) (auto simp: next_round_def run_round_def poll_round_def wait_round_def wait_take_def start_handler_def
      start_task_def go_to_sleep_def pc_mode_ok_def Let_def split: if_splits list.splits item.splits prod.splits)

lemma run_modes: "run_round s m n = (s', p, c) \<Longrightarrow> m \<in> M \<Longrightarrow> pc_mode_ok M p"
  by (auto simp: run_round_def start_handler_def
      start_task_def go_to_sleep_def pc_mode_ok_def Let_def split: if_splits list.splits item.splits prod.splits)

lemma poll_modes: "poll_round s m n = (s', p, c) \<Longrightarrow> m \<in> M \<Longrightarrow> pc_mode_ok M p"
  by (auto simp: poll_round_def start_handler_def
      pc_mode_ok_def Let_def split: if_splits list.splits item.splits prod.splits)

lemma poll_after_modes: "poll_after_task s m n = (s', p, c) \<Longrightarrow> m \<in> M \<Longrightarrow> pc_mode_ok M p"
  by (auto simp: poll_after_task_def start_handler_def
      pc_mode_ok_def Let_def split: if_splits list.splits item.splits prod.splits)

text \<open>A call changes its program counter, the scheduler keeps what the invariant reads.\<close>

definition same_wake :: "'o sched \<Rightarrow> 'o sched \<Rightarrow> bool" where
  "same_wake s s' \<longleftrightarrow> one_thread s' = one_thread s \<and> mutex_enabled s' = mutex_enabled s \<and>
     task_set s' = task_set s \<and> task_interrupted s' = task_interrupted s \<and>
     wakeup_event s' = wakeup_event s \<and> ready_queue s' = ready_queue s \<and> stopped s' = stopped s"

lemma guarded_upd:
  assumes "guarded s cs" and "i < length cs" and "\<not> is_woken (c_pc (cs ! i))" and "\<not> is_waiting (c_pc k)"
    and "wakeup_event s' = wakeup_event s" and "task_interrupted s' = task_interrupted s"
  shows "guarded s' (cs[i := k])"
proof -
  have "\<exists>x \<in> set (cs[i := k]). is_woken (c_pc x)" if "x \<in> set cs" "is_woken (c_pc x)" for x
    using set_upd_other [OF that(1) assms(2)] that(2) assms(3) by blast
  moreover have "\<forall>x \<in> set (cs[i := k]). \<not> is_waiting (c_pc x)" if "\<forall>x \<in> set cs. \<not> is_waiting (c_pc x)"
    using that assms(4) set_upd_cases by fastforce
  ultimately show ?thesis
    using assms(1,5,6) unfolding guarded_def by metis
qed

lemma active_upd:
  assumes "x \<in> set cs" and "active (c_pc x)" and "i < length cs" and "\<not> active (c_pc (cs ! i))"
  shows "\<exists>x \<in> set (cs[i := k]). active (c_pc x)"
  using set_upd_other [OF assms(1,3)] assms(2,4) by blast

lemma wake_inv_pc:
  assumes w: "wake_inv c" and i: "i < length (calls c)" and s: "same_wake (sch c) s'"
    and old: "\<not> is_woken (c_pc (calls c ! i))" "\<not> active (c_pc (calls c ! i))"
    and new: "\<not> is_waiting (c_pc k)" "pc_mode_ok {Run, Poll} (c_pc k)"
  shows "wake_inv (c\<lparr>sch := s', calls := (calls c)[i := k], credits := cr, pending_stops := ps\<rparr>)"
proof -
  note d = wake_invD [OF w]
  have e: "wakeup_event s' = wakeup_event (sch c)" "task_interrupted s' = task_interrupted (sch c)"
    using s by (simp_all add: same_wake_def)
  have m: "\<forall>x \<in> set ((calls c)[i := k]). pc_mode_ok {Run, Poll} (c_pc x)"
    using d(4) new(2) set_upd_cases by fastforce
  have nw: "\<forall>x \<in> set ((calls c)[i := k]). \<not> is_waiting (c_pc x)" if "stopped (sch c)"
    using d(5) [OF that] new(1) set_upd_cases by fastforce
  have g: "guarded s' ((calls c)[i := k]) \<or>
      (\<exists>x \<in> set ((calls c)[i := k]). active (c_pc x)) \<and> TaskOp \<notin> set (ready_queue (sch c))"
    if "\<not> stopped (sch c)" "ready_queue (sch c) \<noteq> []"
    using d(6) [OF that] guarded_upd [OF _ i old(1) new(1) e] active_upd [OF _ _ i old(2)] by blast
  show ?thesis
    using d m nw g s by (auto simp: wake_inv_def same_wake_def)
qed

text \<open>A section that wakes.\<close>

lemma wake_inv_round:
  assumes r: "round_wakes s1 s' p sig" and dl: "deliver sig cs cs'"
    and f: "mutex_enabled s'" "\<not> one_thread s'"
    and m: "\<forall>x \<in> set cs. pc_mode_ok {Run, Poll} (c_pc x)"
    and n: "int (ev_waiters (wakeup_event s')) = csum sleeps cs'"
    and st: "stopped s1 \<Longrightarrow> ev_signalled (wakeup_event s1) \<and> task_interrupted s1 \<and>
      (\<not> is_waiting p \<longrightarrow> (\<forall>x \<in> set cs. \<not> is_waiting (c_pc x)))"
  shows "wake_inv (c\<lparr>sch := s', calls := cs', credits := cr, pending_stops := ps\<rparr>)"
proof -
  have m': "\<forall>x \<in> set cs'. pc_mode_ok {Run, Poll} (c_pc x)"
    using deliver_modes [OF dl m] .
  have g: "guarded s' cs'" if "promise s' sig"
    using promise_guarded [OF that dl] n deliver_csum [OF dl, of sleeps] by simp
  show ?thesis
  proof (cases "stopped s'")
    case True
    then have "stopped s1" "ev_signalled (wakeup_event s1) \<longrightarrow> ev_signalled (wakeup_event s')"
      "task_interrupted s1 \<longrightarrow> task_interrupted s'" "\<not> is_waiting p"
      using r by (auto simp: round_wakes_def)
    with st deliver_not_waiting [OF dl] True f m' r show ?thesis
      by (simp add: wake_inv_def round_wakes_def)
  next
    case False
    with r g f m' show ?thesis
      by (auto simp: wake_inv_def round_wakes_def)
  qed
qed

lemma sched_inv_waiters:
  "sched_inv M D c \<Longrightarrow> mutex_enabled (sch c) \<Longrightarrow> int (ev_waiters (wakeup_event (sch c))) = csum sleeps (calls c)"
  by (simp add: sched_inv_def)

lemma sched_inv_task:
  assumes "sched_inv M D c" and "TaskOp \<in> set (ready_queue (sch c)) \<or> (\<exists>k \<in> set (calls c). in_task (c_pc k))"
  shows "task_set (sch c)"
proof -
  have n: "0 \<le> csum has_task (calls c)" "0 \<le> task_count (ready_queue (sch c))"
    by (rule csum_nonneg, simp add: has_task_def, rule task_count_nonneg)
  have "csum has_task (calls c) \<noteq> 0 \<or> task_count (ready_queue (sch c)) \<noteq> 0"
    using assms(2) csum_zero_iff [of "calls c" has_task] task_count_zero by (auto simp: has_task_def)
  with n assms(1) show ?thesis
    by (cases "task_set (sch c)") (auto simp: sched_inv_def)
qed

lemma wake_inv_post:
  assumes w: "wake_inv c" and inv: "sched_inv M D (c\<lparr>sch := s', calls := cs', credits := cr\<rparr>)"
    and dl: "deliver sig (calls c) cs'" and k: "wake_one_thread_and_unlock s1 = (s', sig)"
    and s1: "one_thread s1 = one_thread (sch c)" "mutex_enabled s1 = mutex_enabled (sch c)"
      "wakeup_event s1 = wakeup_event (sch c)" "stopped s1 = stopped (sch c)"
      "task_interrupted s1 = task_interrupted (sch c)"
    and ts: "\<not> task_set s1 \<longrightarrow> task_interrupted s1"
  shows "wake_inv (c\<lparr>sch := s', calls := cs', credits := cr\<rparr>)"
proof -
  note d = wake_invD [OF w] and c = wake_one_cases [OF k]
  have p: "promise s' sig" "task_interrupted s1 \<longrightarrow> task_interrupted s'"
    using wake_promise [OF k] ts s1 d(1) by simp_all
  then have "ev_signalled (wakeup_event s')"
    by (simp add: promise_def)
  then have r: "round_wakes s1 s' (Returned 0) sig"
    using p c ts by (auto simp: round_wakes_def same_frame_def)
  have f: "mutex_enabled s'" "\<not> one_thread s'"
    using c s1 d(1,2) by (simp_all add: same_frame_def)
  have "int (ev_waiters (wakeup_event s')) = csum sleeps cs'"
    using sched_inv_waiters [OF inv] f by simp
  from wake_inv_round [OF r dl f d(4) this, where c = c and cr = cr and ps = "pending_stops c"] d(5) s1 show ?thesis
    by simp
qed

lemma wake_inv_mode: "wake_inv c \<Longrightarrow> i < length (calls c) \<Longrightarrow> pc_mode_ok {Run, Poll} (c_pc (calls c ! i))"
  by (simp add: wake_inv_def)

text \<open>The call that runs a section: its new place among the calls.\<close>

lemma wake_inv_section:
  assumes w: "wake_inv c" and i: "i < length (calls c)"
    and r: "round_wakes s1 s' p sig" and ro: "round_ok s1 s' p" and pm: "pc_mode_ok {Run, Poll} p"
    and k: "c_pc k = p"
    and dl: "deliver sig ((calls c)[i := k]) cs'"
    and inv: "sched_inv M D (c\<lparr>sch := s', calls := cs', credits := cr, pending_stops := ps\<rparr>)"
    and s1: "one_thread s1 = one_thread (sch c)" "mutex_enabled s1 = mutex_enabled (sch c)"
      "stopped s1 = stopped (sch c)" "ev_signalled (wakeup_event s1) = ev_signalled (wakeup_event (sch c))"
      "task_interrupted (sch c) \<longrightarrow> task_interrupted s1"
  shows "wake_inv (c\<lparr>sch := s', calls := cs', credits := cr, pending_stops := ps\<rparr>)"
proof -
  note d = wake_invD [OF w]
  have f: "mutex_enabled s'" "\<not> one_thread s'"
    using ro s1 d(1,2) by (simp_all add: round_ok_def same_frame_def)
  have n: "int (ev_waiters (wakeup_event s')) = csum sleeps cs'"
    using sched_inv_waiters [OF inv] f by simp
  have m: "\<forall>x \<in> set ((calls c)[i := k]). pc_mode_ok {Run, Poll} (c_pc x)"
    using d(4) pm k set_upd_cases by fastforce
  have "\<forall>x \<in> set ((calls c)[i := k]). \<not> is_waiting (c_pc x)" if "stopped s1" "\<not> is_waiting p"
    using d(5) that s1 k set_upd_cases by fastforce
  then show ?thesis
    using wake_inv_round [OF r dl f m n] d(5) s1 by simp
qed

lemma wake_inv_lock:
  assumes w: "wake_inv c" and inv: "sched_inv M D c" and inv': "sched_inv M D (c\<lparr>sch := s', calls := cs'\<rparr>)"
    and i: "i < length (calls c)" and pc: "c_pc (calls c ! i) = Locking m n"
    and nr: "next_round (sch c) m n = (s', p, sig)"
    and dl: "deliver sig ((calls c)[i := enter D p (calls c ! i)]) cs'"
  shows "wake_inv (c\<lparr>sch := s', calls := cs'\<rparr>)"
proof -
  note d = wake_invD [OF w]
  have m: "m = Run \<or> m = Poll"
    using wake_inv_mode [OF w i] pc by (simp add: pc_mode_ok_def)
  have pm: "pc_mode_ok {Run, Poll} p"
    using m round_modes [OF next_round_ok [OF nr] nr] by blast
  have sec: ?thesis if "round_wakes (sch c) s' p sig"
    using wake_inv_section [OF w i that next_round_ok [OF nr] pm _ dl, where cr = "credits c" and ps = "pending_stops c"] inv' by simp
  from m show ?thesis
  proof
    assume "m = Run"
    then show ?thesis
      using sec run_round_wakes [of "sch c" m n s' p sig] nr d(1,2,3) sched_inv_task [OF inv]
      by (simp add: next_round_def)
  next
    assume "m = Poll"
    then consider "round_wakes (sch c) s' p sig" | q where "\<not> stopped (sch c)" "ready_queue (sch c) = TaskOp # q"
        "s' = (sch c)\<lparr>ready_queue := q\<rparr>" "p = InTask m n 0" "sig = NoSignal"
      using poll_round_wakes [of "sch c" m n s' p sig] nr d(1,2,3) by (auto simp: next_round_def)
    then show ?thesis
    proof cases
      case 1
      then show ?thesis by (rule sec)
    next
      case (2 q)
      let ?k = "enter D p (calls c ! i)"
      have cs: "cs' = (calls c)[i := ?k]"
        using dl 2(5) by (auto elim: deliver_noneE)
      have "guarded (sch c) (calls c)"
        using d(6) 2(1,2) by simp
      then have g: "guarded s' cs'"
        unfolding cs using 2 i pc by (intro guarded_upd) simp_all
      have "\<forall>x \<in> set cs'. pc_mode_ok {Run, Poll} (c_pc x)"
        unfolding cs using d(4) pm set_upd_cases by fastforce
      with g 2 d(1,2,3) show ?thesis
        by (simp add: wake_inv_def)
    qed
  qed
qed

lemma wake_inv_woken:
  assumes w: "wake_inv c" and inv: "sched_inv M D c" and inv': "sched_inv M D (c\<lparr>sch := s', calls := cs'\<rparr>)"
    and i: "i < length (calls c)" and pc: "c_pc (calls c ! i) = Woken m n"
    and wu: "wake_up (sch c) m n = (s', p, sig)"
    and dl: "deliver sig ((calls c)[i := enter D p (calls c ! i)]) cs'"
  shows "wake_inv (c\<lparr>sch := s', calls := cs'\<rparr>)"
proof -
  note d = wake_invD [OF w]
  have m: "m = Run \<or> m = Poll"
    using wake_inv_mode [OF w i] pc by (simp add: pc_mode_ok_def)
  have pos: "0 < ev_waiters (wakeup_event (sch c))"
    using sched_inv_waiter [OF inv nth_mem [OF i]] pc d(1) by simp
  have a: "one_thread (awake (sch c)) = one_thread (sch c)" "mutex_enabled (awake (sch c)) = mutex_enabled (sch c)"
      "stopped (awake (sch c)) = stopped (sch c)" "task_interrupted (awake (sch c)) = task_interrupted (sch c)"
      "task_set (awake (sch c)) = task_set (sch c)" "ready_queue (awake (sch c)) = ready_queue (sch c)"
      "ev_signalled (wakeup_event (awake (sch c))) = ev_signalled (wakeup_event (sch c))"
    using pos by (simp_all add: awake_def ev_awake_facts)
  consider "\<not> ev_signalled (wakeup_event (awake (sch c)))" "p = Waiting m n" "sig = NoSignal"
        "s' = (awake (sch c))\<lparr>wakeup_event := wakeup_event (awake (sch c)) + 2\<rparr>"
    | "run_round (awake (sch c)) m n = (s', p, sig)"
    using wake_up_cases [OF wu] m d(1) by auto
  then show ?thesis
  proof cases
    case 1
    let ?k = "enter D p (calls c ! i)"
    have cs: "cs' = (calls c)[i := ?k]"
      using dl 1(3) by (auto elim: deliver_noneE)
    have ns: "\<not> stopped (sch c)"
      using d(5) 1(1) a by blast
    have "\<exists>x \<in> set cs'. active (c_pc x)" if act: "\<exists>k \<in> set (calls c). active (c_pc k)"
    proof -
      obtain x where "x \<in> set (calls c)" "active (c_pc x)"
        using act by blast
      then show ?thesis
        unfolding cs using active_upd [OF _ _ i] pc by (fastforce simp: active_def)
    qed
    moreover have "ready_queue (sch c) \<noteq> [] \<Longrightarrow>
        (\<exists>k \<in> set (calls c). active (c_pc k)) \<and> TaskOp \<notin> set (ready_queue (sch c))"
      using d(6) [OF ns] 1(1) a by (auto simp: guarded_def)
    moreover have "\<forall>x \<in> set cs'. pc_mode_ok {Run, Poll} (c_pc x)"
      unfolding cs using d(4) m 1(2) set_upd_cases by (fastforce simp: pc_mode_ok_def)
    ultimately show ?thesis
      using d(1,2,3) ns a 1(4) by (auto simp: wake_inv_def)
  next
    case 2
    have "round_wakes (awake (sch c)) s' p sig"
      using run_round_wakes [OF 2] a d(1,2,3) sched_inv_task [OF inv] by simp
    moreover have "pc_mode_ok {Run, Poll} p"
      using run_modes [OF 2] m by blast
    ultimately show ?thesis
      using wake_inv_section [OF w i _ run_round_ok [OF 2] _ _ dl, where cr = "credits c" and ps = "pending_stops c"] a inv'
      by simp
  qed
qed

lemma wake_inv_task_done:
  assumes w: "wake_inv c" and inv: "sched_inv M D c"
    and inv': "sched_inv M D (c\<lparr>sch := s', calls := cs', credits := cr\<rparr>)"
    and i: "i < length (calls c)" and pc: "c_pc (calls c ! i) = InTask m n t"
    and tc: "task_cleanup (sch c) (c_info (calls c ! i)) = (s1, ti)"
    and af: "after_task s1 m n = (s', p, sig)"
    and dl: "deliver sig ((calls c)[i := enter D p ((calls c ! i)\<lparr>c_info := ti\<rparr>)]) cs'"
  shows "wake_inv (c\<lparr>sch := s', calls := cs', credits := cr\<rparr>)"
proof -
  note d = wake_invD [OF w]
  have m: "m = Run \<or> m = Poll"
    using wake_inv_mode [OF w i] pc by (simp add: pc_mode_ok_def)
  have s1: "one_thread s1 = one_thread (sch c)" "mutex_enabled s1 = mutex_enabled (sch c)"
      "stopped s1 = stopped (sch c)" "wakeup_event s1 = wakeup_event (sch c)" "task_interrupted s1"
      "task_set s1 = task_set (sch c)"
    using tc by (auto simp: task_cleanup_def Let_def split: if_splits)
  have ts: "task_set s1"
    using sched_inv_task [OF inv] nth_mem [OF i] pc s1 by force
  have r: "round_wakes s1 s' p sig" and pm: "pc_mode_ok {Run, Poll} p"
    using m run_round_wakes [of s1 m n s' p sig] poll_after_task_wakes [of s1 m n s' p sig]
      run_modes [of s1 m n s' p sig] poll_after_modes [of s1 m n s' p sig] af s1 ts d(1,2)
    by (auto simp: after_task_def)
  from wake_inv_section [OF w i r after_task_ok [OF af] pm _ dl, where cr = cr and ps = "pending_stops c"] s1 inv' show ?thesis
    by simp
qed

lemma wake_inv_flush:
  assumes w: "wake_inv c" and i: "i < length (calls c)" and pc: "c_pc (calls c ! i) = Flushing m n"
    and fl: "work_cleanup_queue (sch c) (c_info (calls c ! i)) = (s', ti)"
  shows "wake_inv (c\<lparr>sch := s', calls := (calls c)[i := (calls c ! i)\<lparr>c_pc := after_handler m n, c_info := ti\<rparr>]\<rparr>)"
proof -
  note d = wake_invD [OF w]
  let ?k = "(calls c ! i)\<lparr>c_pc := after_handler m n, c_info := ti\<rparr>"
  have m: "m = Run \<or> m = Poll"
    using wake_inv_mode [OF w i] pc by (simp add: pc_mode_ok_def)
  have ah: "active (c_pc ?k)" "\<not> is_waiting (c_pc ?k)" "pc_mode_ok {Run, Poll} (c_pc ?k)"
    using m by (auto simp: after_handler_def active_def pc_mode_ok_def)
  have act: "\<exists>x \<in> set ((calls c)[i := ?k]). active (c_pc x)"
    using ah(1) i by (meson set_update_memI)
  have s': "s' = (sch c)\<lparr>ready_queue := ready_queue (sch c) @ map Op (private_op_queue (c_info (calls c ! i)))\<rparr>"
    using fl by (simp add: work_cleanup_queue_def)
  have md: "\<forall>x \<in> set ((calls c)[i := ?k]). pc_mode_ok {Run, Poll} (c_pc x)"
    using d(4) ah(3) set_upd_cases by fastforce
  have nw: "\<forall>x \<in> set ((calls c)[i := ?k]). \<not> is_waiting (c_pc x)" if "stopped (sch c)"
    using d(5) [OF that] ah(2) set_upd_cases by fastforce
  have g: "guarded s' ((calls c)[i := ?k])" if "guarded (sch c) (calls c)"
    by (rule guarded_upd [OF that i]) (simp_all add: pc s' after_handler_pcs)
  have "guarded s' ((calls c)[i := ?k]) \<or> TaskOp \<notin> set (ready_queue s')" if "\<not> stopped (sch c)"
    using d(6) [OF that] g by (cases "ready_queue (sch c) = []") (auto simp: s')
  with act md nw d(1,2,3,5) show ?thesis
    by (auto simp: wake_inv_def s')
qed

lemma wake_inv_same:
  assumes w: "wake_inv c" and s: "same_wake (sch c) s'"
  shows "wake_inv (c\<lparr>sch := s', credits := cr, pending_stops := ps\<rparr>)"
  using w s by (auto simp: wake_inv_def same_wake_def guarded_def)

lemma wake_inv_stop:
  assumes w: "wake_inv c" and st: "sched_stop (sch c) = (s', sig)" and dl: "deliver sig (calls c) cs'"
  shows "wake_inv (c\<lparr>sch := s', calls := cs', pending_stops := ps\<rparr>)"
proof -
  note d = wake_invD [OF w]
  have s': "s' = interrupt_task ((sch c)\<lparr>stopped := True, wakeup_event := wakeup_event (sch c) OR Suc 0\<rparr>)"
      "sig = Broadcast"
    using st d(1) by (auto simp: sched_stop_def stop_all_threads_def cev_signal_all_def ev_signal_all_def Let_def)
  have cs: "cs' = map wake_call (calls c)"
    using dl unfolding s'(2) by (auto elim: deliver_allE)
  have "task_interrupted s'"
    using d(3) by (auto simp: s' interrupt_task_def)
  moreover have "\<forall>x \<in> set cs'. pc_mode_ok {Run, Poll} (c_pc x)"
    using deliver_modes [OF dl d(4)] .
  ultimately show ?thesis
    using d(1,2) by (simp add: wake_inv_def s'(1) cs)
qed

lemma in_handler_pc: "in_handler p \<Longrightarrow> \<not> is_woken p \<and> \<not> active p \<and> \<not> is_waiting p"
  "in_task p \<Longrightarrow> \<not> is_woken p \<and> \<not> active p \<and> \<not> is_waiting p"
  by (cases p; simp add: active_def)+

lemma wake_inv_step:
  "step M D c c' \<Longrightarrow> M \<subseteq> {Run, Poll} \<Longrightarrow> sched_inv M D c \<Longrightarrow> wake_inv c \<Longrightarrow> wake_inv c'"
proof (induction rule: step.induct)
  case (begin_step i c k m out p stop)
  have p: "p = Returned 0 \<or> p = Locking m 0"
    using begin_step(5) by (auto simp: begin_call_def split: if_splits)
  have "wake_inv (c\<lparr>sch := sch c, calls := (calls c)[i := idle_call\<lparr>c_pc := p, c_outer := out\<rparr>], credits := credits c,
      pending_stops := pending_stops c + of_bool stop\<rparr>)"
    by (rule wake_inv_pc [OF begin_step(8,1)])
      (use p begin_step(2,3,6) in \<open>auto simp: same_wake_def active_def pc_mode_ok_def idle_call_def\<close>)
  then show ?case by simp
next
  case (lock_step i c m n s' p sig cs')
  have "sched_inv M D (c\<lparr>sch := s', calls := cs'\<rparr>)"
    using sched_inv_step [OF step.lock_step [OF lock_step(1-5)] lock_step(7)] .
  from wake_inv_lock [OF lock_step(8,7) this lock_step(1,2,4,5)] show ?case .
next
  case (poll_enter_step i c m j s1 outer s' p sig cs')
  then show ?case
    by (simp add: takes_outer_def wake_inv_def)
next
  case (wake_step i c m n)
  have "wake_inv (c\<lparr>sch := sch c, calls := (calls c)[i := (calls c ! i)\<lparr>c_pc := Woken m n\<rparr>], credits := credits c,
      pending_stops := pending_stops c\<rparr>)"
    by (rule wake_inv_pc [OF wake_step(5,1)])
      (use wake_step(2) wake_inv_mode [OF wake_step(5,1)] in \<open>auto simp: same_wake_def active_def pc_mode_ok_def\<close>)
  then show ?case by simp
next
  case (woken_step i c m n s' p sig cs')
  have "sched_inv M D (c\<lparr>sch := s', calls := cs'\<rparr>)"
    using sched_inv_step [OF step.woken_step [OF woken_step(1-4)] woken_step(6)] .
  from wake_inv_woken [OF woken_step(7,6) this woken_step(1-4)] show ?case .
next
  case (task_emit_step i c m n t ops ti)
  have "wake_inv (c\<lparr>sch := sch c, calls := (calls c)[i := (calls c ! i)
      \<lparr>c_info := ti\<lparr>private_op_queue := private_op_queue ti @ ops\<rparr>\<rparr>], credits := credits c - counted D ops,
      pending_stops := pending_stops c\<rparr>)"
    by (rule wake_inv_pc [OF task_emit_step(7,1)])
      (use task_emit_step(2) wake_inv_mode [OF task_emit_step(7,1)] in \<open>auto simp: same_wake_def active_def\<close>)
  then show ?case by simp
next
  case (task_done_step i c m n t s1 ti s' p sig cs')
  have "sched_inv M D (c\<lparr>sch := s', calls := cs', credits := credits c\<rparr>)"
    using sched_inv_step [OF step.task_done_step [OF task_done_step(1-5)] task_done_step(7)] by simp
  from wake_inv_task_done [OF task_done_step(8,7) this task_done_step(1-5)] show ?case by simp
next
  case (adopt_step i c)
  have "wake_inv (c\<lparr>sch := sch c, calls := (calls c)[i := (calls c ! i)\<lparr>c_phase := Owner\<rparr>],
      credits := credits c - 1, pending_stops := pending_stops c\<rparr>)"
    by (rule wake_inv_pc [OF adopt_step(7,1)])
      (use adopt_step(2) in_handler_pc wake_inv_mode [OF adopt_step(7,1)] in \<open>auto simp: same_wake_def\<close>)
  then show ?case by simp
next
  case (balance_step i c)
  have "wake_inv (c\<lparr>sch := sch c, calls := (calls c)[i := (calls c ! i)
      \<lparr>c_info := compensating_work_started (c_info (calls c ! i)), c_phase := Balanced\<rparr>],
      credits := credits c, pending_stops := pending_stops c\<rparr>)"
    by (rule wake_inv_pc [OF balance_step(6,1)])
      (use balance_step(2) in_handler_pc wake_inv_mode [OF balance_step(6,1)] in \<open>auto simp: same_wake_def\<close>)
  then show ?case by simp
next
  case (post_private_step c i is_cont op s' ti sig cs')
  note h = handlingD [OF post_private_step(1)]
  have i: "i < length (calls c)" using h by simp
  have s: "s' = sch c" "cs' = (calls c)[i := (calls c ! i)\<lparr>c_info := ti\<rparr>]"
    using post_private_step(2,4,5) by (auto simp: post_immediate_completion_def elim: deliver_noneE)
  have "wake_inv (c\<lparr>sch := s', calls := cs', credits := credits c, pending_stops := pending_stops c\<rparr>)"
    unfolding s(2) by (rule wake_inv_pc [OF post_private_step(8) i])
      (use h s(1) in_handler_pc wake_inv_mode [OF post_private_step(8) i] in \<open>auto simp: same_wake_def\<close>)
  then show ?case by simp
next
  case (post_shared_step this c is_cont op s' this' sig cs')
  let ?s1 = "(work_started (sch c))\<lparr>ready_queue := ready_queue (sch c) @ [Op op]\<rparr>"
  have k: "wake_one_thread_and_unlock ?s1 = (s', sig)"
    using post_shared_step(1,3)
    by (auto simp: post_immediate_completion_def work_started_def Let_def split: prod.splits option.splits if_splits)
  have "sched_inv M D (c\<lparr>sch := s', calls := cs', credits := credits c\<rparr>)"
    using sched_inv_step [OF step.post_shared_step [OF post_shared_step(1-4)] post_shared_step(6)] by simp
  from wake_inv_post [OF post_shared_step(7) this post_shared_step(4) k] wake_invD(3) [OF post_shared_step(7)]
  show ?case by (simp add: work_started_def)
next
  case (dispatch_step op c s' sig cs')
  let ?s1 = "(work_started (sch c))\<lparr>ready_queue := ready_queue (sch c) @ [Op op]\<rparr>"
  have k: "wake_one_thread_and_unlock ?s1 = (s', sig)"
    using dispatch_step(2) by (auto simp: do_dispatch_def work_started_def Let_def)
  have "sched_inv M D (c\<lparr>sch := s', calls := cs', credits := credits c\<rparr>)"
    using sched_inv_step [OF step.dispatch_step [OF dispatch_step(1-3)] dispatch_step(5)] by simp
  from wake_inv_post [OF dispatch_step(6) this dispatch_step(3) k] wake_invD(3) [OF dispatch_step(6)]
  show ?case by (simp add: work_started_def)
next
  case (deferred_private_step c i ops s' ti sig cs')
  note h = handlingD [OF deferred_private_step(1)]
  have i: "i < length (calls c)" using h by simp
  have s: "s' = sch c" "cs' = (calls c)[i := (calls c ! i)\<lparr>c_info := ti\<rparr>]"
    using deferred_private_step(2,4,5) by (auto simp: post_deferred_completions_def elim: deliver_noneE split: if_splits)
  have "wake_inv (c\<lparr>sch := s', calls := cs', credits := credits c - counted D ops, pending_stops := pending_stops c\<rparr>)"
    unfolding s(2) by (rule wake_inv_pc [OF deferred_private_step(8) i])
      (use h s(1) in_handler_pc wake_inv_mode [OF deferred_private_step(8) i] in
        \<open>auto simp: same_wake_def\<close>)
  then show ?case by simp
next
  case (deferred_shared_step this c ops s' this' sig cs')
  have inv: "sched_inv M D (c\<lparr>sch := s', calls := cs', credits := credits c - counted D ops\<rparr>)"
    using sched_inv_step [OF step.deferred_shared_step [OF deferred_shared_step(1-4)] deferred_shared_step(6)] .
  show ?case
  proof (cases "ops = []")
    case True
    with deferred_shared_step(3,4) have "s' = sch c" "cs' = calls c"
      by (auto simp: post_deferred_completions_def elim: deliver_noneE)
    with True deferred_shared_step(7) show ?thesis by simp
  next
    case False
    have k: "wake_one_thread_and_unlock ((sch c)\<lparr>ready_queue := ready_queue (sch c) @ map Op ops\<rparr>) = (s', sig)"
      using deferred_shared_step(1,3) False
      by (auto simp: post_deferred_completions_def split: prod.splits option.splits if_splits)
    from wake_inv_post [OF deferred_shared_step(7) inv deferred_shared_step(4) k] wake_invD(3) [OF deferred_shared_step(7)]
    show ?thesis by simp
  qed
next
  case (work_started_step c)
  from wake_inv_same [OF work_started_step(3), of "work_started (sch c)", where cr = "Suc (credits c)" and ps = "pending_stops c"]
  show ?case by (simp add: same_wake_def work_started_def)
next
  case (work_finished_step c s' stop)
  then have "same_wake (sch c) s'"
    by (auto simp: same_wake_def work_finished_def Let_def)
  from wake_inv_same [OF work_finished_step(5) this] show ?case .
next
  case (stop_step c s' sig cs')
  from wake_inv_stop [OF stop_step(5,1,2)] show ?case .
next
  case (restart_step c)
  then show ?case
    by (auto simp: wake_inv_def restart_def guarded_def split: if_splits)
next
  case (handler_done_step i c m n x s' ti stop)
  have m: "m = Run \<or> m = Poll"
    using wake_inv_mode [OF handler_done_step(8,1)] handler_done_step(2) by (simp add: pc_mode_ok_def)
  have s: "same_wake (sch c) s'"
    using handler_done_step(5)
    by (auto simp: same_wake_def work_cleanup_count_def work_finished_def Let_def split: if_splits)
  have "wake_inv (c\<lparr>sch := s', calls := (calls c)[i := (calls c ! i)
      \<lparr>c_pc := if private_op_queue ti \<noteq> [] then Flushing m n else after_handler m n, c_info := ti\<rparr>],
      credits := credits c, pending_stops := pending_stops c + of_bool stop\<rparr>)"
    by (rule wake_inv_pc [OF handler_done_step(8,1) s])
      (use handler_done_step(2) m in \<open>auto simp: active_def pc_mode_ok_def after_handler_def\<close>)
  then show ?case by simp
next
  case (flush_step i c m n s' ti)
  from wake_inv_flush [OF flush_step(6,1,2,3)] show ?case .
next
  case (init_task_step c s' sig cs')
  have inv: "sched_inv M D (c\<lparr>sch := s', calls := cs', credits := credits c\<rparr>)"
    using sched_inv_step [OF step.init_task_step [OF init_task_step(1,2)] init_task_step(4)] by simp
  show ?case
  proof (cases "\<not> shut_down_flag (sch c) \<and> \<not> task_set (sch c)")
    case True
    then have k: "wake_one_thread_and_unlock
        ((sch c)\<lparr>task_set := True, ready_queue := ready_queue (sch c) @ [TaskOp]\<rparr>) = (s', sig)"
      using init_task_step(1) by (simp add: init_task_def)
    from wake_inv_post [OF init_task_step(5) inv init_task_step(2) k] show ?thesis by simp
  next
    case False
    then have "s' = sch c" "cs' = calls c"
      using init_task_step(1,2) by (auto simp: init_task_def elim: deliver_noneE)
    with init_task_step(5) show ?thesis by simp
  qed
qed

lemma wake_inv_reachable:
  "reachable M D a c \<Longrightarrow> M \<subseteq> {Run, Poll} \<Longrightarrow> sched_inv M D a \<Longrightarrow> wake_inv a \<Longrightarrow> wake_inv c"
  by (induction rule: reachable.induct) (auto intro: wake_inv_step dest: sched_inv_reachable)

lemma wake_inv_initial:
  "hint \<noteq> 1 \<Longrightarrow> hint_is_locking locking_scheduler hint \<Longrightarrow> hint_is_locking locking_reactor_io hint \<Longrightarrow>
     wake_inv (initial hint k)"
  by (auto simp: wake_inv_def initial_def sched_new_def idle_call_def pc_mode_ok_def)

end
