(* ===== verification/SchedulerProps.thy ===== *)
theory SchedulerProps
  imports SchedulerWake
begin

text \<open>The properties of the scheduler.\<close>

lemma load_bounds:
  assumes "call_ok False D k"
  shows "0 \<le> load D k" and "load D k = 0 \<longleftrightarrow>
    \<not> (in_handler (c_pc k) \<and> c_phase k = Owner) \<and> counted D (private_op_queue (c_info k)) = 0"
  using assms by (auto simp: call_ok_def backed_def load_def split: phase.splits if_splits)

lemma csum_add: "csum (\<lambda>k. f k + g k) cs = csum f cs + csum g cs"
  by (simp add: csum_def sum_list_addf)

text \<open>C2. Outstanding work is counted exactly. In every reachable state of any number of threads, with
  nested calls of every run function and whatever set \<open>D\<close> of descriptor operations does not count as
  work, the count and what the threads are still to add to it make up the started work that is in no
  queue, the queued and private operations that count, and the handlers that have a decrement coming.
  Unless the program polls on a single-threaded scheduler, the count is not negative, and it is zero,
  which is when the scheduler stops itself, exactly when no work is started and left, no operation
  that counts is queued or private, and no handler of one runs; descriptor operations may still be
  queued.\<close>

theorem outstanding_work_zero:
  assumes "reachable M D (initial hint n) c"
  shows "outstanding_work (sch c) + csum (\<lambda>k. private_outstanding_work (c_info k)) (calls c) =
      int (credits c) + int (counted D (ops_of (ready_queue (sch c)))) +
      csum (\<lambda>k. of_bool (in_handler (c_pc k) \<and> c_phase k \<noteq> Pending) +
                int (counted D (private_op_queue (c_info k)))) (calls c) \<and>
    (\<not> one_thread (sch c) \<or> M \<inter> {Poll, PollOne} = {} \<longrightarrow>
      0 \<le> outstanding_work (sch c) \<and>
      (outstanding_work (sch c) = 0 \<longleftrightarrow>
        credits c = 0 \<and> counted D (ops_of (ready_queue (sch c))) = 0 \<and>
        (\<forall>k \<in> set (calls c). \<not> (in_handler (c_pc k) \<and> c_phase k = Owner) \<and>
                             counted D (private_op_queue (c_info k)) = 0)))"
proof (intro conjI impI)
  have inv: "sched_inv M D c"
    using sched_inv_reachable [OF assms sched_inv_initial] .
  then have e: "outstanding_work (sch c) =
      int (credits c) + int (counted D (ops_of (ready_queue (sch c)))) + csum (load D) (calls c)"
    by (simp add: sched_inv_def op_count_def)
  then show "outstanding_work (sch c) + csum (\<lambda>k. private_outstanding_work (c_info k)) (calls c) =
      int (credits c) + int (counted D (ops_of (ready_queue (sch c)))) +
      csum (\<lambda>k. of_bool (in_handler (c_pc k) \<and> c_phase k \<noteq> Pending) +
                int (counted D (private_op_queue (c_info k)))) (calls c)"
    using csum_add [of "load D" "\<lambda>k. private_outstanding_work (c_info k)" "calls c"] by (simp add: load_def)
  assume m: "\<not> one_thread (sch c) \<or> M \<inter> {Poll, PollOne} = {}"
  then have ok: "\<And>k. k \<in> set (calls c) \<Longrightarrow> call_ok False D k"
    using inv by (auto simp: sched_inv_def may_splice_def)
  then have n: "0 \<le> csum (load D) (calls c)"
    using csum_nonneg [of "calls c" "load D"] load_bounds(1) by blast
  then show "0 \<le> outstanding_work (sch c)"
    using e by simp
  have z: "csum (load D) (calls c) = 0 \<longleftrightarrow>
      (\<forall>k \<in> set (calls c). \<not> (in_handler (c_pc k) \<and> c_phase k = Owner) \<and>
                           counted D (private_op_queue (c_info k)) = 0)"
    using csum_zero_iff [of "calls c" "load D"] ok load_bounds by metis
  show "outstanding_work (sch c) = 0 \<longleftrightarrow>
      credits c = 0 \<and> counted D (ops_of (ready_queue (sch c))) = 0 \<and>
      (\<forall>k \<in> set (calls c). \<not> (in_handler (c_pc k) \<and> c_phase k = Owner) \<and>
                           counted D (private_op_queue (c_info k)) = 0)"
    unfolding z [symmetric] e using n by linarith
qed

text \<open>
  One thread's run: the reactor runs with one started operation, hands over the descriptor
  operation 9 and the user operation 5, and the thread goes on to handle 9.
\<close>

definition demo_sched :: "bool \<Rightarrow> bool \<Rightarrow> event_state \<Rightarrow> nat item list \<Rightarrow> nat sched" where
  "demo_sched t b e q = (sched_new 2)\<lparr>outstanding_work := 1, task_set := t, task_interrupted := b,
     wakeup_event := e, ready_queue := q\<rparr>"

definition demo_call :: "nat pc \<Rightarrow> nat list \<Rightarrow> phase \<Rightarrow> nat call" where
  "demo_call p ops ph = \<lparr>c_pc = p, c_info = \<lparr>private_op_queue = ops, private_outstanding_work = 0\<rparr>,
     c_phase = ph, c_outer = None\<rparr>"

definition demo_config :: "nat sched \<Rightarrow> nat call \<Rightarrow> nat \<Rightarrow> nat config" where
  "demo_config s k n = \<lparr>sch = s, calls = [k], credits = n, pending_stops = 0\<rparr>"

lemma demo_sched_simps [simp]:
  "one_thread (demo_sched t b e q) = False" "mutex_enabled (demo_sched t b e q) = True"
  "wakeup_event (demo_sched t b e q) = e" "outstanding_work (demo_sched t b e q) = 1"
  "ready_queue (demo_sched t b e q) = q" "stopped (demo_sched t b e q) = False" "task_set (demo_sched t b e q) = t"
  "task_interrupted (demo_sched t b e q) = b" "shut_down_flag (demo_sched t b e q) = False"
  "(demo_sched t b e q)\<lparr>wakeup_event := e'\<rparr> = demo_sched t b e' q"
  "(demo_sched t b e q)\<lparr>ready_queue := q'\<rparr> = demo_sched t b e q'"
  "(demo_sched t b e q)\<lparr>task_set := t'\<rparr> = demo_sched t' b e q"
  "(demo_sched t b e q)\<lparr>task_interrupted := b'\<rparr> = demo_sched t b' e q"
  by (simp_all add: demo_sched_def sched_new_def hint_is_locking_def locking_scheduler_def
      locking_reactor_io_def hint_id_def hint_id_mask_def)

lemma demo_config_simps [simp]:
  "sch (demo_config s k n) = s" "calls (demo_config s k n) = [k]" "credits (demo_config s k n) = n"
  "pending_stops (demo_config s k n) = 0"
  "(demo_config s k n)\<lparr>sch := s'\<rparr> = demo_config s' k n" "(demo_config s k n)\<lparr>calls := [k']\<rparr> = demo_config s k' n"
  "(demo_config s k n)\<lparr>credits := n'\<rparr> = demo_config s k n'"
  "(demo_config s k n)\<lparr>pending_stops := 0\<rparr> = demo_config s k n"
  by (simp_all add: demo_config_def)

lemma demo_call_simps [simp]:
  "c_pc (demo_call p ops ph) = p" "c_phase (demo_call p ops ph) = ph" "c_outer (demo_call p ops ph) = None"
  "c_info (demo_call p ops ph) = \<lparr>private_op_queue = ops, private_outstanding_work = 0\<rparr>"
  "(demo_call p ops ph)\<lparr>c_info := \<lparr>private_op_queue = ops', private_outstanding_work = 0\<rparr>\<rparr> = demo_call p ops' ph"
  "(demo_call p ops ph)\<lparr>c_pc := p', c_outer := None\<rparr> = demo_call p' ops ph"
  "enter D p' (demo_call p ops ph) = demo_call p' ops (case p' of InHandler m n x \<Rightarrow> if x \<in> D then Pending else Owner | _ \<Rightarrow> Owner)"
  by (simp_all add: demo_call_def idle_call_def info_new_def enter_def)

lemma demo_idle: "idle_call = demo_call (Returned 0) [] Owner"
  by (simp add: demo_call_def idle_call_def info_new_def)

lemma demo_run:
  "reachable {Run} {9} (initial 2 1)
     (demo_config (demo_sched True True 1 [Op 5, TaskOp]) (demo_call (InHandler Run 0 9) [] Pending) 0)"
proof -
  let ?r = "demo_call (Returned 0) [] Owner"
  let ?l = "demo_call (Locking Run 0) [] Owner"
  let ?t = "\<lambda>ops. demo_call (InTask Run 0 (- 1)) ops Owner"
  have w: "step {Run} {9} (initial 2 1) (demo_config (demo_sched False True 0 []) ?r 1)"
    using work_started_step [of "{Run}" "{9 :: nat}" "initial 2 1"]
    by (simp add: initial_def demo_config_def work_started_def demo_sched_def sched_new_def event_new_def demo_idle)
  have i: "step {Run} {9} (demo_config (demo_sched False True 0 []) ?r 1)
      (demo_config (demo_sched True True 1 [TaskOp]) ?r 1)"
    using init_task_step [of "demo_config (demo_sched False True 0 []) ?r 1" "demo_sched True True 1 [TaskOp]" NoSignal "[?r]" "{Run}" "{9}"]
    by (simp add: init_task_def wake_one_thread_and_unlock_def deliver_none
        cev_maybe_unlock_and_signal_one_def ev_maybe_unlock_and_signal_one_def interrupt_task_def)
  have b: "step {Run} {9} (demo_config (demo_sched True True 1 [TaskOp]) ?r 1)
      (demo_config (demo_sched True True 1 [TaskOp]) ?l 1)"
    using begin_step [of 0 "demo_config (demo_sched True True 1 [TaskOp]) ?r 1" 0 Run "{Run}" None "Locking Run 0" False "{9}"]
    by (simp add: may_nest_def begin_call_def demo_idle)
  have l: "step {Run} {9} (demo_config (demo_sched True True 1 [TaskOp]) ?l 1)
      (demo_config (demo_sched True False 1 []) (?t []) 1)"
    using lock_step [of 0 "demo_config (demo_sched True True 1 [TaskOp]) ?l 1" Run 0 "demo_sched True False 1 []"
        "InTask Run 0 (- 1)" NoSignal "{9}" "[?t []]" "{Run}"]
    by (simp add: takes_outer_def next_round_def run_round_def start_task_def deliver_none)
  have e: "step {Run} {9} (demo_config (demo_sched True False 1 []) (?t []) 1)
      (demo_config (demo_sched True False 1 []) (?t [9, 5]) 0)"
    using task_emit_step [of 0 "demo_config (demo_sched True False 1 []) (?t []) 1" Run 0 "- 1" "{9}" "[9, 5]" _ "{Run}"]
    by simp
  have d: "step {Run} {9} (demo_config (demo_sched True False 1 []) (?t [9, 5]) 0)
      (demo_config (demo_sched True True 1 [Op 5, TaskOp]) (demo_call (InHandler Run 0 9) [] Pending) 0)"
    using task_done_step [of 0 "demo_config (demo_sched True False 1 []) (?t [9, 5]) 0" Run 0 "- 1"
        "demo_sched True True 1 [Op 9, Op 5, TaskOp]" info_new "demo_sched True True 1 [Op 5, TaskOp]"
        "InHandler Run 0 9" NoSignal "{9}" "[demo_call (InHandler Run 0 9) [] Pending]" "{Run}"]
    by (simp add: task_cleanup_def info_new_def after_task_def run_round_def start_handler_def wake_if_more_def
        wake_one_thread_and_unlock_def cev_maybe_unlock_and_signal_one_def ev_maybe_unlock_and_signal_one_def
        interrupt_task_def deliver_none)
  show ?thesis
    by (rule reach_step [OF reach_step [OF reach_step [OF reach_step [OF reach_step [OF reach_step [OF reach_start w] i] b] l] e] d])
qed

theorem outstanding_work_zero_witness:
  "let c = demo_config (demo_sched True True 1 [Op 5, TaskOp]) (demo_call (InHandler Run 0 9) [] Pending) 0
   in outstanding_work (sch c) = int (counted {9} (ops_of (ready_queue (sch c)))) \<and>
      counted {9} (ops_of (ready_queue (sch c))) = 1 \<and> outstanding_work (sch c) \<noteq> 0"
  using outstanding_work_zero [OF demo_run] by (simp add: csum_def)

text \<open>The reactor is run by one thread at a time: once the task is initialised, its marker is in the
  queue exactly once, or exactly one call is running the reactor and the marker is not queued.\<close>

theorem task_in_one_place:
  assumes "reachable M D (initial hint n) c"
  shows "length (filter (\<lambda>i. i = TaskOp) (ready_queue (sch c))) +
      length (filter (\<lambda>k. in_task (c_pc k)) (calls c)) = (if task_set (sch c) then 1 else 0)"
proof -
  have "csum has_task cs = int (length (filter (\<lambda>k. in_task (c_pc k)) cs))" for cs :: "'a call list"
    by (induction cs) (auto simp: csum_def has_task_def)
  then have "int (length (filter (\<lambda>i. i = TaskOp) (ready_queue (sch c))) +
      length (filter (\<lambda>k. in_task (c_pc k)) (calls c))) = int (if task_set (sch c) then 1 else 0)"
    using sched_inv_reachable [OF assms sched_inv_initial] by (simp add: sched_inv_def task_count_def)
  then show ?thesis
    unfolding of_nat_eq_iff .
qed

lemma demo_init:
  "reachable M D (initial 2 1 :: nat config)
     ((initial 2 1)\<lparr>sch := (sched_new 2)\<lparr>task_set := True, ready_queue := [TaskOp], wakeup_event := Suc 0\<rparr>\<rparr>)"
proof (rule reach_step [OF reach_start])
  have e: "hint_is_locking locking_scheduler 2"
    by (simp add: hint_is_locking_def locking_scheduler_def hint_id_def hint_id_mask_def)
  have "init_task (sch (initial 2 1 :: nat config)) =
      ((sched_new 2)\<lparr>task_set := True, ready_queue := [TaskOp], wakeup_event := Suc 0\<rparr>, NoSignal)"
    by (simp add: init_task_def initial_def sched_new_def wake_one_thread_and_unlock_def e
        cev_maybe_unlock_and_signal_one_def ev_maybe_unlock_and_signal_one_def event_new_def interrupt_task_def)
  from init_task_step [OF this deliver_none] show "step M D (initial 2 1 :: nat config)
     ((initial 2 1)\<lparr>sch := (sched_new 2)\<lparr>task_set := True, ready_queue := [TaskOp], wakeup_event := Suc 0\<rparr>\<rparr>)"
    by (simp add: initial_def)
qed

theorem task_in_one_place_witness:
  "length (filter (\<lambda>k. in_task (c_pc k)) (calls ((initial 2 1 :: nat config)\<lparr>sch := (sched_new 2)
      \<lparr>task_set := True, ready_queue := [TaskOp], wakeup_event := Suc 0\<rparr>\<rparr>))) = 0"
  using task_in_one_place [OF demo_init [of UNIV "{}"]] by simp

text \<open>C3. No lost wake-up: on a thread-safe scheduler whose threads use \<open>run\<close> and \<open>poll\<close>, whenever the
  queue is not empty and the scheduler not stopped, the event is signalled and a sleeping thread has
  been woken, or a thread is about to take the mutex, or no thread sleeps and the reactor has been
  interrupted. So a ready handler never waits for an unrelated event.\<close>

theorem no_lost_wakeup:
  assumes "reachable M D (initial hint n) c" and "M \<subseteq> {Run, Poll}"
    and "hint \<noteq> 1" and "hint_is_locking locking_scheduler hint" and "hint_is_locking locking_reactor_io hint"
    and "ready_queue (sch c) \<noteq> []" and "\<not> stopped (sch c)"
  shows "(ev_signalled (wakeup_event (sch c)) \<and> (\<exists>k \<in> set (calls c). is_woken (c_pc k))) \<or>
    (\<exists>k \<in> set (calls c). active (c_pc k)) \<or>
    ((\<forall>k \<in> set (calls c). \<not> is_waiting (c_pc k)) \<and> task_interrupted (sch c))"
proof -
  have "wake_inv c"
    using wake_inv_reachable [OF assms(1,2) sched_inv_initial wake_inv_initial [OF assms(3,4,5)]] .
  from wake_invD(6) [OF this assms(7,6)] show ?thesis
    unfolding guarded_def by blast
qed

theorem no_lost_wakeup_witness:
  "let c = (initial 2 1 :: nat config)\<lparr>sch := (sched_new 2)\<lparr>task_set := True, ready_queue := [TaskOp], wakeup_event := Suc 0\<rparr>\<rparr>
   in (ev_signalled (wakeup_event (sch c)) \<and> (\<exists>k \<in> set (calls c). is_woken (c_pc k))) \<or>
    (\<exists>k \<in> set (calls c). active (c_pc k)) \<or>
    ((\<forall>k \<in> set (calls c). \<not> is_waiting (c_pc k)) \<and> task_interrupted (sch c))"
proof -
  have "(2 :: 32 word) \<noteq> 1" "hint_is_locking locking_scheduler 2" "hint_is_locking locking_reactor_io 2"
    by (simp_all add: hint_is_locking_def locking_scheduler_def locking_reactor_io_def hint_id_def hint_id_mask_def)
  from no_lost_wakeup [OF demo_init [of "{}" "{}"] _ this] show ?thesis
    by (simp add: sched_new_def)
qed

section \<open>Where a thread is left asleep\<close>

text \<open>
  Two threads, one in \<open>run_one\<close> and one in \<open>run\<close>. The first one's handler defers a continuation,
  which goes to its private queue; when \<open>run_one\<close> returns it moves that queue to the main queue and
  wakes nobody.
\<close>

definition two_hint :: "32 word" where "two_hint = 2"

definition mt_sched :: "int \<Rightarrow> event_state \<Rightarrow> nat item list \<Rightarrow> nat sched" where
  "mt_sched w e q = (sched_new two_hint)\<lparr>outstanding_work := w, wakeup_event := e, ready_queue := q\<rparr>"

definition at_pc :: "nat pc \<Rightarrow> nat call" where
  "at_pc p = idle_call\<lparr>c_pc := p\<rparr>"

definition mt_config :: "nat sched \<Rightarrow> nat call \<Rightarrow> nat call \<Rightarrow> nat config" where
  "mt_config s a b = \<lparr>sch = s, calls = [a, b], credits = 0, pending_stops = 0\<rparr>"

definition poster :: "nat call" where
  "poster = \<lparr>c_pc = InHandler RunOne 0 1, c_info = \<lparr>private_op_queue = [2], private_outstanding_work = 1\<rparr>,
             c_phase = Owner, c_outer = None\<rparr>"

lemma mt_sched_simps [simp]:
  "one_thread (mt_sched w e q) = False" "mutex_enabled (mt_sched w e q) = True"
  "wakeup_event (mt_sched w e q) = e" "outstanding_work (mt_sched w e q) = w"
  "ready_queue (mt_sched w e q) = q" "stopped (mt_sched w e q) = False" "task_set (mt_sched w e q) = False"
  "task_interrupted (mt_sched w e q) = True"
  "(mt_sched w e q)\<lparr>outstanding_work := w'\<rparr> = mt_sched w' e q"
  "(mt_sched w e q)\<lparr>wakeup_event := e'\<rparr> = mt_sched w e' q"
  "(mt_sched w e q)\<lparr>ready_queue := q'\<rparr> = mt_sched w e q'"
  by (simp_all add: mt_sched_def sched_new_def two_hint_def hint_is_locking_def locking_scheduler_def
      locking_reactor_io_def hint_id_def hint_id_mask_def)

lemma mt_config_simps [simp]:
  "sch (mt_config s a b) = s" "calls (mt_config s a b) = [a, b]" "credits (mt_config s a b) = 0"
  "pending_stops (mt_config s a b) = 0"
  "(mt_config s a b)\<lparr>sch := s'\<rparr> = mt_config s' a b"
  "(mt_config s a b)\<lparr>calls := [a', b']\<rparr> = mt_config s a' b'"
  "(mt_config s a b)\<lparr>credits := 0\<rparr> = mt_config s a b"
  "(mt_config s a b)\<lparr>pending_stops := 0\<rparr> = mt_config s a b"
  "(mt_config s a b)\<lparr>sch := s', calls := [a', b']\<rparr> = mt_config s' a' b'"
  by (simp_all add: mt_config_def)

lemma at_pc_simps [simp]: "c_pc (at_pc p) = p" "c_info (at_pc p) = info_new" "c_phase (at_pc p) = Owner"
    "c_outer (at_pc p) = None" "(at_pc p)\<lparr>c_pc := p'\<rparr> = at_pc p'" "idle_call\<lparr>c_pc := p\<rparr> = at_pc p"
    "(at_pc p)\<lparr>c_outer := None\<rparr> = at_pc p" "enter {} p' (at_pc p) = at_pc p'"
  by (simp_all add: at_pc_def idle_call_def enter_def split: pc.splits)

lemma lost_wakeup_run:
  defines "M \<equiv> {Run, RunOne}" and "r \<equiv> at_pc (Returned 0)"
  shows "step M {} (mt_config (mt_sched 0 0 []) r r) (mt_config (mt_sched 1 1 [Op 1]) r r)"
    and "step M {} (mt_config (mt_sched 1 1 [Op 1]) r r) (mt_config (mt_sched 1 1 [Op 1]) (at_pc (Locking RunOne 0)) r)"
    and "step M {} (mt_config (mt_sched 1 1 [Op 1]) (at_pc (Locking RunOne 0)) r)
           (mt_config (mt_sched 1 1 []) (at_pc (InHandler RunOne 0 1)) r)"
    and "step M {} (mt_config (mt_sched 1 1 []) (at_pc (InHandler RunOne 0 1)) r)
           (mt_config (mt_sched 1 1 []) (at_pc (InHandler RunOne 0 1)) (at_pc (Locking Run 0)))"
    and "step M {} (mt_config (mt_sched 1 1 []) (at_pc (InHandler RunOne 0 1)) (at_pc (Locking Run 0)))
           (mt_config (mt_sched 1 2 []) (at_pc (InHandler RunOne 0 1)) (at_pc (Waiting Run 0)))"
    and "step M {} (mt_config (mt_sched 1 2 []) (at_pc (InHandler RunOne 0 1)) (at_pc (Waiting Run 0)))
           (mt_config (mt_sched 1 2 []) poster (at_pc (Waiting Run 0)))"
    and "step M {} (mt_config (mt_sched 1 2 []) poster (at_pc (Waiting Run 0)))
           (mt_config (mt_sched 1 2 []) \<lparr>c_pc = Flushing RunOne 0, c_info = \<lparr>private_op_queue = [2],
              private_outstanding_work = 0\<rparr>, c_phase = Owner, c_outer = None\<rparr> (at_pc (Waiting Run 0)))"
    and "step M {} (mt_config (mt_sched 1 2 []) \<lparr>c_pc = Flushing RunOne 0, c_info = \<lparr>private_op_queue = [2],
              private_outstanding_work = 0\<rparr>, c_phase = Owner, c_outer = None\<rparr> (at_pc (Waiting Run 0)))
           (mt_config (mt_sched 1 2 [Op 2]) (at_pc (Returned 1)) (at_pc (Waiting Run 0)))"
proof -
  show "step M {} (mt_config (mt_sched 0 0 []) r r) (mt_config (mt_sched 1 1 [Op 1]) r r)"
    using dispatch_step [of 1 "{}" "mt_config (mt_sched 0 0 []) r r" "mt_sched 1 1 [Op 1]" NoSignal "[r, r]" M]
    by (simp add: do_dispatch_def work_started_def wake_one_thread_and_unlock_def deliver_none
        cev_maybe_unlock_and_signal_one_def ev_maybe_unlock_and_signal_one_def interrupt_task_def)
  show "step M {} (mt_config (mt_sched 1 1 [Op 1]) r r) (mt_config (mt_sched 1 1 [Op 1]) (at_pc (Locking RunOne 0)) r)"
    using begin_step [of 0 "mt_config (mt_sched 1 1 [Op 1]) r r" 0 RunOne M None "Locking RunOne 0" False "{}"]
    by (simp add: may_nest_def M_def r_def begin_call_def)
  show "step M {} (mt_config (mt_sched 1 1 [Op 1]) (at_pc (Locking RunOne 0)) r)
           (mt_config (mt_sched 1 1 []) (at_pc (InHandler RunOne 0 1)) r)"
    using lock_step [of 0 "mt_config (mt_sched 1 1 [Op 1]) (at_pc (Locking RunOne 0)) r" RunOne 0
        "mt_sched 1 1 []" "InHandler RunOne 0 1" NoSignal "{}" "[at_pc (InHandler RunOne 0 1), r]" M]
    by (simp add: takes_outer_def next_round_def run_round_def start_handler_def wake_if_more_def deliver_none)
  show "step M {} (mt_config (mt_sched 1 1 []) (at_pc (InHandler RunOne 0 1)) r)
           (mt_config (mt_sched 1 1 []) (at_pc (InHandler RunOne 0 1)) (at_pc (Locking Run 0)))"
    using begin_step [of 1 "mt_config (mt_sched 1 1 []) (at_pc (InHandler RunOne 0 1)) r" 0 Run M None "Locking Run 0" False "{}"]
    by (simp add: may_nest_def M_def r_def begin_call_def)
  show "step M {} (mt_config (mt_sched 1 1 []) (at_pc (InHandler RunOne 0 1)) (at_pc (Locking Run 0)))
           (mt_config (mt_sched 1 2 []) (at_pc (InHandler RunOne 0 1)) (at_pc (Waiting Run 0)))"
    using lock_step [of 1 "mt_config (mt_sched 1 1 []) (at_pc (InHandler RunOne 0 1)) (at_pc (Locking Run 0))" Run 0
        "mt_sched 1 2 []" "Waiting Run 0" NoSignal "{}" "[at_pc (InHandler RunOne 0 1), at_pc (Waiting Run 0)]" M]
    by (simp add: takes_outer_def next_round_def run_round_def go_to_sleep_def ev_clear_def unset_bit_0 deliver_none numeral_2_eq_2)
  show "step M {} (mt_config (mt_sched 1 2 []) (at_pc (InHandler RunOne 0 1)) (at_pc (Waiting Run 0)))
           (mt_config (mt_sched 1 2 []) poster (at_pc (Waiting Run 0)))"
    using post_private_step [of "mt_config (mt_sched 1 2 []) (at_pc (InHandler RunOne 0 1)) (at_pc (Waiting Run 0))"
        0 True 2 "{}" "mt_sched 1 2 []" "\<lparr>private_op_queue = [2], private_outstanding_work = 1\<rparr>" NoSignal
        "[poster, at_pc (Waiting Run 0)]" M]
    by (simp add: handling_def innermost_def post_immediate_completion_def info_new_def deliver_none poster_def at_pc_def idle_call_def)
  show "step M {} (mt_config (mt_sched 1 2 []) poster (at_pc (Waiting Run 0)))
           (mt_config (mt_sched 1 2 []) \<lparr>c_pc = Flushing RunOne 0, c_info = \<lparr>private_op_queue = [2],
              private_outstanding_work = 0\<rparr>, c_phase = Owner, c_outer = None\<rparr> (at_pc (Waiting Run 0)))"
    using handler_done_step [of 0 "mt_config (mt_sched 1 2 []) poster (at_pc (Waiting Run 0))" RunOne 0 1
        "mt_sched 1 2 []" "\<lparr>private_op_queue = [2], private_outstanding_work = 0\<rparr>" False M "{}"]
    by (simp add: innermost_def work_cleanup_count_def poster_def)
  show "step M {} (mt_config (mt_sched 1 2 []) \<lparr>c_pc = Flushing RunOne 0, c_info = \<lparr>private_op_queue = [2],
              private_outstanding_work = 0\<rparr>, c_phase = Owner, c_outer = None\<rparr> (at_pc (Waiting Run 0)))
           (mt_config (mt_sched 1 2 [Op 2]) (at_pc (Returned 1)) (at_pc (Waiting Run 0)))"
    using flush_step [of 0 "mt_config (mt_sched 1 2 []) \<lparr>c_pc = Flushing RunOne 0, c_info = \<lparr>private_op_queue = [2],
              private_outstanding_work = 0\<rparr>, c_phase = Owner, c_outer = None\<rparr> (at_pc (Waiting Run 0))" RunOne 0
        "mt_sched 1 2 [Op 2]" "info_new" M "{}"]
    by (simp add: work_cleanup_queue_def info_new_def after_handler_def at_pc_def idle_call_def)
qed

text \<open>C4. With \<open>run_one\<close> a wake-up is lost: two threads reach a state in which a handler is ready, the
  scheduler is not stopped and has outstanding work, one thread sleeps on an event that is not
  signalled, and the other has returned from \<open>run_one\<close>; nothing in the scheduler wakes the sleeper.\<close>

theorem run_one_loses_wakeup:
  "\<exists>c. reachable {Run, RunOne} {} (initial two_hint 2 :: nat config) c \<and>
     ready_queue (sch c) = [Op 2] \<and> outstanding_work (sch c) = 1 \<and> \<not> stopped (sch c) \<and>
     \<not> ev_signalled (wakeup_event (sch c)) \<and> pending_stops c = 0 \<and>
     map c_pc (calls c) = [Returned 1, Waiting Run 0]"
proof -
  have "initial two_hint 2 = mt_config (mt_sched 0 0 []) (at_pc (Returned 0)) (at_pc (Returned 0))"
    by (simp add: initial_def mt_config_def mt_sched_def sched_new_def at_pc_def idle_call_def event_new_def numeral_2_eq_2)
  moreover have "reachable {Run, RunOne} {} (mt_config (mt_sched 0 0 []) (at_pc (Returned 0)) (at_pc (Returned 0)))
      (mt_config (mt_sched 1 2 [Op 2]) (at_pc (Returned 1)) (at_pc (Waiting Run 0)))"
    by (rule reach_step [OF _ lost_wakeup_run(8)], rule reach_step [OF _ lost_wakeup_run(7)],
        rule reach_step [OF _ lost_wakeup_run(6)], rule reach_step [OF _ lost_wakeup_run(5)],
        rule reach_step [OF _ lost_wakeup_run(4)], rule reach_step [OF _ lost_wakeup_run(3)],
        rule reach_step [OF _ lost_wakeup_run(2)], rule reach_step [OF _ lost_wakeup_run(1)], rule reach_start)
  ultimately have "reachable {Run, RunOne} {} (initial two_hint 2)
      (mt_config (mt_sched 1 2 [Op 2]) (at_pc (Returned 1)) (at_pc (Waiting Run 0)))"
    by simp
  then show ?thesis
    by (rule exI [where x = "mt_config (mt_sched 1 2 [Op 2]) (at_pc (Returned 1)) (at_pc (Waiting Run 0))", OF conjI])
      (simp add: ev_signalled_odd)
qed

section \<open>Nested polling with one thread\<close>

text \<open>
  A handler of a single-threaded scheduler posts \<open>x\<close>, calls \<open>poll\<close>, posts \<open>y\<close> and returns: the sections
  of those calls in their order, on the thread info of the running handler.
\<close>

definition post_one :: "'o \<Rightarrow> 'o sched \<times> 'o thread_info \<Rightarrow> 'o sched \<times> 'o thread_info" where
  "post_one x st = (case post_immediate_completion x False (Some (snd st)) (fst st) of
     (s, Some ti, _) \<Rightarrow> (s, ti) | (s, None, _) \<Rightarrow> (s, snd st))"

text \<open>A nested \<open>poll\<close> that finds one handler with no effect on the scheduler, and then an empty queue.\<close>

definition nested_poll :: "'o sched \<times> 'o thread_info \<Rightarrow> 'o sched \<times> 'o thread_info" where
  "nested_poll st =
     (case begin_call (fst st) Poll of
        (Locking m n, _) \<Rightarrow>
          let (s1, outer) = poll_take_outer (fst st) (snd st) in
          (case next_round s1 m n of
             (s2, InHandler m' n' x, _) \<Rightarrow>
               let (s3, ti, stop) = work_cleanup_count s2 info_new;
                   s4 = (if stop then fst (sched_stop s3) else s3)
               in (case next_round s4 m' (bump n') of (s5, _, _) \<Rightarrow> (s5, outer))
           | (s2, _, _) \<Rightarrow> (s2, outer))
      | (_, _) \<Rightarrow> st)"

definition end_handler :: "'o sched \<times> 'o thread_info \<Rightarrow> 'o sched \<times> 'o thread_info" where
  "end_handler st =
     (let (s1, ti, stop) = work_cleanup_count (fst st) (snd st);
          s2 = (if stop then fst (sched_stop s1) else s1)
      in work_cleanup_queue s2 ti)"

lemma post_one_single:
  "one_thread s \<Longrightarrow> post_one x (s, ti) =
     (s, ti\<lparr>private_outstanding_work := private_outstanding_work ti + 1, private_op_queue := private_op_queue ti @ [x]\<rparr>)"
  by (simp add: post_one_def post_immediate_completion_def)

lemma stop_fields [simp]:
  "stopped (fst (sched_stop s))" "one_thread (fst (sched_stop s)) = one_thread s"
  "ready_queue (fst (sched_stop s)) = ready_queue s" "outstanding_work (fst (sched_stop s)) = outstanding_work s"
  by (simp_all add: sched_stop_def stop_all_threads_def Let_def split: prod.splits)

lemma nested_poll_effect:
  assumes "one_thread s" and "ready_queue s = []" and "outstanding_work s = 1" and "\<not> stopped s"
    and "private_op_queue ti = [x]"
  shows "\<exists>s'. nested_poll (s, ti) = (s', ti\<lparr>private_op_queue := []\<rparr>) \<and> one_thread s' \<and> stopped s' \<and>
    ready_queue s' = [] \<and> outstanding_work s' = 0"
proof -
  let ?s2 = "s\<lparr>ready_queue := []\<rparr>"
  let ?s3 = "s\<lparr>ready_queue := [], outstanding_work := 0\<rparr>"
  let ?s4 = "fst (sched_stop ?s3)"
  have b: "begin_call s Poll = (Locking Poll 0, False)"
    using assms(3) by (simp add: begin_call_def)
  have o: "poll_take_outer s ti = (s\<lparr>ready_queue := [Op x]\<rparr>, ti\<lparr>private_op_queue := []\<rparr>)"
    using assms by (simp add: poll_take_outer_def)
  have n: "next_round (s\<lparr>ready_queue := [Op x]\<rparr>) Poll 0 = (?s2, InHandler Poll 0 x, NoSignal)"
    using assms by (simp add: next_round_def poll_round_def start_handler_def wake_if_more_def)
  have w: "work_cleanup_count ?s2 info_new = (?s3, info_new, True)"
    using assms by (simp add: work_cleanup_count_def work_finished_def info_new_def)
  have e: "next_round ?s4 Poll (bump 0) = (?s4, Returned (bump 0), NoSignal)"
    by (simp add: next_round_def poll_round_def)
  have "nested_poll (s, ti) = (?s4, ti\<lparr>private_op_queue := []\<rparr>)"
    by (simp add: nested_poll_def b o n w e)
  then show ?thesis
    using assms(1) by (intro exI [of _ ?s4]) simp
qed

text \<open>In the single-threaded case a nested \<open>poll\<close> runs operations of the enclosing handler whose work
  is not yet in the shared count, so the count reaches zero and the scheduler is stopped while the
  enclosing handler still runs: an operation that this handler posts afterwards stays in the queue,
  with outstanding work, when \<open>run\<close> returns.\<close>

theorem nested_poll_stops:
  assumes "one_thread s" and "ready_queue s = []" and "outstanding_work s = 1" and "\<not> stopped s"
  shows "\<exists>s' ti. end_handler (post_one y (nested_poll (post_one x (s, info_new)))) = (s', ti) \<and>
    stopped s' \<and> ready_queue s' = [Op y] \<and> outstanding_work s' = 1 \<and>
    next_round s' Run 1 = (s', Returned 1, NoSignal)"
proof -
  have p: "post_one x (s, info_new) = (s, \<lparr>private_op_queue = [x], private_outstanding_work = 1\<rparr>)"
    using post_one_single [OF assms(1), of x info_new] by (simp add: info_new_def)
  obtain s1 where n: "nested_poll (post_one x (s, info_new)) = (s1, \<lparr>private_op_queue = [], private_outstanding_work = 1\<rparr>)"
      and s1: "one_thread s1" "stopped s1" "ready_queue s1 = []" "outstanding_work s1 = 0"
    using nested_poll_effect [OF assms, of "\<lparr>private_op_queue = [x], private_outstanding_work = 1\<rparr>" x] p by auto
  let ?s2 = "s1\<lparr>outstanding_work := 1, ready_queue := [Op y]\<rparr>"
  have "end_handler (post_one y (nested_poll (post_one x (s, info_new)))) =
      (?s2, \<lparr>private_op_queue = [], private_outstanding_work = 0\<rparr>)"
    using s1 by (simp add: n post_one_single end_handler_def work_cleanup_count_def work_cleanup_queue_def)
  moreover have "next_round ?s2 Run 1 = (?s2, Returned 1, NoSignal)"
    using s1 by (simp add: next_round_def run_round_def)
  ultimately show ?thesis
    using s1 by simp
qed

theorem nested_poll_stops_witness:
  "\<exists>s' ti. end_handler (post_one 8 (nested_poll (post_one 7 ((sched_new 1)\<lparr>outstanding_work := 1\<rparr>, info_new)))) =
     (s' :: nat sched, ti) \<and> stopped s' \<and> ready_queue s' = [Op 8]"
  using nested_poll_stops [of "(sched_new 1)\<lparr>outstanding_work := 1\<rparr>" 8 7] by (auto simp: sched_new_def)

end
