(* ===== verification/Buffer.thy ===== *)
theory Buffer
  imports ErrorCodes
begin

text \<open>
  \<open>include/asio/buffer/buffer.hpp\<close>: buffers, their arithmetic, \<open>buffer()\<close>, \<open>buffer_size\<close> and
  \<open>buffer_copy\<close>. Memory is a function from addresses to bytes; a \<open>mutable_buffer\<close> or \<open>const_buffer\<close>
  is an address and a size. A buffer sequence is the list of its buffers, and \<open>baddrs\<close> the list of
  the addresses it denotes, in order.
\<close>

type_synonym byte = "8 word"
type_synonym memory = "nat \<Rightarrow> byte"

record buf =
  buf_data :: nat
  buf_size :: nat

definition addrs :: "buf \<Rightarrow> nat list" where
  "addrs b = [buf_data b ..< buf_data b + buf_size b]"

definition baddrs :: "buf list \<Rightarrow> nat list" where
  "baddrs bs = concat (map addrs bs)"

text \<open>\<open>operator+=\<close> and \<open>operator+\<close>, and \<open>buffer(b, max_size_in_bytes)\<close>.\<close>

definition buf_advance :: "buf \<Rightarrow> nat \<Rightarrow> buf" where
  "buf_advance b n =
     (let offset = (if n < buf_size b then n else buf_size b)
      in b\<lparr>buf_data := buf_data b + offset, buf_size := buf_size b - offset\<rparr>)"

definition buf_plus :: "buf \<Rightarrow> nat \<Rightarrow> buf" where
  "buf_plus b n =
     (let offset = (if n < buf_size b then n else buf_size b);
          new_data = buf_data b + offset;
          new_size = buf_size b - offset
      in \<lparr>buf_data = new_data, buf_size = new_size\<rparr>)"

definition buf_limit :: "buf \<Rightarrow> nat \<Rightarrow> buf" where
  "buf_limit b max_size =
     \<lparr>buf_data = buf_data b, buf_size = (if buf_size b < max_size then buf_size b else max_size)\<rparr>"

text \<open>
  \<open>buffer()\<close> of a range of memory, of arrays, vectors, strings and string views: the address of the
  first element, the number of elements, their size, and the bound of the overloads that have one.
  Vectors, modifiable strings and string views give the null address when they are empty.
\<close>

definition bounded_size :: "nat \<Rightarrow> nat option \<Rightarrow> nat" where
  "bounded_size sz mx = (case mx of None \<Rightarrow> sz | Some max_size \<Rightarrow> if sz < max_size then sz else max_size)"

definition buffer_of_memory :: "nat \<Rightarrow> nat \<Rightarrow> buf" where
  "buffer_of_memory data size_in_bytes = \<lparr>buf_data = data, buf_size = size_in_bytes\<rparr>"

definition buffer_of_pod_array :: "nat \<Rightarrow> nat \<Rightarrow> nat \<Rightarrow> nat option \<Rightarrow> buf" where
  "buffer_of_pod_array data n sizeof mx = \<lparr>buf_data = data, buf_size = bounded_size (n * sizeof) mx\<rparr>"

definition buffer_of_boost_array :: "nat \<Rightarrow> nat \<Rightarrow> nat \<Rightarrow> nat option \<Rightarrow> buf" where
  "buffer_of_boost_array data n sizeof mx = \<lparr>buf_data = data, buf_size = bounded_size (n * sizeof) mx\<rparr>"

definition buffer_of_std_array :: "nat \<Rightarrow> nat \<Rightarrow> nat \<Rightarrow> nat option \<Rightarrow> buf" where
  "buffer_of_std_array data n sizeof mx = \<lparr>buf_data = data, buf_size = bounded_size (n * sizeof) mx\<rparr>"

definition buffer_of_vector :: "nat \<Rightarrow> nat \<Rightarrow> nat \<Rightarrow> nat option \<Rightarrow> buf" where
  "buffer_of_vector data n sizeof mx =
     \<lparr>buf_data = (if n \<noteq> 0 then data else 0), buf_size = bounded_size (n * sizeof) mx\<rparr>"

definition buffer_of_string :: "nat \<Rightarrow> nat \<Rightarrow> nat \<Rightarrow> nat option \<Rightarrow> buf" where
  "buffer_of_string data n sizeof mx =
     \<lparr>buf_data = (if n \<noteq> 0 then data else 0), buf_size = bounded_size (n * sizeof) mx\<rparr>"

definition buffer_of_const_string :: "nat \<Rightarrow> nat \<Rightarrow> nat \<Rightarrow> nat option \<Rightarrow> buf" where
  "buffer_of_const_string data n sizeof mx = \<lparr>buf_data = data, buf_size = bounded_size (n * sizeof) mx\<rparr>"

definition buffer_of_string_view :: "nat \<Rightarrow> nat \<Rightarrow> nat \<Rightarrow> nat option \<Rightarrow> buf" where
  "buffer_of_string_view data n sizeof mx =
     \<lparr>buf_data = (if n \<noteq> 0 then data else 0), buf_size = bounded_size (n * sizeof) mx\<rparr>"

text \<open>\<open>buffer_size\<close> of a sequence.\<close>

definition buffer_size :: "buf list \<Rightarrow> nat" where
  "buffer_size bs = foldl (\<lambda>tot b. tot + buf_size b) 0 bs"

section \<open>Copying\<close>

definition memcpy :: "memory \<Rightarrow> nat \<Rightarrow> nat \<Rightarrow> nat \<Rightarrow> memory" where
  "memcpy mem target source n =
     (\<lambda>a. if target \<le> a \<and> a < target + n then mem (source + (a - target)) else mem a)"

definition buffer_copy_1 :: "memory \<Rightarrow> buf \<Rightarrow> buf \<Rightarrow> memory \<times> nat" where
  "buffer_copy_1 mem target source =
     (let n = (if buf_size target < buf_size source then buf_size target else buf_size source)
      in (if n > 0 then memcpy mem (buf_data target) (buf_data source) n else mem, n))"

fun buffer_copy_one_many_loop :: "memory \<Rightarrow> buf \<Rightarrow> buf list \<Rightarrow> nat \<Rightarrow> memory \<times> nat" where
  "buffer_copy_one_many_loop mem target [] tot = (mem, tot)"
| "buffer_copy_one_many_loop mem target (s # sources) tot =
     (if buf_size target \<noteq> 0 then
        let (mem1, bytes_copied) = buffer_copy_1 mem target s
        in buffer_copy_one_many_loop mem1 (buf_advance target bytes_copied) sources (tot + bytes_copied)
      else (mem, tot))"

definition buffer_copy_one_many :: "memory \<Rightarrow> buf \<Rightarrow> buf list \<Rightarrow> nat \<Rightarrow> memory \<times> nat" where
  "buffer_copy_one_many mem target sources max_bytes =
     buffer_copy_one_many_loop mem (buf_limit target max_bytes) sources 0"

fun buffer_copy_many_one_loop :: "memory \<Rightarrow> buf list \<Rightarrow> buf \<Rightarrow> nat \<Rightarrow> memory \<times> nat" where
  "buffer_copy_many_one_loop mem [] source tot = (mem, tot)"
| "buffer_copy_many_one_loop mem (t # targets) source tot =
     (if buf_size source \<noteq> 0 then
        let (mem1, bytes_copied) = buffer_copy_1 mem t source
        in buffer_copy_many_one_loop mem1 targets (buf_advance source bytes_copied) (tot + bytes_copied)
      else (mem, tot))"

definition buffer_copy_many_one :: "memory \<Rightarrow> buf list \<Rightarrow> buf \<Rightarrow> nat \<Rightarrow> memory \<times> nat" where
  "buffer_copy_many_one mem targets source max_bytes =
     buffer_copy_many_one_loop mem targets (buf_limit source max_bytes) 0"

text \<open>
  Two sequences, without and with a bound. An iterator with its offset is the rest of the list and
  the offset into its first buffer; the loop ends because each round leaves a buffer behind. The
  test \<open>total_bytes_copied != max_bytes_to_copy\<close> is \<open><\<close>, as the total never exceeds the bound.
\<close>

definition next_place :: "nat \<Rightarrow> buf \<Rightarrow> buf list \<Rightarrow> nat \<Rightarrow> buf list \<times> nat" where
  "next_place copied b bs offset =
     (if copied = buf_size (buf_plus b offset) then (bs, 0) else (b # bs, offset + copied))"

lemma copy_1_count [simp]: "snd (buffer_copy_1 mem t s) = min (buf_size t) (buf_size s)"
  by (simp add: buffer_copy_1_def Let_def)

lemma copy_1_countD: "(mem1, n) = buffer_copy_1 mem t s \<Longrightarrow> n = min (buf_size t) (buf_size s)"
  by (metis copy_1_count snd_conv)

lemma next_placeD: "(ts1, o1) = next_place n t ts o' \<Longrightarrow> length ts1 \<le> Suc (length ts) \<and>
    (n = buf_size (buf_plus t o') \<longrightarrow> length ts1 = length ts)"
  by (auto simp: next_place_def split: if_splits)

lemma copy_shrinks:
  assumes "(mem1, n) = buffer_copy_1 mem (buf_plus t toff) (buf_plus s soff)"
    and "(ts1, o1) = next_place n t ts toff" and "(ss1, o2) = next_place n s ss soff"
  shows "length ts1 + length ss1 < Suc (Suc (length ts + length ss))"
  using copy_1_countD [OF assms(1)] next_placeD [OF assms(2)] next_placeD [OF assms(3)] by linarith

lemma copy_max_shrinks:
  assumes "(mem1, n) = buffer_copy_1 mem (buf_plus t toff) (buf_limit (buf_plus s soff) (m - tot))"
    and "(ts1, o1) = next_place n t ts toff" and "(ss1, o2) = next_place n s ss soff" and "tot < m"
  shows "length ts1 + length ss1 + (if tot + n < m then 1 else 0) < Suc (Suc (Suc (length ts + length ss)))"
proof -
  have "n = buf_size (buf_plus t toff) \<or> n = buf_size (buf_plus s soff) \<or> n = m - tot"
    using copy_1_countD [OF assms(1)] by (auto simp: buf_limit_def min_def split: if_splits)
  moreover have "n \<le> m - tot"
    using copy_1_countD [OF assms(1)] by (auto simp: buf_limit_def split: if_splits)
  ultimately show ?thesis
    using next_placeD [OF assms(2)] next_placeD [OF assms(3)] assms(4) by (auto split: if_splits)
qed

function buffer_copy_many ::
  "memory \<Rightarrow> buf list \<Rightarrow> nat \<Rightarrow> buf list \<Rightarrow> nat \<Rightarrow> nat \<Rightarrow> memory \<times> nat" where
  "buffer_copy_many mem (t # ts) target_offset (s # ss) source_offset tot =
     (let (mem1, bytes_copied) = buffer_copy_1 mem (buf_plus t target_offset) (buf_plus s source_offset);
          (ts1, target_offset1) = next_place bytes_copied t ts target_offset;
          (ss1, source_offset1) = next_place bytes_copied s ss source_offset
      in buffer_copy_many mem1 ts1 target_offset1 ss1 source_offset1 (tot + bytes_copied))"
| "buffer_copy_many mem [] target_offset ss source_offset tot = (mem, tot)"
| "buffer_copy_many mem ts target_offset [] source_offset tot = (mem, tot)"
  by pat_completeness auto
termination
  by (relation "measure (\<lambda>(mem, ts, target_offset, ss, source_offset, tot). length ts + length ss)")
    (auto dest: copy_shrinks)

function buffer_copy_many_max ::
  "nat \<Rightarrow> memory \<Rightarrow> buf list \<Rightarrow> nat \<Rightarrow> buf list \<Rightarrow> nat \<Rightarrow> nat \<Rightarrow> memory \<times> nat" where
  "buffer_copy_many_max max_bytes mem (t # ts) target_offset (s # ss) source_offset tot =
     (if tot < max_bytes then
        let (mem1, bytes_copied) = buffer_copy_1 mem (buf_plus t target_offset)
              (buf_limit (buf_plus s source_offset) (max_bytes - tot));
            (ts1, target_offset1) = next_place bytes_copied t ts target_offset;
            (ss1, source_offset1) = next_place bytes_copied s ss source_offset
        in buffer_copy_many_max max_bytes mem1 ts1 target_offset1 ss1 source_offset1 (tot + bytes_copied)
      else (mem, tot))"
| "buffer_copy_many_max max_bytes mem [] target_offset ss source_offset tot = (mem, tot)"
| "buffer_copy_many_max max_bytes mem ts target_offset [] source_offset tot = (mem, tot)"
  by pat_completeness auto
termination
  by (relation "measure (\<lambda>(max_bytes, mem, ts, target_offset, ss, source_offset, tot).
      length ts + length ss + (if tot < max_bytes then 1 else 0))")
    (auto dest: copy_max_shrinks split del: if_split)

section \<open>What the arithmetic means\<close>

lemma length_addrs [simp]: "length (addrs b) = buf_size b"
  by (simp add: addrs_def)

lemma baddrs_simps [simp]: "baddrs [] = []" "baddrs (b # bs) = addrs b @ baddrs bs" "baddrs (bs @ cs) = baddrs bs @ baddrs cs"
  by (simp_all add: baddrs_def)

lemma addrs_plus: "addrs (buf_plus b n) = drop n (addrs b)"
  by (auto simp: addrs_def buf_plus_def Let_def)

lemma addrs_advance: "addrs (buf_advance b n) = drop n (addrs b)"
  by (auto simp: addrs_def buf_advance_def Let_def)

lemma addrs_limit: "addrs (buf_limit b n) = take n (addrs b)"
  by (auto simp: addrs_def buf_limit_def)

lemma buf_sizes [simp]: "buf_size (buf_plus b n) = buf_size b - n" "buf_size (buf_advance b n) = buf_size b - n"
    "buf_size (buf_limit b n) = min (buf_size b) n"
  by (auto simp: buf_plus_def buf_advance_def buf_limit_def Let_def)

lemma buffer_size_acc: "foldl (\<lambda>tot b. tot + buf_size b) k bs = k + length (baddrs bs)"
  by (induction bs arbitrary: k) auto

lemma buffer_size_baddrs: "buffer_size bs = length (baddrs bs)"
  by (simp add: buffer_size_def buffer_size_acc)

section \<open>What copying does\<close>

definition copied :: "memory \<Rightarrow> nat list \<Rightarrow> nat list \<Rightarrow> nat \<Rightarrow> memory \<Rightarrow> bool" where
  "copied mem T S n mem' \<longleftrightarrow> n \<le> length T \<and> n \<le> length S \<and>
     (\<forall>i < n. mem' (T ! i) = mem (S ! i)) \<and> (\<forall>a. a \<notin> set (take n T) \<longrightarrow> mem' a = mem a)"

lemma copied_zero [simp]: "copied mem T S 0 mem"
  by (simp add: copied_def)

lemma copied_append:
  "copied mem T S n mem' \<Longrightarrow> copied mem (T @ T') (S @ S') n mem'"
  by (auto simp: copied_def nth_append)

lemma copied_compose:
  assumes a: "copied mem T S n m1" and b: "copied m1 (drop n T) (drop n S) k m2"
    and d: "distinct T" and dj: "set T \<inter> set S = {}"
  shows "copied mem T S (n + k) m2"
proof -
  have n: "n \<le> length T" "n \<le> length S" "n + k \<le> length T" "n + k \<le> length S"
    using a b by (auto simp: copied_def)
  have "m2 (T ! i) = mem (S ! i)" if i: "i < n + k" for i
  proof (cases "i < n")
    case True
    have "T ! i \<notin> set (take k (drop n T))"
    proof
      assume "T ! i \<in> set (take k (drop n T))"
      then obtain j where "j < k" "T ! i = T ! (n + j)"
        using n(3) by (auto simp: in_set_conv_nth)
      with d n True show False
        by (simp add: nth_eq_iff_index_eq)
    qed
    then show ?thesis
      using a b True by (simp add: copied_def)
  next
    case False
    then obtain j where j: "i = n + j" "j < k"
      using i by (metis add_less_cancel_left le_add_diff_inverse not_less)
    have "S ! i \<notin> set (take n T)"
      using dj i n(4) by (metis disjoint_iff in_set_takeD less_le_trans nth_mem)
    then have "m1 (S ! i) = mem (S ! i)"
      using a by (simp add: copied_def)
    moreover have "m2 (T ! i) = m1 (S ! i)"
      using b j n by (simp add: copied_def)
    ultimately show ?thesis by simp
  qed
  moreover have "m2 x = mem x" if "x \<notin> set (take (n + k) T)" for x
    using a b that by (auto simp: copied_def take_add)
  ultimately show ?thesis
    using n by (simp add: copied_def)
qed

lemma memcpy_none [simp]: "memcpy mem t s 0 = mem"
  by (auto simp: memcpy_def fun_eq_iff)

lemma copy_1_copied:
  assumes "buffer_copy_1 mem t s = (mem', n)"
  shows "n = min (buf_size t) (buf_size s) \<and> copied mem (addrs t) (addrs s) n mem'"
proof -
  have n: "n = min (buf_size t) (buf_size s)"
    using copy_1_count [of mem t s] assms by simp
  have m: "mem' = memcpy mem (buf_data t) (buf_data s) n"
    using assms by (auto simp: buffer_copy_1_def Let_def split: if_splits)
  have "addrs t ! i = buf_data t + i" "addrs s ! i = buf_data s + i" if "i < n" for i
    using that n by (simp_all add: addrs_def)
  moreover have "set (take n (addrs t)) = {buf_data t ..< buf_data t + n}"
    using n by (simp add: addrs_def)
  ultimately show ?thesis
    using n by (simp add: copied_def m memcpy_def)
qed

lemma copied_rest:
  "copied mem T S n mem' \<Longrightarrow> distinct T \<Longrightarrow> set T \<inter> set S = {} \<Longrightarrow>
     distinct (drop n T) \<and> set (drop n T) \<inter> set (drop n S) = {}"
  by (auto dest: in_set_dropD)

lemma one_many_loop_copied:
  "buffer_copy_one_many_loop mem t ss tot = (mem', r) \<Longrightarrow> distinct (addrs t) \<Longrightarrow> set (addrs t) \<inter> set (baddrs ss) = {} \<Longrightarrow>
     copied mem (addrs t) (baddrs ss) (min (buf_size t) (length (baddrs ss))) mem' \<and>
     r = tot + min (buf_size t) (length (baddrs ss))"
proof (induction mem t ss tot rule: buffer_copy_one_many_loop.induct)
  case (1 mem t tot)
  then show ?case by simp
next
  case (2 mem t s ss tot)
  show ?case
  proof (cases "buf_size t = 0")
    case True
    with 2(2) show ?thesis by simp
  next
    case False
    obtain m1 n where c: "buffer_copy_1 mem t s = (m1, n)"
      by (cases "buffer_copy_1 mem t s")
    note c1 = copy_1_copied [OF c]
    have loop: "buffer_copy_one_many_loop m1 (buf_advance t n) ss (tot + n) = (mem', r)"
      using 2(2) False c by simp
    have c1': "copied mem (addrs t) (baddrs (s # ss)) n m1"
      using copied_append [OF conjunct2 [OF c1], of "[]" "baddrs ss"] by simp
    have dj: "set (addrs (buf_advance t n)) \<inter> set (baddrs ss) = {}" and di: "distinct (addrs (buf_advance t n))"
      using 2(3,4) by (auto simp: addrs_advance dest: in_set_dropD)
    note ih = 2(1) [OF False c [symmetric] refl loop di dj]
    show ?thesis
    proof (cases "buf_size t \<le> buf_size s")
      case True
      with c1 have n: "n = buf_size t" by simp
      with ih have "mem' = m1" "r = tot + n"
        by (auto simp: copied_def)
      with c1' n True show ?thesis by simp
    next
      case False
      with c1 have n: "n = buf_size s" by simp
      have "copied m1 (drop n (addrs t)) (drop n (baddrs (s # ss)))
          (min (buf_size t - n) (length (baddrs ss))) mem'"
        using ih n by (simp add: addrs_advance)
      moreover have "min (buf_size t) (length (baddrs (s # ss))) = n + min (buf_size t - n) (length (baddrs ss))"
        using n False by auto
      ultimately show ?thesis
        using copied_compose [OF c1' _ 2(3,4)] ih n by simp
    qed
  qed
qed

lemma many_one_loop_copied:
  "buffer_copy_many_one_loop mem ts s tot = (mem', r) \<Longrightarrow> distinct (baddrs ts) \<Longrightarrow> set (baddrs ts) \<inter> set (addrs s) = {} \<Longrightarrow>
     copied mem (baddrs ts) (addrs s) (min (length (baddrs ts)) (buf_size s)) mem' \<and>
     r = tot + min (length (baddrs ts)) (buf_size s)"
proof (induction mem ts s tot rule: buffer_copy_many_one_loop.induct)
  case (1 mem s tot)
  then show ?case by simp
next
  case (2 mem t ts s tot)
  show ?case
  proof (cases "buf_size s = 0")
    case True
    with 2(2) show ?thesis by simp
  next
    case False
    obtain m1 n where c: "buffer_copy_1 mem t s = (m1, n)"
      by (cases "buffer_copy_1 mem t s")
    note c1 = copy_1_copied [OF c]
    have loop: "buffer_copy_many_one_loop m1 ts (buf_advance s n) (tot + n) = (mem', r)"
      using 2(2) False c by simp
    have c1': "copied mem (baddrs (t # ts)) (addrs s) n m1"
      using copied_append [OF conjunct2 [OF c1], of "baddrs ts" "[]"] by simp
    have dj: "set (baddrs ts) \<inter> set (addrs (buf_advance s n)) = {}" and di: "distinct (baddrs ts)"
      using 2(3,4) by (auto simp: addrs_advance dest: in_set_dropD)
    note ih = 2(1) [OF False c [symmetric] refl loop di dj]
    show ?thesis
    proof (cases "buf_size s \<le> buf_size t")
      case True
      with c1 have n: "n = buf_size s" by simp
      with ih have "mem' = m1" "r = tot + n"
        by (auto simp: copied_def)
      with c1' n True show ?thesis by simp
    next
      case False
      with c1 have n: "n = buf_size t" by simp
      have "copied m1 (drop n (baddrs (t # ts))) (drop n (addrs s))
          (min (length (baddrs ts)) (buf_size s - n)) mem'"
        using ih n by (simp add: addrs_advance)
      moreover have "min (length (baddrs (t # ts))) (buf_size s) = n + min (length (baddrs ts)) (buf_size s - n)"
        using n False by auto
      ultimately show ?thesis
        using copied_compose [OF c1' _ 2(3,4)] ih n by simp
    qed
  qed
qed

text \<open>The addresses that an iterator with its offset has before it.\<close>

definition ahead :: "buf list \<Rightarrow> nat \<Rightarrow> nat list" where
  "ahead bs off = (case bs of [] \<Rightarrow> [] | b # bs' \<Rightarrow> drop off (addrs b) @ baddrs bs')"

lemma ahead_simps [simp]: "ahead [] off = []" "ahead (b # bs) off = drop off (addrs b) @ baddrs bs"
    "ahead bs 0 = baddrs bs"
  by (simp_all add: ahead_def) (cases bs; simp)

lemma ahead_next:
  "next_place n b bs off = (bs1, off1) \<Longrightarrow> n \<le> buf_size (buf_plus b off) \<Longrightarrow>
     ahead bs1 off1 = drop n (ahead (b # bs) off)"
  by (auto simp: next_place_def add.commute split: if_splits)

lemma copy_step:
  assumes c: "buffer_copy_1 mem (buf_plus t toff) s' = (m1, n)"
    and s': "addrs s' = take k (drop soff (addrs s))"
    and nt: "next_place n t ts toff = (ts1, toff1)" and ns: "next_place n s ss soff = (ss1, soff1)"
    and d: "distinct (ahead (t # ts) toff)" and dj: "set (ahead (t # ts) toff) \<inter> set (ahead (s # ss) soff) = {}"
  shows "copied mem (ahead (t # ts) toff) (ahead (s # ss) soff) n m1 \<and>
    n = min (buf_size t - toff) (min (buf_size s - soff) k) \<and>
    ahead ts1 toff1 = drop n (ahead (t # ts) toff) \<and> ahead ss1 soff1 = drop n (ahead (s # ss) soff) \<and>
    distinct (ahead ts1 toff1) \<and> set (ahead ts1 toff1) \<inter> set (ahead ss1 soff1) = {}"
proof -
  have l: "buf_size s' = min (buf_size s - soff) k"
    using arg_cong [OF s', of length] by (simp add: min.commute)
  note c1 = copy_1_copied [OF c]
  have "drop soff (addrs s) = addrs s' @ drop k (drop soff (addrs s))"
    unfolding s' by (rule append_take_drop_id [symmetric])
  then have "copied mem (addrs (buf_plus t toff)) (drop soff (addrs s)) n m1"
    using copied_append [OF conjunct2 [OF c1], of "[]" "drop k (drop soff (addrs s))"] by (metis append_Nil2)
  from copied_append [OF this, of "baddrs ts" "baddrs ss"]
  have "copied mem (ahead (t # ts) toff) (ahead (s # ss) soff) n m1"
    by (simp add: addrs_plus)
  moreover have n: "n = min (buf_size t - toff) (min (buf_size s - soff) k)"
    using c1 l by simp
  moreover have "ahead ts1 toff1 = drop n (ahead (t # ts) toff)" "ahead ss1 soff1 = drop n (ahead (s # ss) soff)"
    using ahead_next [OF nt] ahead_next [OF ns] n by simp_all
  ultimately show ?thesis
    using copied_rest [OF _ d dj, of mem n m1] by simp
qed

lemma copy_many_copied:
  "buffer_copy_many mem ts toff ss soff tot = (mem', r) \<Longrightarrow>
   distinct (ahead ts toff) \<Longrightarrow> set (ahead ts toff) \<inter> set (ahead ss soff) = {} \<Longrightarrow>
     copied mem (ahead ts toff) (ahead ss soff) (min (length (ahead ts toff)) (length (ahead ss soff))) mem' \<and>
     r = tot + min (length (ahead ts toff)) (length (ahead ss soff))"
proof (induction mem ts toff ss soff tot rule: buffer_copy_many.induct)
  case (1 mem t ts toff s ss soff tot)
  let ?T = "ahead (t # ts) toff" and ?S = "ahead (s # ss) soff"
  obtain m1 n where c: "buffer_copy_1 mem (buf_plus t toff) (buf_plus s soff) = (m1, n)"
    by (cases "buffer_copy_1 mem (buf_plus t toff) (buf_plus s soff)")
  obtain ts1 toff1 where nt: "next_place n t ts toff = (ts1, toff1)"
    by (cases "next_place n t ts toff")
  obtain ss1 soff1 where ns: "next_place n s ss soff = (ss1, soff1)"
    by (cases "next_place n s ss soff")
  have s': "addrs (buf_plus s soff) = take (buf_size s) (drop soff (addrs s))"
    by (simp add: addrs_plus)
  note st = copy_step [OF c s' nt ns 1(3,4)]
  have loop: "buffer_copy_many m1 ts1 toff1 ss1 soff1 (tot + n) = (mem', r)"
    using 1(2) by (simp add: c nt ns)
  let ?k = "min (length (drop n ?T)) (length (drop n ?S))"
  have e: "ahead ts1 toff1 = drop n ?T" "ahead ss1 soff1 = drop n ?S" "distinct (ahead ts1 toff1)"
      "set (ahead ts1 toff1) \<inter> set (ahead ss1 soff1) = {}"
    using st by blast+
  have ih: "copied m1 (drop n ?T) (drop n ?S) ?k mem' \<and> r = tot + n + ?k"
    using 1(1) [OF c [symmetric] refl nt [symmetric] refl ns [symmetric] refl loop e(3,4)] unfolding e(1,2) .
  have "n \<le> length ?T" "n \<le> length ?S"
    using conjunct1 [OF st] unfolding copied_def by blast+
  then have len: "min (length ?T) (length ?S) = n + ?k"
    unfolding length_drop by linarith
  from copied_compose [OF conjunct1 [OF st] conjunct1 [OF ih] 1(3,4)] ih show ?case
    unfolding len by (simp only: add.assoc)
qed simp_all

lemma copy_many_max_copied:
  "buffer_copy_many_max mx mem ts toff ss soff tot = (mem', r) \<Longrightarrow> tot \<le> mx \<Longrightarrow>
   distinct (ahead ts toff) \<Longrightarrow> set (ahead ts toff) \<inter> set (ahead ss soff) = {} \<Longrightarrow>
     copied mem (ahead ts toff) (ahead ss soff)
       (min (mx - tot) (min (length (ahead ts toff)) (length (ahead ss soff)))) mem' \<and>
     r = tot + min (mx - tot) (min (length (ahead ts toff)) (length (ahead ss soff)))"
proof (induction mx mem ts toff ss soff tot rule: buffer_copy_many_max.induct)
  case (1 mx mem t ts toff s ss soff tot)
  show ?case
  proof (cases "tot < mx")
    case False
    with 1(2,3) show ?thesis by simp
  next
    case True
    let ?T = "ahead (t # ts) toff" and ?S = "ahead (s # ss) soff"
    obtain m1 n where c: "buffer_copy_1 mem (buf_plus t toff) (buf_limit (buf_plus s soff) (mx - tot)) = (m1, n)"
      by (cases "buffer_copy_1 mem (buf_plus t toff) (buf_limit (buf_plus s soff) (mx - tot))")
    obtain ts1 toff1 where nt: "next_place n t ts toff = (ts1, toff1)"
      by (cases "next_place n t ts toff")
    obtain ss1 soff1 where ns: "next_place n s ss soff = (ss1, soff1)"
      by (cases "next_place n s ss soff")
    have s': "addrs (buf_limit (buf_plus s soff) (mx - tot)) = take (mx - tot) (drop soff (addrs s))"
      by (simp add: addrs_plus addrs_limit)
    note st = copy_step [OF c s' nt ns 1(4,5)]
    have loop: "buffer_copy_many_max mx m1 ts1 toff1 ss1 soff1 (tot + n) = (mem', r)"
      using 1(2) True by (simp add: c nt ns)
    have n: "n \<le> mx - tot"
      using conjunct1 [OF conjunct2 [OF st]] by linarith
    let ?k = "min (mx - (tot + n)) (min (length (drop n ?T)) (length (drop n ?S)))"
    have e: "ahead ts1 toff1 = drop n ?T" "ahead ss1 soff1 = drop n ?S" "distinct (ahead ts1 toff1)"
        "set (ahead ts1 toff1) \<inter> set (ahead ss1 soff1) = {}"
      using st by blast+
    have n': "tot + n \<le> mx"
      using n True by simp
    have ih: "copied m1 (drop n ?T) (drop n ?S) ?k mem' \<and> r = tot + n + ?k"
      using 1(1) [OF True c [symmetric] refl nt [symmetric] refl ns [symmetric] refl loop n' e(3,4)] unfolding e(1,2) .
    have "n \<le> length ?T" "n \<le> length ?S"
      using conjunct1 [OF st] unfolding copied_def by blast+
    then have len: "min (mx - tot) (min (length ?T) (length ?S)) = n + ?k"
      using n unfolding length_drop by linarith
    from copied_compose [OF conjunct1 [OF st] conjunct1 [OF ih] 1(4,5)] ih show ?thesis
      unfolding len by (simp only: add.assoc)
  qed
qed simp_all

text \<open>The dispatch of \<open>buffer_copy\<close> on single buffers and sequences.\<close>

datatype bufs = One buf | Many "buf list"

fun buf_list :: "bufs \<Rightarrow> buf list" where
  "buf_list (One b) = [b]" | "buf_list (Many bs) = bs"

fun buffer_copy_all :: "memory \<Rightarrow> bufs \<Rightarrow> bufs \<Rightarrow> memory \<times> nat" where
  "buffer_copy_all mem (One t) (One s) = buffer_copy_1 mem t s"
| "buffer_copy_all mem (One t) (Many ss) = buffer_copy_one_many mem t ss size_max"
| "buffer_copy_all mem (Many ts) (One s) = buffer_copy_many_one mem ts s size_max"
| "buffer_copy_all mem (Many ts) (Many ss) = buffer_copy_many mem ts 0 ss 0 0"

fun buffer_copy_max :: "memory \<Rightarrow> bufs \<Rightarrow> bufs \<Rightarrow> nat \<Rightarrow> memory \<times> nat" where
  "buffer_copy_max mem (One t) (One s) mx = buffer_copy_1 mem t (buf_limit s mx)"
| "buffer_copy_max mem (One t) (Many ss) mx = buffer_copy_one_many mem t ss mx"
| "buffer_copy_max mem (Many ts) (One s) mx = buffer_copy_many_one mem ts s mx"
| "buffer_copy_max mem (Many ts) (Many ss) mx = buffer_copy_many_max mx mem ts 0 ss 0 0"

lemma copy_max_copied:
  assumes "distinct (baddrs (buf_list ts))" and "set (baddrs (buf_list ts)) \<inter> set (baddrs (buf_list ss)) = {}"
    and "buffer_copy_max mem ts ss mx = (mem', n)"
  shows "n = min mx (min (length (baddrs (buf_list ts))) (length (baddrs (buf_list ss)))) \<and>
    copied mem (baddrs (buf_list ts)) (baddrs (buf_list ss)) n mem'"
proof (cases ts; cases ss)
  fix t s assume [simp]: "ts = One t" "ss = One s"
  have c: "buffer_copy_1 mem t (buf_limit s mx) = (mem', n)"
    using assms(3) by simp
  have "addrs s = addrs (buf_limit s mx) @ drop mx (addrs s)"
    unfolding addrs_limit by (rule append_take_drop_id [symmetric])
  with copied_append [OF conjunct2 [OF copy_1_copied [OF c]], of "[]" "drop mx (addrs s)"]
  show ?thesis
    using copy_1_copied [OF c] by (simp add: min.left_commute min.commute)
next
  fix t sl assume [simp]: "ts = One t" "ss = Many sl"
  have c: "buffer_copy_one_many_loop mem (buf_limit t mx) sl 0 = (mem', n)"
    using assms(3) by (simp add: buffer_copy_one_many_def)
  have "distinct (addrs (buf_limit t mx))" "set (addrs (buf_limit t mx)) \<inter> set (baddrs sl) = {}"
    using assms(1,2) by (auto simp: addrs_limit dest: in_set_takeD)
  note l = one_many_loop_copied [OF c this]
  have "addrs t = addrs (buf_limit t mx) @ drop mx (addrs t)"
    unfolding addrs_limit by (rule append_take_drop_id [symmetric])
  with copied_append [OF conjunct1 [OF l], of "drop mx (addrs t)" "[]"] l show ?thesis
    by (simp add: min.assoc min.left_commute)
next
  fix tl s assume [simp]: "ts = Many tl" "ss = One s"
  have c: "buffer_copy_many_one_loop mem tl (buf_limit s mx) 0 = (mem', n)"
    using assms(3) by (simp add: buffer_copy_many_one_def)
  have "distinct (baddrs tl)" "set (baddrs tl) \<inter> set (addrs (buf_limit s mx)) = {}"
    using assms(1,2) by (auto simp: addrs_limit dest: in_set_takeD)
  note l = many_one_loop_copied [OF c this]
  have "addrs s = addrs (buf_limit s mx) @ drop mx (addrs s)"
    unfolding addrs_limit by (rule append_take_drop_id [symmetric])
  with copied_append [OF conjunct1 [OF l], of "[]" "drop mx (addrs s)"] l show ?thesis
    by (simp add: min.commute min.left_commute)
next
  fix tl sl assume [simp]: "ts = Many tl" "ss = Many sl"
  have c: "buffer_copy_many_max mx mem tl 0 sl 0 0 = (mem', n)"
    using assms(3) by simp
  show ?thesis
    using copy_many_max_copied [OF c] assms(1,2) by simp
qed

text \<open>C5. \<open>buffer_copy\<close> with a bound, between any two of single buffers and sequences whose bytes do
  not overlap: it copies the first \<open>n\<close> bytes of the source to the first \<open>n\<close> bytes of the target, in
  order, where \<open>n\<close> is the smallest of the bound and the two sizes, returns \<open>n\<close> and changes no other
  byte.\<close>

theorem buffer_copy_copies:
  assumes "distinct (baddrs (buf_list ts))" and "set (baddrs (buf_list ts)) \<inter> set (baddrs (buf_list ss)) = {}"
  shows "\<exists>mem' n. buffer_copy_max mem ts ss mx = (mem', n) \<and>
    n = min mx (min (length (baddrs (buf_list ts))) (length (baddrs (buf_list ss)))) \<and>
    (\<forall>i < n. mem' (baddrs (buf_list ts) ! i) = mem (baddrs (buf_list ss) ! i)) \<and>
    (\<forall>a. a \<notin> set (take n (baddrs (buf_list ts))) \<longrightarrow> mem' a = mem a)"
proof -
  obtain mem' n where e: "buffer_copy_max mem ts ss mx = (mem', n)"
    by (cases "buffer_copy_max mem ts ss mx")
  from copy_max_copied [OF assms e] e show ?thesis
    by (auto simp: copied_def)
qed

definition demo_targets :: bufs where
  "demo_targets = Many [\<lparr>buf_data = 0, buf_size = 2\<rparr>, \<lparr>buf_data = 2, buf_size = 0\<rparr>, \<lparr>buf_data = 5, buf_size = 2\<rparr>]"

definition demo_sources :: bufs where
  "demo_sources = Many [\<lparr>buf_data = 20, buf_size = 3\<rparr>, \<lparr>buf_data = 30, buf_size = 4\<rparr>]"

theorem buffer_copy_copies_witness:
  "\<exists>mem' n. buffer_copy_max (\<lambda>a. of_nat a) demo_targets demo_sources 10 = (mem', n) \<and> n = 4 \<and> mem' 6 = 30"
proof -
  have a: "baddrs (buf_list demo_targets) = [0, 1, 5, 6]" "baddrs (buf_list demo_sources) = [20, 21, 22, 30, 31, 32, 33]"
    by (simp_all add: demo_targets_def demo_sources_def addrs_def upt_rec)
  have "distinct (baddrs (buf_list demo_targets))"
      "set (baddrs (buf_list demo_targets)) \<inter> set (baddrs (buf_list demo_sources)) = {}"
    by (simp_all add: a)
  from buffer_copy_copies [OF this, of "\<lambda>a. of_nat a" 10] show ?thesis
    by (auto simp: a)
qed

end
