(* ===== verification/ConsumingBuffers.thy ===== *)
theory ConsumingBuffers
  imports Buffer
begin

text \<open>
  \<open>include/asio/buffer/consuming_buffers.hpp\<close>: the part of a buffer sequence that a composed
  operation has not transferred yet: the general class, the one for a single buffer and the one for
  an array of two. They share one contract, the locale \<open>consuming\<close>: the rest of the sequence's
  addresses, what a transfer of at most so many bytes is given of it, and what consuming does.
\<close>

text \<open>\<open>prepared_buffers_max\<close> and \<open>prepared_buffers::max_buffers\<close>.\<close>

definition adapter_max_buffers :: nat where
  "adapter_max_buffers = 64"

definition prepared_max :: "nat \<Rightarrow> nat" where
  "prepared_max max_buffers = (if max_buffers < 16 then max_buffers else 16)"

record cbufs =
  cb_buffers :: "buf list"
  cb_max :: nat
  cb_total_size :: nat
  cb_consumed :: nat
  cb_next :: nat
  cb_offset :: nat

definition cbufs_new :: "nat \<Rightarrow> buf list \<Rightarrow> cbufs" where
  "cbufs_new mb bs =
     \<lparr>cb_buffers = bs, cb_max = prepared_max mb, cb_total_size = buffer_size bs, cb_consumed = 0,
      cb_next = 0, cb_offset = 0\<rparr>"

definition cbufs_empty :: "cbufs \<Rightarrow> bool" where
  "cbufs_empty cb \<longleftrightarrow> cb_consumed cb \<ge> cb_total_size cb"

fun prepare_loop :: "nat \<Rightarrow> buf list \<Rightarrow> nat \<Rightarrow> nat \<Rightarrow> buf list \<Rightarrow> buf list" where
  "prepare_loop maxb [] elem_offset max_size result = result"
| "prepare_loop maxb (b # bs) elem_offset max_size result =
     (if max_size > 0 \<and> length result < maxb then
        let next_buf = buf_plus b elem_offset;
            elem = buf_limit next_buf max_size
        in prepare_loop maxb bs 0 (max_size - buf_size elem)
             (if buf_size elem > 0 then result @ [elem] else result)
      else result)"

definition cbufs_prepare :: "cbufs \<Rightarrow> nat \<Rightarrow> buf list" where
  "cbufs_prepare cb max_size =
     prepare_loop (cb_max cb) (drop (cb_next cb) (cb_buffers cb)) (cb_offset cb) max_size []"

fun consume_loop :: "buf list \<Rightarrow> nat \<Rightarrow> nat \<Rightarrow> nat \<Rightarrow> nat \<times> nat" where
  "consume_loop [] sz next offset = (next, offset)"
| "consume_loop (b # bs) sz next offset =
     (if sz > 0 then
        let next_buf = buf_plus b offset in
        if sz < buf_size next_buf then consume_loop (b # bs) 0 next (offset + sz)
        else consume_loop bs (sz - buf_size next_buf) (next + 1) 0
      else (next, offset))"

definition cbufs_consume :: "cbufs \<Rightarrow> nat \<Rightarrow> cbufs" where
  "cbufs_consume cb sz =
     (let (next, offset) = consume_loop (drop (cb_next cb) (cb_buffers cb)) sz (cb_next cb) (cb_offset cb)
      in cb\<lparr>cb_consumed := cb_consumed cb + sz, cb_next := next, cb_offset := offset\<rparr>)"

section \<open>A single buffer, and an array of two\<close>

record cbuf1 =
  c1_buffer :: buf
  c1_consumed :: nat

definition cbuf1_new :: "buf \<Rightarrow> cbuf1" where
  "cbuf1_new b = \<lparr>c1_buffer = b, c1_consumed = 0\<rparr>"

definition cbuf1_empty :: "cbuf1 \<Rightarrow> bool" where
  "cbuf1_empty c \<longleftrightarrow> c1_consumed c \<ge> buf_size (c1_buffer c)"

definition cbuf1_prepare :: "cbuf1 \<Rightarrow> nat \<Rightarrow> buf" where
  "cbuf1_prepare c max_size = buf_limit (buf_plus (c1_buffer c) (c1_consumed c)) max_size"

definition cbuf1_consume :: "cbuf1 \<Rightarrow> nat \<Rightarrow> cbuf1" where
  "cbuf1_consume c sz = c\<lparr>c1_consumed := c1_consumed c + sz\<rparr>"

record cbuf2 =
  c2_buffer0 :: buf
  c2_buffer1 :: buf
  c2_consumed :: nat

definition cbuf2_new :: "buf \<Rightarrow> buf \<Rightarrow> cbuf2" where
  "cbuf2_new b0 b1 = \<lparr>c2_buffer0 = b0, c2_buffer1 = b1, c2_consumed = 0\<rparr>"

definition cbuf2_empty :: "cbuf2 \<Rightarrow> bool" where
  "cbuf2_empty c \<longleftrightarrow> c2_consumed c \<ge> buf_size (c2_buffer0 c) + buf_size (c2_buffer1 c)"

definition cbuf2_prepare :: "cbuf2 \<Rightarrow> nat \<Rightarrow> buf list" where
  "cbuf2_prepare c max_size =
     (let result0 = c2_buffer0 c;
          result1 = c2_buffer1 c;
          buffer0_size = buf_size result0;
          r0 = buf_limit (buf_plus result0 (c2_consumed c)) max_size;
          r1 = buf_limit (buf_plus result1
                 (if c2_consumed c < buffer0_size then 0 else c2_consumed c - buffer0_size))
                 (max_size - buf_size r0)
      in [r0, r1])"

definition cbuf2_consume :: "cbuf2 \<Rightarrow> nat \<Rightarrow> cbuf2" where
  "cbuf2_consume c sz = c\<lparr>c2_consumed := c2_consumed c + sz\<rparr>"

section \<open>The contract\<close>

text \<open>
  \<open>rest c\<close> is the list of addresses still to be transferred; \<open>ok\<close> is the representation invariant.
\<close>

locale consuming =
  fixes ok :: "'c \<Rightarrow> bool"
    and rest :: "'c \<Rightarrow> nat list"
    and is_empty :: "'c \<Rightarrow> bool"
    and prep :: "'c \<Rightarrow> nat \<Rightarrow> buf list"
    and cons :: "'c \<Rightarrow> nat \<Rightarrow> 'c"
    and consumed :: "'c \<Rightarrow> nat"
  assumes empty_law: "ok c \<Longrightarrow> is_empty c \<longleftrightarrow> rest c = []"
    and prep_law: "ok c \<Longrightarrow> baddrs (prep c m) = take (length (baddrs (prep c m))) (rest c) \<and>
      length (baddrs (prep c m)) \<le> m \<and> (0 < m \<and> rest c \<noteq> [] \<longrightarrow> baddrs (prep c m) \<noteq> [])"
    and prep_few: "ok c \<Longrightarrow> length (prep c m) \<le> 16"
    and consume_law: "ok c \<Longrightarrow> n \<le> length (rest c) \<Longrightarrow>
      ok (cons c n) \<and> rest (cons c n) = drop n (rest c) \<and> consumed (cons c n) = consumed c + n"

section \<open>The general class\<close>

definition cbufs_rest :: "cbufs \<Rightarrow> nat list" where
  "cbufs_rest cb = ahead (drop (cb_next cb) (cb_buffers cb)) (cb_offset cb)"

definition cbufs_ok :: "cbufs \<Rightarrow> bool" where
  "cbufs_ok cb \<longleftrightarrow> 0 < cb_max cb \<and> cb_max cb \<le> 16 \<and> cb_total_size cb = length (baddrs (cb_buffers cb)) \<and>
     cbufs_rest cb = drop (cb_consumed cb) (baddrs (cb_buffers cb))"

lemma baddrs_snoc_limit: "baddrs (if buf_size e > 0 then bs @ [e] else bs) = baddrs bs @ addrs e"
  by (simp add: addrs_def)

text \<open>The loop takes a prefix of what is ahead.\<close>

lemma prepare_loop_prefix:
  "\<exists>k. baddrs (prepare_loop maxb bs off m r) = baddrs r @ take k (ahead bs off) \<and>
     k \<le> m \<and> k \<le> length (ahead bs off) \<and>
     (0 < m \<and> length r < maxb \<and> ahead bs off \<noteq> [] \<longrightarrow> 0 < k)"
proof (induction maxb bs off m r rule: prepare_loop.induct)
  case (1 maxb off m r)
  then show ?case by simp
next
  case (2 maxb b bs off m r)
  show ?case
  proof (cases "m > 0 \<and> length r < maxb")
    case False
    then show ?thesis
      by (intro exI [of _ 0]) auto
  next
    case True
    define e where "e = buf_limit (buf_plus b off) m"
    define r1 where "r1 = (if buf_size e > 0 then r @ [e] else r)"
    have se: "buf_size e = min (buf_size b - off) m" and ae: "addrs e = take m (drop off (addrs b))"
      by (simp_all add: e_def addrs_limit addrs_plus)
    have loop: "prepare_loop maxb (b # bs) off m r = prepare_loop maxb bs 0 (m - buf_size e) r1"
      using True by (simp only: prepare_loop.simps Let_def e_def [symmetric] r1_def if_True simp_thms)
    obtain k where k: "baddrs (prepare_loop maxb bs 0 (m - buf_size e) r1) = baddrs r1 @ take k (ahead bs 0)"
        "k \<le> m - buf_size e" "k \<le> length (ahead bs 0)"
        "0 < m - buf_size e \<and> length r1 < maxb \<and> ahead bs 0 \<noteq> [] \<longrightarrow> 0 < k"
      using 2 [OF True refl refl] unfolding e_def [symmetric] r1_def [symmetric] by blast
    have b1: "baddrs r1 = baddrs r @ addrs e"
      unfolding r1_def by (rule baddrs_snoc_limit)
    have "addrs e @ take k (baddrs bs) = take (buf_size e + k) (ahead (b # bs) off)"
    proof (cases "buf_size b - off \<le> m")
      case True
      then show ?thesis
        by (simp add: ae se min_def)
    next
      case False
      with k(2) se have "k = 0" by simp
      with False show ?thesis
        by (simp add: ae se min_def)
    qed
    then have "baddrs (prepare_loop maxb (b # bs) off m r) = baddrs r @ take (buf_size e + k) (ahead (b # bs) off)"
      unfolding loop k(1) b1 by simp
    moreover have "buf_size e + k \<le> m"
      using k(2) se by simp
    moreover have "buf_size e + k \<le> length (ahead (b # bs) off)"
      using k(3) se by simp
    moreover have "0 < buf_size e + k" if "ahead (b # bs) off \<noteq> []"
    proof (cases "buf_size e = 0")
      case True
      then have "buf_size b - off = 0" "r1 = r"
        using \<open>m > 0 \<and> length r < maxb\<close> se by (auto simp: r1_def min_def split: if_splits)
      with that k(4) \<open>m > 0 \<and> length r < maxb\<close> True show ?thesis
        by simp
    qed simp
    ultimately show ?thesis by blast
  qed
qed

text \<open>Consuming moves to the place in the sequence that the bytes consumed lead to.\<close>

lemma consume_loop_ahead:
  "consume_loop bs sz n off = (n', off') \<Longrightarrow> sz \<le> length (ahead bs off) \<Longrightarrow>
     n \<le> n' \<and> ahead (drop (n' - n) bs) off' = drop sz (ahead bs off)"
proof (induction bs sz n off rule: consume_loop.induct)
  case (1 sz n off)
  then show ?case by simp
next
  case (2 b bs sz n off)
  show ?case
  proof (cases "sz > 0")
    case False
    with 2(3) show ?thesis by simp
  next
    case True
    show ?thesis
    proof (cases "sz < buf_size (buf_plus b off)")
      case small: True
      with 2(3) True have "n' = n" "off' = off + sz"
        by (simp_all add: Let_def)
      with small show ?thesis
        by (simp add: add.commute)
    next
      case big: False
      then have c: "consume_loop bs (sz - buf_size (buf_plus b off)) (n + 1) 0 = (n', off')"
        using 2(3) True by (simp add: Let_def)
      have l: "sz - buf_size (buf_plus b off) \<le> length (ahead bs 0)"
        using 2(4) by simp
      note ih = 2(2) [OF True refl big c l]
      then obtain d where d: "n' = n + 1 + d"
        using le_Suc_ex by blast
      show ?thesis
        using ih big by (simp add: d)
    qed
  qed
qed

lemma cbufs_prep_law:
  assumes "cbufs_ok cb"
  shows "baddrs (cbufs_prepare cb m) = take (length (baddrs (cbufs_prepare cb m))) (cbufs_rest cb) \<and>
      length (baddrs (cbufs_prepare cb m)) \<le> m \<and>
      (0 < m \<and> cbufs_rest cb \<noteq> [] \<longrightarrow> baddrs (cbufs_prepare cb m) \<noteq> [])"
proof -
  obtain k where "baddrs (cbufs_prepare cb m) = take k (cbufs_rest cb)" "k \<le> m" "k \<le> length (cbufs_rest cb)"
      "0 < m \<and> cbufs_rest cb \<noteq> [] \<longrightarrow> 0 < k"
    using prepare_loop_prefix [of "cb_max cb" "drop (cb_next cb) (cb_buffers cb)" "cb_offset cb" m "[]"] assms
    by (auto simp: cbufs_prepare_def cbufs_rest_def cbufs_ok_def)
  then show ?thesis by (auto simp: min_def)
qed

lemma prepare_loop_few: "length r \<le> maxb \<Longrightarrow> length (prepare_loop maxb bs off m r) \<le> maxb"
proof (induction maxb bs off m r rule: prepare_loop.induct)
  case (2 maxb b bs off m r)
  show ?case
  proof (cases "m > 0 \<and> length r < maxb")
    case True
    show ?thesis
      using 2(1) [OF True refl refl] True by (simp add: Let_def)
  qed (use 2(2) in auto)
qed simp

lemma cbufs_prep_few: "cbufs_ok cb \<Longrightarrow> length (cbufs_prepare cb m) \<le> 16"
  using prepare_loop_few [of "[]" "cb_max cb" "drop (cb_next cb) (cb_buffers cb)" "cb_offset cb" m]
  by (simp add: cbufs_prepare_def cbufs_ok_def)

lemma cbufs_consume_law:
  assumes "cbufs_ok cb" and "n \<le> length (cbufs_rest cb)"
  shows "cbufs_ok (cbufs_consume cb n) \<and> cbufs_rest (cbufs_consume cb n) = drop n (cbufs_rest cb) \<and>
    cb_consumed (cbufs_consume cb n) = cb_consumed cb + n"
proof -
  obtain n' off' where c: "consume_loop (drop (cb_next cb) (cb_buffers cb)) n (cb_next cb) (cb_offset cb) = (n', off')"
    by fastforce
  note a = consume_loop_ahead [OF c assms(2) [unfolded cbufs_rest_def]]
  then have "ahead (drop (n' - cb_next cb) (drop (cb_next cb) (cb_buffers cb))) off' = drop n (cbufs_rest cb)"
    unfolding cbufs_rest_def by (rule conjunct2)
  moreover have "drop (n' - cb_next cb) (drop (cb_next cb) (cb_buffers cb)) = drop n' (cb_buffers cb)"
    using conjunct1 [OF a] by simp
  ultimately have "ahead (drop n' (cb_buffers cb)) off' = drop n (cbufs_rest cb)" by simp
  with assms(1) show ?thesis
    by (simp add: cbufs_consume_def c cbufs_ok_def cbufs_rest_def add.commute)
qed

lemma cbufs_new_ok: "0 < mb \<Longrightarrow> cbufs_ok (cbufs_new mb bs) \<and> cbufs_rest (cbufs_new mb bs) = baddrs bs"
  by (simp add: cbufs_ok_def cbufs_rest_def cbufs_new_def prepared_max_def buffer_size_baddrs)

interpretation cbs: consuming cbufs_ok cbufs_rest cbufs_empty cbufs_prepare cbufs_consume cb_consumed
  by unfold_locales (simp add: cbufs_ok_def cbufs_empty_def, rule cbufs_prep_law, assumption, rule cbufs_prep_few, assumption,
      rule cbufs_consume_law)

section \<open>The two special cases\<close>

definition cbuf1_rest :: "cbuf1 \<Rightarrow> nat list" where
  "cbuf1_rest c = drop (c1_consumed c) (addrs (c1_buffer c))"

definition cbuf2_rest :: "cbuf2 \<Rightarrow> nat list" where
  "cbuf2_rest c = drop (c2_consumed c) (addrs (c2_buffer0 c) @ addrs (c2_buffer1 c))"

lemma prep_law_take:
  "baddrs p = take m xs \<Longrightarrow>
     baddrs p = take (length (baddrs p)) xs \<and> length (baddrs p) \<le> m \<and> (0 < m \<and> xs \<noteq> [] \<longrightarrow> baddrs p \<noteq> [])"
  by (auto simp: min_def)

lemma cbuf1_prepare_take: "baddrs [cbuf1_prepare c m] = take m (cbuf1_rest c)"
  by (simp add: cbuf1_prepare_def cbuf1_rest_def addrs_limit addrs_plus)

lemma cbuf2_prepare_take: "baddrs (cbuf2_prepare c m) = take m (cbuf2_rest c)"
  by (auto simp: cbuf2_prepare_def cbuf2_rest_def Let_def addrs_limit addrs_plus min_def)

interpretation cb1: consuming "\<lambda>c. True" cbuf1_rest cbuf1_empty "\<lambda>c m. [cbuf1_prepare c m]" cbuf1_consume c1_consumed
proof
  fix c :: cbuf1 and n :: nat
  show "cbuf1_empty c \<longleftrightarrow> cbuf1_rest c = []"
    by (simp add: cbuf1_empty_def cbuf1_rest_def)
  show "True \<and> cbuf1_rest (cbuf1_consume c n) = drop n (cbuf1_rest c) \<and> c1_consumed (cbuf1_consume c n) = c1_consumed c + n"
    by (simp add: cbuf1_rest_def cbuf1_consume_def add.commute)
qed (rule prep_law_take [OF cbuf1_prepare_take], simp)

interpretation cb2: consuming "\<lambda>c. True" cbuf2_rest cbuf2_empty cbuf2_prepare cbuf2_consume c2_consumed
proof
  fix c :: cbuf2 and n :: nat
  show "cbuf2_empty c \<longleftrightarrow> cbuf2_rest c = []"
    by (simp add: cbuf2_empty_def cbuf2_rest_def) linarith
  show "True \<and> cbuf2_rest (cbuf2_consume c n) = drop n (cbuf2_rest c) \<and> c2_consumed (cbuf2_consume c n) = c2_consumed c + n"
    unfolding cbuf2_rest_def cbuf2_consume_def drop_drop by (simp add: add.commute)
qed (rule prep_law_take [OF cbuf2_prepare_take], simp add: cbuf2_prepare_def Let_def)

end
