(* ===== verification/ComposedTransfer.thy ===== *)
theory ComposedTransfer
  imports ConsumingBuffers
begin

text \<open>
  \<open>include/asio/transmit/\<close>: completion conditions, the composed operations \<open>read\<close> and \<open>write\<close> over
  buffer sequences and their asynchronous forms \<open>read_op\<close> and \<open>write_op\<close>. The stream's \<open>read_some\<close>,
  \<open>write_some\<close> and their asynchronous forms are a parameter: from a state of the world and the
  prepared buffers to the new state, the number of bytes and the error code. The loop is a partial
  function, as a stream that never transfers anything keeps it running.
\<close>

section \<open>Completion conditions\<close>

definition default_max_transfer_size :: nat where
  "default_max_transfer_size = 65536"

definition adapt_completion_condition_bool :: "bool \<Rightarrow> nat" where
  "adapt_completion_condition_bool result = (if result then 0 else default_max_transfer_size)"

definition adapt_completion_condition_result :: "nat \<Rightarrow> nat" where
  "adapt_completion_condition_result result = result"

definition transfer_all :: "error_code \<Rightarrow> nat \<Rightarrow> nat" where
  "transfer_all err bytes_transferred = (if ec_failed err then 0 else default_max_transfer_size)"

definition transfer_at_least :: "nat \<Rightarrow> error_code \<Rightarrow> nat \<Rightarrow> nat" where
  "transfer_at_least minimum err bytes_transferred =
     (if ec_failed err \<or> bytes_transferred \<ge> minimum then 0 else default_max_transfer_size)"

definition transfer_exactly :: "nat \<Rightarrow> error_code \<Rightarrow> nat \<Rightarrow> nat" where
  "transfer_exactly sz err bytes_transferred =
     (if ec_failed err \<or> bytes_transferred \<ge> sz then 0
      else if sz - bytes_transferred < default_max_transfer_size then sz - bytes_transferred
      else default_max_transfer_size)"

text \<open>The completion conditions a caller can give: one of these three, or a function object, whose result is
  whether the operation is complete, or how much to transfer at most in the next step.\<close>

datatype completion = TransferAll | TransferAtLeast nat | TransferExactly nat
  | CustomBool "error_code \<Rightarrow> nat \<Rightarrow> bool" | CustomSize "error_code \<Rightarrow> nat \<Rightarrow> nat"

fun check_for_completion :: "completion \<Rightarrow> error_code \<Rightarrow> nat \<Rightarrow> nat" where
  "check_for_completion TransferAll ec tot = transfer_all ec tot"
| "check_for_completion (TransferAtLeast m) ec tot = adapt_completion_condition_result (transfer_at_least m ec tot)"
| "check_for_completion (TransferExactly m) ec tot = adapt_completion_condition_result (transfer_exactly m ec tot)"
| "check_for_completion (CustomBool f) ec tot = adapt_completion_condition_bool (f ec tot)"
| "check_for_completion (CustomSize f) ec tot = adapt_completion_condition_result (f ec tot)"

section \<open>The composed operations\<close>

type_synonym 'w some_op = "'w \<Rightarrow> buf list \<Rightarrow> 'w \<times> nat \<times> error_code"

text \<open>
  The loop of \<open>read_buffer_sequence\<close> and \<open>write_buffer_sequence\<close>, over the operations of the
  \<open>consuming_buffers\<close> class that the buffer sequence selects.
\<close>

partial_function (option) transfer_loop ::
  "('c \<Rightarrow> bool) \<Rightarrow> ('c \<Rightarrow> nat \<Rightarrow> buf list) \<Rightarrow> ('c \<Rightarrow> nat \<Rightarrow> 'c) \<Rightarrow> ('c \<Rightarrow> nat) \<Rightarrow>
   (error_code \<Rightarrow> nat \<Rightarrow> nat) \<Rightarrow> 'w some_op \<Rightarrow> 'c \<Rightarrow> 'w \<Rightarrow> error_code \<Rightarrow> ('c \<times> 'w \<times> error_code) option" where
  "transfer_loop is_empty prep cons consumed cond some_op tmp w ec =
     (if \<not> is_empty tmp then
        if cond ec (consumed tmp) \<noteq> 0 then
          case some_op w (prep tmp (cond ec (consumed tmp))) of
            (w1, n, ec1) \<Rightarrow> transfer_loop is_empty prep cons consumed cond some_op (cons tmp n) w1 ec1
        else Some (tmp, w, ec)
      else Some (tmp, w, ec))"

definition transfer_sequence ::
  "('c \<Rightarrow> bool) \<Rightarrow> ('c \<Rightarrow> nat \<Rightarrow> buf list) \<Rightarrow> ('c \<Rightarrow> nat \<Rightarrow> 'c) \<Rightarrow> ('c \<Rightarrow> nat) \<Rightarrow>
   (error_code \<Rightarrow> nat \<Rightarrow> nat) \<Rightarrow> 'w some_op \<Rightarrow> 'c \<Rightarrow> 'w \<Rightarrow> (nat \<times> 'w \<times> error_code) option" where
  "transfer_sequence is_empty prep cons consumed cond some_op tmp w =
     map_option (\<lambda>(tmp1, w1, ec). (consumed tmp1, w1, ec))
       (transfer_loop is_empty prep cons consumed cond some_op tmp w no_error)"

text \<open>A buffer sequence, by the class of \<open>consuming_buffers\<close> it selects.\<close>

datatype sequence = OneBuf buf | TwoBufs buf buf | Sequence nat "buf list"

fun seq_list :: "sequence \<Rightarrow> buf list" where
  "seq_list (OneBuf b) = [b]"
| "seq_list (TwoBufs b0 b1) = [b0, b1]"
| "seq_list (Sequence mb bs) = bs"

fun sync_transfer :: "'w some_op \<Rightarrow> sequence \<Rightarrow> completion \<Rightarrow> 'w \<Rightarrow> (nat \<times> 'w \<times> error_code) option" where
  "sync_transfer strm (OneBuf b) cond w = transfer_sequence cbuf1_empty (\<lambda>c m. [cbuf1_prepare c m]) cbuf1_consume c1_consumed
     (check_for_completion cond) strm (cbuf1_new b) w"
| "sync_transfer strm (TwoBufs b0 b1) cond w = transfer_sequence cbuf2_empty cbuf2_prepare cbuf2_consume c2_consumed
     (check_for_completion cond) strm (cbuf2_new b0 b1) w"
| "sync_transfer strm (Sequence mb bs) cond w = transfer_sequence cbufs_empty cbufs_prepare cbufs_consume cb_consumed
     (check_for_completion cond) strm (cbufs_new mb bs) w"

definition sync_read :: "'w some_op \<Rightarrow> sequence \<Rightarrow> completion \<Rightarrow> 'w \<Rightarrow> (nat \<times> 'w \<times> error_code) option" where
  "sync_read read_some buffers cond w = sync_transfer read_some buffers cond w"

definition sync_write :: "'w some_op \<Rightarrow> sequence \<Rightarrow> completion \<Rightarrow> 'w \<Rightarrow> (nat \<times> 'w \<times> error_code) option" where
  "sync_write write_some buffers cond w = sync_transfer write_some buffers cond w"

text \<open>The overloads without an error code throw.\<close>

definition read_throws :: "'w some_op \<Rightarrow> sequence \<Rightarrow> completion \<Rightarrow> 'w \<Rightarrow> ('w \<times> (error_code + nat)) option" where
  "read_throws read_some buffers cond w =
     map_option (\<lambda>(n, w1, ec). (w1, case throw_error ec of Inl e \<Rightarrow> Inl e | Inr _ \<Rightarrow> Inr n)) (sync_read read_some buffers cond w)"

definition write_throws :: "'w some_op \<Rightarrow> sequence \<Rightarrow> completion \<Rightarrow> 'w \<Rightarrow> ('w \<times> (error_code + nat)) option" where
  "write_throws write_some buffers cond w =
     map_option (\<lambda>(n, w1, ec). (w1, case throw_error ec of Inl e \<Rightarrow> Inl e | Inr _ \<Rightarrow> Inr n)) (sync_write write_some buffers cond w)"

text \<open>
  \<open>read_op\<close> and \<open>write_op\<close>: one call of the operation either starts the next operation of the stream
  on some buffers or calls the handler. The run performs what the operation starts and calls the
  operation again with its result.
\<close>

datatype op_effect = Initiate "buf list" | Complete error_code nat

definition transfer_op_call ::
  "('c \<Rightarrow> bool) \<Rightarrow> ('c \<Rightarrow> nat \<Rightarrow> buf list) \<Rightarrow> ('c \<Rightarrow> nat \<Rightarrow> 'c) \<Rightarrow> ('c \<Rightarrow> nat) \<Rightarrow>
   (error_code \<Rightarrow> nat \<Rightarrow> nat) \<Rightarrow> 'c \<Rightarrow> error_code \<Rightarrow> nat \<Rightarrow> nat \<Rightarrow> 'c \<times> op_effect" where
  "transfer_op_call is_empty prep cons consumed cond buffers ec bytes_transferred start =
     (if start = 1 then (buffers, Initiate (prep buffers (cond ec (consumed buffers))))
      else
        let buffers1 = cons buffers bytes_transferred in
        if (\<not> ec_failed ec \<and> bytes_transferred = 0) \<or> is_empty buffers1
        then (buffers1, Complete ec (consumed buffers1))
        else
          let max_size = cond ec (consumed buffers1) in
          if max_size > 0 then (buffers1, Initiate (prep buffers1 max_size))
          else (buffers1, Complete ec (consumed buffers1)))"

partial_function (option) transfer_op_run ::
  "('c \<Rightarrow> bool) \<Rightarrow> ('c \<Rightarrow> nat \<Rightarrow> buf list) \<Rightarrow> ('c \<Rightarrow> nat \<Rightarrow> 'c) \<Rightarrow> ('c \<Rightarrow> nat) \<Rightarrow>
   (error_code \<Rightarrow> nat \<Rightarrow> nat) \<Rightarrow> 'w some_op \<Rightarrow> 'c \<Rightarrow> 'w \<Rightarrow> error_code \<Rightarrow> nat \<Rightarrow> nat \<Rightarrow>
   (nat \<times> 'w \<times> error_code) option" where
  "transfer_op_run is_empty prep cons consumed cond some_op buffers w ec bytes_transferred start =
     (case transfer_op_call is_empty prep cons consumed cond buffers ec bytes_transferred start of
        (buffers1, Initiate bs) \<Rightarrow>
          (case some_op w bs of (w1, n, ec1) \<Rightarrow>
             transfer_op_run is_empty prep cons consumed cond some_op buffers1 w1 ec1 n 0)
      | (buffers1, Complete ec1 k) \<Rightarrow> Some (k, w, ec1))"

fun async_transfer :: "'w some_op \<Rightarrow> sequence \<Rightarrow> completion \<Rightarrow> 'w \<Rightarrow> (nat \<times> 'w \<times> error_code) option" where
  "async_transfer strm (OneBuf b) cond w = transfer_op_run cbuf1_empty (\<lambda>c m. [cbuf1_prepare c m]) cbuf1_consume c1_consumed
     (check_for_completion cond) strm (cbuf1_new b) w no_error 0 1"
| "async_transfer strm (TwoBufs b0 b1) cond w = transfer_op_run cbuf2_empty cbuf2_prepare cbuf2_consume c2_consumed
     (check_for_completion cond) strm (cbuf2_new b0 b1) w no_error 0 1"
| "async_transfer strm (Sequence mb bs) cond w = transfer_op_run cbufs_empty cbufs_prepare cbufs_consume cb_consumed
     (check_for_completion cond) strm (cbufs_new mb bs) w no_error 0 1"

section \<open>Streams\<close>

text \<open>
  What the documentation of \<open>SyncReadStream\<close> and \<open>SyncWriteStream\<close> promises: \<open>read_some\<close> stores the next
  bytes of the incoming data in the first bytes of the buffers, \<open>write_some\<close> appends the first bytes of
  the buffers to the outgoing data; both return how many. The world is the stream's state and the
  memory. \<open>makes_progress\<close>: with room in the buffers, of which the code prepares at most 16, some byte
  is transferred or an error returned.
\<close>

type_synonym 's world = "'s \<times> memory"

definition received :: "('s \<Rightarrow> byte list) \<Rightarrow> 's world \<Rightarrow> nat list \<Rightarrow> 's world \<Rightarrow> bool" where
  "received incoming w A w' \<longleftrightarrow> length A \<le> length (incoming (fst w)) \<and>
     incoming (fst w') = drop (length A) (incoming (fst w)) \<and>
     (\<forall>i < length A. snd w' (A ! i) = incoming (fst w) ! i) \<and> (\<forall>a. a \<notin> set A \<longrightarrow> snd w' a = snd w a)"

definition sent :: "('s \<Rightarrow> byte list) \<Rightarrow> 's world \<Rightarrow> nat list \<Rightarrow> 's world \<Rightarrow> bool" where
  "sent outgoing w A w' \<longleftrightarrow> outgoing (fst w') = outgoing (fst w) @ map (snd w) A \<and> snd w' = snd w"

definition composes :: "('w \<Rightarrow> nat list \<Rightarrow> 'w \<Rightarrow> bool) \<Rightarrow> bool" where
  "composes moved \<longleftrightarrow> (\<forall>w. moved w [] w) \<and>
     (\<forall>w A w1 B w2. moved w A w1 \<longrightarrow> moved w1 B w2 \<longrightarrow> distinct (A @ B) \<longrightarrow> moved w (A @ B) w2)"

definition moves :: "('w \<Rightarrow> nat list \<Rightarrow> 'w \<Rightarrow> bool) \<Rightarrow> 'w some_op \<Rightarrow> bool" where
  "moves moved s \<longleftrightarrow> (\<forall>w bs. distinct (baddrs bs) \<longrightarrow>
     (case s w bs of (w1, n, ec) \<Rightarrow> n \<le> length (baddrs bs) \<and> moved w (take n (baddrs bs)) w1))"

definition makes_progress :: "'w some_op \<Rightarrow> bool" where
  "makes_progress s \<longleftrightarrow> (\<forall>w bs. baddrs bs \<noteq> [] \<longrightarrow> length bs \<le> 16 \<longrightarrow> (case s w bs of (w1, n, ec) \<Rightarrow> 0 < n \<or> ec_failed ec))"

lemma received_none: "received inc w [] w"
  by (simp add: received_def)

lemma received_compose:
  assumes a: "received inc w A w1" and b: "received inc w1 B w2" and d: "distinct (A @ B)"
  shows "received inc w (A @ B) w2"
proof -
  have "snd w2 ((A @ B) ! i) = inc (fst w) ! i" if i: "i < length (A @ B)" for i
  proof (cases "i < length A")
    case True
    then have "A ! i \<notin> set B"
      using d nth_mem by fastforce
    with True a b show ?thesis
      by (simp add: received_def nth_append)
  next
    case False
    with i have "i - length A < length B" by simp
    with False a b show ?thesis
      by (simp add: received_def nth_append)
  qed
  moreover have "length (A @ B) \<le> length (inc (fst w))"
    using a b by (auto simp: received_def)
  ultimately show ?thesis
    using a b by (simp add: received_def add.commute)
qed

lemma received_composes: "composes (received inc)"
  unfolding composes_def by (blast intro: received_none received_compose)

lemma sent_composes: "composes (sent out)"
  by (simp add: composes_def sent_def)

lemma movesD:
  assumes "moves moved s" and "s w bs = (w1, n, ec)" and "distinct (baddrs bs)"
  shows "n \<le> length (baddrs bs) \<and> moved w (take n (baddrs bs)) w1"
  using assms(1) [unfolded moves_def, rule_format, OF assms(3), of w] assms(2) by simp

lemma makes_progressD:
  assumes "makes_progress s" and "s w bs = (w1, n, ec)" and "baddrs bs \<noteq> []" and "length bs \<le> 16"
  shows "0 < n \<or> ec_failed ec"
  using assms(1) [unfolded makes_progress_def, rule_format, OF assms(3,4), of w] assms(2) by simp

lemma composesD: "composes moved \<Longrightarrow> moved w [] w"
    "composes moved \<Longrightarrow> moved w A w1 \<Longrightarrow> moved w1 B w2 \<Longrightarrow> distinct (A @ B) \<Longrightarrow> moved w (A @ B) w2"
  by (simp add: composes_def) (unfold composes_def, blast)

section \<open>What the loop does\<close>

context consuming
begin

lemma transfer_loop_correct:
  fixes moved :: "'w \<Rightarrow> nat list \<Rightarrow> 'w \<Rightarrow> bool"
  assumes law: "moves moved s" and progress: "makes_progress s"
    and stops: "\<And>ec t. ec_failed ec \<Longrightarrow> cond ec t = 0" and comp: "composes moved"
  shows "ok c \<Longrightarrow> distinct (rest c) \<Longrightarrow>
    \<exists>c' w' ec' k. transfer_loop is_empty prep cons consumed cond s c w ec = Some (c', w', ec') \<and>
      k \<le> length (rest c) \<and> consumed c' = consumed c + k \<and> moved w (take k (rest c)) w' \<and>
      (k = length (rest c) \<or> cond ec' (consumed c + k) = 0) \<and>
      (\<forall>m. (\<forall>ec t. t + cond ec t \<le> max m t) \<longrightarrow> consumed c + k \<le> max m (consumed c))"
proof (induction "length (rest c)" arbitrary: c w ec rule: less_induct)
  case less
  let ?run = "transfer_loop is_empty prep cons consumed cond s"
  have stop: ?case if "?run c w ec = Some (c, w, ec)" "rest c = [] \<or> cond ec (consumed c) = 0"
    using that composesD(1) [OF comp] by (intro exI [of _ c] exI [of _ w] exI [of _ ec] exI [of _ 0]) auto
  show ?case
  proof (cases "rest c = [] \<or> cond ec (consumed c) = 0")
    case True
    then show ?thesis
      using empty_law [OF less.prems(1)] by (intro stop) (auto simp: transfer_loop.simps [of _ _ _ _ _ _ c])
  next
    case False
    define m where "m = cond ec (consumed c)"
    define P where "P = baddrs (prep c m)"
    have P: "P = take (length P) (rest c)" "length P \<le> m" "P \<noteq> []"
      using prep_law [OF less.prems(1), of m] False unfolding P_def m_def by auto
    obtain w1 n ec1 where o: "s w (prep c m) = (w1, n, ec1)"
      by (metis prod_cases3)
    have dP: "distinct P"
      using less.prems(2) P(1) by (metis distinct_take)
    from movesD [OF law o] dP have n: "n \<le> length P" and mv: "moved w (take n P) w1"
      unfolding P_def by auto
    have lP: "length P \<le> length (rest c)"
      using P(1) by (metis length_take min.cobounded1)
    have tk: "take n P = take n (rest c)"
      using n P(1) by (metis min.absorb1 take_take)
    from consume_law [OF less.prems(1), of n] n lP
    have c1: "ok (cons c n)" "rest (cons c n) = drop n (rest c)" "consumed (cons c n) = consumed c + n"
      by auto
    have run: "?run c w ec = ?run (cons c n) w1 ec1"
      using False empty_law [OF less.prems(1)] o
      by (subst transfer_loop.simps) (simp add: m_def [symmetric])
    show ?thesis
    proof (cases "n = 0")
      case True
      then have "ec_failed ec1"
        using makes_progressD [OF progress o _ prep_few [OF less.prems(1)]] P(3) by (simp add: P_def)
      then have "cond ec1 (consumed (cons c n)) = 0"
        by (rule stops)
      then have "?run (cons c n) w1 ec1 = Some (cons c n, w1, ec1)"
        by (subst transfer_loop.simps) simp
      then show ?thesis
        using run c1 True mv \<open>cond ec1 (consumed (cons c n)) = 0\<close>
        by (intro exI [of _ "cons c n"] exI [of _ w1] exI [of _ ec1] exI [of _ 0]) auto
    next
      case nz: False
      have "length (rest (cons c n)) < length (rest c)" "distinct (rest (cons c n))"
        using nz False c1 less.prems(2) by auto
      from less.hyps [OF this(1) c1(1) this(2), of w1 ec1] obtain c' w' ec' k where
        r: "?run (cons c n) w1 ec1 = Some (c', w', ec')" and
        k: "k \<le> length (rest c) - n" "consumed c' = consumed c + n + k" "moved w1 (take k (drop n (rest c))) w'"
          "k = length (rest c) - n \<or> cond ec' (consumed c + n + k) = 0" and
        b: "\<And>m. \<forall>ec t. t + cond ec t \<le> max m t \<Longrightarrow> consumed c + n + k \<le> max m (consumed c + n)"
        using c1 by (auto simp: add.assoc)
      have nk: "n + k \<le> length (rest c)"
        using k(1) n lP by linarith
      have split: "take (n + k) (rest c) = take n P @ take k (drop n (rest c))"
        by (simp add: take_add tk)
      have "moved w (take (n + k) (rest c)) w'"
        using composesD(2) [OF comp mv k(3)] less.prems(2) unfolding split [symmetric] by simp
      moreover have "consumed c + (n + k) \<le> max lim (consumed c)"
        if l: "\<forall>ec t. t + cond ec t \<le> max lim t" for lim
      proof -
        have "consumed c + n \<le> max lim (consumed c)"
          using l [rule_format, of "consumed c" ec] n P(2) by (simp add: m_def)
        with b [OF l] show ?thesis by simp
      qed
      ultimately show ?thesis
        using r run k nk by (intro exI [of _ c'] exI [of _ w'] exI [of _ ec'] exI [of _ "n + k"]) (auto simp: add.assoc)
    qed
  qed
qed

end

context consuming
begin

text \<open>The asynchronous operation is the loop, once it has something to do.\<close>

lemma transfer_op_run_loop:
  assumes law: "moves moved s" and progress: "makes_progress s"
    and stops: "\<And>ec t. ec_failed ec \<Longrightarrow> cond ec t = 0"
  shows "ok c \<Longrightarrow> distinct (rest c) \<Longrightarrow> rest c \<noteq> [] \<Longrightarrow> cond ec (consumed c) \<noteq> 0 \<Longrightarrow> start = 1 \<Longrightarrow>
    transfer_op_run is_empty prep cons consumed cond s c w ec k start =
    map_option (\<lambda>(c', w', ec'). (consumed c', w', ec')) (transfer_loop is_empty prep cons consumed cond s c w ec)"
proof (induction "length (rest c)" arbitrary: c w ec k start rule: less_induct)
  case less
  let ?run = "transfer_loop is_empty prep cons consumed cond s"
  let ?op = "transfer_op_run is_empty prep cons consumed cond s"
  define bs where "bs = prep c (cond ec (consumed c))"
  have T: "baddrs bs = take (length (baddrs bs)) (rest c)" "baddrs bs \<noteq> []"
    using prep_law [OF less.prems(1), of "cond ec (consumed c)"] less.prems unfolding bs_def by auto
  then have P: "length (baddrs bs) \<le> length (rest c)" "baddrs bs \<noteq> []" "distinct (baddrs bs)"
    using less.prems(2) by (metis length_take min.cobounded1, blast, metis distinct_take)
  obtain w1 n ec1 where o: "s w bs = (w1, n, ec1)"
    by (metis prod_cases3)
  have n: "n \<le> length (rest c)"
    using movesD [OF law o P(3)] P(1) by simp
  from consume_law [OF less.prems(1) n]
  have c1: "ok (cons c n)" "rest (cons c n) = drop n (rest c)" "consumed (cons c n) = consumed c + n"
    by auto
  have loop: "?run c w ec = ?run (cons c n) w1 ec1"
    using less.prems empty_law [OF less.prems(1)] o
    by (subst transfer_loop.simps) (simp add: bs_def)
  have op1: "?op c w ec k start = ?op c w1 ec1 n 0"
    using o less.prems(5) by (subst transfer_op_run.simps) (simp add: transfer_op_call_def bs_def)
  show ?case
  proof (cases "is_empty (cons c n) \<or> cond ec1 (consumed (cons c n)) = 0")
    case True
    have "?run (cons c n) w1 ec1 = Some (cons c n, w1, ec1)"
      using True by (subst transfer_loop.simps) auto
    moreover have "?op c w1 ec1 n 0 = Some (consumed (cons c n), w1, ec1)"
      using True by (subst transfer_op_run.simps) (auto simp: transfer_op_call_def Let_def)
    ultimately show ?thesis
      using loop op1 by simp
  next
    case False
    then have f: "\<not> ec_failed ec1"
      using stops by auto
    with makes_progressD [OF progress o P(2)] prep_few [OF less.prems(1)] bs_def have "0 < n" by blast
    have "?op c w1 ec1 n 0 = ?op (cons c n) w1 ec1 0 1"
      using False f \<open>0 < n\<close> by (simp add: transfer_op_run.simps [of _ _ _ _ _ _ c] transfer_op_run.simps [of _ _ _ _ _ _ "cons c n"] transfer_op_call_def Let_def)
    moreover have "rest (cons c n) \<noteq> []"
      using False empty_law [OF c1(1)] by simp
    moreover have "distinct (rest (cons c n))"
      using c1(2) less.prems(2) by simp
    moreover have "length (rest (cons c n)) < length (rest c)"
      using \<open>0 < n\<close> less.prems(3) c1(2) by simp
    ultimately show ?thesis
      using less.hyps [OF _ c1(1), of ec1 1 w1 0] False op1 loop by simp
  qed
qed

end

section \<open>What the conditions mean\<close>

text \<open>
  \<open>goal_met\<close>: how many of the buffers' bytes an operation that ends without an error has transferred.
\<close>

fun goal_met :: "completion \<Rightarrow> nat \<Rightarrow> nat \<Rightarrow> bool" where
  "goal_met TransferAll len k \<longleftrightarrow> k = len"
| "goal_met (TransferAtLeast m) len k \<longleftrightarrow> min m len \<le> k"
| "goal_met (TransferExactly m) len k \<longleftrightarrow> k = min m len"
| "goal_met (CustomBool f) len k \<longleftrightarrow> k = len \<or> f no_error k"
| "goal_met (CustomSize f) len k \<longleftrightarrow> k = len \<or> f no_error k = 0"

fun standard :: "completion \<Rightarrow> bool" where
  "standard (CustomBool f) \<longleftrightarrow> False"
| "standard (CustomSize f) \<longleftrightarrow> False"
| "standard cond \<longleftrightarrow> True"

lemmas condition_defs = adapt_completion_condition_result_def transfer_all_def transfer_at_least_def
  transfer_exactly_def default_max_transfer_size_def

lemma standard_stops: "standard cond \<Longrightarrow> ec_failed ec \<Longrightarrow> check_for_completion cond ec t = 0"
  by (cases cond) (simp_all add: condition_defs)

lemma exactly_bound: "\<forall>ec t. t + check_for_completion (TransferExactly m) ec t \<le> max m t"
  by (auto simp: condition_defs)

lemma goal_reached:
  assumes "standard cond" "k \<le> len" "k = len \<or> check_for_completion cond ec k = 0" "\<not> ec_failed ec"
    and "\<forall>m. (\<forall>ec t. t + check_for_completion cond ec t \<le> max m t) \<longrightarrow> k \<le> max m 0"
  shows "goal_met cond len k"
proof (cases cond)
  case (TransferExactly m)
  then have "k \<le> m"
    using assms(5) exactly_bound [of m] by auto
  with TransferExactly assms(2-4) show ?thesis
    by (auto simp: condition_defs split: if_splits)
qed (use assms in \<open>auto simp: condition_defs split: if_splits\<close>)

context consuming
begin

lemma transfer_sequence_correct:
  assumes "standard cond" and "moves moved s" and "makes_progress s"
    and "composes moved" and "ok c" "distinct (rest c)" "consumed c = 0"
  shows "\<exists>k w' ec. transfer_sequence is_empty prep cons consumed (check_for_completion cond) s c w = Some (k, w', ec) \<and>
    k \<le> length (rest c) \<and> moved w (take k (rest c)) w' \<and> (\<not> ec_failed ec \<longrightarrow> goal_met cond (length (rest c)) k)"
proof -
  obtain c' w' ec' k where
    "transfer_loop is_empty prep cons consumed (check_for_completion cond) s c w no_error = Some (c', w', ec')"
    and k: "k \<le> length (rest c)" "consumed c' = k" "moved w (take k (rest c)) w'"
      "k = length (rest c) \<or> check_for_completion cond ec' k = 0"
      "\<forall>m. (\<forall>ec t. t + check_for_completion cond ec t \<le> max m t) \<longrightarrow> k \<le> max m 0"
    using transfer_loop_correct [where moved = moved and s = s and cond = "check_for_completion cond" and w = w and ec = no_error,
        OF assms(2,3) standard_stops [OF assms(1)] assms(4-6)] unfolding assms(7) by auto
  then show ?thesis
    using goal_reached [OF assms(1) k(1,4) _ k(5)] by (auto simp: transfer_sequence_def)
qed

end

lemma new_rests [simp]:
  "cbuf1_rest (cbuf1_new b) = addrs b" "c1_consumed (cbuf1_new b) = 0"
  "cbuf2_rest (cbuf2_new b0 b1) = addrs b0 @ addrs b1" "c2_consumed (cbuf2_new b0 b1) = 0"
  "cb_consumed (cbufs_new mb bs) = 0"
  by (simp_all add: cbuf1_rest_def cbuf1_new_def cbuf2_rest_def cbuf2_new_def cbufs_new_def)

fun seq_ok :: "sequence \<Rightarrow> bool" where
  "seq_ok (Sequence mb bs) \<longleftrightarrow> 0 < mb"
| "seq_ok bs \<longleftrightarrow> True"

lemma sync_transfer_correct:
  fixes moved :: "'w \<Rightarrow> nat list \<Rightarrow> 'w \<Rightarrow> bool"
  assumes "standard cond" and "moves moved s" and "makes_progress s"
    and "composes moved" and "seq_ok bs" "distinct (baddrs (seq_list bs))"
  shows "\<exists>k w' ec. sync_transfer s bs cond w = Some (k, w', ec) \<and>
    k \<le> length (baddrs (seq_list bs)) \<and> moved w (take k (baddrs (seq_list bs))) w' \<and>
    (\<not> ec_failed ec \<longrightarrow> goal_met cond (length (baddrs (seq_list bs))) k)"
proof (cases bs)
  case (OneBuf b)
  then show ?thesis
    using cb1.transfer_sequence_correct [OF assms(1-4), where c = "cbuf1_new b"] assms(6)
    by simp
next
  case (TwoBufs b0 b1)
  then show ?thesis
    using cb2.transfer_sequence_correct [OF assms(1-4), where c = "cbuf2_new b0 b1"] assms(6)
    by simp
next
  case (Sequence mb l)
  then have n: "cbufs_ok (cbufs_new mb l)" "cbufs_rest (cbufs_new mb l) = baddrs l"
    using cbufs_new_ok [of mb l] assms(5) by auto
  then show ?thesis
    using cbs.transfer_sequence_correct [OF assms(1-4), where c = "cbufs_new mb l"] assms(6) Sequence
    by simp
qed


context consuming
begin

lemma op_run_is_sequence:
  assumes "standard cond" and "moves moved s" and "makes_progress s"
    and "ok c" "distinct (rest c)" "rest c \<noteq> []" "check_for_completion cond no_error (consumed c) \<noteq> 0"
  shows "transfer_op_run is_empty prep cons consumed (check_for_completion cond) s c w no_error 0 1 =
    transfer_sequence is_empty prep cons consumed (check_for_completion cond) s c w"
  unfolding transfer_sequence_def
  by (rule transfer_op_run_loop [where cond = "check_for_completion cond" and start = 1,
        OF assms(2,3) standard_stops [OF assms(1)] assms(4-7) refl])

end

lemma async_sync:
  assumes "standard cond" and "moves moved s" and "makes_progress s" and "seq_ok bs"
    and "distinct (baddrs (seq_list bs))" "baddrs (seq_list bs) \<noteq> []" "check_for_completion cond no_error 0 \<noteq> 0"
  shows "async_transfer s bs cond w = sync_transfer s bs cond w"
proof (cases bs)
  case (OneBuf b)
  then show ?thesis
    using cb1.op_run_is_sequence [OF assms(1-3), where c = "cbuf1_new b"] assms by simp
next
  case (TwoBufs b0 b1)
  then show ?thesis
    using cb2.op_run_is_sequence [OF assms(1-3), where c = "cbuf2_new b0 b1"] assms by simp
next
  case (Sequence mb l)
  then have n: "cbufs_ok (cbufs_new mb l)" "cbufs_rest (cbufs_new mb l) = baddrs l"
    using cbufs_new_ok [of mb l] assms(4) by auto
  then show ?thesis
    using cbs.op_run_is_sequence [OF assms(1-3), where c = "cbufs_new mb l"] assms Sequence by simp
qed

text \<open>C6. \<open>read\<close> into any kind of buffer sequence, with any of the three completion conditions, from a
  stream that makes progress: it returns; the bytes it reports are the next ones of the incoming data,
  stored in order in the first bytes of the sequence, and nothing else is written; and without an error
  it has read all the buffers' bytes, at least the minimum of them, or exactly the number asked for.\<close>

theorem sync_read_correct:
  assumes "standard cond" and "moves (received incoming) read_some" and "makes_progress read_some"
    and "seq_ok bs" and "distinct (baddrs (seq_list bs))"
  shows "\<exists>k w' ec. sync_read read_some bs cond w = Some (k, w', ec) \<and> k \<le> length (baddrs (seq_list bs)) \<and>
    received incoming w (take k (baddrs (seq_list bs))) w' \<and>
    (\<not> ec_failed ec \<longrightarrow> goal_met cond (length (baddrs (seq_list bs))) k)"
  unfolding sync_read_def
  using sync_transfer_correct [OF assms(1-3) received_composes assms(4,5)] .

text \<open>C7. \<open>write\<close> likewise: it returns, has appended exactly the first bytes of the sequence, in order,
  to the outgoing data, as many as it reports, and meets its completion condition unless it failed.\<close>

theorem sync_write_correct:
  assumes "standard cond" and "moves (sent outgoing) write_some" and "makes_progress write_some"
    and "seq_ok bs" and "distinct (baddrs (seq_list bs))"
  shows "\<exists>k s' ec. sync_write write_some bs cond (s, mem) = Some (k, (s', mem), ec) \<and>
    outgoing s' = outgoing s @ map mem (take k (baddrs (seq_list bs))) \<and> k \<le> length (baddrs (seq_list bs)) \<and>
    (\<not> ec_failed ec \<longrightarrow> goal_met cond (length (baddrs (seq_list bs))) k)"
proof -
  obtain k w' ec where r: "sync_transfer write_some bs cond (s, mem) = Some (k, w', ec)"
      "k \<le> length (baddrs (seq_list bs))" "sent outgoing (s, mem) (take k (baddrs (seq_list bs))) w'"
      "\<not> ec_failed ec \<longrightarrow> goal_met cond (length (baddrs (seq_list bs))) k"
    using sync_transfer_correct [OF assms(1-3) sent_composes assms(4,5)] by blast
  then show ?thesis
    by (cases w') (auto simp: sync_write_def sent_def)
qed

text \<open>C8. The asynchronous \<open>read_op\<close> and \<open>write_op\<close>, called back with the result of each operation they
  start, end in the state, with the count and the error code, of the synchronous loop, for buffers that
  are not empty and a condition not met from the start.\<close>

theorem async_transfer_is_sync:
  assumes "standard cond" and "moves moved some_op" and "makes_progress some_op" and "seq_ok bs"
    and "distinct (baddrs (seq_list bs))" "baddrs (seq_list bs) \<noteq> []" "check_for_completion cond no_error 0 \<noteq> 0"
  shows "async_transfer some_op bs cond w = sync_transfer some_op bs cond w"
  by (rule async_sync [OF assms])

section \<open>Witnesses\<close>

text \<open>A stream that moves one byte at a time, and ends when the incoming data does.\<close>

fun byte_read :: "byte list world some_op" where
  "byte_read (inp, mem) bs =
     (case baddrs bs of
        [] \<Rightarrow> ((inp, mem), 0, no_error)
      | a # as \<Rightarrow> (case inp of [] \<Rightarrow> ((inp, mem), 0, misc_ec eof) | b # inp' \<Rightarrow> ((inp', mem(a := b)), 1, no_error)))"

fun byte_write :: "byte list world some_op" where
  "byte_write (out, mem) bs =
     (case baddrs bs of [] \<Rightarrow> ((out, mem), 0, no_error) | a # as \<Rightarrow> ((out @ [mem a], mem), 1, no_error))"

lemma byte_read_stream: "moves (received (\<lambda>inp. inp)) byte_read" "makes_progress byte_read"
  by (auto simp: moves_def makes_progress_def received_def split: list.split)

lemma byte_write_stream: "moves (sent (\<lambda>out. out)) byte_write" "makes_progress byte_write"
  by (auto simp: moves_def makes_progress_def sent_def split: list.split)

definition demo_sequence :: sequence where
  "demo_sequence = Sequence 64 [\<lparr>buf_data = 0, buf_size = 2\<rparr>, \<lparr>buf_data = 5, buf_size = 2\<rparr>]"

lemma demo_sequence_props: "seq_ok demo_sequence" "baddrs (seq_list demo_sequence) = [0, 1, 5, 6]"
    "distinct (baddrs (seq_list demo_sequence))"
  by (simp_all add: demo_sequence_def addrs_def upt_rec)

theorem sync_read_correct_witness:
  "\<exists>k w' ec. sync_read byte_read demo_sequence (TransferExactly 3) ([1, 2, 3, 4, 5], \<lambda>a. 0) = Some (k, w', ec) \<and>
     k \<le> 4 \<and> received (\<lambda>inp. inp) ([1, 2, 3, 4, 5], \<lambda>a. 0) (take k [0, 1, 5, 6]) w'"
  using sync_read_correct [OF _ byte_read_stream demo_sequence_props(1,3), of "TransferExactly 3" "([1, 2, 3, 4, 5], \<lambda>a. 0)"]
  by (auto simp: demo_sequence_props(2))

theorem sync_write_correct_witness:
  "\<exists>k s' ec. sync_write byte_write demo_sequence TransferAll ([], \<lambda>a. of_nat a) = Some (k, (s', \<lambda>a. of_nat a), ec) \<and>
     s' = map (\<lambda>a. of_nat a) (take k [0, 1, 5, 6])"
  using sync_write_correct [OF _ byte_write_stream demo_sequence_props(1,3), of TransferAll "[]" "\<lambda>a. of_nat a"]
  by (auto simp: demo_sequence_props(2))

theorem async_transfer_is_sync_witness:
  "async_transfer byte_read demo_sequence (TransferAtLeast 2) ([1, 2], \<lambda>a. 0) =
   sync_transfer byte_read demo_sequence (TransferAtLeast 2) ([1, 2], \<lambda>a. 0)"
  by (rule async_transfer_is_sync [OF _ byte_read_stream demo_sequence_props(1,3)])
    (simp_all add: demo_sequence_props(2) condition_defs)

lemma stalled_loop_none:
  fixes c :: 'c and w :: 'w
  assumes "\<not> is_empty c" "cons c 0 = c" "cond no_error (consumed c) \<noteq> 0"
  shows "transfer_loop is_empty prep cons consumed cond (\<lambda>w bs. (w, 0, no_error)) c w no_error = None"
proof (rule ccontr)
  let ?P = "\<lambda>is_empty prep cons consumed cond (s :: 'w some_op) (c :: 'c) (w :: 'w) ec (r :: 'c \<times> 'w \<times> error_code).
      \<not> (s = (\<lambda>w bs. (w, 0, no_error)) \<and> \<not> is_empty c \<and> cons c 0 = c \<and> cond ec (consumed c) \<noteq> 0 \<and> ec = no_error)"
  assume "transfer_loop is_empty prep cons consumed cond (\<lambda>w bs. (w, 0, no_error)) c w no_error \<noteq> None"
  then obtain r where "transfer_loop is_empty prep cons consumed cond (\<lambda>w bs. (w, 0, no_error)) c w no_error = Some r"
    by blast
  then have "?P is_empty prep cons consumed cond (\<lambda>w bs. (w, 0, no_error)) c w no_error r"
  proof (rule transfer_loop.raw_induct [where P = ?P, rotated])
    fix loop :: "('c \<Rightarrow> bool) \<Rightarrow> ('c \<Rightarrow> nat \<Rightarrow> buf list) \<Rightarrow> ('c \<Rightarrow> nat \<Rightarrow> 'c) \<Rightarrow> ('c \<Rightarrow> nat) \<Rightarrow>
        (error_code \<Rightarrow> nat \<Rightarrow> nat) \<Rightarrow> 'w some_op \<Rightarrow> 'c \<Rightarrow> 'w \<Rightarrow> error_code \<Rightarrow> ('c \<times> 'w \<times> error_code) option"
    fix e p co ct cd s t v ec r
    assume ih: "\<And>e p co ct cd s t v ec r. loop e p co ct cd s t v ec = Some r \<Longrightarrow> ?P e p co ct cd s t v ec r"
      and eq: "(if \<not> e t then if cd ec (ct t) \<noteq> 0
          then case s v (p t (cd ec (ct t))) of (w1, n, ec1) \<Rightarrow> loop e p co ct cd s (co t n) w1 ec1
          else Some (t, v, ec) else Some (t, v, ec)) = Some r"
    show "?P e p co ct cd s t v ec r"
    proof
      assume H: "s = (\<lambda>w bs. (w, 0, no_error)) \<and> \<not> e t \<and> co t 0 = t \<and> cd ec (ct t) \<noteq> 0 \<and> ec = no_error"
      with eq have "loop e p co ct cd s t v ec = Some r" by auto
      from ih [OF this] H show False by blast
    qed
  qed
  with assms show False by simp
qed

text \<open>A stream that reports no bytes and no error: the synchronous loop never returns, while the
  asynchronous operation stops after one round with nothing transferred.\<close>

theorem stalled_stream_diverges:
  assumes "0 < buf_size b"
  shows "sync_transfer (\<lambda>w bs. (w, 0, no_error)) (OneBuf b) TransferAll w = None \<and>
    async_transfer (\<lambda>w bs. (w, 0, no_error)) (OneBuf b) TransferAll w = Some (0, w, no_error)"
proof
  show "sync_transfer (\<lambda>w bs. (w, 0, no_error)) (OneBuf b) TransferAll w = None"
    using assms unfolding sync_transfer.simps transfer_sequence_def
    by (subst stalled_loop_none)
      (simp_all add: cbuf1_empty_def cbuf1_new_def cbuf1_consume_def condition_defs)
  show "async_transfer (\<lambda>w bs. (w, 0, no_error)) (OneBuf b) TransferAll w = Some (0, w, no_error)"
    unfolding async_transfer.simps
    by (subst transfer_op_run.simps, simp add: transfer_op_call_def,
        subst transfer_op_run.simps, simp add: transfer_op_call_def cbuf1_consume_def cbuf1_new_def)
qed

theorem stalled_stream_diverges_witness:
  "sync_transfer (\<lambda>w bs. (w, 0, no_error)) (OneBuf \<lparr>buf_data = 0, buf_size = 4\<rparr>) TransferAll (0::nat) = None"
  using stalled_stream_diverges [of "\<lparr>buf_data = 0, buf_size = 4\<rparr>" "0::nat"] by simp

end
