(* ===== verification/DynamicBuffer.thy ===== *)
theory DynamicBuffer
  imports ComposedTransfer
begin

text \<open>
  \<open>dynamic_string_buffer\<close> and \<open>dynamic_vector_buffer\<close> of \<open>include/asio/buffer/buffer.hpp\<close>, and \<open>read\<close> and
  \<open>write\<close> on them. The two classes have the same text over \<open>std::string\<close> and \<open>std::vector\<close>; the record
  holds the container's bytes and capacity beside \<open>size_\<close> and \<open>max_size_\<close>. How a container's capacity
  grows is the parameter \<open>grow\<close>: the new capacity from the old one and the size needed. Memory is
  taken to suffice. Sizes are \<open>size_t\<close>, so that subtraction wraps.
\<close>

section \<open>The buffer\<close>

definition size_sub :: "nat \<Rightarrow> nat \<Rightarrow> nat" where
  "size_sub a b = (if b \<le> a then a - b else a + (size_max + 1) - b)"

lemma size_sub_le [simp]: "b \<le> a \<Longrightarrow> size_sub a b = a - b"
  by (simp add: size_sub_def)

record dynbuf =
  d_store :: "byte list"
  d_capacity :: nat
  d_size :: nat
  d_max_size :: nat

type_synonym growth = "nat \<Rightarrow> nat \<Rightarrow> nat"

definition db_new :: "byte list \<Rightarrow> nat \<Rightarrow> nat \<Rightarrow> dynbuf" where
  "db_new s cap maximum_size = \<lparr>d_store = s, d_capacity = cap, d_size = length s, d_max_size = maximum_size\<rparr>"

definition dynamic_buffer :: "byte list \<Rightarrow> nat \<Rightarrow> dynbuf" where
  "dynamic_buffer s cap = db_new s cap size_max"

definition db_resize :: "growth \<Rightarrow> nat \<Rightarrow> dynbuf \<Rightarrow> dynbuf" where
  "db_resize grow n b = b\<lparr>d_store := take n (d_store b) @ replicate (n - length (d_store b)) 0,
     d_capacity := (if n \<le> d_capacity b then d_capacity b else grow (d_capacity b) n)\<rparr>"

definition db_data :: "dynbuf \<Rightarrow> byte list" where
  "db_data b = take (d_size b) (d_store b)"

text \<open>\<open>prepare\<close> returns the position and the length of the output sequence in the container.\<close>

datatype exn = LengthError

definition db_prepare :: "growth \<Rightarrow> nat \<Rightarrow> dynbuf \<Rightarrow> exn + dynbuf \<times> nat \<times> nat" where
  "db_prepare grow n b =
     (if d_size b > d_max_size b \<or> size_sub (d_max_size b) (d_size b) < n then Inl LengthError
      else
        let b1 = db_resize grow (d_size b + n) b
        in Inr (b1, min (d_size b1) (length (d_store b1)), min n (length (d_store b1) - d_size b1)))"

definition db_commit :: "growth \<Rightarrow> nat \<Rightarrow> dynbuf \<Rightarrow> dynbuf" where
  "db_commit grow n b =
     (let sz = d_size b + min n (size_sub (length (d_store b)) (d_size b))
      in db_resize grow sz (b\<lparr>d_size := sz\<rparr>))"

definition db_consume :: "nat \<Rightarrow> dynbuf \<Rightarrow> dynbuf" where
  "db_consume n b =
     (let consume_length = min n (d_size b)
      in b\<lparr>d_store := drop consume_length (d_store b), d_size := d_size b - consume_length\<rparr>)"

text \<open>What an operation that was given the output sequence stores there.\<close>

definition db_fill :: "nat \<Rightarrow> byte list \<Rightarrow> dynbuf \<Rightarrow> dynbuf" where
  "db_fill pos bs b = b\<lparr>d_store := take pos (d_store b) @ bs @ drop (pos + length bs) (d_store b)\<rparr>"

section \<open>A queue of bytes\<close>

text \<open>
  Between operations the container holds the input sequence and nothing else. The contract:
  \<open>prepare\<close>, a write of some bytes into its result and \<open>commit\<close> of their number append them to the input
  sequence; \<open>consume\<close> takes bytes off the front; the size never passes the maximum, and \<open>prepare\<close> throws
  exactly when it would.
\<close>

definition db_settled :: "dynbuf \<Rightarrow> bool" where
  "db_settled b \<longleftrightarrow> d_size b = length (d_store b)"

definition db_append :: "growth \<Rightarrow> nat \<Rightarrow> byte list \<Rightarrow> dynbuf \<Rightarrow> exn + dynbuf" where
  "db_append grow n bs b =
     (case db_prepare grow n b of
        Inl e \<Rightarrow> Inl e
      | Inr (b1, pos, len) \<Rightarrow> Inr (db_commit grow (length bs) (db_fill pos bs b1)))"

lemma db_settled_new [simp]: "db_settled (db_new s cap m)" "db_data (db_new s cap m) = s"
    "d_size (db_new s cap m) = length s" "d_max_size (db_new s cap m) = m"
  by (simp_all add: db_settled_def db_new_def db_data_def)

lemma db_prepare_ok:
  assumes "db_settled b" "d_size b \<le> d_max_size b" "n \<le> d_max_size b - d_size b"
  shows "db_prepare grow n b = Inr (db_resize grow (d_size b + n) b, d_size b, n)"
  using assms by (simp add: db_prepare_def db_resize_def db_settled_def Let_def)

lemma db_prepare_throws:
  "d_size b \<le> d_max_size b \<Longrightarrow> d_max_size b - d_size b < n \<Longrightarrow> db_prepare grow n b = Inl LengthError"
  "d_max_size b < d_size b \<Longrightarrow> db_prepare grow n b = Inl LengthError"
  by (simp_all add: db_prepare_def)

text \<open>The whole round, as the reads below perform it.\<close>

definition db_receive :: "growth \<Rightarrow> nat \<Rightarrow> byte list \<Rightarrow> dynbuf \<Rightarrow> dynbuf" where
  "db_receive grow n bs b = db_commit grow (length bs) (db_fill (d_size b) bs (db_resize grow (d_size b + n) b))"

lemma db_receive_props:
  assumes "db_settled b" "length bs \<le> n"
  shows "db_settled (db_receive grow n bs b)" "db_data (db_receive grow n bs b) = db_data b @ bs"
    "d_size (db_receive grow n bs b) = d_size b + length bs" "d_max_size (db_receive grow n bs b) = d_max_size b"
  using assms by (simp_all add: db_receive_def db_settled_def db_commit_def db_fill_def db_resize_def Let_def db_data_def)

lemma db_consume_props:
  assumes "db_settled b"
  shows "db_settled (db_consume n b)" "db_data (db_consume n b) = drop n (db_data b)"
    "d_size (db_consume n b) = d_size b - n" "d_max_size (db_consume n b) = d_max_size b"
  using assms by (auto simp: db_settled_def db_consume_def db_data_def Let_def min_def)

lemma db_data_size [simp]: "db_settled b \<Longrightarrow> length (db_data b) = d_size b"
  by (simp add: db_settled_def db_data_def)

end
