(* ===== verification/DynamicRead.thy ===== *)
theory DynamicRead
  imports DynamicBuffer
begin

text \<open>
  \<open>read\<close> and \<open>write\<close> of \<open>include/asio/transmit/impl/\<close> on a dynamic buffer, and \<open>read_dynbuf_op\<close>. A stream's
  \<open>read_some\<close> into an output sequence is a function of the world and the sequence's length, with the new
  world, the bytes it stored at the start of the sequence and the error code.
\<close>

section \<open>Reading into a dynamic buffer\<close>

type_synonym 'w fill_op = "'w \<Rightarrow> nat \<Rightarrow> 'w \<times> byte list \<times> error_code"

definition db_read_size :: "nat \<Rightarrow> dynbuf \<Rightarrow> nat" where
  "db_read_size max_size b =
     min (max 512 (size_sub (d_capacity b) (d_size b))) (min max_size (size_sub (d_max_size b) (d_size b)))"

partial_function (option) read_dynbuf_loop ::
  "growth \<Rightarrow> (error_code \<Rightarrow> nat \<Rightarrow> nat) \<Rightarrow> 'w fill_op \<Rightarrow> dynbuf \<Rightarrow> 'w \<Rightarrow> error_code \<Rightarrow> nat \<Rightarrow>
   (dynbuf \<times> 'w \<times> (exn + nat \<times> error_code)) option" where
  "read_dynbuf_loop grow cond read_some b w ec total_transferred =
     (if 0 < db_read_size (cond ec total_transferred) b then
        case db_prepare grow (db_read_size (cond ec total_transferred) b) b of
          Inl e \<Rightarrow> Some (b, w, Inl e)
        | Inr (b1, pos, len) \<Rightarrow>
            (case read_some w len of (w1, bs, ec1) \<Rightarrow>
               read_dynbuf_loop grow cond read_some (db_commit grow (length bs) (db_fill pos bs b1)) w1 ec1
                 (total_transferred + length bs))
      else Some (b, w, Inr (total_transferred, ec)))"

definition read_dynbuf ::
  "growth \<Rightarrow> completion \<Rightarrow> 'w fill_op \<Rightarrow> dynbuf \<Rightarrow> 'w \<Rightarrow> (dynbuf \<times> 'w \<times> (exn + nat \<times> error_code)) option" where
  "read_dynbuf grow cond read_some b w = read_dynbuf_loop grow (check_for_completion cond) read_some b w no_error 0"

text \<open>\<open>read_dynbuf_op\<close>: a call starts a read of the stream into the prepared sequence, calls the handler,
  or throws.\<close>

datatype dyn_effect = DynInitiate nat nat | DynComplete error_code nat | DynThrow exn

definition dyn_initiate :: "growth \<Rightarrow> nat \<Rightarrow> dynbuf \<Rightarrow> dynbuf \<times> dyn_effect" where
  "dyn_initiate grow n b =
     (case db_prepare grow n b of Inl e \<Rightarrow> (b, DynThrow e) | Inr (b1, pos, len) \<Rightarrow> (b1, DynInitiate pos len))"

definition read_dynbuf_op_call ::
  "growth \<Rightarrow> (error_code \<Rightarrow> nat \<Rightarrow> nat) \<Rightarrow> dynbuf \<times> nat \<Rightarrow> error_code \<Rightarrow> nat \<Rightarrow> nat \<Rightarrow> (dynbuf \<times> nat) \<times> dyn_effect" where
  "read_dynbuf_op_call grow cond op ec bytes_transferred start =
     (case op of (buffers, total_transferred) \<Rightarrow>
      if start = 1 then
        (case dyn_initiate grow (db_read_size (cond ec total_transferred) buffers) buffers of
           (b1, eff) \<Rightarrow> ((b1, total_transferred), eff))
      else
        let total1 = total_transferred + bytes_transferred;
            b1 = db_commit grow bytes_transferred buffers;
            bytes_available = db_read_size (cond ec total1) b1
        in if (\<not> ec_failed ec \<and> bytes_transferred = 0) \<or> bytes_available = 0
           then ((b1, total1), DynComplete ec total1)
           else (case dyn_initiate grow bytes_available b1 of (b2, eff) \<Rightarrow> ((b2, total1), eff)))"

partial_function (option) read_dynbuf_op_run ::
  "growth \<Rightarrow> (error_code \<Rightarrow> nat \<Rightarrow> nat) \<Rightarrow> 'w fill_op \<Rightarrow> dynbuf \<times> nat \<Rightarrow> 'w \<Rightarrow> error_code \<Rightarrow> nat \<Rightarrow> nat \<Rightarrow>
   (dynbuf \<times> 'w \<times> (exn + nat \<times> error_code)) option" where
  "read_dynbuf_op_run grow cond read_some op w ec n start =
     (case read_dynbuf_op_call grow cond op ec n start of
        (op1, DynInitiate pos len) \<Rightarrow>
          (case read_some w len of (w1, bs, ec1) \<Rightarrow>
             read_dynbuf_op_run grow cond read_some (db_fill pos bs (fst op1), snd op1) w1 ec1 (length bs) 0)
      | (op1, DynComplete ec1 k) \<Rightarrow> Some (fst op1, w, Inr (k, ec1))
      | (op1, DynThrow e) \<Rightarrow> Some (fst op1, w, Inl e))"

definition async_read_dynbuf ::
  "growth \<Rightarrow> completion \<Rightarrow> 'w fill_op \<Rightarrow> dynbuf \<Rightarrow> 'w \<Rightarrow> (dynbuf \<times> 'w \<times> (exn + nat \<times> error_code)) option" where
  "async_read_dynbuf grow cond read_some b w =
     read_dynbuf_op_run grow (check_for_completion cond) read_some (b, 0) w no_error 0 1"

text \<open>\<open>write\<close> on a dynamic buffer whose container is at the address \<open>base\<close>.\<close>

definition write_dynbuf ::
  "'w some_op \<Rightarrow> nat \<Rightarrow> dynbuf \<Rightarrow> completion \<Rightarrow> 'w \<Rightarrow> (dynbuf \<times> nat \<times> 'w \<times> error_code) option" where
  "write_dynbuf write_some base b cond w =
     map_option (\<lambda>(bytes_transferred, w1, ec). (db_consume bytes_transferred b, bytes_transferred, w1, ec))
       (sync_write write_some (OneBuf \<lparr>buf_data = base, buf_size = length (db_data b)\<rparr>) cond w)"

section \<open>What the loop does\<close>

text \<open>The stream's contract: it stores the next bytes of the incoming data, no more than there is room for.\<close>

definition fills :: "('w \<Rightarrow> byte list) \<Rightarrow> 'w fill_op \<Rightarrow> bool" where
  "fills incoming s \<longleftrightarrow> (\<forall>w n. case s w n of (w1, bs, ec) \<Rightarrow> length bs \<le> n \<and> incoming w = bs @ incoming w1)"

definition fill_progress :: "'w fill_op \<Rightarrow> bool" where
  "fill_progress s \<longleftrightarrow> (\<forall>w n. 0 < n \<longrightarrow> (case s w n of (w1, bs, ec) \<Rightarrow> bs \<noteq> [] \<or> ec_failed ec))"

lemma fillsD:
  assumes "fills incoming s" "s w n = (w1, bs, ec)"
  shows "length bs \<le> n \<and> incoming w = bs @ incoming w1"
  using assms(1) [unfolded fills_def, rule_format, of n w] assms(2) by simp

lemma fill_progressD:
  assumes "fill_progress s" "s w n = (w1, bs, ec)" "0 < n"
  shows "bs \<noteq> [] \<or> ec_failed ec"
  using assms(1) [unfolded fill_progress_def, rule_format, OF assms(3), of w] assms(2) by simp

text \<open>A buffer whose input sequence is within its maximum.\<close>

definition db_within :: "dynbuf \<Rightarrow> bool" where
  "db_within b \<longleftrightarrow> db_settled b \<and> d_size b \<le> d_max_size b"

lemma db_read_size_props:
  assumes "db_within b"
  shows "db_read_size m b \<le> m" "db_read_size m b \<le> d_max_size b - d_size b"
    "db_read_size m b = 0 \<longleftrightarrow> m = 0 \<or> d_size b = d_max_size b"
  using assms by (auto simp: db_read_size_def db_within_def min_def max_def)

lemma db_read_round:
  assumes "db_within b"
  shows "db_prepare grow (db_read_size m b) b = Inr (db_resize grow (d_size b + db_read_size m b) b, d_size b, db_read_size m b)"
  using assms db_read_size_props(2) [OF assms] by (intro db_prepare_ok) (auto simp: db_within_def)

lemma db_receive_within:
  assumes "db_within b" "length bs \<le> db_read_size m b"
  shows "db_within (db_receive grow (db_read_size m b) bs b)"
  using assms db_read_size_props(2) [OF assms(1), of m] by (auto simp: db_within_def db_receive_props)

text \<open>How far a transfer has come: bytes moved from the incoming data to the buffer.\<close>

definition db_moved :: "('w \<Rightarrow> byte list) \<Rightarrow> dynbuf \<Rightarrow> 'w \<Rightarrow> dynbuf \<Rightarrow> 'w \<Rightarrow> nat \<Rightarrow> bool" where
  "db_moved incoming b w b' w' k \<longleftrightarrow> db_within b' \<and> d_max_size b' = d_max_size b \<and> k \<le> length (incoming w) \<and>
     db_data b' = db_data b @ take k (incoming w) \<and> incoming w' = drop k (incoming w)"

lemma db_moved_0 [simp]: "db_within b \<Longrightarrow> db_moved inc b w b w 0"
  by (simp add: db_moved_def)

lemma db_moved_receive:
  assumes "db_within b" "fills inc s" "s w (db_read_size m b) = (w1, bs, ec)"
  shows "db_moved inc b w (db_receive grow (db_read_size m b) bs b) w1 (length bs)"
  using fillsD [OF assms(2,3)] db_receive_within [OF assms(1), of bs m] assms(1)
  by (simp add: db_moved_def db_receive_props db_within_def)

lemma db_moved_trans:
  assumes "db_moved inc b w b1 w1 j" "db_moved inc b1 w1 b2 w2 k"
  shows "db_moved inc b w b2 w2 (j + k)"
  using assms by (auto simp: db_moved_def take_add add.commute)

lemma db_moved_size: "db_within b \<Longrightarrow> db_moved inc b w b' w' k \<Longrightarrow> d_size b' = d_size b + k"
  by (simp add: db_moved_def db_within_def flip: db_data_size)

lemma read_dynbuf_loop_step:
  assumes "m = db_read_size (cond ec t) b" "db_within b" "0 < m" "s w m = (w1, bs, ec1)"
  shows "read_dynbuf_loop grow cond s b w ec t =
    read_dynbuf_loop grow cond s (db_receive grow m bs b) w1 ec1 (t + length bs)"
  using assms by (subst read_dynbuf_loop.simps) (simp add: db_read_round db_receive_def)

lemma read_dynbuf_loop_stop:
  "db_read_size (cond ec t) b = 0 \<Longrightarrow> read_dynbuf_loop grow cond s b w ec t = Some (b, w, Inr (t, ec))"
  by (subst read_dynbuf_loop.simps) simp

lemma read_dynbuf_loop_correct:
  assumes law: "fills inc s" and progress: "fill_progress s" and stops: "\<And>ec t. ec_failed ec \<Longrightarrow> cond ec t = 0"
  shows "db_within b \<Longrightarrow> \<exists>b' w' ec' k. read_dynbuf_loop grow cond s b w ec t = Some (b', w', Inr (t + k, ec')) \<and>
    db_moved inc b w b' w' k \<and> (cond ec' (t + k) = 0 \<or> d_size b' = d_max_size b') \<and>
    (\<forall>lim. (\<forall>ec t. t + cond ec t \<le> max lim t) \<longrightarrow> t + k \<le> max lim t)"
proof (induction "d_max_size b - d_size b" arbitrary: b w ec t rule: less_induct)
  case less
  let ?m = "db_read_size (cond ec t) b"
  show ?case
  proof (cases "?m = 0")
    case True
    with db_read_size_props(3) [OF less.prems] read_dynbuf_loop_stop [where cond = cond and b = b and ec = ec and t = t] True show ?thesis
      by (intro exI [of _ b] exI [of _ w] exI [of _ ec] exI [of _ 0]) (auto simp: less.prems)
  next
    case False
    obtain w1 bs ec1 where o: "s w ?m = (w1, bs, ec1)" by (metis prod_cases3)
    let ?b1 = "db_receive grow ?m bs b"
    have step: "read_dynbuf_loop grow cond s b w ec t = read_dynbuf_loop grow cond s ?b1 w1 ec1 (t + length bs)"
      using read_dynbuf_loop_step [where s = s and w = w and cond = cond and ec = ec and t = t, OF refl less.prems _ o] False by simp
    have mv: "db_moved inc b w ?b1 w1 (length bs)"
      by (rule db_moved_receive [OF less.prems law o])
    then have in1: "db_within ?b1" by (simp add: db_moved_def)
    show ?thesis
    proof (cases "bs = []")
      case True
      then have "cond ec1 t = 0"
        using fill_progressD [OF progress o] False stops by auto
      with True step in1 mv show ?thesis
        by (intro exI [of _ ?b1] exI [of _ w1] exI [of _ ec1] exI [of _ 0])
          (simp add: read_dynbuf_loop_stop db_read_size_props(3))
    next
      case nz: False
      have "d_max_size ?b1 - d_size ?b1 < d_max_size b - d_size b"
        using length_greater_0_conv [of bs] nz db_moved_size [OF less.prems mv] in1 mv
        unfolding db_moved_def db_within_def by linarith
      from less.hyps [OF this in1, of w1 ec1 "t + length bs"] obtain b' w' ec' k where
        r: "read_dynbuf_loop grow cond s ?b1 w1 ec1 (t + length bs) = Some (b', w', Inr (t + (length bs + k), ec'))"
          "db_moved inc ?b1 w1 b' w' k" "cond ec' (t + (length bs + k)) = 0 \<or> d_size b' = d_max_size b'" and
        lim: "\<And>lim. \<forall>ec t. t + cond ec t \<le> max lim t \<Longrightarrow> t + length bs + k \<le> max lim (t + length bs)"
        by (auto simp: add.assoc)
      have "t + (length bs + k) \<le> max lim t" if l: "\<forall>ec t. t + cond ec t \<le> max lim t" for lim
        using lim [OF l] l [rule_format, of t ec] fillsD [OF law o] db_read_size_props(1) [OF less.prems, of "cond ec t"] by linarith
      with r step db_moved_trans [OF mv r(2)] show ?thesis
        by (intro exI [of _ b'] exI [of _ w'] exI [of _ ec'] exI [of _ "length bs + k"]) simp
    qed
  qed
qed

text \<open>The asynchronous operation is the loop, once it has something to do.\<close>

lemma read_dynbuf_op_first:
  assumes "db_within b"
  shows "read_dynbuf_op_call grow cond (b, t) ec n 1 =
    ((db_resize grow (d_size b + db_read_size (cond ec t) b) b, t), DynInitiate (d_size b) (db_read_size (cond ec t) b))"
  using assms by (simp add: read_dynbuf_op_call_def dyn_initiate_def db_read_round)

lemma read_dynbuf_op_next:
  assumes "ec_failed ec \<or> bs \<noteq> []" "b1 = db_receive grow m bs b"
  shows "read_dynbuf_op_call grow cond (db_fill (d_size b) bs (db_resize grow (d_size b + m) b), t) ec (length bs) 0 =
    (if db_read_size (cond ec (t + length bs)) b1 = 0 then ((b1, t + length bs), DynComplete ec (t + length bs))
     else read_dynbuf_op_call grow cond (b1, t + length bs) ec k 1)"
  using assms by (auto simp: read_dynbuf_op_call_def db_receive_def Let_def)

lemma read_dynbuf_op_run_loop:
  assumes law: "fills inc s" and progress: "fill_progress s" and stops: "\<And>ec t. ec_failed ec \<Longrightarrow> cond ec t = 0"
  shows "db_within b \<Longrightarrow> 0 < db_read_size (cond ec t) b \<Longrightarrow>
    read_dynbuf_op_run grow cond s (b, t) w ec n 1 = read_dynbuf_loop grow cond s b w ec t"
proof (induction "d_max_size b - d_size b" arbitrary: b w ec t n rule: less_induct)
  case less
  let ?m = "db_read_size (cond ec t) b"
  obtain w1 bs ec1 where o: "s w ?m = (w1, bs, ec1)" by (metis prod_cases3)
  define b1 where "b1 = db_receive grow ?m bs b"
  have mv: "db_moved inc b w b1 w1 (length bs)"
    unfolding b1_def by (rule db_moved_receive [OF less.prems(1) law o])
  have prog: "ec_failed ec1 \<or> bs \<noteq> []"
    using fill_progressD [OF progress o less.prems(2)] by blast
  have loop: "read_dynbuf_loop grow cond s b w ec t = read_dynbuf_loop grow cond s b1 w1 ec1 (t + length bs)"
    unfolding b1_def by (rule read_dynbuf_loop_step [where s = s and w = w and cond = cond and ec = ec and t = t, OF refl less.prems o])
  have run: "read_dynbuf_op_run grow cond s (b, t) w ec n 1 =
      read_dynbuf_op_run grow cond s (db_fill (d_size b) bs (db_resize grow (d_size b + ?m) b), t) w1 ec1 (length bs) 0"
    by (subst read_dynbuf_op_run.simps) (simp add: read_dynbuf_op_first [OF less.prems(1), simplified] o)
  show ?case
  proof (cases "db_read_size (cond ec1 (t + length bs)) b1 = 0")
    case True
    then show ?thesis
      unfolding run loop
      by (subst read_dynbuf_op_run.simps) (simp add: read_dynbuf_op_next [OF prog b1_def, where k = 0] read_dynbuf_loop_stop)
  next
    case False
    then have "bs \<noteq> []"
      using prog stops by (auto simp: db_read_size_def)
    then have "d_max_size b1 - d_size b1 < d_max_size b - d_size b"
      using length_greater_0_conv [of bs] db_moved_size [OF less.prems(1) mv] mv
      unfolding db_moved_def db_within_def by linarith
    moreover have "db_within b1" using mv by (simp add: db_moved_def)
    moreover have "read_dynbuf_op_run grow cond s (db_fill (d_size b) bs (db_resize grow (d_size b + ?m) b), t) w1 ec1 (length bs) 0
        = read_dynbuf_op_run grow cond s (b1, t + length bs) w1 ec1 0 1"
      using False by (subst (1 2) read_dynbuf_op_run.simps) (simp add: read_dynbuf_op_next [OF prog b1_def, where k = 0])
    ultimately show ?thesis
      using less.hyps [of b1 ec1 "t + length bs" w1 0] False unfolding run loop by simp
  qed
qed

section \<open>Properties\<close>

text \<open>C11. A dynamic buffer is a queue of bytes bounded by its maximum: preparing \<open>n\<close> bytes, storing some
  of them and committing their number appends exactly these to the input sequence, unless the size
  and \<open>n\<close> together pass the maximum, when \<open>prepare\<close> throws; consuming takes bytes off the front, all of
  them when there are fewer.\<close>

theorem dynamic_buffer_queue:
  assumes "db_within b" and "length bs \<le> n"
  shows "(case db_append grow n bs b of
       Inl e \<Rightarrow> d_max_size b < d_size b + n
     | Inr b' \<Rightarrow> d_size b + n \<le> d_max_size b \<and> db_within b' \<and> db_data b' = db_data b @ bs) \<and>
    db_within (db_consume k b) \<and> db_data (db_consume k b) = drop k (db_data b)"
proof (intro conjI)
  have w: "db_settled b" "d_size b \<le> d_max_size b"
    using assms(1) by (simp_all add: db_within_def)
  show "case db_append grow n bs b of
       Inl e \<Rightarrow> d_max_size b < d_size b + n
     | Inr b' \<Rightarrow> d_size b + n \<le> d_max_size b \<and> db_within b' \<and> db_data b' = db_data b @ bs"
  proof (cases "n \<le> d_max_size b - d_size b")
    case True
    then show ?thesis
      using w assms(2) db_receive_props [OF w(1) assms(2), of grow]
      by (auto simp: db_append_def db_prepare_ok db_within_def db_receive_def)
  next
    case False
    then show ?thesis
      using w by (simp add: db_append_def db_prepare_throws)
  qed
  show "db_within (db_consume k b)" "db_data (db_consume k b) = drop k (db_data b)"
    using w db_consume_props [OF w(1)] by (simp_all add: db_within_def)
qed

text \<open>\<open>read\<close> into a dynamic buffer: it returns and does not throw; the bytes it reports are the next
  ones of the incoming data, appended in order to the input sequence; the maximum is kept; and it
  stops only when the completion condition says so or the buffer is full.\<close>

theorem read_dynbuf_correct:
  assumes "standard cond" and "fills incoming read_some" and "fill_progress read_some" and "db_within b"
  shows "\<exists>b' w' ec k. read_dynbuf grow cond read_some b w = Some (b', w', Inr (k, ec)) \<and>
    db_data b' = db_data b @ take k (incoming w) \<and> incoming w' = drop k (incoming w) \<and> k \<le> length (incoming w) \<and>
    length (db_data b') \<le> d_max_size b \<and> (check_for_completion cond ec k = 0 \<or> length (db_data b') = d_max_size b) \<and>
    (\<forall>m. cond = TransferExactly m \<longrightarrow> k \<le> m)"
proof -
  obtain b' w' ec k where r: "read_dynbuf_loop grow (check_for_completion cond) read_some b w no_error 0 = Some (b', w', Inr (0 + k, ec))"
      "db_moved incoming b w b' w' k" "check_for_completion cond ec (0 + k) = 0 \<or> d_size b' = d_max_size b'"
      and lim: "\<And>lim. \<forall>ec t. t + check_for_completion cond ec t \<le> max lim t \<Longrightarrow> 0 + k \<le> max lim 0"
    using read_dynbuf_loop_correct [OF assms(2,3) _ assms(4), where cond = "check_for_completion cond" and ec = no_error and t = 0]
      standard_stops [OF assms(1)] by blast
  have "length (db_data b') = d_size b'" "d_size b' \<le> d_max_size b" "d_max_size b' = d_max_size b"
    using r(2) db_data_size [of b'] unfolding db_moved_def db_within_def by auto
  moreover have "k \<le> m" if "cond = TransferExactly m" for m
    using lim [of m] exactly_bound [of m] that by simp
  ultimately show ?thesis
    using r(1,3) r(2) [unfolded db_moved_def]
    by (intro exI [of _ b'] exI [of _ w'] exI [of _ ec] exI [of _ k]) (simp add: read_dynbuf_def)
qed

text \<open>\<open>read_dynbuf_op\<close>, called back with the result of each read it starts, ends as the synchronous
  \<open>read\<close> does, for a buffer with room and a condition not met from the start.\<close>

theorem async_read_dynbuf_is_sync:
  assumes "standard cond" and "fills incoming read_some" and "fill_progress read_some" and "db_within b"
    and "d_size b < d_max_size b" and "check_for_completion cond no_error 0 \<noteq> 0"
  shows "async_read_dynbuf grow cond read_some b w = read_dynbuf grow cond read_some b w"
proof -
  have "0 < db_read_size (check_for_completion cond no_error 0) b"
    using assms(5,6) db_read_size_props(3) [OF assms(4), of "check_for_completion cond no_error 0"] by linarith
  from read_dynbuf_op_run_loop [where cond = "check_for_completion cond", OF assms(2,3) standard_stops [OF assms(1)] assms(4) this]
  show ?thesis
    by (simp add: async_read_dynbuf_def read_dynbuf_def)
qed

text \<open>A dynamic buffer built on a container that is already longer than its maximum: the room left is
  computed by a subtraction that wraps, so \<open>read\<close> asks for more bytes and \<open>prepare\<close> throws, also out of
  the overload that reports errors through its error code.\<close>

theorem read_overfull_throws:
  assumes "m < length s" and "length s \<le> size_max"
  shows "read_dynbuf grow TransferAll read_some (db_new s cap m) w = Some (db_new s cap m, w, Inl LengthError)"
proof -
  have "0 < db_read_size (check_for_completion TransferAll no_error 0) (db_new s cap m)"
  proof -
    have "0 < size_sub m (length s)"
      using assms by (simp add: size_sub_def)
    then show ?thesis
      by (simp add: db_read_size_def db_new_def transfer_all_def default_max_transfer_size_def ec_failed_def no_error_def)
  qed
  then show ?thesis
    using assms unfolding read_dynbuf_def
    by (subst read_dynbuf_loop.simps) (simp add: db_prepare_throws(2))
qed

text \<open>\<open>write\<close> on a dynamic buffer: what it reports is the number of bytes it appended to the outgoing
  data from the front of the input sequence, and exactly these are consumed.\<close>

theorem write_dynbuf_correct:
  assumes "standard cond" and "moves (sent outgoing) write_some" and "makes_progress write_some"
    and "db_within b" and "db_data b = map mem [base..<base + d_size b]"
  shows "\<exists>b' k s' ec. write_dynbuf write_some base b cond (s, mem) = Some (b', k, (s', mem), ec) \<and>
    k \<le> length (db_data b) \<and> outgoing s' = outgoing s @ take k (db_data b) \<and> db_data b' = drop k (db_data b) \<and>
    (\<not> ec_failed ec \<longrightarrow> goal_met cond (length (db_data b)) k)"
proof -
  let ?bs = "OneBuf \<lparr>buf_data = base, buf_size = d_size b\<rparr>"
  have st: "db_settled b" "length (db_data b) = d_size b"
    using assms(4) by (simp_all add: db_within_def)
  have A: "baddrs (seq_list ?bs) = [base..<base + d_size b]"
    by (simp add: addrs_def)
  obtain k w' ec where r: "sync_transfer write_some ?bs cond (s, mem) = Some (k, w', ec)" "k \<le> d_size b"
      "sent outgoing (s, mem) (take k [base..<base + d_size b]) w'" "\<not> ec_failed ec \<longrightarrow> goal_met cond (d_size b) k"
    using sync_transfer_correct [OF assms(1-3) sent_composes, of ?bs "(s, mem)"] unfolding A by auto
  then have "outgoing (fst w') = outgoing s @ take k (db_data b)" "snd w' = mem"
    by (simp_all add: sent_def assms(5) take_map)
  with r db_consume_props(2) [OF st(1)] st(2) show ?thesis
    by (cases w') (simp add: write_dynbuf_def sync_write_def)
qed

section \<open>Witnesses\<close>

text \<open>A stream that hands out two bytes at a time, and ends when the incoming data does.\<close>

fun pair_read :: "byte list fill_op" where
  "pair_read inp n = (if n = 0 then (inp, [], no_error) else if inp = [] then (inp, [], misc_ec eof) else (drop (min 2 n) inp, take (min 2 n) inp, no_error))"

lemma pair_read_stream: "fills (\<lambda>inp. inp) pair_read" "fill_progress pair_read"
  by (auto simp: fills_def fill_progress_def ec_failed_def misc_ec_def)

lemma db_within_new: "length s \<le> m \<Longrightarrow> db_within (db_new s cap m)"
  by (simp add: db_within_def)

theorem dynamic_buffer_queue_witness:
  "(case db_append (\<lambda>c n. n) 3 [7, 8] (db_new [1, 2] 15 5) of
      Inl e \<Rightarrow> (5::nat) < 2 + 3
    | Inr b' \<Rightarrow> db_data b' = [1, 2, 7, 8]) \<and> db_data (db_consume 1 (db_new [1, 2] 15 5)) = [2]"
  using dynamic_buffer_queue [where b = "db_new [1, 2] 15 5" and bs = "[7, 8]" and n = 3 and grow = "\<lambda>c n. n" and k = 1]
  by (auto simp: db_within_new split: sum.splits)

theorem read_dynbuf_correct_witness:
  "\<exists>b' w' ec k. read_dynbuf (\<lambda>c n. n) (TransferExactly 3) pair_read (db_new [9] 15 6) [1, 2, 3, 4, 5] = Some (b', w', Inr (k, ec)) \<and>
     db_data b' = 9 # take k [1, 2, 3, 4, 5] \<and> k \<le> 3"
  using read_dynbuf_correct [OF _ pair_read_stream db_within_new, of "TransferExactly 3" "[9]" 6 "\<lambda>c n. n" 15 "[1, 2, 3, 4, 5]"]
  by auto

theorem async_read_dynbuf_is_sync_witness:
  "async_read_dynbuf (\<lambda>c n. n) TransferAll pair_read (db_new [9] 15 6) [1, 2, 3] =
   read_dynbuf (\<lambda>c n. n) TransferAll pair_read (db_new [9] 15 6) [1, 2, 3]"
  by (rule async_read_dynbuf_is_sync [OF _ pair_read_stream db_within_new])
    (simp_all add: transfer_all_def default_max_transfer_size_def ec_failed_def no_error_def)

theorem read_overfull_throws_witness:
  "read_dynbuf (\<lambda>c n. n) TransferAll pair_read (db_new [1, 2, 3] 15 2) [] = Some (db_new [1, 2, 3] 15 2, [], Inl LengthError)"
  by (rule read_overfull_throws) (simp_all add: size_max_def)

theorem write_dynbuf_correct_witness:
  "\<exists>b' k s' ec. write_dynbuf byte_write 4 (db_new [4, 5, 6] 15 9) TransferAll ([], \<lambda>a. of_nat a) = Some (b', k, (s', \<lambda>a. of_nat a), ec) \<and>
     s' = take k [4, 5, 6] \<and> db_data b' = drop k [4, 5, 6]"
  using write_dynbuf_correct [OF _ byte_write_stream db_within_new, of TransferAll "[4, 5, 6]" 9 15 "\<lambda>a. of_nat a" 4 "[]"]
  by (auto simp: upt_rec)

end
