(* ===== verification/ReadUntil.thy ===== *)
theory ReadUntil
  imports DynamicRead
begin

text \<open>
  \<open>include/asio/transmit/impl/read_until.hpp\<close>: \<open>read_until\<close> with a character, a string and a match
  condition, the search \<open>partial_search\<close>, and the asynchronous \<open>read_until_delim_op\<close>,
  \<open>read_until_delim_string_op\<close> and \<open>read_until_match_op\<close>. An iterator into the dynamic buffer's data is its
  distance from the begin. The three loops share all but the search, which is their parameter: from
  the data and the search position to a match, with the number to return, or to the position where
  the next search starts.
\<close>

section \<open>Searching\<close>

datatype search_result = Found nat | Restart nat

fun std_find :: "byte list \<Rightarrow> byte \<Rightarrow> nat" where
  "std_find [] delim = 0"
| "std_find (x # xs) delim = (if x = delim then 0 else Suc (std_find xs delim))"

definition char_search :: "byte \<Rightarrow> byte list \<Rightarrow> nat \<Rightarrow> search_result" where
  "char_search delim data search_position =
     (let iter = search_position + std_find (drop search_position data) delim
      in if iter \<noteq> length data then Found (iter + 1) else Restart (length data))"

text \<open>The inner loop of \<open>partial_search\<close>: \<open>advanced\<close> is the test \<open>test_iter2 != first2\<close>.\<close>

datatype test_result = FullMatch | PartialMatch | Mismatch

fun test_at :: "'a list \<Rightarrow> 'a list \<Rightarrow> bool \<Rightarrow> test_result" where
  "test_at xs [] advanced = FullMatch"
| "test_at [] (y # ys) advanced = (if advanced then PartialMatch else Mismatch)"
| "test_at (x # xs) (y # ys) advanced = (if x \<noteq> y then Mismatch else test_at xs ys True)"

fun partial_search :: "'a list \<Rightarrow> 'a list \<Rightarrow> nat \<Rightarrow> nat \<times> bool" where
  "partial_search [] delim iter1 = (iter1, False)"
| "partial_search (x # xs) delim iter1 =
     (case test_at (x # xs) delim False of
        FullMatch \<Rightarrow> (iter1, True)
      | PartialMatch \<Rightarrow> (iter1, False)
      | Mismatch \<Rightarrow> partial_search xs delim (Suc iter1))"

definition string_search :: "byte list \<Rightarrow> byte list \<Rightarrow> nat \<Rightarrow> search_result" where
  "string_search delim data search_position =
     (case partial_search (drop search_position data) delim search_position of
        (iter, full) \<Rightarrow>
          if iter \<noteq> length data then (if full then Found (iter + length delim) else Restart iter)
          else Restart (length data))"

text \<open>A match condition gets the data and the position to start from, and returns a position and whether
  it is a match.\<close>

definition match_search :: "(byte list \<Rightarrow> nat \<Rightarrow> nat \<times> bool) \<Rightarrow> byte list \<Rightarrow> nat \<Rightarrow> search_result" where
  "match_search match_condition data search_position =
     (case match_condition data search_position of
        (iter, matched) \<Rightarrow>
          if matched then Found iter else if iter \<noteq> length data then Restart iter else Restart (length data))"

section \<open>The synchronous operations\<close>

type_synonym 'w until_result = "(dynbuf \<times> 'w \<times> (exn + nat \<times> error_code)) option"

partial_function (option) until_loop ::
  "growth \<Rightarrow> (byte list \<Rightarrow> nat \<Rightarrow> search_result) \<Rightarrow> 'w fill_op \<Rightarrow> dynbuf \<Rightarrow> 'w \<Rightarrow> nat \<Rightarrow>
   (dynbuf \<times> 'w \<times> (exn + nat \<times> error_code)) option" where
  "until_loop grow search read_some b w search_position =
     (case search (db_data b) search_position of
        Found n \<Rightarrow> Some (b, w, Inr (n, no_error))
      | Restart position \<Rightarrow>
          if d_size b = d_max_size b then Some (b, w, Inr (0, misc_ec not_found))
          else
            (case db_prepare grow (db_read_size 65536 b) b of
               Inl e \<Rightarrow> Some (b, w, Inl e)
             | Inr (b1, pos, len) \<Rightarrow>
                 (case read_some w len of (w1, bs, ec) \<Rightarrow>
                    if ec_failed ec then Some (db_commit grow (length bs) (db_fill pos bs b1), w1, Inr (0, ec))
                    else until_loop grow search read_some (db_commit grow (length bs) (db_fill pos bs b1)) w1 position)))"

definition read_until_char :: "growth \<Rightarrow> 'w fill_op \<Rightarrow> dynbuf \<Rightarrow> byte \<Rightarrow> 'w \<Rightarrow> 'w until_result" where
  "read_until_char grow read_some b delim w = until_loop grow (char_search delim) read_some b w 0"

definition read_until_string :: "growth \<Rightarrow> 'w fill_op \<Rightarrow> dynbuf \<Rightarrow> byte list \<Rightarrow> 'w \<Rightarrow> 'w until_result" where
  "read_until_string grow read_some b delim w = until_loop grow (string_search delim) read_some b w 0"

definition read_until_match ::
  "growth \<Rightarrow> 'w fill_op \<Rightarrow> dynbuf \<Rightarrow> (byte list \<Rightarrow> nat \<Rightarrow> nat \<times> bool) \<Rightarrow> 'w \<Rightarrow> 'w until_result" where
  "read_until_match grow read_some b match_condition w = until_loop grow (match_search match_condition) read_some b w 0"

definition until_throws :: "'w until_result \<Rightarrow> (dynbuf \<times> 'w \<times> (exn + error_code + nat)) option" where
  "until_throws = map_option (\<lambda>(b, w, r). (b, w, case r of Inl e \<Rightarrow> Inl e
     | Inr (n, ec) \<Rightarrow> Inr (case throw_error ec of Inl c \<Rightarrow> Inl c | Inr _ \<Rightarrow> Inr n)))"

section \<open>The asynchronous operations\<close>

text \<open>The state of the operation is its dynamic buffer and \<open>search_position_\<close>; \<open>size_max\<close> there is the
  local constant \<open>not_found\<close>.\<close>

definition until_scan :: "(byte list \<Rightarrow> nat \<Rightarrow> search_result) \<Rightarrow> dynbuf \<Rightarrow> nat \<Rightarrow> nat \<times> nat" where
  "until_scan search b search_position =
     (case search (db_data b) search_position of
        Found n \<Rightarrow> (n, 0)
      | Restart position \<Rightarrow>
          if d_size b = d_max_size b then (size_max, 0) else (position, db_read_size 65536 b))"

definition until_finish :: "error_code \<Rightarrow> nat \<Rightarrow> dyn_effect" where
  "until_finish ec search_position =
     DynComplete (if search_position = size_max then misc_ec not_found else ec)
       (if ec_failed ec \<or> search_position = size_max then 0 else search_position)"

definition until_op_call ::
  "growth \<Rightarrow> (byte list \<Rightarrow> nat \<Rightarrow> search_result) \<Rightarrow> dynbuf \<times> nat \<Rightarrow> error_code \<Rightarrow> nat \<Rightarrow> nat \<Rightarrow> (dynbuf \<times> nat) \<times> dyn_effect" where
  "until_op_call grow search op ec bytes_transferred start =
     (case op of (buffers, search_position) \<Rightarrow>
      if start = 1 then
        (case until_scan search buffers search_position of (position, bytes_to_read) \<Rightarrow>
           case dyn_initiate grow bytes_to_read buffers of (b1, eff) \<Rightarrow> ((b1, position), eff))
      else
        let b1 = db_commit grow bytes_transferred buffers
        in if ec_failed ec \<or> bytes_transferred = 0 then ((b1, search_position), until_finish ec search_position)
           else
             (case until_scan search b1 search_position of (position, bytes_to_read) \<Rightarrow>
                if bytes_to_read = 0 then ((b1, position), until_finish ec position)
                else case dyn_initiate grow bytes_to_read b1 of (b2, eff) \<Rightarrow> ((b2, position), eff)))"

partial_function (option) until_op_run ::
  "growth \<Rightarrow> (byte list \<Rightarrow> nat \<Rightarrow> search_result) \<Rightarrow> 'w fill_op \<Rightarrow> dynbuf \<times> nat \<Rightarrow> 'w \<Rightarrow> error_code \<Rightarrow> nat \<Rightarrow> nat \<Rightarrow>
   (dynbuf \<times> 'w \<times> (exn + nat \<times> error_code)) option" where
  "until_op_run grow search read_some op w ec n start =
     (case until_op_call grow search op ec n start of
        (op1, DynInitiate pos len) \<Rightarrow>
          (case read_some w len of (w1, bs, ec1) \<Rightarrow>
             until_op_run grow search read_some (db_fill pos bs (fst op1), snd op1) w1 ec1 (length bs) 0)
      | (op1, DynComplete ec1 k) \<Rightarrow> Some (fst op1, w, Inr (k, ec1))
      | (op1, DynThrow e) \<Rightarrow> Some (fst op1, w, Inl e))"

definition async_read_until_char :: "growth \<Rightarrow> 'w fill_op \<Rightarrow> dynbuf \<Rightarrow> byte \<Rightarrow> 'w \<Rightarrow> 'w until_result" where
  "async_read_until_char grow read_some b delim w = until_op_run grow (char_search delim) read_some (b, 0) w no_error 0 1"

definition async_read_until_string :: "growth \<Rightarrow> 'w fill_op \<Rightarrow> dynbuf \<Rightarrow> byte list \<Rightarrow> 'w \<Rightarrow> 'w until_result" where
  "async_read_until_string grow read_some b delim w = until_op_run grow (string_search delim) read_some (b, 0) w no_error 0 1"

definition async_read_until_match ::
  "growth \<Rightarrow> 'w fill_op \<Rightarrow> dynbuf \<Rightarrow> (byte list \<Rightarrow> nat \<Rightarrow> nat \<times> bool) \<Rightarrow> 'w \<Rightarrow> 'w until_result" where
  "async_read_until_match grow read_some b match_condition w =
     until_op_run grow (match_search match_condition) read_some (b, 0) w no_error 0 1"

section \<open>What a search promises\<close>

text \<open>
  \<open>match_end data n\<close>: the first match in the data ends before position \<open>n\<close>. \<open>resumable data p\<close>: no match
  in the data or any extension of it starts before \<open>p\<close>.
\<close>

text \<open>A stream whose reads of nothing do nothing, and whose successes carry the default error code.\<close>

definition reads_plainly :: "'w fill_op \<Rightarrow> bool" where
  "reads_plainly s \<longleftrightarrow> (\<forall>w. s w 0 = (w, [], no_error)) \<and>
     (\<forall>w n. \<not> ec_failed (snd (snd (s w n))) \<longrightarrow> snd (snd (s w n)) = no_error)"

lemma reads_plainlyD:
  assumes "reads_plainly s" "s w n = (w1, bs, ec)" "\<not> ec_failed ec"
  shows "ec = no_error"
proof -
  have "\<not> ec_failed (snd (snd (s w n))) \<longrightarrow> snd (snd (s w n)) = no_error"
    using assms(1) unfolding reads_plainly_def by blast
  then show ?thesis using assms(2,3) by simp
qed

locale until_search =
  fixes search :: "byte list \<Rightarrow> nat \<Rightarrow> search_result"
    and match_end :: "byte list \<Rightarrow> nat \<Rightarrow> bool"
    and resumable :: "byte list \<Rightarrow> nat \<Rightarrow> bool"
  assumes start_law: "resumable data 0"
    and found_law: "resumable data p \<Longrightarrow> search data p = Found n \<Longrightarrow> match_end data n \<and> n \<le> length data"
    and restart_law: "resumable data p \<Longrightarrow> search data p = Restart q \<Longrightarrow>
      (\<nexists>n. match_end data n) \<and> q \<le> length data \<and> resumable (data @ tail) q"
begin

lemma until_loop_read:
  assumes "db_within b" "search (db_data b) p = Restart q" "d_size b \<noteq> d_max_size b"
    and "m = db_read_size 65536 b" "s w m = (w1, bs, ec)"
  shows "until_loop grow search s b w p =
    (if ec_failed ec then Some (db_receive grow m bs b, w1, Inr (0, ec))
     else until_loop grow search s (db_receive grow m bs b) w1 q)"
  using assms by (subst until_loop.simps) (simp add: db_read_round db_receive_def)

lemma until_loop_correct:
  assumes law: "fills inc s" and progress: "fill_progress s"
  shows "db_within b \<Longrightarrow> resumable (db_data b) p \<Longrightarrow>
    \<exists>b' w' n ec k. until_loop grow search s b w p = Some (b', w', Inr (n, ec)) \<and> db_moved inc b w b' w' k \<and>
      (ec = no_error \<and> match_end (db_data b') n \<and> n \<le> length (db_data b') \<or>
       n = 0 \<and> ec = misc_ec not_found \<and> (\<nexists>i. match_end (db_data b') i) \<and> d_size b' = d_max_size b' \<or>
       n = 0 \<and> ec_failed ec \<and> (\<exists>j \<le> k. \<nexists>i. match_end (db_data b @ take j (inc w)) i))"
proof (induction "d_max_size b - d_size b" arbitrary: b w p rule: less_induct)
  case less
  note in_b = less.prems(1) and res = less.prems(2)
  show ?case
  proof (cases "search (db_data b) p")
    case (Found n)
    with found_law [OF res Found] in_b show ?thesis
      by (subst until_loop.simps)
        (intro exI [of _ b] exI [of _ w] exI [of _ n] exI [of _ no_error] exI [of _ 0], simp)
  next
    case (Restart q)
    note r = restart_law [OF res Restart]
    show ?thesis
    proof (cases "d_size b = d_max_size b")
      case True
      with Restart r in_b show ?thesis
        by (subst until_loop.simps)
          (intro exI [of _ b] exI [of _ w] exI [of _ 0] exI [of _ "misc_ec not_found"] exI [of _ 0], simp)
    next
      case False
      define m where "m = db_read_size 65536 b"
      have m: "0 < m"
        using db_read_size_props(3) [OF in_b, of 65536] False unfolding m_def by linarith
      obtain w1 bs ec where o: "s w m = (w1, bs, ec)" by (metis prod_cases3)
      define b1 where "b1 = db_receive grow m bs b"
      have mv: "db_moved inc b w b1 w1 (length bs)"
        unfolding b1_def m_def by (rule db_moved_receive [OF in_b law o [unfolded m_def]])
      have step: "until_loop grow search s b w p =
          (if ec_failed ec then Some (b1, w1, Inr (0, ec)) else until_loop grow search s b1 w1 q)"
        unfolding b1_def by (rule until_loop_read [where s = s and w = w, OF in_b Restart False m_def o])
      show ?thesis
      proof (cases "ec_failed ec")
        case True
        with step mv r show ?thesis
          by (intro exI [of _ b1] exI [of _ w1] exI [of _ 0] exI [of _ ec] exI [of _ "length bs"])
            (auto intro: exI [of _ 0])
      next
        case ok: False
        then have "0 < length bs"
          using fill_progressD [OF progress o m] by simp
        then have dec: "d_max_size b1 - d_size b1 < d_max_size b - d_size b"
          using db_moved_size [OF in_b mv] mv unfolding db_moved_def db_within_def by linarith
        have in1: "db_within b1" and d1: "db_data b1 = db_data b @ take (length bs) (inc w)"
          and w1: "inc w1 = drop (length bs) (inc w)" and lb: "length bs \<le> length (inc w)"
          using mv by (simp_all add: db_moved_def)
        have "resumable (db_data b1) q"
          unfolding d1 using r by blast
        from less.hyps [OF dec in1 this, of w1] obtain b' w' n ec' k where
          run: "until_loop grow search s b1 w1 q = Some (b', w', Inr (n, ec'))" "db_moved inc b1 w1 b' w' k" and
          res': "ec' = no_error \<and> match_end (db_data b') n \<and> n \<le> length (db_data b') \<or>
            n = 0 \<and> ec' = misc_ec not_found \<and> (\<nexists>i. match_end (db_data b') i) \<and> d_size b' = d_max_size b' \<or>
            n = 0 \<and> ec_failed ec' \<and> (\<exists>j \<le> k. \<nexists>i. match_end (db_data b1 @ take j (inc w1)) i)"
          by blast
        have "\<exists>j \<le> length bs + k. \<nexists>i. match_end (db_data b @ take j (inc w)) i"
          if "\<exists>j \<le> k. \<nexists>i. match_end (db_data b1 @ take j (inc w1)) i"
        proof -
          from that obtain j where "j \<le> k" "\<nexists>i. match_end (db_data b @ take (length bs + j) (inc w)) i"
            by (auto simp: d1 w1 take_add)
          then show ?thesis by (intro exI [of _ "length bs + j"]) simp
        qed
        with run res' step ok db_moved_trans [OF mv run(2)] show ?thesis
          by (intro exI [of _ b'] exI [of _ w'] exI [of _ n] exI [of _ ec'] exI [of _ "length bs + k"]) auto
      qed
    qed
  qed
qed

lemma until_op_first:
  assumes "db_within b" "search (db_data b) p = Restart q" "d_size b \<noteq> d_max_size b" "m = db_read_size 65536 b"
  shows "until_op_call grow search (b, p) ec n (Suc 0) = ((db_resize grow (d_size b + m) b, q), DynInitiate (d_size b) m)"
  using assms by (simp add: until_op_call_def until_scan_def dyn_initiate_def db_read_round)

lemma until_op_next:
  assumes "bs \<noteq> []" "\<not> ec_failed ec" "b1 = db_receive grow m bs b" "db_within b1"
  shows "until_op_call grow search (db_fill (d_size b) bs (db_resize grow (d_size b + m) b), q) ec (length bs) 0 =
    (case search (db_data b1) q of
       Found n \<Rightarrow> ((b1, n), until_finish ec n)
     | Restart q1 \<Rightarrow>
         if d_size b1 = d_max_size b1 then ((b1, size_max), until_finish ec size_max)
         else until_op_call grow search (b1, q) ec 0 (Suc 0))"
proof -
  have "db_commit grow (length bs) (db_fill (d_size b) bs (db_resize grow (d_size b + m) b)) = b1"
    by (simp add: assms(3) db_receive_def)
  with assms db_read_size_props(3) [OF assms(4), of 65536] show ?thesis
    by (simp add: until_op_call_def until_scan_def Let_def split: search_result.split)
qed

lemma until_op_run_loop:
  assumes law: "fills inc s" and progress: "fill_progress s" and plain: "reads_plainly s"
  shows "db_within b \<Longrightarrow> resumable (db_data b) p \<Longrightarrow> search (db_data b) p = Restart q \<Longrightarrow> d_size b \<noteq> d_max_size b \<Longrightarrow>
    d_size b + length (inc w) < size_max \<Longrightarrow> start = Suc 0 \<Longrightarrow>
    until_op_run grow search s (b, p) w ec n start = until_loop grow search s b w p"
proof (induction "d_max_size b - d_size b" arbitrary: b w p q ec n start rule: less_induct)
  case less
  note in_b = less.prems(1) and res = less.prems(2) and nf = less.prems(3) and room = less.prems(4)
  define m where "m = db_read_size 65536 b"
  have m: "0 < m"
    using db_read_size_props(3) [OF in_b, of 65536] room unfolding m_def by linarith
  obtain w1 bs ec1 where o: "s w m = (w1, bs, ec1)" by (metis prod_cases3)
  define b1 where "b1 = db_receive grow m bs b"
  have mv: "db_moved inc b w b1 w1 (length bs)"
    unfolding b1_def m_def by (rule db_moved_receive [OF in_b law o [unfolded m_def]])
  have in1: "db_within b1" and d1: "db_data b1 = db_data b @ take (length bs) (inc w)"
    and w1: "inc w1 = drop (length bs) (inc w)" and lb: "length bs \<le> length (inc w)"
    using mv by (simp_all add: db_moved_def)
  have sz1: "d_size b1 = d_size b + length bs" by (rule db_moved_size [OF in_b mv])
  have res1: "resumable (db_data b1) q"
    using restart_law [OF res nf] unfolding d1 by blast
  have "q \<le> d_size b"
    using restart_law [OF res nf] in_b by (simp add: db_within_def)
  then have q: "q < size_max"
    using less.prems(5) by linarith
  have loop: "until_loop grow search s b w p =
      (if ec_failed ec1 then Some (b1, w1, Inr (0, ec1)) else until_loop grow search s b1 w1 q)"
    unfolding b1_def by (rule until_loop_read [where s = s and w = w, OF in_b nf room m_def o])
  let ?c = "db_fill (d_size b) bs (db_resize grow (d_size b + m) b)"
  have run: "until_op_run grow search s (b, p) w ec n start = until_op_run grow search s (?c, q) w1 ec1 (length bs) 0"
    by (subst until_op_run.simps) (simp add: less.prems(6) until_op_first [OF in_b nf room m_def] o)
  show ?case
  proof (cases "ec_failed ec1")
    case True
    have "until_op_call grow search (?c, q) ec1 (length bs) 0 = ((b1, q), DynComplete ec1 0)"
      using True q by (simp add: until_op_call_def until_finish_def b1_def db_receive_def Let_def)
    then show ?thesis
      unfolding run loop by (subst until_op_run.simps) (simp add: True)
  next
    case ok: False
    then have nz: "bs \<noteq> []"
      using fill_progressD [OF progress o m] by blast
    have e: "ec1 = no_error"
      using reads_plainlyD [OF plain o ok] .
    note nx = until_op_next [OF nz ok b1_def in1, of q]
    show ?thesis
    proof (cases "search (db_data b1) q")
      case (Found k)
      have "k < size_max"
        using found_law [OF res1 Found] in1 sz1 lb less.prems(5) by (simp add: db_within_def)
      with Found ok show ?thesis
        unfolding run loop
        by (subst until_op_run.simps, subst until_loop.simps) (simp add: nx [unfolded e] until_finish_def e)
    next
      case (Restart q1)
      show ?thesis
      proof (cases "d_size b1 = d_max_size b1")
        case True
        with Restart ok show ?thesis
          unfolding run loop
          by (subst until_op_run.simps, subst until_loop.simps) (simp add: nx until_finish_def)
      next
        case False
        have "until_op_run grow search s (?c, q) w1 ec1 (length bs) 0 = until_op_run grow search s (b1, q) w1 ec1 0 (Suc 0)"
          using False Restart by (subst (1 2) until_op_run.simps) (simp add: nx)
        also have "\<dots> = until_loop grow search s b1 w1 q"
        proof (rule less.hyps [OF _ in1 res1 Restart False _ refl])
          show "d_max_size b1 - d_size b1 < d_max_size b - d_size b"
            using sz1 length_greater_0_conv [of bs] nz mv unfolding db_moved_def db_within_def by linarith
          show "d_size b1 + length (inc w1) < size_max"
            using sz1 w1 lb less.prems(5) by simp
        qed
        finally show ?thesis
          unfolding run loop using ok by simp
      qed
    qed
  qed
qed

text \<open>From the start, where the operation first issues a read even if the data has a match already.\<close>

lemma until_op_start:
  assumes law: "fills inc s" and progress: "fill_progress s" and plain: "reads_plainly s"
    and in_b: "db_within b" and small: "d_size b + length (inc w) < size_max"
  shows "map_option (\<lambda>(b, w, r). (db_data b, w, r)) (until_op_run grow search s (b, 0) w no_error 0 1) =
    map_option (\<lambda>(b, w, r). (db_data b, w, r)) (until_loop grow search s b w 0)"
proof -
  have z: "s w 0 = (w, [], no_error)"
    using plain by (simp add: reads_plainly_def)
  have st: "db_settled b" "length (db_data b) = d_size b" "d_size b \<le> d_max_size b"
    using in_b by (simp_all add: db_within_def)
  note empty = db_receive_props(2) [of b "[]" 0 grow, simplified, OF st(1)]
  have run: "map_option (\<lambda>(b, w, r). (db_data b, w, r)) (until_op_run grow search s (b, 0) w no_error 0 1) =
      Some (db_data b, w, Inr (if p = size_max then 0 else p, if p = size_max then misc_ec not_found else no_error))"
    if "until_scan search b 0 = (p, 0)" for p
  proof -
    have first: "until_op_call grow search (b, 0) no_error 0 (Suc 0) = ((db_resize grow (d_size b) b, p), DynInitiate (d_size b) 0)"
      using that db_prepare_ok [OF st(1,3), of 0 grow] by (simp add: until_op_call_def dyn_initiate_def)
    have "until_op_call grow search (db_fill (d_size b) [] (db_resize grow (d_size b) b), p) no_error 0 0 =
        ((db_receive grow 0 [] b, p), until_finish no_error p)"
      by (simp add: until_op_call_def db_receive_def Let_def)
    then have "until_op_run grow search s (db_fill (d_size b) [] (db_resize grow (d_size b) b), p) w no_error 0 0 =
        Some (db_receive grow 0 [] b, w, Inr (if p = size_max then 0 else p, if p = size_max then misc_ec not_found else no_error))"
      by (subst until_op_run.simps) (simp add: until_finish_def ec_failed_def no_error_def)
    then show ?thesis
      using empty by (subst until_op_run.simps) (simp add: first z)
  qed
  show ?thesis
  proof (cases "search (db_data b) 0")
    case (Found k)
    then have "k < size_max"
      using found_law [OF start_law Found] st small by simp
    with run [of k] Found show ?thesis
      by (subst until_loop.simps) (simp add: until_scan_def)
  next
    case (Restart q)
    show ?thesis
    proof (cases "d_size b = d_max_size b")
      case True
      with run [of size_max] Restart show ?thesis
        by (subst until_loop.simps) (simp add: until_scan_def)
    next
      case False
      from until_op_run_loop [where w = w, OF law progress plain in_b start_law Restart False small]
      show ?thesis by simp
    qed
  qed
qed

end

section \<open>The searches keep the promise\<close>

text \<open>The first match of a character ends one past its first occurrence.\<close>

definition char_end :: "byte \<Rightarrow> byte list \<Rightarrow> nat \<Rightarrow> bool" where
  "char_end delim data n \<longleftrightarrow> 0 < n \<and> n \<le> length data \<and> data ! (n - 1) = delim \<and> delim \<notin> set (take (n - 1) data)"

lemma std_find_props:
  "std_find xs d \<le> length xs" "d \<notin> set (take (std_find xs d) xs)"
  "std_find xs d < length xs \<Longrightarrow> xs ! std_find xs d = d" "std_find xs d = length xs \<longleftrightarrow> d \<notin> set xs"
  by (induction xs) auto

lemma char_end_none: "(\<nexists>n. char_end delim data n) \<longleftrightarrow> delim \<notin> set data"
proof
  assume none: "\<nexists>n. char_end delim data n"
  show "delim \<notin> set data"
  proof
    assume "delim \<in> set data"
    then have "std_find data delim < length data"
      using std_find_props(1,4) [of data delim] by linarith
    then have "char_end delim data (Suc (std_find data delim))"
      using std_find_props [where xs = data and d = delim] by (simp add: char_end_def)
    with none show False by blast
  qed
next
  assume "delim \<notin> set data"
  then show "\<nexists>n. char_end delim data n"
    using nth_mem [of "n - 1" data for n] by (fastforce simp: char_end_def)
qed

interpretation until_char: until_search "char_search delim" "char_end delim"
  "\<lambda>data p. p \<le> length data \<and> delim \<notin> set (take p data)" for delim
proof
  fix data :: "byte list" and p n q and tail :: "byte list"
  let ?i = "std_find (drop p data) delim"
  show "0 \<le> length data \<and> delim \<notin> set (take 0 data)" by simp
  assume res: "p \<le> length data \<and> delim \<notin> set (take p data)"
  show "char_end delim data n \<and> n \<le> length data" if "char_search delim data p = Found n"
  proof -
    have n: "n = Suc (p + ?i)" "p + ?i < length data"
      using that res std_find_props(1) [of "drop p data" delim] by (auto simp: char_search_def Let_def split: if_splits)
    then have "data ! (p + ?i) = delim" "delim \<notin> set (take (p + ?i) data)"
      using res std_find_props(2,3) [where xs = "drop p data" and d = delim] by (simp_all add: take_add less_diff_conv2 add.commute)
    with n show ?thesis by (simp add: char_end_def)
  qed
  show "(\<nexists>n. char_end delim data n) \<and> q \<le> length data \<and> q \<le> length (data @ tail) \<and> delim \<notin> set (take q (data @ tail))"
    if "char_search delim data p = Restart q"
  proof -
    have q: "q = length data" "?i = length (drop p data)"
      using that res by (auto simp: char_search_def Let_def split: if_splits)
    then have "delim \<notin> set (take p data @ drop p data)"
      using res std_find_props(4) [of "drop p data" delim] unfolding set_append by blast
    then have d: "delim \<notin> set data"
      by (simp only: append_take_drop_id not_False_eq_True)
    have "\<nexists>n. char_end delim data n"
      by (rule iffD2 [OF char_end_none d])
    with d show ?thesis
      using q by simp
  qed
qed

text \<open>
  A string occurs at a position of the data, which is never the end; its first match ends at its first
  occurrence plus its length. The search may resume where no earlier position can start a match,
  whatever follows the data.
\<close>

definition occurs_at :: "byte list \<Rightarrow> byte list \<Rightarrow> nat \<Rightarrow> bool" where
  "occurs_at delim data i \<longleftrightarrow> i < length data \<and> i + length delim \<le> length data \<and> take (length delim) (drop i data) = delim"

definition string_end :: "byte list \<Rightarrow> byte list \<Rightarrow> nat \<Rightarrow> bool" where
  "string_end delim data n \<longleftrightarrow> (\<exists>i. n = i + length delim \<and> occurs_at delim data i \<and> (\<forall>j < i. \<not> occurs_at delim data j))"

lemma string_end_none: "(\<nexists>n. string_end delim data n) \<longleftrightarrow> (\<forall>i. \<not> occurs_at delim data i)"
proof
  assume none: "\<nexists>n. string_end delim data n"
  show "\<forall>i. \<not> occurs_at delim data i"
  proof (intro allI notI)
    fix i assume "occurs_at delim data i"
    from exists_least_iff [of "occurs_at delim data"] this obtain k where
      "occurs_at delim data k" "\<forall>j < k. \<not> occurs_at delim data j" by blast
    with none show False by (auto simp: string_end_def)
  qed
qed (auto simp: string_end_def)

text \<open>The inner loop compares the delimiter with the data from one position.\<close>

lemma test_at_full: "test_at xs ys adv = FullMatch \<longleftrightarrow> length ys \<le> length xs \<and> take (length ys) xs = ys"
  by (induction xs ys adv rule: test_at.induct) auto

lemma test_at_partial:
  "test_at xs ys adv = PartialMatch \<longleftrightarrow> length xs < length ys \<and> take (length xs) ys = xs \<and> (adv \<or> xs \<noteq> [])"
  by (induction xs ys adv rule: test_at.induct) auto

lemma test_at_mismatch:
  assumes "test_at xs ys adv = Mismatch" "xs \<noteq> [] \<or> adv"
  shows "take (length ys) (xs @ zs) \<noteq> ys"
  using assms
proof (induction xs ys adv arbitrary: rule: test_at.induct)
  case (3 x xs y ys adv)
  then show ?case
    by (auto split: if_splits)
qed auto

text \<open>The outer loop: the first position from which the whole delimiter, or all that is left, matches.\<close>

lemma partial_search_props:
  "partial_search xs delim i = (k, full) \<Longrightarrow>
    i \<le> k \<and> k \<le> i + length xs \<and> (\<forall>j. i \<le> j \<longrightarrow> j < k \<longrightarrow> test_at (drop (j - i) xs) delim False = Mismatch) \<and>
    (full \<longrightarrow> k < i + length xs \<and> test_at (drop (k - i) xs) delim False = FullMatch) \<and>
    (\<not> full \<longrightarrow> k < i + length xs \<longrightarrow> test_at (drop (k - i) xs) delim False = PartialMatch)"
proof (induction xs delim i rule: partial_search.induct)
  case (2 x xs delim i)
  show ?case
  proof (cases "test_at (x # xs) delim False")
    case Mismatch
    with 2 have ih: "Suc i \<le> k \<and> k \<le> Suc i + length xs \<and>
        (\<forall>j. Suc i \<le> j \<longrightarrow> j < k \<longrightarrow> test_at (drop (j - Suc i) xs) delim False = Mismatch) \<and>
        (full \<longrightarrow> k < Suc i + length xs \<and> test_at (drop (k - Suc i) xs) delim False = FullMatch) \<and>
        (\<not> full \<longrightarrow> k < Suc i + length xs \<longrightarrow> test_at (drop (k - Suc i) xs) delim False = PartialMatch)"
      by simp
    have shift: "drop (j - i) (x # xs) = drop (j - Suc i) xs" if "Suc i \<le> j" for j
    proof -
      have "j - i = Suc (j - Suc i)" using that by simp
      then show ?thesis by simp
    qed
    have "test_at (drop (j - i) (x # xs)) delim False = Mismatch" if "i \<le> j" "j < k" for j
      using Mismatch ih that shift [of j] by (cases "j = i") auto
    with ih shift [of k] show ?thesis by auto
  qed (use 2 in auto)
qed auto

text \<open>No match can start before \<open>p\<close>.\<close>

definition string_resumable :: "byte list \<Rightarrow> byte list \<Rightarrow> nat \<Rightarrow> bool" where
  "string_resumable delim data p \<longleftrightarrow> p \<le> length data \<and> (\<forall>tail j. j < p \<longrightarrow> \<not> occurs_at delim (data @ tail) j)"

lemma mismatch_no_occurrence:
  assumes "test_at (drop j data) delim False = Mismatch" "j < length data"
  shows "\<not> occurs_at delim (data @ tail) j"
  using test_at_mismatch [OF assms(1), of tail] assms(2) by (simp add: occurs_at_def)

lemma string_search_props:
  assumes res: "string_resumable delim data p"
  shows "string_search delim data p = Found n \<Longrightarrow> string_end delim data n \<and> n \<le> length data"
    and "string_search delim data p = Restart q \<Longrightarrow>
      (\<nexists>n. string_end delim data n) \<and> q \<le> length data \<and> string_resumable delim (data @ tail) q"
proof -
  obtain k full where ps: "partial_search (drop p data) delim p = (k, full)" by (cases "partial_search (drop p data) delim p")
  have p: "p \<le> length data" and before: "\<And>tail j. j < p \<Longrightarrow> \<not> occurs_at delim (data @ tail) j"
    using res by (auto simp: string_resumable_def)
  note P = partial_search_props [OF ps]
  have k: "p \<le> k" "k \<le> length data"
    using P p by auto
  have none: "\<not> occurs_at delim (data @ tail) j" if "j < k" for j tail
  proof (cases "j < p")
    case False
    then have "test_at (drop j data) delim False = Mismatch"
      using P that by (metis drop_drop le_add_diff_inverse2 linorder_not_less)
    then show ?thesis
      using that k by (intro mismatch_no_occurrence) auto
  qed (rule before)
  have at_k: "drop (k - p) (drop p data) = drop k data"
    using k by simp
  show "string_end delim data n \<and> n \<le> length data" if "string_search delim data p = Found n"
  proof -
    have f: "full" "k < length data" "n = k + length delim"
      using that ps P p by (auto simp: string_search_def split: if_splits)
    then have "occurs_at delim data k"
      using P at_k by (auto simp: occurs_at_def test_at_full)
    with f none [where tail = "[]"] show ?thesis
      by (auto simp: string_end_def occurs_at_def)
  qed
  show "(\<nexists>n. string_end delim data n) \<and> q \<le> length data \<and> string_resumable delim (data @ tail) q"
    if "string_search delim data p = Restart q"
  proof -
    have f: "q = k" "\<not> full"
      using that ps P p k by (auto simp: string_search_def split: if_splits)
    have "\<not> occurs_at delim data j" for j
    proof (cases "j < k")
      case True
      with none [of j "[]"] show ?thesis by simp
    next
      case False
      show ?thesis
      proof (cases "k < length data")
        case True
        then have "length (drop k data) < length delim"
          using P f at_k p by (auto simp: test_at_partial)
        with False show ?thesis by (auto simp: occurs_at_def)
      qed (use False k in \<open>auto simp: occurs_at_def\<close>)
    qed
    then have "\<nexists>n. string_end delim data n"
      using string_end_none by blast
    with f k none show ?thesis
      by (simp add: string_resumable_def)
  qed
qed

interpretation until_string: until_search "string_search delim" "string_end delim" "string_resumable delim" for delim
proof
  show "string_resumable delim data 0" for data
    by (simp add: string_resumable_def)
qed (use string_search_props in blast)+

section \<open>Properties\<close>

text \<open>What a call reports: the end of the first match in the data, by now in the buffer; that the buffer is
  full without one; or the stream's error, which came when the data so far had none.\<close>

definition until_report :: "(byte list \<Rightarrow> nat \<Rightarrow> bool) \<Rightarrow> byte list \<Rightarrow> byte list \<Rightarrow> nat \<Rightarrow> nat \<Rightarrow> error_code \<Rightarrow> bool" where
  "until_report match_end old new maximum n ec \<longleftrightarrow>
     ec = no_error \<and> match_end (old @ new) n \<and> n \<le> length (old @ new) \<or>
     n = 0 \<and> ec = misc_ec not_found \<and> (\<nexists>i. match_end (old @ new) i) \<and> length (old @ new) = maximum \<or>
     n = 0 \<and> ec_failed ec \<and> (\<exists>j \<le> length new. \<nexists>i. match_end (old @ take j new) i)"

context until_search
begin

lemma until_report_correct:
  assumes "fills inc s" "fill_progress s" "db_within b"
  shows "\<exists>b' w' n ec new. until_loop grow search s b w 0 = Some (b', w', Inr (n, ec)) \<and> db_data b' = db_data b @ new \<and>
    inc w = new @ inc w' \<and> length (db_data b') \<le> d_max_size b \<and> until_report match_end (db_data b) new (d_max_size b) n ec"
proof -
  obtain b' w' n ec k where r: "until_loop grow search s b w 0 = Some (b', w', Inr (n, ec))" "db_moved inc b w b' w' k" and
    rep: "ec = no_error \<and> match_end (db_data b') n \<and> n \<le> length (db_data b') \<or>
      n = 0 \<and> ec = misc_ec not_found \<and> (\<nexists>i. match_end (db_data b') i) \<and> d_size b' = d_max_size b' \<or>
      n = 0 \<and> ec_failed ec \<and> (\<exists>j \<le> k. \<nexists>i. match_end (db_data b @ take j (inc w)) i)"
    using until_loop_correct [where w = w and grow = grow, OF assms(1-3) start_law] by (elim exE conjE) (rule that, assumption+)
  define new where "new = take k (inc w)"
  have mv: "db_data b' = db_data b @ new" "inc w = new @ inc w'" "length new = k" "d_max_size b' = d_max_size b"
    using r(2) by (simp_all add: db_moved_def new_def)
  have sz: "length (db_data b') = d_size b'" "d_size b' \<le> d_max_size b'"
    using r(2) db_data_size [of b'] unfolding db_moved_def db_within_def by blast+
  have "take j new = take j (inc w)" if "j \<le> k" for j
    using that by (simp add: new_def min_def)
  then have early: "\<exists>j \<le> length new. \<nexists>i. match_end (db_data b @ take j new) i"
    if "\<exists>j \<le> k. \<nexists>i. match_end (db_data b @ take j (inc w)) i"
  proof -
    from that obtain j where "j \<le> length new" "\<nexists>i. match_end (db_data b @ take j (inc w)) i"
      unfolding mv(3) by blast
    then show ?thesis
      using \<open>\<And>j. j \<le> k \<Longrightarrow> take j new = take j (inc w)\<close> unfolding mv(3) by (intro exI [of _ j]) simp
  qed
  have "until_report match_end (db_data b) new (d_max_size b) n ec"
    using rep
  proof (elim disjE)
    assume "n = 0 \<and> ec_failed ec \<and> (\<exists>j \<le> k. \<nexists>i. match_end (db_data b @ take j (inc w)) i)"
    with early show ?thesis unfolding until_report_def by blast
  qed (use sz mv in \<open>simp_all add: until_report_def\<close>)
  with r(1) mv sz show ?thesis
    by (intro exI [of _ b'] exI [of _ w'] exI [of _ n] exI [of _ ec] exI [of _ new]) simp
qed

end

text \<open>\<open>read_until\<close> with a character: it returns without throwing, the bytes taken from the stream are
  appended to the data in order, within the maximum, and it reports the position one past the first
  occurrence of the character in the data, however the bytes arrive; or a full buffer without the
  character; or an error of the stream met when the data had no occurrence.\<close>

theorem read_until_char_correct:
  assumes "fills incoming read_some" and "fill_progress read_some" and "db_within b"
  shows "\<exists>b' w' n ec new. read_until_char grow read_some b delim w = Some (b', w', Inr (n, ec)) \<and>
    db_data b' = db_data b @ new \<and> incoming w = new @ incoming w' \<and> length (db_data b') \<le> d_max_size b \<and>
    until_report (char_end delim) (db_data b) new (d_max_size b) n ec"
  unfolding read_until_char_def by (rule until_char.until_report_correct [OF assms])

text \<open>C12. \<open>read_until\<close> with a string: it returns without throwing, the bytes taken from the stream are
  appended to the data in order, within the maximum, and it reports the end of the first occurrence
  of the string in the data, also when it arrives in pieces, as restarting the search at a partial
  match loses no occurrence; or a full buffer without the string; or an error of the stream met when
  the data had no occurrence.\<close>

theorem read_until_string_correct:
  assumes "fills incoming read_some" and "fill_progress read_some" and "db_within b"
  shows "\<exists>b' w' n ec new. read_until_string grow read_some b delim w = Some (b', w', Inr (n, ec)) \<and>
    db_data b' = db_data b @ new \<and> incoming w = new @ incoming w' \<and> length (db_data b') \<le> d_max_size b \<and>
    until_report (string_end delim) (db_data b) new (d_max_size b) n ec"
  unfolding read_until_string_def by (rule until_string.until_report_correct [OF assms])

text \<open>C13. The asynchronous operations end with the data, the count and the error code of the synchronous
  ones, though they first issue a read, of no bytes when the data has a match or the buffer is full.\<close>

theorem async_read_until_is_sync:
  assumes "fills incoming read_some" and "fill_progress read_some" and "reads_plainly read_some"
    and "db_within b" and "d_size b + length (incoming w) < size_max"
  shows "map_option (\<lambda>(b, w, r). (db_data b, w, r)) (async_read_until_string grow read_some b delim w) =
      map_option (\<lambda>(b, w, r). (db_data b, w, r)) (read_until_string grow read_some b delim w) \<and>
    map_option (\<lambda>(b, w, r). (db_data b, w, r)) (async_read_until_char grow read_some b c w) =
      map_option (\<lambda>(b, w, r). (db_data b, w, r)) (read_until_char grow read_some b c w)"
  unfolding async_read_until_string_def async_read_until_char_def read_until_string_def read_until_char_def
  using until_string.until_op_start [OF assms] until_char.until_op_start [OF assms] by blast

text \<open>A read that completes with no bytes and no error, in a buffer that does not hold the delimiter and
  is not full: the asynchronous operation reports success, and as the bytes up to the delimiter all
  the bytes there are.\<close>

theorem async_until_reports_no_match:
  assumes "db_within b" and "d_size b < d_max_size b" and "delim \<notin> set (db_data b)" and "d_size b < size_max"
  shows "\<exists>b'. async_read_until_char grow (\<lambda>w n. (w, [], no_error)) b delim w = Some (b', w, Inr (length (db_data b), no_error)) \<and>
    db_data b' = db_data b"
proof -
  define m where "m = db_read_size 65536 b"
  have "char_search delim (db_data b) 0 = Restart (length (db_data b))"
    using assms(3) std_find_props(4) by (simp add: char_search_def)
  note first = until_char.until_op_first [OF assms(1) this _ m_def, of grow no_error 0]
  have st: "db_settled b" "length (db_data b) = d_size b"
    using assms(1) by (simp_all add: db_within_def)
  let ?c = "db_fill (d_size b) [] (db_resize grow (d_size b + m) b)"
  have "until_op_call grow (char_search delim) (?c, d_size b) no_error 0 0 =
      ((db_receive grow m [] b, d_size b), DynComplete no_error (d_size b))"
    using assms(4) by (simp add: until_op_call_def until_finish_def db_receive_def ec_failed_def no_error_def)
  then have "until_op_run grow (char_search delim) (\<lambda>w n. (w, [], no_error)) (?c, d_size b) w no_error 0 0 =
      Some (db_receive grow m [] b, w, Inr (d_size b, no_error))"
    by (subst until_op_run.simps) simp
  then have "async_read_until_char grow (\<lambda>w n. (w, [], no_error)) b delim w = Some (db_receive grow m [] b, w, Inr (d_size b, no_error))"
    unfolding async_read_until_char_def using first assms(2) st(2) by (subst until_op_run.simps) simp
  then show ?thesis
    using db_receive_props(2) [of b "[]" m grow] st by simp
qed

section \<open>Witnesses\<close>

lemma pair_read_plain: "reads_plainly pair_read"
  by (auto simp: reads_plainly_def)

theorem read_until_char_correct_witness:
  "\<exists>b' w' n ec new. read_until_char (\<lambda>c n. n) pair_read (db_new [9] 15 20) 4 [1, 2, 3, 4, 5] = Some (b', w', Inr (n, ec)) \<and>
     db_data b' = 9 # new \<and> [1, 2, 3, 4, 5] = new @ w' \<and> until_report (char_end 4) [9] new 20 n ec"
  using read_until_char_correct [OF pair_read_stream db_within_new, of "[9]" 20 "\<lambda>c n. n" 15 4 "[1, 2, 3, 4, 5]"] by auto

theorem read_until_string_correct_witness:
  "\<exists>b' w' n ec new. read_until_string (\<lambda>c n. n) pair_read (db_new [1] 15 20) [1, 2, 3] [1, 2, 3, 4, 5] = Some (b', w', Inr (n, ec)) \<and>
     db_data b' = 1 # new \<and> [1, 2, 3, 4, 5] = new @ w' \<and> until_report (string_end [1, 2, 3]) [1] new 20 n ec"
  using read_until_string_correct [OF pair_read_stream db_within_new, of "[1]" 20 "\<lambda>c n. n" 15 "[1, 2, 3]" "[1, 2, 3, 4, 5]"] by auto

theorem async_read_until_is_sync_witness:
  "map_option (\<lambda>(b, w, r). (db_data b, w, r)) (async_read_until_string (\<lambda>c n. n) pair_read (db_new [1] 15 20) [1, 2] [1, 2, 3]) =
     map_option (\<lambda>(b, w, r). (db_data b, w, r)) (read_until_string (\<lambda>c n. n) pair_read (db_new [1] 15 20) [1, 2] [1, 2, 3])"
  using async_read_until_is_sync [OF pair_read_stream pair_read_plain db_within_new, of "[1]" 20 15 "[1, 2, 3]" "\<lambda>c n. n" "[1, 2]"]
  by (simp add: size_max_def)

theorem async_until_reports_no_match_witness:
  "\<exists>b'. async_read_until_char (\<lambda>c n. n) (\<lambda>w n. (w, [], no_error)) (db_new [1, 2] 15 20) 7 (0::nat) = Some (b', 0, Inr (Suc 1, no_error)) \<and>
     db_data b' = [1, 2]"
  using async_until_reports_no_match [OF db_within_new, of "[1, 2]" 20 15 7 "\<lambda>c n. n" "0::nat"] by (simp add: size_max_def)

end
