(* ===== verification/ObjectPool.thy ===== *)
theory ObjectPool
  imports AsioPrelude
begin

text \<open>
  \<open>include/asio/detail/memory/object_pool.hpp\<close>: the live list, doubly linked, and the free list, singly
  linked, of pooled objects. The \<open>next_\<close> and \<open>prev_\<close> fields of the objects are functions in the state.
  The address that \<open>create\<close> returns is an argument of \<open>alloc\<close>; it is that of no object of the pool.
\<close>

record 'a pool =
  live_list :: "'a ptr"
  free_list :: "'a ptr"
  p_next :: "'a field"
  p_prev :: "'a field"

definition pool_new :: "'a field \<Rightarrow> 'a field \<Rightarrow> 'a pool" where
  "pool_new nx pv = \<lparr>live_list = None, free_list = None, p_next = nx, p_prev = pv\<rparr>"

definition pool_first :: "'a pool \<Rightarrow> 'a ptr" where
  "pool_first p = live_list p"

definition pool_alloc :: "'a \<Rightarrow> 'a pool \<Rightarrow> 'a pool \<times> 'a" where
  "pool_alloc created p =
     (let (obj, p1) = (case free_list p of Some x \<Rightarrow> (x, p\<lparr>free_list := p_next p x\<rparr>) | None \<Rightarrow> (created, p))
      in (p1\<lparr>p_next := (p_next p1)(obj := live_list p1),
             p_prev := front_prev (p_prev p1) (live_list p1) obj,
             live_list := Some obj\<rparr>, obj))"

definition pool_free :: "'a \<Rightarrow> 'a pool \<Rightarrow> 'a pool" where
  "pool_free obj p =
     (let p1 = p\<lparr>live_list := unlink_head (p_next p) (live_list p) obj\<rparr>;
          p2 = p1\<lparr>p_next := unlink_next (p_next p1) (p_prev p1) obj\<rparr>;
          p3 = p2\<lparr>p_prev := unlink_prev (p_next p2) (p_prev p2) obj\<rparr>
      in p3\<lparr>p_next := (p_next p3)(obj := free_list p3), p_prev := (p_prev p3)(obj := None), free_list := Some obj\<rparr>)"

text \<open>The destructor's loop, with the objects it destroys; every object is of at most \<open>n\<close>.\<close>

fun destroy_list :: "nat \<Rightarrow> 'a field \<Rightarrow> 'a ptr \<Rightarrow> 'a list option" where
  "destroy_list n nx None = Some []"
| "destroy_list 0 nx (Some x) = None"
| "destroy_list (Suc n) nx (Some x) = map_option (Cons x) (destroy_list n nx (nx x))"

text \<open>The live objects, latest first, and the free ones.\<close>

definition pool_rep :: "'a pool \<Rightarrow> 'a list \<Rightarrow> 'a list \<Rightarrow> bool" where
  "pool_rep p ls fs \<longleftrightarrow> dlist (p_next p) (p_prev p) (live_list p) ls \<and> chain (p_next p) (free_list p) fs \<and>
     set ls \<inter> set fs = {}"

lemma pool_rep_new: "pool_rep (pool_new nx pv) [] []"
  by (simp add: pool_rep_def pool_new_def)

lemma chain_cong: "(\<And>x. x \<in> set xs \<Longrightarrow> n x = m x) \<Longrightarrow> chain n p xs \<longleftrightarrow> chain m p xs"
  by (rule seg_cong)

lemma pool_alloc_reuse:
  assumes "pool_rep p ls (f # fs)"
  shows "pool_rep (fst (pool_alloc created p)) (f # ls) fs \<and> snd (pool_alloc created p) = f"
proof -
  have r: "dlist (p_next p) (p_prev p) (live_list p) ls" "chain (p_next p) (free_list p) (f # fs)" "f \<notin> set ls" "f \<notin> set fs"
      "set ls \<inter> set fs = {}"
    using assms chain_tail_notin [of "p_next p" "free_list p" f fs] by (auto simp: pool_rep_def)
  have "chain ((p_next p)(f := live_list p)) (p_next p f) fs"
    using r(2,4) by (subst chain_cong [where m = "p_next p"]) auto
  with r dlist_push_front [OF r(1,3)] show ?thesis
    by (auto simp: pool_rep_def pool_alloc_def)
qed

lemma pool_alloc_create:
  assumes "pool_rep p ls []" "created \<notin> set ls"
  shows "pool_rep (fst (pool_alloc created p)) (created # ls) [] \<and> snd (pool_alloc created p) = created"
  using assms dlist_push_front [of "p_next p" "p_prev p" "live_list p" ls created]
  by (auto simp: pool_rep_def pool_alloc_def)

lemma pool_free_rep:
  assumes "pool_rep p (xs @ x # ys) fs"
  shows "pool_rep (pool_free x p) (xs @ ys) (x # fs)"
proof -
  let ?nx = "unlink_next (p_next p) (p_prev p) x" and ?pv = "unlink_prev (p_next p) (p_prev p) x"
  have d: "dlist (p_next p) (p_prev p) (live_list p) (xs @ x # ys)" and c: "chain (p_next p) (free_list p) fs"
    and dis: "set (xs @ x # ys) \<inter> set fs = {}"
    using assms by (simp_all add: pool_rep_def)
  have x: "x \<notin> set (xs @ ys)"
    using dseg_distinct [OF d] by simp
  have same: "unlink_prev ?nx (p_prev p) x = ?pv"
    by (rule unlink_prev_after_next [OF d])
  have live: "dlist (?nx(x := free_list p)) (?pv(x := None)) (unlink_head (p_next p) (live_list p) x) (xs @ ys)"
    using dlist_unlink [OF d] x by (simp add: chain_simps)
  have "chain (?nx(x := free_list p)) (free_list p) fs"
  proof (subst chain_cong [where m = "p_next p"])
    fix z assume "z \<in> set fs"
    then have "z \<notin> set (xs @ x # ys)" using dis by blast
    with unlink_outside [OF d, of z] show "(?nx(x := free_list p)) z = p_next p z"
      by auto
  qed (rule c)
  with live dis same x show ?thesis
    by (auto simp: pool_rep_def pool_free_def Let_def)
qed

lemma destroy_list_all:
  "chain nx p xs \<Longrightarrow> length xs \<le> n \<Longrightarrow> destroy_list n nx p = Some xs"
proof (induction xs arbitrary: p n)
  case (Cons x xs)
  then show ?case by (cases n) auto
qed auto

end
