(* ===== verification/EpollReactor.thy ===== *)
theory EpollReactor
  imports Scheduler TimerQueueOps ObjectPool
begin

unbundle bit_operations_syntax

text \<open>
  \<open>include/asio/detail/reactor/epoll_reactor.hpp\<close>, \<open>poll/epoll_reactor.hpp\<close>, \<open>poll/epoll_reactor.ipp\<close> and
  \<open>timeQueue/timer_queue_set.ipp\<close>: the reactor behind the scheduler on Linux. The state of the reactor
  holds the scheduler's and the calling thread's (\<open>None\<close> outside a run call), the descriptor states in
  their pool, the timer queues, the \<open>ec_\<close> field of every operation and the kernel. Queues of
  operations are lists (theory \<open>OpQueue\<close>). Of the kernel, \<open>epoll_ctl\<close>, \<open>epoll_wait\<close> and
  \<open>timerfd_settime\<close> are parameters, and so is \<open>reactor_op::perform\<close>, the virtual function of an
  operation: from the kernel's state to the new one, the status and the \<open>ec_\<close> it sets. Each function
  is modelled whole, as one thread runs it under its locks. Errors of \<open>epoll_ctl\<close> are \<open>errno\<close> values.
\<close>

section \<open>State\<close>

datatype op_type = ReadOp | WriteOp | ExceptOp

text \<open>\<open>connect_op\<close> has the number of \<open>write_op\<close>; the loops over \<open>max_ops\<close> go through the three types.\<close>

abbreviation connect_op :: op_type where "connect_op \<equiv> WriteOp"

datatype op_status = NotDone | Done | DoneAndExhausted

datatype ('o, 'd) operation = UserOp 'o | DescriptorOp 'd

datatype epoll_ctl_op = CtlAdd | CtlMod | CtlDel

datatype 'd epoll_data = Interrupter | TimerFd | Descriptor 'd

definition EPOLLIN :: "32 word" where "EPOLLIN = 0x001"
definition EPOLLPRI :: "32 word" where "EPOLLPRI = 0x002"
definition EPOLLOUT :: "32 word" where "EPOLLOUT = 0x004"
definition EPOLLERR :: "32 word" where "EPOLLERR = 0x008"
definition EPOLLHUP :: "32 word" where "EPOLLHUP = 0x010"
definition EPOLLET :: "32 word" where "EPOLLET = 0x80000000"

definition EPERM :: int where "EPERM = 1"

record 'o descriptor_state =
  ds_descriptor :: int
  registered_events :: "32 word"
  ds_queue :: "op_type \<Rightarrow> 'o list"
  try_speculative :: "op_type \<Rightarrow> bool"
  ds_shutdown :: bool
  task_result :: "32 word"

record ('o, 'd, 'w, 'q, 't, 'a) reactor =
  r_sched :: "('o, 'd) operation sched"
  r_this :: "('o, 'd) operation thread_info option"
  r_signals :: "cond_signal list"
  r_states :: "'d \<Rightarrow> 'o descriptor_state"
  r_pool :: "'d pool"
  r_op_ec :: "'o \<Rightarrow> error_code"
  r_kernel :: 'w
  r_timer_fd :: bool
  r_shutdown :: bool
  timer_queues :: "'q list"
  timer_queue_at :: "'q \<Rightarrow> ('t, 'a, 'o) timer_queue"

type_synonym ('w, 'd) ctl = "'w \<Rightarrow> epoll_ctl_op \<Rightarrow> int \<Rightarrow> 32 word \<Rightarrow> 'd epoll_data \<Rightarrow> 'w \<times> int"
type_synonym ('o, 'w) performer = "'o \<Rightarrow> 'w \<Rightarrow> 'w \<times> op_status \<times> error_code"

definition upd_state ::
  "'d \<Rightarrow> ('o descriptor_state \<Rightarrow> 'o descriptor_state) \<Rightarrow> ('o, 'd, 'w, 'q, 't, 'a) reactor \<Rightarrow> ('o, 'd, 'w, 'q, 't, 'a) reactor" where
  "upd_state d f r = r\<lparr>r_states := (r_states r)(d := f (r_states r d))\<rparr>"

definition set_op_ec :: "'o \<Rightarrow> error_code \<Rightarrow> ('o, 'd, 'w, 'q, 't, 'a) reactor \<Rightarrow> ('o, 'd, 'w, 'q, 't, 'a) reactor" where
  "set_op_ec op e r = r\<lparr>r_op_ec := (r_op_ec r)(op := e)\<rparr>"

definition epoll_ctl ::
  "('w, 'd) ctl \<Rightarrow> epoll_ctl_op \<Rightarrow> int \<Rightarrow> 32 word \<Rightarrow> 'd epoll_data \<Rightarrow> ('o, 'd, 'w, 'q, 't, 'a) reactor \<Rightarrow>
   ('o, 'd, 'w, 'q, 't, 'a) reactor \<times> int" where
  "epoll_ctl ctl what fd ev data r =
     (let (w1, result) = ctl (r_kernel r) what fd ev data in (r\<lparr>r_kernel := w1\<rparr>, result))"

text \<open>The calls on the scheduler.\<close>

definition sched_call ::
  "(('o, 'd) operation sched \<Rightarrow> ('o, 'd) operation thread_info option \<Rightarrow>
     ('o, 'd) operation sched \<times> ('o, 'd) operation thread_info option \<times> cond_signal) \<Rightarrow>
   ('o, 'd, 'w, 'q, 't, 'a) reactor \<Rightarrow> ('o, 'd, 'w, 'q, 't, 'a) reactor" where
  "sched_call f r =
     (let (s1, this1, c) = f (r_sched r) (r_this r)
      in r\<lparr>r_sched := s1, r_this := this1, r_signals := r_signals r @ [c]\<rparr>)"

definition r_post_immediate :: "'o \<Rightarrow> bool \<Rightarrow> ('o, 'd, 'w, 'q, 't, 'a) reactor \<Rightarrow> ('o, 'd, 'w, 'q, 't, 'a) reactor" where
  "r_post_immediate op is_continuation = sched_call (\<lambda>s this. post_immediate_completion (UserOp op) is_continuation this s)"

definition r_post_deferred :: "'o list \<Rightarrow> ('o, 'd, 'w, 'q, 't, 'a) reactor \<Rightarrow> ('o, 'd, 'w, 'q, 't, 'a) reactor" where
  "r_post_deferred ops = sched_call (\<lambda>s this. post_deferred_completions (map UserOp ops) this s)"

definition r_work_started :: "('o, 'd, 'w, 'q, 't, 'a) reactor \<Rightarrow> ('o, 'd, 'w, 'q, 't, 'a) reactor" where
  "r_work_started = sched_call (\<lambda>s this. (work_started s, this, NoSignal))"

text \<open>Outside a run call, \<open>compensating_work_started\<close> dereferences a null pointer.\<close>

definition r_compensating_work_started :: "('o, 'd, 'w, 'q, 't, 'a) reactor \<Rightarrow> ('o, 'd, 'w, 'q, 't, 'a) reactor option" where
  "r_compensating_work_started r =
     map_option (\<lambda>ti. r\<lparr>r_this := Some (compensating_work_started ti)\<rparr>) (r_this r)"

section \<open>Timer queue sets\<close>

definition tqs_insert :: "'q \<Rightarrow> 'q list \<Rightarrow> 'q list" where
  "tqs_insert q qs = q # qs"

fun tqs_erase :: "'q \<Rightarrow> 'q list \<Rightarrow> 'q list" where
  "tqs_erase q [] = []"
| "tqs_erase q (p # ps) = (if p = q then ps else p # tqs_erase q ps)"

definition tqs_all_empty :: "('q \<Rightarrow> ('t, 'a, 'o) timer_queue) \<Rightarrow> 'q list \<Rightarrow> bool" where
  "tqs_all_empty queue_at qs \<longleftrightarrow> (\<forall>q \<in> set qs. timer_queue_empty (queue_at q))"

text \<open>\<open>wait_duration_msec\<close> and \<open>wait_duration_usec\<close>; the argument is that of one queue.\<close>

definition tqs_wait_duration :: "('q \<Rightarrow> int \<Rightarrow> int) \<Rightarrow> 'q list \<Rightarrow> int \<Rightarrow> int" where
  "tqs_wait_duration wait qs max_duration = foldl (\<lambda>m q. wait q m) max_duration qs"

fun tqs_get_ready ::
  "('q \<Rightarrow> 't::linorder) \<Rightarrow> 'q list \<Rightarrow> ('q \<Rightarrow> ('t, 'a, 'o) timer_queue) \<Rightarrow> 'o list \<Rightarrow>
   (('q \<Rightarrow> ('t, 'a, 'o) timer_queue) \<times> 'o list) option" where
  "tqs_get_ready now [] queue_at ops = Some (queue_at, ops)"
| "tqs_get_ready now (q # qs) queue_at ops =
     (case get_ready_timers (now q) (queue_at q) ops of
        None \<Rightarrow> None
      | Some (tq1, ops1) \<Rightarrow> tqs_get_ready now qs (queue_at(q := tq1)) ops1)"

fun tqs_get_all ::
  "'q list \<Rightarrow> ('q \<Rightarrow> ('t::linorder, 'a, 'o) timer_queue) \<Rightarrow> 'o list \<Rightarrow>
   (('q \<Rightarrow> ('t, 'a, 'o) timer_queue) \<times> 'o list) option" where
  "tqs_get_all [] queue_at ops = Some (queue_at, ops)"
| "tqs_get_all (q # qs) queue_at ops =
     (case get_all_timers (queue_at q) ops of
        None \<Rightarrow> None
      | Some (tq1, ops1) \<Rightarrow> tqs_get_all qs (queue_at(q := tq1)) ops1)"

section \<open>Timeouts\<close>

definition get_timeout_msec :: "('q \<Rightarrow> int \<Rightarrow> int) \<Rightarrow> 'q list \<Rightarrow> int \<Rightarrow> int" where
  "get_timeout_msec wait qs msec =
     (let max_msec = 5 * 60 * 1000
      in tqs_wait_duration wait qs (if msec < 0 \<or> max_msec < msec then max_msec else msec))"

text \<open>The timer's new value, in seconds and nanoseconds, and the flag: whether it is an absolute time.\<close>

definition get_timeout_spec :: "('q \<Rightarrow> int \<Rightarrow> int) \<Rightarrow> 'q list \<Rightarrow> (int \<times> int) \<times> bool" where
  "get_timeout_spec wait qs =
     (let usec = tqs_wait_duration wait qs (5 * 60 * 1000 * 1000)
      in ((usec div 1000000, if usec \<noteq> 0 then (usec mod 1000000) * 1000 else 1), usec = 0))"

definition epoll_timeout :: "('q \<Rightarrow> int \<Rightarrow> int) \<Rightarrow> int \<Rightarrow> ('o, 'd, 'w, 'q, 't, 'a) reactor \<Rightarrow> int" where
  "epoll_timeout wait_msec usec r =
     (if usec = 0 then 0
      else
        let timeout = (if usec < 0 then - 1 else (usec - 1) div 1000 + 1)
        in if \<not> r_timer_fd r then get_timeout_msec wait_msec (timer_queues r) timeout else timeout)"

definition r_interrupt :: "('w, 'd) ctl \<Rightarrow> int \<Rightarrow> ('o, 'd, 'w, 'q, 't, 'a) reactor \<Rightarrow> ('o, 'd, 'w, 'q, 't, 'a) reactor" where
  "r_interrupt ctl interrupter_fd r =
     fst (epoll_ctl ctl CtlMod interrupter_fd (EPOLLIN OR EPOLLERR OR EPOLLET) Interrupter r)"

definition update_timeout ::
  "('w, 'd) ctl \<Rightarrow> int \<Rightarrow> ('w \<Rightarrow> (int \<times> int) \<times> bool \<Rightarrow> 'w) \<Rightarrow> ('q \<Rightarrow> int \<Rightarrow> int) \<Rightarrow>
   ('o, 'd, 'w, 'q, 't, 'a) reactor \<Rightarrow> ('o, 'd, 'w, 'q, 't, 'a) reactor" where
  "update_timeout ctl interrupter_fd settime wait_usec r =
     (if r_timer_fd r then r\<lparr>r_kernel := settime (r_kernel r) (get_timeout_spec wait_usec (timer_queues r))\<rparr>
      else r_interrupt ctl interrupter_fd r)"

section \<open>Registering descriptors\<close>

definition initial_events :: "32 word" where
  "initial_events = EPOLLIN OR EPOLLERR OR EPOLLHUP OR EPOLLPRI OR EPOLLET"

definition allocate_descriptor_state ::
  "'d \<Rightarrow> ('o, 'd, 'w, 'q, 't, 'a) reactor \<Rightarrow> ('o, 'd, 'w, 'q, 't, 'a) reactor \<times> 'd" where
  "allocate_descriptor_state created r =
     (let (p, d) = pool_alloc created (r_pool r) in (r\<lparr>r_pool := p\<rparr>, d))"

definition free_descriptor_state ::
  "'d \<Rightarrow> ('o, 'd, 'w, 'q, 't, 'a) reactor \<Rightarrow> ('o, 'd, 'w, 'q, 't, 'a) reactor" where
  "free_descriptor_state d r = r\<lparr>r_pool := pool_free d (r_pool r)\<rparr>"

definition register_descriptor ::
  "('w, 'd) ctl \<Rightarrow> 'd \<Rightarrow> int \<Rightarrow> ('o, 'd, 'w, 'q, 't, 'a) reactor \<Rightarrow> ('o, 'd, 'w, 'q, 't, 'a) reactor \<times> 'd \<times> int" where
  "register_descriptor ctl created descriptor r =
     (let (r1, d) = allocate_descriptor_state created r;
          r2 = upd_state d (\<lambda>s. s\<lparr>ds_descriptor := descriptor, ds_shutdown := False, try_speculative := (\<lambda>_. True)\<rparr>) r1;
          r3 = upd_state d (\<lambda>s. s\<lparr>registered_events := initial_events\<rparr>) r2;
          (r4, result) = epoll_ctl ctl CtlAdd descriptor initial_events (Descriptor d) r3
      in if result \<noteq> 0 then
           (if result = EPERM then (upd_state d (\<lambda>s. s\<lparr>registered_events := 0\<rparr>) r4, d, 0) else (r4, d, result))
         else (r4, d, 0))"

definition register_internal_descriptor ::
  "('w, 'd) ctl \<Rightarrow> 'd \<Rightarrow> op_type \<Rightarrow> int \<Rightarrow> 'o \<Rightarrow> ('o, 'd, 'w, 'q, 't, 'a) reactor \<Rightarrow> ('o, 'd, 'w, 'q, 't, 'a) reactor \<times> 'd \<times> int" where
  "register_internal_descriptor ctl created ty descriptor op r =
     (let (r1, d) = allocate_descriptor_state created r;
          r2 = upd_state d (\<lambda>s. s\<lparr>ds_descriptor := descriptor, ds_shutdown := False,
                 ds_queue := (ds_queue s)(ty := ds_queue s ty @ [op]), try_speculative := (\<lambda>_. True)\<rparr>) r1;
          r3 = upd_state d (\<lambda>s. s\<lparr>registered_events := initial_events\<rparr>) r2;
          (r4, result) = epoll_ctl ctl CtlAdd descriptor initial_events (Descriptor d) r3
      in (r4, d, if result \<noteq> 0 then result else 0))"

text \<open>\<open>move_descriptor\<close> moves the pointer: the target's and the source's new values.\<close>

definition move_descriptor :: "'d ptr \<Rightarrow> 'd ptr \<Rightarrow> 'd ptr \<times> 'd ptr" where
  "move_descriptor target_data source_data = (source_data, None)"

section \<open>Starting an operation\<close>

text \<open>Pushing the operation, the end of \<open>start_op\<close>.\<close>

definition push_op :: "op_type \<Rightarrow> 'd \<Rightarrow> 'o \<Rightarrow> ('o, 'd, 'w, 'q, 't, 'a) reactor \<Rightarrow> ('o, 'd, 'w, 'q, 't, 'a) reactor" where
  "push_op ty d op r =
     r_work_started (upd_state d (\<lambda>s. s\<lparr>ds_queue := (ds_queue s)(ty := ds_queue s ty @ [op])\<rparr>) r)"

text \<open>The part after a speculative attempt that did not finish the operation.\<close>

definition arm_and_push ::
  "('w, 'd) ctl \<Rightarrow> op_type \<Rightarrow> int \<Rightarrow> 'd \<Rightarrow> 'o \<Rightarrow> bool \<Rightarrow> ('o, 'd, 'w, 'q, 't, 'a) reactor \<Rightarrow> ('o, 'd, 'w, 'q, 't, 'a) reactor" where
  "arm_and_push ctl ty descriptor d op is_continuation r =
     (if registered_events (r_states r d) = 0 then
        r_post_immediate op is_continuation (set_op_ec op (basic_ec operation_not_supported) r)
      else if ty = WriteOp \<and> registered_events (r_states r d) AND EPOLLOUT = 0 then
        (let ev = registered_events (r_states r d) OR EPOLLOUT;
             (r1, result) = epoll_ctl ctl CtlMod descriptor ev (Descriptor d) r
         in if result = 0
            then push_op ty d op (upd_state d (\<lambda>s. s\<lparr>registered_events := registered_events s OR ev\<rparr>) r1)
            else r_post_immediate op is_continuation (set_op_ec op (system_ec result) r1))
      else push_op ty d op r)"

text \<open>The part without speculation, which asks the kernel for a fresh report of readiness.\<close>

definition rearm_and_push ::
  "('w, 'd) ctl \<Rightarrow> op_type \<Rightarrow> int \<Rightarrow> 'd \<Rightarrow> 'o \<Rightarrow> bool \<Rightarrow> ('o, 'd, 'w, 'q, 't, 'a) reactor \<Rightarrow> ('o, 'd, 'w, 'q, 't, 'a) reactor" where
  "rearm_and_push ctl ty descriptor d op is_continuation r =
     (if registered_events (r_states r d) = 0 then
        r_post_immediate op is_continuation (set_op_ec op (basic_ec operation_not_supported) r)
      else
        let r1 = (if ty = WriteOp then upd_state d (\<lambda>s. s\<lparr>registered_events := registered_events s OR EPOLLOUT\<rparr>) r else r);
            (r2, ignored) = epoll_ctl ctl CtlMod descriptor (registered_events (r_states r1 d)) (Descriptor d) r1
        in push_op ty d op r2)"

definition start_op ::
  "('w, 'd) ctl \<Rightarrow> ('o, 'w) performer \<Rightarrow> op_type \<Rightarrow> int \<Rightarrow> 'd ptr \<Rightarrow> 'o \<Rightarrow> bool \<Rightarrow> bool \<Rightarrow>
   ('o, 'd, 'w, 'q, 't, 'a) reactor \<Rightarrow> ('o, 'd, 'w, 'q, 't, 'a) reactor" where
  "start_op ctl perform ty descriptor descriptor_data op is_continuation allow_speculative r =
     (case descriptor_data of
        None \<Rightarrow> r_post_immediate op is_continuation (set_op_ec op (basic_ec bad_descriptor) r)
      | Some d \<Rightarrow>
          if ds_shutdown (r_states r d) then r_post_immediate op is_continuation r
          else if ds_queue (r_states r d) ty = [] then
            (if allow_speculative \<and> (ty \<noteq> ReadOp \<or> ds_queue (r_states r d) ExceptOp = []) then
               (if try_speculative (r_states r d) ty then
                  (case perform op (r_kernel r) of
                     (w1, status, e) \<Rightarrow>
                       let r1 = set_op_ec op e (r\<lparr>r_kernel := w1\<rparr>)
                       in if status \<noteq> NotDone then
                            (let r2 = (if status = DoneAndExhausted \<and> registered_events (r_states r1 d) \<noteq> 0
                                       then upd_state d (\<lambda>s. s\<lparr>try_speculative := (try_speculative s)(ty := False)\<rparr>) r1
                                       else r1)
                             in r_post_immediate op is_continuation r2)
                          else arm_and_push ctl ty descriptor d op is_continuation r1)
                else arm_and_push ctl ty descriptor d op is_continuation r)
             else rearm_and_push ctl ty descriptor d op is_continuation r)
          else push_op ty d op r)"

section \<open>Cancelling\<close>

text \<open>The loop over one queue, from the front: what it appends to \<open>ops\<close>.\<close>

fun abort_queue :: "'o list \<Rightarrow> ('o \<Rightarrow> error_code) \<Rightarrow> 'o list \<Rightarrow> ('o \<Rightarrow> error_code) \<times> 'o list" where
  "abort_queue [] ecs ops = (ecs, ops)"
| "abort_queue (op # q) ecs ops = abort_queue q (ecs(op := basic_ec operation_aborted)) (ops @ [op])"

fun abort_queues ::
  "op_type list \<Rightarrow> 'd \<Rightarrow> ('o, 'd, 'w, 'q, 't, 'a) reactor \<Rightarrow> 'o list \<Rightarrow> ('o, 'd, 'w, 'q, 't, 'a) reactor \<times> 'o list" where
  "abort_queues [] d r ops = (r, ops)"
| "abort_queues (ty # tys) d r ops =
     (let (ecs, ops1) = abort_queue (ds_queue (r_states r d) ty) (r_op_ec r) ops
      in abort_queues tys d (upd_state d (\<lambda>s. s\<lparr>ds_queue := (ds_queue s)(ty := [])\<rparr>) (r\<lparr>r_op_ec := ecs\<rparr>)) ops1)"

definition cancel_ops :: "'d ptr \<Rightarrow> ('o, 'd, 'w, 'q, 't, 'a) reactor \<Rightarrow> ('o, 'd, 'w, 'q, 't, 'a) reactor" where
  "cancel_ops descriptor_data r =
     (case descriptor_data of
        None \<Rightarrow> r
      | Some d \<Rightarrow> (let (r1, ops) = abort_queues [ReadOp, WriteOp, ExceptOp] d r [] in r_post_deferred ops r1))"

definition deregister_descriptor ::
  "('w, 'd) ctl \<Rightarrow> int \<Rightarrow> 'd ptr \<Rightarrow> bool \<Rightarrow> ('o, 'd, 'w, 'q, 't, 'a) reactor \<Rightarrow> ('o, 'd, 'w, 'q, 't, 'a) reactor \<times> 'd ptr" where
  "deregister_descriptor ctl descriptor descriptor_data closing r =
     (case descriptor_data of
        None \<Rightarrow> (r, None)
      | Some d \<Rightarrow>
          if \<not> ds_shutdown (r_states r d) then
            (let r1 = (if closing then r
                       else if registered_events (r_states r d) \<noteq> 0
                            then fst (epoll_ctl ctl CtlDel descriptor 0 (Descriptor d) r) else r);
                 (r2, ops) = abort_queues [ReadOp, WriteOp, ExceptOp] d r1 [];
                 r3 = upd_state d (\<lambda>s. s\<lparr>ds_descriptor := - 1, ds_shutdown := True\<rparr>) r2
             in (r_post_deferred ops r3, Some d))
          else (r, None))"

text \<open>The internal form drops the operations: the local queue's destructor destroys them.\<close>

definition deregister_internal_descriptor ::
  "('w, 'd) ctl \<Rightarrow> int \<Rightarrow> 'd ptr \<Rightarrow> ('o, 'd, 'w, 'q, 't, 'a) reactor \<Rightarrow> ('o, 'd, 'w, 'q, 't, 'a) reactor \<times> 'd ptr \<times> 'o list" where
  "deregister_internal_descriptor ctl descriptor descriptor_data r =
     (case descriptor_data of
        None \<Rightarrow> (r, None, [])
      | Some d \<Rightarrow>
          if \<not> ds_shutdown (r_states r d) then
            (let r1 = fst (epoll_ctl ctl CtlDel descriptor 0 (Descriptor d) r);
                 ops = concat (map (ds_queue (r_states r1 d)) [ReadOp, WriteOp, ExceptOp])
             in (upd_state d (\<lambda>s. s\<lparr>ds_queue := (\<lambda>_. []), ds_descriptor := - 1, ds_shutdown := True\<rparr>) r1, Some d, ops))
          else (r, None, []))"

definition cleanup_descriptor_data :: "'d ptr \<Rightarrow> ('o, 'd, 'w, 'q, 't, 'a) reactor \<Rightarrow> ('o, 'd, 'w, 'q, 't, 'a) reactor \<times> 'd ptr" where
  "cleanup_descriptor_data descriptor_data r =
     (case descriptor_data of None \<Rightarrow> (r, None) | Some d \<Rightarrow> (free_descriptor_state d r, None))"

section \<open>Performing\<close>

definition ready_flag :: "op_type \<Rightarrow> 32 word" where
  "ready_flag ty = (case ty of ReadOp \<Rightarrow> EPOLLIN | WriteOp \<Rightarrow> EPOLLOUT | ExceptOp \<Rightarrow> EPOLLPRI)"

text \<open>The loop over one queue: what stays in it, the kernel, the operations' \<open>ec_\<close>, whether to go on
  speculating, and what was done.\<close>

fun perform_queue ::
  "('o, 'w) performer \<Rightarrow> 'o list \<Rightarrow> 'w \<Rightarrow> ('o \<Rightarrow> error_code) \<Rightarrow> 'o list \<Rightarrow> 'o list \<times> 'w \<times> ('o \<Rightarrow> error_code) \<times> bool \<times> 'o list" where
  "perform_queue perform [] w ecs ops = ([], w, ecs, True, ops)"
| "perform_queue perform (op # q) w ecs ops =
     (case perform op w of
        (w1, status, e) \<Rightarrow>
          case status of
            NotDone \<Rightarrow> (op # q, w1, ecs(op := e), True, ops)
          | Done \<Rightarrow> perform_queue perform q w1 (ecs(op := e)) (ops @ [op])
          | DoneAndExhausted \<Rightarrow> (q, w1, ecs(op := e), False, ops @ [op]))"

definition perform_type ::
  "('o, 'w) performer \<Rightarrow> 32 word \<Rightarrow> 'd \<Rightarrow> op_type \<Rightarrow> ('o, 'd, 'w, 'q, 't, 'a) reactor \<times> 'o list \<Rightarrow> ('o, 'd, 'w, 'q, 't, 'a) reactor \<times> 'o list" where
  "perform_type perform events d ty ro =
     (case ro of (r, ops) \<Rightarrow>
      if events AND (ready_flag ty OR EPOLLERR OR EPOLLHUP) \<noteq> 0 then
        (case perform_queue perform (ds_queue (r_states r d) ty) (r_kernel r) (r_op_ec r) ops of
           (q, w1, ecs, go_on, ops1) \<Rightarrow>
             (upd_state d (\<lambda>s. s\<lparr>ds_queue := (ds_queue s)(ty := q), try_speculative := (try_speculative s)(ty := go_on)\<rparr>)
                (r\<lparr>r_kernel := w1, r_op_ec := ecs\<rparr>), ops1))
      else (r, ops))"

definition perform_io ::
  "('o, 'w) performer \<Rightarrow> 32 word \<Rightarrow> 'd \<Rightarrow> ('o, 'd, 'w, 'q, 't, 'a) reactor \<Rightarrow> (('o, 'd, 'w, 'q, 't, 'a) reactor \<times> 'o ptr) option" where
  "perform_io perform events d r =
     (case perform_type perform events d ReadOp (perform_type perform events d WriteOp
             (perform_type perform events d ExceptOp (r, []))) of
        (r1, ops) \<Rightarrow>
          (case ops of
             [] \<Rightarrow> map_option (\<lambda>r2. (r2, None)) (r_compensating_work_started r1)
           | first_op # rest \<Rightarrow> Some (if rest \<noteq> [] then r_post_deferred rest r1 else r1, Some first_op)))"

text \<open>\<open>do_complete\<close>, as the scheduler calls it with the descriptor's task result: the operation to be
  completed now. It does nothing when the operation is destroyed.\<close>

definition descriptor_do_complete ::
  "('o, 'w) performer \<Rightarrow> bool \<Rightarrow> 'd \<Rightarrow> nat \<Rightarrow> ('o, 'd, 'w, 'q, 't, 'a) reactor \<Rightarrow> (('o, 'd, 'w, 'q, 't, 'a) reactor \<times> 'o ptr) option" where
  "descriptor_do_complete perform owner d bytes_transferred r =
     (if owner then perform_io perform (of_nat bytes_transferred) d r else Some (r, None))"

section \<open>Running\<close>

definition set_ready_events :: "32 word \<Rightarrow> 'o descriptor_state \<Rightarrow> 'o descriptor_state" where
  "set_ready_events events s = s\<lparr>task_result := events\<rparr>"

definition add_ready_events :: "32 word \<Rightarrow> 'o descriptor_state \<Rightarrow> 'o descriptor_state" where
  "add_ready_events events s = s\<lparr>task_result := task_result s OR events\<rparr>"

text \<open>The loop over the events that \<open>epoll_wait\<close> returned.\<close>

fun dispatch_events ::
  "('d epoll_data \<times> 32 word) list \<Rightarrow> ('o, 'd, 'w, 'q, 't, 'a) reactor \<Rightarrow> ('o, 'd) operation list \<Rightarrow> bool \<Rightarrow>
   ('o, 'd, 'w, 'q, 't, 'a) reactor \<times> ('o, 'd) operation list \<times> bool" where
  "dispatch_events [] r ops check_timers = (r, ops, check_timers)"
| "dispatch_events ((Interrupter, ev) # evs) r ops check_timers =
     dispatch_events evs r ops (if \<not> r_timer_fd r then True else check_timers)"
| "dispatch_events ((TimerFd, ev) # evs) r ops check_timers = dispatch_events evs r ops True"
| "dispatch_events ((Descriptor d, ev) # evs) r ops check_timers =
     (if DescriptorOp d \<notin> set ops
      then dispatch_events evs (upd_state d (set_ready_events ev) r) (ops @ [DescriptorOp d]) check_timers
      else dispatch_events evs (upd_state d (add_ready_events ev) r) ops check_timers)"

definition reactor_run ::
  "('w \<Rightarrow> int \<Rightarrow> 'w \<times> ('d epoll_data \<times> 32 word) list) \<Rightarrow> ('w \<Rightarrow> (int \<times> int) \<times> bool \<Rightarrow> 'w) \<Rightarrow>
   ('q \<Rightarrow> 't::linorder) \<Rightarrow> ('q \<Rightarrow> ('t, 'a, 'o) timer_queue \<Rightarrow> int \<Rightarrow> int) \<Rightarrow> ('q \<Rightarrow> ('t, 'a, 'o) timer_queue \<Rightarrow> int \<Rightarrow> int) \<Rightarrow>
   int \<Rightarrow> ('o, 'd) operation list \<Rightarrow> ('o, 'd, 'w, 'q, 't, 'a) reactor \<Rightarrow>
   (('o, 'd, 'w, 'q, 't, 'a) reactor \<times> ('o, 'd) operation list) option" where
  "reactor_run epoll_wait settime now wait_msec wait_usec usec ops r =
     (let timeout = epoll_timeout (\<lambda>q. wait_msec q (timer_queue_at r q)) usec r;
          (w1, events) = epoll_wait (r_kernel r) timeout;
          (r1, ops1, check_timers) = dispatch_events events (r\<lparr>r_kernel := w1\<rparr>) ops (\<not> r_timer_fd r)
      in if check_timers then
           (case tqs_get_ready now (timer_queues r1) (timer_queue_at r1) [] of
              None \<Rightarrow> None
            | Some (queue_at, ready) \<Rightarrow>
                let r2 = r1\<lparr>timer_queue_at := queue_at\<rparr>;
                    r3 = (if r_timer_fd r2
                          then r2\<lparr>r_kernel := settime (r_kernel r2)
                                 (get_timeout_spec (\<lambda>q. wait_usec q (timer_queue_at r2 q)) (timer_queues r2))\<rparr>
                          else r2)
                in Some (r3, ops1 @ map UserOp ready))
         else Some (r1, ops1))"

section \<open>Timers and shutdown\<close>

definition schedule_timer ::
  "('w, 'd) ctl \<Rightarrow> int \<Rightarrow> ('w \<Rightarrow> (int \<times> int) \<times> bool \<Rightarrow> 'w) \<Rightarrow> ('q \<Rightarrow> ('t, 'a, 'o) timer_queue \<Rightarrow> int \<Rightarrow> int) \<Rightarrow> ('t::linorder \<Rightarrow> bool) \<Rightarrow>
   'q \<Rightarrow> 't \<Rightarrow> 'a \<Rightarrow> 'o \<Rightarrow> ('o, 'd, 'w, 'q, 't, 'a) reactor \<Rightarrow> ('o, 'd, 'w, 'q, 't, 'a) reactor" where
  "schedule_timer ctl interrupter_fd settime wait_usec is_positive_infinity q time timer op r =
     (if r_shutdown r then r_post_immediate op False r
      else
        let (tq1, earliest) = enqueue_timer is_positive_infinity time timer op (timer_queue_at r q);
            r1 = r_work_started (r\<lparr>timer_queue_at := (timer_queue_at r)(q := tq1)\<rparr>)
        in if earliest then update_timeout ctl interrupter_fd settime (\<lambda>q. wait_usec q (timer_queue_at r1 q)) r1 else r1)"

definition cancel_timer ::
  "'q \<Rightarrow> 'a \<Rightarrow> nat \<Rightarrow> ('o, 'd, 'w, 'q, 't::linorder, 'a) reactor \<Rightarrow> ('o, 'd, 'w, 'q, 't, 'a) reactor \<times> nat" where
  "cancel_timer q timer max_cancelled r =
     (let (tq1, ecs, ops, n) = timer_cancel (timer_queue_at r q) timer (r_op_ec r) [] max_cancelled
      in (r_post_deferred ops (r\<lparr>timer_queue_at := (timer_queue_at r)(q := tq1), r_op_ec := ecs\<rparr>), n))"

definition reactor_move_timer ::
  "'q \<Rightarrow> 'a \<Rightarrow> 'a \<Rightarrow> ('o, 'd, 'w, 'q, 't::linorder, 'a) reactor \<Rightarrow> ('o, 'd, 'w, 'q, 't, 'a) reactor" where
  "reactor_move_timer q target source r =
     (let (tq1, ecs, ops, n) = timer_cancel (timer_queue_at r q) target (r_op_ec r) [] size_max;
          tq2 = move_timer tq1 target source
      in r_post_deferred ops (r\<lparr>timer_queue_at := (timer_queue_at r)(q := tq2), r_op_ec := ecs\<rparr>))"

text \<open>\<open>shutdown\<close> over the live descriptors, first to last: the operations it hands to
  \<open>abandon_operations\<close>. The loop ends when the live list is empty, or the fuel.\<close>

fun shutdown_descriptors ::
  "nat \<Rightarrow> ('o, 'd, 'w, 'q, 't, 'a) reactor \<Rightarrow> 'o list \<Rightarrow> (('o, 'd, 'w, 'q, 't, 'a) reactor \<times> 'o list) option" where
  "shutdown_descriptors n r ops =
     (case pool_first (r_pool r) of
        None \<Rightarrow> Some (r, ops)
      | Some d \<Rightarrow>
          (case n of
             0 \<Rightarrow> None
           | Suc m \<Rightarrow>
               shutdown_descriptors m
                 (free_descriptor_state d (upd_state d (\<lambda>s. s\<lparr>ds_queue := (\<lambda>_. []), ds_shutdown := True\<rparr>) r))
                 (ops @ concat (map (ds_queue (r_states r d)) [ReadOp, WriteOp, ExceptOp]))))"

definition reactor_shutdown ::
  "nat \<Rightarrow> ('o, 'd, 'w, 'q, 't::linorder, 'a) reactor \<Rightarrow> (('o, 'd, 'w, 'q, 't, 'a) reactor \<times> 'o list) option" where
  "reactor_shutdown n r =
     (case shutdown_descriptors n (r\<lparr>r_shutdown := True\<rparr>) [] of
        None \<Rightarrow> None
      | Some (r1, ops) \<Rightarrow>
          (case tqs_get_all (timer_queues r1) (timer_queue_at r1) ops of
             None \<Rightarrow> None
           | Some (queue_at, ops1) \<Rightarrow> Some (r1\<lparr>timer_queue_at := queue_at\<rparr>, snd (abandon_operations ops1))))"

section \<open>Construction and forking\<close>

text \<open>Adding the interrupter's and the timer's descriptors to epoll, and signalling the interrupter, which
  is a parameter, as are the recreation of the kernel's objects after a fork and whether a timer
  descriptor could be had.\<close>

definition add_internal_descriptors ::
  "('w, 'd) ctl \<Rightarrow> ('w \<Rightarrow> 'w) \<Rightarrow> int \<Rightarrow> int \<Rightarrow> ('o, 'd, 'w, 'q, 't, 'a) reactor \<Rightarrow> ('o, 'd, 'w, 'q, 't, 'a) reactor" where
  "add_internal_descriptors ctl signal interrupter_fd timer_fd r =
     (let r1 = fst (epoll_ctl ctl CtlAdd interrupter_fd (EPOLLIN OR EPOLLERR OR EPOLLET) Interrupter r);
          r2 = r1\<lparr>r_kernel := signal (r_kernel r1)\<rparr>
      in if r_timer_fd r2 then fst (epoll_ctl ctl CtlAdd timer_fd (EPOLLIN OR EPOLLERR) TimerFd r2) else r2)"

definition reactor_new ::
  "('w, 'd) ctl \<Rightarrow> ('w \<Rightarrow> 'w) \<Rightarrow> int \<Rightarrow> int \<Rightarrow> ('o, 'd) operation sched \<Rightarrow> ('o, 'd) operation thread_info option \<Rightarrow>
   ('d \<Rightarrow> 'o descriptor_state) \<Rightarrow> ('o \<Rightarrow> error_code) \<Rightarrow> ('q \<Rightarrow> ('t, 'a, 'o) timer_queue) \<Rightarrow> 'w \<Rightarrow> bool \<Rightarrow> ('o, 'd, 'w, 'q, 't, 'a) reactor" where
  "reactor_new ctl signal interrupter_fd timer_fd s this states ecs queue_at w has_timer_fd =
     add_internal_descriptors ctl signal interrupter_fd timer_fd
       \<lparr>r_sched = s, r_this = this, r_signals = [], r_states = states, r_pool = pool_new (\<lambda>_. None) (\<lambda>_. None),
        r_op_ec = ecs, r_kernel = w, r_timer_fd = has_timer_fd, r_shutdown = False, timer_queues = [],
        timer_queue_at = queue_at\<rparr>"

text \<open>The loop over the live descriptors, along the pool's links, and the whole of \<open>notify_fork\<close> in the
  child. A failure throws.\<close>

fun re_register ::
  "nat \<Rightarrow> ('w, 'd) ctl \<Rightarrow> 'd ptr \<Rightarrow> ('o, 'd, 'w, 'q, 't, 'a) reactor \<Rightarrow> (('o, 'd, 'w, 'q, 't, 'a) reactor \<times> (error_code + unit)) option" where
  "re_register n ctl None r = Some (r, Inr ())"
| "re_register 0 ctl (Some d) r = None"
| "re_register (Suc n) ctl (Some d) r =
     (let (r1, result) = epoll_ctl ctl CtlAdd (ds_descriptor (r_states r d)) (registered_events (r_states r d)) (Descriptor d) r
      in if result \<noteq> 0 then Some (r1, throw_error (system_ec result)) else re_register n ctl (p_next (r_pool r1) d) r1)"

definition notify_fork ::
  "nat \<Rightarrow> ('w, 'd) ctl \<Rightarrow> ('w \<Rightarrow> 'w) \<Rightarrow> ('w \<Rightarrow> 'w \<times> bool) \<Rightarrow> ('w \<Rightarrow> (int \<times> int) \<times> bool \<Rightarrow> 'w) \<Rightarrow> ('q \<Rightarrow> int \<Rightarrow> int) \<Rightarrow> int \<Rightarrow> int \<Rightarrow> bool \<Rightarrow>
   ('o, 'd, 'w, 'q, 't, 'a) reactor \<Rightarrow> (('o, 'd, 'w, 'q, 't, 'a) reactor \<times> (error_code + unit)) option" where
  "notify_fork n ctl signal recreate settime wait_usec interrupter_fd timer_fd is_child r =
     (if is_child then
        (let (w1, has_timer_fd) = recreate (r_kernel r);
             r1 = add_internal_descriptors ctl signal interrupter_fd timer_fd (r\<lparr>r_kernel := w1, r_timer_fd := has_timer_fd\<rparr>);
             r2 = update_timeout ctl interrupter_fd settime wait_usec r1
         in re_register n ctl (pool_first (r_pool r2)) r2)
      else Some (r, Inr ()))"

definition r_init_task :: "('o, 'd, 'w, 'q, 't, 'a) reactor \<Rightarrow> ('o, 'd, 'w, 'q, 't, 'a) reactor" where
  "r_init_task = sched_call (\<lambda>s this. case init_task s of (s1, c) \<Rightarrow> (s1, this, c))"

definition add_timer_queue :: "'q \<Rightarrow> ('o, 'd, 'w, 'q, 't, 'a) reactor \<Rightarrow> ('o, 'd, 'w, 'q, 't, 'a) reactor" where
  "add_timer_queue q r = r\<lparr>timer_queues := tqs_insert q (timer_queues r)\<rparr>"

definition remove_timer_queue :: "'q \<Rightarrow> ('o, 'd, 'w, 'q, 't, 'a) reactor \<Rightarrow> ('o, 'd, 'w, 'q, 't, 'a) reactor" where
  "remove_timer_queue q r = r\<lparr>timer_queues := tqs_erase q (timer_queues r)\<rparr>"

end
