(* ===== verification/ReactorPerform.thy ===== *)
theory ReactorPerform
  imports EpollReactor
begin

text \<open>
  What it means to perform the operations of a queue one after another: the kernel's state and the
  \<open>ec_\<close> fields after some attempts, and the status that an attempt in that sequence returns. Both
  reactors are specified with these.
\<close>

fun attempts ::
  "('o, 'w) performer \<Rightarrow> 'o list \<Rightarrow> 'w \<times> ('o \<Rightarrow> error_code) \<Rightarrow> 'w \<times> ('o \<Rightarrow> error_code)" where
  "attempts perform [] s = s"
| "attempts perform (op # q) (w, ecs) =
     (case perform op w of (w1, status, e) \<Rightarrow> attempts perform q (w1, ecs(op := e)))"

text \<open>The status of operation \<open>i\<close> of the queue, when those before it have been performed.\<close>

definition status_at ::
  "('o, 'w) performer \<Rightarrow> 'o list \<Rightarrow> 'w \<times> ('o \<Rightarrow> error_code) \<Rightarrow> nat \<Rightarrow> op_status" where
  "status_at perform q s i = fst (snd (perform (q ! i) (fst (attempts perform (take i q) s))))"

text \<open>The first \<open>n\<close> operations are done, and the next one, if there is one, is not.\<close>

definition performed_from ::
  "('o, 'w) performer \<Rightarrow> 'o list \<Rightarrow> nat \<Rightarrow> 'w \<times> ('o \<Rightarrow> error_code) \<Rightarrow> bool" where
  "performed_from perform q n s \<longleftrightarrow> n \<le> length q \<and> (\<forall>i<n. status_at perform q s i \<noteq> NotDone) \<and>
     (n < length q \<longrightarrow> status_at perform q s n = NotDone)"

text \<open>The same for a reactor that also stops after an operation that exhausted its descriptor (\<open>go_on\<close> is
  false then).\<close>

definition performed_until ::
  "('o, 'w) performer \<Rightarrow> 'o list \<Rightarrow> nat \<Rightarrow> bool \<Rightarrow> 'w \<times> ('o \<Rightarrow> error_code) \<Rightarrow> bool" where
  "performed_until perform q n go_on s \<longleftrightarrow> n \<le> length q \<and>
     (\<forall>i<n. status_at perform q s i = (if \<not> go_on \<and> Suc i = n then DoneAndExhausted else Done)) \<and>
     (if go_on then n < length q \<longrightarrow> status_at perform q s n = NotDone else 0 < n)"

lemma status_at_simps:
  assumes "perform op w = (w1, status, e)"
  shows "status_at perform (op # q) (w, ecs) 0 = status"
    "status_at perform (op # q) (w, ecs) (Suc i) = status_at perform q (w1, ecs(op := e)) i"
  using assms by (simp_all add: status_at_def)

lemma attempts_other:
  "x \<notin> set q \<Longrightarrow> snd (attempts perform q s) x = snd s x"
  by (induction perform q s rule: attempts.induct) (auto split: prod.split)

lemma all_less_Suc: "(\<forall>i<Suc n. P i) \<longleftrightarrow> P 0 \<and> (\<forall>i<n. P (Suc i))"
  by (metis less_Suc_eq_0_disj)

lemma performed_from_0: "performed_from perform [] 0 s"
  by (simp add: performed_from_def)

lemma performed_from_stop:
  "perform op w = (w1, NotDone, e) \<Longrightarrow> performed_from perform (op # q) 0 (w, ecs)"
  by (simp add: performed_from_def status_at_simps)

lemma performed_from_Suc:
  "perform op w = (w1, status, e) \<Longrightarrow> status \<noteq> NotDone \<Longrightarrow> performed_from perform q n (w1, ecs(op := e)) \<Longrightarrow>
     performed_from perform (op # q) (Suc n) (w, ecs)"
  by (simp add: performed_from_def status_at_simps all_less_Suc)

lemma performed_until_Suc:
  "perform op w = (w1, Done, e) \<Longrightarrow> performed_until perform q n go_on (w1, ecs(op := e)) \<Longrightarrow>
     performed_until perform (op # q) (Suc n) go_on (w, ecs)"
  by (cases go_on; cases n) (auto simp: performed_until_def status_at_simps all_less_Suc)

text \<open>The loop of \<open>epoll_reactor::descriptor_state::perform_io\<close> over one queue.\<close>

lemma perform_queue_correct:
  "perform_queue perform q w ecs ops = (q', w', ecs', go_on, ops') \<Longrightarrow>
     \<exists>n. q' = drop n q \<and> ops' = ops @ take n q \<and> performed_until perform q n go_on (w, ecs) \<and>
       (w', ecs') = attempts perform (take (if go_on then Suc n else n) q) (w, ecs)"
proof (induction perform q w ecs ops rule: perform_queue.induct)
  case (1 perform w ecs ops)
  then show ?case
    by (intro exI [of _ 0]) (auto simp: performed_until_def)
next
  case (2 perform op q w ecs ops)
  obtain w1 status e where p: "perform op w = (w1, status, e)" by (metis prod_cases3)
  show ?case
  proof (cases status)
    case NotDone
    with 2(2) p show ?thesis
      by (intro exI [of _ 0]) (auto simp: performed_until_def status_at_simps)
  next
    case Done
    with 2 p obtain n where n: "q' = drop n q" "ops' = ops @ op # take n q"
        "performed_until perform q n go_on (w1, ecs(op := e))"
        "(w', ecs') = attempts perform (take (if go_on then Suc n else n) q) (w1, ecs(op := e))" by fastforce
    have "(w', ecs') = attempts perform (take (if go_on then Suc (Suc n) else Suc n) (op # q)) (w, ecs)"
      using n(4) p by (cases go_on) simp_all
    then show ?thesis
      using n(1,2) performed_until_Suc [of perform op w w1 e q n go_on ecs] p n(3) Done
      by (intro exI [of _ "Suc n"]) simp
  next
    case DoneAndExhausted
    with 2(2) p show ?thesis
      by (intro exI [of _ "Suc 0"]) (auto simp: performed_until_def status_at_simps)
  qed
qed

end
