(* ===== verification/EpollProps.thy ===== *)
theory EpollProps
  imports ReactorPerform "HOL-Library.Multiset"
begin

text \<open>
  What the epoll reactor promises: operations are never lost or duplicated between the descriptors'
  queues and the scheduler's, each counts as one unit of work until it is completed, cancelling and
  deregistering abort all of them, and the kernel watches for what the pending ones wait for.
\<close>

section \<open>Frames\<close>

lemma upd_state_simps [simp]:
  "r_states (upd_state d f r) = (r_states r)(d := f (r_states r d))"
  "r_sched (upd_state d f r) = r_sched r" "r_this (upd_state d f r) = r_this r"
  "r_kernel (upd_state d f r) = r_kernel r" "r_op_ec (upd_state d f r) = r_op_ec r" "r_pool (upd_state d f r) = r_pool r"
  "timer_queues (upd_state d f r) = timer_queues r" "timer_queue_at (upd_state d f r) = timer_queue_at r"
  "r_timer_fd (upd_state d f r) = r_timer_fd r"
  by (simp_all add: upd_state_def)

lemma set_op_ec_simps [simp]:
  "r_states (set_op_ec x e r) = r_states r" "r_sched (set_op_ec x e r) = r_sched r"
  "r_this (set_op_ec x e r) = r_this r" "r_kernel (set_op_ec x e r) = r_kernel r"
  "r_op_ec (set_op_ec x e r) = (r_op_ec r)(x := e)"
  by (simp_all add: set_op_ec_def)

lemma sched_call_simps [simp]:
  "r_states (sched_call f r) = r_states r" "r_kernel (sched_call f r) = r_kernel r"
  "r_op_ec (sched_call f r) = r_op_ec r" "r_pool (sched_call f r) = r_pool r"
  "timer_queue_at (sched_call f r) = timer_queue_at r"
  by (simp_all add: sched_call_def split: prod.split)

lemma epoll_ctl_frame:
  assumes "epoll_ctl ctl what fd ev dat r = (r1, result)"
  shows "r_states r1 = r_states r" "r_sched r1 = r_sched r" "r_this r1 = r_this r" "r_op_ec r1 = r_op_ec r"
    "ctl (r_kernel r) what fd ev dat = (r_kernel r1, result)"
  using assms by (auto simp: epoll_ctl_def split: prod.splits)

lemma epoll_ctl_pool:
  "r_pool (fst (epoll_ctl ctl what fd ev dat r)) = r_pool r" "r_states (fst (epoll_ctl ctl what fd ev dat r)) = r_states r"
  by (simp_all add: epoll_ctl_def case_prod_unfold Let_def)

lemma wake_one_frame [simp]:
  "ready_queue (fst (wake_one_thread_and_unlock s)) = ready_queue s"
  "outstanding_work (fst (wake_one_thread_and_unlock s)) = outstanding_work s"
  by (simp_all add: wake_one_thread_and_unlock_def interrupt_task_def Let_def case_prod_unfold)

section \<open>Where the operations are\<close>

fun user_ops_of :: "('o, 'd) operation \<Rightarrow> 'o list" where
  "user_ops_of (UserOp op) = [op]"
| "user_ops_of (DescriptorOp d) = []"

fun item_ops :: "('o, 'd) operation item \<Rightarrow> 'o list" where
  "item_ops TaskOp = []"
| "item_ops (Op x) = user_ops_of x"

text \<open>The operations that wait in the scheduler's queue or the thread's private one, and those of a
  descriptor.\<close>

definition posted :: "('o, 'd, 'w, 'q, 't, 'a) reactor \<Rightarrow> 'o multiset" where
  "posted r = mset (concat (map item_ops (ready_queue (r_sched r)))) +
     (case r_this r of None \<Rightarrow> {#} | Some ti \<Rightarrow> mset (concat (map user_ops_of (private_op_queue ti))))"

definition pending :: "'d \<Rightarrow> ('o, 'd, 'w, 'q, 't, 'a) reactor \<Rightarrow> 'o multiset" where
  "pending d r = mset (ds_queue (r_states r d) ReadOp) + mset (ds_queue (r_states r d) WriteOp) +
     mset (ds_queue (r_states r d) ExceptOp)"

text \<open>The work counted by the scheduler and, not yet added, by the thread.\<close>

definition total_work :: "('o, 'd, 'w, 'q, 't, 'a) reactor \<Rightarrow> int" where
  "total_work r = outstanding_work (r_sched r) + (case r_this r of None \<Rightarrow> 0 | Some ti \<Rightarrow> private_outstanding_work ti)"

lemma concat_user_ops [simp]: "concat (map user_ops_of (map UserOp ops)) = ops"
    "concat (map item_ops (map Op (map UserOp ops))) = ops"
  by (induction ops) simp_all

lemma posted_cong: "r_sched r1 = r_sched r \<Longrightarrow> r_this r1 = r_this r \<Longrightarrow> posted r1 = posted r"
    "r_sched r1 = r_sched r \<Longrightarrow> r_this r1 = r_this r \<Longrightarrow> total_work r1 = total_work r"
  by (simp_all add: posted_def total_work_def)

lemma posted_frames [simp]:
  "posted (upd_state d f r) = posted r" "total_work (upd_state d f r) = total_work r"
  "posted (set_op_ec x e r) = posted r" "total_work (set_op_ec x e r) = total_work r"
  "posted (r\<lparr>r_kernel := w\<rparr>) = posted r" "total_work (r\<lparr>r_kernel := w\<rparr>) = total_work r"
  "posted (r\<lparr>r_op_ec := ecs\<rparr>) = posted r" "total_work (r\<lparr>r_op_ec := ecs\<rparr>) = total_work r"
  by (auto intro: posted_cong)

lemma r_post_immediate_props [simp]:
  "r_states (r_post_immediate op c r) = r_states r" "r_op_ec (r_post_immediate op c r) = r_op_ec r"
  "r_kernel (r_post_immediate op c r) = r_kernel r"
  "posted (r_post_immediate op c r) = add_mset op (posted r)" "total_work (r_post_immediate op c r) = total_work r + 1"
  by (simp_all add: r_post_immediate_def sched_call_def post_immediate_completion_def posted_def total_work_def work_started_def
      case_prod_unfold Let_def split: option.split)

lemma r_post_deferred_props [simp]:
  "r_states (r_post_deferred ops r) = r_states r" "r_op_ec (r_post_deferred ops r) = r_op_ec r"
  "r_kernel (r_post_deferred ops r) = r_kernel r"
  "posted (r_post_deferred ops r) = posted r + mset ops" "total_work (r_post_deferred ops r) = total_work r"
  by (simp_all add: r_post_deferred_def sched_call_def post_deferred_completions_def posted_def total_work_def
      case_prod_unfold Let_def del: map_map split: option.split)

lemma r_work_started_props [simp]:
  "r_states (r_work_started r) = r_states r" "r_op_ec (r_work_started r) = r_op_ec r" "r_kernel (r_work_started r) = r_kernel r"
  "posted (r_work_started r) = posted r" "total_work (r_work_started r) = total_work r + 1"
  by (simp_all add: r_work_started_def sched_call_def posted_def total_work_def work_started_def)

section \<open>Starting\<close>

text \<open>What \<open>start_op\<close> does to the counts, whichever way it goes.\<close>

definition op_added :: "'d \<Rightarrow> 'o \<Rightarrow> ('o, 'd, 'w, 'q, 't, 'a) reactor \<Rightarrow> ('o, 'd, 'w, 'q, 't, 'a) reactor \<Rightarrow> bool" where
  "op_added d op r r' \<longleftrightarrow> pending d r' + posted r' = add_mset op (pending d r + posted r) \<and>
     total_work r' = total_work r + 1 \<and> (\<forall>d'. d' \<noteq> d \<longrightarrow> r_states r' d' = r_states r d')"

lemma pending_cong: "r_states r1 d = r_states r d \<Longrightarrow> pending d r1 = pending d r"
  by (simp add: pending_def)

text \<open>A step that changes neither the queues nor the scheduler, before one that adds the operation.\<close>

lemma op_added_frame:
  assumes "op_added d op r1 r'" "r_sched r1 = r_sched r" "r_this r1 = r_this r"
    "ds_queue (r_states r1 d) = ds_queue (r_states r d)" "\<And>d'. d' \<noteq> d \<Longrightarrow> r_states r1 d' = r_states r d'"
  shows "op_added d op r r'"
  using assms posted_cong [OF assms(2,3)] by (simp add: op_added_def pending_def)

lemma op_added_post: "op_added d op r (r_post_immediate op c r)"
  by (simp add: op_added_def pending_def)

lemma op_added_push: "op_added d op r (push_op ty d op r)"
  by (cases ty) (simp_all add: op_added_def push_op_def pending_def)

lemma op_added_arm: "op_added d op r (arm_and_push ctl ty descriptor d op c r)"
proof -
  obtain r1 result where e: "epoll_ctl ctl CtlMod descriptor (registered_events (r_states r d) OR EPOLLOUT) (Descriptor d) r = (r1, result)"
    by (cases "epoll_ctl ctl CtlMod descriptor (registered_events (r_states r d) OR EPOLLOUT) (Descriptor d) r")
  note fr = epoll_ctl_frame [OF e]
  show ?thesis
    by (auto simp: arm_and_push_def e fr op_added_push
        intro!: op_added_frame [where r = r, OF op_added_post] op_added_frame [where r = r, OF op_added_push])
qed

lemma op_added_rearm: "op_added d op r (rearm_and_push ctl ty descriptor d op c r)"
proof (cases "registered_events (r_states r d) = 0")
  case True
  then show ?thesis
    by (auto simp: rearm_and_push_def intro!: op_added_frame [where r = r, OF op_added_post])
next
  case False
  define r1 where "r1 = (if ty = WriteOp then upd_state d (\<lambda>s. s\<lparr>registered_events := registered_events s OR EPOLLOUT\<rparr>) r else r)"
  obtain r2 ig where e: "epoll_ctl ctl CtlMod descriptor (registered_events (r_states r1 d)) (Descriptor d) r1 = (r2, ig)"
    by (cases "epoll_ctl ctl CtlMod descriptor (registered_events (r_states r1 d)) (Descriptor d) r1")
  have "rearm_and_push ctl ty descriptor d op c r = push_op ty d op r2"
    using False e by (simp add: rearm_and_push_def r1_def Let_def)
  then show ?thesis
    using epoll_ctl_frame [OF e]
    by (auto simp: r1_def intro!: op_added_frame [where r = r, OF op_added_push])
qed

lemma op_added_start: "op_added d op r (start_op ctl perform ty descriptor (Some d) op c spec r)"
proof -
  obtain w1 status e where p: "perform op (r_kernel r) = (w1, status, e)" by (metis prod_cases3)
  show ?thesis
    by (auto simp: start_op_def p Let_def op_added_post op_added_push op_added_arm op_added_rearm
        intro!: op_added_frame [where r = r, OF op_added_post] op_added_frame [where r = r, OF op_added_arm])
qed

section \<open>Cancelling\<close>

lemma abort_queue_eq: "abort_queue q ecs ops = (set_ec (basic_ec operation_aborted) q ecs, ops @ q)"
  by (induction q arbitrary: ecs ops) (auto simp: set_ec_def fun_eq_iff)

lemma set_ec_append: "set_ec e xs (set_ec e ys ecs) = set_ec e (ys @ xs) ecs"
  by (auto simp: set_ec_def)

definition all_queued :: "'d \<Rightarrow> ('o, 'd, 'w, 'q, 't, 'a) reactor \<Rightarrow> 'o list" where
  "all_queued d r = ds_queue (r_states r d) ReadOp @ ds_queue (r_states r d) WriteOp @ ds_queue (r_states r d) ExceptOp"

lemma mset_all_queued: "mset (all_queued d r) = pending d r"
  by (simp add: all_queued_def pending_def)

lemma op_type_cases: "(\<forall>ty. P ty) \<longleftrightarrow> P ReadOp \<and> P WriteOp \<and> P ExceptOp"
  by (metis op_type.exhaust)

lemma abort_all:
  "abort_queues [ReadOp, WriteOp, ExceptOp] d r [] =
    (r\<lparr>r_op_ec := set_ec (basic_ec operation_aborted) (all_queued d r) (r_op_ec r),
       r_states := (r_states r)(d := r_states r d\<lparr>ds_queue := (\<lambda>_. [])\<rparr>)\<rparr>, all_queued d r)"
proof -
  have "(\<lambda>ty. if ty = ExceptOp then [] else if ty = WriteOp then [] else if ty = ReadOp then [] else f ty) = (\<lambda>_. [])"
    for f :: "op_type \<Rightarrow> 'a list"
    using op_type_cases by (intro ext) (metis op_type.exhaust)
  then show ?thesis
    by (simp add: abort_queue_eq set_ec_append upd_state_def all_queued_def fun_upd_def cong: if_cong)
qed

section \<open>Performing\<close>

text \<open>
  One of the three loops: with its events not set it does nothing; otherwise the operations \<open>ops\<close> are
  those of the queue's front that their attempts found done, until one is not, or one exhausted the
  descriptor; \<open>left\<close> stays queued, and whether to go on speculating is recorded. The kernel's state and
  the \<open>ec_\<close> fields are those after the attempts.
\<close>

definition type_performed ::
  "('o, 'w) performer \<Rightarrow> 32 word \<Rightarrow> op_type \<Rightarrow> 'o list \<Rightarrow> bool \<Rightarrow> 'w \<times> ('o \<Rightarrow> error_code) \<Rightarrow>
   'w \<times> ('o \<Rightarrow> error_code) \<Rightarrow> 'o list \<Rightarrow> 'o list \<Rightarrow> bool \<Rightarrow> bool" where
  "type_performed perform events ty q spec s s' ops left spec' \<longleftrightarrow>
     q = ops @ left \<and>
     (if events AND (ready_flag ty OR EPOLLERR OR EPOLLHUP) = 0 then ops = [] \<and> spec' = spec \<and> s' = s
      else performed_until perform q (length ops) spec' s \<and>
        s' = attempts perform (take (if spec' then Suc (length ops) else length ops) q) s)"

lemma perform_type_props:
  assumes "perform_type perform events d ty (r, ops) = (r1, ops1)"
  shows "\<exists>os. ops1 = ops @ os \<and>
    type_performed perform events ty (ds_queue (r_states r d) ty) (try_speculative (r_states r d) ty)
      (r_kernel r, r_op_ec r) (r_kernel r1, r_op_ec r1) os (ds_queue (r_states r1 d) ty) (try_speculative (r_states r1 d) ty) \<and>
    (\<forall>t. t \<noteq> ty \<longrightarrow> ds_queue (r_states r1 d) t = ds_queue (r_states r d) t \<and>
       try_speculative (r_states r1 d) t = try_speculative (r_states r d) t) \<and>
    registered_events (r_states r1 d) = registered_events (r_states r d) \<and>
    r_sched r1 = r_sched r \<and> r_this r1 = r_this r \<and> (\<forall>d'. d' \<noteq> d \<longrightarrow> r_states r1 d' = r_states r d')"
proof (cases "events AND (ready_flag ty OR EPOLLERR OR EPOLLHUP) = 0")
  case True
  with assms show ?thesis
    by (intro exI [of _ "[]"]) (auto simp: perform_type_def type_performed_def)
next
  case False
  obtain q' w' ecs' go_on ops' where q: "perform_queue perform (ds_queue (r_states r d) ty) (r_kernel r) (r_op_ec r) ops = (q', w', ecs', go_on, ops')"
    by (metis prod_cases5)
  from perform_queue_correct [OF q] obtain n where n: "q' = drop n (ds_queue (r_states r d) ty)"
      "ops' = ops @ take n (ds_queue (r_states r d) ty)"
      "performed_until perform (ds_queue (r_states r d) ty) n go_on (r_kernel r, r_op_ec r)"
      "(w', ecs') = attempts perform (take (if go_on then Suc n else n) (ds_queue (r_states r d) ty)) (r_kernel r, r_op_ec r)" by blast
  have len: "min (length (ds_queue (r_states r d) ty)) n = n"
    using n(3) by (simp add: performed_until_def)
  have r1: "r1 = upd_state d (\<lambda>s. s\<lparr>ds_queue := (ds_queue s)(ty := q'), try_speculative := (try_speculative s)(ty := go_on)\<rparr>)
        (r\<lparr>r_kernel := w', r_op_ec := ecs'\<rparr>)" "ops1 = ops'"
    using assms False q by (simp_all add: perform_type_def)
  have "type_performed perform events ty (ds_queue (r_states r d) ty) (try_speculative (r_states r d) ty)
      (r_kernel r, r_op_ec r) (w', ecs') (take n (ds_queue (r_states r d) ty)) q' go_on"
    using False n(3,4) by (simp add: type_performed_def len n(1))
  then show ?thesis
    by (intro exI [of _ "take n (ds_queue (r_states r d) ty)"]) (simp add: r1 n(2))
qed

text \<open>
  What a call of \<open>perform_io\<close> completes: the three loops one after another, the exceptional operations
  first, each on the kernel's state that the one before has left.
\<close>

definition completes ::
  "('o, 'w) performer \<Rightarrow> 32 word \<Rightarrow> 'd \<Rightarrow> ('o, 'd, 'w, 'q, 't, 'a) reactor \<Rightarrow> ('o, 'd, 'w, 'q, 't, 'a) reactor \<Rightarrow> 'o list \<Rightarrow> bool" where
  "completes perform events d r r' ops \<longleftrightarrow> (\<exists>es ws rs s1 s2. ops = es @ ws @ rs \<and>
     type_performed perform events ExceptOp (ds_queue (r_states r d) ExceptOp) (try_speculative (r_states r d) ExceptOp)
       (r_kernel r, r_op_ec r) s1 es (ds_queue (r_states r' d) ExceptOp) (try_speculative (r_states r' d) ExceptOp) \<and>
     type_performed perform events WriteOp (ds_queue (r_states r d) WriteOp) (try_speculative (r_states r d) WriteOp)
       s1 s2 ws (ds_queue (r_states r' d) WriteOp) (try_speculative (r_states r' d) WriteOp) \<and>
     type_performed perform events ReadOp (ds_queue (r_states r d) ReadOp) (try_speculative (r_states r d) ReadOp)
       s2 (r_kernel r', r_op_ec r') rs (ds_queue (r_states r' d) ReadOp) (try_speculative (r_states r' d) ReadOp))"

lemma perform_types:
  assumes "perform_type perform events d ReadOp (perform_type perform events d WriteOp
             (perform_type perform events d ExceptOp (r, []))) = (r1, ops)"
  shows "completes perform events d r r1 ops \<and> registered_events (r_states r1 d) = registered_events (r_states r d) \<and>
    r_sched r1 = r_sched r \<and> r_this r1 = r_this r \<and> (\<forall>d'. d' \<noteq> d \<longrightarrow> r_states r1 d' = r_states r d')"
proof -
  obtain ra oa where a: "perform_type perform events d ExceptOp (r, []) = (ra, oa)"
    by (cases "perform_type perform events d ExceptOp (r, [])")
  obtain rb ob where b: "perform_type perform events d WriteOp (ra, oa) = (rb, ob)"
    by (cases "perform_type perform events d WriteOp (ra, oa)")
  have c: "perform_type perform events d ReadOp (rb, ob) = (r1, ops)"
    using assms by (simp add: a b)
  obtain es where es: "oa = es" "type_performed perform events ExceptOp (ds_queue (r_states r d) ExceptOp)
      (try_speculative (r_states r d) ExceptOp) (r_kernel r, r_op_ec r) (r_kernel ra, r_op_ec ra) es
      (ds_queue (r_states ra d) ExceptOp) (try_speculative (r_states ra d) ExceptOp)"
    using perform_type_props [OF a] by auto
  obtain ws where ws: "ob = oa @ ws" "type_performed perform events WriteOp (ds_queue (r_states ra d) WriteOp)
      (try_speculative (r_states ra d) WriteOp) (r_kernel ra, r_op_ec ra) (r_kernel rb, r_op_ec rb) ws
      (ds_queue (r_states rb d) WriteOp) (try_speculative (r_states rb d) WriteOp)"
    using perform_type_props [OF b] by auto
  obtain rs where rs: "ops = ob @ rs" "type_performed perform events ReadOp (ds_queue (r_states rb d) ReadOp)
      (try_speculative (r_states rb d) ReadOp) (r_kernel rb, r_op_ec rb) (r_kernel r1, r_op_ec r1) rs
      (ds_queue (r_states r1 d) ReadOp) (try_speculative (r_states r1 d) ReadOp)"
    using perform_type_props [OF c] by auto
  have q: "ds_queue (r_states ra d) WriteOp = ds_queue (r_states r d) WriteOp"
      "try_speculative (r_states ra d) WriteOp = try_speculative (r_states r d) WriteOp"
      "ds_queue (r_states rb d) ReadOp = ds_queue (r_states r d) ReadOp"
      "try_speculative (r_states rb d) ReadOp = try_speculative (r_states r d) ReadOp"
      "ds_queue (r_states r1 d) WriteOp = ds_queue (r_states rb d) WriteOp"
      "try_speculative (r_states r1 d) WriteOp = try_speculative (r_states rb d) WriteOp"
      "ds_queue (r_states r1 d) ExceptOp = ds_queue (r_states ra d) ExceptOp"
      "try_speculative (r_states r1 d) ExceptOp = try_speculative (r_states ra d) ExceptOp"
    using perform_type_props [OF a] perform_type_props [OF b] perform_type_props [OF c] by auto
  have "completes perform events d r r1 ops"
    unfolding completes_def using es ws rs by (simp add: q) blast
  then show ?thesis
    using perform_type_props [OF a] perform_type_props [OF b] perform_type_props [OF c] by auto
qed

lemma completes_queues:
  assumes "completes perform events d r r' ops"
  obtains es ws rs where "ops = es @ ws @ rs" "ds_queue (r_states r d) ExceptOp = es @ ds_queue (r_states r' d) ExceptOp"
    "ds_queue (r_states r d) WriteOp = ws @ ds_queue (r_states r' d) WriteOp"
    "ds_queue (r_states r d) ReadOp = rs @ ds_queue (r_states r' d) ReadOp"
  using assms unfolding completes_def type_performed_def by blast

lemma completes_pending: "completes perform events d r r' ops \<Longrightarrow> pending d r = pending d r' + mset ops"
  by (erule completes_queues) (simp add: pending_def)

lemma completes_cong:
  "r_states r2 = r_states r1 \<Longrightarrow> r_kernel r2 = r_kernel r1 \<Longrightarrow> r_op_ec r2 = r_op_ec r1 \<Longrightarrow>
     completes perform events d r r2 ops = completes perform events d r r1 ops"
  by (simp add: completes_def)

lemma perform_io_correct:
  assumes "r_this r = Some ti"
  shows "\<exists>r' first ops. perform_io perform events d r = Some (r', first) \<and> completes perform events d r r' ops \<and>
    first = (case ops of [] \<Rightarrow> None | op # rest \<Rightarrow> Some op) \<and>
    posted r' = posted r + mset (tl ops) \<and> total_work r' = total_work r + (if ops = [] then 1 else 0) \<and>
    (\<forall>d'. d' \<noteq> d \<longrightarrow> r_states r' d' = r_states r d')"
proof -
  obtain r1 ops where p: "perform_type perform events d ReadOp (perform_type perform events d WriteOp
             (perform_type perform events d ExceptOp (r, []))) = (r1, ops)"
    by (metis prod.exhaust)
  from perform_types [OF p] have c: "completes perform events d r r1 ops" "r_sched r1 = r_sched r" "r_this r1 = r_this r"
      "\<forall>d'. d' \<noteq> d \<longrightarrow> r_states r1 d' = r_states r d'"
    by simp_all
  have same: "posted r1 = posted r" "total_work r1 = total_work r"
    using c posted_cong by blast+
  show ?thesis
  proof (cases ops)
    case Nil
    then have "perform_io perform events d r = Some (r1\<lparr>r_this := Some (compensating_work_started ti)\<rparr>, None)"
      using p c assms by (simp add: perform_io_def r_compensating_work_started_def)
    moreover have "completes perform events d r (r1\<lparr>r_this := Some (compensating_work_started ti)\<rparr>) []"
      using c(1) Nil by (simp add: completes_def)
    ultimately show ?thesis
      using Nil same c assms
      by (intro exI [of _ "r1\<lparr>r_this := Some (compensating_work_started ti)\<rparr>"] exI [of _ None] exI [of _ "[]"])
        (auto simp: posted_def total_work_def compensating_work_started_def)
  next
    case (Cons op rest)
    define r' where "r' = (if rest \<noteq> [] then r_post_deferred rest r1 else r1)"
    have r': "perform_io perform events d r = Some (r', Some op)"
      using p Cons by (simp add: perform_io_def r'_def)
    have "completes perform events d r r' ops"
      using c(1) by (simp add: completes_def r'_def)
    moreover have "posted r' = posted r + mset rest" "total_work r' = total_work r" "r_states r' = r_states r1"
      using same by (simp_all add: r'_def)
    ultimately show ?thesis
      using r' Cons c(4) by (intro exI [of _ r'] exI [of _ "Some op"] exI [of _ ops]) simp
  qed
qed

section \<open>What the kernel watches\<close>

text \<open>
  The kernel's interest list: for each descriptor the events it watches. A successful \<open>EPOLL_CTL_ADD\<close>
  or \<open>EPOLL_CTL_MOD\<close> sets them, a failing call changes nothing, and performing an operation does not
  touch the list.
\<close>

definition ctl_law :: "('w \<Rightarrow> int \<Rightarrow> 32 word option) \<Rightarrow> ('w, 'd) ctl \<Rightarrow> bool" where
  "ctl_law interest ctl \<longleftrightarrow> (\<forall>w what fd ev dat. what \<noteq> CtlDel \<longrightarrow>
     interest (fst (ctl w what fd ev dat)) = (if snd (ctl w what fd ev dat) = 0 then (interest w)(fd \<mapsto> ev) else interest w))"

definition perform_law :: "('w \<Rightarrow> int \<Rightarrow> 32 word option) \<Rightarrow> ('o, 'w) performer \<Rightarrow> bool" where
  "perform_law interest perform \<longleftrightarrow> (\<forall>op w. interest (fst (perform op w)) = interest w)"

definition mods_succeed :: "('w, 'd) ctl \<Rightarrow> bool" where
  "mods_succeed ctl \<longleftrightarrow> (\<forall>w fd ev dat. snd (ctl w CtlMod fd ev dat) = 0)"

text \<open>A descriptor is watched when the kernel watches for what the reactor recorded, and that covers
  every queue with operations in it. A descriptor that epoll does not support has none.\<close>

definition watched :: "('w \<Rightarrow> int \<Rightarrow> 32 word option) \<Rightarrow> 'd \<Rightarrow> ('o, 'd, 'w, 'q, 't, 'a) reactor \<Rightarrow> bool" where
  "watched interest d r \<longleftrightarrow>
     (if registered_events (r_states r d) = 0 then ds_queue (r_states r d) = (\<lambda>_. [])
      else interest (r_kernel r) (ds_descriptor (r_states r d)) = Some (registered_events (r_states r d)) \<and>
        registered_events (r_states r d) AND EPOLLIN \<noteq> 0 \<and> registered_events (r_states r d) AND EPOLLPRI \<noteq> 0 \<and>
        (ds_queue (r_states r d) WriteOp \<noteq> [] \<longrightarrow> registered_events (r_states r d) AND EPOLLOUT \<noteq> 0))"

lemma ctl_lawD:
  assumes "ctl_law interest ctl" "ctl w what fd ev dat = (w1, result)" "what \<noteq> CtlDel"
  shows "interest w1 = (if result = 0 then (interest w)(fd \<mapsto> ev) else interest w)"
proof -
  have "interest (fst (ctl w what fd ev dat)) = (if snd (ctl w what fd ev dat) = 0 then (interest w)(fd \<mapsto> ev) else interest w)"
    using assms(1,3) unfolding ctl_law_def by blast
  then show ?thesis using assms(2) by simp
qed

lemma watched_queue:
  assumes "watched interest d r" "ds_queue (r_states r d) ty \<noteq> []"
  shows "\<exists>ev. interest (r_kernel r) (ds_descriptor (r_states r d)) = Some ev \<and> ev AND ready_flag ty \<noteq> 0"
  using assms by (cases ty) (auto simp: watched_def ready_flag_def split: if_splits)

lemma watched_cong:
  assumes "r_states r1 d = r_states r d" "interest (r_kernel r1) = interest (r_kernel r)"
  shows "watched interest d r1 = watched interest d r"
  using assms by (simp add: watched_def)

lemma or_keeps: "x AND y \<noteq> 0 \<Longrightarrow> (x OR z) AND y \<noteq> (0 :: 32 word)" "x AND y \<noteq> 0 \<Longrightarrow> (z OR x) AND y \<noteq> (0 :: 32 word)"
    "x \<noteq> 0 \<Longrightarrow> x OR z \<noteq> (0 :: 32 word)"
  by (auto simp: bit_eq_iff bit_simps)

lemma epollout_nz [simp]: "EPOLLOUT \<noteq> 0"
  by (simp add: EPOLLOUT_def)

lemma epollout_set [simp]: "(x OR EPOLLOUT) AND EPOLLOUT \<noteq> 0"
  by (rule or_keeps(2)) (simp add: EPOLLOUT_def)

lemma watched_frames [simp]:
  "watched interest d (r_post_immediate op c r) = watched interest d r"
  "watched interest d (r_post_deferred ops r) = watched interest d r"
  "watched interest d (set_op_ec op e r) = watched interest d r"
  by (simp_all add: watched_def)

lemma watched_push:
  assumes "watched interest d r" "registered_events (r_states r d) \<noteq> 0"
    "ty = WriteOp \<longrightarrow> registered_events (r_states r d) AND EPOLLOUT \<noteq> 0"
  shows "watched interest d (push_op ty d op r)"
  using assms by (auto simp: watched_def push_op_def)

text \<open>Registering the events \<open>ev\<close> with the kernel and in the state, in either order.\<close>

lemma watched_mod:
  assumes "watched interest d r" "registered_events (r_states r d) \<noteq> 0"
    and "r_states r1 = (r_states r)(d := r_states r d\<lparr>registered_events := registered_events (r_states r d) OR x\<rparr>)"
    and "interest (r_kernel r1) = (interest (r_kernel r))(ds_descriptor (r_states r d) \<mapsto> registered_events (r_states r d) OR x)"
  shows "watched interest d r1"
  using assms by (auto simp: watched_def or_keeps)

lemma watched_arm:
  assumes law: "ctl_law interest ctl" and w: "watched interest d r" and fd: "descriptor = ds_descriptor (r_states r d)"
  shows "watched interest d (arm_and_push ctl ty descriptor d op c r)"
proof (cases "registered_events (r_states r d) = 0")
  case True
  then show ?thesis
    using w by (simp add: arm_and_push_def)
next
  case nz: False
  show ?thesis
  proof (cases "ty = WriteOp \<and> registered_events (r_states r d) AND EPOLLOUT = 0")
    case False
    with nz w show ?thesis by (auto simp: arm_and_push_def intro: watched_push)
  next
    case True
    let ?ev = "registered_events (r_states r d) OR EPOLLOUT"
    obtain r1 result where e: "epoll_ctl ctl CtlMod descriptor ?ev (Descriptor d) r = (r1, result)"
      by (cases "epoll_ctl ctl CtlMod descriptor ?ev (Descriptor d) r")
    note fr = epoll_ctl_frame [OF e]
    have k: "interest (r_kernel r1) = (if result = 0 then (interest (r_kernel r))(descriptor \<mapsto> ?ev) else interest (r_kernel r))"
      using ctl_lawD [OF law fr(5)] by simp
    let ?r2 = "upd_state d (\<lambda>s. s\<lparr>registered_events := registered_events s OR ?ev\<rparr>) r1"
    have ev: "registered_events (r_states r d) OR ?ev = ?ev"
      by (simp add: or.assoc [symmetric])
    have call: "arm_and_push ctl ty descriptor d op c r =
        (if result = 0 then push_op ty d op ?r2 else r_post_immediate op c (set_op_ec op (system_ec result) r1))"
      using nz True e by (simp add: arm_and_push_def)
    have "watched interest d ?r2" if "result = 0"
      by (rule watched_mod [where x = EPOLLOUT, OF w nz]) (simp_all add: fr(1) ev k that fd)
    moreover have "registered_events (r_states ?r2 d) AND EPOLLOUT \<noteq> 0" "registered_events (r_states ?r2 d) \<noteq> 0"
      using nz by (auto simp: fr(1) ev or_keeps)
    moreover have "watched interest d r1" if "result \<noteq> 0"
      using w k that watched_cong [where r = r and ?r1.0 = r1 and interest = interest and d = d] fr(1) by simp
    ultimately show ?thesis
      unfolding call by (simp add: watched_push)
  qed
qed

lemma watched_rearm:
  assumes law: "ctl_law interest ctl" and w: "watched interest d r" and fd: "descriptor = ds_descriptor (r_states r d)"
    and ok: "mods_succeed ctl"
  shows "watched interest d (rearm_and_push ctl ty descriptor d op c r)"
proof (cases "registered_events (r_states r d) = 0")
  case True
  then show ?thesis using w by (simp add: rearm_and_push_def)
next
  case nz: False
  define x where "x = (if ty = WriteOp then EPOLLOUT else 0)"
  define r1 where "r1 = (if ty = WriteOp then upd_state d (\<lambda>s. s\<lparr>registered_events := registered_events s OR EPOLLOUT\<rparr>) r else r)"
  let ?ev = "registered_events (r_states r d) OR x"
  have r1: "r_states r1 = (r_states r)(d := r_states r d\<lparr>registered_events := ?ev\<rparr>)" "r_kernel r1 = r_kernel r"
    by (auto simp: r1_def x_def)
  obtain r2 ig where e: "epoll_ctl ctl CtlMod descriptor (registered_events (r_states r1 d)) (Descriptor d) r1 = (r2, ig)"
    by (cases "epoll_ctl ctl CtlMod descriptor (registered_events (r_states r1 d)) (Descriptor d) r1")
  note fr = epoll_ctl_frame [OF e]
  have ig: "ig = 0"
    using ok [unfolded mods_succeed_def, rule_format, of "r_kernel r1" descriptor "registered_events (r_states r1 d)" "Descriptor d"] fr(5) by simp
  have "interest (r_kernel r2) = (interest (r_kernel r1))(descriptor \<mapsto> registered_events (r_states r1 d))"
    using ctl_lawD [OF law fr(5)] ig by simp
  then have "watched interest d r2"
    by (intro watched_mod [where x = x, OF w nz]) (simp_all add: fr(1) r1 fd)
  moreover have "registered_events (r_states r2 d) \<noteq> 0" "ty = WriteOp \<longrightarrow> registered_events (r_states r2 d) AND EPOLLOUT \<noteq> 0"
    using nz by (auto simp: fr(1) r1 x_def or_keeps)
  moreover have "rearm_and_push ctl ty descriptor d op c r = push_op ty d op r2"
    using nz e by (simp add: rearm_and_push_def r1_def Let_def)
  ultimately show ?thesis
    by (simp add: watched_push)
qed

lemma watched_start:
  assumes law: "ctl_law interest ctl" and pl: "perform_law interest perform" and ok: "mods_succeed ctl"
    and w: "watched interest d r" and fd: "descriptor = ds_descriptor (r_states r d)"
  shows "watched interest d (start_op ctl perform ty descriptor (Some d) op c spec r)"
proof -
  obtain w1 status e where p: "perform op (r_kernel r) = (w1, status, e)" by (metis prod_cases3)
  have k: "interest w1 = interest (r_kernel r)"
    using pl p unfolding perform_law_def by (metis fst_conv)
  have w1: "watched interest d (r\<lparr>r_kernel := w1\<rparr>)"
    using w k by (simp add: watched_def)
  have arm1: "watched interest d (arm_and_push ctl ty descriptor d op c (set_op_ec op e (r\<lparr>r_kernel := w1\<rparr>)))"
    by (rule watched_arm [OF law]) (simp_all add: w1 fd)
  have spec1: "watched interest d (upd_state d (\<lambda>s. s\<lparr>try_speculative := (try_speculative s)(ty := False)\<rparr>) (set_op_ec op e (r\<lparr>r_kernel := w1\<rparr>)))"
    using w k by (auto simp: watched_def split: if_splits)
  have push1: "watched interest d (push_op ty d op r)" if ne: "ds_queue (r_states r d) ty \<noteq> []"
  proof (rule watched_push [OF w])
    show "registered_events (r_states r d) \<noteq> 0"
      using w ne by (auto simp: watched_def)
    then show "ty = WriteOp \<longrightarrow> registered_events (r_states r d) AND EPOLLOUT \<noteq> 0"
      using w ne by (auto simp: watched_def)
  qed
  show ?thesis
    by (simp add: start_op_def p Let_def w w1 arm1 spec1 watched_arm [OF law w fd] watched_rearm [OF law w fd ok] push1)
qed

lemma watched_abort:
  "watched interest d r \<Longrightarrow> watched interest d (r\<lparr>r_op_ec := e, r_states := (r_states r)(d := r_states r d\<lparr>ds_queue := (\<lambda>_. [])\<rparr>)\<rparr>)"
  by (simp add: watched_def)

lemma watched_register:
  assumes law: "ctl_law interest ctl" and reg: "register_descriptor ctl created descriptor r = (r', d, 0)"
    and clean: "ds_queue (r_states r d) = (\<lambda>_. [])"
  shows "watched interest d r' \<and> ds_descriptor (r_states r' d) = descriptor"
proof -
  obtain ra da where a: "allocate_descriptor_state created r = (ra, da)"
    by (cases "allocate_descriptor_state created r")
  let ?r3 = "upd_state da (\<lambda>s. s\<lparr>registered_events := initial_events\<rparr>)
    (upd_state da (\<lambda>s. s\<lparr>ds_descriptor := descriptor, ds_shutdown := False, try_speculative := (\<lambda>_. True)\<rparr>) ra)"
  obtain r4 result where e: "epoll_ctl ctl CtlAdd descriptor initial_events (Descriptor da) ?r3 = (r4, result)"
    by (cases "epoll_ctl ctl CtlAdd descriptor initial_events (Descriptor da) ?r3")
  note fr = epoll_ctl_frame [OF e]
  have same: "r_states ra = r_states r"
    using a by (auto simp: allocate_descriptor_state_def split: prod.splits)
  have iv: "initial_events \<noteq> 0" "initial_events AND EPOLLIN \<noteq> 0" "initial_events AND EPOLLPRI \<noteq> 0"
    by (simp_all add: initial_events_def EPOLLIN_def EPOLLPRI_def EPOLLERR_def EPOLLHUP_def EPOLLET_def)
  have r': "da = d" "result = 0 \<and> r' = r4 \<or> r' = upd_state d (\<lambda>s. s\<lparr>registered_events := 0\<rparr>) r4"
    using reg a e by (auto simp: register_descriptor_def split: if_splits)
  from r'(2) show ?thesis
  proof
    assume ok: "result = 0 \<and> r' = r4"
    have "interest (r_kernel r4) = (interest (r_kernel ?r3))(descriptor \<mapsto> initial_events)"
      using ctl_lawD [OF law fr(5)] ok by simp
    then show ?thesis
      using ok iv clean same r'(1) by (simp add: fr(1) watched_def)
  next
    assume "r' = upd_state d (\<lambda>s. s\<lparr>registered_events := 0\<rparr>) r4"
    then show ?thesis
      using clean same r'(1) by (simp add: fr(1) watched_def)
  qed
qed

lemma perform_queue_interest:
  assumes law: "perform_law interest perform"
  shows "perform_queue perform q w ecs ops = (q', w', ecs', go_on, ops') \<Longrightarrow> interest w' = interest w"
proof (induction q arbitrary: w ecs ops)
  case (Cons op q)
  obtain w1 status e where p: "perform op w = (w1, status, e)" by (metis prod_cases3)
  have k: "interest w1 = interest w"
    using law [unfolded perform_law_def, rule_format, of op w] p by simp
  show ?case
  proof (cases status)
    case Done
    with Cons.prems p have "perform_queue perform q w1 (ecs(op := e)) (ops @ [op]) = (q', w', ecs', go_on, ops')" by simp
    from Cons.IH [OF this] k show ?thesis by simp
  qed (use Cons.prems p k in auto)
qed simp

lemma perform_type_interest:
  assumes law: "perform_law interest perform" and t: "perform_type perform events d ty (r, ops) = (r1, ops1)"
  shows "interest (r_kernel r1) = interest (r_kernel r) \<and> ds_descriptor (r_states r1 d) = ds_descriptor (r_states r d)"
proof (cases "events AND (ready_flag ty OR EPOLLERR OR EPOLLHUP) = 0")
  case False
  obtain q' w' ecs' go_on ops' where q: "perform_queue perform (ds_queue (r_states r d) ty) (r_kernel r) (r_op_ec r) ops = (q', w', ecs', go_on, ops')"
    by (metis prod_cases5)
  from perform_queue_interest [OF law q] t False q show ?thesis
    by (auto simp: perform_type_def)
qed (use t in \<open>simp add: perform_type_def\<close>)

lemma watched_perform:
  assumes law: "perform_law interest perform" and w: "watched interest d r" and th: "r_this r = Some ti"
    and io: "perform_io perform events d r = Some (r', first)"
  shows "watched interest d r'"
proof -
  obtain ra oa where a: "perform_type perform events d ExceptOp (r, []) = (ra, oa)"
    by (cases "perform_type perform events d ExceptOp (r, [])")
  obtain rb ob where b: "perform_type perform events d WriteOp (ra, oa) = (rb, ob)"
    by (cases "perform_type perform events d WriteOp (ra, oa)")
  obtain rc oc where c: "perform_type perform events d ReadOp (rb, ob) = (rc, oc)"
    by (cases "perform_type perform events d ReadOp (rb, ob)")
  have k: "interest (r_kernel rc) = interest (r_kernel r)" "ds_descriptor (r_states rc d) = ds_descriptor (r_states r d)"
    using perform_type_interest [OF law a] perform_type_interest [OF law b] perform_type_interest [OF law c] by simp_all
  have "perform_type perform events d ReadOp (perform_type perform events d WriteOp
      (perform_type perform events d ExceptOp (r, []))) = (rc, oc)"
    by (simp add: a b c)
  note t = perform_types [OF this]
  obtain es ws rs where q: "ds_queue (r_states r d) ExceptOp = es @ ds_queue (r_states rc d) ExceptOp"
      "ds_queue (r_states r d) WriteOp = ws @ ds_queue (r_states rc d) WriteOp"
      "ds_queue (r_states r d) ReadOp = rs @ ds_queue (r_states rc d) ReadOp"
    by (rule completes_queues [OF conjunct1 [OF t]])
  have e: "registered_events (r_states rc d) = registered_events (r_states r d)" "r_this rc = r_this r"
    using t by simp_all
  have "ds_queue (r_states rc d) = (\<lambda>_. [])" if "ds_queue (r_states r d) = (\<lambda>_. [])"
    using q that by (auto simp: fun_eq_iff op_type_cases)
  then have "watched interest d rc"
    using w q e k by (auto simp: watched_def split: if_splits)
  moreover have "r_states r' = r_states rc \<and> r_kernel r' = r_kernel rc"
    using io th e(2) by (auto simp: perform_io_def a b c r_compensating_work_started_def split: list.splits if_splits)
  ultimately show ?thesis
    by (simp add: watched_def)
qed

section \<open>Properties\<close>

text \<open>Where \<open>start_op\<close> leaves the operation: at the end of its queue, or with the scheduler.\<close>

definition op_queued :: "op_type \<Rightarrow> 'd \<Rightarrow> 'o \<Rightarrow> ('o, 'd, 'w, 'q, 't, 'a) reactor \<Rightarrow> ('o, 'd, 'w, 'q, 't, 'a) reactor \<Rightarrow> bool" where
  "op_queued ty d op r r' \<longleftrightarrow>
     ds_queue (r_states r' d) = (ds_queue (r_states r d))(ty := ds_queue (r_states r d) ty @ [op]) \<and> posted r' = posted r"

definition op_posted :: "'d \<Rightarrow> 'o \<Rightarrow> ('o, 'd, 'w, 'q, 't, 'a) reactor \<Rightarrow> ('o, 'd, 'w, 'q, 't, 'a) reactor \<Rightarrow> bool" where
  "op_posted d op r r' \<longleftrightarrow>
     ds_queue (r_states r' d) = ds_queue (r_states r d) \<and> posted r' = add_mset op (posted r)"

text \<open>
  What \<open>start_op\<close> decides. After a shutdown, the operation is posted with the code it has; behind
  waiting operations of its type it is queued. Otherwise it is attempted, when that is allowed, no
  exceptional operation precedes a read, and the queue still speculates, and posted with the
  attempt's code when that was not \<open>NotDone\<close>. What is left is refused when the descriptor is not
  registered, or when the kernel refuses to watch for writing, and queued otherwise.
\<close>

definition started ::
  "('w, 'd) ctl \<Rightarrow> ('o, 'w) performer \<Rightarrow> op_type \<Rightarrow> int \<Rightarrow> 'd \<Rightarrow> 'o \<Rightarrow> bool \<Rightarrow>
   ('o, 'd, 'w, 'q, 't, 'a) reactor \<Rightarrow> ('o, 'd, 'w, 'q, 't, 'a) reactor \<Rightarrow> bool" where
  "started ctl perform ty descriptor d op allow r r' \<longleftrightarrow>
     (let s = r_states r d;
          speculative = (allow \<and> (ty \<noteq> ReadOp \<or> ds_queue s ExceptOp = []));
          tried = (speculative \<and> try_speculative s ty);
          (w1, status, e) = perform op (r_kernel r);
          w = (if tried then w1 else r_kernel r);
          refusal = snd (ctl w CtlMod descriptor (registered_events s OR EPOLLOUT) (Descriptor d))
      in if ds_shutdown s then op_posted d op r r' \<and> r_op_ec r' = r_op_ec r \<and> r_kernel r' = r_kernel r
         else if ds_queue s ty \<noteq> [] then op_queued ty d op r r' \<and> r_op_ec r' = r_op_ec r \<and> r_kernel r' = r_kernel r
         else if tried \<and> status \<noteq> NotDone then
           op_posted d op r r' \<and> r_op_ec r' = (r_op_ec r)(op := e) \<and> r_kernel r' = w1 \<and>
           try_speculative (r_states r' d) =
             (try_speculative s)(ty := status = Done \<or> registered_events s = 0)
         else if registered_events s = 0 then
           op_posted d op r r' \<and> r_op_ec r' = (r_op_ec r)(op := basic_ec operation_not_supported) \<and> r_kernel r' = w
         else if speculative \<and> ty = WriteOp \<and> registered_events s AND EPOLLOUT = 0 \<and> refusal \<noteq> 0 then
           op_posted d op r r' \<and> r_op_ec r' = (r_op_ec r)(op := system_ec refusal)
         else op_queued ty d op r r' \<and> r_op_ec r' = (if tried then (r_op_ec r)(op := e) else r_op_ec r) \<and>
           (ty = WriteOp \<longrightarrow> registered_events (r_states r' d) AND EPOLLOUT \<noteq> 0))"

lemma push_op_queued:
  "op_queued ty d op r (push_op ty d op r)" "r_op_ec (push_op ty d op r) = r_op_ec r" "r_kernel (push_op ty d op r) = r_kernel r"
  "registered_events (r_states (push_op ty d op r) d) = registered_events (r_states r d)"
  by (simp_all add: op_queued_def push_op_def)

lemma op_posted_post: "op_posted d op r (r_post_immediate op c r)"
  by (simp add: op_posted_def)

lemma op_moved_frame:
  assumes "ds_queue (r_states r1 d) = ds_queue (r_states r d)" "posted r1 = posted r"
  shows "op_queued ty d op r1 r' = op_queued ty d op r r'" "op_posted d op r1 r' = op_posted d op r r'"
  using assms by (simp_all add: op_queued_def op_posted_def)

lemma epoll_ctl_posted: "epoll_ctl ctl what fd ev dat r = (r1, result) \<Longrightarrow> posted r1 = posted r"
  using epoll_ctl_frame(2,3) posted_cong(1) by metis

text \<open>The two parts after the attempt.\<close>

lemma arm_outcome:
  assumes "r' = arm_and_push ctl ty descriptor d op c r"
    and "refusal = snd (ctl (r_kernel r) CtlMod descriptor (registered_events (r_states r d) OR EPOLLOUT) (Descriptor d))"
  shows "if registered_events (r_states r d) = 0 then
      op_posted d op r r' \<and> r_op_ec r' = (r_op_ec r)(op := basic_ec operation_not_supported) \<and> r_kernel r' = r_kernel r
    else if ty = WriteOp \<and> registered_events (r_states r d) AND EPOLLOUT = 0 \<and> refusal \<noteq> 0 then
      op_posted d op r r' \<and> r_op_ec r' = (r_op_ec r)(op := system_ec refusal)
    else op_queued ty d op r r' \<and> r_op_ec r' = r_op_ec r \<and> (ty = WriteOp \<longrightarrow> registered_events (r_states r' d) AND EPOLLOUT \<noteq> 0)"
proof -
  obtain r1 result where e: "epoll_ctl ctl CtlMod descriptor (registered_events (r_states r d) OR EPOLLOUT) (Descriptor d) r = (r1, result)"
    by (cases "epoll_ctl ctl CtlMod descriptor (registered_events (r_states r d) OR EPOLLOUT) (Descriptor d) r")
  note fr = epoll_ctl_frame [OF e] epoll_ctl_posted [OF e]
  have "refusal = result"
    using assms(2) fr(5) by simp
  then show ?thesis
    using fr unfolding assms(1)
    by (auto simp: arm_and_push_def e op_posted_def op_queued_def push_op_def or_keeps)
qed

lemma rearm_outcome:
  assumes "r' = rearm_and_push ctl ty descriptor d op c r"
  shows "if registered_events (r_states r d) = 0 then
      op_posted d op r r' \<and> r_op_ec r' = (r_op_ec r)(op := basic_ec operation_not_supported) \<and> r_kernel r' = r_kernel r
    else op_queued ty d op r r' \<and> r_op_ec r' = r_op_ec r \<and> (ty = WriteOp \<longrightarrow> registered_events (r_states r' d) AND EPOLLOUT \<noteq> 0)"
proof (cases "registered_events (r_states r d) = 0")
  case True
  then show ?thesis
    using assms by (simp add: rearm_and_push_def op_posted_def)
next
  case False
  define r1 where "r1 = (if ty = WriteOp then upd_state d (\<lambda>s. s\<lparr>registered_events := registered_events s OR EPOLLOUT\<rparr>) r else r)"
  obtain r2 ig where e: "epoll_ctl ctl CtlMod descriptor (registered_events (r_states r1 d)) (Descriptor d) r1 = (r2, ig)"
    by (cases "epoll_ctl ctl CtlMod descriptor (registered_events (r_states r1 d)) (Descriptor d) r1")
  note fr = epoll_ctl_frame [OF e] epoll_ctl_posted [OF e]
  have "r' = push_op ty d op r2"
    using False e assms by (simp add: rearm_and_push_def r1_def Let_def)
  then show ?thesis
    using False fr by (auto simp: r1_def op_queued_def push_op_def)
qed

lemma start_op_started: "started ctl perform ty descriptor d op allow r (start_op ctl perform ty descriptor (Some d) op c allow r)"
proof -
  obtain w1 status e where p: "perform op (r_kernel r) = (w1, status, e)" by (metis prod_cases3)
  let ?s = "r_states r d" and ?r' = "start_op ctl perform ty descriptor (Some d) op c allow r"
  let ?spec = "allow \<and> (ty \<noteq> ReadOp \<or> ds_queue ?s ExceptOp = [])"
  let ?r1 = "set_op_ec op e (r\<lparr>r_kernel := w1\<rparr>)"
  consider "ds_shutdown ?s" | "\<not> ds_shutdown ?s" "ds_queue ?s ty \<noteq> []"
    | "\<not> ds_shutdown ?s" "ds_queue ?s ty = []" "?spec" "try_speculative ?s ty" "status \<noteq> NotDone"
    | "\<not> ds_shutdown ?s" "ds_queue ?s ty = []" "?spec" "try_speculative ?s ty" "status = NotDone"
    | "\<not> ds_shutdown ?s" "ds_queue ?s ty = []" "?spec" "\<not> try_speculative ?s ty"
    | "\<not> ds_shutdown ?s" "ds_queue ?s ty = []" "\<not> ?spec"
    by blast
  then show ?thesis
  proof cases
    case 1
    then show ?thesis by (simp add: started_def p Let_def start_op_def op_posted_post)
  next
    case 2
    then show ?thesis by (simp add: started_def p Let_def start_op_def push_op_queued)
  next
    case 3
    then show ?thesis
      by (cases status) (auto simp: started_def p Let_def start_op_def op_posted_def fun_eq_iff)
  next
    case 4
    then have "?r' = arm_and_push ctl ty descriptor d op c ?r1"
      by (simp add: start_op_def p Let_def)
    note o = arm_outcome [OF this refl]
    have f: "op_queued ty d op ?r1 ?r' = op_queued ty d op r ?r'" "op_posted d op ?r1 ?r' = op_posted d op r ?r'"
      by (rule op_moved_frame; simp)+
    show ?thesis
      using o [unfolded f] 4 by (auto simp: started_def p Let_def split: if_splits)
  next
    case 5
    then have "?r' = arm_and_push ctl ty descriptor d op c r"
      by (simp add: start_op_def Let_def)
    from arm_outcome [OF this refl] 5 show ?thesis
      by (auto simp: started_def p Let_def split: if_splits)
  next
    case 6
    then have "?r' = rearm_and_push ctl ty descriptor d op c r"
      by (auto simp: start_op_def Let_def)
    from rearm_outcome [OF this] 6 show ?thesis
      by (auto simp: started_def p Let_def)
  qed
qed

text \<open>C14. Starting an operation: on each path of \<open>start_op\<close> it is where \<open>started\<close> says, at the end of the
  queue of its type or with the scheduler and with the code of its attempt or of what refused it; all
  other operations are where they were, there is exactly one more unit of work, so that the
  scheduler keeps running for it, and the other descriptors are untouched. Without a descriptor's
  state it is posted with \<open>bad_descriptor\<close>.\<close>

theorem start_op_once:
  "started ctl perform ty descriptor d op allow r (start_op ctl perform ty descriptor (Some d) op c allow r) \<and>
   pending d (start_op ctl perform ty descriptor (Some d) op c allow r) + posted (start_op ctl perform ty descriptor (Some d) op c allow r) =
     add_mset op (pending d r + posted r) \<and>
   total_work (start_op ctl perform ty descriptor (Some d) op c allow r) = total_work r + 1 \<and>
   r_states (start_op ctl perform ty descriptor (Some d) op c allow r) =
     (r_states r)(d := r_states (start_op ctl perform ty descriptor (Some d) op c allow r) d) \<and>
   start_op ctl perform ty descriptor None op c allow r = r_post_immediate op c (set_op_ec op (basic_ec bad_descriptor) r)"
  using op_added_start [of d op r ctl perform ty descriptor c allow] start_op_started [of ctl perform ty descriptor d op allow r c]
  unfolding op_added_def by (simp add: fun_eq_iff start_op_def [of _ _ _ _ None])

text \<open>C15. A descriptor reported ready (\<open>perform_io\<close>): of each queue whose events are set, the operations
  from the front are performed in turn, each on the kernel's state that the one before has left, and
  exactly those complete whose attempt says that they are done, up to the first that is not done or
  that exhausts the descriptor, the exceptional ones before the writes and these before the reads;
  the first of them is returned to be completed now, and the others are posted in that order; none
  is lost. The work counted drops by one when the scheduler counts off the call, exactly when an
  operation was returned.\<close>

theorem perform_io_completes:
  assumes "r_this r = Some ti"
  shows "\<exists>r' first ops. perform_io perform events d r = Some (r', first) \<and> completes perform events d r r' ops \<and>
    first = (case ops of [] \<Rightarrow> None | op # rest \<Rightarrow> Some op) \<and>
    pending d r = pending d r' + mset ops \<and> posted r' = posted r + mset (tl ops) \<and>
    total_work r' - 1 = total_work r - (if ops = [] then 0 else 1)"
proof -
  obtain r' first ops where io: "perform_io perform events d r = Some (r', first)" "completes perform events d r r' ops"
      "first = (case ops of [] \<Rightarrow> None | op # rest \<Rightarrow> Some op)" "posted r' = posted r + mset (tl ops)"
      "total_work r' = total_work r + (if ops = [] then 1 else 0)"
    using perform_io_correct [OF assms, of perform events d] by (elim exE conjE) (rule that, assumption+)
  then have "total_work r' - 1 = total_work r - (if ops = [] then 0 else 1)" by simp
  with io completes_pending [OF io(2)] show ?thesis
    by (intro exI [of _ r'] exI [of _ first] exI [of _ ops]) simp
qed

text \<open>C16. Deregistering a descriptor: everything that waited is posted with \<open>operation_aborted\<close>, in the
  order of the queues, and its work stays counted until it is completed; and an operation started
  afterwards is never left in the descriptor's queues.\<close>

theorem deregister_aborts:
  assumes "\<not> ds_shutdown (r_states r d)" and "deregister_descriptor ctl descriptor (Some d) closing r = (r', dd)"
  shows "dd = Some d \<and> pending d r' = {#} \<and> posted r' = posted r + pending d r \<and> total_work r' = total_work r \<and>
    (\<forall>op \<in># pending d r. r_op_ec r' op = basic_ec operation_aborted) \<and>
    pending d (start_op ctl perform ty descriptor (Some d) op c spec r') = {#}"
proof -
  define r1 where "r1 = (if closing then r
      else if registered_events (r_states r d) \<noteq> 0 then fst (epoll_ctl ctl CtlDel descriptor 0 (Descriptor d) r) else r)"
  obtain rk result where e: "epoll_ctl ctl CtlDel descriptor 0 (Descriptor d) r = (rk, result)"
    by (cases "epoll_ctl ctl CtlDel descriptor 0 (Descriptor d) r")
  note fr = epoll_ctl_frame [OF e]
  have r1: "r_states r1 = r_states r" "posted r1 = posted r" "total_work r1 = total_work r" "r_op_ec r1 = r_op_ec r"
    using fr posted_cong [of rk r] by (auto simp: r1_def e)
  then have q: "all_queued d r1 = all_queued d r" by (simp add: all_queued_def)
  have call: "(case abort_queues [ReadOp, WriteOp, ExceptOp] d r1 [] of (r2, ops) \<Rightarrow>
      (r_post_deferred ops (upd_state d (\<lambda>s. s\<lparr>ds_descriptor := - 1, ds_shutdown := True\<rparr>) r2), Some d)) = (r', dd)"
    using assms by (simp add: deregister_descriptor_def r1_def Let_def del: abort_queues.simps)
  have dd: "dd = Some d"
    and r': "r' = r_post_deferred (all_queued d r) (upd_state d (\<lambda>s. s\<lparr>ds_descriptor := - 1, ds_shutdown := True\<rparr>)
        (r1\<lparr>r_op_ec := set_ec (basic_ec operation_aborted) (all_queued d r) (r_op_ec r),
           r_states := (r_states r)(d := r_states r d\<lparr>ds_queue := (\<lambda>_. [])\<rparr>)\<rparr>))"
    using call by (simp_all add: abort_all q r1 del: abort_queues.simps)
  have "posted (r1\<lparr>r_op_ec := e, r_states := f\<rparr>) = posted r1" "total_work (r1\<lparr>r_op_ec := e, r_states := f\<rparr>) = total_work r1" for e f
    by (auto intro: posted_cong)
  then have "pending d r' = {#}" "posted r' = posted r + pending d r" "total_work r' = total_work r"
    using r1 by (simp_all add: r' pending_def mset_all_queued [unfolded pending_def])
  moreover have "\<forall>op \<in># pending d r. r_op_ec r' op = basic_ec operation_aborted"
    by (simp add: r' set_ec_def flip: mset_all_queued)
  moreover have "ds_shutdown (r_states r' d)"
    by (simp add: r')
  then have "pending d (start_op ctl perform ty descriptor (Some d) op c spec r') = pending d r'"
    by (simp add: start_op_def pending_def)
  ultimately show ?thesis
    using dd by simp
qed

text \<open>C17. As long as changing a registration succeeds, starting and performing operations keeps every
  descriptor watched: the kernel watches for the events the reactor has recorded, and for each queue
  with operations in it these include the event that makes the reactor perform them.\<close>

theorem pending_ops_watched:
  assumes "ctl_law interest ctl" and "perform_law interest perform" and "mods_succeed ctl"
    and "watched interest d r" and "r_this r = Some ti" and "perform_io perform events d r = Some (r1, first)"
    and "r' = start_op ctl perform ty (ds_descriptor (r_states r1 d)) (Some d) op c spec r1"
  shows "watched interest d r' \<and>
    (\<forall>q. ds_queue (r_states r' d) q \<noteq> [] \<longrightarrow>
       (\<exists>ev. interest (r_kernel r') (ds_descriptor (r_states r' d)) = Some ev \<and> ev AND ready_flag q \<noteq> 0))"
proof -
  have "watched interest d r'"
    unfolding assms(7) by (rule watched_start [OF assms(1-3) watched_perform [OF assms(2,4,5,6)] refl])
  then show ?thesis
    by (intro conjI allI impI watched_queue)
qed

text \<open>An operation started without speculation, a connect for one, when the kernel refuses the change
  of the registration: the result is ignored, the write operation is queued and \<open>EPOLLOUT\<close> recorded,
  but the kernel does not watch for it, and no later write operation will ask for it again.\<close>

theorem ignored_failure_unwatched:
  assumes "ctl_law interest ctl" and "\<And>w ev dat. snd (ctl w CtlMod descriptor ev dat) = errno" and "errno \<noteq> 0"
    and "interest (r_kernel r) descriptor = Some (registered_events (r_states r d))"
    and "registered_events (r_states r d) AND EPOLLOUT = 0" and "registered_events (r_states r d) \<noteq> 0"
    and "\<not> ds_shutdown (r_states r d)" and "ds_queue (r_states r d) WriteOp = []"
    and "r' = start_op ctl perform connect_op descriptor (Some d) op c False r"
  shows "ds_queue (r_states r' d) WriteOp = [op] \<and> registered_events (r_states r' d) AND EPOLLOUT \<noteq> 0 \<and>
    (\<exists>ev. interest (r_kernel r') descriptor = Some ev \<and> ev AND EPOLLOUT = 0)"
proof -
  let ?r1 = "upd_state d (\<lambda>s. s\<lparr>registered_events := registered_events s OR EPOLLOUT\<rparr>) r"
  obtain r2 ig where e: "epoll_ctl ctl CtlMod descriptor (registered_events (r_states ?r1 d)) (Descriptor d) ?r1 = (r2, ig)"
    by (cases "epoll_ctl ctl CtlMod descriptor (registered_events (r_states ?r1 d)) (Descriptor d) ?r1")
  note fr = epoll_ctl_frame [OF e]
  have "ig = errno"
    using assms(2) [of "r_kernel ?r1" "registered_events (r_states ?r1 d)" "Descriptor d"] fr(5) by simp
  then have k: "interest (r_kernel r2) = interest (r_kernel r)"
    using ctl_lawD [OF assms(1) fr(5)] assms(3) by simp
  have "r' = push_op WriteOp d op r2"
    using assms(6-9) e by (simp add: start_op_def rearm_and_push_def)
  then show ?thesis
    using k fr(1) assms(4,5,8) by (simp add: push_op_def)
qed

text \<open>A descriptor of a kind that epoll does not support, a regular file for one, registers with success;
  but after a fork the child's \<open>notify_fork\<close> adds it to epoll as well, and throws.\<close>

theorem fork_rejects_unsupported:
  assumes "\<And>w ev dat. snd (ctl w CtlAdd descriptor ev dat) = EPERM"
    and "register_descriptor ctl created descriptor r = (r', d, result)"
  shows "result = 0 \<and> registered_events (r_states r' d) = 0 \<and>
    (\<exists>r''. notify_fork (Suc n) ctl signal recreate settime wait interrupter_fd timer_fd True r' = Some (r'', Inl (system_ec EPERM)))"
proof -
  obtain ra da where a: "allocate_descriptor_state created r = (ra, da)"
    by (cases "allocate_descriptor_state created r")
  let ?r3 = "upd_state da (\<lambda>s. s\<lparr>registered_events := initial_events\<rparr>)
    (upd_state da (\<lambda>s. s\<lparr>ds_descriptor := descriptor, ds_shutdown := False, try_speculative := (\<lambda>_. True)\<rparr>) ra)"
  obtain r4 res where e: "epoll_ctl ctl CtlAdd descriptor initial_events (Descriptor da) ?r3 = (r4, res)"
    by (cases "epoll_ctl ctl CtlAdd descriptor initial_events (Descriptor da) ?r3")
  note fr = epoll_ctl_frame [OF e]
  have "res = EPERM"
    using assms(1) [of "r_kernel ?r3" initial_events "Descriptor da"] fr(5) by simp
  then have r': "d = da" "result = 0" "r' = upd_state d (\<lambda>s. s\<lparr>registered_events := 0\<rparr>) r4"
    using assms(2) a e by (auto simp: register_descriptor_def EPERM_def)
  have "live_list (r_pool ra) = Some da"
    using a by (auto simp: allocate_descriptor_state_def pool_alloc_def Let_def split: prod.splits)
  then have live: "live_list (r_pool r') = Some d" "ds_descriptor (r_states r' d) = descriptor"
    using r' e fr(1) epoll_ctl_pool(1) [of ctl CtlAdd descriptor initial_events "Descriptor da" ?r3] by auto
  define r5 where "r5 = (case recreate (r_kernel r') of (w1, has_timer_fd) \<Rightarrow>
    update_timeout ctl interrupter_fd settime wait
      (add_internal_descriptors ctl signal interrupter_fd timer_fd (r'\<lparr>r_kernel := w1, r_timer_fd := has_timer_fd\<rparr>)))"
  have "r_pool r5 = r_pool r'" "r_states r5 = r_states r'"
    by (auto simp: r5_def update_timeout_def add_internal_descriptors_def r_interrupt_def Let_def epoll_ctl_pool split: prod.split)
  moreover have "notify_fork (Suc n) ctl signal recreate settime wait interrupter_fd timer_fd True r' =
      re_register (Suc n) ctl (pool_first (r_pool r5)) r5"
    by (simp add: notify_fork_def r5_def Let_def split: prod.split)
  moreover obtain r6 res6 where e6: "epoll_ctl ctl CtlAdd descriptor (registered_events (r_states r5 d)) (Descriptor d) r5 = (r6, res6)"
    by (cases "epoll_ctl ctl CtlAdd descriptor (registered_events (r_states r5 d)) (Descriptor d) r5")
  moreover have "res6 = EPERM"
    using assms(1) [of "r_kernel r5" "registered_events (r_states r5 d)" "Descriptor d"] epoll_ctl_frame(5) [OF e6] by simp
  ultimately show ?thesis
    using live r' by (simp add: pool_first_def EPERM_def throw_error_def system_ec_def ec_failed_def)
qed

section \<open>Witnesses\<close>

text \<open>A kernel that is its interest list, operations of which the even ones can be done, and a reactor
  with one descriptor, run by a thread.\<close>

fun demo_ctl :: "(int \<Rightarrow> 32 word option, nat) ctl" where
  "demo_ctl w what fd ev dat = (if what = CtlDel then w(fd := None) else w(fd \<mapsto> ev), 0)"

definition refusing_ctl :: "(int \<Rightarrow> 32 word option, nat) ctl" where
  "refusing_ctl w what fd ev dat = (if what = CtlDel then (w(fd := None), 0) else (w, 28))"

definition demo_perform :: "(nat, int \<Rightarrow> 32 word option) performer" where
  "demo_perform op w = (w, if even op then Done else NotDone, no_error)"

definition demo_state :: "nat list \<Rightarrow> nat descriptor_state" where
  "demo_state reads = \<lparr>ds_descriptor = 5, registered_events = initial_events, ds_queue = (\<lambda>_. [])(ReadOp := reads),
     try_speculative = (\<lambda>_. True), ds_shutdown = False, task_result = 0\<rparr>"

definition demo_reactor :: "nat list \<Rightarrow> (nat, nat, int \<Rightarrow> 32 word option, nat, nat, nat) reactor" where
  "demo_reactor reads = \<lparr>r_sched = sched_new 1, r_this = Some info_new, r_signals = [], r_states = (\<lambda>_. demo_state reads),
     r_pool = pool_new (\<lambda>_. None) (\<lambda>_. None), r_op_ec = (\<lambda>_. no_error), r_kernel = [5 \<mapsto> initial_events], r_timer_fd = True,
     r_shutdown = False, timer_queues = [], timer_queue_at = (\<lambda>_. timer_queue_new)\<rparr>"

lemma demo_reactor_simps [simp]:
  "r_this (demo_reactor l) = Some info_new" "r_states (demo_reactor l) d = demo_state l"
  "r_kernel (demo_reactor l) = [5 \<mapsto> initial_events]" "ds_shutdown (demo_state l) = False"
  "registered_events (demo_state l) = initial_events" "ds_queue (demo_state l) = (\<lambda>_. [])(ReadOp := l)"
  "ds_descriptor (demo_state l) = 5"
  by (simp_all add: demo_reactor_def demo_state_def)

lemma initial_events_bits: "initial_events \<noteq> 0" "initial_events AND EPOLLIN \<noteq> 0" "initial_events AND EPOLLPRI \<noteq> 0"
    "initial_events AND EPOLLOUT = 0"
  by (simp_all add: initial_events_def EPOLLIN_def EPOLLPRI_def EPOLLERR_def EPOLLHUP_def EPOLLET_def EPOLLOUT_def)

lemma demo_laws:
  "ctl_law (\<lambda>w. w) demo_ctl" "ctl_law (\<lambda>w. w) refusing_ctl" "perform_law (\<lambda>w. w) demo_perform" "mods_succeed demo_ctl"
  "watched (\<lambda>w. w) d (demo_reactor l)"
  by (simp_all add: ctl_law_def perform_law_def mods_succeed_def refusing_ctl_def demo_perform_def watched_def initial_events_bits)

theorem perform_io_completes_witness:
  "\<exists>r' first ops. perform_io demo_perform EPOLLIN 0 (demo_reactor [2, 4, 3]) = Some (r', first) \<and>
     completes demo_perform EPOLLIN 0 (demo_reactor [2, 4, 3]) r' ops \<and> posted r' = posted (demo_reactor [2, 4, 3]) + mset (tl ops)"
  using perform_io_completes [of "demo_reactor [2, 4, 3]" info_new demo_perform EPOLLIN 0] by auto

theorem deregister_aborts_witness:
  "pending 0 (fst (deregister_descriptor demo_ctl 5 (Some 0) True (demo_reactor [2, 4, 3]))) = {#} \<and>
   posted (fst (deregister_descriptor demo_ctl 5 (Some 0) True (demo_reactor [2, 4, 3]))) =
     posted (demo_reactor [2, 4, 3]) + pending 0 (demo_reactor [2, 4, 3])"
  using deregister_aborts [of "demo_reactor [2, 4, 3]" 0 demo_ctl 5 True
      "fst (deregister_descriptor demo_ctl 5 (Some 0) True (demo_reactor [2, 4, 3]))"
      "snd (deregister_descriptor demo_ctl 5 (Some 0) True (demo_reactor [2, 4, 3]))" demo_perform ReadOp 1 False True]
  by simp

theorem pending_ops_watched_witness:
  "\<exists>r1 first. perform_io demo_perform EPOLLIN 0 (demo_reactor [2, 3]) = Some (r1, first) \<and>
     watched (\<lambda>w. w) 0 (start_op demo_ctl demo_perform WriteOp (ds_descriptor (r_states r1 0)) (Some 0) 7 False True r1)"
proof -
  obtain r1 first where io: "perform_io demo_perform EPOLLIN 0 (demo_reactor [2, 3]) = Some (r1, first)"
    using perform_io_correct [of "demo_reactor [2, 3]" info_new demo_perform EPOLLIN 0] by auto
  have "r_this (demo_reactor [2, 3]) = Some info_new" by simp
  from pending_ops_watched [OF demo_laws(1,3,4,5) this io refl] io show ?thesis by blast
qed

theorem ignored_failure_unwatched_witness:
  "ds_queue (r_states (start_op refusing_ctl demo_perform connect_op 5 (Some 0) 7 False False (demo_reactor [])) 0) WriteOp = [7]"
proof -
  have "snd (refusing_ctl w CtlMod 5 ev dat) = 28" for w ev dat
    by (simp add: refusing_ctl_def)
  from ignored_failure_unwatched [OF demo_laws(2) this, of "demo_reactor []" 0
      "start_op refusing_ctl demo_perform connect_op 5 (Some 0) 7 False False (demo_reactor [])" demo_perform 7 False]
  show ?thesis by (simp add: initial_events_bits)
qed

theorem fork_rejects_unsupported_witness:
  "\<exists>r''. notify_fork 4 (\<lambda>w what fd ev dat. (w, EPERM)) id (\<lambda>w. (w, True)) (\<lambda>w t. w) (\<lambda>q m. m) 1 2 True
     (fst (register_descriptor (\<lambda>w what fd ev dat. (w, EPERM)) 0 7 (demo_reactor []))) = Some (r'', Inl (system_ec EPERM))"
proof -
  obtain r' d result where e: "register_descriptor (\<lambda>w what fd ev dat. (w, EPERM)) 0 7 (demo_reactor []) = (r', d, result)"
    by (metis prod_cases3)
  from fork_rejects_unsupported [OF _ e, of 3 id "\<lambda>w. (w, True)" "\<lambda>w t. w" "\<lambda>q m. m" 1 2] e show ?thesis
    by simp
qed

end
