(* ===== verification/EpollRun.thy ===== *)
theory EpollRun
  imports EpollProps
begin

text \<open>
  One run of the epoll reactor: the events that \<open>epoll_wait\<close> reports are merged into one task result per
  descriptor, each descriptor's operation is handed to the scheduler once, and the timers that have
  expired are collected. And the loop of \<open>shutdown\<close> over the descriptors.
\<close>

section \<open>Shutting down\<close>

text \<open>With a bound that is not below the number of live descriptor states the loop frees all of them and gives
  back their operations.\<close>

lemma shutdown_descriptors_all:
  "pool_rep (r_pool r) ls fs \<Longrightarrow> length ls \<le> n \<Longrightarrow>
    \<exists>r1. shutdown_descriptors n r ops =
        Some (r1, ops @ concat (map (\<lambda>d. concat (map (ds_queue (r_states r d)) [ReadOp, WriteOp, ExceptOp])) ls)) \<and>
      pool_rep (r_pool r1) [] (rev ls @ fs)"
proof (induction ls arbitrary: r fs n ops)
  case Nil
  then have "pool_first (r_pool r) = None" by (simp add: pool_first_def pool_rep_def)
  with Nil show ?case by (intro exI [of _ r]) (subst shutdown_descriptors.simps, simp)
next
  case (Cons d ls)
  then have f: "pool_first (r_pool r) = Some d" and d: "d \<notin> set ls"
    using dseg_chain chain_tail_notin by (fastforce simp: pool_first_def pool_rep_def)+
  obtain m where m: "n = Suc m" "length ls \<le> m" using Cons.prems(2) by (cases n) auto
  let ?r = "free_descriptor_state d (upd_state d (\<lambda>s. s\<lparr>ds_queue := (\<lambda>_. []), ds_shutdown := True\<rparr>) r)"
  have p: "pool_rep (r_pool ?r) ls (d # fs)"
    using pool_free_rep [of "r_pool r" "[]" d ls fs] Cons.prems(1) by (simp add: free_descriptor_state_def upd_state_def)
  have s: "map (\<lambda>x. concat (map (ds_queue (r_states ?r x)) [ReadOp, WriteOp, ExceptOp])) ls =
      map (\<lambda>x. concat (map (ds_queue (r_states r x)) [ReadOp, WriteOp, ExceptOp])) ls"
    using d by (auto simp: free_descriptor_state_def upd_state_def)
  show ?case
    using Cons.IH [OF p m(2), of "ops @ concat (map (ds_queue (r_states r d)) [ReadOp, WriteOp, ExceptOp])", unfolded s]
    by (subst shutdown_descriptors.simps) (simp add: f m(1))
qed

section \<open>Dispatching events\<close>

text \<open>The descriptors among the events, each once, in the order of their first event, and all the events
  of one of them.\<close>

fun event_descriptors :: "('d epoll_data \<times> 32 word) list \<Rightarrow> 'd list \<Rightarrow> 'd list" where
  "event_descriptors [] seen = seen"
| "event_descriptors ((Descriptor d, ev) # evs) seen = event_descriptors evs (if d \<in> set seen then seen else seen @ [d])"
| "event_descriptors (x # evs) seen = event_descriptors evs seen"

fun events_of :: "'d \<Rightarrow> ('d epoll_data \<times> 32 word) list \<Rightarrow> 32 word" where
  "events_of d [] = 0"
| "events_of d ((Descriptor d', ev) # evs) = (if d' = d then ev OR events_of d evs else events_of d evs)"
| "events_of d (x # evs) = events_of d evs"

definition mentions :: "'d \<Rightarrow> ('d epoll_data \<times> 32 word) list \<Rightarrow> bool" where
  "mentions d evs \<longleftrightarrow> Descriptor d \<in> fst ` set evs"

lemma mentions_simps [simp]:
  "\<not> mentions d []" "mentions d ((Descriptor d', ev) # evs) \<longleftrightarrow> d = d' \<or> mentions d evs"
  "mentions d ((Interrupter, ev) # evs) = mentions d evs" "mentions d ((TimerFd, ev) # evs) = mentions d evs"
  by (auto simp: mentions_def)

lemma event_descriptors_props:
  "distinct seen \<Longrightarrow> distinct (event_descriptors evs seen) \<and> set (event_descriptors evs seen) = set seen \<union> {d. mentions d evs}"
  by (induction evs seen rule: event_descriptors.induct) auto

definition with_events ::
  "'d list \<Rightarrow> ('d epoll_data \<times> 32 word) list \<Rightarrow> ('d \<Rightarrow> 'o descriptor_state) \<Rightarrow> 'd \<Rightarrow> 'o descriptor_state" where
  "with_events seen evs f d = (f d)\<lparr>task_result :=
     (if d \<in> set seen then task_result (f d) OR events_of d evs
      else if mentions d evs then events_of d evs else task_result (f d))\<rparr>"

lemma with_events_simps:
  "with_events seen [] f = f"
  "d \<in> set seen \<Longrightarrow> with_events seen evs (f(d := add_ready_events ev (f d))) = with_events seen ((Descriptor d, ev) # evs) f"
  "d \<notin> set seen \<Longrightarrow> with_events (seen @ [d]) evs (f(d := set_ready_events ev (f d))) = with_events seen ((Descriptor d, ev) # evs) f"
  "with_events seen ((Interrupter, ev) # evs) f = with_events seen evs f"
  "with_events seen ((TimerFd, ev) # evs) f = with_events seen evs f"
  by (rule ext, simp add: with_events_def add_ready_events_def set_ready_events_def or.assoc; fail)+

lemma dispatch_events_eq:
  "dispatch_events evs r (map DescriptorOp seen) ct =
    (r\<lparr>r_states := with_events seen evs (r_states r)\<rparr>, map DescriptorOp (event_descriptors evs seen),
     ct \<or> TimerFd \<in> fst ` set evs \<or> \<not> r_timer_fd r \<and> Interrupter \<in> fst ` set evs)"
proof (induction evs arbitrary: r seen ct)
  case (Cons x evs)
  obtain dat ev where x: "x = (dat, ev)" by (cases x)
  show ?case
  proof (cases dat)
    case (Descriptor d)
    have in_iff: "DescriptorOp d \<in> DescriptorOp ` set seen \<longleftrightarrow> d \<in> set seen" by auto
    show ?thesis
    proof (cases "d \<in> set seen")
      case True
      then show ?thesis
        using Cons.IH [of "upd_state d (add_ready_events ev) r" seen ct]
          with_events_simps(2) [OF True, of evs "r_states r" ev]
        unfolding x Descriptor
        by (simp add: in_iff upd_state_def del: fun_upd_apply)
    next
      case False
      then show ?thesis
        using Cons.IH [of "upd_state d (set_ready_events ev) r" "seen @ [d]" ct]
          with_events_simps(3) [OF False, of evs "r_states r" ev]
        unfolding x Descriptor
        by (simp add: in_iff upd_state_def del: fun_upd_apply)
    qed
  next
    case Interrupter
    then show ?thesis
      unfolding x by (auto simp: Cons.IH with_events_simps)
  next
    case TimerFd
    then show ?thesis
      unfolding x by (auto simp: Cons.IH with_events_simps)
  qed
qed (simp add: with_events_simps)

text \<open>The timers of a set of queues: each gives its expired ones.\<close>

lemma tqs_get_ready_correct:
  "distinct qs \<Longrightarrow> \<forall>q \<in> set qs. tq_inv (at q) \<Longrightarrow>
    \<exists>at' es. tqs_get_ready now qs at ops =
      Some (at', ops @ concat (map (\<lambda>q. concat (map (\<lambda>e. op_queue_of (at q) (snd e)) (es q))) qs)) \<and>
      (\<forall>q \<in> set qs. tq_inv (at' q) \<and> ready_split (now q) (at q) (at' q) (es q)) \<and> (\<forall>q. q \<notin> set qs \<longrightarrow> at' q = at q)"
proof (induction qs arbitrary: at ops)
  case (Cons q qs)
  from get_ready_timers_correct [of "at q" "now q" ops] Cons.prems(2) obtain tq1 e1 where
    g: "get_ready_timers (now q) (at q) ops = Some (tq1, ops @ concat (map (\<lambda>e. op_queue_of (at q) (snd e)) e1))"
      "tq_inv tq1" "ready_split (now q) (at q) tq1 e1" by auto
  have pre: "distinct qs" "\<forall>q' \<in> set qs. tq_inv ((at(q := tq1)) q')"
    using Cons.prems by auto
  from Cons.IH [OF pre, of "ops @ concat (map (\<lambda>e. op_queue_of (at q) (snd e)) e1)"] obtain at' es where
    ih: "tqs_get_ready now qs (at(q := tq1)) (ops @ concat (map (\<lambda>e. op_queue_of (at q) (snd e)) e1)) =
        Some (at', (ops @ concat (map (\<lambda>e. op_queue_of (at q) (snd e)) e1)) @
          concat (map (\<lambda>q'. concat (map (\<lambda>e. op_queue_of ((at(q := tq1)) q') (snd e)) (es q'))) qs))"
      "\<forall>q' \<in> set qs. tq_inv (at' q') \<and> ready_split (now q') ((at(q := tq1)) q') (at' q') (es q')"
      "\<forall>q'. q' \<notin> set qs \<longrightarrow> at' q' = (at(q := tq1)) q'"
    by blast
  let ?es = "es(q := e1)"
  have m: "map (\<lambda>q'. concat (map (\<lambda>e. op_queue_of ((at(q := tq1)) q') (snd e)) (es q'))) qs =
      map (\<lambda>q'. concat (map (\<lambda>e. op_queue_of (at q') (snd e)) (?es q'))) qs"
    using Cons.prems(1) by (intro map_cong) auto
  have "\<forall>q' \<in> set (q # qs). tq_inv (at' q') \<and> ready_split (now q') (at q') (at' q') (?es q')"
    "\<forall>q'. q' \<notin> set (q # qs) \<longrightarrow> at' q' = at q'"
    using ih(2,3) g(2,3) Cons.prems(1) by (auto split: if_splits)
  moreover have "tqs_get_ready now (q # qs) at ops =
      Some (at', ops @ concat (map (\<lambda>q'. concat (map (\<lambda>e. op_queue_of (at q') (snd e)) (?es q'))) (q # qs)))"
    using ih(1) g(1) unfolding m by (simp del: fun_upd_apply add: fun_upd_same)
  ultimately show ?case by blast
qed simp

section \<open>Timeouts\<close>

text \<open>With a timer descriptor, the wait is the time asked for, rounded up to milliseconds.\<close>

lemma epoll_timeout_rounds_up:
  assumes "r_timer_fd r" "0 < usec"
  shows "usec \<le> 1000 * epoll_timeout wait usec r \<and> 1000 * (epoll_timeout wait usec r - 1) < usec"
proof -
  define k m where "k = (usec - 1) div 1000" and "m = (usec - 1) mod 1000"
  have "1000 * k + m = usec - 1" "0 \<le> m" "m < 1000"
    by (simp_all add: k_def m_def)
  moreover have "epoll_timeout wait usec r = k + 1"
    using assms by (simp add: epoll_timeout_def k_def)
  ultimately show ?thesis by simp
qed

lemma epoll_timeout_blocks: "r_timer_fd r \<Longrightarrow> usec < 0 \<Longrightarrow> epoll_timeout wait usec r = - 1"
  by (simp add: epoll_timeout_def)

text \<open>The timer is never set to zero, which would disarm it.\<close>

lemma get_timeout_spec_armed:
  assumes "0 \<le> tqs_wait_duration wait qs (5 * 60 * 1000 * 1000)"
  shows "fst (get_timeout_spec wait qs) \<noteq> (0, 0)"
  using assms by (auto simp: get_timeout_spec_def Let_def)

section \<open>Properties\<close>

text \<open>C18. A run of the reactor in which the timers are due to be checked: it returns; each descriptor with
  an event is handed over once, in the order of first events, with all its events merged; and of
  every timer queue exactly the expired timers give their operations, earliest first, while the
  queues keep their invariant.\<close>

theorem reactor_run_collects:
  assumes "distinct (timer_queues r)" and "\<forall>q \<in> set (timer_queues r). tq_inv (timer_queue_at r q)"
    and "epoll_wait (r_kernel r) (epoll_timeout (\<lambda>q. wait_msec q (timer_queue_at r q)) usec r) = (w1, evs)"
    and "TimerFd \<in> fst ` set evs \<or> \<not> r_timer_fd r"
  shows "\<exists>r' es ds. reactor_run epoll_wait settime now wait_msec wait_usec usec [] r = Some (r', map DescriptorOp ds @
      map UserOp (concat (map (\<lambda>q. concat (map (\<lambda>e. op_queue_of (timer_queue_at r q) (snd e)) (es q))) (timer_queues r)))) \<and>
    distinct ds \<and> set ds = {d. mentions d evs} \<and> (\<forall>d \<in> set ds. task_result (r_states r' d) = events_of d evs) \<and>
    (\<forall>q \<in> set (timer_queues r). tq_inv (timer_queue_at r' q) \<and>
       ready_split (now q) (timer_queue_at r q) (timer_queue_at r' q) (es q))"
proof -
  obtain at' es where t: "tqs_get_ready now (timer_queues r) (timer_queue_at r) [] =
      Some (at', concat (map (\<lambda>q. concat (map (\<lambda>e. op_queue_of (timer_queue_at r q) (snd e)) (es q))) (timer_queues r)))"
      "\<forall>q \<in> set (timer_queues r). tq_inv (at' q) \<and> ready_split (now q) (timer_queue_at r q) (at' q) (es q)"
    using tqs_get_ready_correct [OF assms(1,2), of now "[]"] by auto
  let ?ds = "event_descriptors evs []" and ?ready = "concat (map (\<lambda>q. concat (map (\<lambda>e. op_queue_of (timer_queue_at r q) (snd e)) (es q))) (timer_queues r))"
  have ds: "distinct ?ds" "set ?ds = {d. mentions d evs}"
    using event_descriptors_props [of "[]" evs] by simp_all
  have run: "\<exists>r'. reactor_run epoll_wait settime now wait_msec wait_usec usec [] r = Some (r', map DescriptorOp ?ds @ map UserOp ?ready) \<and>
      r_states r' = with_events [] evs (r_states r) \<and> timer_queue_at r' = at'"
    using assms(3,4) t(1) dispatch_events_eq [of evs "r\<lparr>r_kernel := w1\<rparr>" "[]" "\<not> r_timer_fd r"]
    by (auto simp: reactor_run_def Let_def)
  then obtain r' where r': "reactor_run epoll_wait settime now wait_msec wait_usec usec [] r = Some (r', map DescriptorOp ?ds @ map UserOp ?ready)"
      "r_states r' = with_events [] evs (r_states r)" "timer_queue_at r' = at'" by blast
  have "\<forall>d \<in> set ?ds. task_result (r_states r' d) = events_of d evs"
    using ds(2) by (simp add: r'(2) with_events_def)
  with r' ds t(2) show ?thesis
    by (intro exI [of _ r'] exI [of _ es] exI [of _ ?ds]) simp
qed

theorem reactor_run_collects_witness:
  "\<exists>r' ds. reactor_run (\<lambda>w timeout. (w, [(Descriptor 3, 1), (TimerFd, 1), (Descriptor 4, 4), (Descriptor 3, 8)])) (\<lambda>w t. w) (\<lambda>q. 5)
       (\<lambda>q tq m. m) (\<lambda>q tq m. m) (- 1) [] (demo_reactor []) = Some (r', map DescriptorOp ds) \<and> distinct ds \<and>
     set ds = {d. mentions d [(Descriptor 3, 1), (TimerFd, 1), (Descriptor 4, 4), (Descriptor 3, 8)]}"
  using reactor_run_collects [of "demo_reactor []" "\<lambda>w timeout. (w, [(Descriptor 3, 1), (TimerFd, 1), (Descriptor 4, 4), (Descriptor 3, 8)])"
      "\<lambda>q tq m. m" "- 1" "[5 \<mapsto> initial_events]" "[(Descriptor 3, 1), (TimerFd, 1), (Descriptor 4, 4), (Descriptor 3, 8)]"
      "\<lambda>w t. w" "\<lambda>q. 5" "\<lambda>q tq m. m"]
  by (auto simp: demo_reactor_def)

end
