(* ===== verification/DecimalText.thy ===== *)
theory DecimalText
  imports ErrorCodes "HOL-Library.Char_ord"
begin

text \<open>
  What the library uses of the C library's conversions between numbers and decimal text:
  \<open>sprintf\<close> with \<open>%u\<close> and \<open>%lu\<close>, and \<open>atoi\<close>. On Linux \<open>atoi\<close> is \<open>strtol\<close>, which stops at the largest
  \<open>long\<close>, converted to \<open>int\<close>. Strings are lists of characters.
\<close>

definition digit_char :: "nat \<Rightarrow> char" where
  "digit_char d = char_of (48 + d)"

definition is_digit :: "char \<Rightarrow> bool" where
  "is_digit c \<longleftrightarrow> 48 \<le> (of_char c :: nat) \<and> (of_char c :: nat) \<le> 57"

definition digit_value :: "char \<Rightarrow> nat" where
  "digit_value c = of_char c - 48"

fun decimal :: "nat \<Rightarrow> string" where
  "decimal n = (if n < 10 then [digit_char n] else decimal (n div 10) @ [digit_char (n mod 10)])"

definition digits_value :: "string \<Rightarrow> nat" where
  "digits_value s = foldl (\<lambda>v c. v * 10 + digit_value c) 0 s"

definition is_space :: "char \<Rightarrow> bool" where
  "is_space c \<longleftrightarrow> (of_char c :: nat) = 32 \<or> (9 \<le> (of_char c :: nat) \<and> (of_char c :: nat) \<le> 13)"

definition to_int32 :: "int \<Rightarrow> int" where
  "to_int32 i = (let m = i mod 2 ^ 32 in if m < 2 ^ 31 then m else m - 2 ^ 32)"

definition atoi :: "string \<Rightarrow> int" where
  "atoi s =
     (let t = dropWhile is_space s;
          neg = (t \<noteq> [] \<and> hd t = CHR ''-'');
          u = (if t \<noteq> [] \<and> (hd t = CHR ''-'' \<or> hd t = CHR ''+'') then tl t else t);
          v = int (digits_value (takeWhile is_digit u));
          l = (if neg then max (- v) (- (2 ^ 63)) else min v (2 ^ 63 - 1))
      in to_int32 l)"

declare decimal.simps [simp del]

lemma of_char_digit [simp]: "d < 10 \<Longrightarrow> (of_char (digit_char d) :: nat) = 48 + d"
  by (simp add: digit_char_def)

lemma digit_char_props [simp]: "d < 10 \<Longrightarrow> is_digit (digit_char d)" "d < 10 \<Longrightarrow> digit_value (digit_char d) = d"
  by (simp_all add: is_digit_def digit_value_def)

lemma is_digit_no_sign: "is_digit c \<Longrightarrow> \<not> is_space c \<and> c \<noteq> CHR ''-'' \<and> c \<noteq> CHR ''+''"
  by (auto simp: is_digit_def is_space_def)

lemma decimal_digits: "\<forall>c \<in> set (decimal n). is_digit c"
  by (induction n rule: decimal.induct) (subst decimal.simps, auto)

lemma decimal_not_empty [simp]: "decimal n \<noteq> []"
  by (subst decimal.simps) simp

lemma digits_value_snoc: "digits_value (s @ [c]) = digits_value s * 10 + digit_value c"
  by (simp add: digits_value_def)

lemma digits_value_decimal [simp]: "digits_value (decimal n) = n"
proof (induction n rule: decimal.induct)
  case (1 n)
  show ?case
  proof (cases "n < 10")
    case True
    then show ?thesis
      by (subst decimal.simps) (simp add: digits_value_def)
  next
    case False
    then show ?thesis
      using 1 by (subst decimal.simps) (simp add: digits_value_snoc)
  qed
qed


lemma atoi_digits:
  assumes "s \<noteq> []" "\<forall>c \<in> set s. is_digit c"
  shows "atoi s = to_int32 (min (int (digits_value s)) (2 ^ 63 - 1))"
proof -
  have h: "\<not> is_space (hd s)" "hd s \<noteq> CHR ''-''" "hd s \<noteq> CHR ''+''"
    using assms is_digit_no_sign [of "hd s"] by auto
  then have "dropWhile is_space s = s"
    using assms(1) by (cases s) auto
  with h assms show ?thesis
    by (simp add: atoi_def Let_def takeWhile_eq_all_conv [THEN iffD2])
qed

lemma atoi_decimal: "n < 2 ^ 31 \<Longrightarrow> atoi (decimal n) = int n"
  by (simp add: atoi_digits decimal_digits to_int32_def Let_def)

end
