(* ===== verification/AddressV4.thy ===== *)
theory AddressV4
  imports DecimalText Buffer
begin

text \<open>
  \<open>ip/address_v4.hpp\<close>, \<open>ip/impl/address_v4.ipp\<close>, \<open>ip/address_v4_iterator.hpp\<close>, \<open>ip/address_v4_range.hpp\<close>
  and the functions of \<open>network/socket_ops.ipp\<close> that convert byte order and address text. The host is
  little-endian; an address holds its \<open>s_addr\<close> in network byte order, as the code does. The C library's
  \<open>inet_ntop\<close>, \<open>inet_pton\<close>, \<open>if_indextoname\<close> and \<open>if_nametoindex\<close> are parameters: each gives its result
  and the \<open>errno\<close> it leaves.
\<close>

section \<open>Byte order\<close>

definition bytes_of_u32 :: "32 word \<Rightarrow> byte list" where
  "bytes_of_u32 w = [ucast w, ucast (drop_bit 8 w), ucast (drop_bit 16 w), ucast (drop_bit 24 w)]"

definition u32_of_bytes :: "byte list \<Rightarrow> 32 word" where
  "u32_of_bytes bs = or (ucast (bs ! 0)) (or (push_bit 8 (ucast (bs ! 1)))
     (or (push_bit 16 (ucast (bs ! 2))) (push_bit 24 (ucast (bs ! 3)))))"

definition network_to_host_long :: "32 word \<Rightarrow> 32 word" where
  "network_to_host_long value = u32_of_bytes (rev (bytes_of_u32 value))"

definition host_to_network_long :: "32 word \<Rightarrow> 32 word" where
  "host_to_network_long value = u32_of_bytes (rev (bytes_of_u32 value))"

definition network_to_host_short :: "16 word \<Rightarrow> 16 word" where
  "network_to_host_short value = or (ucast (drop_bit 8 value)) (push_bit 8 (ucast (ucast value :: byte)))"

definition host_to_network_short :: "16 word \<Rightarrow> 16 word" where
  "host_to_network_short value = or (ucast (drop_bit 8 value)) (push_bit 8 (ucast (ucast value :: byte)))"

lemma length_bytes_of_u32 [simp]: "length (bytes_of_u32 w) = 4"
  by (simp add: bytes_of_u32_def)

lemma byte_high_bits [simp]: "\<not> bit (b :: byte) (8 + n)" "\<not> bit (b :: byte) (16 + n)" "\<not> bit (b :: byte) (24 + n)"
  by (auto dest: bit_imp_le_length)

lemma octet_cases:
  fixes n :: nat
  assumes "n < 32"
  obtains (o0) "n < 8" | (o1) m where "n = 8 + m" "m < 8" | (o2) m where "n = 16 + m" "m < 8" | (o3) m where "n = 24 + m" "m < 8"
proof -
  have "n < 8 \<or> (8 \<le> n \<and> n - 8 < 8) \<or> (16 \<le> n \<and> n - 16 < 8) \<or> (24 \<le> n \<and> n - 24 < 8)"
    using assms by linarith
  then show ?thesis
    by (metis le_add_diff_inverse that)
qed

lemma u32_of_bytes_bytes: "u32_of_bytes (bytes_of_u32 w) = w"
proof (rule bit_word_eqI)
  fix n :: nat
  assume "n < LENGTH(32)"
  then have "n < 32" by simp
  then show "bit (u32_of_bytes (bytes_of_u32 w)) n = bit w n"
    by (cases rule: octet_cases) (auto simp: u32_of_bytes_def bytes_of_u32_def bit_simps)
qed

lemma list4: "length bs = 4 \<Longrightarrow> \<exists>a b c d. bs = [a, b, c, d]"
  by (auto simp: numeral_eq_Suc length_Suc_conv)

lemma bytes_of_u32_of_bytes: "length bs = 4 \<Longrightarrow> bytes_of_u32 (u32_of_bytes bs) = bs"
  by (drule list4) (auto simp: u32_of_bytes_def bytes_of_u32_def bit_simps intro!: bit_word_eqI)

lemma byte_order_long [simp]: "network_to_host_long (host_to_network_long w) = w"
    "host_to_network_long (network_to_host_long w) = w"
  by (simp_all add: network_to_host_long_def host_to_network_long_def bytes_of_u32_of_bytes u32_of_bytes_bytes)

lemma byte_order_short [simp]: "network_to_host_short (host_to_network_short v) = v"
    "host_to_network_short (network_to_host_short v) = v"
  by (rule bit_word_eqI; auto simp: network_to_host_short_def host_to_network_short_def bit_simps)+

section \<open>Address text\<close>

record libc =
  libc_inet_ntop :: "int \<Rightarrow> byte list \<Rightarrow> nat \<Rightarrow> string option \<times> int"
  libc_inet_pton :: "int \<Rightarrow> string \<Rightarrow> int \<times> byte list \<times> int"
  libc_if_indextoname :: "nat \<Rightarrow> string option"
  libc_if_nametoindex :: "string \<Rightarrow> nat"

definition AF_INET :: int where "AF_INET = 2"
definition AF_INET6 :: int where "AF_INET6 = 10"

definition max_addr_v4_str_len :: nat where "max_addr_v4_str_len = 16"
definition max_addr_v6_str_len :: nat where "max_addr_v6_str_len = 63"

definition c_str :: "string \<Rightarrow> string" where
  "c_str s = takeWhile (\<lambda>c. c \<noteq> CHR 0x00) s"

definition link_local_bytes :: "byte list \<Rightarrow> bool" where
  "link_local_bytes bs \<longleftrightarrow> bs ! 0 = 0xfe \<and> and (bs ! 1) 0xc0 = 0x80"

definition multicast_link_local_bytes :: "byte list \<Rightarrow> bool" where
  "multicast_link_local_bytes bs \<longleftrightarrow> bs ! 0 = 0xff \<and> and (bs ! 1) 0x0f = 0x02"

text \<open>The result is the text, or none for a null pointer, and the error code.\<close>

definition inet_ntop :: "libc \<Rightarrow> int \<Rightarrow> byte list \<Rightarrow> nat \<Rightarrow> nat \<Rightarrow> string option \<times> error_code" where
  "inet_ntop C af src len scope_id =
     (let (result, errno) = libc_inet_ntop C af src len;
          ec = system_ec errno;
          ec = (if result = None \<and> \<not> ec_failed ec then basic_ec invalid_argument else ec)
      in case result of
           None \<Rightarrow> (None, ec)
         | Some dest \<Rightarrow>
             if af = AF_INET6 \<and> scope_id \<noteq> 0 then
               let if_name =
                 (if \<not> link_local_bytes src \<and> \<not> multicast_link_local_bytes src then decimal scope_id
                  else case libc_if_indextoname C (scope_id mod 2 ^ 32) of
                         None \<Rightarrow> decimal scope_id
                       | Some name \<Rightarrow> name)
               in (Some (dest @ ''%'' @ if_name), ec)
             else (Some dest, ec))"

text \<open>
  The result, the bytes written and the scope, for a caller that passes a pointer to a scope or a null
  pointer. \<open>src\<close> is a C string; \<open>if_name\<close> is the position of its first percent sign.
\<close>

definition inet_pton :: "libc \<Rightarrow> int \<Rightarrow> string \<Rightarrow> nat option \<Rightarrow> int \<times> byte list \<times> nat option \<times> error_code" where
  "inet_pton C af src scope_id =
     (let is_v6 = (af = AF_INET6);
          before = takeWhile (\<lambda>c. c \<noteq> CHR ''%'') src;
          if_name = (is_v6 \<and> length before < length src)
      in
        if if_name \<and> length before > max_addr_v6_str_len then (0, [], scope_id, basic_ec invalid_argument)
        else
          let (result, dest, errno) = libc_inet_pton C af (if if_name then before else src);
              ec = system_ec errno;
              ec = (if result \<le> 0 \<and> \<not> ec_failed ec then basic_ec invalid_argument else ec)
          in
            if result > 0 \<and> is_v6 \<and> scope_id \<noteq> None then
              let name = drop (length before + 1) src;
                  by_name = (if if_name \<and> (link_local_bytes dest \<or> multicast_link_local_bytes dest)
                             then libc_if_nametoindex C name else 0);
                  id = (if if_name \<and> by_name = 0 then nat (atoi name mod 2 ^ 64) else by_name)
              in (result, dest, Some id, ec)
            else (result, dest, scope_id, ec))"

section \<open>The class\<close>

record address_v4 =
  v4_s_addr :: "32 word"

definition v4_default :: address_v4 where
  "v4_default = \<lparr>v4_s_addr = 0\<rparr>"

definition v4_of_bytes :: "byte list \<Rightarrow> address_v4" where
  "v4_of_bytes bs = \<lparr>v4_s_addr = u32_of_bytes bs\<rparr>"

definition v4_of_uint :: "32 word \<Rightarrow> address_v4" where
  "v4_of_uint addr = \<lparr>v4_s_addr = host_to_network_long addr\<rparr>"

definition v4_to_bytes :: "address_v4 \<Rightarrow> byte list" where
  "v4_to_bytes a = bytes_of_u32 (v4_s_addr a)"

definition v4_to_uint :: "address_v4 \<Rightarrow> 32 word" where
  "v4_to_uint a = network_to_host_long (v4_s_addr a)"

definition v4_to_string :: "libc \<Rightarrow> address_v4 \<Rightarrow> error_code + string" where
  "v4_to_string C a =
     (case inet_ntop C AF_INET (v4_to_bytes a) max_addr_v4_str_len 0 of
        (None, ec) \<Rightarrow> (case throw_error ec of Inl e \<Rightarrow> Inl e | Inr _ \<Rightarrow> Inl ec)
      | (Some addr, ec) \<Rightarrow> Inr addr)"

definition v4_is_loopback :: "address_v4 \<Rightarrow> bool" where
  "v4_is_loopback a \<longleftrightarrow> and (v4_to_uint a) 0xFF000000 = 0x7F000000"

definition v4_is_unspecified :: "address_v4 \<Rightarrow> bool" where
  "v4_is_unspecified a \<longleftrightarrow> v4_to_uint a = 0"

definition v4_is_multicast :: "address_v4 \<Rightarrow> bool" where
  "v4_is_multicast a \<longleftrightarrow> and (v4_to_uint a) 0xF0000000 = 0xE0000000"

definition v4_eq :: "address_v4 \<Rightarrow> address_v4 \<Rightarrow> bool" where
  "v4_eq a1 a2 \<longleftrightarrow> v4_s_addr a1 = v4_s_addr a2"

definition v4_less :: "address_v4 \<Rightarrow> address_v4 \<Rightarrow> bool" where
  "v4_less a1 a2 \<longleftrightarrow> v4_to_uint a1 < v4_to_uint a2"

definition v4_greater_eq :: "address_v4 \<Rightarrow> address_v4 \<Rightarrow> bool" where
  "v4_greater_eq a1 a2 \<longleftrightarrow> v4_to_uint a1 \<ge> v4_to_uint a2"

definition v4_any :: address_v4 where "v4_any = v4_default"
definition v4_loopback :: address_v4 where "v4_loopback = v4_of_uint 0x7F000001"
definition v4_broadcast :: address_v4 where "v4_broadcast = v4_of_uint 0xFFFFFFFF"

definition make_address_v4 :: "libc \<Rightarrow> string \<Rightarrow> address_v4 \<times> error_code" where
  "make_address_v4 C str =
     (case inet_pton C AF_INET (c_str str) None of
        (result, bytes, _, ec) \<Rightarrow> if result \<le> 0 then (v4_default, ec) else (v4_of_bytes bytes, ec))"

definition make_address_v4_throws :: "libc \<Rightarrow> string \<Rightarrow> error_code + address_v4" where
  "make_address_v4_throws C str =
     (let (addr, ec) = make_address_v4 C str
      in case throw_error ec of Inl e \<Rightarrow> Inl e | Inr _ \<Rightarrow> Inr addr)"

lemma v4_uint_roundtrip [simp]: "v4_to_uint (v4_of_uint n) = n" "v4_of_uint (v4_to_uint a) = a"
  by (simp_all add: v4_to_uint_def v4_of_uint_def)

lemma v4_bytes_roundtrip [simp]: "length bs = 4 \<Longrightarrow> v4_to_bytes (v4_of_bytes bs) = bs" "v4_of_bytes (v4_to_bytes a) = a"
    "length (v4_to_bytes a) = 4"
  by (simp_all add: v4_to_bytes_def v4_of_bytes_def bytes_of_u32_of_bytes u32_of_bytes_bytes)

lemma v4_eq_iff: "v4_eq a b \<longleftrightarrow> a = b" "v4_to_uint a = v4_to_uint b \<longleftrightarrow> a = b"
  by (cases a; cases b; simp add: v4_eq_def) (metis v4_uint_roundtrip(2))

lemma v4_to_bytes_uint: "v4_to_bytes (v4_of_uint n) = rev (bytes_of_u32 n)"
  by (simp add: v4_to_bytes_def v4_of_uint_def host_to_network_long_def bytes_of_u32_of_bytes)

section \<open>Iterators and ranges\<close>

text \<open>An iterator is the address it points to.\<close>

definition v4_next :: "address_v4 \<Rightarrow> address_v4" where
  "v4_next a = v4_of_uint (and (v4_to_uint a + 1) 0xFFFFFFFF)"

definition v4_post_next :: "address_v4 \<Rightarrow> address_v4 \<times> address_v4" where
  "v4_post_next a = (a, v4_next a)"

definition v4_prev :: "address_v4 \<Rightarrow> address_v4" where
  "v4_prev a = v4_of_uint (and (v4_to_uint a - 1) 0xFFFFFFFF)"

definition v4_post_prev :: "address_v4 \<Rightarrow> address_v4 \<times> address_v4" where
  "v4_post_prev a = (a, v4_prev a)"

record v4_range =
  v4_begin :: address_v4
  v4_end :: address_v4

definition v4_range_default :: v4_range where
  "v4_range_default = \<lparr>v4_begin = v4_default, v4_end = v4_default\<rparr>"

definition v4_range_size :: "v4_range \<Rightarrow> nat" where
  "v4_range_size r = unat (v4_to_uint (v4_end r) - v4_to_uint (v4_begin r))"

definition v4_range_empty :: "v4_range \<Rightarrow> bool" where
  "v4_range_empty r \<longleftrightarrow> v4_range_size r = 0"

definition v4_range_find :: "v4_range \<Rightarrow> address_v4 \<Rightarrow> address_v4" where
  "v4_range_find r addr =
     (if v4_greater_eq addr (v4_begin r) \<and> v4_less addr (v4_end r) then addr else v4_end r)"

text \<open>What a loop over a range visits: from the beginning, until the end is reached.\<close>

fun v4_walk :: "nat \<Rightarrow> address_v4 \<Rightarrow> address_v4 \<Rightarrow> address_v4 list option" where
  "v4_walk 0 it stop = (if v4_eq it stop then Some [] else None)"
| "v4_walk (Suc fuel) it stop =
     (if v4_eq it stop then Some [] else map_option ((#) it) (v4_walk fuel (v4_next it) stop))"

lemma all_ones: "(0xFFFFFFFF :: 32 word) = - 1"
  by simp

lemma and_all_ones [simp]: "and (w :: 32 word) 0xFFFFFFFF = w"
  unfolding all_ones by simp

end
