(* ===== verification/NetworkV4.thy ===== *)
theory NetworkV4
  imports AddressV4
begin

text \<open>
  \<open>ip/network_v4.hpp\<close>, \<open>ip/impl/network_v4.ipp\<close>: an IPv4 address with a prefix length, from a prefix
  length, a netmask or text. The exceptions of the constructors are the left side of a sum.
\<close>

text \<open>A prefix that is too long (\<open>out_of_range\<close>), and the two exceptions for a netmask that is not contiguous:
  \<open>invalid_argument\<close> for a byte after the end of the prefix, \<open>out_of_range\<close> for one that cannot end it.\<close>

datatype network_error = PrefixTooLarge | NonContiguousNetmask | NetmaskByteOutOfRange

record network_v4 =
  n4_address :: address_v4
  n4_prefix_length :: nat

definition n4_default :: network_v4 where
  "n4_default = \<lparr>n4_address = v4_default, n4_prefix_length = 0\<rparr>"

definition network_v4_of_prefix :: "address_v4 \<Rightarrow> nat \<Rightarrow> network_error + network_v4" where
  "network_v4_of_prefix addr prefix_len =
     (if prefix_len > 32 then Inl PrefixTooLarge
      else Inr \<lparr>n4_address = addr, n4_prefix_length = prefix_len\<rparr>)"

text \<open>The loop over the bytes of the netmask, with \<open>finished\<close> and the length so far.\<close>

definition mask_bits :: "byte \<Rightarrow> nat option" where
  "mask_bits b =
     (if b = 254 then Some 7 else if b = 252 then Some 6 else if b = 248 then Some 5
      else if b = 240 then Some 4 else if b = 224 then Some 3 else if b = 192 then Some 2
      else if b = 128 then Some 1 else if b = 0 then Some 0 else None)"

fun mask_loop :: "byte list \<Rightarrow> bool \<Rightarrow> nat \<Rightarrow> network_error + nat" where
  "mask_loop [] finished len = Inr len"
| "mask_loop (b # bs) finished len =
     (if finished then (if b \<noteq> 0 then Inl NonContiguousNetmask else mask_loop bs finished len)
      else if b = 255 then mask_loop bs False (len + 8)
      else case mask_bits b of
             Some k \<Rightarrow> mask_loop bs True (len + k)
           | None \<Rightarrow> Inl NetmaskByteOutOfRange)"

definition network_v4_of_mask :: "address_v4 \<Rightarrow> address_v4 \<Rightarrow> network_error + network_v4" where
  "network_v4_of_mask addr nmask =
     (case mask_loop (v4_to_bytes nmask) False 0 of
        Inl e \<Rightarrow> Inl e
      | Inr len \<Rightarrow> Inr \<lparr>n4_address = addr, n4_prefix_length = len\<rparr>)"

definition n4_netmask :: "network_v4 \<Rightarrow> address_v4" where
  "n4_netmask net =
     (let nmbits = (0xffffffff :: 32 word);
          nmbits = (if n4_prefix_length net = 0 then 0 else push_bit (32 - n4_prefix_length net) nmbits)
      in v4_of_uint nmbits)"

definition n4_network :: "network_v4 \<Rightarrow> address_v4" where
  "n4_network net = v4_of_uint (and (v4_to_uint (n4_address net)) (v4_to_uint (n4_netmask net)))"

definition n4_broadcast :: "network_v4 \<Rightarrow> address_v4" where
  "n4_broadcast net =
     v4_of_uint (or (v4_to_uint (n4_network net)) (xor (v4_to_uint (n4_netmask net)) 0xFFFFFFFF))"

definition n4_is_host :: "network_v4 \<Rightarrow> bool" where
  "n4_is_host net \<longleftrightarrow> n4_prefix_length net = 32"

definition n4_hosts :: "network_v4 \<Rightarrow> v4_range" where
  "n4_hosts net =
     (if n4_is_host net
      then \<lparr>v4_begin = n4_address net, v4_end = v4_of_uint (v4_to_uint (n4_address net) + 1)\<rparr>
      else \<lparr>v4_begin = v4_of_uint (v4_to_uint (n4_network net) + 1), v4_end = n4_broadcast net\<rparr>)"

definition n4_canonical :: "network_v4 \<Rightarrow> network_error + network_v4" where
  "n4_canonical net = network_v4_of_mask (n4_network net) (n4_netmask net)"

definition n4_eq :: "network_v4 \<Rightarrow> network_v4 \<Rightarrow> bool" where
  "n4_eq a b \<longleftrightarrow> v4_eq (n4_address a) (n4_address b) \<and> n4_prefix_length a = n4_prefix_length b"

definition n4_is_subnet_of :: "network_v4 \<Rightarrow> network_v4 \<Rightarrow> network_error + bool" where
  "n4_is_subnet_of net other =
     (if n4_prefix_length other \<ge> n4_prefix_length net then Inr False
      else case network_v4_of_prefix (n4_address net) (n4_prefix_length other) of
        Inl e \<Rightarrow> Inl e
      | Inr me \<Rightarrow>
          (case n4_canonical other of
             Inl e \<Rightarrow> Inl e
           | Inr c1 \<Rightarrow> (case n4_canonical me of Inl e \<Rightarrow> Inl e | Inr c2 \<Rightarrow> Inr (n4_eq c1 c2))))"

definition n4_to_string :: "libc \<Rightarrow> network_v4 \<Rightarrow> error_code + string" where
  "n4_to_string C net =
     (case v4_to_string C (n4_address net) of
        Inl e \<Rightarrow> Inl e
      | Inr text \<Rightarrow> Inr (text @ ''/'' @ decimal (n4_prefix_length net)))"

text \<open>
  \<open>make_network_v4\<close>: the address before the first slash, at least one digit and only digits after it.
  The network's constructor is only reached with a length it accepts.
\<close>

definition make_network_v4 :: "libc \<Rightarrow> string \<Rightarrow> network_v4 \<times> error_code" where
  "make_network_v4 C str =
     (let before = takeWhile (\<lambda>c. c \<noteq> CHR ''/'') str;
          pos = length before
      in
        if pos = length str then (n4_default, basic_ec invalid_argument)
        else if pos = length str - 1 then (n4_default, basic_ec invalid_argument)
        else if \<exists>c \<in> set (drop (pos + 1) str). \<not> is_digit c then (n4_default, basic_ec invalid_argument)
        else
          let (addr, ec) = make_address_v4 C before in
          if ec_failed ec then (n4_default, ec)
          else
            let prefix_len = atoi (c_str (drop (pos + 1) str)) in
            if prefix_len < 0 \<or> prefix_len > 32 then (n4_default, basic_ec invalid_argument)
            else case network_v4_of_prefix addr (nat prefix_len) of
                   Inr net \<Rightarrow> (net, ec)
                 | Inl e \<Rightarrow> (n4_default, ec))"

definition make_network_v4_throws :: "libc \<Rightarrow> string \<Rightarrow> error_code + network_v4" where
  "make_network_v4_throws C str =
     (let (net, ec) = make_network_v4 C str
      in case throw_error ec of Inl e \<Rightarrow> Inl e | Inr _ \<Rightarrow> Inr net)"

section \<open>Netmasks\<close>

definition prefix_mask :: "nat \<Rightarrow> 32 word" where
  "prefix_mask p = (if p = 0 then 0 else push_bit (32 - p) 0xffffffff)"

fun prefix_bytes :: "nat \<Rightarrow> nat \<Rightarrow> byte list" where
  "prefix_bytes k 0 = []"
| "prefix_bytes k (Suc n) =
     (if k \<ge> 8 then 255 # prefix_bytes (k - 8) n else of_nat (256 - 2 ^ (8 - k)) # replicate n 0)"

lemma mask_bits_byte: "k < 8 \<Longrightarrow> mask_bits (of_nat (256 - 2 ^ (8 - k))) = Some k"
proof -
  assume "k < 8"
  then have "k \<in> {0, 1, 2, 3, 4, 5, 6, 7}" by auto
  then show ?thesis
    by (elim insertE emptyE) (simp_all add: mask_bits_def)
qed

lemma mask_bits_iff: "mask_bits b = Some k \<longleftrightarrow> k < 8 \<and> b = of_nat (256 - 2 ^ (8 - k))"
proof
  assume "mask_bits b = Some k"
  then have "(b = 254 \<and> k = 7) \<or> (b = 252 \<and> k = 6) \<or> (b = 248 \<and> k = 5) \<or> (b = 240 \<and> k = 4) \<or>
      (b = 224 \<and> k = 3) \<or> (b = 192 \<and> k = 2) \<or> (b = 128 \<and> k = 1) \<or> (b = 0 \<and> k = 0)"
    unfolding mask_bits_def by (simp split: if_split_asm)
  then show "k < 8 \<and> b = of_nat (256 - 2 ^ (8 - k))"
    by (elim disjE conjE) simp_all
qed (use mask_bits_byte in auto)

lemma mask_loop_finished: "mask_loop bs True len = Inr m \<longleftrightarrow> m = len \<and> bs = replicate (length bs) 0"
  by (induction bs) auto

lemma mask_loop_iff:
  "mask_loop bs False len = Inr m \<longleftrightarrow> (\<exists>k. m = len + k \<and> k \<le> 8 * length bs \<and> bs = prefix_bytes k (length bs))"
proof (induction bs arbitrary: len m)
  case Nil
  then show ?case by auto
next
  case (Cons b bs)
  show ?case
  proof (cases "b = 255")
    case True
    have "mask_loop (b # bs) False len = Inr m \<longleftrightarrow> (\<exists>k. m = len + 8 + k \<and> k \<le> 8 * length bs \<and> bs = prefix_bytes k (length bs))"
      using True Cons.IH [of "len + 8" m] by simp
    also have "\<dots> \<longleftrightarrow> (\<exists>k. m = len + k \<and> 8 \<le> k \<and> k \<le> 8 * length (b # bs) \<and> bs = prefix_bytes (k - 8) (length bs))"
    proof
      assume "\<exists>k. m = len + 8 + k \<and> k \<le> 8 * length bs \<and> bs = prefix_bytes k (length bs)"
      then obtain k where "m = len + 8 + k" "k \<le> 8 * length bs" "bs = prefix_bytes k (length bs)" by blast
      then show "\<exists>k. m = len + k \<and> 8 \<le> k \<and> k \<le> 8 * length (b # bs) \<and> bs = prefix_bytes (k - 8) (length bs)"
        by (intro exI [of _ "8 + k"]) simp
    next
      assume "\<exists>k. m = len + k \<and> 8 \<le> k \<and> k \<le> 8 * length (b # bs) \<and> bs = prefix_bytes (k - 8) (length bs)"
      then obtain k where "m = len + k" "8 \<le> k" "k \<le> 8 * length (b # bs)" "bs = prefix_bytes (k - 8) (length bs)" by blast
      then show "\<exists>k. m = len + 8 + k \<and> k \<le> 8 * length bs \<and> bs = prefix_bytes k (length bs)"
        by (intro exI [of _ "k - 8"]) simp
    qed
    also have "\<dots> \<longleftrightarrow> (\<exists>k. m = len + k \<and> k \<le> 8 * length (b # bs) \<and> b # bs = prefix_bytes k (length (b # bs)))"
    proof -
      have "of_nat (256 - 2 ^ (8 - k)) \<noteq> (255 :: byte)" if "k < 8" for k :: nat
        using mask_bits_iff [of "of_nat (256 - 2 ^ (8 - k))" k] that by (auto simp: mask_bits_def)
      then show ?thesis
        using True by (auto simp: not_le)
    qed
    finally show ?thesis .
  next
    case False
    show ?thesis
    proof (cases "mask_bits b")
      case None
      then show ?thesis
        using False mask_bits_iff [of b] by (auto simp: not_le) 
    next
      case (Some j)
      then have j: "j < 8" "b = of_nat (256 - 2 ^ (8 - j))"
        using mask_bits_iff by auto
      have u: "k = j" if "k < 8" "b = of_nat (256 - 2 ^ (8 - k))" for k
        using that Some mask_bits_iff [of b k] by simp
      have "mask_loop (b # bs) False len = Inr m \<longleftrightarrow> m = len + j \<and> bs = replicate (length bs) 0"
        using False Some by (simp add: mask_loop_finished)
      also have "\<dots> \<longleftrightarrow> (\<exists>k. m = len + k \<and> k \<le> 8 * length (b # bs) \<and> b # bs = prefix_bytes k (length (b # bs)))"
      proof
        assume "m = len + j \<and> bs = replicate (length bs) 0"
        then show "\<exists>k. m = len + k \<and> k \<le> 8 * length (b # bs) \<and> b # bs = prefix_bytes k (length (b # bs))"
          using j by (intro exI [of _ j]) simp
      next
        assume "\<exists>k. m = len + k \<and> k \<le> 8 * length (b # bs) \<and> b # bs = prefix_bytes k (length (b # bs))"
        then obtain k where k: "m = len + k" "b # bs = prefix_bytes k (Suc (length bs))" by auto
        then have "k < 8" "b = of_nat (256 - 2 ^ (8 - k))" "bs = replicate (length bs) 0"
          using False by (simp_all split: if_splits)
        with u k show "m = len + j \<and> bs = replicate (length bs) 0" by blast
      qed
      finally show ?thesis .
    qed
  qed
qed

lemma prefix_bytes_mask: "p \<le> 32 \<Longrightarrow> prefix_bytes p 4 = v4_to_bytes (v4_of_uint (prefix_mask p))"
proof -
  assume "p \<le> 32"
  then have "p \<in> set [0..<33]" by simp
  moreover have "\<forall>p \<in> set [0..<33]. prefix_bytes p 4 = rev (bytes_of_u32 (prefix_mask p))"
    by code_simp
  ultimately show ?thesis
    by (simp add: v4_to_bytes_uint)
qed

lemma netmask_mask: "v4_to_uint (n4_netmask net) = prefix_mask (n4_prefix_length net)"
  by (simp add: n4_netmask_def prefix_mask_def Let_def)

lemma network_v4_of_mask_iff:
  "network_v4_of_mask addr m = Inr net \<longleftrightarrow>
     (\<exists>p \<le> 32. m = v4_of_uint (prefix_mask p) \<and> net = \<lparr>n4_address = addr, n4_prefix_length = p\<rparr>)"
proof -
  have "mask_loop (v4_to_bytes m) False 0 = Inr p \<longleftrightarrow> p \<le> 32 \<and> m = v4_of_uint (prefix_mask p)" for p
  proof -
    have "mask_loop (v4_to_bytes m) False 0 = Inr p \<longleftrightarrow> p \<le> 32 \<and> v4_to_bytes m = prefix_bytes p 4"
      by (simp add: mask_loop_iff)
    then show ?thesis
      using prefix_bytes_mask by (metis v4_bytes_roundtrip(2))
  qed
  moreover have "network_v4_of_mask addr m = Inr net \<longleftrightarrow>
      (\<exists>p. mask_loop (v4_to_bytes m) False 0 = Inr p \<and> net = \<lparr>n4_address = addr, n4_prefix_length = p\<rparr>)"
    by (auto simp: network_v4_of_mask_def split: sum.splits)
  ultimately show ?thesis
    by (simp only: conj_assoc)
qed

lemma canonical_network:
  "n4_prefix_length net \<le> 32 \<Longrightarrow> n4_canonical net = Inr \<lparr>n4_address = n4_network net, n4_prefix_length = n4_prefix_length net\<rparr>"
  by (simp add: n4_canonical_def network_v4_of_mask_iff)
    (metis netmask_mask v4_uint_roundtrip(2))

text \<open>The mask keeps the high bits; its complement is the low ones.\<close>

lemma bit_prefix_mask: "p \<le> 32 \<Longrightarrow> bit (prefix_mask p) n \<longleftrightarrow> n < 32 \<and> 32 - p \<le> n"
  unfolding prefix_mask_def all_ones by (auto simp: bit_simps)

definition host_count :: "nat \<Rightarrow> nat" where
  "host_count p = 2 ^ (32 - p)"

lemma unat_and_mask:
  assumes "p \<le> 32"
  shows "unat (and x (prefix_mask p)) = unat x div host_count p * host_count p"
proof -
  have "and x (prefix_mask p) = push_bit (32 - p) (drop_bit (32 - p) x)"
    using assms by (intro bit_word_eqI) (auto simp: bit_simps bit_prefix_mask)
  moreover have "unat (push_bit (32 - p) (drop_bit (32 - p) x)) = push_bit (32 - p) (drop_bit (32 - p) (unat x))"
    by (rule bit_eqI) (auto simp: bit_simps bit_unsigned_iff dest: bit_imp_le_length)
  ultimately show ?thesis
    by (simp add: host_count_def push_bit_eq_mult drop_bit_eq_div)
qed


lemma prefix_mask_xor: "p \<le> 32 \<Longrightarrow> xor (prefix_mask p) 0xFFFFFFFF = mask (32 - p)"
  unfolding all_ones by (rule bit_word_eqI) (auto simp: bit_simps bit_prefix_mask)

lemma unat_broadcast:
  assumes "p \<le> 32"
  shows "unat (or (and x (prefix_mask p)) (xor (prefix_mask p) 0xFFFFFFFF)) =
    unat x div host_count p * host_count p + (host_count p - 1)"
proof -
  let ?n = "and x (prefix_mask p)" and ?h = "mask (32 - p) :: 32 word"
  have "and ?n ?h = 0"
    using assms by (intro bit_word_eqI) (auto simp: bit_simps bit_prefix_mask)
  then have "or ?n ?h = ?n + ?h"
    by (simp add: disjunctive_add bit_eq_iff bit_simps) 
  moreover have h: "unat ?h = host_count p - 1"
  proof -
    have "unat ?h = (mask (32 - p) :: nat)"
      by (rule bit_eqI) (auto simp: bit_simps bit_unsigned_iff)
    then show ?thesis
      by (simp add: host_count_def mask_eq_exp_minus_1)
  qed
  moreover have "unat ?n + unat ?h < 2 ^ 32"
  proof -
    have "unat x div host_count p < 2 ^ p"
      using assms unsigned_less [of x, where ?'a = nat] unfolding host_count_def
      by (intro less_mult_imp_div_less) (simp flip: power_add)
    then have "(unat x div host_count p + 1) * host_count p \<le> 2 ^ p * host_count p"
      by (intro mult_le_mono1) simp
    then show ?thesis
      using assms unfolding h unat_and_mask [OF assms] by (simp add: host_count_def flip: power_add)
  qed
  ultimately show ?thesis
    unfolding prefix_mask_xor [OF assms] unat_and_mask [OF assms, symmetric]
    by (simp add: unat_word_ariths(1))
qed

definition n4_low :: "network_v4 \<Rightarrow> nat" where
  "n4_low net = unat (v4_to_uint (n4_address net)) div host_count (n4_prefix_length net) * host_count (n4_prefix_length net)"

lemma network_uint: "n4_prefix_length net \<le> 32 \<Longrightarrow> unat (v4_to_uint (n4_network net)) = n4_low net"
  by (simp add: n4_network_def n4_low_def netmask_mask unat_and_mask)

lemma broadcast_uint: "n4_prefix_length net \<le> 32 \<Longrightarrow>
    unat (v4_to_uint (n4_broadcast net)) = n4_low net + (host_count (n4_prefix_length net) - 1)"
  by (simp add: n4_broadcast_def n4_network_def n4_low_def netmask_mask unat_broadcast)

definition in_network_v4 :: "network_v4 \<Rightarrow> address_v4 \<Rightarrow> bool" where
  "in_network_v4 net a \<longleftrightarrow>
     drop_bit (32 - n4_prefix_length net) (v4_to_uint a) = drop_bit (32 - n4_prefix_length net) (v4_to_uint (n4_address net))"

lemma host_count_pos [simp]: "0 < host_count p"
  by (simp add: host_count_def)

lemma in_network_div: "in_network_v4 net a \<longleftrightarrow>
    unat (v4_to_uint a) div host_count (n4_prefix_length net) =
    unat (v4_to_uint (n4_address net)) div host_count (n4_prefix_length net)"
  by (simp only: in_network_v4_def host_count_def word_unat_eq_iff unat_drop_bit_eq) (simp add: drop_bit_eq_div)

lemma in_network_interval: "in_network_v4 net a \<longleftrightarrow>
    n4_low net \<le> unat (v4_to_uint a) \<and> unat (v4_to_uint a) < n4_low net + host_count (n4_prefix_length net)"
proof -
  let ?h = "host_count (n4_prefix_length net)"
  have "x div ?h = q \<longleftrightarrow> q * ?h \<le> x \<and> x < q * ?h + ?h" for x q :: nat
    by (metis add.commute div_nat_eqI div_times_less_eq_dividend dividend_less_div_times host_count_pos mult.commute mult_Suc)
  then show ?thesis
    unfolding in_network_div n4_low_def by blast
qed


section \<open>Walks\<close>

lemma v4_of_uint_eq: "v4_of_uint a = v4_of_uint b \<longleftrightarrow> a = b"
  by (metis v4_uint_roundtrip(1))

lemma v4_walk_steps:
  "n < 2 ^ 32 \<Longrightarrow> n \<le> fuel \<Longrightarrow>
     v4_walk fuel (v4_of_uint x) (v4_of_uint (x + of_nat n)) = Some (map (\<lambda>i. v4_of_uint (x + of_nat i)) [0..<n])"
proof (induction n arbitrary: fuel x)
  case 0
  then show ?case
    by (cases fuel) (simp_all add: v4_eq_iff)
next
  case (Suc n)
  then obtain fuel' where f: "fuel = Suc fuel'" "n \<le> fuel'"
    by (cases fuel) auto
  have "(of_nat (Suc n) :: 32 word) \<noteq> 0"
    using Suc.prems(1) by (simp add: word_of_nat_eq_0_iff nat_dvd_not_less del: of_nat_Suc)
  then have ne: "\<not> v4_eq (v4_of_uint x) (v4_of_uint (x + of_nat (Suc n)))"
    by (simp add: v4_eq_iff v4_of_uint_eq del: of_nat_Suc)
  have nx: "v4_next (v4_of_uint x) = v4_of_uint (x + 1)"
    by (simp add: v4_next_def)
  have "v4_walk fuel' (v4_of_uint (x + 1)) (v4_of_uint (x + 1 + of_nat n)) =
      Some (map (\<lambda>i. v4_of_uint (x + 1 + of_nat i)) [0..<n])"
    using Suc.IH f(2) Suc.prems(1) by simp
  moreover have "map (\<lambda>i. v4_of_uint (x + of_nat i)) [0..<Suc n] =
      v4_of_uint x # map (\<lambda>i. v4_of_uint (x + 1 + of_nat i)) [0..<n]"
    by (simp add: upt_conv_Cons map_Suc_upt [symmetric] add.assoc del: upt_Suc)
  ultimately show ?case
    using ne nx unfolding f(1) by (simp add: ac_simps del: upt_Suc)
qed

lemma hosts_walk:
  assumes "n4_prefix_length net < 32" and "2 ^ 32 \<le> fuel"
  shows "v4_walk fuel (v4_begin (n4_hosts net)) (v4_end (n4_hosts net)) =
    Some (map (\<lambda>i. v4_of_uint (of_nat (n4_low net + i))) [1..<host_count (n4_prefix_length net) - 1])"
proof -
  let ?h = "host_count (n4_prefix_length net)" and ?lo = "n4_low net"
  have p: "n4_prefix_length net \<le> 32"
    using assms(1) by simp
  have h: "2 \<le> ?h" "?h \<le> 2 ^ 32"
    using assms(1) power_increasing [of 1 "32 - n4_prefix_length net" "2::nat"]
      power_increasing [of "32 - n4_prefix_length net" 32 "2::nat"]
    by (simp_all add: host_count_def)
  have net: "v4_to_uint (n4_network net) = of_nat ?lo" and bc: "v4_to_uint (n4_broadcast net) = of_nat (?lo + (?h - 1))"
  proof -
    have "of_nat (unat (v4_to_uint (n4_network net))) = v4_to_uint (n4_network net)"
        "of_nat (unat (v4_to_uint (n4_broadcast net))) = v4_to_uint (n4_broadcast net)" by simp_all
    then show "v4_to_uint (n4_network net) = of_nat ?lo" "v4_to_uint (n4_broadcast net) = of_nat (?lo + (?h - 1))"
      by (simp_all only: network_uint [OF p] broadcast_uint [OF p])
  qed
  have "v4_end (n4_hosts net) = v4_of_uint (of_nat ?lo + 1 + of_nat (?h - 2))"
  proof -
    have "(of_nat (?lo + (?h - 1)) :: 32 word) = of_nat (?lo + 1 + (?h - 2))"
      using h(1) by (intro arg_cong [where f = of_nat]) simp
    then show ?thesis
      using assms(1) by (metis (no_types, lifting) bc n4_hosts_def n4_is_host_def less_irrefl of_nat_1 of_nat_add v4_range.select_convs(2) v4_uint_roundtrip(2))
  qed
  moreover have "v4_begin (n4_hosts net) = v4_of_uint (of_nat ?lo + 1)"
    using assms(1) net by (simp add: n4_hosts_def n4_is_host_def)
  moreover have "map (\<lambda>i. v4_of_uint (of_nat ?lo + 1 + of_nat i)) [0..<?h - 2] =
      map (\<lambda>i. v4_of_uint (of_nat (?lo + i))) [1..<?h - 1]"
  proof -
    have "[1..<?h - 1] = map Suc [0..<?h - 2]"
      using h(1) by (simp add: map_Suc_upt numeral_2_eq_2 Suc_diff_Suc)
    then show ?thesis
      by (simp add: o_def ac_simps)
  qed
  moreover have "?h - 2 < 2 ^ 32" "?h - 2 \<le> fuel"
    using h assms(2) by linarith+
  ultimately show ?thesis
    using v4_walk_steps [of "?h - 2" fuel "of_nat ?lo + 1"] by simp
qed


lemma subnet_iff:
  assumes p: "n4_prefix_length a \<le> 32" "n4_prefix_length b \<le> 32"
  shows "n4_is_subnet_of a b = Inr ({x. in_network_v4 a x} \<subset> {x. in_network_v4 b x})"
proof -
  let ?pa = "n4_prefix_length a" and ?pb = "n4_prefix_length b"
  have mem: "in_network_v4 n (n4_address n)" for n
    by (simp add: in_network_v4_def)
  show ?thesis
  proof (cases "?pb \<ge> ?pa")
    case True
    have "\<not> {x. in_network_v4 a x} \<subset> {x. in_network_v4 b x}"
    proof
      assume s: "{x. in_network_v4 a x} \<subset> {x. in_network_v4 b x}"
      then have "in_network_v4 b (n4_address a)"
        using mem [of a] by blast
      then have "drop_bit (32 - ?pb) (v4_to_uint (n4_address a)) = drop_bit (32 - ?pb) (v4_to_uint (n4_address b))"
        by (simp add: in_network_v4_def)
      moreover have "drop_bit (32 - ?pa) w = drop_bit (?pb - ?pa) (drop_bit (32 - ?pb) w)" for w :: "32 word"
        using True p by (simp add: drop_bit_drop_bit add.commute)
      ultimately have "in_network_v4 a x" if "in_network_v4 b x" for x
        using that unfolding in_network_v4_def by metis
      then have "{x. in_network_v4 b x} \<subseteq> {x. in_network_v4 a x}" by blast
      with s show False by blast
    qed
    with True show ?thesis
      by (simp add: n4_is_subnet_of_def)
  next
    case False
    let ?me = "\<lparr>n4_address = n4_address a, n4_prefix_length = ?pb\<rparr>"
    have "n4_is_subnet_of a b = Inr (v4_eq (n4_network b) (n4_network ?me))"
      using False p canonical_network [of b] canonical_network [of ?me]
      by (simp add: n4_is_subnet_of_def network_v4_of_prefix_def n4_eq_def)
    also have "v4_eq (n4_network b) (n4_network ?me) \<longleftrightarrow> n4_low b = n4_low ?me"
      using network_uint [of b] network_uint [of ?me] p by (simp add: v4_eq_iff) (metis v4_eq_iff(2) word_unat_eq_iff)
    also have "\<dots> \<longleftrightarrow> in_network_v4 b (n4_address a)"
      by (auto simp: n4_low_def in_network_div)
    also have "\<dots> \<longleftrightarrow> {x. in_network_v4 a x} \<subset> {x. in_network_v4 b x}"
    proof
      assume i: "in_network_v4 b (n4_address a)"
      have d: "drop_bit (32 - ?pb) w = drop_bit (?pa - ?pb) (drop_bit (32 - ?pa) w)" for w :: "32 word"
        using False p by (simp add: drop_bit_drop_bit add.commute)
      have sub: "{x. in_network_v4 a x} \<subseteq> {x. in_network_v4 b x}"
        using i d unfolding in_network_v4_def by (intro Collect_mono impI) metis
      have "n4_low b + (host_count ?pb - 1) < 2 ^ 32" "n4_low a + (host_count ?pa - 1) < 2 ^ 32" 
        using broadcast_uint [OF p(2)] broadcast_uint [OF p(1)] unsigned_less [of "v4_to_uint (n4_broadcast b)", where ?'a = nat]
          unsigned_less [of "v4_to_uint (n4_broadcast a)", where ?'a = nat] by simp_all
      then have bnd: "n4_low b < 2 ^ 32" "n4_low b + (host_count ?pb - 1) < 2 ^ 32" by linarith+
      have hc: "2 * host_count ?pa \<le> host_count ?pb"
        using False p power_increasing [of "Suc (32 - ?pa)" "32 - ?pb" "2::nat"] by (simp add: host_count_def)
      have u: "unat (v4_to_uint (v4_of_uint (of_nat n))) = n" if "n < 2 ^ 32" for n
        using that by (simp add: unat_of_nat)
      have l: "in_network_v4 b (v4_of_uint (of_nat (n4_low b)))"
          "in_network_v4 b (v4_of_uint (of_nat (n4_low b + (host_count ?pb - 1))))"
        unfolding in_network_interval u [OF bnd(1)] u [OF bnd(2)] using host_count_pos [of ?pb] by linarith+
      have "\<not> (in_network_v4 a (v4_of_uint (of_nat (n4_low b))) \<and>
          in_network_v4 a (v4_of_uint (of_nat (n4_low b + (host_count ?pb - 1)))))"
        unfolding in_network_interval u [OF bnd(1)] u [OF bnd(2)] using hc host_count_pos [of ?pa] by linarith
      with sub l show "{x. in_network_v4 a x} \<subset> {x. in_network_v4 b x}"
        by blast
    next
      assume "{x. in_network_v4 a x} \<subset> {x. in_network_v4 b x}"
      then show "in_network_v4 b (n4_address a)"
        using mem [of a] by blast
    qed
    finally show ?thesis .
  qed
qed


section \<open>Text\<close>

lemma takeWhile_before: "\<forall>c \<in> set xs. P c \<Longrightarrow> \<not> P y \<Longrightarrow> takeWhile P (xs @ y # ys) = xs"
  by (induction xs) auto

lemma c_str_id: "\<forall>c \<in> set s. c \<noteq> CHR 0x00 \<Longrightarrow> c_str s = s"
  by (simp add: c_str_def)

lemma digit_not_nul: "is_digit c \<Longrightarrow> c \<noteq> CHR 0x00"
  by (auto simp: is_digit_def)

lemma system_ec_0 [simp]: "system_ec 0 = no_error"
  by (simp add: system_ec_def no_error_def)

lemma make_network_v4_of_text:
  assumes nm: "\<forall>c \<in> set str. c \<noteq> CHR ''/'' \<and> c \<noteq> CHR 0x00"
    and pton: "libc_inet_pton C AF_INET str = (1, v4_to_bytes a, 0)"
    and ds: "ds \<noteq> []" "\<forall>c \<in> set ds. is_digit c" "atoi ds = int p" "p \<le> 32"
  shows "make_network_v4 C (str @ ''/'' @ ds) = (\<lparr>n4_address = a, n4_prefix_length = p\<rparr>, no_error)"
proof -
  have tw: "takeWhile (\<lambda>c. c \<noteq> CHR ''/'') (str @ CHR ''/'' # ds) = str"
    using nm by (intro takeWhile_before) auto
  have cs: "c_str str = str" "c_str ds = ds"
    using nm ds(2) digit_not_nul by (intro c_str_id; blast)+
  have addr: "make_address_v4 C str = (a, no_error)"
    using pton by (simp add: make_address_v4_def cs inet_pton_def Let_def AF_INET_def AF_INET6_def)
  have "drop (Suc (length str)) (str @ ''/'' @ ds) = ds"
    by simp
  then show ?thesis
    using ds by (simp add: make_network_v4_def tw Let_def addr cs network_v4_of_prefix_def)
qed

section \<open>Properties\<close>

text \<open>C9. The constructor from a netmask accepts exactly the contiguous masks, finds their length, and the
  network's \<open>netmask()\<close> gives the same mask back.\<close>

theorem netmask_roundtrip:
  "network_v4_of_mask addr m = Inr net \<longleftrightarrow>
     n4_address net = addr \<and> n4_prefix_length net \<le> 32 \<and> n4_netmask net = m"
proof -
  have e: "n4_netmask net = v4_of_uint (prefix_mask (n4_prefix_length net))"
    by (metis netmask_mask v4_uint_roundtrip(2))
  show ?thesis
    unfolding network_v4_of_mask_iff e
    by (cases net) auto
qed

text \<open>\<open>network()\<close> and \<open>broadcast()\<close> are the least and the greatest address of the network: an address
  has the network's prefix exactly when it lies between them.\<close>

theorem network_v4_interval:
  assumes "n4_prefix_length net \<le> 32"
  shows "in_network_v4 net a \<longleftrightarrow>
    v4_to_uint (n4_network net) \<le> v4_to_uint a \<and> v4_to_uint a \<le> v4_to_uint (n4_broadcast net)"
  unfolding in_network_interval word_le_nat_alt network_uint [OF assms] broadcast_uint [OF assms]
  using host_count_pos [of "n4_prefix_length net"] by linarith

theorem network_v4_interval_witness:
  "in_network_v4 \<lparr>n4_address = v4_of_uint 0xC0A80105, n4_prefix_length = 24\<rparr> (v4_of_uint 0xC0A801FF)"
  by (subst network_v4_interval) (simp_all add: n4_network_def n4_broadcast_def n4_netmask_def)

text \<open>A loop over \<open>hosts()\<close> of a network of more than one address visits, in order and once, every
  address of the network but the first and the last.\<close>

theorem hosts_enumerates:
  assumes "n4_prefix_length net < 32" and "2 ^ 32 \<le> fuel"
  shows "\<exists>xs. v4_walk fuel (v4_begin (n4_hosts net)) (v4_end (n4_hosts net)) = Some xs \<and>
    sorted_wrt v4_less xs \<and>
    set xs = {a. in_network_v4 net a \<and> a \<noteq> n4_network net \<and> a \<noteq> n4_broadcast net}"
proof -
  let ?h = "host_count (n4_prefix_length net)" and ?lo = "n4_low net"
  let ?xs = "map (\<lambda>i. v4_of_uint (of_nat (?lo + i))) [1..<?h - 1]"
  have p: "n4_prefix_length net \<le> 32" using assms(1) by simp
  have "?lo + (?h - 1) < 2 ^ 32"
    using broadcast_uint [OF p] unsigned_less [of "v4_to_uint (n4_broadcast net)", where ?'a = nat] by simp
  then have u: "unat (of_nat (?lo + i) :: 32 word) = ?lo + i" if "i < ?h" for i
    using that by (simp add: unat_of_nat del: of_nat_add)
  have "sorted_wrt v4_less ?xs"
    unfolding sorted_wrt_map v4_less_def
    by (rule sorted_wrt_mono_rel [OF _ sorted_wrt_upt]) (simp add: word_less_nat_alt u del: of_nat_add)
  moreover have "set ?xs = {a. in_network_v4 net a \<and> a \<noteq> n4_network net \<and> a \<noteq> n4_broadcast net}" (is "_ = ?A")
  proof (intro equalityI subsetI)
    fix a assume "a \<in> set ?xs"
    then obtain i where i: "1 \<le> i" "i < ?h - 1" "unat (v4_to_uint a) = ?lo + i"
      by (auto simp: u simp del: of_nat_add)
    then show "a \<in> ?A"
      using network_uint [OF p] broadcast_uint [OF p] by (auto simp: in_network_interval)
  next
    fix a assume a: "a \<in> ?A"
    have "unat (v4_to_uint a) \<noteq> unat (v4_to_uint (n4_network net))"
        "unat (v4_to_uint a) \<noteq> unat (v4_to_uint (n4_broadcast net))"
      using a by (auto simp: v4_eq_iff(2) simp flip: word_unat_eq_iff)
    then have "unat (v4_to_uint a) \<noteq> ?lo" "unat (v4_to_uint a) \<noteq> ?lo + (?h - 1)"
      by (simp_all only: network_uint [OF p] broadcast_uint [OF p] simp_thms)
    moreover have "?lo \<le> unat (v4_to_uint a)" "unat (v4_to_uint a) < ?lo + ?h"
      using a by (simp_all add: in_network_interval)
    ultimately have b: "?lo < unat (v4_to_uint a)" "unat (v4_to_uint a) < ?lo + (?h - 1)"
      by linarith+
    let ?i = "unat (v4_to_uint a) - ?lo"
    have "a = v4_of_uint (of_nat (?lo + ?i))" "1 \<le> ?i" "?i < ?h - 1"
      using b by (simp_all del: of_nat_add)
    then show "a \<in> set ?xs" by force
  qed
  ultimately show ?thesis
    using hosts_walk [OF assms] by blast
qed

theorem hosts_enumerates_witness:
  "\<exists>xs. v4_walk (2 ^ 32) (v4_begin (n4_hosts \<lparr>n4_address = v4_of_uint 0xC0A80105, n4_prefix_length = 29\<rparr>))
        (v4_end (n4_hosts \<lparr>n4_address = v4_of_uint 0xC0A80105, n4_prefix_length = 29\<rparr>)) = Some xs \<and> sorted_wrt v4_less xs"
  using hosts_enumerates [of "\<lparr>n4_address = v4_of_uint 0xC0A80105, n4_prefix_length = 29\<rparr>" "2 ^ 32"]
  by (auto simp del: v4_walk.simps)

text \<open>\<open>is_subnet_of\<close> decides whether every address of the one network is in the other and some
  address of the other is not in the one.\<close>

theorem subnet_is_strict_subset:
  assumes "n4_prefix_length a \<le> 32" and "n4_prefix_length b \<le> 32"
  shows "n4_is_subnet_of a b = Inr ({x. in_network_v4 a x} \<subset> {x. in_network_v4 b x})"
  by (rule subnet_iff [OF assms])

theorem subnet_is_strict_subset_witness:
  "{x. in_network_v4 \<lparr>n4_address = v4_of_uint 0x0A010203, n4_prefix_length = 24\<rparr> x} \<subset>
   {x. in_network_v4 \<lparr>n4_address = v4_of_uint 0x0A000000, n4_prefix_length = 8\<rparr> x}"
proof -
  let ?a = "\<lparr>n4_address = v4_of_uint 0x0A010203, n4_prefix_length = 24\<rparr>"
  let ?b = "\<lparr>n4_address = v4_of_uint 0x0A000000, n4_prefix_length = 8\<rparr>"
  have "n4_is_subnet_of ?a ?b = Inr True"
    by code_simp
  with subnet_is_strict_subset [of ?a ?b] show ?thesis by simp
qed

text \<open>The text of a network, read again, is the network, when the C library reads back the text it
  prints for the address.\<close>

theorem network_v4_text_roundtrip:
  assumes "libc_inet_ntop C AF_INET (v4_to_bytes a) 16 = (Some str, 0)"
    and "libc_inet_pton C AF_INET str = (1, v4_to_bytes a, 0)"
    and "\<forall>c \<in> set str. c \<noteq> CHR ''/'' \<and> c \<noteq> CHR 0x00" and "p \<le> 32"
  shows "\<exists>s. n4_to_string C \<lparr>n4_address = a, n4_prefix_length = p\<rparr> = Inr s \<and>
    make_network_v4 C s = (\<lparr>n4_address = a, n4_prefix_length = p\<rparr>, no_error)"
proof -
  have "n4_to_string C \<lparr>n4_address = a, n4_prefix_length = p\<rparr> = Inr (str @ ''/'' @ decimal p)"
    using assms(1) by (simp add: n4_to_string_def v4_to_string_def inet_ntop_def Let_def max_addr_v4_str_len_def
        AF_INET_def AF_INET6_def)
  moreover have "atoi (decimal p) = int p"
    using assms(4) by (intro atoi_decimal) simp
  ultimately show ?thesis
    using make_network_v4_of_text [OF assms(3,2) _ decimal_digits _ assms(4), of p] by simp
qed

definition demo_libc :: libc where
  "demo_libc = \<lparr>libc_inet_ntop = (\<lambda>af bs n. (Some ''10.0.0.0'', 0)), libc_inet_pton = (\<lambda>af s. (1, [10, 0, 0, 0], 0)),
     libc_if_indextoname = (\<lambda>i. None), libc_if_nametoindex = (\<lambda>s. 0)\<rparr>"

theorem network_v4_text_roundtrip_witness:
  "\<exists>s. n4_to_string demo_libc \<lparr>n4_address = v4_of_bytes [10, 0, 0, 0], n4_prefix_length = 8\<rparr> = Inr s \<and>
     make_network_v4 demo_libc s = (\<lparr>n4_address = v4_of_bytes [10, 0, 0, 0], n4_prefix_length = 8\<rparr>, no_error)"
  by (rule network_v4_text_roundtrip [of _ _ "''10.0.0.0''"]) (simp_all add: demo_libc_def)

text \<open>A prefix length that does not fit an \<open>int\<close> is not rejected: its low 32 bits are used. The text
  with length 4294967304 is read as the network of length 8.\<close>

theorem prefix_length_wraps:
  assumes "libc_inet_pton C AF_INET str = (1, v4_to_bytes a, 0)"
    and "\<forall>c \<in> set str. c \<noteq> CHR ''/'' \<and> c \<noteq> CHR 0x00"
  shows "make_network_v4 C (str @ ''/'' @ ''4294967304'') = (\<lparr>n4_address = a, n4_prefix_length = 8\<rparr>, no_error)"
proof (rule make_network_v4_of_text [OF assms(2,1)])
  show "\<forall>c \<in> set ''4294967304''. is_digit c" "atoi ''4294967304'' = int 8"
    by (simp_all add: is_digit_def is_space_def atoi_def Let_def digits_value_def digit_value_def to_int32_def)
qed simp_all

theorem prefix_length_wraps_witness:
  "make_network_v4 demo_libc ''10.0.0.0/4294967304'' =
     (\<lparr>n4_address = v4_of_bytes [10, 0, 0, 0], n4_prefix_length = 8\<rparr>, no_error)"
  using prefix_length_wraps [of demo_libc "''10.0.0.0''" "v4_of_bytes [10, 0, 0, 0]"] by (simp add: demo_libc_def)

end
