(* ===== verification/AddressV6.thy ===== *)
theory AddressV6
  imports NetworkV4
begin

text \<open>
  \<open>ip/address_v6.hpp\<close>, \<open>ip/impl/address_v6.ipp\<close>, \<open>ip/address_v6_iterator.hpp\<close>, \<open>ip/address_v6_range.hpp\<close>:
  an IPv6 address is its sixteen bytes and a scope. \<open>byte_value\<close> is the number the bytes denote.
\<close>

record address_v6 =
  v6_addr :: "byte list"
  v6_scope_id :: "64 word"

definition v6_default :: address_v6 where
  "v6_default = \<lparr>v6_addr = replicate 16 0, v6_scope_id = 0\<rparr>"

definition v6_of_bytes :: "byte list \<Rightarrow> 64 word \<Rightarrow> address_v6" where
  "v6_of_bytes bs sc = \<lparr>v6_addr = take 16 bs, v6_scope_id = sc\<rparr>"

definition v6_to_bytes :: "address_v6 \<Rightarrow> byte list" where
  "v6_to_bytes a = v6_addr a"

definition v6_set_scope_id :: "64 word \<Rightarrow> address_v6 \<Rightarrow> address_v6" where
  "v6_set_scope_id sc a = a\<lparr>v6_scope_id := sc\<rparr>"

definition v6_to_string :: "libc \<Rightarrow> address_v6 \<Rightarrow> error_code + string" where
  "v6_to_string C a =
     (case inet_ntop C AF_INET6 (v6_addr a) max_addr_v6_str_len (unat (v6_scope_id a)) of
        (None, ec) \<Rightarrow> (case throw_error ec of Inl e \<Rightarrow> Inl e | Inr _ \<Rightarrow> Inl ec)
      | (Some addr, ec) \<Rightarrow> Inr addr)"

definition v6_is_loopback :: "address_v6 \<Rightarrow> bool" where
  "v6_is_loopback a \<longleftrightarrow> (\<forall>i < 15. v6_addr a ! i = 0) \<and> v6_addr a ! 15 = 1"

definition v6_is_unspecified :: "address_v6 \<Rightarrow> bool" where
  "v6_is_unspecified a \<longleftrightarrow> (\<forall>i < 16. v6_addr a ! i = 0)"

definition v6_is_link_local :: "address_v6 \<Rightarrow> bool" where
  "v6_is_link_local a \<longleftrightarrow> v6_addr a ! 0 = 0xfe \<and> and (v6_addr a ! 1) 0xc0 = 0x80"

definition v6_is_site_local :: "address_v6 \<Rightarrow> bool" where
  "v6_is_site_local a \<longleftrightarrow> v6_addr a ! 0 = 0xfe \<and> and (v6_addr a ! 1) 0xc0 = 0xc0"

definition v6_is_v4_mapped :: "address_v6 \<Rightarrow> bool" where
  "v6_is_v4_mapped a \<longleftrightarrow> (\<forall>i < 10. v6_addr a ! i = 0) \<and> v6_addr a ! 10 = 0xff \<and> v6_addr a ! 11 = 0xff"

definition v6_is_multicast :: "address_v6 \<Rightarrow> bool" where
  "v6_is_multicast a \<longleftrightarrow> v6_addr a ! 0 = 0xff"

definition v6_is_multicast_global :: "address_v6 \<Rightarrow> bool" where
  "v6_is_multicast_global a \<longleftrightarrow> v6_addr a ! 0 = 0xff \<and> and (v6_addr a ! 1) 0x0f = 0x0e"

definition v6_is_multicast_link_local :: "address_v6 \<Rightarrow> bool" where
  "v6_is_multicast_link_local a \<longleftrightarrow> v6_addr a ! 0 = 0xff \<and> and (v6_addr a ! 1) 0x0f = 0x02"

definition v6_is_multicast_node_local :: "address_v6 \<Rightarrow> bool" where
  "v6_is_multicast_node_local a \<longleftrightarrow> v6_addr a ! 0 = 0xff \<and> and (v6_addr a ! 1) 0x0f = 0x01"

definition v6_is_multicast_org_local :: "address_v6 \<Rightarrow> bool" where
  "v6_is_multicast_org_local a \<longleftrightarrow> v6_addr a ! 0 = 0xff \<and> and (v6_addr a ! 1) 0x0f = 0x08"

definition v6_is_multicast_site_local :: "address_v6 \<Rightarrow> bool" where
  "v6_is_multicast_site_local a \<longleftrightarrow> v6_addr a ! 0 = 0xff \<and> and (v6_addr a ! 1) 0x0f = 0x05"

text \<open>\<open>memcmp\<close>: the sign of the first difference.\<close>

fun memcmp :: "byte list \<Rightarrow> byte list \<Rightarrow> int" where
  "memcmp (x # xs) (y # ys) = (if x < y then - 1 else if x > y then 1 else memcmp xs ys)"
| "memcmp xs ys = 0"

definition v6_eq :: "address_v6 \<Rightarrow> address_v6 \<Rightarrow> bool" where
  "v6_eq a1 a2 \<longleftrightarrow> memcmp (v6_addr a1) (v6_addr a2) = 0 \<and> v6_scope_id a1 = v6_scope_id a2"

definition v6_less :: "address_v6 \<Rightarrow> address_v6 \<Rightarrow> bool" where
  "v6_less a1 a2 \<longleftrightarrow>
     (let memcmp_result = memcmp (v6_addr a1) (v6_addr a2)
      in if memcmp_result < 0 then True
         else if memcmp_result > 0 then False
         else v6_scope_id a1 < v6_scope_id a2)"

definition v6_greater_eq :: "address_v6 \<Rightarrow> address_v6 \<Rightarrow> bool" where
  "v6_greater_eq a1 a2 \<longleftrightarrow> \<not> v6_less a1 a2"

definition v6_loopback :: address_v6 where
  "v6_loopback = v6_default\<lparr>v6_addr := (v6_addr v6_default)[15 := 1]\<rparr>"

definition make_address_v6 :: "libc \<Rightarrow> string \<Rightarrow> address_v6 \<times> error_code" where
  "make_address_v6 C str =
     (case inet_pton C AF_INET6 (c_str str) (Some 0) of
        (result, bytes, sc, ec) \<Rightarrow>
          if result \<le> 0 then (v6_default, ec)
          else (v6_of_bytes bytes (of_nat (case sc of None \<Rightarrow> 0 | Some v \<Rightarrow> v)), ec))"

definition make_address_v6_throws :: "libc \<Rightarrow> string \<Rightarrow> error_code + address_v6" where
  "make_address_v6_throws C str =
     (let (addr, ec) = make_address_v6 C str
      in case throw_error ec of Inl e \<Rightarrow> Inl e | Inr _ \<Rightarrow> Inr addr)"

text \<open>The two conversions between the families; \<open>bad_address_cast\<close> is None.\<close>

definition make_address_v4_mapped :: "address_v6 \<Rightarrow> address_v4 option" where
  "make_address_v4_mapped a =
     (if \<not> v6_is_v4_mapped a then None
      else Some (v4_of_bytes [v6_to_bytes a ! 12, v6_to_bytes a ! 13, v6_to_bytes a ! 14, v6_to_bytes a ! 15]))"

definition make_address_v6_mapped :: "address_v4 \<Rightarrow> address_v6" where
  "make_address_v6_mapped a =
     (let b = v4_to_bytes a
      in v6_of_bytes [0, 0, 0, 0, 0, 0, 0, 0, 0, 0, 0xFF, 0xFF, b ! 0, b ! 1, b ! 2, b ! 3] 0)"

section \<open>Iterators and ranges\<close>

text \<open>The loops of the increment and the decrement, from byte \<open>k - 1\<close> down.\<close>

fun v6_incr_loop :: "nat \<Rightarrow> byte list \<Rightarrow> byte list" where
  "v6_incr_loop 0 bs = bs"
| "v6_incr_loop (Suc i) bs =
     (if bs ! i < 0xFF then bs[i := bs ! i + 1] else v6_incr_loop i (bs[i := 0]))"

fun v6_decr_loop :: "nat \<Rightarrow> byte list \<Rightarrow> byte list" where
  "v6_decr_loop 0 bs = bs"
| "v6_decr_loop (Suc i) bs =
     (if bs ! i > 0 then bs[i := bs ! i - 1] else v6_decr_loop i (bs[i := 0xFF]))"

definition v6_next :: "address_v6 \<Rightarrow> address_v6" where
  "v6_next a = a\<lparr>v6_addr := v6_incr_loop 16 (v6_addr a)\<rparr>"

definition v6_prev :: "address_v6 \<Rightarrow> address_v6" where
  "v6_prev a = a\<lparr>v6_addr := v6_decr_loop 16 (v6_addr a)\<rparr>"

definition v6_post_next :: "address_v6 \<Rightarrow> address_v6 \<times> address_v6" where
  "v6_post_next a = (a, v6_next a)"

definition v6_post_prev :: "address_v6 \<Rightarrow> address_v6 \<times> address_v6" where
  "v6_post_prev a = (a, v6_prev a)"

record v6_range =
  v6_begin :: address_v6
  v6_end :: address_v6

definition v6_range_default :: v6_range where
  "v6_range_default = \<lparr>v6_begin = v6_default, v6_end = v6_default\<rparr>"

definition v6_range_empty :: "v6_range \<Rightarrow> bool" where
  "v6_range_empty r \<longleftrightarrow> v6_eq (v6_begin r) (v6_end r)"

definition v6_range_find :: "v6_range \<Rightarrow> address_v6 \<Rightarrow> address_v6" where
  "v6_range_find r addr =
     (if v6_greater_eq addr (v6_begin r) \<and> v6_less addr (v6_end r) then addr else v6_end r)"

section \<open>The number the bytes denote\<close>

fun byte_value :: "byte list \<Rightarrow> nat" where
  "byte_value [] = 0"
| "byte_value (b # bs) = unat b * 256 ^ length bs + byte_value bs"

definition v6_value :: "address_v6 \<Rightarrow> nat" where
  "v6_value a = byte_value (v6_addr a)"

definition v6_ok :: "address_v6 \<Rightarrow> bool" where
  "v6_ok a \<longleftrightarrow> length (v6_addr a) = 16"

lemma unat_byte: "unat (b :: byte) < 256"
  using unsigned_less [of b, where ?'a = nat] by simp

lemma byte_value_append: "byte_value (xs @ ys) = byte_value xs * 256 ^ length ys + byte_value ys"
  by (induction xs) (simp_all add: algebra_simps power_add)

lemma byte_value_less: "byte_value bs < 256 ^ length bs"
proof (induction bs)
  case (Cons b bs)
  have "unat b * 256 ^ length bs + byte_value bs < (unat b + 1) * 256 ^ length bs"
    using Cons by simp
  also have "\<dots> \<le> 256 * 256 ^ length bs"
    using unat_byte [of b] by (intro mult_le_mono1) simp
  finally show ?case by simp
qed simp

lemma memcmp_value:
  "length xs = length ys \<Longrightarrow> memcmp xs ys < 0 \<longleftrightarrow> byte_value xs < byte_value ys"
  "length xs = length ys \<Longrightarrow> memcmp xs ys > 0 \<longleftrightarrow> byte_value xs > byte_value ys"
  "length xs = length ys \<Longrightarrow> memcmp xs ys = 0 \<longleftrightarrow> xs = ys"
proof (induction xs ys rule: memcmp.induct)
  case (1 x xs y ys)
  have gap: "unat a * 256 ^ n + v < unat b * 256 ^ n + w" if "a < b" "v < 256 ^ n" for a b :: byte and n v w
  proof -
    have "unat a + 1 \<le> unat b"
      using that(1) by (simp add: word_less_nat_alt)
    then have "(unat a + 1) * 256 ^ n \<le> unat b * 256 ^ n"
      by (rule mult_le_mono1)
    with that(2) show ?thesis by simp
  qed
  { case 1
    then show ?case
      using "1.IH" gap [of x y "byte_value xs" "length xs" "byte_value ys"] gap [of y x "byte_value ys" "length ys" "byte_value xs"]
        byte_value_less [of xs] byte_value_less [of ys] by auto }
  { case 2
    then show ?case
      using "1.IH" gap [of x y "byte_value xs" "length xs" "byte_value ys"] gap [of y x "byte_value ys" "length ys" "byte_value xs"]
        byte_value_less [of xs] byte_value_less [of ys] by auto }
  { case 3
    then show ?case
      using "1.IH" by auto }
qed auto

lemma byte_value_inj: "length xs = length ys \<Longrightarrow> byte_value xs = byte_value ys \<longleftrightarrow> xs = ys"
  using memcmp_value [of xs ys] by (metis linorder_neq_iff)

lemma drop_update_here: "i < length bs \<Longrightarrow> drop i (bs[i := x]) = x # drop (Suc i) bs"
  by (metis Cons_nth_drop_Suc drop_update_cancel length_list_update lessI nth_list_update_eq)

text \<open>The increment adds one to the number of the first \<open>k\<close> bytes, modulo their range.\<close>

lemma incr_loop:
  "k \<le> length bs \<Longrightarrow> length (v6_incr_loop k bs) = length bs \<and> drop k (v6_incr_loop k bs) = drop k bs \<and>
     byte_value (take k (v6_incr_loop k bs)) = (byte_value (take k bs) + 1) mod 256 ^ k"
proof (induction k arbitrary: bs)
  case (Suc i)
  have t: "take (Suc i) bs = take i bs @ [bs ! i]"
    using Suc.prems by (simp add: take_Suc_conv_app_nth)
  show ?case
  proof (cases "bs ! i < 0xFF")
    case True
    then have "unat (bs ! i) < 255"
      by (simp add: word_less_nat_alt)
    then have u: "unat (bs ! i + 1) = unat (bs ! i) + 1"
      by (simp add: unat_word_ariths(1))
    have "byte_value (take (Suc i) (bs[i := bs ! i + 1])) = byte_value (take (Suc i) bs) + 1"
      using Suc.prems unfolding t by (simp add: take_Suc_conv_app_nth byte_value_append u)
    moreover have "length (take (Suc i) (bs[i := bs ! i + 1])) = Suc i"
      using Suc.prems by simp
    then have "byte_value (take (Suc i) (bs[i := bs ! i + 1])) < 256 ^ Suc i"
      using byte_value_less [of "take (Suc i) (bs[i := bs ! i + 1])"] by simp
    ultimately show ?thesis
      using True Suc.prems by (simp del: take_Suc)
  next
    case False
    then have b: "unat (bs ! i) = 255"
      using unat_byte [of "bs ! i"] by (simp add: word_less_nat_alt)
    let ?bs = "bs[i := 0]"
    from Suc.IH [of ?bs] Suc.prems have ih: "length (v6_incr_loop i ?bs) = length bs"
        "drop i (v6_incr_loop i ?bs) = drop i ?bs"
        "byte_value (take i (v6_incr_loop i ?bs)) = (byte_value (take i bs) + 1) mod 256 ^ i"
      by simp_all
    have d: "drop i ?bs = 0 # drop (Suc i) bs"
      using Suc.prems by (intro drop_update_here) simp
    have n: "v6_incr_loop i ?bs ! i = 0"
      using ih(1,2) d Suc.prems by (metis Cons_nth_drop_Suc Suc_le_lessD list.inject)
    have dS: "drop (Suc i) (v6_incr_loop i ?bs) = drop (Suc i) bs"
      using ih(2) d by (metis drop_Suc drop_tl list.sel(3))
    have "take (Suc i) (v6_incr_loop i ?bs) = take i (v6_incr_loop i ?bs) @ [0]"
      using ih(1) n Suc.prems by (simp add: take_Suc_conv_app_nth)
    then have "byte_value (take (Suc i) (v6_incr_loop i ?bs)) = ((byte_value (take i bs) + 1) mod 256 ^ i) * 256"
      by (simp add: byte_value_append ih(3))
    also have "\<dots> = ((byte_value (take i bs) + 1) * 256) mod (256 ^ Suc i)"
      unfolding power_Suc2 by (rule mod_mult_mult2 [symmetric])
    also have "(byte_value (take i bs) + 1) * 256 = byte_value (take (Suc i) bs) + 1"
      unfolding t by (simp add: byte_value_append b)
    finally show ?thesis
      using False ih(1) dS by simp
  qed
qed simp

lemma borrow: "v < M \<Longrightarrow> ((v + M - 1) mod M) * 256 + 255 = (v * 256 + M * 256 - 1) mod (M * 256)" for v M :: nat
proof (cases "v = 0")
  case True
  assume "v < M"
  then show ?thesis
    unfolding True by (simp add: diff_mult_distrib)
next
  case False
  assume m: "v < M"
  have "v + M - 1 = (v - 1) + M" "v * 256 + M * 256 - 1 = (v * 256 - 1) + M * 256"
    using False by simp_all
  moreover have "((v - 1) + M) mod M = v - 1" "((v * 256 - 1) + M * 256) mod (M * 256) = v * 256 - 1"
    using m by (simp_all only: mod_add_self2) (simp_all)
  ultimately show ?thesis
    using False by (simp add: diff_mult_distrib)
qed

lemma wrap_round: "v < M \<Longrightarrow> ((v + 1) mod M + (M - 1)) mod M = v" "v < M \<Longrightarrow> ((v + (M - 1)) mod M + 1) mod M = v"
  for v M :: nat
proof -
  assume m: "v < M"
  show "((v + 1) mod M + (M - 1)) mod M = v"
    using m by (cases "v + 1 = M") auto
  show "((v + (M - 1)) mod M + 1) mod M = v"
    using m by (simp add: mod_Suc_eq)
qed

lemma decr_loop:
  "k \<le> length bs \<Longrightarrow> length (v6_decr_loop k bs) = length bs \<and> drop k (v6_decr_loop k bs) = drop k bs \<and>
     byte_value (take k (v6_decr_loop k bs)) = (byte_value (take k bs) + 256 ^ k - 1) mod 256 ^ k"
proof (induction k arbitrary: bs)
  case (Suc i)
  have t: "take (Suc i) bs = take i bs @ [bs ! i]"
    using Suc.prems by (simp add: take_Suc_conv_app_nth)
  have l: "byte_value (take (Suc i) bs) < 256 ^ Suc i"
    using byte_value_less [of "take (Suc i) bs"] Suc.prems by (metis length_take min.absorb2)
  show ?case
  proof (cases "bs ! i > 0")
    case True
    then have p: "0 < unat (bs ! i)"
      by (simp add: word_less_nat_alt)
    then have u: "unat (bs ! i - 1) = unat (bs ! i) - 1"
      by (simp add: unat_sub word_le_nat_alt)
    have e: "byte_value (take (Suc i) (bs[i := bs ! i - 1])) = byte_value (take (Suc i) bs) - 1"
      using Suc.prems p unfolding t by (simp add: take_Suc_conv_app_nth byte_value_append u)
    have "0 < byte_value (take (Suc i) bs)"
      using p unfolding t by (simp add: byte_value_append)
    then have "byte_value (take (Suc i) bs) + 256 ^ Suc i - 1 = (byte_value (take (Suc i) bs) - 1) + 256 ^ Suc i"
      by (metis Nat.add_diff_assoc2 One_nat_def Suc_leI)
    then have "(byte_value (take (Suc i) bs) + 256 ^ Suc i - 1) mod 256 ^ Suc i = byte_value (take (Suc i) bs) - 1"
      by (simp only: mod_add_self2) (rule mod_less, rule less_imp_diff_less, rule l)
    moreover have "v6_decr_loop (Suc i) bs = bs[i := bs ! i - 1]"
      using True by simp
    moreover have "drop (Suc i) (bs[i := bs ! i - 1]) = drop (Suc i) bs"
      by (simp add: drop_update_cancel)
    ultimately show ?thesis
      by (simp only: e length_list_update simp_thms)
  next
    case False
    then have b: "unat (bs ! i) = 0"
      by (simp add: word_less_nat_alt)
    let ?bs = "bs[i := 0xFF]"
    from Suc.IH [of ?bs] Suc.prems have ih: "length (v6_decr_loop i ?bs) = length bs"
        "drop i (v6_decr_loop i ?bs) = drop i ?bs"
        "byte_value (take i (v6_decr_loop i ?bs)) = (byte_value (take i bs) + 256 ^ i - 1) mod 256 ^ i"
      by simp_all
    have d: "drop i ?bs = 0xFF # drop (Suc i) bs"
      using Suc.prems by (intro drop_update_here) simp
    have n: "v6_decr_loop i ?bs ! i = 0xFF"
      using ih(1,2) d Suc.prems by (metis Cons_nth_drop_Suc Suc_le_lessD list.inject)
    have dS: "drop (Suc i) (v6_decr_loop i ?bs) = drop (Suc i) bs"
      using ih(2) d by (metis drop_Suc drop_tl list.sel(3))
    let ?v = "byte_value (take i bs)" and ?M = "256 ^ i :: nat"
    have vl: "?v < ?M"
      using byte_value_less [of "take i bs"] Suc.prems by (metis Suc_leD length_take min.absorb2)
    have "take (Suc i) (v6_decr_loop i ?bs) = take i (v6_decr_loop i ?bs) @ [0xFF]"
      using ih(1) n Suc.prems by (simp add: take_Suc_conv_app_nth)
    then have "byte_value (take (Suc i) (v6_decr_loop i ?bs)) = ((?v + ?M - 1) mod ?M) * 256 + 255"
      by (simp add: byte_value_append ih(3))
    also have "\<dots> = (?v * 256 + ?M * 256 - 1) mod (?M * 256)"
      by (rule borrow [OF vl])
    also have "?v * 256 = byte_value (take (Suc i) bs)"
      unfolding t by (simp add: byte_value_append b)
    finally show ?thesis
      using False ih(1) dS by (simp add: mult.commute)
  qed
qed simp

lemma v6_next_value: "v6_ok a \<Longrightarrow> v6_ok (v6_next a) \<and> v6_value (v6_next a) = (v6_value a + 1) mod 2 ^ 128"
  using incr_loop [of 16 "v6_addr a"] by (auto simp: v6_ok_def v6_next_def v6_value_def)

lemma v6_prev_value: "v6_ok a \<Longrightarrow> v6_ok (v6_prev a) \<and> v6_value (v6_prev a) = (v6_value a + (2 ^ 128 - 1)) mod 2 ^ 128"
  using decr_loop [of 16 "v6_addr a"] by (auto simp: v6_ok_def v6_prev_def v6_value_def add.commute)

lemma v6_value_less: "v6_ok a \<Longrightarrow> v6_value a < 2 ^ 128"
  using byte_value_less [of "v6_addr a"] by (simp add: v6_ok_def v6_value_def)

lemma v6_value_inj: "v6_ok a \<Longrightarrow> v6_ok b \<Longrightarrow> v6_scope_id a = v6_scope_id b \<Longrightarrow> v6_value a = v6_value b \<longleftrightarrow> a = b"
  by (cases a; cases b) (auto simp: v6_ok_def v6_value_def byte_value_inj)

lemma v6_eq_iff: "v6_ok a \<Longrightarrow> v6_ok b \<Longrightarrow> v6_eq a b \<longleftrightarrow> a = b"
  by (cases a; cases b) (auto simp: v6_ok_def v6_eq_def memcmp_value(3))

lemma v6_less_iff: "v6_ok a \<Longrightarrow> v6_ok b \<Longrightarrow>
    v6_less a b \<longleftrightarrow> v6_value a < v6_value b \<or> (v6_value a = v6_value b \<and> v6_scope_id a < v6_scope_id b)"
  using memcmp_value [of "v6_addr a" "v6_addr b"] byte_value_inj [of "v6_addr a" "v6_addr b"]
  by (auto simp: v6_ok_def v6_value_def v6_less_def Let_def)

section \<open>Properties\<close>

text \<open>An IPv4 address mapped into IPv6 is recognised as mapped, and mapped back is the same address;
  an address that is not mapped is refused.\<close>

theorem v4_mapped_roundtrip:
  "v6_is_v4_mapped (make_address_v6_mapped a) \<and> make_address_v4_mapped (make_address_v6_mapped a) = Some a \<and>
   (make_address_v4_mapped b = None \<longleftrightarrow> \<not> v6_is_v4_mapped b)"
proof -
  obtain w x y z where "v4_to_bytes a = [w, x, y, z]"
    using list4 [OF v4_bytes_roundtrip(3)] by blast
  then have "make_address_v6_mapped a = v6_of_bytes [0, 0, 0, 0, 0, 0, 0, 0, 0, 0, 0xFF, 0xFF, w, x, y, z] 0"
      "a = v4_of_bytes [w, x, y, z]"
    by (simp_all add: make_address_v6_mapped_def) (metis v4_bytes_roundtrip(2))
  then show ?thesis
    by (simp add: make_address_v4_mapped_def v6_is_v4_mapped_def v6_of_bytes_def v6_to_bytes_def All_less_Suc numeral_eq_Suc)
qed

text \<open>Incrementing an IPv6 iterator adds one to the address as a 128-bit number, wrapping round at the
  end, and keeps the scope; decrementing is its inverse.\<close>

theorem v6_iterator_counts:
  assumes "v6_ok a"
  shows "v6_ok (v6_next a) \<and> v6_value (v6_next a) = (v6_value a + 1) mod 2 ^ 128 \<and>
    v6_scope_id (v6_next a) = v6_scope_id a \<and> v6_prev (v6_next a) = a \<and> v6_next (v6_prev a) = a"
proof -
  have sc: "v6_scope_id (v6_next x) = v6_scope_id x" "v6_scope_id (v6_prev x) = v6_scope_id x" for x
    by (simp_all add: v6_next_def v6_prev_def)
  note n = v6_next_value [OF assms] and p = v6_prev_value [OF assms]
  have "v6_value (v6_prev (v6_next a)) = ((v6_value a + 1) mod 2 ^ 128 + (2 ^ 128 - 1)) mod 2 ^ 128"
    using v6_prev_value [of "v6_next a"] n by simp
  also have "\<dots> = v6_value a"
    by (rule wrap_round(1) [OF v6_value_less [OF assms]])
  finally have a: "v6_prev (v6_next a) = a"
    using v6_value_inj [of "v6_prev (v6_next a)" a] v6_prev_value [of "v6_next a"] n assms sc by simp
  have "v6_value (v6_next (v6_prev a)) = ((v6_value a + (2 ^ 128 - 1)) mod 2 ^ 128 + 1) mod 2 ^ 128"
    using v6_next_value [of "v6_prev a"] p by simp
  also have "\<dots> = v6_value a"
    by (rule wrap_round(2) [OF v6_value_less [OF assms]])
  finally have "v6_next (v6_prev a) = a"
    using v6_value_inj [of "v6_next (v6_prev a)" a] v6_next_value [of "v6_prev a"] p assms sc by simp
  with a n sc show ?thesis by simp
qed

lemma replicate_16: "replicate 16 x = [x, x, x, x, x, x, x, x, x, x, x, x, x, x, x, x]"
  by (simp add: numeral_eq_Suc)

theorem v6_iterator_counts_witness:
  "v6_value (v6_next (v6_default\<lparr>v6_addr := replicate 16 0xFF\<rparr>)) = 0"
proof -
  have "v6_value (v6_default\<lparr>v6_addr := replicate 16 0xFF\<rparr>) = 2 ^ 128 - 1"
    by (simp add: v6_value_def replicate_16)
  with v6_iterator_counts [of "v6_default\<lparr>v6_addr := replicate 16 0xFF\<rparr>"] show ?thesis
    by (simp add: v6_ok_def)
qed

end
