(* ===== verification/NetworkV6.thy ===== *)
theory NetworkV6
  imports AddressV6
begin

text \<open>
  \<open>ip/network_v6.hpp\<close>, \<open>ip/impl/network_v6.ipp\<close>: an IPv6 address with a prefix length. The loops over
  the sixteen bytes are recursions over the rest of the bytes and the index of the first of them.
\<close>

record network_v6 =
  n6_address :: address_v6
  n6_prefix_length :: nat

definition n6_default :: network_v6 where
  "n6_default = \<lparr>n6_address = v6_default, n6_prefix_length = 0\<rparr>"

definition network_v6_of_prefix :: "address_v6 \<Rightarrow> nat \<Rightarrow> network_error + network_v6" where
  "network_v6_of_prefix addr prefix_len =
     (if prefix_len > 128 then Inl PrefixTooLarge
      else Inr \<lparr>n6_address = addr, n6_prefix_length = prefix_len\<rparr>)"

fun begin_loop :: "nat \<Rightarrow> nat \<Rightarrow> byte list \<Rightarrow> byte list" where
  "begin_loop p i [] = []"
| "begin_loop p i (b # bs) =
     (if p \<le> i * 8 then 0
      else if p < (i + 1) * 8 then ucast (and (ucast b) (drop_bit (p mod 8) (0xFF00 :: 32 word)))
      else b) # begin_loop p (i + 1) bs"

fun end_loop :: "nat \<Rightarrow> nat \<Rightarrow> byte list \<Rightarrow> byte list" where
  "end_loop p i [] = []"
| "end_loop p i (b # bs) =
     (if p \<le> i * 8 then 0xFF
      else if p < (i + 1) * 8 then ucast (or (ucast b) (drop_bit (p mod 8) (0xFF :: 32 word)))
      else b) # end_loop p (i + 1) bs"

definition n6_network :: "network_v6 \<Rightarrow> address_v6" where
  "n6_network net =
     v6_of_bytes (begin_loop (n6_prefix_length net) 0 (v6_to_bytes (n6_address net))) (v6_scope_id (n6_address net))"

definition n6_hosts :: "network_v6 \<Rightarrow> v6_range" where
  "n6_hosts net =
     (let begin_bytes = begin_loop (n6_prefix_length net) 0 (v6_to_bytes (n6_address net));
          end_bytes = end_loop (n6_prefix_length net) 0 (v6_to_bytes (n6_address net));
          sc = v6_scope_id (n6_address net)
      in \<lparr>v6_begin = v6_of_bytes begin_bytes sc, v6_end = v6_next (v6_of_bytes end_bytes sc)\<rparr>)"

definition n6_canonical :: "network_v6 \<Rightarrow> network_error + network_v6" where
  "n6_canonical net = network_v6_of_prefix (n6_network net) (n6_prefix_length net)"

definition n6_is_host :: "network_v6 \<Rightarrow> bool" where
  "n6_is_host net \<longleftrightarrow> n6_prefix_length net = 128"

definition n6_eq :: "network_v6 \<Rightarrow> network_v6 \<Rightarrow> bool" where
  "n6_eq a b \<longleftrightarrow> v6_eq (n6_address a) (n6_address b) \<and> n6_prefix_length a = n6_prefix_length b"

definition n6_is_subnet_of :: "network_v6 \<Rightarrow> network_v6 \<Rightarrow> network_error + bool" where
  "n6_is_subnet_of net other =
     (if n6_prefix_length other \<ge> n6_prefix_length net then Inr False
      else case network_v6_of_prefix (n6_address net) (n6_prefix_length other) of
        Inl e \<Rightarrow> Inl e
      | Inr me \<Rightarrow>
          (case n6_canonical other of
             Inl e \<Rightarrow> Inl e
           | Inr c1 \<Rightarrow> (case n6_canonical me of Inl e \<Rightarrow> Inl e | Inr c2 \<Rightarrow> Inr (n6_eq c1 c2))))"

definition n6_to_string :: "libc \<Rightarrow> network_v6 \<Rightarrow> error_code + string" where
  "n6_to_string C net =
     (case v6_to_string C (n6_address net) of
        Inl e \<Rightarrow> Inl e
      | Inr str \<Rightarrow> Inr (str @ ''/'' @ decimal (n6_prefix_length net)))"

definition make_network_v6 :: "libc \<Rightarrow> string \<Rightarrow> network_v6 \<times> error_code" where
  "make_network_v6 C str =
     (let before = takeWhile (\<lambda>c. c \<noteq> CHR ''/'') str;
          pos = length before
      in
        if pos = length str then (n6_default, basic_ec invalid_argument)
        else if pos = length str - 1 then (n6_default, basic_ec invalid_argument)
        else if \<exists>c \<in> set (drop (pos + 1) str). \<not> is_digit c then (n6_default, basic_ec invalid_argument)
        else
          let (addr, ec) = make_address_v6 C before in
          if ec_failed ec then (n6_default, ec)
          else
            let prefix_len = atoi (c_str (drop (pos + 1) str)) in
            if prefix_len < 0 \<or> prefix_len > 128 then (n6_default, basic_ec invalid_argument)
            else case network_v6_of_prefix addr (nat prefix_len) of
                   Inr net \<Rightarrow> (net, ec)
                 | Inl e \<Rightarrow> (n6_default, ec))"

definition make_network_v6_throws :: "libc \<Rightarrow> string \<Rightarrow> error_code + network_v6" where
  "make_network_v6_throws C str =
     (let (net, ec) = make_network_v6 C str
      in case throw_error ec of Inl e \<Rightarrow> Inl e | Inr _ \<Rightarrow> Inr net)"

section \<open>The bounds as numbers\<close>

lemma lengths_loops [simp]: "length (begin_loop p i bs) = length bs" "length (end_loop p i bs) = length bs"
  by (induction bs arbitrary: i) simp_all

text \<open>Clearing and setting the low \<open>k\<close> bits of a byte.\<close>

lemma byte_clear:
  fixes b :: byte
  assumes "k \<le> 8"
  shows "unat (ucast (and (ucast b) (drop_bit (8 - k) (0xFF00 :: 32 word))) :: byte) = unat b div 2 ^ k * 2 ^ k"
proof -
  have m: "(0xFF00 :: 32 word) = push_bit 8 (mask 8)"
    by (simp add: mask_eq_exp_minus_1)
  have "(ucast (and (ucast b) (drop_bit (8 - k) (0xFF00 :: 32 word))) :: byte) = push_bit k (drop_bit k b)"
    unfolding m using assms by (intro bit_word_eqI) (auto simp: bit_simps)
  moreover have "unat (push_bit k (drop_bit k b)) = push_bit k (drop_bit k (unat b))"
    by (rule bit_eqI) (auto simp: bit_simps bit_unsigned_iff dest: bit_imp_le_length)
  ultimately show ?thesis
    by (simp add: push_bit_eq_mult drop_bit_eq_div)
qed

lemma byte_fill:
  fixes b :: byte
  assumes "k \<le> 8"
  shows "unat (ucast (or (ucast b) (drop_bit (8 - k) (0xFF :: 32 word))) :: byte) = unat b div 2 ^ k * 2 ^ k + (2 ^ k - 1)"
proof -
  have m: "(0xFF :: 32 word) = mask 8"
    by (simp add: mask_eq_exp_minus_1)
  have "(ucast (or (ucast b) (drop_bit (8 - k) (0xFF :: 32 word))) :: byte) = or b (mask k)"
    unfolding m using assms by (intro bit_word_eqI) (auto simp: bit_simps)
  moreover have "unat (or b (mask k)) = or (push_bit k (drop_bit k (unat b))) (mask k)"
    using assms by (intro bit_eqI) (auto simp: bit_simps bit_unsigned_iff dest: bit_imp_le_length)
  moreover have "or (push_bit k x) (mask k) = push_bit k x + mask k" for x :: nat
    by (rule disjunctive_add [symmetric]) (auto simp: bit_simps)
  ultimately show ?thesis
    by (simp add: push_bit_eq_mult drop_bit_eq_div mask_eq_exp_minus_1)
qed

lemma floor_split:
  fixes x v k M :: nat
  assumes "v < M" "0 < k"
  shows "(x * M + v) div (k * M) * (k * M) = (x div k * k) * M"
proof -
  have "(x * M + v) div (k * M) = x div k"
    using assms by (simp add: div_mult2_eq mult.commute [of k M])
  then show ?thesis by simp
qed

lemma floor_keep:
  fixes x v h M :: nat
  assumes "h dvd M" "0 < h"
  shows "(x * M + v) div h * h = x * M + v div h * h"
proof -
  obtain d where "M = h * d"
    using assms(1) by blast
  then have "x * M + v = v + x * d * h"
    by (simp add: algebra_simps)
  then have "(x * M + v) div h = x * d + v div h"
    using assms(2) by (metis div_mult_self1 less_not_refl)
  with \<open>M = h * d\<close> show ?thesis by (simp add: algebra_simps)
qed

lemma loops_past:
  "p \<le> i * 8 \<Longrightarrow> byte_value (begin_loop p i bs) = 0 \<and> byte_value (end_loop p i bs) = 256 ^ length bs - 1"
proof (induction bs arbitrary: i)
  case (Cons b bs)
  have "byte_value (begin_loop p (i + 1) bs) = 0 \<and> byte_value (end_loop p (i + 1) bs) = 256 ^ length bs - 1"
    using Cons by simp
  then show ?case
    using Cons.prems by simp
qed simp

lemma loops_value:
  "i * 8 < p \<Longrightarrow> p \<le> 8 * (i + length bs) \<Longrightarrow> h = 2 ^ (8 * (i + length bs) - p) \<Longrightarrow>
     byte_value (begin_loop p i bs) = byte_value bs div h * h \<and>
     byte_value (end_loop p i bs) = byte_value bs div h * h + (h - 1)"
proof (induction bs arbitrary: i)
  case Nil
  then show ?case by simp
next
  case (Cons b bs)
  let ?M = "256 ^ length bs :: nat"
  have M: "?M = 2 ^ (8 * length bs)"
    by (simp add: power_mult)
  have vl: "byte_value bs < ?M"
    by (rule byte_value_less)
  show ?case
  proof (cases "p < (i + 1) * 8")
    case True
    define k where "k = (i + 1) * 8 - p"
    have k: "k \<le> 8" "p mod 8 = 8 - k" "0 < k"
    proof -
      obtain r where r: "p = i * 8 + r" "0 < r"
        using Cons.prems(1) less_imp_add_positive by blast
      with True have "k = 8 - r" "r < 8"
        by (simp_all add: k_def)
      with r show "k \<le> 8" "p mod 8 = 8 - k" "0 < k" by simp_all
    qed
    have h: "h = 2 ^ k * ?M"
      using True Cons.prems(3) unfolding M k_def by (simp add: power_add [symmetric] algebra_simps)
    have t: "byte_value (begin_loop p (Suc i) bs) = 0" "byte_value (end_loop p (Suc i) bs) = ?M - 1"
      using loops_past [of p "Suc i" bs] True by simp_all
    have f: "byte_value (b # bs) div h * h = unat b div 2 ^ k * 2 ^ k * ?M"
      unfolding h byte_value.simps by (rule floor_split [OF vl]) simp
    have "byte_value (begin_loop p i (b # bs)) = unat b div 2 ^ k * 2 ^ k * ?M"
      using True Cons.prems(1) byte_clear [OF k(1), of b] by (simp add: t k(2))
    moreover have "byte_value (end_loop p i (b # bs)) = (unat b div 2 ^ k * 2 ^ k + (2 ^ k - 1)) * ?M + (?M - 1)"
      using True Cons.prems(1) byte_fill [OF k(1), of b] by (simp add: t k(2))
    moreover have "(2 ^ k - 1) * ?M + (?M - 1) = h - 1"
    proof -
      have "1 \<le> ?M" "?M \<le> 2 ^ k * ?M" by simp_all
      then show ?thesis
        unfolding h by (simp add: diff_mult_distrib)
    qed
    ultimately show ?thesis
      unfolding f by (simp only: add_mult_distrib add.assoc simp_thms)
  next
    case False
    have keep: "byte_value (b # bs) div h * h = unat b * ?M + byte_value bs div h * h"
    proof -
      have "h dvd ?M"
        using False unfolding M Cons.prems(3) by (intro le_imp_power_dvd) simp
      then show ?thesis
        using Cons.prems(3) by (simp add: floor_keep)
    qed
    show ?thesis
    proof (cases "p = (i + 1) * 8")
      case True
      then have "h = ?M"
        using Cons.prems(3) unfolding M by simp
      with True keep show ?thesis
        using loops_past [of p "i + 1" bs] vl by simp
    next
      case neq: False
      have "byte_value (begin_loop p (i + 1) bs) = byte_value bs div h * h \<and>
          byte_value (end_loop p (i + 1) bs) = byte_value bs div h * h + (h - 1)"
        using False neq Cons.prems by (intro Cons.IH) simp_all
      then show ?thesis
        using False Cons.prems(1) keep by simp
    qed
  qed
qed

section \<open>Networks as intervals\<close>

definition n6_ok :: "network_v6 \<Rightarrow> bool" where
  "n6_ok net \<longleftrightarrow> v6_ok (n6_address net) \<and> n6_prefix_length net \<le> 128"

definition n6_count :: "network_v6 \<Rightarrow> nat" where
  "n6_count net = 2 ^ (128 - n6_prefix_length net)"

definition n6_low :: "network_v6 \<Rightarrow> nat" where
  "n6_low net = v6_value (n6_address net) div n6_count net * n6_count net"

definition n6_last :: "network_v6 \<Rightarrow> address_v6" where
  "n6_last net = v6_of_bytes (end_loop (n6_prefix_length net) 0 (v6_to_bytes (n6_address net))) (v6_scope_id (n6_address net))"

lemma n6_bounds:
  assumes "n6_ok net"
  shows "v6_ok (n6_network net) \<and> v6_value (n6_network net) = n6_low net \<and>
    v6_ok (n6_last net) \<and> v6_value (n6_last net) = n6_low net + (n6_count net - 1)"
proof -
  let ?bs = "v6_addr (n6_address net)" and ?p = "n6_prefix_length net"
  have l: "length ?bs = 16" "?p \<le> 128"
    using assms by (simp_all add: n6_ok_def v6_ok_def)
  have "byte_value (begin_loop ?p 0 ?bs) = byte_value ?bs div n6_count net * n6_count net \<and>
      byte_value (end_loop ?p 0 ?bs) = byte_value ?bs div n6_count net * n6_count net + (n6_count net - 1)"
  proof (cases "?p = 0")
    case True
    have "byte_value ?bs < 256 ^ 16"
      using byte_value_less [of ?bs] by (simp only: l)
    moreover have "n6_count net = 256 ^ 16"
      using True by (simp add: n6_count_def)
    ultimately show ?thesis
      using loops_past [of ?p 0 ?bs] True l by simp
  next
    case False
    then show ?thesis
      using l by (intro loops_value) (simp_all add: n6_count_def)
  qed
  then show ?thesis
    using l by (simp add: n6_network_def n6_last_def n6_low_def v6_of_bytes_def v6_to_bytes_def v6_ok_def v6_value_def)
qed

lemma n6_low_bound: "n6_ok net \<Longrightarrow> n6_low net + n6_count net \<le> 2 ^ 128"
  using n6_bounds [of net] v6_value_less [of "n6_last net"] by (simp add: n6_count_def)

text \<open>\<open>network()\<close> clears the host bits of an IPv6 network and keeps the scope, and \<open>hosts()\<close> begins
  there and ends one past the last address of the network, modulo the number of addresses.\<close>

theorem network_v6_bounds:
  assumes "v6_ok (n6_address net)" and "n6_prefix_length net \<le> 128"
  shows "v6_value (n6_network net) =
      v6_value (n6_address net) div 2 ^ (128 - n6_prefix_length net) * 2 ^ (128 - n6_prefix_length net) \<and>
    v6_scope_id (n6_network net) = v6_scope_id (n6_address net) \<and>
    v6_begin (n6_hosts net) = n6_network net \<and>
    v6_value (v6_end (n6_hosts net)) = (v6_value (n6_network net) + 2 ^ (128 - n6_prefix_length net)) mod 2 ^ 128"
proof -
  have ok: "n6_ok net" using assms by (simp add: n6_ok_def)
  have e: "v6_begin (n6_hosts net) = n6_network net" "v6_end (n6_hosts net) = v6_next (n6_last net)"
    by (simp_all add: n6_hosts_def n6_network_def n6_last_def Let_def)
  have "0 < n6_count net" by (simp add: n6_count_def)
  then have "v6_value (v6_end (n6_hosts net)) = (n6_low net + n6_count net) mod 2 ^ 128"
    using n6_bounds [OF ok] v6_next_value [of "n6_last net"] unfolding e by simp
  then show ?thesis
    using n6_bounds [OF ok] e(1) by (simp add: n6_low_def n6_count_def n6_network_def v6_of_bytes_def)
qed

theorem network_v6_bounds_witness:
  "v6_value (v6_end (n6_hosts \<lparr>n6_address = v6_loopback, n6_prefix_length = 127\<rparr>)) = 2"
proof -
  have "v6_value v6_loopback = 1" "v6_ok v6_loopback"
    by (simp_all add: v6_value_def v6_loopback_def v6_default_def replicate_16 v6_ok_def)
  with network_v6_bounds [of "\<lparr>n6_address = v6_loopback, n6_prefix_length = 127\<rparr>"] show ?thesis
    by simp
qed

text \<open>The range \<open>hosts()\<close> of a network at the end of the address space wraps round: for the network of
  all addresses it is empty, and for every such network \<open>find\<close> never finds an address.\<close>

theorem hosts_v6_wraps:
  assumes "v6_ok (n6_address net)" and "n6_prefix_length net \<le> 128"
    and "v6_value (n6_network net) + 2 ^ (128 - n6_prefix_length net) = 2 ^ 128"
    and "v6_ok a" and "v6_scope_id (n6_address net) = 0"
  shows "v6_range_find (n6_hosts net) a = v6_end (n6_hosts net) \<and>
    (v6_range_empty (n6_hosts net) \<longleftrightarrow> n6_prefix_length net = 0)"
proof -
  have ok: "n6_ok net" using assms by (simp add: n6_ok_def)
  have e: "v6_begin (n6_hosts net) = n6_network net" "v6_end (n6_hosts net) = v6_next (n6_last net)"
    by (simp_all add: n6_hosts_def n6_network_def n6_last_def Let_def)
  have sc: "v6_scope_id (n6_network net) = 0" "v6_scope_id (v6_next (n6_last net)) = 0"
    using assms(5) by (simp_all add: n6_network_def n6_last_def v6_next_def v6_of_bytes_def)
  have z: "v6_ok (v6_next (n6_last net))" "v6_value (v6_next (n6_last net)) = 0"
    using n6_bounds [OF ok] v6_next_value [of "n6_last net"] assms(3) by (simp_all add: n6_count_def)
  have "\<not> v6_less a (v6_next (n6_last net))"
    using v6_less_iff [OF assms(4) z(1)] z(2) sc(2) by simp
  moreover have "v6_eq (n6_network net) (v6_next (n6_last net)) \<longleftrightarrow> v6_value (n6_network net) = 0"
    using n6_bounds [OF ok] z sc by (simp add: v6_eq_iff flip: v6_value_inj)
  moreover have "v6_value (n6_network net) = 0 \<longleftrightarrow> n6_prefix_length net = 0"
  proof -
    have "(2 :: nat) ^ (128 - n6_prefix_length net) = 2 ^ 128 \<longleftrightarrow> 128 - n6_prefix_length net = 128"
      by (rule power_inject_exp) simp
    then show ?thesis
      using assms(2,3) by auto
  qed
  ultimately show ?thesis
    by (simp add: v6_range_find_def v6_range_empty_def e)
qed

theorem hosts_v6_wraps_witness:
  "v6_range_empty (n6_hosts \<lparr>n6_address = v6_default, n6_prefix_length = 0\<rparr>)"
proof -
  have "v6_ok v6_default" "v6_value v6_default = 0"
    by (simp_all add: v6_ok_def v6_value_def v6_default_def replicate_16)
  moreover have "v6_value (n6_network \<lparr>n6_address = v6_default, n6_prefix_length = 0\<rparr>) = 0"
    by (simp add: n6_network_def v6_value_def v6_of_bytes_def v6_to_bytes_def v6_default_def replicate_16)
  ultimately show ?thesis
    using hosts_v6_wraps [of "\<lparr>n6_address = v6_default, n6_prefix_length = 0\<rparr>" v6_default] by (simp add: v6_default_def)
qed

end
