(* ===== verification/Endpoint.thy ===== *)
theory Endpoint
  imports NetworkV6 "HOL-Library.Product_Lexorder"
begin

text \<open>
  \<open>ip/address.hpp\<close>, \<open>ip/impl/address.ipp\<close>, \<open>ip/detail/endpoint.hpp\<close>, \<open>ip/detail/impl/endpoint.ipp\<close>:
  an address of either family, and an endpoint, the union of the two socket address structures. The
  union is a datatype whose constructor is its family.
\<close>

datatype addr_type = Ipv4 | Ipv6

text \<open>The order of the enumeration.\<close>

instantiation addr_type :: linorder
begin

definition less_eq_addr_type :: "addr_type \<Rightarrow> addr_type \<Rightarrow> bool" where
  "less_eq_addr_type a b \<longleftrightarrow> a = Ipv4 \<or> b = Ipv6"

definition less_addr_type :: "addr_type \<Rightarrow> addr_type \<Rightarrow> bool" where
  "less_addr_type a b \<longleftrightarrow> a = Ipv4 \<and> b = Ipv6"

instance
proof
  fix x y z :: addr_type
  show "x < y \<longleftrightarrow> x \<le> y \<and> \<not> y \<le> x" "x \<le> x" "x \<le> y \<or> y \<le> x"
    by (cases x; cases y; simp add: less_eq_addr_type_def less_addr_type_def)+
  show "x \<le> z" if "x \<le> y" "y \<le> z"
    using that by (cases x; cases y; cases z; simp add: less_eq_addr_type_def)
  show "x = y" if "x \<le> y" "y \<le> x"
    using that by (cases x; cases y; simp add: less_eq_addr_type_def)
qed

end

record address =
  a_type :: addr_type
  a_v4 :: address_v4
  a_v6 :: address_v6

definition address_default :: address where
  "address_default = \<lparr>a_type = Ipv4, a_v4 = v4_default, a_v6 = v6_default\<rparr>"

definition address_of_v4 :: "address_v4 \<Rightarrow> address" where
  "address_of_v4 a = \<lparr>a_type = Ipv4, a_v4 = a, a_v6 = v6_default\<rparr>"

definition address_of_v6 :: "address_v6 \<Rightarrow> address" where
  "address_of_v6 a = \<lparr>a_type = Ipv6, a_v4 = v4_default, a_v6 = a\<rparr>"

definition assign_v4 :: "address \<Rightarrow> address_v4 \<Rightarrow> address" where
  "assign_v4 x a = x\<lparr>a_type := Ipv4, a_v4 := a, a_v6 := v6_default\<rparr>"

definition assign_v6 :: "address \<Rightarrow> address_v6 \<Rightarrow> address" where
  "assign_v6 x a = x\<lparr>a_type := Ipv6, a_v4 := v4_default, a_v6 := a\<rparr>"

definition make_address :: "libc \<Rightarrow> string \<Rightarrow> address \<times> error_code" where
  "make_address C str =
     (let (ipv6, ec) = make_address_v6 C str in
      if \<not> ec_failed ec then (address_of_v6 ipv6, ec)
      else
        let (ipv4, ec) = make_address_v4 C str in
        if \<not> ec_failed ec then (address_of_v4 ipv4, ec)
        else (address_default, ec))"

definition make_address_throws :: "libc \<Rightarrow> string \<Rightarrow> error_code + address" where
  "make_address_throws C str =
     (let (addr, ec) = make_address C str
      in case throw_error ec of Inl e \<Rightarrow> Inl e | Inr _ \<Rightarrow> Inr addr)"

text \<open>\<open>bad_address_cast\<close> is None.\<close>

definition address_to_v4 :: "address \<Rightarrow> address_v4 option" where
  "address_to_v4 a = (if a_type a \<noteq> Ipv4 then None else Some (a_v4 a))"

definition address_to_v6 :: "address \<Rightarrow> address_v6 option" where
  "address_to_v6 a = (if a_type a \<noteq> Ipv6 then None else Some (a_v6 a))"

definition address_to_string :: "libc \<Rightarrow> address \<Rightarrow> error_code + string" where
  "address_to_string C a = (if a_type a = Ipv6 then v6_to_string C (a_v6 a) else v4_to_string C (a_v4 a))"

definition address_is_loopback :: "address \<Rightarrow> bool" where
  "address_is_loopback a \<longleftrightarrow> (if a_type a = Ipv4 then v4_is_loopback (a_v4 a) else v6_is_loopback (a_v6 a))"

definition address_is_unspecified :: "address \<Rightarrow> bool" where
  "address_is_unspecified a \<longleftrightarrow> (if a_type a = Ipv4 then v4_is_unspecified (a_v4 a) else v6_is_unspecified (a_v6 a))"

definition address_is_multicast :: "address \<Rightarrow> bool" where
  "address_is_multicast a \<longleftrightarrow> (if a_type a = Ipv4 then v4_is_multicast (a_v4 a) else v6_is_multicast (a_v6 a))"

definition address_eq :: "address \<Rightarrow> address \<Rightarrow> bool" where
  "address_eq a1 a2 \<longleftrightarrow>
     (if a_type a1 \<noteq> a_type a2 then False
      else if a_type a1 = Ipv6 then v6_eq (a_v6 a1) (a_v6 a2)
      else v4_eq (a_v4 a1) (a_v4 a2))"

definition address_less :: "address \<Rightarrow> address \<Rightarrow> bool" where
  "address_less a1 a2 \<longleftrightarrow>
     (if a_type a1 < a_type a2 then True
      else if a_type a1 > a_type a2 then False
      else if a_type a1 = Ipv6 then v6_less (a_v6 a1) (a_v6 a2)
      else v4_less (a_v4 a1) (a_v4 a2))"

section \<open>Endpoints\<close>

record sockaddr_in =
  sin_port :: "16 word"
  sin_addr :: "32 word"

record sockaddr_in6 =
  sin6_port :: "16 word"
  sin6_flowinfo :: "32 word"
  sin6_addr :: "byte list"
  sin6_scope_id :: "32 word"

datatype endpoint = Ep4 sockaddr_in | Ep6 sockaddr_in6

definition sockaddr_storage_size :: nat where "sockaddr_storage_size = 128"

definition endpoint_default :: endpoint where
  "endpoint_default = Ep4 \<lparr>sin_port = 0, sin_addr = 0\<rparr>"

definition endpoint_of_family :: "int \<Rightarrow> 16 word \<Rightarrow> endpoint" where
  "endpoint_of_family family port_num =
     (if family = AF_INET then Ep4 \<lparr>sin_port = host_to_network_short port_num, sin_addr = 0\<rparr>
      else Ep6 \<lparr>sin6_port = host_to_network_short port_num, sin6_flowinfo = 0,
                sin6_addr = replicate 16 0, sin6_scope_id = 0\<rparr>)"

definition endpoint_of_address :: "address \<Rightarrow> 16 word \<Rightarrow> endpoint" where
  "endpoint_of_address addr port_num =
     (if a_type addr = Ipv4
      then Ep4 \<lparr>sin_port = host_to_network_short port_num,
                sin_addr = host_to_network_long (v4_to_uint (a_v4 addr))\<rparr>
      else Ep6 \<lparr>sin6_port = host_to_network_short port_num, sin6_flowinfo = 0,
                sin6_addr = v6_to_bytes (a_v6 addr), sin6_scope_id = ucast (v6_scope_id (a_v6 addr))\<rparr>)"

definition endpoint_is_v4 :: "endpoint \<Rightarrow> bool" where
  "endpoint_is_v4 e \<longleftrightarrow> (case e of Ep4 _ \<Rightarrow> True | Ep6 _ \<Rightarrow> False)"

definition endpoint_resize :: "nat \<Rightarrow> error_code + unit" where
  "endpoint_resize new_size =
     (if new_size > sockaddr_storage_size then throw_error (basic_ec invalid_argument) else Inr ())"

definition endpoint_size :: "endpoint \<Rightarrow> nat" where
  "endpoint_size e = (if endpoint_is_v4 e then 16 else 28)"

fun endpoint_port :: "endpoint \<Rightarrow> 16 word" where
  "endpoint_port (Ep4 d) = network_to_host_short (sin_port d)"
| "endpoint_port (Ep6 d) = network_to_host_short (sin6_port d)"

fun endpoint_set_port :: "endpoint \<Rightarrow> 16 word \<Rightarrow> endpoint" where
  "endpoint_set_port (Ep4 d) port_num = Ep4 (d\<lparr>sin_port := host_to_network_short port_num\<rparr>)"
| "endpoint_set_port (Ep6 d) port_num = Ep6 (d\<lparr>sin6_port := host_to_network_short port_num\<rparr>)"

fun endpoint_address :: "endpoint \<Rightarrow> address" where
  "endpoint_address (Ep4 d) = address_of_v4 (v4_of_uint (network_to_host_long (sin_addr d)))"
| "endpoint_address (Ep6 d) = address_of_v6 (v6_of_bytes (sin6_addr d) (ucast (sin6_scope_id d)))"

definition endpoint_set_address :: "endpoint \<Rightarrow> address \<Rightarrow> endpoint" where
  "endpoint_set_address e addr = endpoint_of_address addr (endpoint_port e)"

definition endpoint_eq :: "endpoint \<Rightarrow> endpoint \<Rightarrow> bool" where
  "endpoint_eq e1 e2 \<longleftrightarrow> address_eq (endpoint_address e1) (endpoint_address e2) \<and> endpoint_port e1 = endpoint_port e2"

definition endpoint_less :: "endpoint \<Rightarrow> endpoint \<Rightarrow> bool" where
  "endpoint_less e1 e2 \<longleftrightarrow>
     (if address_less (endpoint_address e1) (endpoint_address e2) then True
      else if \<not> address_eq (endpoint_address e1) (endpoint_address e2) then False
      else endpoint_port e1 < endpoint_port e2)"

definition endpoint_to_string :: "libc \<Rightarrow> endpoint \<Rightarrow> error_code + string" where
  "endpoint_to_string C e =
     (case address_to_string C (endpoint_address e) of
        Inl ec \<Rightarrow> Inl ec
      | Inr str \<Rightarrow>
          Inr ((if endpoint_is_v4 e then str else ''['' @ str @ '']'') @ '':'' @ decimal (unat (endpoint_port e))))"

section \<open>Properties\<close>

text \<open>An address as the constructors leave it: the member of the other family is the default one.\<close>

definition address_ok :: "address \<Rightarrow> bool" where
  "address_ok a \<longleftrightarrow> (case a_type a of Ipv4 \<Rightarrow> a_v6 a = v6_default | Ipv6 \<Rightarrow> a_v4 a = v4_default \<and> v6_ok (a_v6 a))"

fun endpoint_ok :: "endpoint \<Rightarrow> bool" where
  "endpoint_ok (Ep4 d) \<longleftrightarrow> True"
| "endpoint_ok (Ep6 d) \<longleftrightarrow> length (sin6_addr d) = 16"

lemma endpoint_address_ok: "endpoint_ok e \<Longrightarrow> address_ok (endpoint_address e)"
  by (cases e) (simp_all add: address_ok_def address_of_v4_def address_of_v6_def v6_of_bytes_def v6_ok_def)

lemma address_eq_iff: "address_ok a \<Longrightarrow> address_ok b \<Longrightarrow> address_eq a b \<longleftrightarrow> a = b"
  by (cases a; cases b) (auto simp: address_ok_def address_eq_def v4_eq_iff(1) v6_eq_iff split: addr_type.splits)

text \<open>The key an address is ordered by.\<close>

definition address_key :: "address \<Rightarrow> nat \<times> nat \<times> nat" where
  "address_key a = (case a_type a of Ipv4 \<Rightarrow> (0, unat (v4_to_uint (a_v4 a)), 0)
     | Ipv6 \<Rightarrow> (1, v6_value (a_v6 a), unat (v6_scope_id (a_v6 a))))"

lemma address_less_key: "address_ok a \<Longrightarrow> address_ok b \<Longrightarrow> address_less a b \<longleftrightarrow> address_key a < address_key b"
  by (auto simp: address_ok_def address_less_def address_key_def less_addr_type_def v4_less_def word_less_nat_alt
      v6_less_iff split: addr_type.splits)

lemma address_key_inj: "address_ok a \<Longrightarrow> address_ok b \<Longrightarrow> address_key a = address_key b \<Longrightarrow> a = b"
  by (cases a; cases b) (auto simp: address_ok_def address_key_def v4_eq_iff(2) v6_value_inj word_unat_eq_iff [symmetric]
      split: addr_type.splits)

text \<open>An endpoint built from an address and a port gives both back; of an IPv6 scope it keeps the low
  32 bits only. Setting the port keeps the address and the other way round.\<close>

theorem endpoint_roundtrip:
  assumes "address_ok a"
  shows "endpoint_port (endpoint_of_address a p) = p \<and>
    endpoint_address (endpoint_of_address a p) =
      (if a_type a = Ipv4 then a
       else a\<lparr>a_v6 := v6_set_scope_id (ucast (ucast (v6_scope_id (a_v6 a)) :: 32 word)) (a_v6 a)\<rparr>) \<and>
    endpoint_address (endpoint_set_port e q) = endpoint_address e \<and> endpoint_port (endpoint_set_port e q) = q \<and>
    endpoint_port (endpoint_set_address e a) = endpoint_port e"
proof -
  have "endpoint_address (endpoint_of_address a p) =
      (if a_type a = Ipv4 then a else a\<lparr>a_v6 := v6_set_scope_id (ucast (ucast (v6_scope_id (a_v6 a)) :: 32 word)) (a_v6 a)\<rparr>)"
    using assms by (cases a) (auto simp: address_ok_def endpoint_of_address_def address_of_v4_def address_of_v6_def
        v6_of_bytes_def v6_to_bytes_def v6_set_scope_id_def v6_ok_def split: addr_type.splits)
  moreover have "endpoint_port (endpoint_of_address b q) = q" for b q
    by (simp add: endpoint_of_address_def)
  ultimately show ?thesis
    by (cases e) (simp_all add: endpoint_set_address_def)
qed

theorem endpoint_roundtrip_witness:
  "endpoint_address (endpoint_of_address (address_of_v6 v6_loopback) 80) = address_of_v6 v6_loopback"
  using endpoint_roundtrip [of "address_of_v6 v6_loopback" 80 endpoint_default 0]
  by (simp add: address_ok_def address_of_v6_def v6_ok_def v6_loopback_def v6_default_def v6_set_scope_id_def)

definition endpoint_key :: "endpoint \<Rightarrow> (nat \<times> nat \<times> nat) \<times> nat" where
  "endpoint_key e = (address_key (endpoint_address e), unat (endpoint_port e))"

lemma endpoint_order_key:
  assumes "endpoint_ok x" and "endpoint_ok y"
  shows "endpoint_less x y \<longleftrightarrow> endpoint_key x < endpoint_key y" "endpoint_eq x y \<longleftrightarrow> endpoint_key x = endpoint_key y"
proof -
  let ?a = "endpoint_address x" and ?b = "endpoint_address y"
  have ok: "address_ok ?a" "address_ok ?b"
    using assms endpoint_address_ok by auto
  have e: "address_eq ?a ?b \<longleftrightarrow> address_key ?a = address_key ?b"
    using address_eq_iff [OF ok] address_key_inj [OF ok] by auto
  show "endpoint_less x y \<longleftrightarrow> endpoint_key x < endpoint_key y"
    unfolding endpoint_less_def e address_less_key [OF ok] endpoint_key_def less_prod_simp
    by (auto simp: word_less_nat_alt)
  show "endpoint_eq x y \<longleftrightarrow> endpoint_key x = endpoint_key y"
    by (simp add: endpoint_eq_def e endpoint_key_def word_unat_eq_iff)
qed

lemma strict_total: "(x < y \<longrightarrow> x \<noteq> y \<and> \<not> y < x) \<and> (x < y \<or> x = y \<or> y < x) \<and> (x < y \<and> y < z \<longrightarrow> x < z)"
  for x y z :: "'a :: linorder"
  by auto

text \<open>C10. The order of endpoints is a strict total order that agrees with their equality: of two
  endpoints exactly one is less than, equal to or greater than the other, and \<open>less\<close> is transitive.\<close>

theorem endpoint_order:
  assumes "endpoint_ok x" and "endpoint_ok y" and "endpoint_ok z"
  shows "(endpoint_less x y \<longrightarrow> \<not> endpoint_eq x y \<and> \<not> endpoint_less y x) \<and>
    (endpoint_less x y \<or> endpoint_eq x y \<or> endpoint_less y x) \<and>
    (endpoint_less x y \<and> endpoint_less y z \<longrightarrow> endpoint_less x z)"
  unfolding endpoint_order_key [OF assms(1,2)] endpoint_order_key [OF assms(2,1)] endpoint_order_key [OF assms(2,3)]
    endpoint_order_key [OF assms(1,3)]
  by (rule strict_total)

theorem endpoint_order_witness:
  "\<not> endpoint_less (Ep4 \<lparr>sin_port = 0x5000, sin_addr = 0\<rparr>) (Ep4 \<lparr>sin_port = 0x4F00, sin_addr = 0\<rparr>)"
proof -
  have "endpoint_less (Ep4 \<lparr>sin_port = 0x4F00, sin_addr = 0\<rparr>) (Ep4 \<lparr>sin_port = 0x5000, sin_addr = 0\<rparr>)"
    by code_simp
  with endpoint_order [of "Ep4 \<lparr>sin_port = 0x4F00, sin_addr = 0\<rparr>" "Ep4 \<lparr>sin_port = 0x5000, sin_addr = 0\<rparr>" endpoint_default]
  show ?thesis
    by (simp only: endpoint_ok.simps endpoint_default_def simp_thms)
qed

end
