(* ===== verification/SocketOps.thy ===== *)
theory SocketOps
  imports ComposedTransfer "HOL-Library.Signed_Division"
begin

unbundle bit_operations_syntax

text \<open>
  \<open>include/asio/network/socket_ops.ipp\<close>, as it is compiled for Linux: the wrappers of the socket
  system calls and the blocking and non-blocking operations built from them. The kernel is a
  parameter: a record of its calls, from the kernel's state (with the process's memory) to the new
  state, the result and the value of \<open>errno\<close> afterwards. Buffers handed to the kernel are the
  \<open>iovec\<close>s of a \<open>buf\<close> list, socket addresses are pointers to memory with a length, option values are
  their bytes, least significant first. The \<open>errno\<close> before a call is not an argument, since the code
  clears it. Loops that retry are partial functions.
\<close>

section \<open>Types and constants\<close>

type_synonym sock = int
type_synonym sock_state = "8 word"

definition invalid_socket :: sock where "invalid_socket = - 1"
definition socket_error_retval :: int where "socket_error_retval = - 1"

definition user_set_non_blocking :: sock_state where "user_set_non_blocking = 1"
definition internal_non_blocking :: sock_state where "internal_non_blocking = 2"
definition non_blocking :: sock_state where "non_blocking = user_set_non_blocking OR internal_non_blocking"
definition enable_connection_aborted :: sock_state where "enable_connection_aborted = 4"
definition user_set_linger :: sock_state where "user_set_linger = 8"
definition stream_oriented :: sock_state where "stream_oriented = 16"
definition datagram_oriented :: sock_state where "datagram_oriented = 32"
definition possible_dup :: sock_state where "possible_dup = 64"

abbreviation has :: "sock_state \<Rightarrow> sock_state \<Rightarrow> bool" where
  "has st flag \<equiv> st AND flag \<noteq> 0"

text \<open>Numbers from the Linux headers.\<close>

definition EPROTO :: int where "EPROTO = 71"
definition ENOTTY :: int where "ENOTTY = 25"
definition FIONBIO :: int where "FIONBIO = 0x5421"
definition FIONREAD :: int where "FIONREAD = 0x541B"
definition SIOCATMARK :: int where "SIOCATMARK = 0x8905"
definition SOL_SOCKET :: int where "SOL_SOCKET = 1"
definition SO_ERROR :: int where "SO_ERROR = 4"
definition SO_SNDBUF :: int where "SO_SNDBUF = 7"
definition SO_RCVBUF :: int where "SO_RCVBUF = 8"
definition SO_LINGER :: int where "SO_LINGER = 13"
definition MSG_NOSIGNAL :: "32 word" where "MSG_NOSIGNAL = 0x4000"
definition POLLIN :: "16 word" where "POLLIN = 0x001"
definition POLLPRI :: "16 word" where "POLLPRI = 0x002"
definition POLLOUT :: "16 word" where "POLLOUT = 0x004"
definition POLLERR :: "16 word" where "POLLERR = 0x008"
definition POLLHUP :: "16 word" where "POLLHUP = 0x010"

definition custom_socket_option_level :: int where "custom_socket_option_level = 0xA5100000 - 2 ^ 32"
definition enable_connection_aborted_option :: int where "enable_connection_aborted_option = 1"
definition always_fail_option :: int where "always_fail_option = 2"

text \<open>An \<open>int\<close> in the bytes of an option value.\<close>

definition put_int :: "int \<Rightarrow> 8 word list" where
  "put_int v = map (\<lambda>i. word_of_int (v div 256 ^ i)) [0, 1, 2, 3]"

definition get_int :: "8 word list \<Rightarrow> int" where
  "get_int bs = signed_take_bit 31 (foldr (\<lambda>b v. uint b + 256 * v) (take 4 bs) 0)"

text \<open>The calls of the kernel. A call with a pointer it may write through has the place as argument,
  or the bytes there, and then the new bytes in its result.\<close>

record 'w kernel =
  k_accept :: "sock \<Rightarrow> nat option \<Rightarrow> nat \<Rightarrow> 'w \<Rightarrow> 'w \<times> int \<times> int \<times> nat"
  k_bind :: "sock \<Rightarrow> nat \<Rightarrow> nat \<Rightarrow> 'w \<Rightarrow> 'w \<times> int \<times> int"
  k_close :: "sock \<Rightarrow> 'w \<Rightarrow> 'w \<times> int \<times> int"
  k_ioctl :: "sock \<Rightarrow> int \<Rightarrow> int \<Rightarrow> 'w \<Rightarrow> 'w \<times> int \<times> int \<times> int"
  k_shutdown :: "sock \<Rightarrow> int \<Rightarrow> 'w \<Rightarrow> 'w \<times> int \<times> int"
  k_connect :: "sock \<Rightarrow> nat \<Rightarrow> nat \<Rightarrow> 'w \<Rightarrow> 'w \<times> int \<times> int"
  k_socketpair :: "int \<Rightarrow> int \<Rightarrow> int \<Rightarrow> 'w \<Rightarrow> 'w \<times> int \<times> int \<times> (sock \<times> sock)"
  k_listen :: "sock \<Rightarrow> int \<Rightarrow> 'w \<Rightarrow> 'w \<times> int \<times> int"
  k_recvmsg :: "sock \<Rightarrow> buf list \<Rightarrow> 32 word \<Rightarrow> nat option \<Rightarrow> nat \<Rightarrow> 'w \<Rightarrow> 'w \<times> int \<times> int \<times> nat \<times> 32 word"
  k_sendmsg :: "sock \<Rightarrow> buf list \<Rightarrow> 32 word \<Rightarrow> nat option \<Rightarrow> nat \<Rightarrow> 'w \<Rightarrow> 'w \<times> int \<times> int"
  k_socket :: "int \<Rightarrow> int \<Rightarrow> int \<Rightarrow> 'w \<Rightarrow> 'w \<times> int \<times> int"
  k_setsockopt :: "sock \<Rightarrow> int \<Rightarrow> int \<Rightarrow> 8 word list \<Rightarrow> nat \<Rightarrow> 'w \<Rightarrow> 'w \<times> int \<times> int"
  k_getsockopt :: "sock \<Rightarrow> int \<Rightarrow> int \<Rightarrow> 8 word list \<Rightarrow> nat \<Rightarrow> 'w \<Rightarrow> 'w \<times> int \<times> int \<times> 8 word list \<times> nat"
  k_getpeername :: "sock \<Rightarrow> nat \<Rightarrow> nat \<Rightarrow> 'w \<Rightarrow> 'w \<times> int \<times> int \<times> nat"
  k_getsockname :: "sock \<Rightarrow> nat \<Rightarrow> nat \<Rightarrow> 'w \<Rightarrow> 'w \<times> int \<times> int \<times> nat"
  k_poll :: "sock \<Rightarrow> 16 word \<Rightarrow> int \<Rightarrow> 'w \<Rightarrow> 'w \<times> int \<times> int"

text \<open>\<open>error_wrapper\<close>: the code for \<open>errno\<close>. The result, and the codes the functions compare with.\<close>

definition error_wrapper :: "int \<Rightarrow> error_code" where
  "error_wrapper errno = system_ec errno"

definition ec_blocked :: "error_code \<Rightarrow> bool" where
  "ec_blocked ec \<longleftrightarrow> ec = basic_ec would_block \<or> ec = basic_ec try_again"

section \<open>Wrappers\<close>

definition sock_accept :: "'w kernel \<Rightarrow> sock \<Rightarrow> nat option \<Rightarrow> nat \<Rightarrow> 'w \<Rightarrow> 'w \<times> sock \<times> nat \<times> error_code" where
  "sock_accept k s addr addrlen w =
     (if s = invalid_socket then (w, invalid_socket, addrlen, basic_ec bad_descriptor)
      else
        case k_accept k s addr (if addr = None then 0 else addrlen) w of
          (w1, new_s, errno, tmp_addrlen) \<Rightarrow>
            let addrlen1 = (if addr = None then addrlen else tmp_addrlen) in
            if new_s = invalid_socket then (w1, new_s, addrlen1, error_wrapper errno)
            else (w1, new_s, addrlen1, no_error))"

text \<open>A wrapper that clears the error exactly when the call returned zero, and one for any non-negative
  result.\<close>

definition zero_ok :: "'w \<times> int \<times> int \<Rightarrow> 'w \<times> int \<times> error_code" where
  "zero_ok r = (case r of (w, result, errno) \<Rightarrow> (w, result, if result = 0 then no_error else error_wrapper errno))"

definition nonneg_ok :: "'w \<times> int \<times> int \<Rightarrow> 'w \<times> int \<times> error_code" where
  "nonneg_ok r = (case r of (w, result, errno) \<Rightarrow> (w, result, if result \<ge> 0 then no_error else error_wrapper errno))"

definition sock_bind :: "'w kernel \<Rightarrow> sock \<Rightarrow> nat \<Rightarrow> nat \<Rightarrow> 'w \<Rightarrow> 'w \<times> int \<times> error_code" where
  "sock_bind k s addr addrlen w =
     (if s = invalid_socket then (w, socket_error_retval, basic_ec bad_descriptor)
      else zero_ok (k_bind k s addr addrlen w))"

definition sock_setsockopt ::
  "'w kernel \<Rightarrow> sock \<Rightarrow> sock_state \<Rightarrow> int \<Rightarrow> int \<Rightarrow> 8 word list \<Rightarrow> nat \<Rightarrow> 'w \<Rightarrow> 'w \<times> sock_state \<times> int \<times> error_code" where
  "sock_setsockopt k s st level optname optval optlen w =
     (if s = invalid_socket then (w, st, socket_error_retval, basic_ec bad_descriptor)
      else if level = custom_socket_option_level \<and> optname = always_fail_option
      then (w, st, socket_error_retval, basic_ec invalid_argument)
      else if level = custom_socket_option_level \<and> optname = enable_connection_aborted_option then
        (if optlen \<noteq> 4 then (w, st, socket_error_retval, basic_ec invalid_argument)
         else if get_int optval \<noteq> 0 then (w, st OR enable_connection_aborted, 0, no_error)
         else (w, st AND NOT enable_connection_aborted, 0, no_error))
      else
        let st1 = (if level = SOL_SOCKET \<and> optname = SO_LINGER then st OR user_set_linger else st) in
        case zero_ok (k_setsockopt k s level optname optval optlen w) of (w1, result, ec) \<Rightarrow> (w1, st1, result, ec))"

text \<open>On Linux the kernel reports twice the buffer size that was set.\<close>

definition sock_getsockopt ::
  "'w kernel \<Rightarrow> sock \<Rightarrow> sock_state \<Rightarrow> int \<Rightarrow> int \<Rightarrow> 8 word list \<Rightarrow> nat \<Rightarrow> 'w \<Rightarrow>
   'w \<times> int \<times> 8 word list \<times> nat \<times> error_code" where
  "sock_getsockopt k s st level optname optval optlen w =
     (if s = invalid_socket then (w, socket_error_retval, optval, optlen, basic_ec bad_descriptor)
      else if level = custom_socket_option_level \<and> optname = always_fail_option
      then (w, socket_error_retval, optval, optlen, basic_ec invalid_argument)
      else if level = custom_socket_option_level \<and> optname = enable_connection_aborted_option then
        (if optlen \<noteq> 4 then (w, socket_error_retval, optval, optlen, basic_ec invalid_argument)
         else (w, 0, put_int (if has st enable_connection_aborted then 1 else 0) @ drop 4 optval, optlen, no_error))
      else
        case k_getsockopt k s level optname optval optlen w of
          (w1, result, errno, optval1, optlen1) \<Rightarrow>
            let optval2 = (if result = 0 \<and> level = SOL_SOCKET \<and> optlen1 = 4 \<and> (optname = SO_SNDBUF \<or> optname = SO_RCVBUF)
                           then put_int (get_int optval1 sdiv 2) @ drop 4 optval1 else optval1)
            in (w1, result, optval2, optlen1, if result = 0 then no_error else error_wrapper errno))"

text \<open>The option value is \<open>struct linger\<close> with both members zero.\<close>

definition sock_close :: "'w kernel \<Rightarrow> sock \<Rightarrow> sock_state \<Rightarrow> bool \<Rightarrow> 'w \<Rightarrow> 'w \<times> sock_state \<times> int \<times> error_code" where
  "sock_close k s st destruction w =
     (if s \<noteq> invalid_socket then
        (let (w1, st1) = (if destruction \<and> has st user_set_linger
                          then case sock_setsockopt k s st SOL_SOCKET SO_LINGER (put_int 0 @ put_int 0) 8 w of
                                 (w0, st0, ignored, ignored_ec) \<Rightarrow> (w0, st0)
                          else (w, st));
             (w2, result, errno) = k_close k s w1
         in if result \<noteq> 0 \<and> ec_blocked (error_wrapper errno) then
              (let (w3, ignored) = k_ioctl k s FIONBIO 0 w2;
                   (w4, result1, ec) = zero_ok (k_close k s w3)
               in (w4, st1 AND NOT non_blocking, result1, ec))
            else (w2, st1, result, if result = 0 then no_error else error_wrapper errno))
      else (w, st, 0, no_error))"

definition set_user_non_blocking ::
  "'w kernel \<Rightarrow> sock \<Rightarrow> sock_state \<Rightarrow> bool \<Rightarrow> 'w \<Rightarrow> 'w \<times> sock_state \<times> bool \<times> error_code" where
  "set_user_non_blocking k s st val w =
     (if s = invalid_socket then (w, st, False, basic_ec bad_descriptor)
      else
        case k_ioctl k s FIONBIO (if val then 1 else 0) w of
          (w1, result, errno, arg) \<Rightarrow>
            if result \<ge> 0 then
              (w1, if val then st OR user_set_non_blocking
                   else st AND NOT (user_set_non_blocking OR internal_non_blocking), True, no_error)
            else (w1, st, False, error_wrapper errno))"

definition set_internal_non_blocking ::
  "'w kernel \<Rightarrow> sock \<Rightarrow> sock_state \<Rightarrow> bool \<Rightarrow> 'w \<Rightarrow> 'w \<times> sock_state \<times> bool \<times> error_code" where
  "set_internal_non_blocking k s st val w =
     (if s = invalid_socket then (w, st, False, basic_ec bad_descriptor)
      else if \<not> val \<and> has st user_set_non_blocking then (w, st, False, basic_ec invalid_argument)
      else
        case k_ioctl k s FIONBIO (if val then 1 else 0) w of
          (w1, result, errno, arg) \<Rightarrow>
            if result \<ge> 0 then
              (w1, if val then st OR internal_non_blocking else st AND NOT internal_non_blocking, True, no_error)
            else (w1, st, False, error_wrapper errno))"

definition sock_shutdown :: "'w kernel \<Rightarrow> sock \<Rightarrow> int \<Rightarrow> 'w \<Rightarrow> 'w \<times> int \<times> error_code" where
  "sock_shutdown k s what w =
     (if s = invalid_socket then (w, socket_error_retval, basic_ec bad_descriptor)
      else zero_ok (k_shutdown k s what w))"

definition sock_connect :: "'w kernel \<Rightarrow> sock \<Rightarrow> nat \<Rightarrow> nat \<Rightarrow> 'w \<Rightarrow> 'w \<times> int \<times> error_code" where
  "sock_connect k s addr addrlen w =
     (if s = invalid_socket then (w, socket_error_retval, basic_ec bad_descriptor)
      else
        case k_connect k s addr addrlen w of
          (w1, result, errno) \<Rightarrow>
            (w1, result,
             if result = 0 then no_error
             else if error_wrapper errno = basic_ec try_again then basic_ec no_buffer_space
             else error_wrapper errno))"

definition sock_socketpair :: "'w kernel \<Rightarrow> int \<Rightarrow> int \<Rightarrow> int \<Rightarrow> 'w \<Rightarrow> 'w \<times> int \<times> (sock \<times> sock) \<times> error_code" where
  "sock_socketpair k af type protocol w =
     (case k_socketpair k af type protocol w of
        (w1, result, errno, sv) \<Rightarrow> (w1, result, sv, if result = 0 then no_error else error_wrapper errno))"

text \<open>\<open>sockatmark\<close> and \<open>available\<close> replace \<open>ENOTTY\<close> by \<open>not_socket\<close>.\<close>

definition not_socket_ec :: "error_code \<Rightarrow> error_code" where
  "not_socket_ec ec = (if ec_value ec = ENOTTY then basic_ec not_socket else ec)"

definition sock_sockatmark :: "'w kernel \<Rightarrow> sock \<Rightarrow> 'w \<Rightarrow> 'w \<times> bool \<times> error_code" where
  "sock_sockatmark k s w =
     (if s = invalid_socket then (w, False, basic_ec bad_descriptor)
      else
        case k_ioctl k s SIOCATMARK 0 w of
          (w1, result, errno, val) \<Rightarrow>
            let ec = not_socket_ec (if result = 0 then no_error else error_wrapper errno)
            in (w1, if ec_failed ec then False else val \<noteq> 0, ec))"

definition sock_available :: "'w kernel \<Rightarrow> sock \<Rightarrow> 'w \<Rightarrow> 'w \<times> nat \<times> error_code" where
  "sock_available k s w =
     (if s = invalid_socket then (w, 0, basic_ec bad_descriptor)
      else
        case k_ioctl k s FIONREAD 0 w of
          (w1, result, errno, val) \<Rightarrow>
            let ec = not_socket_ec (if result = 0 then no_error else error_wrapper errno)
            in (w1, if ec_failed ec then 0 else unat (word_of_int val :: 64 word), ec))"

definition sock_listen :: "'w kernel \<Rightarrow> sock \<Rightarrow> int \<Rightarrow> 'w \<Rightarrow> 'w \<times> int \<times> error_code" where
  "sock_listen k s backlog w =
     (if s = invalid_socket then (w, socket_error_retval, basic_ec bad_descriptor)
      else zero_ok (k_listen k s backlog w))"

text \<open>The message header of these calls has no name, or the address and its length.\<close>

definition sock_recv :: "'w kernel \<Rightarrow> sock \<Rightarrow> buf list \<Rightarrow> 32 word \<Rightarrow> 'w \<Rightarrow> 'w \<times> int \<times> error_code" where
  "sock_recv k s bufs flags w =
     (case k_recvmsg k s bufs flags None 0 w of (w1, result, errno, ignored) \<Rightarrow> nonneg_ok (w1, result, errno))"

definition sock_recvfrom ::
  "'w kernel \<Rightarrow> sock \<Rightarrow> buf list \<Rightarrow> 32 word \<Rightarrow> nat \<Rightarrow> nat \<Rightarrow> 'w \<Rightarrow> 'w \<times> nat \<times> int \<times> error_code" where
  "sock_recvfrom k s bufs flags addr addrlen w =
     (case k_recvmsg k s bufs flags (Some addr) addrlen w of
        (w1, result, errno, namelen, msg_flags) \<Rightarrow>
          (w1, namelen, result, if result \<ge> 0 then no_error else error_wrapper errno))"

definition sock_recvmsg :: "'w kernel \<Rightarrow> sock \<Rightarrow> buf list \<Rightarrow> 32 word \<Rightarrow> 'w \<Rightarrow> 'w \<times> 32 word \<times> int \<times> error_code" where
  "sock_recvmsg k s bufs in_flags w =
     (case k_recvmsg k s bufs in_flags None 0 w of
        (w1, result, errno, namelen, msg_flags) \<Rightarrow>
          (w1, if result \<ge> 0 then msg_flags else 0, result, if result \<ge> 0 then no_error else error_wrapper errno))"

definition sock_send :: "'w kernel \<Rightarrow> sock \<Rightarrow> buf list \<Rightarrow> 32 word \<Rightarrow> 'w \<Rightarrow> 'w \<times> int \<times> error_code" where
  "sock_send k s bufs flags w = nonneg_ok (k_sendmsg k s bufs (flags OR MSG_NOSIGNAL) None 0 w)"

definition sock_sendto ::
  "'w kernel \<Rightarrow> sock \<Rightarrow> buf list \<Rightarrow> 32 word \<Rightarrow> nat \<Rightarrow> nat \<Rightarrow> 'w \<Rightarrow> 'w \<times> int \<times> error_code" where
  "sock_sendto k s bufs flags addr addrlen w =
     nonneg_ok (k_sendmsg k s bufs (flags OR MSG_NOSIGNAL) (Some addr) addrlen w)"

definition sock_socket :: "'w kernel \<Rightarrow> int \<Rightarrow> int \<Rightarrow> int \<Rightarrow> 'w \<Rightarrow> 'w \<times> sock \<times> error_code" where
  "sock_socket k af type protocol w = nonneg_ok (k_socket k af type protocol w)"

definition sock_getpeername :: "'w kernel \<Rightarrow> sock \<Rightarrow> nat \<Rightarrow> nat \<Rightarrow> 'w \<Rightarrow> 'w \<times> int \<times> nat \<times> error_code" where
  "sock_getpeername k s addr addrlen w =
     (if s = invalid_socket then (w, socket_error_retval, addrlen, basic_ec bad_descriptor)
      else
        case k_getpeername k s addr addrlen w of
          (w1, result, errno, addrlen1) \<Rightarrow> (w1, result, addrlen1, if result = 0 then no_error else error_wrapper errno))"

definition sock_getsockname :: "'w kernel \<Rightarrow> sock \<Rightarrow> nat \<Rightarrow> nat \<Rightarrow> 'w \<Rightarrow> 'w \<times> int \<times> nat \<times> error_code" where
  "sock_getsockname k s addr addrlen w =
     (if s = invalid_socket then (w, socket_error_retval, addrlen, basic_ec bad_descriptor)
      else
        case k_getsockname k s addr addrlen w of
          (w1, result, errno, addrlen1) \<Rightarrow> (w1, result, addrlen1, if result = 0 then no_error else error_wrapper errno))"

definition sock_ioctl ::
  "'w kernel \<Rightarrow> sock \<Rightarrow> sock_state \<Rightarrow> int \<Rightarrow> int \<Rightarrow> 'w \<Rightarrow> 'w \<times> sock_state \<times> int \<times> int \<times> error_code" where
  "sock_ioctl k s st cmd arg w =
     (if s = invalid_socket then (w, st, socket_error_retval, arg, basic_ec bad_descriptor)
      else
        case k_ioctl k s cmd arg w of
          (w1, result, errno, arg1) \<Rightarrow>
            if result \<ge> 0 then
              (w1,
               if cmd = FIONBIO then
                 (if arg1 \<noteq> 0 then st OR user_set_non_blocking
                  else st AND NOT (user_set_non_blocking OR internal_non_blocking))
               else st,
               result, arg1, no_error)
            else (w1, st, result, arg1, error_wrapper errno))"

text \<open>\<open>poll_read\<close>, \<open>poll_write\<close> and \<open>poll_error\<close> differ in the events they wait for.\<close>

definition poll_for :: "'w kernel \<Rightarrow> 16 word \<Rightarrow> sock \<Rightarrow> sock_state \<Rightarrow> int \<Rightarrow> 'w \<Rightarrow> 'w \<times> int \<times> error_code" where
  "poll_for k events s st msec w =
     (if s = invalid_socket then (w, socket_error_retval, basic_ec bad_descriptor)
      else
        case k_poll k s events (if has st user_set_non_blocking then 0 else msec) w of
          (w1, result, errno) \<Rightarrow>
            (w1, result,
             if result = 0 then (if has st user_set_non_blocking then basic_ec would_block else no_error)
             else if result > 0 then no_error else error_wrapper errno))"

definition poll_read :: "'w kernel \<Rightarrow> sock \<Rightarrow> sock_state \<Rightarrow> int \<Rightarrow> 'w \<Rightarrow> 'w \<times> int \<times> error_code" where
  "poll_read k = poll_for k POLLIN"

definition poll_write :: "'w kernel \<Rightarrow> sock \<Rightarrow> sock_state \<Rightarrow> int \<Rightarrow> 'w \<Rightarrow> 'w \<times> int \<times> error_code" where
  "poll_write k = poll_for k POLLOUT"

definition poll_error :: "'w kernel \<Rightarrow> sock \<Rightarrow> sock_state \<Rightarrow> int \<Rightarrow> 'w \<Rightarrow> 'w \<times> int \<times> error_code" where
  "poll_error k = poll_for k (POLLPRI OR POLLERR OR POLLHUP)"

definition poll_connect :: "'w kernel \<Rightarrow> sock \<Rightarrow> int \<Rightarrow> 'w \<Rightarrow> 'w \<times> int \<times> error_code" where
  "poll_connect k s msec w =
     (if s = invalid_socket then (w, socket_error_retval, basic_ec bad_descriptor)
      else nonneg_ok (k_poll k s POLLOUT msec w))"

section \<open>Accepting and connecting\<close>

text \<open>Whether a failed accept is reported, or the connection skipped and the next one waited for.\<close>

definition accept_reports :: "bool \<Rightarrow> sock_state \<Rightarrow> error_code \<Rightarrow> bool" where
  "accept_reports when_blocked st ec =
     (if ec_blocked ec then when_blocked
      else if ec = basic_ec connection_aborted then has st enable_connection_aborted
      else if ec_value ec = EPROTO then has st enable_connection_aborted
      else True)"

partial_function (option) sync_accept ::
  "'w kernel \<Rightarrow> sock \<Rightarrow> sock_state \<Rightarrow> nat option \<Rightarrow> nat \<Rightarrow> 'w \<Rightarrow> ('w \<times> sock \<times> nat \<times> error_code) option" where
  "sync_accept k s st addr addrlen w =
     (case sock_accept k s addr addrlen w of
        (w1, new_socket, addrlen1, ec) \<Rightarrow>
          if new_socket \<noteq> invalid_socket then Some (w1, new_socket, addrlen1, ec)
          else if accept_reports (has st user_set_non_blocking) st ec then Some (w1, invalid_socket, addrlen1, ec)
          else
            case poll_read k s 0 (- 1) w1 of
              (w2, ready, ec2) \<Rightarrow>
                if ready < 0 then Some (w2, invalid_socket, addrlen1, ec2)
                else sync_accept k s st addr addrlen1 w2)"

text \<open>The result: whether the operation is done, the socket, the length and the code.\<close>

partial_function (option) non_blocking_accept ::
  "'w kernel \<Rightarrow> sock \<Rightarrow> sock_state \<Rightarrow> nat option \<Rightarrow> nat \<Rightarrow> 'w \<Rightarrow> ('w \<times> bool \<times> sock \<times> nat \<times> error_code) option" where
  "non_blocking_accept k s st addr addrlen w =
     (case sock_accept k s addr addrlen w of
        (w1, new_socket, addrlen1, ec) \<Rightarrow>
          if new_socket \<noteq> invalid_socket then Some (w1, True, new_socket, addrlen1, ec)
          else if ec = basic_ec interrupted then non_blocking_accept k s st addr addrlen1 w1
          else Some (w1, accept_reports False st ec, new_socket, addrlen1, ec))"

definition sync_connect :: "'w kernel \<Rightarrow> sock \<Rightarrow> nat \<Rightarrow> nat \<Rightarrow> 'w \<Rightarrow> 'w \<times> error_code" where
  "sync_connect k s addr addrlen w =
     (case sock_connect k s addr addrlen w of
        (w1, ignored, ec) \<Rightarrow>
          if ec \<noteq> basic_ec in_progress \<and> ec \<noteq> basic_ec would_block then (w1, ec)
          else
            case poll_connect k s (- 1) w1 of
              (w2, ready, ec2) \<Rightarrow>
                if ready < 0 then (w2, ec2)
                else
                  case sock_getsockopt k s 0 SOL_SOCKET SO_ERROR (put_int 0) 4 w2 of
                    (w3, result, connect_error, len, ec3) \<Rightarrow>
                      if result = socket_error_retval then (w3, ec3) else (w3, system_ec (get_int connect_error)))"

definition non_blocking_connect :: "'w kernel \<Rightarrow> sock \<Rightarrow> error_code \<Rightarrow> 'w \<Rightarrow> 'w \<times> bool \<times> error_code" where
  "non_blocking_connect k s ec w =
     (case k_poll k s POLLOUT 0 w of
        (w1, ready, errno) \<Rightarrow>
          if ready = 0 then (w1, False, ec)
          else
            case sock_getsockopt k s 0 SOL_SOCKET SO_ERROR (put_int 0) 4 w1 of
              (w2, result, connect_error, len, ec1) \<Rightarrow>
                (w2, True,
                 if result = 0
                 then (if get_int connect_error \<noteq> 0 then system_ec (get_int connect_error) else no_error)
                 else ec1))"

section \<open>Transferring\<close>

text \<open>The loop of the blocking operations: an attempt, which passes on what the kernel wrote back; the
  verdict on its result, either what is returned or to wait and try again.\<close>

partial_function (option) sync_loop ::
  "('w \<Rightarrow> 'x \<Rightarrow> 'w \<times> 'x \<times> int \<times> error_code) \<Rightarrow> (int \<Rightarrow> error_code \<Rightarrow> (nat \<times> error_code) option) \<Rightarrow>
   ('w \<Rightarrow> 'w \<times> int \<times> error_code) \<Rightarrow> 'w \<Rightarrow> 'x \<Rightarrow> ('w \<times> 'x \<times> nat \<times> error_code) option" where
  "sync_loop attempt verdict poll w x =
     (case attempt w x of
        (w1, x1, bytes, ec) \<Rightarrow>
          case verdict bytes ec of
            Some (n, ec1) \<Rightarrow> Some (w1, x1, n, ec1)
          | None \<Rightarrow>
              (case poll w1 of
                 (w2, ready, ec2) \<Rightarrow>
                   if ready < 0 then Some (w2, x1, 0, ec2) else sync_loop attempt verdict poll w2 x1))"

definition failed_verdict :: "sock_state \<Rightarrow> error_code \<Rightarrow> (nat \<times> error_code) option" where
  "failed_verdict st ec =
     (if has st user_set_non_blocking \<or> (ec \<noteq> basic_ec would_block \<and> ec \<noteq> basic_ec try_again) then Some (0, ec) else None)"

definition stream_recv_verdict :: "sock_state \<Rightarrow> int \<Rightarrow> error_code \<Rightarrow> (nat \<times> error_code) option" where
  "stream_recv_verdict st bytes ec =
     (if bytes > 0 then Some (nat bytes, ec)
      else if has st stream_oriented \<and> bytes = 0 then Some (0, misc_ec eof)
      else failed_verdict st ec)"

definition transfer_verdict :: "sock_state \<Rightarrow> int \<Rightarrow> error_code \<Rightarrow> (nat \<times> error_code) option" where
  "transfer_verdict st bytes ec = (if bytes \<ge> 0 then Some (nat bytes, ec) else failed_verdict st ec)"

text \<open>An attempt with nothing to pass on.\<close>

definition plain :: "('w \<Rightarrow> 'w \<times> int \<times> error_code) \<Rightarrow> 'w \<Rightarrow> unit \<Rightarrow> 'w \<times> unit \<times> int \<times> error_code" where
  "plain call w x = (case call w of (w1, bytes, ec) \<Rightarrow> (w1, (), bytes, ec))"

definition sync_recv ::
  "'w kernel \<Rightarrow> sock \<Rightarrow> sock_state \<Rightarrow> buf list \<Rightarrow> 32 word \<Rightarrow> bool \<Rightarrow> 'w \<Rightarrow> ('w \<times> nat \<times> error_code) option" where
  "sync_recv k s st bufs flags all_empty w =
     (if s = invalid_socket then Some (w, 0, basic_ec bad_descriptor)
      else if all_empty \<and> has st stream_oriented then Some (w, 0, no_error)
      else map_option (\<lambda>(w1, x, r). (w1, r))
             (sync_loop (plain (sock_recv k s bufs flags)) (stream_recv_verdict st) (poll_read k s 0 (- 1)) w ()))"

definition sync_recvfrom ::
  "'w kernel \<Rightarrow> sock \<Rightarrow> sock_state \<Rightarrow> buf list \<Rightarrow> 32 word \<Rightarrow> nat \<Rightarrow> nat \<Rightarrow> 'w \<Rightarrow> ('w \<times> nat \<times> nat \<times> error_code) option" where
  "sync_recvfrom k s st bufs flags addr addrlen w =
     (if s = invalid_socket then Some (w, addrlen, 0, basic_ec bad_descriptor)
      else sync_loop (\<lambda>w len. sock_recvfrom k s bufs flags addr len w) (transfer_verdict st) (poll_read k s 0 (- 1)) w addrlen)"

definition sync_recvmsg ::
  "'w kernel \<Rightarrow> sock \<Rightarrow> sock_state \<Rightarrow> buf list \<Rightarrow> 32 word \<Rightarrow> 32 word \<Rightarrow> 'w \<Rightarrow> ('w \<times> 32 word \<times> nat \<times> error_code) option" where
  "sync_recvmsg k s st bufs in_flags out_flags w =
     (if s = invalid_socket then Some (w, out_flags, 0, basic_ec bad_descriptor)
      else sync_loop (\<lambda>w x. sock_recvmsg k s bufs in_flags w) (transfer_verdict st) (poll_read k s 0 (- 1)) w out_flags)"

definition sync_send ::
  "'w kernel \<Rightarrow> sock \<Rightarrow> sock_state \<Rightarrow> buf list \<Rightarrow> 32 word \<Rightarrow> bool \<Rightarrow> 'w \<Rightarrow> ('w \<times> nat \<times> error_code) option" where
  "sync_send k s st bufs flags all_empty w =
     (if s = invalid_socket then Some (w, 0, basic_ec bad_descriptor)
      else if all_empty \<and> has st stream_oriented then Some (w, 0, no_error)
      else map_option (\<lambda>(w1, x, r). (w1, r))
             (sync_loop (plain (sock_send k s bufs flags)) (transfer_verdict st) (poll_write k s 0 (- 1)) w ()))"

definition sync_sendto ::
  "'w kernel \<Rightarrow> sock \<Rightarrow> sock_state \<Rightarrow> buf list \<Rightarrow> 32 word \<Rightarrow> nat \<Rightarrow> nat \<Rightarrow> 'w \<Rightarrow> ('w \<times> nat \<times> error_code) option" where
  "sync_sendto k s st bufs flags addr addrlen w =
     (if s = invalid_socket then Some (w, 0, basic_ec bad_descriptor)
      else map_option (\<lambda>(w1, x, r). (w1, r))
             (sync_loop (plain (sock_sendto k s bufs flags addr addrlen)) (transfer_verdict st) (poll_write k s 0 (- 1)) w ()))"

text \<open>The loop of the non-blocking operations: whether the operation is done, the count, which is
  untouched at the end of the stream and when it is not done, and the code.\<close>

partial_function (option) non_blocking_loop ::
  "('w \<Rightarrow> 'x \<Rightarrow> 'w \<times> 'x \<times> int \<times> error_code) \<Rightarrow> bool \<Rightarrow> nat \<Rightarrow> 'w \<Rightarrow> 'x \<Rightarrow> ('w \<times> 'x \<times> bool \<times> nat \<times> error_code) option" where
  "non_blocking_loop attempt is_stream bytes_transferred w x =
     (case attempt w x of
        (w1, x1, bytes, ec) \<Rightarrow>
          if is_stream \<and> bytes = 0 then Some (w1, x1, True, bytes_transferred, misc_ec eof)
          else if ec = basic_ec interrupted then non_blocking_loop attempt is_stream bytes_transferred w1 x1
          else if ec_blocked ec then Some (w1, x1, False, bytes_transferred, ec)
          else if bytes \<ge> 0 then Some (w1, x1, True, nat bytes, no_error)
          else Some (w1, x1, True, 0, ec))"

definition non_blocking_recv ::
  "'w kernel \<Rightarrow> sock \<Rightarrow> buf list \<Rightarrow> 32 word \<Rightarrow> bool \<Rightarrow> nat \<Rightarrow> 'w \<Rightarrow> ('w \<times> bool \<times> nat \<times> error_code) option" where
  "non_blocking_recv k s bufs flags is_stream bytes_transferred w =
     map_option (\<lambda>(w1, x, r). (w1, r)) (non_blocking_loop (plain (sock_recv k s bufs flags)) is_stream bytes_transferred w ())"

definition non_blocking_recvfrom ::
  "'w kernel \<Rightarrow> sock \<Rightarrow> buf list \<Rightarrow> 32 word \<Rightarrow> nat \<Rightarrow> nat \<Rightarrow> nat \<Rightarrow> 'w \<Rightarrow> ('w \<times> nat \<times> bool \<times> nat \<times> error_code) option" where
  "non_blocking_recvfrom k s bufs flags addr addrlen bytes_transferred w =
     non_blocking_loop (\<lambda>w len. sock_recvfrom k s bufs flags addr len w) False bytes_transferred w addrlen"

definition non_blocking_recvmsg ::
  "'w kernel \<Rightarrow> sock \<Rightarrow> buf list \<Rightarrow> 32 word \<Rightarrow> 32 word \<Rightarrow> nat \<Rightarrow> 'w \<Rightarrow> ('w \<times> 32 word \<times> bool \<times> nat \<times> error_code) option" where
  "non_blocking_recvmsg k s bufs in_flags out_flags bytes_transferred w =
     non_blocking_loop (\<lambda>w x. sock_recvmsg k s bufs in_flags w) False bytes_transferred w out_flags"

definition non_blocking_send ::
  "'w kernel \<Rightarrow> sock \<Rightarrow> buf list \<Rightarrow> 32 word \<Rightarrow> nat \<Rightarrow> 'w \<Rightarrow> ('w \<times> bool \<times> nat \<times> error_code) option" where
  "non_blocking_send k s bufs flags bytes_transferred w =
     map_option (\<lambda>(w1, x, r). (w1, r)) (non_blocking_loop (plain (sock_send k s bufs flags)) False bytes_transferred w ())"

section \<open>Sockets without an owner\<close>

text \<open>\<open>socket_holder.hpp\<close>: the holder is the socket it has.\<close>

definition holder_destroy :: "'w kernel \<Rightarrow> sock \<Rightarrow> 'w \<Rightarrow> 'w" where
  "holder_destroy k s w = (if s \<noteq> invalid_socket then fst (sock_close k s 0 True w) else w)"

definition holder_reset :: "'w kernel \<Rightarrow> sock \<Rightarrow> sock \<Rightarrow> 'w \<Rightarrow> 'w \<times> sock" where
  "holder_reset k held s w = ((if held \<noteq> invalid_socket then fst (sock_close k held 0 True w) else w), s)"

definition holder_release :: "sock \<Rightarrow> sock \<times> sock" where
  "holder_release held = (held, invalid_socket)"

end
