(* ===== verification/SocketService.thy ===== *)
theory SocketService
  imports SocketOps EpollProps Endpoint
begin

text \<open>
  \<open>include/asio/network/reactive_socket_service_base.hpp\<close>, \<open>.ipp\<close>, \<open>reactive_socket_service.hpp\<close> and the
  operations in \<open>network/op\<close>: sockets whose asynchronous operations wait in the epoll reactor. A socket
  is the descriptor, its state bits, the reactor's data and the protocol. The kernel's state is the
  reactor's; its calls are the record of theory \<open>SocketOps\<close>. An operation object is named by the
  reactor's operation; what it does when performed is \<open>do_perform\<close> below. Endpoints are pointers to
  their address with a length, and the descriptor state that a registration would create is an argument,
  as in the reactor.
\<close>

section \<open>Sockets\<close>

record 'd base_impl =
  si_socket :: sock
  si_state :: sock_state
  si_data :: "'d ptr"

record protocol =
  p_family :: int
  p_type :: int
  p_protocol :: int

record 'd socket_impl = "'d base_impl" +
  si_protocol :: protocol

definition SOCK_STREAM :: int where "SOCK_STREAM = 1"
definition SOCK_DGRAM :: int where "SOCK_DGRAM = 2"

text \<open>A kernel call made by the service.\<close>

definition on_kernel :: "('w \<Rightarrow> 'w \<times> 'x) \<Rightarrow> ('o, 'd, 'w, 'q, 't, 'a) reactor \<Rightarrow> ('o, 'd, 'w, 'q, 't, 'a) reactor \<times> 'x" where
  "on_kernel call r = (case call (r_kernel r) of (w1, x) \<Rightarrow> (r\<lparr>r_kernel := w1\<rparr>, x))"

definition is_open :: "('d, 'z) base_impl_scheme \<Rightarrow> bool" where
  "is_open impl \<longleftrightarrow> si_socket impl \<noteq> invalid_socket"

definition construct :: "('d, 'z) base_impl_scheme \<Rightarrow> ('d, 'z) base_impl_scheme" where
  "construct impl = impl\<lparr>si_socket := invalid_socket, si_state := 0\<rparr>"

text \<open>The new values of the target and of the source.\<close>

definition base_move_construct ::
  "('d, 'z) base_impl_scheme \<Rightarrow> ('d, 'y) base_impl_scheme \<Rightarrow> ('d, 'z) base_impl_scheme \<times> ('d, 'y) base_impl_scheme" where
  "base_move_construct impl other =
     (let (target_data, source_data) = move_descriptor (si_data impl) (si_data other)
      in (impl\<lparr>si_socket := si_socket other, si_state := si_state other, si_data := target_data\<rparr>,
          other\<lparr>si_socket := invalid_socket, si_state := 0, si_data := source_data\<rparr>))"

definition closing_flag :: "('d, 'z) base_impl_scheme \<Rightarrow> bool" where
  "closing_flag impl \<longleftrightarrow> \<not> has (si_state impl) possible_dup"

definition service_destroy ::
  "('w, 'd) ctl \<Rightarrow> 'w kernel \<Rightarrow> ('d, 'z) base_impl_scheme \<Rightarrow> ('o, 'd, 'w, 'q, 't, 'a) reactor \<Rightarrow>
   ('o, 'd, 'w, 'q, 't, 'a) reactor \<times> ('d, 'z) base_impl_scheme" where
  "service_destroy ctl k impl r =
     (if si_socket impl \<noteq> invalid_socket then
        (let (r1, dat) = deregister_descriptor ctl (si_socket impl) (si_data impl) (closing_flag impl) r;
             (r2, st, result, ignored_ec) = on_kernel (sock_close k (si_socket impl) (si_state impl) True) r1;
             (r3, dat1) = cleanup_descriptor_data dat r2
         in (r3, impl\<lparr>si_state := st, si_data := dat1\<rparr>))
      else (r, impl))"

definition base_move_assign ::
  "('w, 'd) ctl \<Rightarrow> 'w kernel \<Rightarrow> ('d, 'z) base_impl_scheme \<Rightarrow> ('d, 'y) base_impl_scheme \<Rightarrow> ('o, 'd, 'w, 'q, 't, 'a) reactor \<Rightarrow>
   ('o, 'd, 'w, 'q, 't, 'a) reactor \<times> ('d, 'z) base_impl_scheme \<times> ('d, 'y) base_impl_scheme" where
  "base_move_assign ctl k impl other r =
     (case service_destroy ctl k impl r of (r1, impl1) \<Rightarrow> (r1, base_move_construct impl1 other))"

definition service_close ::
  "('w, 'd) ctl \<Rightarrow> 'w kernel \<Rightarrow> ('d, 'z) base_impl_scheme \<Rightarrow> ('o, 'd, 'w, 'q, 't, 'a) reactor \<Rightarrow>
   ('o, 'd, 'w, 'q, 't, 'a) reactor \<times> ('d, 'z) base_impl_scheme \<times> error_code" where
  "service_close ctl k impl r =
     (if is_open impl then
        (let (r1, dat) = deregister_descriptor ctl (si_socket impl) (si_data impl) (closing_flag impl) r;
             (r2, st, result, ec) = on_kernel (sock_close k (si_socket impl) (si_state impl) False) r1;
             (r3, dat1) = cleanup_descriptor_data dat r2
         in (r3, construct (impl\<lparr>si_state := st, si_data := dat1\<rparr>), ec))
      else (r, construct impl, no_error))"

definition service_release ::
  "('w, 'd) ctl \<Rightarrow> ('d, 'z) base_impl_scheme \<Rightarrow> ('o, 'd, 'w, 'q, 't, 'a) reactor \<Rightarrow>
   ('o, 'd, 'w, 'q, 't, 'a) reactor \<times> ('d, 'z) base_impl_scheme \<times> sock \<times> error_code" where
  "service_release ctl impl r =
     (if \<not> is_open impl then (r, impl, invalid_socket, basic_ec bad_descriptor)
      else
        let (r1, dat) = deregister_descriptor ctl (si_socket impl) (si_data impl) False r;
            (r2, dat1) = cleanup_descriptor_data dat r1
        in (r2, construct (impl\<lparr>si_data := dat1\<rparr>), si_socket impl, no_error))"

definition service_cancel ::
  "('d, 'z) base_impl_scheme \<Rightarrow> ('o, 'd, 'w, 'q, 't, 'a) reactor \<Rightarrow> ('o, 'd, 'w, 'q, 't, 'a) reactor \<times> error_code" where
  "service_cancel impl r =
     (if \<not> is_open impl then (r, basic_ec bad_descriptor) else (cancel_ops (si_data impl) r, no_error))"

definition type_state :: "int \<Rightarrow> sock_state" where
  "type_state type = (if type = SOCK_STREAM then stream_oriented else if type = SOCK_DGRAM then datagram_oriented else 0)"

text \<open>When the registration fails the holder closes the new socket.\<close>

definition do_open ::
  "('w, 'd) ctl \<Rightarrow> 'w kernel \<Rightarrow> 'd \<Rightarrow> ('d, 'z) base_impl_scheme \<Rightarrow> int \<Rightarrow> int \<Rightarrow> int \<Rightarrow> ('o, 'd, 'w, 'q, 't, 'a) reactor \<Rightarrow>
   ('o, 'd, 'w, 'q, 't, 'a) reactor \<times> ('d, 'z) base_impl_scheme \<times> error_code" where
  "do_open ctl k created impl af type protocol r =
     (if is_open impl then (r, impl, misc_ec already_open)
      else
        case on_kernel (sock_socket k af type protocol) r of
          (r1, sock, ec) \<Rightarrow>
            if sock = invalid_socket then (r1, impl, ec)
            else
              case register_descriptor ctl created sock r1 of
                (r2, d, err) \<Rightarrow>
                  if err \<noteq> 0 then
                    (r2\<lparr>r_kernel := holder_destroy k sock (r_kernel r2)\<rparr>, impl\<lparr>si_data := Some d\<rparr>, system_ec err)
                  else (r2, impl\<lparr>si_socket := sock, si_state := type_state type, si_data := Some d\<rparr>, no_error))"

definition do_assign ::
  "('w, 'd) ctl \<Rightarrow> 'd \<Rightarrow> ('d, 'z) base_impl_scheme \<Rightarrow> int \<Rightarrow> sock \<Rightarrow> ('o, 'd, 'w, 'q, 't, 'a) reactor \<Rightarrow>
   ('o, 'd, 'w, 'q, 't, 'a) reactor \<times> ('d, 'z) base_impl_scheme \<times> error_code" where
  "do_assign ctl created impl type native_socket r =
     (if is_open impl then (r, impl, misc_ec already_open)
      else
        case register_descriptor ctl created native_socket r of
          (r1, d, err) \<Rightarrow>
            if err \<noteq> 0 then (r1, impl\<lparr>si_data := Some d\<rparr>, system_ec err)
            else (r1, impl\<lparr>si_socket := native_socket, si_state := type_state type OR possible_dup, si_data := Some d\<rparr>, no_error))"

section \<open>Starting operations\<close>

text \<open>Making the socket non-blocking for an operation, whose \<open>ec_\<close> receives the error.\<close>

definition make_non_blocking ::
  "'w kernel \<Rightarrow> 'o \<Rightarrow> ('d, 'z) base_impl_scheme \<Rightarrow> ('o, 'd, 'w, 'q, 't, 'a) reactor \<Rightarrow>
   ('o, 'd, 'w, 'q, 't, 'a) reactor \<times> ('d, 'z) base_impl_scheme \<times> bool" where
  "make_non_blocking k op impl r =
     (if has (si_state impl) non_blocking then (r, impl, True)
      else
        case on_kernel (set_internal_non_blocking k (si_socket impl) (si_state impl) True) r of
          (r1, st, ok, ec) \<Rightarrow> (set_op_ec op ec r1, impl\<lparr>si_state := st\<rparr>, ok))"

definition service_start_op ::
  "('w, 'd) ctl \<Rightarrow> 'w kernel \<Rightarrow> ('o, 'w) performer \<Rightarrow> ('d, 'z) base_impl_scheme \<Rightarrow> op_type \<Rightarrow> 'o \<Rightarrow> bool \<Rightarrow> bool \<Rightarrow> bool \<Rightarrow>
   ('o, 'd, 'w, 'q, 't, 'a) reactor \<Rightarrow> ('o, 'd, 'w, 'q, 't, 'a) reactor \<times> ('d, 'z) base_impl_scheme" where
  "service_start_op ctl k perform impl ty op is_continuation is_non_blocking noop r =
     (if \<not> noop then
        (case make_non_blocking k op impl r of
           (r1, impl1, ok) \<Rightarrow>
             if ok then (start_op ctl perform ty (si_socket impl1) (si_data impl1) op is_continuation is_non_blocking r1, impl1)
             else (r_post_immediate op is_continuation r1, impl1))
      else (r_post_immediate op is_continuation r, impl))"

definition start_accept_op ::
  "('w, 'd) ctl \<Rightarrow> 'w kernel \<Rightarrow> ('o, 'w) performer \<Rightarrow> ('d, 'z) base_impl_scheme \<Rightarrow> 'o \<Rightarrow> bool \<Rightarrow> bool \<Rightarrow>
   ('o, 'd, 'w, 'q, 't, 'a) reactor \<Rightarrow> ('o, 'd, 'w, 'q, 't, 'a) reactor \<times> ('d, 'z) base_impl_scheme" where
  "start_accept_op ctl k perform impl op is_continuation peer_is_open r =
     (if \<not> peer_is_open then service_start_op ctl k perform impl ReadOp op is_continuation True False r
      else (r_post_immediate op is_continuation (set_op_ec op (misc_ec already_open) r), impl))"

definition start_connect_op ::
  "('w, 'd) ctl \<Rightarrow> 'w kernel \<Rightarrow> ('o, 'w) performer \<Rightarrow> ('d, 'z) base_impl_scheme \<Rightarrow> 'o \<Rightarrow> bool \<Rightarrow> nat \<Rightarrow> nat \<Rightarrow>
   ('o, 'd, 'w, 'q, 't, 'a) reactor \<Rightarrow> ('o, 'd, 'w, 'q, 't, 'a) reactor \<times> ('d, 'z) base_impl_scheme" where
  "start_connect_op ctl k perform impl op is_continuation addr addrlen r =
     (case make_non_blocking k op impl r of
        (r1, impl1, ok) \<Rightarrow>
          if ok then
            (case on_kernel (sock_connect k (si_socket impl1) addr addrlen) r1 of
               (r2, result, ec) \<Rightarrow>
                 let r3 = set_op_ec op ec r2 in
                 if result \<noteq> 0 \<and> (ec = basic_ec in_progress \<or> ec = basic_ec would_block)
                 then (start_op ctl perform connect_op (si_socket impl1) (si_data impl1) op is_continuation False
                         (set_op_ec op no_error r3), impl1)
                 else (r_post_immediate op is_continuation r3, impl1))
          else (r_post_immediate op is_continuation r1, impl1))"

text \<open>\<open>wait_type\<close>; any other value is an invalid argument.\<close>

datatype wait_type = WaitRead | WaitWrite | WaitError | WaitOther

definition service_wait :: "'w kernel \<Rightarrow> ('d, 'z) base_impl_scheme \<Rightarrow> wait_type \<Rightarrow> 'w \<Rightarrow> 'w \<times> error_code" where
  "service_wait k impl wt w =
     (case wt of
        WaitRead \<Rightarrow> (case poll_read k (si_socket impl) (si_state impl) (- 1) w of (w1, r, ec) \<Rightarrow> (w1, ec))
      | WaitWrite \<Rightarrow> (case poll_write k (si_socket impl) (si_state impl) (- 1) w of (w1, r, ec) \<Rightarrow> (w1, ec))
      | WaitError \<Rightarrow> (case poll_error k (si_socket impl) (si_state impl) (- 1) w of (w1, r, ec) \<Rightarrow> (w1, ec))
      | WaitOther \<Rightarrow> (w, basic_ec invalid_argument))"

definition async_wait ::
  "('w, 'd) ctl \<Rightarrow> 'w kernel \<Rightarrow> ('o, 'w) performer \<Rightarrow> ('d, 'z) base_impl_scheme \<Rightarrow> wait_type \<Rightarrow> 'o \<Rightarrow> bool \<Rightarrow>
   ('o, 'd, 'w, 'q, 't, 'a) reactor \<Rightarrow> ('o, 'd, 'w, 'q, 't, 'a) reactor \<times> ('d, 'z) base_impl_scheme" where
  "async_wait ctl k perform impl wt op is_continuation r =
     (case wt of
        WaitRead \<Rightarrow> service_start_op ctl k perform impl ReadOp op is_continuation False False r
      | WaitWrite \<Rightarrow> service_start_op ctl k perform impl WriteOp op is_continuation False False r
      | WaitError \<Rightarrow> service_start_op ctl k perform impl ExceptOp op is_continuation False False r
      | WaitOther \<Rightarrow> (r_post_immediate op is_continuation (set_op_ec op (basic_ec invalid_argument) r), impl))"

section \<open>Buffers for the kernel\<close>

text \<open>\<open>buffer_sequence_adapter\<close>: the loops over at most \<open>max_buffers\<close> of the sequence.\<close>

fun adapter_init :: "buf list \<Rightarrow> nat \<Rightarrow> nat \<Rightarrow> buf list \<times> nat" where
  "adapter_init [] cnt total_size = ([], total_size)"
| "adapter_init (b # bs) cnt total_size =
     (if cnt < adapter_max_buffers
      then (case adapter_init bs (cnt + 1) (total_size + buf_size b) of (iovs, tot) \<Rightarrow> (b # iovs, tot))
      else ([], total_size))"

definition adapter_buffers :: "buf list \<Rightarrow> buf list" where
  "adapter_buffers bs = fst (adapter_init bs 0 0)"

definition adapter_total_size :: "buf list \<Rightarrow> nat" where
  "adapter_total_size bs = snd (adapter_init bs 0 0)"

fun adapter_all_empty_loop :: "buf list \<Rightarrow> nat \<Rightarrow> bool" where
  "adapter_all_empty_loop [] i = True"
| "adapter_all_empty_loop (b # bs) i =
     (if i < adapter_max_buffers then (if buf_size b > 0 then False else adapter_all_empty_loop bs (i + 1)) else True)"

definition adapter_all_empty :: "buf list \<Rightarrow> bool" where
  "adapter_all_empty bs = adapter_all_empty_loop bs 0"

fun adapter_first :: "buf list \<Rightarrow> buf" where
  "adapter_first [] = \<lparr>buf_data = 0, buf_size = 0\<rparr>"
| "adapter_first (b # bs) = (if buf_size b \<noteq> 0 then b else adapter_first bs)"

section \<open>Sending and receiving\<close>

definition message_out_of_band :: "32 word" where "message_out_of_band = 1"

abbreviation out_of_band :: "32 word \<Rightarrow> bool" where
  "out_of_band flags \<equiv> flags AND message_out_of_band \<noteq> 0"

definition service_send :: "'w kernel \<Rightarrow> ('d, 'z) base_impl_scheme \<Rightarrow> buf list \<Rightarrow> 32 word \<Rightarrow> 'w \<Rightarrow> ('w \<times> nat \<times> error_code) option" where
  "service_send k impl buffers flags w =
     sync_send k (si_socket impl) (si_state impl) (adapter_buffers buffers) flags (adapter_total_size buffers = 0) w"

definition service_receive :: "'w kernel \<Rightarrow> ('d, 'z) base_impl_scheme \<Rightarrow> buf list \<Rightarrow> 32 word \<Rightarrow> 'w \<Rightarrow> ('w \<times> nat \<times> error_code) option" where
  "service_receive k impl buffers flags w =
     sync_recv k (si_socket impl) (si_state impl) (adapter_buffers buffers) flags (adapter_total_size buffers = 0) w"

definition service_receive_with_flags ::
  "'w kernel \<Rightarrow> ('d, 'z) base_impl_scheme \<Rightarrow> buf list \<Rightarrow> 32 word \<Rightarrow> 32 word \<Rightarrow> 'w \<Rightarrow> ('w \<times> 32 word \<times> nat \<times> error_code) option" where
  "service_receive_with_flags k impl buffers in_flags out_flags w =
     sync_recvmsg k (si_socket impl) (si_state impl) (adapter_buffers buffers) in_flags out_flags w"

text \<open>The forms with \<open>null_buffers\<close> wait for readiness.\<close>

definition service_send_null :: "'w kernel \<Rightarrow> ('d, 'z) base_impl_scheme \<Rightarrow> 'w \<Rightarrow> 'w \<times> nat \<times> error_code" where
  "service_send_null k impl w = (case poll_write k (si_socket impl) (si_state impl) (- 1) w of (w1, r, ec) \<Rightarrow> (w1, 0, ec))"

definition service_receive_null :: "'w kernel \<Rightarrow> ('d, 'z) base_impl_scheme \<Rightarrow> 'w \<Rightarrow> 'w \<times> nat \<times> error_code" where
  "service_receive_null k impl w = (case poll_read k (si_socket impl) (si_state impl) (- 1) w of (w1, r, ec) \<Rightarrow> (w1, 0, ec))"

definition async_send ::
  "('w, 'd) ctl \<Rightarrow> 'w kernel \<Rightarrow> ('o, 'w) performer \<Rightarrow> ('d, 'z) base_impl_scheme \<Rightarrow> buf list \<Rightarrow> 'o \<Rightarrow> bool \<Rightarrow>
   ('o, 'd, 'w, 'q, 't, 'a) reactor \<Rightarrow> ('o, 'd, 'w, 'q, 't, 'a) reactor \<times> ('d, 'z) base_impl_scheme" where
  "async_send ctl k perform impl buffers op is_continuation r =
     service_start_op ctl k perform impl WriteOp op is_continuation True
       (has (si_state impl) stream_oriented \<and> adapter_all_empty buffers) r"

definition async_send_null ::
  "('w, 'd) ctl \<Rightarrow> 'w kernel \<Rightarrow> ('o, 'w) performer \<Rightarrow> ('d, 'z) base_impl_scheme \<Rightarrow> 'o \<Rightarrow> bool \<Rightarrow>
   ('o, 'd, 'w, 'q, 't, 'a) reactor \<Rightarrow> ('o, 'd, 'w, 'q, 't, 'a) reactor \<times> ('d, 'z) base_impl_scheme" where
  "async_send_null ctl k perform impl op is_continuation r =
     service_start_op ctl k perform impl WriteOp op is_continuation False False r"

definition async_receive ::
  "('w, 'd) ctl \<Rightarrow> 'w kernel \<Rightarrow> ('o, 'w) performer \<Rightarrow> ('d, 'z) base_impl_scheme \<Rightarrow> buf list \<Rightarrow> 32 word \<Rightarrow> 'o \<Rightarrow> bool \<Rightarrow>
   ('o, 'd, 'w, 'q, 't, 'a) reactor \<Rightarrow> ('o, 'd, 'w, 'q, 't, 'a) reactor \<times> ('d, 'z) base_impl_scheme" where
  "async_receive ctl k perform impl buffers flags op is_continuation r =
     service_start_op ctl k perform impl (if out_of_band flags then ExceptOp else ReadOp) op is_continuation
       (\<not> out_of_band flags) (has (si_state impl) stream_oriented \<and> adapter_all_empty buffers) r"

definition async_receive_null ::
  "('w, 'd) ctl \<Rightarrow> 'w kernel \<Rightarrow> ('o, 'w) performer \<Rightarrow> ('d, 'z) base_impl_scheme \<Rightarrow> 32 word \<Rightarrow> 'o \<Rightarrow> bool \<Rightarrow>
   ('o, 'd, 'w, 'q, 't, 'a) reactor \<Rightarrow> ('o, 'd, 'w, 'q, 't, 'a) reactor \<times> ('d, 'z) base_impl_scheme" where
  "async_receive_null ctl k perform impl flags op is_continuation r =
     service_start_op ctl k perform impl (if out_of_band flags then ExceptOp else ReadOp) op is_continuation False False r"

definition async_receive_with_flags ::
  "('w, 'd) ctl \<Rightarrow> 'w kernel \<Rightarrow> ('o, 'w) performer \<Rightarrow> ('d, 'z) base_impl_scheme \<Rightarrow> 32 word \<Rightarrow> 'o \<Rightarrow> bool \<Rightarrow>
   ('o, 'd, 'w, 'q, 't, 'a) reactor \<Rightarrow> ('o, 'd, 'w, 'q, 't, 'a) reactor \<times> ('d, 'z) base_impl_scheme" where
  "async_receive_with_flags ctl k perform impl in_flags op is_continuation r =
     service_start_op ctl k perform impl (if out_of_band in_flags then ExceptOp else ReadOp) op is_continuation
       (\<not> out_of_band in_flags) False r"

definition async_receive_from ::
  "('w, 'd) ctl \<Rightarrow> 'w kernel \<Rightarrow> ('o, 'w) performer \<Rightarrow> ('d, 'z) base_impl_scheme \<Rightarrow> 32 word \<Rightarrow> 'o \<Rightarrow> bool \<Rightarrow>
   ('o, 'd, 'w, 'q, 't, 'a) reactor \<Rightarrow> ('o, 'd, 'w, 'q, 't, 'a) reactor \<times> ('d, 'z) base_impl_scheme" where
  "async_receive_from ctl k perform impl flags op is_continuation r =
     service_start_op ctl k perform impl (if out_of_band flags then ExceptOp else ReadOp) op is_continuation True False r"

definition async_send_to ::
  "('w, 'd) ctl \<Rightarrow> 'w kernel \<Rightarrow> ('o, 'w) performer \<Rightarrow> ('d, 'z) base_impl_scheme \<Rightarrow> 'o \<Rightarrow> bool \<Rightarrow>
   ('o, 'd, 'w, 'q, 't, 'a) reactor \<Rightarrow> ('o, 'd, 'w, 'q, 't, 'a) reactor \<times> ('d, 'z) base_impl_scheme" where
  "async_send_to ctl k perform impl op is_continuation r =
     service_start_op ctl k perform impl WriteOp op is_continuation True False r"

definition service_send_to ::
  "'w kernel \<Rightarrow> ('d, 'z) base_impl_scheme \<Rightarrow> buf list \<Rightarrow> nat \<Rightarrow> nat \<Rightarrow> 32 word \<Rightarrow> 'w \<Rightarrow> ('w \<times> nat \<times> error_code) option" where
  "service_send_to k impl buffers addr addrlen flags w =
     sync_sendto k (si_socket impl) (si_state impl) (adapter_buffers buffers) flags addr addrlen w"

text \<open>The sender's endpoint takes the length the kernel wrote; \<open>resize\<close> may throw.\<close>

definition service_receive_from ::
  "'w kernel \<Rightarrow> ('d, 'z) base_impl_scheme \<Rightarrow> buf list \<Rightarrow> nat \<Rightarrow> nat \<Rightarrow> 32 word \<Rightarrow> 'w \<Rightarrow>
   ('w \<times> (error_code + nat \<times> error_code)) option" where
  "service_receive_from k impl buffers addr capacity flags w =
     map_option (\<lambda>(w1, addr_len, bytes_recvd, ec).
         (w1, if \<not> ec_failed ec
              then (case endpoint_resize addr_len of Inl e \<Rightarrow> Inl e | Inr _ \<Rightarrow> Inr (bytes_recvd, ec))
              else Inr (bytes_recvd, ec)))
       (sync_recvfrom k (si_socket impl) (si_state impl) (adapter_buffers buffers) flags addr capacity w)"

section \<open>The operations' \<open>do_perform\<close>\<close>

definition perform_status :: "bool \<Rightarrow> op_status" where
  "perform_status finished = (if finished then Done else NotDone)"

text \<open>The results: the status, the number of bytes and the \<open>ec_\<close> of the operation, after the kernel.\<close>

definition recv_op_perform ::
  "'w kernel \<Rightarrow> sock \<Rightarrow> sock_state \<Rightarrow> buf list \<Rightarrow> 32 word \<Rightarrow> nat \<Rightarrow> 'w \<Rightarrow> ('w \<times> op_status \<times> nat \<times> error_code) option" where
  "recv_op_perform k s st buffers flags bytes_transferred w =
     map_option (\<lambda>(w1, finished, n, ec).
         (w1, if finished \<and> has st stream_oriented \<and> n = 0 then DoneAndExhausted else perform_status finished, n, ec))
       (non_blocking_recv k s (adapter_buffers buffers) flags (has st stream_oriented) bytes_transferred w)"

definition send_op_perform ::
  "'w kernel \<Rightarrow> sock \<Rightarrow> sock_state \<Rightarrow> buf list \<Rightarrow> 32 word \<Rightarrow> nat \<Rightarrow> 'w \<Rightarrow> ('w \<times> op_status \<times> nat \<times> error_code) option" where
  "send_op_perform k s st buffers flags bytes_transferred w =
     map_option (\<lambda>(w1, finished, n, ec).
         (w1, if finished \<and> has st stream_oriented \<and> n < adapter_total_size buffers then DoneAndExhausted
              else perform_status finished, n, ec))
       (non_blocking_send k s (adapter_buffers buffers) flags bytes_transferred w)"

definition recvmsg_op_perform ::
  "'w kernel \<Rightarrow> sock \<Rightarrow> buf list \<Rightarrow> 32 word \<Rightarrow> 32 word \<Rightarrow> nat \<Rightarrow> 'w \<Rightarrow> ('w \<times> 32 word \<times> op_status \<times> nat \<times> error_code) option" where
  "recvmsg_op_perform k s buffers in_flags out_flags bytes_transferred w =
     map_option (\<lambda>(w1, fl, finished, n, ec). (w1, fl, perform_status finished, n, ec))
       (non_blocking_recvmsg k s (adapter_buffers buffers) in_flags out_flags bytes_transferred w)"

text \<open>The source declares \<open>non_blocking_sendto\<close> and has no definition of it: it is an argument.\<close>

type_synonym 'w sendto_call = "sock \<Rightarrow> buf list \<Rightarrow> 32 word \<Rightarrow> nat \<Rightarrow> nat \<Rightarrow> nat \<Rightarrow> 'w \<Rightarrow> ('w \<times> bool \<times> nat \<times> error_code) option"

definition sendto_op_perform ::
  "'w sendto_call \<Rightarrow> sock \<Rightarrow> buf list \<Rightarrow> 32 word \<Rightarrow> nat \<Rightarrow> nat \<Rightarrow> nat \<Rightarrow> 'w \<Rightarrow> ('w \<times> op_status \<times> nat \<times> error_code) option" where
  "sendto_op_perform non_blocking_sendto s buffers flags addr addrlen bytes_transferred w =
     map_option (\<lambda>(w1, finished, n, ec). (w1, perform_status finished, n, ec))
       (non_blocking_sendto s (adapter_buffers buffers) flags addr addrlen bytes_transferred w)"

definition recvfrom_op_perform ::
  "'w kernel \<Rightarrow> sock \<Rightarrow> buf list \<Rightarrow> 32 word \<Rightarrow> nat \<Rightarrow> nat \<Rightarrow> nat \<Rightarrow> 'w \<Rightarrow>
   ('w \<times> (error_code + op_status \<times> nat \<times> error_code)) option" where
  "recvfrom_op_perform k s buffers flags addr capacity bytes_transferred w =
     map_option (\<lambda>(w1, addr_len, finished, n, ec).
         (w1, if perform_status finished \<noteq> NotDone \<and> \<not> ec_failed ec
              then (case endpoint_resize addr_len of Inl e \<Rightarrow> Inl e | Inr _ \<Rightarrow> Inr (perform_status finished, n, ec))
              else Inr (perform_status finished, n, ec)))
       (non_blocking_recvfrom k s (adapter_buffers buffers) flags addr capacity bytes_transferred w)"

text \<open>Accepting: the operation holds the new socket; what it held before is closed.\<close>

definition accept_op_perform ::
  "'w kernel \<Rightarrow> sock \<Rightarrow> sock_state \<Rightarrow> nat option \<Rightarrow> nat \<Rightarrow> sock \<Rightarrow> 'w \<Rightarrow> ('w \<times> op_status \<times> sock \<times> nat \<times> error_code) option" where
  "accept_op_perform k s st addr addrlen held w =
     map_option (\<lambda>(w1, finished, new_socket, addrlen1, ec).
         (case holder_reset k held new_socket w1 of (w2, held1) \<Rightarrow> (w2, perform_status finished, held1, addrlen1, ec)))
       (non_blocking_accept k s st addr addrlen w)"

definition connect_op_perform :: "'w kernel \<Rightarrow> sock \<Rightarrow> error_code \<Rightarrow> 'w \<Rightarrow> 'w \<times> op_status \<times> error_code" where
  "connect_op_perform k s ec w =
     (case non_blocking_connect k s ec w of (w1, finished, ec1) \<Rightarrow> (w1, perform_status finished, ec1))"

definition wait_op_perform :: "'w \<Rightarrow> 'w \<times> op_status" where
  "wait_op_perform w = (w, Done)"

definition service_open ::
  "('w, 'd) ctl \<Rightarrow> 'w kernel \<Rightarrow> 'd \<Rightarrow> ('d, 'z) socket_impl_scheme \<Rightarrow> protocol \<Rightarrow> ('o, 'd, 'w, 'q, 't, 'a) reactor \<Rightarrow>
   ('o, 'd, 'w, 'q, 't, 'a) reactor \<times> ('d, 'z) socket_impl_scheme \<times> error_code" where
  "service_open ctl k created impl protocol r =
     (case do_open ctl k created impl (p_family protocol) (p_type protocol) (p_protocol protocol) r of
        (r1, impl1, ec) \<Rightarrow> (r1, if \<not> ec_failed ec then impl1\<lparr>si_protocol := protocol\<rparr> else impl1, ec))"

definition service_assign ::
  "('w, 'd) ctl \<Rightarrow> 'd \<Rightarrow> ('d, 'z) socket_impl_scheme \<Rightarrow> protocol \<Rightarrow> sock \<Rightarrow> ('o, 'd, 'w, 'q, 't, 'a) reactor \<Rightarrow>
   ('o, 'd, 'w, 'q, 't, 'a) reactor \<times> ('d, 'z) socket_impl_scheme \<times> error_code" where
  "service_assign ctl created impl protocol native_socket r =
     (case do_assign ctl created impl (p_type protocol) native_socket r of
        (r1, impl1, ec) \<Rightarrow> (r1, if \<not> ec_failed ec then impl1\<lparr>si_protocol := protocol\<rparr> else impl1, ec))"

text \<open>Handing the held socket to the peer, in \<open>accept\<close> and in the operation's \<open>do_assign\<close>: the
  endpoint is resized first, and the holder closes what the peer did not take. The result is the
  exception of \<open>resize\<close>, or the peer and the code.\<close>

definition assign_peer ::
  "('w, 'd) ctl \<Rightarrow> 'w kernel \<Rightarrow> 'd \<Rightarrow> protocol \<Rightarrow> sock \<Rightarrow> bool \<Rightarrow> nat \<Rightarrow> ('d, 'z) socket_impl_scheme \<Rightarrow> error_code \<Rightarrow>
   ('o, 'd, 'w, 'q, 't, 'a) reactor \<Rightarrow> ('o, 'd, 'w, 'q, 't, 'a) reactor \<times> (error_code + ('d, 'z) socket_impl_scheme \<times> error_code)" where
  "assign_peer ctl k created protocol new_socket has_endpoint addrlen peer ec r =
     (if new_socket \<noteq> invalid_socket then
        (if has_endpoint \<and> (\<exists>e. endpoint_resize addrlen = Inl e)
         then (r\<lparr>r_kernel := holder_destroy k new_socket (r_kernel r)\<rparr>, Inl (projl (endpoint_resize addrlen)))
         else
           case service_assign ctl created peer protocol new_socket r of
             (r1, peer1, ec1) \<Rightarrow>
               (if ec_failed ec1 then r1\<lparr>r_kernel := holder_destroy k new_socket (r_kernel r1)\<rparr> else r1, Inr (peer1, ec1)))
      else (r, Inr (peer, ec)))"

text \<open>When the operation is destroyed instead of completed its holder closes the socket.\<close>

definition accept_op_complete ::
  "('w, 'd) ctl \<Rightarrow> 'w kernel \<Rightarrow> 'd \<Rightarrow> protocol \<Rightarrow> sock \<Rightarrow> bool \<Rightarrow> nat \<Rightarrow> ('d, 'z) socket_impl_scheme \<Rightarrow> error_code \<Rightarrow> bool \<Rightarrow>
   ('o, 'd, 'w, 'q, 't, 'a) reactor \<Rightarrow> ('o, 'd, 'w, 'q, 't, 'a) reactor \<times> (error_code + ('d, 'z) socket_impl_scheme \<times> error_code)" where
  "accept_op_complete ctl k created protocol held has_endpoint addrlen peer ec owner r =
     (if owner then assign_peer ctl k created protocol held has_endpoint addrlen peer ec r
      else (r\<lparr>r_kernel := holder_destroy k held (r_kernel r)\<rparr>, Inr (peer, ec)))"

definition service_accept ::
  "('w, 'd) ctl \<Rightarrow> 'w kernel \<Rightarrow> 'd \<Rightarrow> ('d, 'y) socket_impl_scheme \<Rightarrow> ('d, 'z) socket_impl_scheme \<Rightarrow> (nat \<times> nat) option \<Rightarrow>
   ('o, 'd, 'w, 'q, 't, 'a) reactor \<Rightarrow>
   (('o, 'd, 'w, 'q, 't, 'a) reactor \<times> (error_code + ('d, 'z) socket_impl_scheme \<times> error_code)) option" where
  "service_accept ctl k created impl peer peer_endpoint r =
     (if is_open peer then Some (r, Inr (peer, misc_ec already_open))
      else
        case sync_accept k (si_socket impl) (si_state impl) (map_option fst peer_endpoint)
               (case peer_endpoint of None \<Rightarrow> 0 | Some (addr, capacity) \<Rightarrow> capacity) (r_kernel r) of
          None \<Rightarrow> None
        | Some (w1, new_socket, addr_len, ec) \<Rightarrow>
            Some (assign_peer ctl k created (si_protocol impl) new_socket (peer_endpoint \<noteq> None) addr_len peer ec
                    (r\<lparr>r_kernel := w1\<rparr>)))"

definition async_accept ::
  "('w, 'd) ctl \<Rightarrow> 'w kernel \<Rightarrow> ('o, 'w) performer \<Rightarrow> ('d, 'z) base_impl_scheme \<Rightarrow> ('d, 'y) base_impl_scheme \<Rightarrow> 'o \<Rightarrow> bool \<Rightarrow>
   ('o, 'd, 'w, 'q, 't, 'a) reactor \<Rightarrow> ('o, 'd, 'w, 'q, 't, 'a) reactor \<times> ('d, 'z) base_impl_scheme" where
  "async_accept ctl k perform impl peer op is_continuation r =
     start_accept_op ctl k perform impl op is_continuation (is_open peer) r"

section \<open>The rest of the service\<close>

definition move_construct ::
  "protocol \<Rightarrow> ('d, 'z) socket_impl_scheme \<Rightarrow> ('d, 'y) socket_impl_scheme \<Rightarrow>
   ('d, 'z) socket_impl_scheme \<times> ('d, 'y) socket_impl_scheme" where
  "move_construct default_protocol impl other =
     (case base_move_construct impl other of
        (impl1, other1) \<Rightarrow> (impl1\<lparr>si_protocol := si_protocol other\<rparr>, other1\<lparr>si_protocol := default_protocol\<rparr>))"

definition move_assign ::
  "('w, 'd) ctl \<Rightarrow> 'w kernel \<Rightarrow> protocol \<Rightarrow> ('d, 'z) socket_impl_scheme \<Rightarrow> ('d, 'y) socket_impl_scheme \<Rightarrow>
   ('o, 'd, 'w, 'q, 't, 'a) reactor \<Rightarrow>
   ('o, 'd, 'w, 'q, 't, 'a) reactor \<times> ('d, 'z) socket_impl_scheme \<times> ('d, 'y) socket_impl_scheme" where
  "move_assign ctl k default_protocol impl other r =
     (case base_move_assign ctl k impl other r of
        (r1, impl1, other1) \<Rightarrow> (r1, impl1\<lparr>si_protocol := si_protocol other\<rparr>, other1\<lparr>si_protocol := default_protocol\<rparr>))"

text \<open>The two mode queries.\<close>

definition user_non_blocking :: "('d, 'z) base_impl_scheme \<Rightarrow> bool" where
  "user_non_blocking impl \<longleftrightarrow> has (si_state impl) user_set_non_blocking"

definition is_native_non_blocking :: "('d, 'z) base_impl_scheme \<Rightarrow> bool" where
  "is_native_non_blocking impl \<longleftrightarrow> has (si_state impl) internal_non_blocking"

definition service_bind :: "'w kernel \<Rightarrow> ('d, 'z) base_impl_scheme \<Rightarrow> nat \<Rightarrow> nat \<Rightarrow> 'w \<Rightarrow> 'w \<times> error_code" where
  "service_bind k impl addr addrlen w = (case sock_bind k (si_socket impl) addr addrlen w of (w1, r, ec) \<Rightarrow> (w1, ec))"

definition service_listen :: "'w kernel \<Rightarrow> ('d, 'z) base_impl_scheme \<Rightarrow> int \<Rightarrow> 'w \<Rightarrow> 'w \<times> error_code" where
  "service_listen k impl backlog w = (case sock_listen k (si_socket impl) backlog w of (w1, r, ec) \<Rightarrow> (w1, ec))"

definition service_shutdown :: "'w kernel \<Rightarrow> ('d, 'z) base_impl_scheme \<Rightarrow> int \<Rightarrow> 'w \<Rightarrow> 'w \<times> error_code" where
  "service_shutdown k impl what w = (case sock_shutdown k (si_socket impl) what w of (w1, r, ec) \<Rightarrow> (w1, ec))"

definition service_non_blocking ::
  "'w kernel \<Rightarrow> ('d, 'z) base_impl_scheme \<Rightarrow> bool \<Rightarrow> 'w \<Rightarrow> 'w \<times> ('d, 'z) base_impl_scheme \<times> error_code" where
  "service_non_blocking k impl mode w =
     (case set_user_non_blocking k (si_socket impl) (si_state impl) mode w of (w1, st, ok, ec) \<Rightarrow> (w1, impl\<lparr>si_state := st\<rparr>, ec))"

definition service_native_non_blocking ::
  "'w kernel \<Rightarrow> ('d, 'z) base_impl_scheme \<Rightarrow> bool \<Rightarrow> 'w \<Rightarrow> 'w \<times> ('d, 'z) base_impl_scheme \<times> error_code" where
  "service_native_non_blocking k impl mode w =
     (case set_internal_non_blocking k (si_socket impl) (si_state impl) mode w of
        (w1, st, ok, ec) \<Rightarrow> (w1, impl\<lparr>si_state := st\<rparr>, ec))"

definition service_io_control ::
  "'w kernel \<Rightarrow> ('d, 'z) base_impl_scheme \<Rightarrow> int \<Rightarrow> int \<Rightarrow> 'w \<Rightarrow> 'w \<times> ('d, 'z) base_impl_scheme \<times> int \<times> error_code" where
  "service_io_control k impl name dat w =
     (case sock_ioctl k (si_socket impl) (si_state impl) name dat w of
        (w1, st, result, dat1, ec) \<Rightarrow> (w1, impl\<lparr>si_state := st\<rparr>, dat1, ec))"

text \<open>An option is its level, name and bytes; \<open>get_option\<close> passes the option's own storage.\<close>

definition service_set_option ::
  "'w kernel \<Rightarrow> ('d, 'z) base_impl_scheme \<Rightarrow> int \<Rightarrow> int \<Rightarrow> 8 word list \<Rightarrow> 'w \<Rightarrow> 'w \<times> ('d, 'z) base_impl_scheme \<times> error_code" where
  "service_set_option k impl level name dat w =
     (case sock_setsockopt k (si_socket impl) (si_state impl) level name dat (length dat) w of
        (w1, st, result, ec) \<Rightarrow> (w1, impl\<lparr>si_state := st\<rparr>, ec))"

definition service_get_option ::
  "'w kernel \<Rightarrow> ('d, 'z) base_impl_scheme \<Rightarrow> int \<Rightarrow> int \<Rightarrow> 8 word list \<Rightarrow> 'w \<Rightarrow> 'w \<times> 8 word list \<times> nat \<times> error_code" where
  "service_get_option k impl level name dat w =
     (case sock_getsockopt k (si_socket impl) (si_state impl) level name dat (length dat) w of
        (w1, result, dat1, len, ec) \<Rightarrow> (w1, dat1, len, ec))"

definition async_connect ::
  "('w, 'd) ctl \<Rightarrow> 'w kernel \<Rightarrow> ('o, 'w) performer \<Rightarrow> ('d, 'z) base_impl_scheme \<Rightarrow> nat \<Rightarrow> nat \<Rightarrow> 'o \<Rightarrow> bool \<Rightarrow>
   ('o, 'd, 'w, 'q, 't, 'a) reactor \<Rightarrow> ('o, 'd, 'w, 'q, 't, 'a) reactor \<times> ('d, 'z) base_impl_scheme" where
  "async_connect ctl k perform impl addr addrlen op is_continuation r =
     start_connect_op ctl k perform impl op is_continuation addr addrlen r"

definition service_connect :: "'w kernel \<Rightarrow> ('d, 'z) base_impl_scheme \<Rightarrow> nat \<Rightarrow> nat \<Rightarrow> 'w \<Rightarrow> 'w \<times> error_code" where
  "service_connect k impl addr addrlen w = sync_connect k (si_socket impl) addr addrlen w"

text \<open>\<open>local_endpoint\<close> and \<open>remote_endpoint\<close>: \<open>None\<close> for the default endpoint of a failed call, otherwise
  the length of the address, or the exception of \<open>resize\<close>.\<close>

definition service_local_endpoint ::
  "'w kernel \<Rightarrow> ('d, 'z) base_impl_scheme \<Rightarrow> nat \<Rightarrow> nat \<Rightarrow> 'w \<Rightarrow> 'w \<times> (error_code + nat option) \<times> error_code" where
  "service_local_endpoint k impl addr capacity w =
     (case sock_getsockname k (si_socket impl) addr capacity w of
        (w1, result, addr_len, ec) \<Rightarrow>
          (w1, if result \<noteq> 0 then Inr None
               else (case endpoint_resize addr_len of Inl e \<Rightarrow> Inl e | Inr _ \<Rightarrow> Inr (Some addr_len)), ec))"

definition service_remote_endpoint ::
  "'w kernel \<Rightarrow> ('d, 'z) base_impl_scheme \<Rightarrow> nat \<Rightarrow> nat \<Rightarrow> 'w \<Rightarrow> 'w \<times> (error_code + nat option) \<times> error_code" where
  "service_remote_endpoint k impl addr capacity w =
     (case sock_getpeername k (si_socket impl) addr capacity w of
        (w1, result, addr_len, ec) \<Rightarrow>
          (w1, if result \<noteq> 0 then Inr None
               else (case endpoint_resize addr_len of Inl e \<Rightarrow> Inl e | Inr _ \<Rightarrow> Inr (Some addr_len)), ec))"

end
