(* ===== verification/SocketOpsProps.thy ===== *)
theory SocketOpsProps
  imports SocketOps
begin

text \<open>
  What the transfer operations of \<open>socket_ops\<close> promise, under laws about the kernel: the blocking
  receive stores the next bytes of the stream, and a non-blocking attempt ends as a blocking operation
  on a socket its user made non-blocking.
\<close>

section \<open>Laws of the kernel\<close>

text \<open>
  The documented behaviour of \<open>recvmsg\<close>, with no flags, and \<open>poll\<close> on one stream socket: a positive result stores as
  many of the next incoming bytes in the first bytes of the buffers; a failure sets \<open>errno\<close> and, like
  \<open>poll\<close>, leaves data and memory alone. \<open>patience\<close> bounds how often \<open>poll\<close> wakes up for nothing: a
  receive that would block, followed by a \<open>poll\<close>, brings it down.
\<close>

definition recv_law :: "('s \<Rightarrow> byte list) \<Rightarrow> 's world kernel \<Rightarrow> sock \<Rightarrow> bool" where
  "recv_law incoming k s \<longleftrightarrow> (\<forall>bufs w w1 r errno x. k_recvmsg k s bufs 0 None 0 w = (w1, r, errno, x) \<longrightarrow>
     (0 \<le> r \<longrightarrow> nat r \<le> length (baddrs bufs) \<and>
       (distinct (baddrs bufs) \<longrightarrow> received incoming w (take (nat r) (baddrs bufs)) w1)) \<and>
     (r < 0 \<longrightarrow> r = - 1 \<and> errno \<noteq> 0 \<and> received incoming w [] w1))"

definition poll_law :: "('s \<Rightarrow> byte list) \<Rightarrow> 's world kernel \<Rightarrow> sock \<Rightarrow> bool" where
  "poll_law incoming k s \<longleftrightarrow> (\<forall>w w1 r errno. k_poll k s POLLIN (- 1) w = (w1, r, errno) \<longrightarrow>
     received incoming w [] w1 \<and> (r < 0 \<longrightarrow> errno \<noteq> 0 \<and> errno \<noteq> basic_value would_block))"

definition patient :: "('w \<Rightarrow> nat) \<Rightarrow> 'w kernel \<Rightarrow> sock \<Rightarrow> bool" where
  "patient patience k s \<longleftrightarrow> (\<forall>bufs w w1 errno x w2 r2 errno2.
     k_recvmsg k s bufs 0 None 0 w = (w1, - 1, errno, x) \<longrightarrow> ec_blocked (system_ec errno) \<longrightarrow>
     k_poll k s POLLIN (- 1) w1 = (w2, r2, errno2) \<longrightarrow> patience w2 < patience w)"

lemma recv_lawD:
  assumes "recv_law incoming k s" and "k_recvmsg k s bufs 0 None 0 w = (w1, r, errno, x)"
  shows "0 \<le> r \<Longrightarrow> nat r \<le> length (baddrs bufs) \<and>
      (distinct (baddrs bufs) \<longrightarrow> received incoming w (take (nat r) (baddrs bufs)) w1)"
    "r < 0 \<Longrightarrow> r = - 1 \<and> errno \<noteq> 0 \<and> received incoming w [] w1"
  using assms(1) [unfolded recv_law_def, rule_format, OF assms(2)] by auto

lemma poll_lawD:
  assumes "poll_law incoming k s" and "k_poll k s POLLIN (- 1) w = (w1, r, errno)"
  shows "received incoming w [] w1" "r < 0 \<Longrightarrow> errno \<noteq> 0 \<and> errno \<noteq> 11"
  using assms(1) [unfolded poll_law_def, rule_format, OF assms(2)] by auto

lemma received_nothing: "received incoming w [] w1 \<Longrightarrow> received incoming w1 A w2 \<Longrightarrow> received incoming w A w2"
  by (auto simp: received_def)

lemma system_ec_simps [simp]: "ec_failed (system_ec e) \<longleftrightarrow> e \<noteq> 0" "ec_value (system_ec e) = e"
  "system_ec e = no_error \<longleftrightarrow> e = 0" "system_ec a = system_ec b \<longleftrightarrow> a = b"
  by (simp_all add: system_ec_def ec_failed_def no_error_def)

lemma ec_blocked_simps [simp]: "\<not> ec_blocked no_error" "\<not> ec_blocked (misc_ec m)" "ec_blocked (system_ec e) \<longleftrightarrow> e = 11"
  by (auto simp: ec_blocked_def basic_ec_def misc_ec_def no_error_def system_ec_def)

lemma basic_ec_system: "basic_ec e = system_ec (basic_value e)"
  by (simp add: basic_ec_def system_ec_def)

lemma other_categories [simp]: "misc_ec m \<noteq> system_ec e" "system_ec e \<noteq> misc_ec m" "no_error \<noteq> misc_ec m" "no_error = system_ec e \<longleftrightarrow> e = 0"
  by (auto simp: misc_ec_def system_ec_def no_error_def)

section \<open>The blocking receive\<close>

lemma sync_recv_loop:
  assumes recv: "recv_law incoming k s" and poll: "poll_law incoming k s" and pat: "patient patience k s"
    and valid: "s \<noteq> invalid_socket"
  shows "\<exists>w' n ec. sync_loop (plain (sock_recv k s bufs 0)) (stream_recv_verdict st) (poll_read k s 0 (- 1)) w () =
      Some (w', (), n, ec) \<and>
    n \<le> length (baddrs bufs) \<and> (distinct (baddrs bufs) \<longrightarrow> received incoming w (take n (baddrs bufs)) w') \<and>
    (has st stream_oriented \<longrightarrow> 0 < n \<or> ec_failed ec) \<and> (0 < n \<longrightarrow> \<not> ec_failed ec) \<and>
    (has st user_set_non_blocking \<or> \<not> ec_blocked ec)"
proof (induction "patience w" arbitrary: w rule: less_induct)
  case less
  obtain w1 r errno x where c: "k_recvmsg k s bufs 0 None 0 w = (w1, r, errno, x)"
    by (metis prod_cases4)
  note L = recv_lawD [OF recv c]
  have run: "sync_loop (plain (sock_recv k s bufs 0)) (stream_recv_verdict st) (poll_read k s 0 (- 1)) w () =
     (case stream_recv_verdict st r (if r \<ge> 0 then no_error else system_ec errno) of
        Some (n, ec1) \<Rightarrow> Some (w1, (), n, ec1)
      | None \<Rightarrow> (case poll_read k s 0 (- 1) w1 of (w2, ready, ec2) \<Rightarrow>
          if ready < 0 then Some (w2, (), 0, ec2)
          else sync_loop (plain (sock_recv k s bufs 0)) (stream_recv_verdict st) (poll_read k s 0 (- 1)) w2 ()))"
    by (subst sync_loop.simps) (simp add: plain_def sock_recv_def c nonneg_ok_def error_wrapper_def)
  show ?case
  proof (cases "r < 0 \<and> \<not> has st user_set_non_blocking \<and> errno = 11")
    case False
    then show ?thesis
      unfolding run using L
      by (cases "r < 0"; cases "r = 0")
        (auto simp: stream_recv_verdict_def failed_verdict_def basic_ec_system simp del: split_paired_Ex)
  next
    case True
    then have v: "stream_recv_verdict st r (if r \<ge> 0 then no_error else system_ec errno) = None"
      by (simp add: stream_recv_verdict_def failed_verdict_def basic_ec_system)
    obtain w2 ready errno2 where p: "k_poll k s POLLIN (- 1) w1 = (w2, ready, errno2)"
      by (metis prod_cases3)
    have n1: "received incoming w [] w1" and n2: "received incoming w1 [] w2"
      using L(2) True poll_lawD(1) [OF poll p] by auto
    have pr: "poll_read k s 0 (- 1) w1 = (w2, ready, if ready \<ge> 0 then no_error else system_ec errno2)"
      using valid p by (auto simp: poll_read_def poll_for_def error_wrapper_def)
    show ?thesis
    proof (cases "ready < 0")
      case neg: True
      have "received incoming w [] w2"
        using n1 n2 by (rule received_nothing)
      then show ?thesis
        unfolding run v using neg pr poll_lawD(2) [OF poll p] by auto
    next
      case pos: False
      have "r = - 1"
        using True L(2) by simp
      with pat [unfolded patient_def, rule_format, OF c [unfolded \<open>r = - 1\<close>] _ p] True have lt: "patience w2 < patience w"
        by simp
      from less [OF lt] show ?thesis
        unfolding run v using pos pr received_nothing [OF n1 received_nothing [OF n2]] by auto
    qed
  qed
qed

lemma sync_recv_correct:
  assumes "recv_law incoming k s" and "poll_law incoming k s" and "patient patience k s"
    and "s \<noteq> invalid_socket"
  shows "\<exists>w' n ec. sync_recv k s st bufs 0 all_empty w = Some (w', n, ec) \<and>
    n \<le> length (baddrs bufs) \<and> (distinct (baddrs bufs) \<longrightarrow> received incoming w (take n (baddrs bufs)) w') \<and>
    (has st stream_oriented \<longrightarrow> all_empty \<or> 0 < n \<or> ec_failed ec) \<and> (0 < n \<longrightarrow> \<not> ec_failed ec) \<and>
    (has st user_set_non_blocking \<or> \<not> ec_blocked ec)"
proof (cases "all_empty \<and> has st stream_oriented")
  case True
  then show ?thesis
    using assms(4) by (simp add: sync_recv_def received_none del: split_paired_Ex)
next
  case False
  obtain w' n ec where l: "sync_loop (plain (sock_recv k s bufs 0)) (stream_recv_verdict st) (poll_read k s 0 (- 1)) w () =
      Some (w', (), n, ec)" "n \<le> length (baddrs bufs)"
      "distinct (baddrs bufs) \<longrightarrow> received incoming w (take n (baddrs bufs)) w'"
      "has st stream_oriented \<longrightarrow> 0 < n \<or> ec_failed ec" "0 < n \<longrightarrow> \<not> ec_failed ec" "has st user_set_non_blocking \<or> \<not> ec_blocked ec"
    using sync_recv_loop [OF assms, of bufs st w] by (elim exE conjE) (rule that, assumption+)
  have "sync_recv k s st bufs 0 all_empty w = Some (w', n, ec)"
    using False assms(4) l(1) by (auto simp: sync_recv_def)
  with l(2-6) show ?thesis
    by (intro exI [of _ w'] exI [of _ n] exI [of _ ec] conjI) auto
qed

section \<open>One attempt\<close>

text \<open>A non-blocking attempt that no signal interrupts, against the blocking operation on a socket that its
  user made non-blocking.\<close>

lemma user_flag_nonzero [simp]: "user_set_non_blocking \<noteq> 0" "internal_non_blocking \<noteq> 0"
  by (simp_all add: user_set_non_blocking_def internal_non_blocking_def)

lemma user_flag_set [simp]:
  "(st OR user_set_non_blocking) AND user_set_non_blocking \<noteq> 0"
  "(st OR user_set_non_blocking) AND stream_oriented = st AND stream_oriented"
proof -
  have "(st OR user_set_non_blocking) AND user_set_non_blocking = user_set_non_blocking"
    by (simp add: bit_eq_iff bit_simps)
  then show "(st OR user_set_non_blocking) AND user_set_non_blocking \<noteq> 0"
    by (simp add: user_set_non_blocking_def)
  show "(st OR user_set_non_blocking) AND stream_oriented = st AND stream_oriented"
    by (simp add: user_set_non_blocking_def stream_oriented_def bit.conj_disj_distrib2)
qed

lemma non_blocking_once:
  assumes "attempt w x = (w1, x1, bytes, ec)" and "ec \<noteq> basic_ec interrupted" and "bytes \<ge> 0 \<Longrightarrow> ec = no_error"
  shows "non_blocking_loop attempt is_stream bt w x = Some
    (if is_stream \<and> bytes = 0 then (w1, x1, True, bt, misc_ec eof)
     else if bytes \<ge> 0 then (w1, x1, True, nat bytes, no_error)
     else if ec_blocked ec then (w1, x1, False, bt, ec) else (w1, x1, True, 0, ec))"
  using assms by (subst non_blocking_loop.simps) auto

lemma sync_loop_once:
  assumes "attempt w x = (w1, x1, bytes, ec)" and "verdict bytes ec = Some (n, ec1)"
  shows "sync_loop attempt verdict poll w x = Some (w1, x1, n, ec1)"
  using assms by (subst sync_loop.simps) simp

text \<open>A non-blocking receive is the blocking one on a socket whose user made it non-blocking: an attempt that
  a signal interrupted is repeated, and any other attempt leaves the same kernel and reports the same
  code, with the operation unfinished exactly when the code is that it would block, and with the same
  count, which is left untouched when it is unfinished or the stream has ended.\<close>

theorem receive_attempt_is_blocking:
  "(sock_recv k s bufs flags w = (w1, r, basic_ec interrupted) \<longrightarrow>
     non_blocking_recv k s bufs flags (has st stream_oriented) bt w =
     (if has st stream_oriented \<and> r = 0 then Some (w1, True, bt, misc_ec eof)
      else non_blocking_recv k s bufs flags (has st stream_oriented) bt w1)) \<and>
   (snd (snd (sock_recv k s bufs flags w)) \<noteq> basic_ec interrupted \<longrightarrow> s \<noteq> invalid_socket \<longrightarrow>
     non_blocking_recv k s bufs flags (has st stream_oriented) bt w =
     map_option (\<lambda>(w1, n, ec). (w1, \<not> ec_blocked ec, if ec_blocked ec \<or> ec = misc_ec eof then bt else n, ec))
       (sync_recv k s (st OR user_set_non_blocking) bufs flags False w))"
proof (rule conjI)
  show "sock_recv k s bufs flags w = (w1, r, basic_ec interrupted) \<longrightarrow>
     non_blocking_recv k s bufs flags (has st stream_oriented) bt w =
     (if has st stream_oriented \<and> r = 0 then Some (w1, True, bt, misc_ec eof)
      else non_blocking_recv k s bufs flags (has st stream_oriented) bt w1)"
    by (auto simp: non_blocking_recv_def plain_def non_blocking_loop.simps [of _ _ _ w])
next
  show "snd (snd (sock_recv k s bufs flags w)) \<noteq> basic_ec interrupted \<longrightarrow> s \<noteq> invalid_socket \<longrightarrow>
     non_blocking_recv k s bufs flags (has st stream_oriented) bt w =
     map_option (\<lambda>(w1, n, ec). (w1, \<not> ec_blocked ec, if ec_blocked ec \<or> ec = misc_ec eof then bt else n, ec))
       (sync_recv k s (st OR user_set_non_blocking) bufs flags False w)"
  proof (intro impI)
    assume ni: "snd (snd (sock_recv k s bufs flags w)) \<noteq> basic_ec interrupted" and valid: "s \<noteq> invalid_socket"
    obtain w1 r errno x where c: "k_recvmsg k s bufs flags None 0 w = (w1, r, errno, x)"
      by (metis prod_cases4)
    define ec where "ec = (if r \<ge> 0 then no_error else system_ec errno)"
    have a: "plain (sock_recv k s bufs flags) w () = (w1, (), r, ec)"
      by (simp add: plain_def sock_recv_def c nonneg_ok_def error_wrapper_def ec_def)
    have nb: "non_blocking_recv k s bufs flags (has st stream_oriented) bt w = Some
      (if has st stream_oriented \<and> r = 0 then (w1, True, bt, misc_ec eof)
       else if r \<ge> 0 then (w1, True, nat r, no_error)
       else if ec_blocked ec then (w1, False, bt, ec) else (w1, True, 0, ec))"
      using ni a unfolding non_blocking_recv_def
      by (subst non_blocking_once [where attempt = "plain (sock_recv k s bufs flags)" and x = "()", OF a])
        (auto simp: ec_def plain_def split: prod.splits)
    define n ec1 where v: "n = (if r > 0 then nat r else 0)" "ec1 = (if has st stream_oriented \<and> r = 0 then misc_ec eof else ec)"
    have "stream_recv_verdict (st OR user_set_non_blocking) r ec = Some (n, ec1)"
      by (simp add: stream_recv_verdict_def failed_verdict_def v)
    then have "sync_recv k s (st OR user_set_non_blocking) bufs flags False w = Some (w1, n, ec1)"
      using valid sync_loop_once [where attempt = "plain (sock_recv k s bufs flags)" and x = "()", OF a]
      by (simp add: sync_recv_def)
    then show "non_blocking_recv k s bufs flags (has st stream_oriented) bt w =
       map_option (\<lambda>(w1, n, ec). (w1, \<not> ec_blocked ec, if ec_blocked ec \<or> ec = misc_ec eof then bt else n, ec))
         (sync_recv k s (st OR user_set_non_blocking) bufs flags False w)"
      unfolding nb by (auto simp: v ec_def)
  qed
qed

end
