(* ===== verification/SocketProps.thy ===== *)
theory SocketProps
  imports SocketService SocketOpsProps
begin

text \<open>
  What the sockets promise: reading from a blocking stream socket delivers the stream; descriptors are
  owned by a socket or closed; asynchronous operations run on non-blocking descriptors only.
\<close>

section \<open>Reading\<close>

lemma adapter_init_eq:
  "adapter_init bs cnt tot = (take (adapter_max_buffers - cnt) bs, tot + length (baddrs (take (adapter_max_buffers - cnt) bs)))"
  by (induction bs cnt tot rule: adapter_init.induct) (auto simp: Suc_diff_le addrs_def take_Cons' split: prod.splits)

lemma adapter_props: "adapter_buffers bs = take adapter_max_buffers bs"
    "adapter_total_size bs = length (baddrs (take adapter_max_buffers bs))"
  by (simp_all add: adapter_buffers_def adapter_total_size_def adapter_init_eq)

text \<open>\<open>read_some\<close> of a stream socket, for the composed operations. It is a total function where every receive
  returns.\<close>

definition socket_read_some :: "'w kernel \<Rightarrow> ('d, 'z) base_impl_scheme \<Rightarrow> 'w some_op" where
  "socket_read_some k impl w buffers = the (service_receive k impl buffers 0 w)"

lemma socket_stream:
  assumes "recv_law incoming k (si_socket impl)" and "poll_law incoming k (si_socket impl)"
    and "patient patience k (si_socket impl)" and "is_open impl" and "has (si_state impl) stream_oriented"
  shows "\<exists>w' n ec. service_receive k impl bs 0 w = Some (w', n, ec) \<and> n \<le> length (baddrs (take adapter_max_buffers bs)) \<and>
    (distinct (baddrs (take adapter_max_buffers bs)) \<longrightarrow>
       received incoming w (take n (baddrs (take adapter_max_buffers bs))) w') \<and>
    (baddrs (take adapter_max_buffers bs) = [] \<or> 0 < n \<or> ec_failed ec)"
proof -
  let ?A = "take adapter_max_buffers bs"
  obtain w' n ec where r: "sync_recv k (si_socket impl) (si_state impl) ?A 0 (length (baddrs ?A) = 0) w = Some (w', n, ec)"
      "n \<le> length (baddrs ?A)" "distinct (baddrs ?A) \<longrightarrow> received incoming w (take n (baddrs ?A)) w'"
      "has (si_state impl) stream_oriented \<longrightarrow> length (baddrs ?A) = 0 \<or> 0 < n \<or> ec_failed ec"
    using sync_recv_correct [OF assms(1-3) assms(4) [unfolded is_open_def], of "si_state impl" ?A "length (baddrs ?A) = 0" w]
    by (elim exE conjE) (rule that, assumption+)
  have "service_receive k impl bs 0 w = Some (w', n, ec)"
    using r(1) by (simp add: service_receive_def adapter_props)
  with r(2-4) assms(5) show ?thesis
    by (intro exI [of _ w'] exI [of _ n] exI [of _ ec]) auto
qed

lemma distinct_baddrs_take: "distinct (baddrs bs) \<Longrightarrow> distinct (baddrs (take n bs))"
  by (metis append_take_drop_id baddrs_simps(3) distinct_append)

lemma socket_read_some_laws:
  assumes "recv_law incoming k (si_socket impl)" and "poll_law incoming k (si_socket impl)"
    and "patient patience k (si_socket impl)" and "is_open impl" and "has (si_state impl) stream_oriented"
  shows "moves (received incoming) (socket_read_some k impl)" "makes_progress (socket_read_some k impl)"
proof -
  show "moves (received incoming) (socket_read_some k impl)"
    unfolding moves_def
  proof (intro allI impI)
    fix w bs assume d: "distinct (baddrs bs)"
    obtain w' n ec where r: "service_receive k impl bs 0 w = Some (w', n, ec)" "n \<le> length (baddrs (take adapter_max_buffers bs))"
        "distinct (baddrs (take adapter_max_buffers bs)) \<longrightarrow> received incoming w (take n (baddrs (take adapter_max_buffers bs))) w'"
      using socket_stream [OF assms, of bs w] by (elim exE conjE) (rule that, assumption+)
    have "baddrs bs = baddrs (take adapter_max_buffers bs) @ baddrs (drop adapter_max_buffers bs)"
      by (metis append_take_drop_id baddrs_simps(3))
    with r distinct_baddrs_take [OF d, of adapter_max_buffers] show "case socket_read_some k impl w bs of (w1, n, ec) \<Rightarrow> n \<le> length (baddrs bs) \<and>
        received incoming w (take n (baddrs bs)) w1"
      by (simp add: socket_read_some_def)
  qed
  show "makes_progress (socket_read_some k impl)"
    unfolding makes_progress_def
  proof (intro allI impI)
    fix w bs assume b: "baddrs bs \<noteq> []" "length bs \<le> 16"
    then have "take adapter_max_buffers bs = bs"
      by (simp add: adapter_max_buffers_def)
    with b socket_stream [OF assms, of bs w]
    show "case socket_read_some k impl w bs of (w1, n, ec) \<Rightarrow> 0 < n \<or> ec_failed ec"
      by (elim exE conjE) (simp add: socket_read_some_def)
  qed
qed

text \<open>C19. \<open>read\<close> from an open stream socket into a buffer sequence, with any of the three completion
  conditions, when the kernel follows the documentation of \<open>recvmsg\<close> and \<open>poll\<close>: every receive
  returns, the read returns, what it reports is the number of next bytes of the stream it stored in the
  first bytes of the buffers, and without an error its completion condition is met.\<close>

theorem socket_read_correct:
  assumes "recv_law incoming k (si_socket impl)" and "poll_law incoming k (si_socket impl)"
    and "patient patience k (si_socket impl)" and "is_open impl" and "has (si_state impl) stream_oriented"
    and "standard cond" and "seq_ok bs" and "distinct (baddrs (seq_list bs))"
  shows "(\<exists>n w' ec. sync_read (socket_read_some k impl) bs cond w = Some (n, w', ec) \<and> n \<le> length (baddrs (seq_list bs)) \<and>
      received incoming w (take n (baddrs (seq_list bs))) w' \<and>
      (\<not> ec_failed ec \<longrightarrow> goal_met cond (length (baddrs (seq_list bs))) n)) \<and>
    service_receive k impl some_bufs 0 some_w \<noteq> None"
proof (rule conjI)
  show "\<exists>n w' ec. sync_read (socket_read_some k impl) bs cond w = Some (n, w', ec) \<and> n \<le> length (baddrs (seq_list bs)) \<and>
      received incoming w (take n (baddrs (seq_list bs))) w' \<and>
      (\<not> ec_failed ec \<longrightarrow> goal_met cond (length (baddrs (seq_list bs))) n)"
    unfolding sync_read_def
    using sync_transfer_correct [OF assms(6) socket_read_some_laws [OF assms(1-5)] received_composes assms(7,8)] .
  show "service_receive k impl some_bufs 0 some_w \<noteq> None"
    using socket_stream [OF assms(1-5), of some_bufs some_w] by (elim exE conjE) simp
qed

section \<open>Descriptors\<close>

text \<open>
  The documented behaviour of the calls that create and close descriptors, with \<open>fds\<close> the open ones: a
  successful \<open>socket\<close> or \<open>accept\<close> returns a descriptor that was not open, a failed one sets \<open>errno\<close>;
  \<open>close\<close> closes whatever it returns; no other call here opens or closes any.
\<close>

definition creates :: "('w \<Rightarrow> sock set) \<Rightarrow> 'w \<Rightarrow> 'w \<Rightarrow> int \<Rightarrow> int \<Rightarrow> bool" where
  "creates fds w w1 n errno \<longleftrightarrow> (n = invalid_socket \<and> errno \<noteq> 0 \<and> fds w1 = fds w) \<or> (0 \<le> n \<and> n \<notin> fds w \<and> fds w1 = insert n (fds w))"

definition fd_law :: "('w \<Rightarrow> sock set) \<Rightarrow> ('w, 'd) ctl \<Rightarrow> 'w kernel \<Rightarrow> bool" where
  "fd_law fds ctl k \<longleftrightarrow>
     (\<forall>s addr len w w1 n errno len1. k_accept k s addr len w = (w1, n, errno, len1) \<longrightarrow> creates fds w w1 n errno) \<and>
     (\<forall>af ty protocol w w1 n errno. k_socket k af ty protocol w = (w1, n, errno) \<longrightarrow> creates fds w w1 n errno) \<and>
     (\<forall>s w w1 x. k_close k s w = (w1, x) \<longrightarrow> fds w1 = fds w - {s}) \<and>
     (\<forall>s events msec w w1 n errno. k_poll k s events msec w = (w1, n, errno) \<longrightarrow> fds w1 = fds w \<and> (n < 0 \<longrightarrow> errno \<noteq> 0)) \<and>
     (\<forall>s cmd arg w w1 x. k_ioctl k s cmd arg w = (w1, x) \<longrightarrow> fds w1 = fds w) \<and>
     (\<forall>s level optname optval len w w1 x. k_setsockopt k s level optname optval len w = (w1, x) \<longrightarrow> fds w1 = fds w) \<and>
     (\<forall>what fd ev dat w w1 x. ctl w what fd ev dat = (w1, x) \<longrightarrow> fds w1 = fds w)"

lemma fd_lawD:
  assumes "fd_law fds ctl k"
  shows "k_accept k s addr len w = (w1, n, errno, len1) \<Longrightarrow> creates fds w w1 n errno"
    "k_socket k af ty protocol w = (w1, n, errno) \<Longrightarrow> creates fds w w1 n errno"
    "k_close k s w = (w1, x) \<Longrightarrow> fds w1 = fds w - {s}"
    "k_poll k s events msec w = (w1, n, errno) \<Longrightarrow> fds w1 = fds w \<and> (n < 0 \<longrightarrow> errno \<noteq> 0)"
    "k_ioctl k s cmd arg w = (w1, y) \<Longrightarrow> fds w1 = fds w"
    "k_setsockopt k s level optname optval olen w = (w1, x) \<Longrightarrow> fds w1 = fds w"
    "ctl w what fd ev dat = (w1, z) \<Longrightarrow> fds w1 = fds w"
proof -
  note L = assms [unfolded fd_law_def]
  show "k_accept k s addr len w = (w1, n, errno, len1) \<Longrightarrow> creates fds w w1 n errno"
    by (rule L [THEN conjunct1, rule_format])
  show "k_socket k af ty protocol w = (w1, n, errno) \<Longrightarrow> creates fds w w1 n errno"
    by (rule L [THEN conjunct2, THEN conjunct1, rule_format])
  show "k_close k s w = (w1, x) \<Longrightarrow> fds w1 = fds w - {s}"
    by (rule L [THEN conjunct2, THEN conjunct2, THEN conjunct1, rule_format])
  show "k_poll k s events msec w = (w1, n, errno) \<Longrightarrow> fds w1 = fds w \<and> (n < 0 \<longrightarrow> errno \<noteq> 0)"
    by (rule L [THEN conjunct2, THEN conjunct2, THEN conjunct2, THEN conjunct1, rule_format])
  show "k_ioctl k s cmd arg w = (w1, y) \<Longrightarrow> fds w1 = fds w"
    by (rule L [THEN conjunct2, THEN conjunct2, THEN conjunct2, THEN conjunct2, THEN conjunct1, rule_format])
  show "k_setsockopt k s level optname optval olen w = (w1, x) \<Longrightarrow> fds w1 = fds w"
    by (rule L [THEN conjunct2, THEN conjunct2, THEN conjunct2, THEN conjunct2, THEN conjunct2, THEN conjunct1, rule_format])
  show "ctl w what fd ev dat = (w1, z) \<Longrightarrow> fds w1 = fds w"
    by (rule L [THEN conjunct2, THEN conjunct2, THEN conjunct2, THEN conjunct2, THEN conjunct2, THEN conjunct2, rule_format])
qed

lemma sock_setsockopt_fds:
  assumes "fd_law fds ctl k"
  shows "fds (fst (sock_setsockopt k s st level optname optval len w)) = fds w"
  using fd_lawD(6) [OF assms, of s level optname optval len w]
  by (auto simp: sock_setsockopt_def zero_ok_def Let_def split: prod.split)

lemma sock_close_fds:
  assumes law: "fd_law fds ctl k" and "s \<noteq> invalid_socket"
  shows "fds (fst (sock_close k s st destruction w)) = fds w - {s}"
proof -
  obtain w0 st0 r0 e0 where so: "sock_setsockopt k s st SOL_SOCKET SO_LINGER (put_int 0 @ put_int 0) 8 w = (w0, st0, r0, e0)"
    by (metis prod_cases4)
  define lin where "lin = (if destruction \<and> has st user_set_linger then (w0, st0) else (w, st))"
  have l: "fds (fst lin) = fds w"
    using sock_setsockopt_fds [OF law, of s st SOL_SOCKET SO_LINGER "put_int 0 @ put_int 0" 8 w] so
    by (simp add: lin_def)
  obtain w1 st1 where lin: "lin = (w1, st1)" by fastforce
  obtain w2 r errno where c: "k_close k s w1 = (w2, r, errno)" by (metis prod_cases3)
  obtain w3 ig where i: "k_ioctl k s FIONBIO 0 w2 = (w3, ig)" by (cases "k_ioctl k s FIONBIO 0 w2") blast
  obtain w4 r4 e4 where c2: "k_close k s w3 = (w4, r4, e4)" by (metis prod_cases3)
  have "fds w2 = fds w - {s}" "fds w4 = fds w - {s}"
    using fd_lawD(3) [OF law c] fd_lawD(5) [OF law i] fd_lawD(3) [OF law c2] l lin by auto
  then show ?thesis
    using assms(2) c i c2 lin
    by (cases "destruction \<and> has st user_set_linger") (auto simp: sock_close_def so lin_def zero_ok_def)
qed

lemma holder_destroy_fds: "fd_law fds ctl k \<Longrightarrow> s \<noteq> invalid_socket \<Longrightarrow> fds (holder_destroy k s w) = fds w - {s}"
  by (simp add: holder_destroy_def sock_close_fds)

lemma register_fds:
  assumes "fd_law fds ctl k" and "register_descriptor ctl created s r = (r1, d, err)"
  shows "fds (r_kernel r1) = fds (r_kernel r)"
proof -
  obtain p d0 where a: "pool_alloc created (r_pool r) = (p, d0)" by fastforce
  obtain w1 res where c: "ctl (r_kernel r) CtlAdd s initial_events (Descriptor d0) = (w1, res)" by fastforce
  from assms(2) have "r_kernel r1 = w1"
    by (auto simp: register_descriptor_def allocate_descriptor_state_def a epoll_ctl_def c Let_def split: if_splits)
  with fd_lawD(7) [OF assms(1) c] show ?thesis by simp
qed

lemma sync_accept_creates:
  assumes law: "fd_law fds ctl k" and ret: "sync_accept k s st addr len w = Some (w', n, len', ec)" and valid: "s \<noteq> invalid_socket"
  shows "(n = invalid_socket \<and> ec_failed ec \<and> fds w' = fds w) \<or> (0 \<le> n \<and> n \<notin> fds w \<and> fds w' = insert n (fds w))"
proof -
  have "k1 = k \<longrightarrow> s1 = s \<longrightarrow> (case res of (w', n, len', ec) \<Rightarrow>
      (n = invalid_socket \<and> ec_failed ec \<and> fds w' = fds w) \<or> (0 \<le> n \<and> n \<notin> fds w \<and> fds w' = insert n (fds w)))"
    if "sync_accept k1 s1 st addr len w = Some res" for k1 s1 w len res
  proof (rule sync_accept.raw_induct [where P = "\<lambda>k1 s1 st addr len w res. k1 = k \<longrightarrow> s1 = s \<longrightarrow> (case res of (w', n, len', ec) \<Rightarrow>
      (n = invalid_socket \<and> ec_failed ec \<and> fds w' = fds w) \<or> (0 \<le> n \<and> n \<notin> fds w \<and> fds w' = insert n (fds w)))", OF _ that], intro impI)
    fix f :: "'a kernel \<Rightarrow> sock \<Rightarrow> sock_state \<Rightarrow> nat option \<Rightarrow> nat \<Rightarrow> 'a \<Rightarrow> ('a \<times> sock \<times> nat \<times> error_code) option"
      and k1 s1 st addr len w res
    assume IH: "\<And>k1 s1 st addr len w res. f k1 s1 st addr len w = Some res \<Longrightarrow> k1 = k \<longrightarrow> s1 = s \<longrightarrow> (case res of (w', n, len', ec) \<Rightarrow>
      (n = invalid_socket \<and> ec_failed ec \<and> fds w' = fds w) \<or> (0 \<le> n \<and> n \<notin> fds w \<and> fds w' = insert n (fds w)))"
      and eq: "(case sock_accept k1 s1 addr len w of (w1, new_socket, addrlen1, ec) \<Rightarrow>
          if new_socket \<noteq> invalid_socket then Some (w1, new_socket, addrlen1, ec)
          else if accept_reports (has st user_set_non_blocking) st ec then Some (w1, invalid_socket, addrlen1, ec)
          else case poll_read k1 s1 0 (- 1) w1 of (w2, ready, ec2) \<Rightarrow>
                if ready < 0 then Some (w2, invalid_socket, addrlen1, ec2) else f k1 s1 st addr addrlen1 w2) = Some res"
      and k1: "k1 = k" and s1: "s1 = s"
    obtain w1 n errno len1 where a: "k_accept k s addr (if addr = None then 0 else len) w = (w1, n, errno, len1)"
      by (metis prod_cases4)
    note cr = fd_lawD(1) [OF law a, unfolded creates_def]
    define len2 where "len2 = (if addr = None then len else len1)"
    have sa: "sock_accept k s addr len w = (w1, n, len2, if n = invalid_socket then error_wrapper errno else no_error)"
      using valid by (simp add: sock_accept_def a len2_def Let_def)
    show "case res of (w', n, len', ec) \<Rightarrow>
      (n = invalid_socket \<and> ec_failed ec \<and> fds w' = fds w) \<or> (0 \<le> n \<and> n \<notin> fds w \<and> fds w' = insert n (fds w))"
    proof (cases "n \<noteq> invalid_socket \<or> accept_reports (has st user_set_non_blocking) st (error_wrapper errno)")
      case True
      then have "res = (w1, n, len2, if n = invalid_socket then error_wrapper errno else no_error)"
        using eq unfolding k1 s1 sa by (cases "n = invalid_socket") simp_all
      with cr show ?thesis
        by (auto simp: error_wrapper_def)
    next
      case False
      obtain w2 ready errno2 where p: "k_poll k s POLLIN (- 1) w1 = (w2, ready, errno2)"
        by (metis prod_cases3)
      note pl = fd_lawD(4) [OF law p]
      have "poll_read k s 0 (- 1) w1 = (w2, ready, if ready \<ge> 0 then no_error else system_ec errno2)"
        using valid p by (auto simp: poll_read_def poll_for_def error_wrapper_def)
      with eq False have e: "(if ready < 0 then Some (w2, invalid_socket, len2, system_ec errno2) else f k s st addr len2 w2) = Some res"
        unfolding k1 s1 sa by (auto split: if_splits)
      have same: "fds w2 = fds w"
        using False cr pl by (auto simp: invalid_socket_def)
      show ?thesis
      proof (cases "ready < 0")
        case True
        with e pl same show ?thesis by auto
      next
        case False
        with e have "f k s st addr len2 w2 = Some res" by simp
        from IH [OF this] same show ?thesis by simp
      qed
    qed
  qed
  from this [OF ret] show ?thesis by simp
qed

lemma do_assign_fds:
  assumes "fd_law fds ctl k" and "do_assign ctl created impl ty native r = (r1, impl1, ec)" and "\<not> is_open impl" and "native \<noteq> invalid_socket"
  shows "fds (r_kernel r1) = fds (r_kernel r) \<and>
    (if ec_failed ec then \<not> is_open impl1 else is_open impl1 \<and> si_socket impl1 = native \<and> ec = no_error)"
proof -
  obtain r2 d err where g: "register_descriptor ctl created native r = (r2, d, err)" by (metis prod_cases3)
  from assms(2-4) register_fds [OF assms(1) g] show ?thesis
    by (auto simp: do_assign_def g is_open_def split: if_splits)
qed

text \<open>What becomes of a descriptor made for a closed socket: the socket has it, or nobody and it is closed.\<close>

definition owned :: "('w \<Rightarrow> sock set) \<Rightarrow> 'w \<Rightarrow> ('d, 'z) base_impl_scheme \<Rightarrow> error_code \<Rightarrow> 'w \<Rightarrow> bool" where
  "owned fds w impl ec w1 \<longleftrightarrow>
     (if ec_failed ec then \<not> is_open impl \<and> fds w1 = fds w
      else is_open impl \<and> si_socket impl \<notin> fds w \<and> fds w1 = insert (si_socket impl) (fds w))"

lemma do_open_owned:
  assumes law: "fd_law fds ctl k" and op: "do_open ctl k created impl af ty protocol r = (r1, impl1, ec)" and "\<not> is_open impl"
  shows "owned fds (r_kernel r) impl1 ec (r_kernel r1)"
proof -
  obtain w1 n errno where s: "k_socket k af ty protocol (r_kernel r) = (w1, n, errno)" by (metis prod_cases3)
  note cr = fd_lawD(2) [OF law s, unfolded creates_def]
  have ok: "on_kernel (sock_socket k af ty protocol) r = (r\<lparr>r_kernel := w1\<rparr>, n, if n \<ge> 0 then no_error else system_ec errno)"
    by (simp add: on_kernel_def sock_socket_def s nonneg_ok_def error_wrapper_def)
  show ?thesis
  proof (cases "n = invalid_socket")
    case True
    have "r1 = r\<lparr>r_kernel := w1\<rparr> \<and> impl1 = impl \<and> ec = (if n \<ge> 0 then no_error else system_ec errno)"
      using op assms(3) True by (simp add: do_open_def ok)
    moreover have "errno \<noteq> 0" "fds w1 = fds (r_kernel r)" "\<not> n \<ge> 0"
      using cr True by (auto simp: invalid_socket_def)
    ultimately show ?thesis
      using assms(3) by (simp add: owned_def)
  next
    case False
    obtain r2 d err where g: "register_descriptor ctl created n (r\<lparr>r_kernel := w1\<rparr>) = (r2, d, err)" by (metis prod_cases3)
    have f: "fds (r_kernel r2) = insert n (fds (r_kernel r))" "n \<notin> fds (r_kernel r)"
      using register_fds [OF law g] cr False by simp_all
    show ?thesis
    proof (cases "err = 0")
      case True
      have "r1 = r2 \<and> impl1 = impl\<lparr>si_socket := n, si_state := type_state ty, si_data := Some d\<rparr> \<and> ec = no_error"
        using op assms(3) False True by (simp add: do_open_def ok g)
      with f False show ?thesis
        by (simp add: owned_def is_open_def)
    next
      case err: False
      have e: "r1 = r2\<lparr>r_kernel := holder_destroy k n (r_kernel r2)\<rparr>" "impl1 = impl\<lparr>si_data := Some d\<rparr>" "ec = system_ec err"
        using op assms(3) False err by (simp_all add: do_open_def ok g)
      have "fds (r_kernel r1) = fds (r_kernel r)"
        using holder_destroy_fds [OF law False, of "r_kernel r2"] f by (simp add: e)
      with assms(3) err show ?thesis
        by (simp add: owned_def e is_open_def)
    qed
  qed
qed

lemma assign_peer_owned:
  assumes law: "fd_law fds ctl k"
    and a: "assign_peer ctl k created protocol n has_endpoint len peer ec r = (r1, result)" and closed: "\<not> is_open peer"
    and n: "(n = invalid_socket \<and> ec_failed ec \<and> fds (r_kernel r) = fds w) \<or>
      (0 \<le> n \<and> n \<notin> fds w \<and> fds (r_kernel r) = insert n (fds w))"
  shows "case result of Inl e \<Rightarrow> fds (r_kernel r1) = fds w | Inr (peer1, ec1) \<Rightarrow> owned fds w peer1 ec1 (r_kernel r1)"
proof (cases "n = invalid_socket")
  case True
  with a n closed show ?thesis
    by (auto simp: assign_peer_def owned_def invalid_socket_def)
next
  case False
  with n have n1: "n \<notin> fds w" "fds (r_kernel r) = insert n (fds w)" by auto
  show ?thesis
  proof (cases "has_endpoint \<and> (\<exists>e. endpoint_resize len = Inl e)")
    case True
    then have "r1 = r\<lparr>r_kernel := holder_destroy k n (r_kernel r)\<rparr>" "\<exists>e. result = Inl e"
      using a False by (auto simp: assign_peer_def)
    with holder_destroy_fds [OF law False, of "r_kernel r"] n1 show ?thesis by auto
  next
    case res: False
    obtain r2 peer1 ec1 where d: "do_assign ctl created peer (p_type protocol) n r = (r2, peer1, ec1)" by (metis prod_cases3)
    note da = do_assign_fds [OF law d closed False]
    have "assign_peer ctl k created protocol n has_endpoint len peer ec r =
      (if ec_failed ec1 then r2\<lparr>r_kernel := holder_destroy k n (r_kernel r2)\<rparr> else r2,
       Inr (if \<not> ec_failed ec1 then peer1\<lparr>si_protocol := protocol\<rparr> else peer1, ec1))"
      using False res by (auto simp: assign_peer_def service_assign_def d)
    with a da n1 holder_destroy_fds [OF law False, of "r_kernel r2"] show ?thesis
      by (cases "ec_failed ec1") (auto simp: owned_def is_open_def)
  qed
qed

text \<open>Descriptors do not leak: opening a closed socket, or accepting a connection into one, either succeeds,
  and then the socket has a descriptor that was not open before and is the only new one, or it fails,
  and then the socket is still closed and no descriptor more is open than before: when the reactor
  refuses the descriptor, or the peer's address does not fit, the descriptor is closed again.\<close>

theorem descriptors_owned:
  assumes "fd_law fds ctl k"
  shows "(do_open ctl k created impl af ty protocol r = (r1, impl1, ec) \<and> \<not> is_open impl \<longrightarrow>
      owned fds (r_kernel r) impl1 ec (r_kernel r1)) \<and>
    (service_accept ctl k created acceptor peer peer_endpoint r = Some (r2, result) \<and> is_open acceptor \<and> \<not> is_open peer \<longrightarrow>
      (case result of Inl e \<Rightarrow> fds (r_kernel r2) = fds (r_kernel r) | Inr (peer1, ec1) \<Rightarrow> owned fds (r_kernel r) peer1 ec1 (r_kernel r2)))"
proof (intro conjI impI; elim conjE)
  assume "do_open ctl k created impl af ty protocol r = (r1, impl1, ec)" "\<not> is_open impl"
  then show "owned fds (r_kernel r) impl1 ec (r_kernel r1)"
    by (rule do_open_owned [OF assms])
next
  assume a: "service_accept ctl k created acceptor peer peer_endpoint r = Some (r2, result)" and "is_open acceptor" and closed: "\<not> is_open peer"
  from a closed obtain w1 n len ec1 where sa: "sync_accept k (si_socket acceptor) (si_state acceptor) (map_option fst peer_endpoint)
      (case peer_endpoint of None \<Rightarrow> 0 | Some (addr, capacity) \<Rightarrow> capacity) (r_kernel r) = Some (w1, n, len, ec1)"
    and p: "assign_peer ctl k created (si_protocol acceptor) n (peer_endpoint \<noteq> None) len peer ec1 (r\<lparr>r_kernel := w1\<rparr>) = (r2, result)"
    unfolding service_accept_def by (auto split: option.splits)
  have "si_socket acceptor \<noteq> invalid_socket"
    using \<open>is_open acceptor\<close> by (simp add: is_open_def)
  from sync_accept_creates [OF assms sa this] assign_peer_owned [OF assms p closed, of "r_kernel r"]
  show "case result of Inl e \<Rightarrow> fds (r_kernel r2) = fds (r_kernel r) | Inr (peer1, ec1) \<Rightarrow> owned fds (r_kernel r) peer1 ec1 (r_kernel r2)"
    by simp
qed

section \<open>Closing\<close>

text \<open>C22. Closing an open socket whose descriptor state is live: the descriptor is closed and the socket left as
  constructed; every operation that waited for the descriptor is handed to the scheduler with
  \<open>operation_aborted\<close>, none is lost or counted twice, none is left in the queues, and the descriptor
  state goes back to the reactor's pool.\<close>

theorem close_socket:
  assumes "fd_law fds ctl k" and "is_open impl" and "si_data impl = Some d" and "\<not> ds_shutdown (r_states r d)"
    and "service_close ctl k impl r = (r1, impl1, ec)"
  shows "\<not> is_open impl1 \<and> si_state impl1 = 0 \<and> si_data impl1 = None \<and>
    fds (r_kernel r1) = fds (r_kernel r) - {si_socket impl} \<and>
    pending d r1 = {#} \<and> posted r1 = posted r + pending d r \<and> total_work r1 = total_work r \<and>
    (\<forall>op. op \<in># pending d r \<longrightarrow> r_op_ec r1 op = basic_ec operation_aborted) \<and>
    r_pool r1 = pool_free d (r_pool r)"
proof -
  define s where "s = si_socket impl"
  have valid: "s \<noteq> invalid_socket"
    using assms(2) by (simp add: is_open_def s_def)
  obtain wd x where cd: "ctl (r_kernel r) CtlDel s 0 (Descriptor d) = (wd, x)" by fastforce
  define rd where "rd = (if closing_flag impl then r else if registered_events (r_states r d) \<noteq> 0 then r\<lparr>r_kernel := wd\<rparr> else r)"
  have rd: "fds (r_kernel rd) = fds (r_kernel r)" "r_states rd = r_states r" "r_op_ec rd = r_op_ec r" "r_pool rd = r_pool r"
      "posted rd = posted r" "total_work rd = total_work r" "pending d rd = pending d r"
    using fd_lawD(7) [OF assms(1) cd] by (simp_all add: rd_def pending_def)
  define r2 where "r2 = upd_state d (\<lambda>s. s\<lparr>ds_descriptor := - 1, ds_shutdown := True\<rparr>)
      (rd\<lparr>r_op_ec := set_ec (basic_ec operation_aborted) (all_queued d rd) (r_op_ec rd),
          r_states := (r_states rd)(d := r_states rd d\<lparr>ds_queue := (\<lambda>_. [])\<rparr>)\<rparr>)"
  define r3 where "r3 = r_post_deferred (all_queued d rd) r2"
  have dr: "deregister_descriptor ctl s (Some d) (closing_flag impl) r = (r3, Some d)"
    using assms(4) by (simp add: deregister_descriptor_def epoll_ctl_def cd rd_def [symmetric] abort_all r2_def r3_def
        cong: if_cong del: abort_queues.simps)
  obtain w4 st res ec4 where c: "sock_close k s (si_state impl) False (r_kernel r3) = (w4, st, res, ec4)" by (metis prod_cases4)
  have k3: "r_kernel r3 = r_kernel rd" "posted r3 = posted r + pending d r" "total_work r3 = total_work r" "r_pool r3 = r_pool r"
      "pending d r3 = {#}"
    using rd by (simp_all add: r3_def r2_def pending_def upd_state_def mset_all_queued)
      (simp_all add: posted_def total_work_def pending_def r_post_deferred_def)
  have cl: "service_close ctl k impl r =
      (r3\<lparr>r_kernel := w4, r_pool := pool_free d (r_pool r)\<rparr>, construct (impl\<lparr>si_state := st, si_data := None\<rparr>), ec4)"
    using assms(2,3) dr c
    by (simp add: service_close_def s_def [symmetric] on_kernel_def cleanup_descriptor_data_def free_descriptor_state_def k3)
  have f: "fds w4 = fds (r_kernel r) - {s}"
    using sock_close_fds [OF assms(1) valid, of "si_state impl" False "r_kernel r3"] c k3 rd by simp
  have e: "r_op_ec r3 = set_ec (basic_ec operation_aborted) (all_queued d rd) (r_op_ec r)" "set (all_queued d rd) = set_mset (pending d r)"
    using rd mset_all_queued [of d rd] by (simp_all add: r3_def r2_def set_mset_mset [symmetric] del: set_mset_mset)
  have r1: "r1 = r3\<lparr>r_kernel := w4, r_pool := pool_free d (r_pool r)\<rparr>" "impl1 = construct (impl\<lparr>si_state := st, si_data := None\<rparr>)"
    using assms(5) cl by simp_all
  have same: "pending d r1 = pending d r3" "posted r1 = posted r3" "total_work r1 = total_work r3" "r_op_ec r1 = r_op_ec r3"
    by (simp_all add: r1 pending_def posted_def total_work_def)
  show ?thesis
    using f e k3 same by (simp add: r1(1) s_def) (simp add: r1(2) construct_def is_open_def set_ec_def)
qed

section \<open>Non-blocking mode\<close>

text \<open>\<open>ioctl\<close> with \<open>FIONBIO\<close> sets the mode of the descriptor it names when it succeeds, and no \<open>ioctl\<close>
  changes it otherwise; a failed one sets \<open>errno\<close>.\<close>

definition mode_law :: "('w \<Rightarrow> sock \<Rightarrow> bool) \<Rightarrow> 'w kernel \<Rightarrow> bool" where
  "mode_law mode k \<longleftrightarrow> (\<forall>s cmd arg w w1 result errno arg1. k_ioctl k s cmd arg w = (w1, result, errno, arg1) \<longrightarrow>
     (if cmd = FIONBIO \<and> 0 \<le> result then mode w1 = (mode w)(s := arg \<noteq> 0) \<and> arg1 = arg else mode w1 = mode w) \<and>
     (result < 0 \<longrightarrow> errno \<noteq> 0))"

lemma mode_lawD:
  assumes "mode_law mode k" and "k_ioctl k s cmd arg w = (w1, result, errno, arg1)"
  shows "if cmd = FIONBIO \<and> 0 \<le> result then mode w1 = (mode w)(s := arg \<noteq> 0) \<and> arg1 = arg else mode w1 = mode w"
    "result < 0 \<Longrightarrow> errno \<noteq> 0"
  using assms(1) [unfolded mode_law_def, rule_format, OF assms(2)] by blast+

text \<open>What a program does with an open socket, as far as the mode and the state bits go: the two mode
  settings, \<open>io_control\<close>, options, the start of an asynchronous operation, and everything else, which
  leaves the descriptor's mode and the socket's state alone.\<close>

inductive socket_step ::
  "('w \<Rightarrow> sock \<Rightarrow> bool) \<Rightarrow> 'w kernel \<Rightarrow> 'w \<times> ('d, 'z) base_impl_scheme \<Rightarrow> 'w \<times> ('d, 'z) base_impl_scheme \<Rightarrow> bool" for mode k where
  step_user: "service_non_blocking k impl m w = (w1, impl1, ec) \<Longrightarrow> socket_step mode k (w, impl) (w1, impl1)"
| step_native: "service_native_non_blocking k impl m w = (w1, impl1, ec) \<Longrightarrow> socket_step mode k (w, impl) (w1, impl1)"
| step_control: "service_io_control k impl name dat w = (w1, impl1, dat1, ec) \<Longrightarrow> socket_step mode k (w, impl) (w1, impl1)"
| step_option: "service_set_option k impl level name dat w = (w1, impl1, ec) \<Longrightarrow> mode w1 (si_socket impl) = mode w (si_socket impl) \<Longrightarrow>
    socket_step mode k (w, impl) (w1, impl1)"
| step_start: "set_internal_non_blocking k (si_socket impl) (si_state impl) True w = (w1, st, ok, ec) \<Longrightarrow>
    socket_step mode k (w, impl) (w1, impl\<lparr>si_state := st\<rparr>)"
| step_other: "mode w1 (si_socket impl) = mode w (si_socket impl) \<Longrightarrow> socket_step mode k (w, impl) (w1, impl)"

definition flag_true :: "('w \<Rightarrow> sock \<Rightarrow> bool) \<Rightarrow> 'w \<times> ('d, 'z) base_impl_scheme \<Rightarrow> bool" where
  "flag_true mode c \<longleftrightarrow> (has (si_state (snd c)) non_blocking \<longrightarrow> mode (fst c) (si_socket (snd c)))"

lemma non_blocking_bits [simp]:
  "(st OR user_set_non_blocking) AND non_blocking \<noteq> 0" "(st OR internal_non_blocking) AND non_blocking \<noteq> 0"
  "(st AND NOT user_set_non_blocking AND NOT internal_non_blocking) AND non_blocking = 0"
  "(st OR enable_connection_aborted) AND non_blocking = st AND non_blocking"
  "(st AND NOT enable_connection_aborted) AND non_blocking = st AND non_blocking"
  "(st OR user_set_linger) AND non_blocking = st AND non_blocking"
  "st AND user_set_non_blocking = 0 \<Longrightarrow> (st AND NOT internal_non_blocking) AND non_blocking = 0"
proof -
  have u: "user_set_non_blocking AND non_blocking = user_set_non_blocking" "internal_non_blocking AND non_blocking = internal_non_blocking"
    "enable_connection_aborted AND non_blocking = 0" "user_set_linger AND non_blocking = 0"
    "NOT enable_connection_aborted AND non_blocking = non_blocking"
    by (simp_all add: user_set_non_blocking_def internal_non_blocking_def non_blocking_def enable_connection_aborted_def user_set_linger_def)
  show "(st OR user_set_non_blocking) AND non_blocking \<noteq> 0" "(st OR internal_non_blocking) AND non_blocking \<noteq> 0"
    using u by (auto simp: bit.conj_disj_distrib2 or_eq_0_iff)
  show "(st AND NOT user_set_non_blocking AND NOT internal_non_blocking) AND non_blocking = 0"
    unfolding non_blocking_def by (auto simp: bit_eq_iff bit_simps)
  show "(st OR enable_connection_aborted) AND non_blocking = st AND non_blocking"
    "(st OR user_set_linger) AND non_blocking = st AND non_blocking"
    using u by (simp_all add: bit.conj_disj_distrib2)
  show "(st AND NOT enable_connection_aborted) AND non_blocking = st AND non_blocking"
    using u by (simp add: and.assoc)
  have "(st AND NOT internal_non_blocking) AND non_blocking = (st AND user_set_non_blocking) AND NOT internal_non_blocking"
    unfolding non_blocking_def by (auto simp: bit_eq_iff bit_simps)
  then show "st AND user_set_non_blocking = 0 \<Longrightarrow> (st AND NOT internal_non_blocking) AND non_blocking = 0"
    by simp
qed

lemma socket_step_flag:
  assumes law: "mode_law mode k" and "socket_step mode k c c1" and "flag_true mode c"
  shows "flag_true mode c1"
  using assms(2,3)
proof (cases rule: socket_step.cases)
  case (step_user impl m w w1 impl1 ec)
  obtain w2 r e a where i: "k_ioctl k (si_socket impl) FIONBIO (if m then 1 else 0) w = (w2, r, e, a)" by (metis prod_cases4)
  show ?thesis
    using mode_lawD(1) [OF law i] step_user i assms(3)
    by (auto simp: service_non_blocking_def set_user_non_blocking_def flag_true_def split: if_splits)
next
  case (step_native impl m w w1 impl1 ec)
  obtain w2 r e a where i: "k_ioctl k (si_socket impl) FIONBIO (if m then 1 else 0) w = (w2, r, e, a)" by (metis prod_cases4)
  show ?thesis
    using mode_lawD(1) [OF law i] step_native i assms(3)
    by (auto simp: service_native_non_blocking_def set_internal_non_blocking_def flag_true_def split: if_splits)
next
  case (step_control impl name dat w w1 impl1 dat1 ec)
  obtain w2 r e a where i: "k_ioctl k (si_socket impl) name dat w = (w2, r, e, a)" by (metis prod_cases4)
  show ?thesis
    using mode_lawD(1) [OF law i] step_control i assms(3)
    by (auto simp: service_io_control_def sock_ioctl_def flag_true_def split: if_splits)
next
  case (step_option impl level name dat w w1 impl1 ec)
  then show ?thesis
    using assms(3)
    by (auto simp: service_set_option_def sock_setsockopt_def flag_true_def Let_def split: if_splits prod.splits)
next
  case (step_start impl w w1 st ok ec)
  obtain w2 r e a where i: "k_ioctl k (si_socket impl) FIONBIO 1 w = (w2, r, e, a)" by (metis prod_cases4)
  show ?thesis
    using mode_lawD(1) [OF law i] step_start i assms(3)
    by (auto simp: set_internal_non_blocking_def flag_true_def split: if_splits)
next
  case (step_other w1 impl w)
  then show ?thesis
    using assms(3) by (simp add: flag_true_def)
qed

lemma socket_steps_flag:
  assumes "mode_law mode k" and "(socket_step mode k)\<^sup>*\<^sup>* c c1" and "flag_true mode c"
  shows "flag_true mode c1"
  using assms(2,3) by (induction rule: rtranclp_induct) (auto intro: socket_step_flag [OF assms(1)])

text \<open>\<open>connect\<close> leaves the mode of every descriptor alone.\<close>

definition connect_keeps_mode :: "('w \<Rightarrow> sock \<Rightarrow> bool) \<Rightarrow> 'w kernel \<Rightarrow> bool" where
  "connect_keeps_mode mode k \<longleftrightarrow> (\<forall>s addr addrlen w. mode (fst (k_connect k s addr addrlen w)) = mode w)"

lemma sock_connect_mode:
  "connect_keeps_mode mode k \<Longrightarrow> sock_connect k s addr addrlen w = (w1, result, ec) \<Longrightarrow> mode w1 = mode w"
  unfolding connect_keeps_mode_def sock_connect_def by (auto split: if_splits prod.splits) (metis fst_conv)+

text \<open>How an operation ends that the descriptor's mode could not be changed for, and how one is handed to
  the reactor.\<close>

definition refused ::
  "'o \<Rightarrow> bool \<Rightarrow> ('o, 'd, 'w, 'q, 't, 'a) reactor \<Rightarrow> ('o, 'd, 'w, 'q, 't, 'a) reactor \<Rightarrow> bool" where
  "refused op c r r1 \<longleftrightarrow>
     (\<exists>r0. r1 = r_post_immediate op c r0 \<and> r_states r0 = r_states r \<and> ec_failed (r_op_ec r0 op))"

definition handed_over ::
  "('w \<Rightarrow> sock \<Rightarrow> bool) \<Rightarrow> ('w, 'd) ctl \<Rightarrow> ('o, 'w) performer \<Rightarrow> op_type \<Rightarrow> 'o \<Rightarrow> bool \<Rightarrow> bool \<Rightarrow>
   ('o, 'd, 'w, 'q, 't, 'a) reactor \<Rightarrow> ('o, 'd, 'w, 'q, 't, 'a) reactor \<Rightarrow> ('d, 'z) base_impl_scheme \<Rightarrow> bool" where
  "handed_over mode ctl perform ty op c allow r r1 impl1 \<longleftrightarrow>
     (\<exists>r0. r1 = start_op ctl perform ty (si_socket impl1) (si_data impl1) op c allow r0 \<and>
       r_states r0 = r_states r \<and> mode (r_kernel r0) (si_socket impl1))"

text \<open>\<open>connect\<close> was called on a non-blocking descriptor: with its result and code, \<open>r0\<close> is the state after.\<close>

definition connect_called ::
  "('w \<Rightarrow> sock \<Rightarrow> bool) \<Rightarrow> 'w kernel \<Rightarrow> sock \<Rightarrow> nat \<Rightarrow> nat \<Rightarrow>
   ('o, 'd, 'w, 'q, 't, 'a) reactor \<Rightarrow> ('o, 'd, 'w, 'q, 't, 'a) reactor \<Rightarrow> int \<Rightarrow> error_code \<Rightarrow> bool" where
  "connect_called mode k s addr addrlen r r0 result ec \<longleftrightarrow> r_states r0 = r_states r \<and> mode (r_kernel r0) s \<and>
     (\<exists>w. mode w s \<and> sock_connect k s addr addrlen w = (r_kernel r0, result, ec))"

definition connect_started ::
  "('w \<Rightarrow> sock \<Rightarrow> bool) \<Rightarrow> 'w kernel \<Rightarrow> ('w, 'd) ctl \<Rightarrow> ('o, 'w) performer \<Rightarrow> nat \<Rightarrow> nat \<Rightarrow> 'o \<Rightarrow> bool \<Rightarrow>
   ('o, 'd, 'w, 'q, 't, 'a) reactor \<Rightarrow> ('o, 'd, 'w, 'q, 't, 'a) reactor \<Rightarrow> ('d, 'z) base_impl_scheme \<Rightarrow> bool" where
  "connect_started mode k ctl perform addr addrlen op c r r1 impl1 \<longleftrightarrow>
     (\<exists>r0 result ec. connect_called mode k (si_socket impl1) addr addrlen r r0 result ec \<and>
       (if result \<noteq> 0 \<and> (ec = basic_ec in_progress \<or> ec = basic_ec would_block)
        then r_op_ec r0 op = no_error \<and>
          r1 = start_op ctl perform connect_op (si_socket impl1) (si_data impl1) op c False r0
        else r_op_ec r0 op = ec \<and> r1 = r_post_immediate op c r0))"

lemma make_non_blocking_outcome:
  assumes law: "mode_law mode k" and fl: "flag_true mode (r_kernel r, impl)"
    and m: "make_non_blocking k op impl r = (r1, impl1, ok)"
  shows "r_states r1 = r_states r \<and> si_socket impl1 = si_socket impl \<and> si_data impl1 = si_data impl \<and>
    (if ok then mode (r_kernel r1) (si_socket impl1) else ec_failed (r_op_ec r1 op))"
proof (cases "has (si_state impl) non_blocking")
  case True
  with m fl show ?thesis
    by (auto simp: make_non_blocking_def flag_true_def)
next
  case False
  obtain w2 st ok' ec where s: "set_internal_non_blocking k (si_socket impl) (si_state impl) True (r_kernel r) = (w2, st, ok', ec)"
    by (metis prod_cases4)
  obtain w3 res e a where i: "k_ioctl k (si_socket impl) FIONBIO 1 (r_kernel r) = (w3, res, e, a)" by (metis prod_cases4)
  note L = mode_lawD [OF law i]
  have r1: "r1 = set_op_ec op ec (r\<lparr>r_kernel := w2\<rparr>)" "impl1 = impl\<lparr>si_state := st\<rparr>" "ok = ok'"
    using m False by (simp_all add: make_non_blocking_def on_kernel_def s)
  have "if ok then mode w2 (si_socket impl) else ec_failed ec"
    using s i L r1(3) by (auto simp: set_internal_non_blocking_def error_wrapper_def split: if_splits)
  then show ?thesis
    by (simp add: r1)
qed

lemma service_start_outcome:
  assumes "mode_law mode k" and "flag_true mode (r_kernel r, impl)"
    and "service_start_op ctl k perform impl ty op c allow False r = (r1, impl1)"
  shows "refused op c r r1 \<or> handed_over mode ctl perform ty op c allow r r1 impl1"
proof -
  obtain r2 impl2 ok where m: "make_non_blocking k op impl r = (r2, impl2, ok)"
    by (metis prod_cases3)
  from make_non_blocking_outcome [OF assms(1,2) m] assms(3) m show ?thesis
    by (cases ok) (auto simp: service_start_op_def refused_def handed_over_def)
qed

lemma start_connect_outcome:
  assumes "mode_law mode k" and "connect_keeps_mode mode k" and "flag_true mode (r_kernel r, impl)"
    and s: "start_connect_op ctl k perform impl op c addr addrlen r = (r1, impl1)"
  shows "refused op c r r1 \<or> connect_started mode k ctl perform addr addrlen op c r r1 impl1"
proof -
  obtain r2 impl2 ok where m: "make_non_blocking k op impl r = (r2, impl2, ok)"
    by (metis prod_cases3)
  note M = make_non_blocking_outcome [OF assms(1,3) m]
  show ?thesis
  proof (cases ok)
    case False
    with M m s show ?thesis
      by (auto simp: start_connect_op_def refused_def)
  next
    case True
    obtain w3 result ec where c: "sock_connect k (si_socket impl2) addr addrlen (r_kernel r2) = (w3, result, ec)"
      by (metis prod_cases3)
    have mode: "mode w3 (si_socket impl2)" "mode (r_kernel r2) (si_socket impl2)"
      using sock_connect_mode [OF assms(2) c] M True by auto
    define r3 where "r3 = set_op_ec op ec (r2\<lparr>r_kernel := w3\<rparr>)"
    define r4 where "r4 = (if result \<noteq> 0 \<and> (ec = basic_ec in_progress \<or> ec = basic_ec would_block)
       then set_op_ec op no_error r3 else r3)"
    have run: "r1 = (if result \<noteq> 0 \<and> (ec = basic_ec in_progress \<or> ec = basic_ec would_block)
        then start_op ctl perform connect_op (si_socket impl2) (si_data impl2) op c False r4
        else r_post_immediate op c r4)" "impl1 = impl2"
      using s m True by (auto simp: start_connect_op_def on_kernel_def c r3_def r4_def Let_def split: if_splits)
    have r4: "r_states r4 = r_states r" "r_kernel r4 = w3"
        "r_op_ec r4 op = (if result \<noteq> 0 \<and> (ec = basic_ec in_progress \<or> ec = basic_ec would_block) then no_error else ec)"
      using M by (simp_all add: r4_def r3_def)
    have "connect_called mode k (si_socket impl2) addr addrlen r r4 result ec"
      using r4 mode c unfolding connect_called_def by auto
    then show ?thesis
      unfolding connect_started_def using run r4(3) by (intro disjI2 exI [of _ r4] exI [of _ result] exI [of _ ec]) simp
  qed
qed

text \<open>Every asynchronous operation of the sockets that the reactor may have to wait for: what the functions
  that start one return.\<close>

definition async_calls ::
  "('w, 'd) ctl \<Rightarrow> 'w kernel \<Rightarrow> ('o, 'w) performer \<Rightarrow> ('d, 'z) base_impl_scheme \<Rightarrow> 'o \<Rightarrow> bool \<Rightarrow> ('o, 'd, 'w, 'q, 't, 'a) reactor \<Rightarrow>
   (('o, 'd, 'w, 'q, 't, 'a) reactor \<times> ('d, 'z) base_impl_scheme) set" where
  "async_calls ctl k perform impl op c r =
     {async_wait ctl k perform impl wt op c r |wt. wt \<noteq> WaitOther} \<union>
     {async_send ctl k perform impl bs op c r |bs. \<not> (has (si_state impl) stream_oriented \<and> adapter_all_empty bs)} \<union>
     {async_receive ctl k perform impl bs fl op c r |bs fl. \<not> (has (si_state impl) stream_oriented \<and> adapter_all_empty bs)} \<union>
     {async_send_null ctl k perform impl op c r, async_send_to ctl k perform impl op c r,
      start_accept_op ctl k perform impl op c False r} \<union>
     range (\<lambda>fl. async_receive_null ctl k perform impl fl op c r) \<union>
     range (\<lambda>fl. async_receive_with_flags ctl k perform impl fl op c r) \<union>
     range (\<lambda>fl. async_receive_from ctl k perform impl fl op c r)"

lemma async_calls_start:
  "(r1, impl1) \<in> async_calls ctl k perform impl op c r \<Longrightarrow>
     \<exists>ty allow. service_start_op ctl k perform impl ty op c allow False r = (r1, impl1)"
proof -
  have w: "\<exists>ty allow. service_start_op ctl k perform impl ty op c allow False r = async_wait ctl k perform impl wt op c r"
    if "wt \<noteq> WaitOther" for wt
    using that by (cases wt) (auto simp: async_wait_def)
  show "(r1, impl1) \<in> async_calls ctl k perform impl op c r \<Longrightarrow> ?thesis"
    unfolding async_calls_def
    by (auto simp: async_send_def async_receive_def async_send_null_def async_send_to_def start_accept_op_def
        async_receive_null_def async_receive_with_flags_def async_receive_from_def dest: w) (metis w)+
qed

text \<open>C20. A socket that was opened or assigned with its mode bits clear and then used in any way. Whenever
  one of the \<open>async_\<close> functions that have something to wait for is called, the operation is either posted
  at once with the error of making the descriptor non-blocking, or handed to the reactor, which may
  run it speculatively, while the descriptor is in non-blocking mode. And \<open>async_connect\<close> calls
  \<open>connect\<close> only on a descriptor in that mode, posts the operation with the result, and only where
  \<open>connect\<close> is in progress hands it to the reactor, still in that mode and with its error cleared.\<close>

theorem async_needs_non_blocking:
  assumes "mode_law mode k" and "connect_keeps_mode mode k" and "si_state impl0 AND non_blocking = 0"
    and "(socket_step mode k)\<^sup>*\<^sup>* (w0, impl0) (r_kernel r, impl)"
  shows "(\<forall>(r1, impl1) \<in> async_calls ctl k perform impl op c r.
       refused op c r r1 \<or> (\<exists>ty allow. handed_over mode ctl perform ty op c allow r r1 impl1)) \<and>
    (case service_start_op ctl k perform impl ty op c allow False r of
       (r1, impl1) \<Rightarrow> refused op c r r1 \<or> handed_over mode ctl perform ty op c allow r r1 impl1) \<and>
    (case async_connect ctl k perform impl addr addrlen op c r of
       (r1, impl1) \<Rightarrow> refused op c r r1 \<or> connect_started mode k ctl perform addr addrlen op c r r1 impl1)"
proof -
  have fl: "flag_true mode (r_kernel r, impl)"
    using socket_steps_flag [OF assms(1,4)] assms(3) by (simp add: flag_true_def)
  have a: "refused op c r r1 \<or> (\<exists>ty allow. handed_over mode ctl perform ty op c allow r r1 impl1)"
    if "(r1, impl1) \<in> async_calls ctl k perform impl op c r" for r1 impl1
    using async_calls_start [OF that] service_start_outcome [OF assms(1) fl] by blast
  have s: "case service_start_op ctl k perform impl ty op c allow False r of
       (r1, impl1) \<Rightarrow> refused op c r r1 \<or> handed_over mode ctl perform ty op c allow r r1 impl1"
    using service_start_outcome [OF assms(1) fl] by blast
  have "case async_connect ctl k perform impl addr addrlen op c r of
       (r1, impl1) \<Rightarrow> refused op c r r1 \<or> connect_started mode k ctl perform addr addrlen op c r r1 impl1"
    unfolding async_connect_def
    by (cases "start_connect_op ctl k perform impl op c addr addrlen r")
      (simp only: prod.case, rule start_connect_outcome [OF assms(1,2) fl])
  with a s show ?thesis by blast
qed

section \<open>Witnesses\<close>

text \<open>A kernel with one stream of incoming bytes, a number of times a receive would block, the open
  descriptors and their modes. Each receive delivers one byte.\<close>

record demo_os =
  os_in :: "byte list"
  os_delay :: nat
  os_fds :: "sock list"
  os_mode :: "sock \<Rightarrow> bool"

definition fresh_fd :: "demo_os \<Rightarrow> sock" where
  "fresh_fd d = 1 + sum_list (map abs (os_fds d))"

fun demo_create :: "demo_os world \<Rightarrow> demo_os world \<times> int \<times> int" where
  "demo_create (d, m) = ((d\<lparr>os_fds := fresh_fd d # os_fds d\<rparr>, m), fresh_fd d, 0)"

fun demo_recv :: "buf list \<Rightarrow> demo_os world \<Rightarrow> demo_os world \<times> int \<times> int" where
  "demo_recv bufs (d, m) =
     (if os_delay d > 0 then ((d, m), - 1, 11)
      else if os_in d = [] \<or> baddrs bufs = [] then ((d, m), 0, 0)
      else ((d\<lparr>os_in := tl (os_in d)\<rparr>, m(hd (baddrs bufs) := hd (os_in d))), 1, 0))"

fun demo_ioctl :: "sock \<Rightarrow> int \<Rightarrow> int \<Rightarrow> demo_os world \<Rightarrow> demo_os world \<times> int \<times> int \<times> int" where
  "demo_ioctl s cmd arg (d, m) =
     (if cmd = FIONBIO then ((d\<lparr>os_mode := (os_mode d)(s := arg \<noteq> 0)\<rparr>, m), 0, 0, arg) else ((d, m), - 1, 22, arg))"

definition demo_kernel :: "demo_os world kernel" where
  "demo_kernel =
     \<lparr>k_accept = (\<lambda>s addr len w. case demo_create w of (w1, n, e) \<Rightarrow> (w1, n, e, 16)),
      k_bind = (\<lambda>s addr len w. (w, 0, 0)),
      k_close = (\<lambda>s w. ((fst w\<lparr>os_fds := removeAll s (os_fds (fst w))\<rparr>, snd w), 0, 0)),
      k_ioctl = demo_ioctl,
      k_shutdown = (\<lambda>s what w. (w, 0, 0)),
      k_connect = (\<lambda>s addr len w. (w, 0, 0)),
      k_socketpair = (\<lambda>af ty protocol w. (w, - 1, 22, (0, 0))),
      k_listen = (\<lambda>s backlog w. (w, 0, 0)),
      k_recvmsg = (\<lambda>s bufs flags name len w. case demo_recv bufs w of (w1, r, e) \<Rightarrow> (w1, r, e, 0, 0)),
      k_sendmsg = (\<lambda>s bufs flags name len w. (w, 0, 0)),
      k_socket = (\<lambda>af ty protocol w. demo_create w),
      k_setsockopt = (\<lambda>s level name dat len w. (w, 0, 0)),
      k_getsockopt = (\<lambda>s level name dat len w. (w, 0, 0, dat, len)),
      k_getpeername = (\<lambda>s addr len w. (w, 0, 0, len)),
      k_getsockname = (\<lambda>s addr len w. (w, 0, 0, len)),
      k_poll = (\<lambda>s events msec w. ((fst w\<lparr>os_delay := os_delay (fst w) - 1\<rparr>, snd w), 1, 0))\<rparr>"

definition demo_ctl_os :: "(demo_os world, nat) ctl" where
  "demo_ctl_os = (\<lambda>w what fd ev dat. (w, 0))"

lemma fresh_fd_new: "fresh_fd d \<notin> set (os_fds d)" "0 \<le> fresh_fd d"
proof -
  have "x \<le> sum_list (map abs xs)" if "x \<in> set xs" for x :: int and xs
    using that
  proof (induction xs)
    case (Cons a xs)
    have "0 \<le> sum_list (map abs xs)"
      by (rule sum_list_nonneg) auto
    moreover have "x = a \<or> x \<le> sum_list (map abs xs)"
      using Cons by auto
    ultimately show ?case by auto
  qed simp
  from this [of "fresh_fd d" "os_fds d"] show "fresh_fd d \<notin> set (os_fds d)"
    unfolding fresh_fd_def by linarith
  have "0 \<le> sum_list (map abs (os_fds d))"
    by (rule sum_list_nonneg) auto
  then show "0 \<le> fresh_fd d"
    unfolding fresh_fd_def by linarith
qed

lemma demo_laws_os:
  "recv_law os_in demo_kernel s" "poll_law os_in demo_kernel s" "patient (\<lambda>w. os_delay (fst w)) demo_kernel s"
  "fd_law (\<lambda>w. set (os_fds (fst w))) demo_ctl_os demo_kernel" "mode_law (\<lambda>w. os_mode (fst w)) demo_kernel"
proof -
  show "recv_law os_in demo_kernel s"
    unfolding recv_law_def
  proof (intro allI impI)
    fix bufs w w1 r errno x
    assume a: "k_recvmsg demo_kernel s bufs 0 None 0 w = (w1, r, errno, x)"
    obtain d m where w: "w = (d, m)" by fastforce
    show "(0 \<le> r \<longrightarrow> nat r \<le> length (baddrs bufs) \<and>
        (distinct (baddrs bufs) \<longrightarrow> received os_in w (take (nat r) (baddrs bufs)) w1)) \<and>
      (r < 0 \<longrightarrow> r = - 1 \<and> errno \<noteq> 0 \<and> received os_in w [] w1)"
      using a by (cases "os_in d"; cases "baddrs bufs"; cases "os_delay d") (auto simp: demo_kernel_def received_def w)
  qed
  show "poll_law os_in demo_kernel s"
    by (auto simp: poll_law_def demo_kernel_def received_def)
  show "patient (\<lambda>w. os_delay (fst w)) demo_kernel s"
    by (auto simp: patient_def demo_kernel_def split: prod.splits list.splits if_splits)
  show "fd_law (\<lambda>w. set (os_fds (fst w))) demo_ctl_os demo_kernel"
    using fresh_fd_new
    by (auto simp: fd_law_def demo_kernel_def demo_ctl_os_def creates_def split: if_splits)
  show "mode_law (\<lambda>w. os_mode (fst w)) demo_kernel"
    by (auto simp: mode_law_def demo_kernel_def split: if_splits)
qed

definition demo_os_start :: demo_os where
  "demo_os_start = \<lparr>os_in = [1, 2, 3], os_delay = 2, os_fds = [3], os_mode = (\<lambda>s. False)\<rparr>"

definition demo_socket :: "nat socket_impl" where
  "demo_socket = \<lparr>si_socket = 3, si_state = stream_oriented, si_data = Some 0, si_protocol = \<lparr>p_family = 2, p_type = 1, p_protocol = 6\<rparr>\<rparr>"

definition closed_socket :: "nat socket_impl" where
  "closed_socket = demo_socket\<lparr>si_socket := invalid_socket, si_state := 0, si_data := None\<rparr>"

definition demo_os_reactor :: "(nat, nat, demo_os world, nat, nat, nat) reactor" where
  "demo_os_reactor =
     \<lparr>r_sched = sched_new 1, r_this = None, r_signals = [], r_states = (\<lambda>_. demo_state [7]), r_pool = pool_new (\<lambda>_. None) (\<lambda>_. None),
      r_op_ec = (\<lambda>_. no_error), r_kernel = (demo_os_start, \<lambda>_. 0), r_timer_fd = True, r_shutdown = False, timer_queues = [],
      timer_queue_at = (\<lambda>_. timer_queue_new)\<rparr>"

lemma demo_socket_open [simp]: "is_open demo_socket" "\<not> is_open closed_socket" "has (si_state demo_socket) stream_oriented"
    "si_socket demo_socket = 3" "si_data demo_socket = Some 0" "si_state demo_socket AND non_blocking = 0"
  by (simp_all add: is_open_def demo_socket_def closed_socket_def invalid_socket_def stream_oriented_def non_blocking_def
      user_set_non_blocking_def internal_non_blocking_def)

theorem receive_attempt_is_blocking_witness:
  "non_blocking_recv demo_kernel 3 [] 0 True 5 (demo_os_start, \<lambda>_. 0) =
   map_option (\<lambda>(w1, n, ec). (w1, \<not> ec_blocked ec, if ec_blocked ec \<or> ec = misc_ec eof then 5 else n, ec))
     (sync_recv demo_kernel 3 (stream_oriented OR user_set_non_blocking) [] 0 False (demo_os_start, \<lambda>_. 0))"
  using receive_attempt_is_blocking [THEN conjunct2, of demo_kernel 3 "[]" 0 "(demo_os_start, \<lambda>_. 0)" stream_oriented 5]
  by (simp add: demo_kernel_def demo_os_start_def sock_recv_def nonneg_ok_def error_wrapper_def basic_ec_system invalid_socket_def
      stream_oriented_def)

theorem socket_read_correct_witness:
  "\<exists>n w' ec. sync_read (socket_read_some demo_kernel demo_socket) demo_sequence (TransferExactly 2) (demo_os_start, \<lambda>_. 0) = Some (n, w', ec) \<and>
     n \<le> 4 \<and> received os_in (demo_os_start, \<lambda>_. 0) (take n [0, 1, 5, 6]) w'"
  using socket_read_correct [THEN conjunct1, OF demo_laws_os(1-3) demo_socket_open(1,3) _ demo_sequence_props(1,3), of "TransferExactly 2" "(demo_os_start, \<lambda>_. 0)"]
  by (auto simp: demo_sequence_props(2))

theorem descriptors_owned_witness:
  "case do_open demo_ctl_os demo_kernel 0 closed_socket 2 1 6 demo_os_reactor of
     (r1, impl1, ec) \<Rightarrow> owned (\<lambda>w. set (os_fds (fst w))) (r_kernel demo_os_reactor) impl1 ec (r_kernel r1)"
proof -
  obtain r1 impl1 ec where o: "do_open demo_ctl_os demo_kernel 0 closed_socket 2 1 6 demo_os_reactor = (r1, impl1, ec)"
    by (metis prod_cases3)
  from descriptors_owned [THEN conjunct1, rule_format, OF demo_laws_os(4) conjI [OF o demo_socket_open(2)]] o show ?thesis by simp
qed

theorem close_socket_witness:
  "case service_close demo_ctl_os demo_kernel demo_socket demo_os_reactor of
     (r1, impl1, ec) \<Rightarrow> set (os_fds (fst (r_kernel r1))) = {} \<and> posted r1 = {#7#} \<and> r_op_ec r1 7 = basic_ec operation_aborted"
proof -
  obtain r1 impl1 ec where c: "service_close demo_ctl_os demo_kernel demo_socket demo_os_reactor = (r1, impl1, ec)"
    by (metis prod_cases3)
  have "posted demo_os_reactor = {#}" "pending 0 demo_os_reactor = {#7#}" "\<not> ds_shutdown (r_states demo_os_reactor 0)"
    "set (os_fds (fst (r_kernel demo_os_reactor))) = {3}"
    by (simp_all add: demo_os_reactor_def posted_def pending_def demo_state_def sched_new_def demo_os_start_def)
  with close_socket [OF demo_laws_os(4) demo_socket_open(1,5) _ c] c show ?thesis by simp
qed

theorem async_needs_non_blocking_witness:
  "case async_connect demo_ctl_os demo_kernel (\<lambda>op w. (w, Done, no_error)) demo_socket 16 16 9 False demo_os_reactor of
     (r1, impl1) \<Rightarrow> refused 9 False demo_os_reactor r1 \<or>
       connect_started (\<lambda>w. os_mode (fst w)) demo_kernel demo_ctl_os (\<lambda>op w. (w, Done, no_error)) 16 16 9 False demo_os_reactor r1 impl1"
proof -
  have s: "(socket_step (\<lambda>w. os_mode (fst w)) demo_kernel)\<^sup>*\<^sup>* (r_kernel demo_os_reactor, demo_socket) (r_kernel demo_os_reactor, demo_socket)"
    by simp
  have c: "connect_keeps_mode (\<lambda>w. os_mode (fst w)) demo_kernel"
    by (simp add: connect_keeps_mode_def demo_kernel_def)
  from async_needs_non_blocking [OF demo_laws_os(5) c demo_socket_open(6) s, THEN conjunct2, THEN conjunct2] show ?thesis .
qed

end
