(* ===== verification/HashMap.thy ===== *)
theory HashMap
  imports AsioPrelude "HOL-Library.Monad_Syntax"
begin

text \<open>
  \<open>include/asio/detail/base/stdcpp/hash_map.hpp\<close>: the hash map. All entries are in one \<open>std::list\<close>, in
  which the entries of a bucket are neighbours; a bucket has iterators to its first and last entry.
  A list node is a number, an iterator is a node or \<open>None\<close> for \<open>end()\<close>. What is undefined in C++
  (\<open>++end()\<close>, an entry of \<open>end()\<close>, a failed assertion) and a loop that does not end is \<open>None\<close>. Copying and
  assigning values are parameters, because the map is also used with values that do neither.
\<close>

section \<open>State\<close>

type_synonym iter = "nat option"

record ('k, 'v) hash_map =
  hm_size :: nat
  hm_values :: "nat list"
  hm_spares :: "nat list"
  hm_buckets :: "(iter \<times> iter) list"
  hm_node :: "nat \<Rightarrow> 'k \<times> 'v"
  hm_fresh :: nat

record ('k, 'v) hash_traits =
  ht_hash :: "'k \<Rightarrow> 64 word"
  key_default :: 'k
  value_default :: 'v
  value_copy :: "'v \<Rightarrow> 'v"
  value_assign :: "'v \<Rightarrow> 'v \<Rightarrow> 'v"

definition hash_int :: "int \<Rightarrow> 64 word" where
  "hash_int i = word_of_int i"

definition hash_ptr :: "64 word \<Rightarrow> 64 word" where
  "hash_ptr p = p + drop_bit 3 p"

definition hash_map_new :: "(nat \<Rightarrow> 'k \<times> 'v) \<Rightarrow> ('k, 'v) hash_map" where
  "hash_map_new mem = \<lparr>hm_size = 0, hm_values = [], hm_spares = [], hm_buckets = [], hm_node = mem, hm_fresh = 0\<rparr>"

definition hm_key :: "('k, 'v) hash_map \<Rightarrow> nat \<Rightarrow> 'k" where
  "hm_key h x = fst (hm_node h x)"

definition hm_empty :: "('k, 'v) hash_map \<Rightarrow> bool" where
  "hm_empty h \<longleftrightarrow> hm_values h = []"

section \<open>Iterators\<close>

definition list_begin :: "nat list \<Rightarrow> iter" where
  "list_begin xs = (case xs of [] \<Rightarrow> None | x # _ \<Rightarrow> Some x)"

definition list_next :: "nat list \<Rightarrow> iter \<Rightarrow> iter option" where
  "list_next xs it =
     (case dropWhile (\<lambda>y. it \<noteq> Some y) xs of [] \<Rightarrow> None | x # rest \<Rightarrow> Some (list_begin rest))"

definition list_prev :: "nat list \<Rightarrow> iter \<Rightarrow> iter option" where
  "list_prev xs it =
     (let front = takeWhile (\<lambda>y. it \<noteq> Some y) xs
      in if front = [] then None else Some (Some (last front)))"

definition list_insert :: "nat list \<Rightarrow> iter \<Rightarrow> nat \<Rightarrow> nat list" where
  "list_insert xs it x = takeWhile (\<lambda>y. it \<noteq> Some y) xs @ x # dropWhile (\<lambda>y. it \<noteq> Some y) xs"

section \<open>Finding\<close>

definition hm_bucket :: "('k, 'v) hash_traits \<Rightarrow> ('k, 'v) hash_map \<Rightarrow> 'k \<Rightarrow> nat" where
  "hm_bucket p h k = unat (ht_hash p k) mod length (hm_buckets h)"

partial_function (option) hm_scan :: "('k, 'v) hash_map \<Rightarrow> 'k \<Rightarrow> iter \<Rightarrow> iter \<Rightarrow> iter option" where
  "hm_scan h k it end_it =
     (if it = end_it then Some None
      else case it of
             None \<Rightarrow> None
           | Some x \<Rightarrow>
               if hm_key h x = k then Some it
               else do {it1 \<leftarrow> list_next (hm_values h) it; hm_scan h k it1 end_it})"

declare hm_scan.simps [code]

definition hm_find :: "('k, 'v) hash_traits \<Rightarrow> 'k \<Rightarrow> ('k, 'v) hash_map \<Rightarrow> iter option" where
  "hm_find p k h =
     (if length (hm_buckets h) \<noteq> 0 then
        (case hm_buckets h ! hm_bucket p h k of
           (first_it, last_it) \<Rightarrow>
             if first_it = None then Some None
             else do {end_it \<leftarrow> list_next (hm_values h) last_it; hm_scan h k first_it end_it})
      else Some None)"

section \<open>Rehashing\<close>

definition hash_sizes :: "nat list" where
  "hash_sizes = [3, 13, 23, 53, 97, 193, 389, 769, 1543, 3079, 6151, 12289, 24593,
      49157, 98317, 196613, 393241, 786433, 1572869, 3145739, 6291469, 12582917, 25165843]"

definition hash_size :: "nat \<Rightarrow> nat" where
  "hash_size num_elems =
     (case find (\<lambda>s. num_elems < s) (butlast hash_sizes) of Some s \<Rightarrow> s | None \<Rightarrow> last hash_sizes)"

definition set_bucket :: "nat \<Rightarrow> iter \<times> iter \<Rightarrow> ('k, 'v) hash_map \<Rightarrow> ('k, 'v) hash_map" where
  "set_bucket b fl h = h\<lparr>hm_buckets := (hm_buckets h)[b := fl]\<rparr>"

partial_function (option) rehash_loop ::
  "('k, 'v) hash_traits \<Rightarrow> iter \<Rightarrow> ('k, 'v) hash_map \<Rightarrow> ('k, 'v) hash_map option" where
  "rehash_loop p it h =
     (case it of
        None \<Rightarrow> Some h
      | Some x \<Rightarrow>
          (case hm_buckets h ! hm_bucket p h (hm_key h x) of
             (first_it, last_it) \<Rightarrow>
               if last_it = None then
                 do {it1 \<leftarrow> list_next (hm_values h) it;
                     rehash_loop p it1 (set_bucket (hm_bucket p h (hm_key h x)) (it, it) h)}
               else
                 do {last1 \<leftarrow> list_next (hm_values h) last_it;
                     it1 \<leftarrow> list_next (hm_values h) it;
                     if last1 = it then
                       rehash_loop p it1 (set_bucket (hm_bucket p h (hm_key h x)) (first_it, last1) h)
                     else
                       do {let values1 = list_insert (remove1 x (hm_values h)) last1 x;
                           last2 \<leftarrow> list_prev values1 last1;
                           rehash_loop p it1
                             (set_bucket (hm_bucket p h (hm_key h x)) (first_it, last2) (h\<lparr>hm_values := values1\<rparr>))}}))"

declare rehash_loop.simps [code]

definition hm_rehash :: "('k, 'v) hash_traits \<Rightarrow> nat \<Rightarrow> ('k, 'v) hash_map \<Rightarrow> ('k, 'v) hash_map option" where
  "hm_rehash p num_buckets h =
     (if num_buckets = length (hm_buckets h) then Some h
      else if num_buckets = 0 then None
      else rehash_loop p (list_begin (hm_values h)) (h\<lparr>hm_buckets := replicate num_buckets (None, None)\<rparr>))"

section \<open>Inserting and erasing\<close>

definition values_insert ::
  "('k, 'v) hash_traits \<Rightarrow> iter \<Rightarrow> 'k \<times> 'v \<Rightarrow> ('k, 'v) hash_map \<Rightarrow> (('k, 'v) hash_map \<times> iter) option" where
  "values_insert p it v h =
     (case hm_spares h of
        [] \<Rightarrow> Some (h\<lparr>hm_node := (hm_node h)(hm_fresh h := (fst v, value_copy p (snd v))),
                      hm_values := list_insert (hm_values h) it (hm_fresh h), hm_fresh := hm_fresh h + 1\<rparr>,
                    Some (hm_fresh h))
      | s # spares \<Rightarrow>
          do {let values1 = list_insert (hm_values h) it s;
              it1 \<leftarrow> list_prev values1 it;
              Some (h\<lparr>hm_node := (hm_node h)(s := (fst v, value_assign p (snd (hm_node h s)) (snd v))),
                      hm_values := values1, hm_spares := spares\<rparr>, it1)})"

definition values_erase :: "('k, 'v) hash_traits \<Rightarrow> nat \<Rightarrow> ('k, 'v) hash_map \<Rightarrow> ('k, 'v) hash_map" where
  "values_erase p x h =
     h\<lparr>hm_node := (hm_node h)(x := (key_default p, value_assign p (snd (hm_node h x)) (value_default p))),
       hm_values := remove1 x (hm_values h), hm_spares := x # hm_spares h\<rparr>"

definition hm_insert ::
  "('k, 'v) hash_traits \<Rightarrow> 'k \<times> 'v \<Rightarrow> ('k, 'v) hash_map \<Rightarrow> (('k, 'v) hash_map \<times> iter \<times> bool) option" where
  "hm_insert p v h0 =
     do {h \<leftarrow> (if hm_size h0 + 1 \<ge> length (hm_buckets h0) then hm_rehash p (hash_size (hm_size h0 + 1)) h0 else Some h0);
         let b = hm_bucket p h (fst v);
         (case hm_buckets h ! b of
            (first_it, last_it) \<Rightarrow>
              if first_it = None then
                do {(h1, it) \<leftarrow> values_insert p None v h;
                    Some (set_bucket b (it, it) (h1\<lparr>hm_size := hm_size h1 + 1\<rparr>), it, True)}
              else
                do {end_it \<leftarrow> list_next (hm_values h) last_it;
                    found \<leftarrow> hm_scan h (fst v) first_it end_it;
                    if found \<noteq> None then Some (h, found, False)
                    else do {(h1, it) \<leftarrow> values_insert p end_it v h;
                             Some (set_bucket b (first_it, it) (h1\<lparr>hm_size := hm_size h1 + 1\<rparr>), it, True)}})}"

text \<open>The bounds of the bucket of an entry that is erased.\<close>

definition erased_bounds :: "nat list \<Rightarrow> iter \<Rightarrow> iter \<times> iter \<Rightarrow> (iter \<times> iter) option" where
  "erased_bounds xs it fl =
     (case fl of
        (first_it, last_it) \<Rightarrow>
          if it = first_it \<and> it = last_it then Some (None, None)
          else if it = first_it then do {f1 \<leftarrow> list_next xs first_it; Some (f1, last_it)}
          else if it = last_it then do {l1 \<leftarrow> list_prev xs last_it; Some (first_it, l1)}
          else Some (first_it, last_it))"

definition hm_erase_at ::
  "('k, 'v) hash_traits \<Rightarrow> iter \<Rightarrow> ('k, 'v) hash_map \<Rightarrow> ('k, 'v) hash_map option" where
  "hm_erase_at p it h =
     (case it of
        None \<Rightarrow> None
      | Some x \<Rightarrow>
          if length (hm_buckets h) = 0 then None
          else do {let b = hm_bucket p h (hm_key h x);
                   fl \<leftarrow> erased_bounds (hm_values h) it (hm_buckets h ! b);
                   let h1 = values_erase p x (set_bucket b fl h);
                   Some (h1\<lparr>hm_size := hm_size h1 - 1\<rparr>)})"

definition hm_erase :: "('k, 'v) hash_traits \<Rightarrow> 'k \<Rightarrow> ('k, 'v) hash_map \<Rightarrow> ('k, 'v) hash_map option" where
  "hm_erase p k h = do {it \<leftarrow> hm_find p k h; if it \<noteq> None then hm_erase_at p it h else Some h}"

definition hm_clear :: "('k, 'v) hash_map \<Rightarrow> ('k, 'v) hash_map" where
  "hm_clear h = h\<lparr>hm_values := [], hm_size := 0, hm_buckets := map (\<lambda>_. (None, None)) (hm_buckets h)\<rparr>"

end
