(* ===== verification/HashMapInv.thy ===== *)
theory HashMapInv
  imports HashMap
begin

text \<open>
  The invariant of the hash map: in the list of entries each bucket is a run of neighbours, from the
  bucket's first iterator to its last. Every operation keeps it and is defined under it; the loops end.
\<close>

section \<open>Iterators of a split list\<close>

definition last_of :: "nat list \<Rightarrow> iter" where
  "last_of xs = (if xs = [] then None else Some (last xs))"

lemma list_begin_simps [simp]:
  "list_begin [] = None" "list_begin (x # xs) = Some x"
  "list_begin xs = None \<longleftrightarrow> xs = []" "None = list_begin xs \<longleftrightarrow> xs = []" "xs \<noteq> [] \<Longrightarrow> list_begin (xs @ ys) = list_begin xs"
  by (simp_all add: list_begin_def split: list.split)

lemma list_begin_Some: "list_begin xs = Some x \<longleftrightarrow> (\<exists>ys. xs = x # ys)"
  by (cases xs) auto

lemma last_of_simps [simp]:
  "last_of [] = None" "last_of (xs @ [x]) = Some x" "last_of xs = None \<longleftrightarrow> xs = []" "None = last_of xs \<longleftrightarrow> xs = []"
  "ys \<noteq> [] \<Longrightarrow> last_of (xs @ ys) = last_of ys" "ys \<noteq> [] \<Longrightarrow> last_of (y # ys) = last_of ys"
  by (simp_all add: last_of_def)

lemma last_of_Some: "last_of xs = Some x \<longleftrightarrow> (\<exists>ys. xs = ys @ [x])"
  by (cases xs rule: rev_cases) (auto simp: last_of_def)

lemma cursor_split:
  assumes "distinct (xs @ ys)"
  shows "takeWhile (\<lambda>y. list_begin ys \<noteq> Some y) (xs @ ys) = xs" "dropWhile (\<lambda>y. list_begin ys \<noteq> Some y) (xs @ ys) = ys"
proof -
  have "\<forall>y\<in>set xs. list_begin ys \<noteq> Some y"
    using assms by (cases ys) auto
  then show "takeWhile (\<lambda>y. list_begin ys \<noteq> Some y) (xs @ ys) = xs" "dropWhile (\<lambda>y. list_begin ys \<noteq> Some y) (xs @ ys) = ys"
    by (induction xs) (cases ys; simp)+
qed

lemma list_next_split: "distinct (xs @ x # ys) \<Longrightarrow> list_next (xs @ x # ys) (Some x) = Some (list_begin ys)"
  using cursor_split(2) [of xs "x # ys"] by (simp add: list_next_def)

lemma list_insert_split: "distinct (xs @ ys) \<Longrightarrow> list_insert (xs @ ys) (list_begin ys) z = xs @ z # ys"
  by (simp add: list_insert_def cursor_split)

lemma list_prev_split:
  assumes "distinct (xs @ z # ys)"
  shows "list_prev (xs @ z # ys) (list_begin ys) = Some (Some z)"
  using cursor_split(1) [of "xs @ [z]" ys] assms by (simp add: list_prev_def)

section \<open>Buckets as runs of neighbours\<close>

definition run_of :: "(nat \<Rightarrow> bool) \<Rightarrow> nat list \<Rightarrow> iter \<times> iter \<Rightarrow> bool" where
  "run_of P xs fl \<longleftrightarrow> (\<exists>pre g post. xs = pre @ g @ post \<and> (\<forall>x\<in>set g. P x) \<and> (\<forall>x\<in>set pre \<union> set post. \<not> P x) \<and>
     fl = (list_begin g, last_of g))"

definition buckets_ok :: "(nat \<Rightarrow> nat) \<Rightarrow> (iter \<times> iter) list \<Rightarrow> nat list \<Rightarrow> bool" where
  "buckets_ok cls bs xs \<longleftrightarrow> (\<forall>b<length bs. run_of (\<lambda>x. cls x = b) xs (bs ! b))"

lemma run_ofI:
  "(\<forall>x\<in>set g. P x) \<Longrightarrow> (\<forall>x\<in>set pre \<union> set post. \<not> P x) \<Longrightarrow> run_of P (pre @ g @ post) (list_begin g, last_of g)"
  unfolding run_of_def by blast

lemma run_of_insert:
  assumes "run_of P (A @ C) fl" and "\<not> P x" and "A = [] \<or> \<not> P (last A)"
  shows "run_of P (A @ x # C) fl"
proof -
  obtain pre g post where s: "A @ C = pre @ g @ post" and g: "\<forall>x\<in>set g. P x" and o: "\<forall>x\<in>set pre \<union> set post. \<not> P x"
    and fl: "fl = (list_begin g, last_of g)"
    using assms(1) unfolding run_of_def by blast
  from s consider us where "pre = A @ us" "C = us @ g @ post" | us where "A = pre @ us" "us @ C = g @ post"
    by (auto simp: append_eq_append_conv2)
  then show ?thesis
  proof cases
    case 1
    then show ?thesis
      using run_ofI [of g P "A @ x # us" post] g o assms(2) fl by simp
  next
    case (2 us)
    then consider vs where "g = us @ vs" "C = vs @ post" | vs where "us = g @ vs" "post = vs @ C"
      by (auto simp: append_eq_append_conv2)
    then show ?thesis
    proof cases
      case (1 vs)
      show ?thesis
      proof (cases "us = []")
        case True
        then show ?thesis
          using run_ofI [of g P "pre @ [x]" post] g o assms(2) fl 1 2 by simp
      next
        case False
        then have "last A \<in> set g"
          using 1 2 by (cases us rule: rev_cases) auto
        then show ?thesis
          using False 2 g assms(3) by auto
      qed
    next
      case (2 vs)
      then show ?thesis
        using run_ofI [of g P pre "vs @ x # C"] g o assms(2) fl \<open>A = pre @ us\<close> by simp
    qed
  qed
qed

lemma append_eq_Cons_split:
  "xs @ x # ys = us @ x # vs \<Longrightarrow> x \<notin> set xs \<Longrightarrow> x \<notin> set us \<Longrightarrow> xs = us \<and> ys = vs"
  by (induction xs arbitrary: us) (auto simp: Cons_eq_append_conv)

lemma run_of_remove:
  assumes "run_of P (A @ x # C) fl" and "\<not> P x"
  shows "run_of P (A @ C) fl"
proof -
  obtain pre g post where s: "A @ x # C = pre @ g @ post" and g: "\<forall>x\<in>set g. P x" and o: "\<forall>x\<in>set pre \<union> set post. \<not> P x"
    and fl: "fl = (list_begin g, last_of g)"
    using assms(1) unfolding run_of_def by blast
  have "x \<notin> set g"
    using g assms(2) by blast
  from s consider us where "pre = A @ us" "x # C = us @ g @ post" | us where "A = pre @ us" "us @ x # C = g @ post"
    by (auto simp: append_eq_append_conv2)
  then show ?thesis
  proof cases
    case (1 us)
    show ?thesis
    proof (cases us)
      case Nil
      then have "g = []" "post = x # C"
        using 1(2) \<open>x \<notin> set g\<close> by (auto simp: Cons_eq_append_conv)
      then show ?thesis
        using run_ofI [of "[]" P A C] o fl 1(1) Nil by simp
    next
      case (Cons y vs)
      then show ?thesis
        using run_ofI [of g P "A @ vs" post] g o fl 1 by simp
    qed
  next
    case (2 us)
    have "x \<in> set (g @ post)"
      by (subst 2(2) [symmetric]) simp
    then have "x \<in> set post"
      using \<open>x \<notin> set g\<close> by simp
    then obtain post1 post2 where p: "post = post1 @ x # post2" "x \<notin> set post1"
      by (meson split_list_first)
    show ?thesis
    proof (cases "x \<in> set us")
      case False
      then have "us = g @ post1" "C = post2"
        using 2(2) p \<open>x \<notin> set g\<close> append_eq_Cons_split [of us x C "g @ post1" post2] by simp_all
      then show ?thesis
        using run_ofI [of g P pre "post1 @ C"] g o fl 2(1) p by simp
    next
      case True
      then obtain us1 us2 where "us = us1 @ x # us2" "x \<notin> set us1"
        by (meson split_list_first)
      then have "us1 = g @ post1" "us2 @ x # C = post2"
        using 2(2) p \<open>x \<notin> set g\<close> append_eq_Cons_split [of us1 x "us2 @ x # C" "g @ post1" post2] by simp_all
      then show ?thesis
        using run_ofI [of g P pre "post1 @ x # us2 @ C"] g o fl 2(1) p \<open>us = us1 @ x # us2\<close> by auto
    qed
  qed
qed

lemma buckets_okD:
  assumes "buckets_ok cls bs xs" and "b < length bs"
  obtains pre g post where "xs = pre @ g @ post" "\<forall>x\<in>set g. cls x = b" "\<forall>x\<in>set pre \<union> set post. cls x \<noteq> b"
    "bs ! b = (list_begin g, last_of g)"
  using assms(1) [unfolded buckets_ok_def run_of_def, rule_format, OF assms(2)] by (elim exE conjE) (rule that, assumption+)

lemma buckets_ok_cong:
  assumes "\<forall>x\<in>set xs. cls x = cls1 x"
  shows "buckets_ok cls bs xs \<longleftrightarrow> buckets_ok cls1 bs xs"
proof -
  have "run_of (\<lambda>x. cls x = b) xs fl \<longleftrightarrow> run_of (\<lambda>x. cls1 x = b) xs fl" for b fl
    using assms unfolding run_of_def by (intro ex_cong1) auto
  then show ?thesis
    by (simp add: buckets_ok_def)
qed

lemma buckets_ok_upd:
  assumes "\<And>b. b < length bs \<Longrightarrow> b \<noteq> c \<Longrightarrow> run_of (\<lambda>x. cls x = b) ys (bs ! b)"
    and "c < length bs \<Longrightarrow> run_of (\<lambda>x. cls x = c) ys fl"
  shows "buckets_ok cls (bs[c := fl]) ys"
  unfolding buckets_ok_def
proof (intro allI impI)
  fix b assume "b < length (bs[c := fl])"
  then show "run_of (\<lambda>x. cls x = b) ys (bs[c := fl] ! b)"
    using assms by (cases "b = c") simp_all
qed

lemma buckets_ok_first:
  assumes "buckets_ok cls bs xs" and "snd (bs ! cls x) = None \<or> fst (bs ! cls x) = None" and "cls x < length bs"
  shows "buckets_ok cls (bs[cls x := (Some x, Some x)]) (xs @ [x])"
proof (rule buckets_ok_upd)
  obtain pre g post where s: "xs = pre @ g @ post" "\<forall>y\<in>set pre \<union> set post. cls y \<noteq> cls x" "bs ! cls x = (list_begin g, last_of g)"
    using buckets_okD [OF assms(1,3)] .
  then have "g = []" using assms(2) by auto
  then show "run_of (\<lambda>y. cls y = cls x) (xs @ [x]) (Some x, Some x)"
    using run_ofI [of "[x]" "\<lambda>y. cls y = cls x" xs "[]"] s by (auto simp: last_of_def)
next
  fix b assume "b < length bs" "b \<noteq> cls x"
  then have "run_of (\<lambda>y. cls y = b) xs (bs ! b)"
    using assms(1) by (simp add: buckets_ok_def)
  then obtain pre g post where "xs = pre @ g @ post" "\<forall>y\<in>set g. cls y = b" "\<forall>y\<in>set pre \<union> set post. cls y \<noteq> b" "bs ! b = (list_begin g, last_of g)"
    unfolding run_of_def by blast
  then show "run_of (\<lambda>y. cls y = b) (xs @ [x]) (bs ! b)"
    using run_ofI [of g "\<lambda>y. cls y = b" pre "post @ [x]"] \<open>b \<noteq> cls x\<close> by simp
qed

lemma buckets_ok_insert:
  assumes "buckets_ok cls bs xs" and "cls x < length bs" and "bs ! cls x = (f, Some l)"
  obtains A C where "xs = A @ l # C" "buckets_ok cls (bs[cls x := (f, Some x)]) (A @ l # x # C)" "\<forall>y\<in>set C. cls y \<noteq> cls x"
proof -
  obtain pre g post where s: "xs = pre @ g @ post" and g: "\<forall>y\<in>set g. cls y = cls x" and o: "\<forall>y\<in>set pre \<union> set post. cls y \<noteq> cls x"
    and b: "bs ! cls x = (list_begin g, last_of g)"
    using buckets_okD [OF assms(1,2)] .
  then have "last_of g = Some l"
    using assms(3) by simp
  then obtain g1 where g1: "g = g1 @ [l]"
    unfolding last_of_Some by blast
  have "buckets_ok cls (bs[cls x := (f, Some x)]) ((pre @ g1 @ [l]) @ x # post)"
  proof (rule buckets_ok_upd)
    show "run_of (\<lambda>y. cls y = cls x) ((pre @ g1 @ [l]) @ x # post) (f, Some x)"
      using run_ofI [of "g @ [x]" "\<lambda>y. cls y = cls x" pre post] g o b g1 assms(3)
        list_begin_simps(5) [of "g1 @ [l]" "[x]"] by (simp add: last_of_def)
    fix c assume "c < length bs" "c \<noteq> cls x"
    then have "run_of (\<lambda>y. cls y = c) ((pre @ g1 @ [l]) @ post) (bs ! c)"
      using assms(1) s g1 by (simp add: buckets_ok_def)
    then show "run_of (\<lambda>y. cls y = c) ((pre @ g1 @ [l]) @ x # post) (bs ! c)"
      by (rule run_of_insert) (use \<open>c \<noteq> cls x\<close> g g1 in auto)
  qed
  then show ?thesis
    using that [of "pre @ g1" post] s g1 o by simp
qed

lemma buckets_ok_remove:
  assumes ok: "buckets_ok cls bs (A @ x # C)" and b: "cls x < length bs" and d: "distinct (A @ x # C)"
  obtains fl where "erased_bounds (A @ x # C) (Some x) (bs ! cls x) = Some fl" "buckets_ok cls (bs[cls x := fl]) (A @ C)"
proof -
  obtain pre g post where s: "A @ x # C = pre @ g @ post" and g: "\<forall>y\<in>set g. cls y = cls x" and o: "\<forall>y\<in>set pre \<union> set post. cls y \<noteq> cls x"
    and fl: "bs ! cls x = (list_begin g, last_of g)"
    using buckets_okD [OF ok b] .
  have "x \<in> set g"
    using s o by (metis (no_types, lifting) Un_iff in_set_conv_decomp set_append)
  then obtain g1 g2 where g12: "g = g1 @ x # g2"
    by (meson split_list)
  have eq: "A @ x # C = (pre @ g1) @ x # g2 @ post"
    unfolding s g12 by simp
  have "distinct ((pre @ g1) @ x # g2 @ post)"
    using d by (simp only: eq)
  then have "x \<notin> set (pre @ g1)"
    by simp
  moreover have "x \<notin> set A"
    using d by simp
  ultimately have AC: "A = pre @ g1" "C = g2 @ post"
    using append_eq_Cons_split [OF eq] by blast+
  have r: "run_of (\<lambda>y. cls y = cls x) (A @ C) (list_begin (g1 @ g2), last_of (g1 @ g2))"
  proof -
    have "A @ C = pre @ (g1 @ g2) @ post"
      by (simp add: AC)
    moreover have "\<forall>y\<in>set (g1 @ g2). cls y = cls x"
      using g unfolding g12 by auto
    ultimately show ?thesis
      using run_ofI [of "g1 @ g2" "\<lambda>y. cls y = cls x" pre post] o by metis
  qed
  have ds: "x \<notin> set g1" "x \<notin> set g2" "distinct ((pre @ g1) @ x # g2 @ post)"
    using d AC by auto
  have "erased_bounds (A @ x # C) (Some x) (bs ! cls x) = Some (list_begin (g1 @ g2), last_of (g1 @ g2))"
  proof (cases g1 rule: rev_cases; cases g2)
    assume "g1 = []" "g2 = []"
    then show ?thesis
      by (simp add: fl g12 erased_bounds_def last_of_def)
  next
    fix y ys assume g1: "g1 = []" and g2: "g2 = y # ys"
    have "list_next (A @ x # C) (Some x) = Some (Some y)"
      using list_next_split [OF d] AC(2) g2 by simp
    moreover have "last_of (x # g2) \<noteq> Some x"
      using ds(2) g2 by (auto simp: last_of_def)
    ultimately show ?thesis
      using fl g12 g1 g2 by (simp add: erased_bounds_def)
  next
    fix y ys assume g1: "g1 = ys @ [y]" and g2: "g2 = []"
    have "list_prev (A @ x # C) (Some x) = Some (Some y)"
      using list_prev_split [of "pre @ ys" y "x # C"] d AC(1) g1 by simp
    moreover have "list_begin g1 \<noteq> Some x"
      using ds(1) by (auto simp: list_begin_Some)
    moreover have "bs ! cls x = (list_begin g1, Some x)" "last_of g1 = Some y"
      using list_begin_simps(5) [of g1 "[x]"] by (simp_all add: fl g12 g1 g2 last_of_def)
    ultimately show ?thesis
      by (simp add: erased_bounds_def g2)
  next
    fix y ys z zs assume g1: "g1 = ys @ [y]" and g2: "g2 = z # zs"
    have "last_of (g1 @ g2) = last_of g2" "list_begin (g1 @ g2) = list_begin g1"
      using list_begin_simps(5) [of g1 g2] by (simp_all add: g1 g2)
    moreover have "last_of g2 \<noteq> Some x" "list_begin g1 \<noteq> Some x"
      using ds(1,2) by (auto simp: list_begin_Some last_of_Some)
    moreover have "bs ! cls x = (list_begin g1, last_of g2)"
      using list_begin_simps(5) [of g1 "x # g2"] by (simp add: fl g12 g1 g2)
    ultimately show ?thesis
      by (simp add: erased_bounds_def)
  qed
  moreover have "buckets_ok cls (bs[cls x := (list_begin (g1 @ g2), last_of (g1 @ g2))]) (A @ C)"
  proof (rule buckets_ok_upd)
    fix c assume "c < length bs" "c \<noteq> cls x"
    then show "run_of (\<lambda>y. cls y = c) (A @ C) (bs ! c)"
      using ok run_of_remove [of _ A x C] by (auto simp: buckets_ok_def)
  qed (rule r)
  ultimately show ?thesis by (rule that)
qed

section \<open>Rehashing\<close>

definition cls_of :: "('k, 'v) hash_traits \<Rightarrow> ('k, 'v) hash_map \<Rightarrow> nat \<Rightarrow> nat" where
  "cls_of p h x = hm_bucket p h (hm_key h x)"

lemma cls_of_less: "hm_buckets h \<noteq> [] \<Longrightarrow> cls_of p h x < length (hm_buckets h)"
  by (simp add: cls_of_def hm_bucket_def)

lemma cls_of_set_bucket:
  "cls_of p (set_bucket b fl h) = cls_of p h" "cls_of p (h\<lparr>hm_values := xs\<rparr>) = cls_of p h"
  "cls_of p (h\<lparr>hm_values := xs, hm_buckets := (hm_buckets h)[b := fl]\<rparr>) = cls_of p h"
  by (simp_all add: cls_of_def hm_bucket_def hm_key_def set_bucket_def fun_eq_iff)

lemma set_bucket_simps [simp]:
  "hm_values (set_bucket b fl h) = hm_values h" "hm_buckets (set_bucket b fl h) = (hm_buckets h)[b := fl]"
  "hm_node (set_bucket b fl h) = hm_node h" "hm_size (set_bucket b fl h) = hm_size h"
  "hm_spares (set_bucket b fl h) = hm_spares h" "hm_fresh (set_bucket b fl h) = hm_fresh h"
  by (simp_all add: set_bucket_def)

text \<open>The loop: what is behind the iterator is in the buckets, the rest is not yet.\<close>

lemma rehash_loop_correct:
  assumes "hm_values h = before @ rest" and "distinct (before @ rest)" and "hm_buckets h \<noteq> []"
    and "buckets_ok (cls_of p h) (hm_buckets h) before"
  shows "\<exists>xs bs. rehash_loop p (list_begin rest) h = Some (h\<lparr>hm_values := xs, hm_buckets := bs\<rparr>) \<and>
    mset xs = mset (before @ rest) \<and> length bs = length (hm_buckets h) \<and> buckets_ok (cls_of p h) bs xs"
  using assms
proof (induction rest arbitrary: before h)
  case Nil
  then show ?case
    by (intro exI [of _ before] exI [of _ "hm_buckets h"]) (simp add: rehash_loop.simps)
next
  case (Cons x rest)
  let ?b = "cls_of p h x"
  note d = Cons.prems(2)
  have b: "?b < length (hm_buckets h)"
    using Cons.prems(3) by (rule cls_of_less)
  have next_x: "list_next (hm_values h) (Some x) = Some (list_begin rest)"
    using list_next_split [OF d] Cons.prems(1) by simp
  have step: "\<exists>xs bs. rehash_loop p (list_begin (x # rest)) h = Some (h\<lparr>hm_values := xs, hm_buckets := bs\<rparr>) \<and>
      mset xs = mset (before @ x # rest) \<and> length bs = length (hm_buckets h) \<and> buckets_ok (cls_of p h) bs xs"
    if "rehash_loop p (list_begin (x # rest)) h = rehash_loop p (list_begin rest) (set_bucket ?b fl (h\<lparr>hm_values := front @ rest\<rparr>))"
      "mset front = mset (before @ [x])" "buckets_ok (cls_of p h) ((hm_buckets h)[?b := fl]) front" for fl front
  proof -
    have "set front = set (before @ [x])" "length front = length (before @ [x])"
      using that(2) by (metis set_mset_mset, metis size_mset)
    then have "distinct (front @ rest)"
      using d mset_eq_imp_distinct_iff [OF that(2)] by auto
    from Cons.IH [of "set_bucket ?b fl (h\<lparr>hm_values := front @ rest\<rparr>)" front, OF _ this] that Cons.prems(3)
    show ?thesis
      by (simp add: cls_of_set_bucket set_bucket_def)
  qed
  have same: "h\<lparr>hm_values := before @ x # rest\<rparr> = h"
    using Cons.prems(1) [symmetric] by simp
  obtain f l where fl: "hm_buckets h ! ?b = (f, l)"
    by fastforce
  show ?case
  proof (cases l)
    case None
    then show ?thesis
      using next_x fl Cons.prems(1) buckets_ok_first [OF Cons.prems(4) _ b]
      by (intro step [of "(Some x, Some x)" "before @ [x]"]) (simp_all add: same rehash_loop.simps [of p "Some x"] cls_of_def [symmetric])
  next
    case (Some y)
    obtain A C where s: "before = A @ y # C" and ok: "buckets_ok (cls_of p h) ((hm_buckets h)[?b := (f, Some x)]) (A @ y # x # C)"
      using buckets_ok_insert [OF Cons.prems(4) b] fl Some by blast
    have next_l: "list_next (hm_values h) l = Some (list_begin (C @ x # rest))"
      using list_next_split [of A y "C @ x # rest"] d s Cons.prems(1) Some by simp
    show ?thesis
    proof (cases C)
      case Nil
      have same1: "h\<lparr>hm_values := A @ y # x # rest\<rparr> = h"
        using same unfolding s Nil by (simp only: append_Cons append_Nil append_assoc)
      show ?thesis
        using Nil next_x next_l fl Some Cons.prems(1) s ok
        by (intro step [of "(f, Some x)" "before @ [x]"]) (simp_all add: same1 rehash_loop.simps [of p "Some x"] cls_of_def [symmetric])
    next
      case (Cons z C')
      have "remove1 x (before @ x # rest) = (A @ [y]) @ C @ rest"
        using d s by (simp add: remove1_append)
      moreover have "list_insert ((A @ [y]) @ C @ rest) (list_begin (C @ rest)) x = (A @ [y]) @ x # C @ rest"
        using d s by (intro list_insert_split) auto
      moreover have "list_prev ((A @ [y]) @ x # C @ rest) (list_begin (C @ rest)) = Some (Some x)"
        using d s by (intro list_prev_split) auto
      moreover have "z \<noteq> x"
        using d s Cons by auto
      ultimately show ?thesis
        using next_x next_l fl Some Cons \<open>hm_values h = before @ x # rest\<close> s ok
        by (intro step [of "(f, Some x)" "A @ y # x # C"]) (simp_all add: rehash_loop.simps [of p "Some x"] cls_of_def [symmetric])
    qed
  qed
qed

section \<open>The invariant\<close>

definition hm_inv :: "('k, 'v) hash_traits \<Rightarrow> ('k, 'v) hash_map \<Rightarrow> bool" where
  "hm_inv p h \<longleftrightarrow> distinct (hm_values h @ hm_spares h) \<and> (\<forall>x\<in>set (hm_values h @ hm_spares h). x < hm_fresh h) \<and>
     hm_size h = length (hm_values h) \<and> inj_on (hm_key h) (set (hm_values h)) \<and>
     (hm_buckets h = [] \<longrightarrow> hm_values h = []) \<and> buckets_ok (cls_of p h) (hm_buckets h) (hm_values h)"

lemma hm_invD:
  assumes "hm_inv p h"
  shows "distinct (hm_values h @ hm_spares h)" "distinct (hm_values h)" "\<And>x. x \<in> set (hm_values h @ hm_spares h) \<Longrightarrow> x < hm_fresh h"
    "hm_size h = length (hm_values h)" "inj_on (hm_key h) (set (hm_values h))"
    "hm_values h \<noteq> [] \<Longrightarrow> hm_buckets h \<noteq> []" "buckets_ok (cls_of p h) (hm_buckets h) (hm_values h)"
  using assms by (auto simp: hm_inv_def)

definition hm_map :: "('k, 'v) hash_map \<Rightarrow> 'k \<rightharpoonup> 'v" where
  "hm_map h = map_of (map (hm_node h) (hm_values h))"

lemma hm_map_Some:
  assumes "inj_on (hm_key h) (set (hm_values h))" and "distinct (hm_values h)"
  shows "hm_map h k = Some v \<longleftrightarrow> (\<exists>x\<in>set (hm_values h). hm_node h x = (k, v))"
proof -
  have "distinct (map fst (map (hm_node h) (hm_values h)))"
    using assms by (simp add: distinct_map inj_on_def hm_key_def)
  then show ?thesis
    unfolding hm_map_def by (simp add: map_of_eq_Some_iff image_iff) metis
qed

lemma hm_map_None: "hm_map h k = None \<longleftrightarrow> (\<forall>x\<in>set (hm_values h). hm_key h x \<noteq> k)"
  by (auto simp: hm_map_def map_of_eq_None_iff hm_key_def image_iff)

lemma hm_map_node: "hm_inv p h \<Longrightarrow> x \<in> set (hm_values h) \<Longrightarrow> hm_map h (hm_key h x) = Some (snd (hm_node h x))"
  using hm_map_Some [OF hm_invD(5,2)] by (metis hm_key_def prod.collapse)

lemma hm_map_cong:
  assumes "inj_on (hm_key h) (set (hm_values h))" "distinct (hm_values h)" "distinct (hm_values h1)"
    "set (hm_values h1) = set (hm_values h)" "hm_node h1 = hm_node h"
  shows "hm_map h1 = hm_map h"
proof
  fix k
  have "hm_map h1 k = Some v \<longleftrightarrow> hm_map h k = Some v" for v
    using hm_map_Some [of h1] hm_map_Some [OF assms(1,2)] assms by (simp add: hm_key_def inj_on_def)
  then show "hm_map h1 k = hm_map h k"
    by (metis option.exhaust)
qed

lemma hm_inv_new: "hm_inv p (hash_map_new mem)"
  by (simp add: hm_inv_def hash_map_new_def buckets_ok_def)

lemma hm_rehash_correct:
  assumes "hm_inv p h" and "0 < n"
  shows "\<exists>xs bs. hm_rehash p n h = Some (h\<lparr>hm_values := xs, hm_buckets := bs\<rparr>) \<and> set xs = set (hm_values h) \<and>
    length bs = n \<and> hm_inv p (h\<lparr>hm_values := xs, hm_buckets := bs\<rparr>)"
proof (cases "n = length (hm_buckets h)")
  case True
  then show ?thesis
    using assms by (intro exI [of _ "hm_values h"] exI [of _ "hm_buckets h"]) (simp add: hm_rehash_def)
next
  case False
  let ?h = "h\<lparr>hm_buckets := replicate n (None, None)\<rparr>"
  have "buckets_ok (cls_of p ?h) (replicate n (None, None)) []"
    using run_ofI [of "[]" _ "[]" "[]"] by (simp add: buckets_ok_def)
  with rehash_loop_correct [of ?h "[]" "hm_values h" p] assms hm_invD(2) [OF assms(1)]
  obtain xs bs where r: "rehash_loop p (list_begin (hm_values h)) ?h = Some (h\<lparr>hm_values := xs, hm_buckets := bs\<rparr>)"
    and m: "mset xs = mset (hm_values h)" and l: "length bs = n" and ok: "buckets_ok (cls_of p ?h) bs xs"
    by auto
  have s: "set xs = set (hm_values h)" "distinct xs" "length xs = length (hm_values h)"
    using m hm_invD(2) [OF assms(1)] by (metis set_mset_mset, metis mset_eq_imp_distinct_iff, metis size_mset)
  have "cls_of p (h\<lparr>hm_values := xs, hm_buckets := bs\<rparr>) = cls_of p ?h"
    by (simp add: cls_of_def hm_bucket_def hm_key_def fun_eq_iff l)
  then have "hm_inv p (h\<lparr>hm_values := xs, hm_buckets := bs\<rparr>)"
    using assms s ok l by (auto simp: hm_inv_def hm_key_def inj_on_def)
  then show ?thesis
    using r s l False assms(2) by (auto simp: hm_rehash_def)
qed

section \<open>Finding\<close>

lemma hm_scan_correct:
  assumes "distinct (pre @ g @ post)" and "hm_values h = pre @ g @ post"
  shows "hm_scan h k (list_begin (g @ post)) (list_begin post) = Some (find (\<lambda>x. hm_key h x = k) g)"
  using assms
proof (induction g arbitrary: pre)
  case Nil
  then show ?case by (simp add: hm_scan.simps)
next
  case (Cons x g)
  have "list_begin post \<noteq> Some x"
    using Cons.prems(1) by (auto simp: list_begin_Some)
  moreover have "list_next (hm_values h) (Some x) = Some (list_begin (g @ post))"
    using list_next_split [of pre x "g @ post"] Cons.prems by simp
  moreover have "hm_scan h k (list_begin (g @ post)) (list_begin post) = Some (find (\<lambda>x. hm_key h x = k) g)"
    using Cons.IH [of "pre @ [x]"] Cons.prems by simp
  ultimately show ?case
    by (simp add: hm_scan.simps [of h k "Some x"])
qed

definition node_with :: "('k, 'v) hash_map \<Rightarrow> 'k \<Rightarrow> iter \<Rightarrow> bool" where
  "node_with h k it \<longleftrightarrow> (case it of None \<Rightarrow> hm_map h k = None | Some x \<Rightarrow> x \<in> set (hm_values h) \<and> hm_key h x = k)"

lemma scan_bucket:
  assumes "hm_inv p h" and "hm_buckets h \<noteq> []" and "hm_buckets h ! hm_bucket p h k = (f, l)" and "f \<noteq> None"
  obtains A y C it where "l = Some y" "hm_values h = A @ y # C" "list_next (hm_values h) l = Some (list_begin C)"
    "hm_scan h k f (list_begin C) = Some it" "node_with h k it"
proof -
  have b: "hm_bucket p h k < length (hm_buckets h)"
    using assms(2) by (simp add: hm_bucket_def)
  obtain pre g post where s: "hm_values h = pre @ g @ post" and g: "\<forall>x\<in>set g. cls_of p h x = hm_bucket p h k"
    and o: "\<forall>x\<in>set pre \<union> set post. cls_of p h x \<noteq> hm_bucket p h k" and fl: "hm_buckets h ! hm_bucket p h k = (list_begin g, last_of g)"
    using buckets_okD [OF hm_invD(7) [OF assms(1)] b] .
  have "g \<noteq> []"
    using fl assms(3,4) by auto
  then obtain g1 y where g1: "g = g1 @ [y]"
    by (metis rev_exhaust)
  have f: "f = list_begin (g @ post)"
    using fl assms(3) list_begin_simps(5) [OF \<open>g \<noteq> []\<close>, of post] by simp
  have l: "l = Some y"
    using fl assms(3) g1 by simp
  note d = hm_invD(2) [OF assms(1), unfolded s]
  have "node_with h k (find (\<lambda>x. hm_key h x = k) g)"
    using s o by (auto simp: node_with_def hm_map_None find_None_iff find_Some_iff cls_of_def split: option.split)
  then show ?thesis
    using that [of y "pre @ g1" post] s g1 l f hm_scan_correct [OF d s] list_next_split [of "pre @ g1" y post] d by simp
qed

lemma empty_bucket:
  assumes "hm_inv p h" and "hm_buckets h \<noteq> []" and "hm_buckets h ! hm_bucket p h k = (None, l)"
  shows "hm_map h k = None"
proof -
  have "hm_bucket p h k < length (hm_buckets h)"
    using assms(2) by (simp add: hm_bucket_def)
  from buckets_okD [OF hm_invD(7) [OF assms(1)] this]
  obtain pre g post where "hm_values h = pre @ g @ post" "\<forall>x\<in>set pre \<union> set post. cls_of p h x \<noteq> hm_bucket p h k"
    "hm_buckets h ! hm_bucket p h k = (list_begin g, last_of g)" .
  then show ?thesis
    using assms(3) by (auto simp: hm_map_None cls_of_def)
qed

lemma hm_find_correct:
  assumes "hm_inv p h"
  shows "\<exists>it. hm_find p k h = Some it \<and> node_with h k it"
proof (cases "hm_buckets h = []")
  case True
  then have "hm_values h = []"
    using hm_invD(6) [OF assms] by blast
  then have "hm_map h k = None"
    by (simp add: hm_map_def)
  then show ?thesis
    using True by (simp add: hm_find_def node_with_def)
next
  case False
  obtain f l where fl: "hm_buckets h ! hm_bucket p h k = (f, l)"
    by fastforce
  show ?thesis
  proof (cases "f = None")
    case True
    then show ?thesis
      using empty_bucket [OF assms False] fl False by (simp add: hm_find_def node_with_def)
  next
    case f: False
    obtain A y C it where "l = Some y" "hm_values h = A @ y # C" "list_next (hm_values h) l = Some (list_begin C)"
      "hm_scan h k f (list_begin C) = Some it" "node_with h k it"
      using scan_bucket [OF assms False fl f] .
    then show ?thesis
      using fl False f by (auto simp: hm_find_def)
  qed
qed

end
