(* ===== verification/HashMapProps.thy ===== *)
theory HashMapProps
  imports HashMapInv
begin

text \<open>
  The operations of the hash map on the finite map it stands for. Entries are list nodes, and an
  iterator stays valid until its entry is erased. The contract is the locale \<open>node_map\<close>.
\<close>

section \<open>Inserting\<close>

text \<open>The value a new entry gets: a copy, or, in a recycled node, what the assignment leaves.\<close>

definition inserted_value :: "('k, 'v) hash_traits \<Rightarrow> ('k, 'v) hash_map \<Rightarrow> 'v \<Rightarrow> 'v" where
  "inserted_value p h v =
     (case hm_spares h of [] \<Rightarrow> value_copy p v | s # _ \<Rightarrow> value_assign p (snd (hm_node h s)) v)"

definition new_node :: "('k, 'v) hash_map \<Rightarrow> nat" where
  "new_node h = (case hm_spares h of [] \<Rightarrow> hm_fresh h | s # _ \<Rightarrow> s)"

lemma new_node_fresh: "hm_inv p h \<Longrightarrow> new_node h \<notin> set (hm_values h)"
  using hm_invD(1,3) [of p h] by (fastforce simp: new_node_def split: list.split)

lemma values_insert_eq:
  assumes "hm_inv p h" and "hm_values h = A @ C"
  shows "values_insert p (list_begin C) (k, v) h =
    Some (h\<lparr>hm_node := (hm_node h)(new_node h := (k, inserted_value p h v)), hm_values := A @ new_node h # C,
            hm_spares := tl (hm_spares h), hm_fresh := (if hm_spares h = [] then hm_fresh h + 1 else hm_fresh h)\<rparr>, Some (new_node h))"
proof -
  have i: "list_insert (hm_values h) (list_begin C) x = A @ x # C" for x
    using hm_invD(2) [OF assms(1)] assms(2) list_insert_split by metis
  show ?thesis
  proof (cases "hm_spares h")
    case Nil
    then show ?thesis
      by (simp add: values_insert_def i new_node_def inserted_value_def)
  next
    case (Cons s spares)
    then have "distinct (A @ s # C)"
      using hm_invD(1) [OF assms(1)] assms(2) by auto
    then show ?thesis
      using Cons by (simp add: values_insert_def i list_prev_split new_node_def inserted_value_def)
  qed
qed

lemma hm_inv_inserted:
  assumes inv: "hm_inv p h" and "hm_map h k = None" and s: "hm_values h = A @ C" and "hm_buckets h \<noteq> []"
    and n: "hm_node h1 = (hm_node h)(new_node h := (k, w))" and v: "hm_values h1 = A @ new_node h # C"
    and "hm_spares h1 = tl (hm_spares h)" "hm_fresh h1 = (if hm_spares h = [] then hm_fresh h + 1 else hm_fresh h)"
    and "hm_size h1 = hm_size h + 1" and b: "length (hm_buckets h1) = length (hm_buckets h)"
    and ok: "\<And>cls. (\<forall>x\<in>set (hm_values h). cls x = cls_of p h x) \<Longrightarrow> cls (new_node h) = hm_bucket p h k \<Longrightarrow>
      buckets_ok cls (hm_buckets h1) (A @ new_node h # C)"
  shows "hm_inv p h1" and "hm_map h1 = (hm_map h)(k \<mapsto> w)"
proof -
  note f = new_node_fresh [OF inv]
  have keys: "hm_key h1 x = (if x = new_node h then k else hm_key h x)" for x
    by (simp add: hm_key_def n)
  have cls: "cls_of p h1 x = (if x = new_node h then hm_bucket p h k else cls_of p h x)" for x
    by (simp add: cls_of_def hm_bucket_def keys b)
  have nodes: "set (hm_values h1) = insert (new_node h) (set (hm_values h))"
    by (simp add: s v)
  have spare: "distinct (hm_values h1 @ hm_spares h1)" "\<forall>x\<in>set (hm_values h1 @ hm_spares h1). x < hm_fresh h1"
    using hm_invD(1,3) [OF inv] f s v assms(7,8) by (cases "hm_spares h"; fastforce simp: new_node_def)+
  have inj: "inj_on (hm_key h1) (set (hm_values h1))"
    using hm_invD(5) [OF inv] assms(2) f unfolding nodes by (auto simp: inj_on_def keys hm_map_None)
  have "\<forall>x\<in>set (hm_values h). cls_of p h1 x = cls_of p h x"
    using f by (auto simp: cls)
  moreover have "cls_of p h1 (new_node h) = hm_bucket p h k"
    by (simp add: cls)
  ultimately have "buckets_ok (cls_of p h1) (hm_buckets h1) (hm_values h1)"
    unfolding v by (rule ok)
  moreover have "hm_size h1 = length (hm_values h1)"
    using hm_invD(4) [OF inv] assms(9) s v by simp
  moreover have "hm_buckets h1 \<noteq> []"
    using b assms(4) by auto
  ultimately show "hm_inv p h1"
    using spare inj by (simp add: hm_inv_def)
  have d1: "distinct (hm_values h1)"
    using spare(1) by simp
  show "hm_map h1 = (hm_map h)(k \<mapsto> w)"
  proof
    fix j
    have "hm_map h1 j = Some u \<longleftrightarrow> ((hm_map h)(k \<mapsto> w)) j = Some u" for u
    proof -
      have "hm_map h1 j = Some u \<longleftrightarrow> (j = k \<and> u = w) \<or> (\<exists>x\<in>set (hm_values h). hm_node h1 x = (j, u))"
        unfolding hm_map_Some [OF inj d1] nodes by (auto simp: n)
      also have "(\<exists>x\<in>set (hm_values h). hm_node h1 x = (j, u)) \<longleftrightarrow> (\<exists>x\<in>set (hm_values h). hm_node h x = (j, u))"
        using f by (intro bex_cong) (auto simp: n)
      also have "\<dots> \<longleftrightarrow> hm_map h j = Some u"
        using hm_map_Some [OF hm_invD(5,2) [OF inv]] by simp
      finally show ?thesis
        using assms(2) by auto
    qed
    then show "hm_map h1 j = ((hm_map h)(k \<mapsto> w)) j"
      by (metis option.exhaust)
  qed
qed

lemma hash_size_pos: "0 < hash_size n"
  by (auto simp: hash_size_def hash_sizes_def find_Some_iff nth_Cons' split: option.split if_splits)

text \<open>What \<open>insert\<close> does first.\<close>

lemma insert_room:
  assumes "hm_inv p h"
  shows "\<exists>xs bs. (if hm_size h + 1 \<ge> length (hm_buckets h) then hm_rehash p (hash_size (hm_size h + 1)) h else Some h) =
      Some (h\<lparr>hm_values := xs, hm_buckets := bs\<rparr>) \<and> set xs = set (hm_values h) \<and> bs \<noteq> [] \<and> hm_inv p (h\<lparr>hm_values := xs, hm_buckets := bs\<rparr>)"
proof (cases "hm_size h + 1 \<ge> length (hm_buckets h)")
  case True
  with hm_rehash_correct [OF assms hash_size_pos [of "hm_size h + 1"]] hash_size_pos [of "hm_size h + 1"] show ?thesis
    by fastforce
next
  case False
  then show ?thesis
    using assms by (intro exI [of _ "hm_values h"] exI [of _ "hm_buckets h"]) auto
qed

lemma hm_insert_correct:
  assumes inv0: "hm_inv p h0"
  shows "\<exists>h1 x. hm_insert p (k, v) h0 = Some (h1, Some x, hm_map h0 k = None) \<and> hm_inv p h1 \<and> x \<in> set (hm_values h1) \<and> hm_key h1 x = k \<and>
    (if hm_map h0 k = None
     then x \<notin> set (hm_values h0) \<and> set (hm_values h1) = insert x (set (hm_values h0)) \<and> hm_spares h1 = tl (hm_spares h0) \<and>
       hm_node h1 = (hm_node h0)(x := (k, inserted_value p h0 v)) \<and> hm_map h1 = (hm_map h0)(k \<mapsto> inserted_value p h0 v)
     else set (hm_values h1) = set (hm_values h0) \<and> hm_spares h1 = hm_spares h0 \<and> hm_node h1 = hm_node h0 \<and> hm_map h1 = hm_map h0)"
proof -
  obtain xs bs where room: "(if hm_size h0 + 1 \<ge> length (hm_buckets h0) then hm_rehash p (hash_size (hm_size h0 + 1)) h0 else Some h0) =
      Some (h0\<lparr>hm_values := xs, hm_buckets := bs\<rparr>)" and xs: "set xs = set (hm_values h0)" and "bs \<noteq> []"
    and inv: "hm_inv p (h0\<lparr>hm_values := xs, hm_buckets := bs\<rparr>)"
    using insert_room [OF inv0] by blast
  define h where "h = h0\<lparr>hm_values := xs, hm_buckets := bs\<rparr>"
  have inv: "hm_inv p h" and bs: "hm_buckets h \<noteq> []" and vs: "set (hm_values h) = set (hm_values h0)"
    and same: "hm_node h = hm_node h0" "hm_spares h = hm_spares h0" "hm_size h = hm_size h0" "hm_fresh h = hm_fresh h0"
    using inv \<open>bs \<noteq> []\<close> xs by (simp_all add: h_def)
  have map: "hm_map h = hm_map h0"
    using hm_map_cong [OF hm_invD(5,2) [OF inv0] hm_invD(2) [OF inv] vs same(1)] .
  have iv: "inserted_value p h0 v = inserted_value p h v"
    by (cases "hm_spares h0") (simp_all add: inserted_value_def same)
  note room = room [folded h_def]
  let ?b = "hm_bucket p h k"
  have b: "?b < length (hm_buckets h)"
    using bs by (simp add: hm_bucket_def)
  obtain f l where fl: "hm_buckets h ! ?b = (f, l)"
    by fastforce
  have fresh: "?thesis"
    if none: "hm_map h k = None" and s: "hm_values h = A @ C"
      and ins: "hm_insert p (k, v) h0 = map_option (\<lambda>(h1, it). (set_bucket ?b (if f = None then it else f, it) (h1\<lparr>hm_size := hm_size h1 + 1\<rparr>), it, True))
        (values_insert p (list_begin C) (k, v) h)"
      and ok: "\<And>cls. (\<forall>x\<in>set (hm_values h). cls x = cls_of p h x) \<Longrightarrow> cls (new_node h) = ?b \<Longrightarrow>
        buckets_ok cls ((hm_buckets h)[?b := (if f = None then Some (new_node h) else f, Some (new_node h))]) (A @ new_node h # C)" for A C
  proof -
    note e = ins [unfolded values_insert_eq [OF inv s], simplified]
    let ?h1 = "set_bucket ?b (if f = None then Some (new_node h) else f, Some (new_node h))
      (h\<lparr>hm_node := (hm_node h)(new_node h := (k, inserted_value p h v)), hm_values := A @ new_node h # C,
        hm_spares := tl (hm_spares h), hm_fresh := (if hm_spares h = [] then hm_fresh h + 1 else hm_fresh h), hm_size := hm_size h + 1\<rparr>)"
    have "hm_inv p ?h1" "hm_map ?h1 = (hm_map h)(k \<mapsto> inserted_value p h v)"
      using ok by (intro hm_inv_inserted [OF inv none s bs, of ?h1 "inserted_value p h v"]; simp)+
    moreover have "hm_insert p (k, v) h0 = Some (?h1, Some (new_node h), True)"
      using e by simp
    ultimately show ?thesis
      using none new_node_fresh [OF inv] vs s map same iv
      by (intro exI [of _ ?h1] exI [of _ "new_node h"]) (auto simp: hm_key_def)
  qed
  show ?thesis
  proof (cases "f = None")
    case True
    then have none: "hm_map h k = None"
      using empty_bucket [OF inv bs] fl by simp
    show ?thesis
    proof (rule fresh [OF none, of "hm_values h" "[]"])
      show "hm_insert p (k, v) h0 = map_option (\<lambda>(h1, it). (set_bucket ?b (if f = None then it else f, it) (h1\<lparr>hm_size := hm_size h1 + 1\<rparr>), it, True))
        (values_insert p (list_begin []) (k, v) h)"
        unfolding hm_insert_def room using fl True
        by (cases "values_insert p None (k, v) h") auto
      fix cls assume cls: "\<forall>x\<in>set (hm_values h). cls x = cls_of p h x" "cls (new_node h) = ?b"
      have "buckets_ok cls (hm_buckets h) (hm_values h)"
        using buckets_ok_cong [OF cls(1)] hm_invD(7) [OF inv] by simp
      from buckets_ok_first [OF this, of "new_node h"]
      show "buckets_ok cls ((hm_buckets h)[?b := (if f = None then Some (new_node h) else f, Some (new_node h))]) (hm_values h @ [new_node h])"
        using cls(2) fl b True by simp
    qed simp
  next
    case False
    obtain A y C it where l: "l = Some y" and s: "hm_values h = A @ y # C" and n: "list_next (hm_values h) l = Some (list_begin C)"
      and scan: "hm_scan h k f (list_begin C) = Some it" and it: "node_with h k it"
      using scan_bucket [OF inv bs fl False] .
    show ?thesis
    proof (cases it)
      case None
      then have none: "hm_map h k = None"
        using it by (simp add: node_with_def)
      show ?thesis
      proof (rule fresh [OF none, of "A @ [y]" C])
        show "hm_insert p (k, v) h0 = map_option (\<lambda>(h1, it). (set_bucket ?b (if f = None then it else f, it) (h1\<lparr>hm_size := hm_size h1 + 1\<rparr>), it, True))
          (values_insert p (list_begin C) (k, v) h)"
          unfolding hm_insert_def room using fl False n scan None
          by (cases "values_insert p (list_begin C) (k, v) h") auto
        fix cls assume cls: "\<forall>x\<in>set (hm_values h). cls x = cls_of p h x" "cls (new_node h) = ?b"
        have "buckets_ok cls (hm_buckets h) (hm_values h)"
          using buckets_ok_cong [OF cls(1)] hm_invD(7) [OF inv] by simp
        from buckets_ok_insert [OF this, of "new_node h" f y] fl b l cls(2)
        obtain A1 C1 where v1: "hm_values h = A1 @ y # C1" and "buckets_ok cls ((hm_buckets h)[?b := (f, Some (new_node h))]) (A1 @ y # new_node h # C1)"
          by metis
        moreover have "y \<notin> set A1" "y \<notin> set A"
          using hm_invD(2) [OF inv, unfolded v1] hm_invD(2) [OF inv, unfolded s] by simp_all
        then have "A1 = A \<and> C1 = C"
          using append_eq_Cons_split [OF trans [OF v1 [symmetric] s]] by blast
        ultimately show "buckets_ok cls ((hm_buckets h)[?b := (if f = None then Some (new_node h) else f, Some (new_node h))]) ((A @ [y]) @ new_node h # C)"
          using False by auto
      qed (simp add: s)
    next
      case (Some x)
      then have x: "x \<in> set (hm_values h)" "hm_key h x = k"
        using it by (simp_all add: node_with_def)
      then have "hm_map h k \<noteq> None"
        using hm_map_node [OF inv x(1)] by simp
      moreover have "hm_insert p (k, v) h0 = Some (h, Some x, False)"
        unfolding hm_insert_def room using fl False n scan Some by auto
      ultimately show ?thesis
        using inv x vs same map by (intro exI [of _ h] exI [of _ x]) auto
    qed
  qed
qed

section \<open>Erasing\<close>

lemma hm_erase_at_correct:
  assumes inv: "hm_inv p h" and x: "x \<in> set (hm_values h)"
  shows "\<exists>h1. hm_erase_at p (Some x) h = Some h1 \<and> hm_inv p h1 \<and> hm_values h1 = remove1 x (hm_values h) \<and> hm_spares h1 = x # hm_spares h \<and>
    hm_node h1 = (hm_node h)(x := (key_default p, value_assign p (snd (hm_node h x)) (value_default p))) \<and>
    hm_map h1 = (hm_map h)(hm_key h x := None)"
proof -
  obtain A C where s: "hm_values h = A @ x # C"
    using x by (meson split_list)
  note d = hm_invD(2) [OF inv, unfolded s]
  have r: "remove1 x (hm_values h) = A @ C"
    using d s by (simp add: remove1_append)
  have bs: "hm_buckets h \<noteq> []"
    using hm_invD(6) [OF inv] by (simp add: s)
  obtain fl where fl: "erased_bounds (hm_values h) (Some x) (hm_buckets h ! cls_of p h x) = Some fl"
    and ok: "buckets_ok (cls_of p h) ((hm_buckets h)[cls_of p h x := fl]) (A @ C)"
    using buckets_ok_remove [OF hm_invD(7) [OF inv, unfolded s] cls_of_less [OF bs] d] s by metis
  define h1 where "h1 = (values_erase p x (set_bucket (cls_of p h x) fl h))\<lparr>hm_size := hm_size h - 1\<rparr>"
  have e: "hm_erase_at p (Some x) h = Some h1"
    using bs fl by (simp add: hm_erase_at_def cls_of_def h1_def values_erase_def)
  have n: "hm_node h1 = (hm_node h)(x := (key_default p, value_assign p (snd (hm_node h x)) (value_default p)))"
    and v: "hm_values h1 = A @ C" and sp: "hm_spares h1 = x # hm_spares h" and fr: "hm_fresh h1 = hm_fresh h"
    and sz: "hm_size h1 = hm_size h - 1" and b: "hm_buckets h1 = (hm_buckets h)[cls_of p h x := fl]"
    using r by (simp_all add: h1_def values_erase_def)
  have old: "hm_node h1 y = hm_node h y" "hm_key h1 y = hm_key h y" "cls_of p h1 y = cls_of p h y" if "y \<in> set (A @ C)" for y
    using d that by (auto simp: n b hm_key_def cls_of_def hm_bucket_def)
  have inj: "inj_on (hm_key h1) (set (hm_values h1))"
    using hm_invD(5) [OF inv] old(2) unfolding v s by (auto simp: inj_on_def)
  have ok1: "buckets_ok (cls_of p h1) (hm_buckets h1) (hm_values h1)"
    using ok buckets_ok_cong [of "A @ C" "cls_of p h1" "cls_of p h"] old(3) by (simp add: v b)
  have "distinct (hm_values h1 @ hm_spares h1)" "\<forall>y\<in>set (hm_values h1 @ hm_spares h1). y < hm_fresh h1"
    using hm_invD(1,3) [OF inv] by (auto simp: v s sp fr)
  then have inv1: "hm_inv p h1"
    using inj ok1 hm_invD(4) [OF inv] bs by (simp add: hm_inv_def v s sz b)
  have other: "\<forall>y\<in>set (A @ C). hm_key h y \<noteq> hm_key h x"
    using hm_invD(5) [OF inv, unfolded s inj_on_def] d by auto
  have "hm_map h1 j = ((hm_map h)(hm_key h x := None)) j" for j
  proof -
    have "hm_map h1 j = Some u \<longleftrightarrow> ((hm_map h)(hm_key h x := None)) j = Some u" for u
    proof -
      have "hm_map h1 j = Some u \<longleftrightarrow> (\<exists>y\<in>set (A @ C). hm_node h y = (j, u))"
        unfolding hm_map_Some [OF hm_invD(5,2) [OF inv1]] v using old(1) by (intro bex_cong) simp_all
      also have "\<dots> \<longleftrightarrow> j \<noteq> hm_key h x \<and> (\<exists>y\<in>set (hm_values h). hm_node h y = (j, u))"
        using other unfolding s by (fastforce simp: hm_key_def)
      finally show ?thesis
        using hm_map_Some [OF hm_invD(5,2) [OF inv]] by auto
    qed
    then show ?thesis
      by (metis option.exhaust)
  qed
  then show ?thesis
    using e inv1 n v r sp by (intro exI [of _ h1]) auto
qed

lemma hm_erase_correct:
  assumes "hm_inv p h"
  shows "\<exists>h1. hm_erase p k h = Some h1 \<and> hm_inv p h1 \<and> hm_map h1 = (hm_map h)(k := None) \<and> set (hm_values h1) \<subseteq> set (hm_values h)"
proof -
  obtain it where it: "hm_find p k h = Some it" "node_with h k it"
    using hm_find_correct [OF assms] by blast
  show ?thesis
  proof (cases it)
    case None
    then show ?thesis
      using it assms by (intro exI [of _ h]) (auto simp: hm_erase_def node_with_def)
  next
    case (Some x)
    then have "x \<in> set (hm_values h)" "hm_key h x = k"
      using it(2) by (simp_all add: node_with_def)
    with hm_erase_at_correct [OF assms this(1)] Some it(1) show ?thesis
      by (auto simp: hm_erase_def dest: set_remove1_subset [THEN subsetD])
  qed
qed

lemma hm_clear_correct:
  assumes "hm_inv p h"
  shows "hm_inv p (hm_clear h)" "hm_map (hm_clear h) = Map.empty"
proof -
  have "buckets_ok (cls_of p (hm_clear h)) (hm_buckets (hm_clear h)) []"
    using run_ofI [of "[]" _ "[]" "[]"] by (simp add: buckets_ok_def hm_clear_def)
  then show "hm_inv p (hm_clear h)" "hm_map (hm_clear h) = Map.empty"
    using hm_invD(1,3) [OF assms] by (simp_all add: hm_inv_def hm_clear_def hm_map_def)
qed

section \<open>The contract\<close>

text \<open>
  What a client relies on: a finite map whose entries are nodes. A node in the map keeps its place and
  its key until it is erased; the value of a node may be changed through its iterator.
\<close>

locale node_map =
  fixes inv :: "'m \<Rightarrow> bool" and nodes :: "'m \<Rightarrow> 'n set" and key :: "'m \<Rightarrow> 'n \<Rightarrow> 'k" and val :: "'m \<Rightarrow> 'n \<Rightarrow> 'v"
    and lookup :: "'m \<Rightarrow> 'k \<Rightarrow> 'n option option"
    and enter :: "'k \<times> 'v \<Rightarrow> 'm \<Rightarrow> ('m \<times> 'n option \<times> bool) option"
    and remove :: "'n \<Rightarrow> 'm \<Rightarrow> 'm option"
    and assign :: "'n \<Rightarrow> 'v \<Rightarrow> 'm \<Rightarrow> 'm"
  assumes key_inj: "inv m \<Longrightarrow> inj_on (key m) (nodes m)"
    and lookup_law: "inv m \<Longrightarrow> \<exists>it. lookup m k = Some it \<and> (case it of None \<Rightarrow> k \<notin> key m ` nodes m | Some x \<Rightarrow> x \<in> nodes m \<and> key m x = k)"
    and enter_law: "inv m \<Longrightarrow> \<exists>m1 x. enter (k, v) m = Some (m1, Some x, k \<notin> key m ` nodes m) \<and> inv m1 \<and> nodes m1 = insert x (nodes m) \<and>
      key m1 x = k \<and> (x \<in> nodes m \<longleftrightarrow> k \<in> key m ` nodes m) \<and> (\<forall>y\<in>nodes m. key m1 y = key m y \<and> val m1 y = val m y)"
    and remove_law: "inv m \<Longrightarrow> x \<in> nodes m \<Longrightarrow> \<exists>m1. remove x m = Some m1 \<and> inv m1 \<and> nodes m1 = nodes m - {x} \<and>
      (\<forall>y\<in>nodes m1. key m1 y = key m y \<and> val m1 y = val m y)"
    and assign_law: "inv m \<Longrightarrow> x \<in> nodes m \<Longrightarrow> inv (assign x v m) \<and> nodes (assign x v m) = nodes m \<and> key (assign x v m) = key m \<and>
      val (assign x v m) = (val m)(x := v)"
begin

definition content :: "'m \<Rightarrow> ('k \<times> 'v) set" where
  "content m = (\<lambda>x. (key m x, val m x)) ` nodes m"

lemma content_unique: "inv m \<Longrightarrow> (k, v) \<in> content m \<Longrightarrow> (k, w) \<in> content m \<Longrightarrow> v = w"
  using key_inj [of m] by (auto simp: content_def inj_on_def)

lemma content_assign:
  assumes "inv m" and "x \<in> nodes m"
  shows "content (assign x v m) = {kv \<in> content m. fst kv \<noteq> key m x} \<union> {(key m x, v)}"
  using assign_law [OF assms, of v] key_inj [OF assms(1)] assms(2) by (fastforce simp: content_def inj_on_def)

lemma content_remove:
  assumes "inv m" and "x \<in> nodes m" and "remove x m = Some m1"
  shows "inv m1" and "content m1 = {kv \<in> content m. fst kv \<noteq> key m x}"
proof -
  have m1: "inv m1" "nodes m1 = nodes m - {x}" "\<forall>y\<in>nodes m1. key m1 y = key m y \<and> val m1 y = val m y"
    using remove_law [OF assms(1,2)] assms(3) by auto
  then show "inv m1" by simp
  show "content m1 = {kv \<in> content m. fst kv \<noteq> key m x}"
    using m1 key_inj [OF assms(1)] assms(2) by (fastforce simp: content_def inj_on_def)
qed

lemma content_enter:
  assumes "inv m" and "enter (k, v) m = Some (m1, it, new)"
  obtains x where "it = Some x" "inv m1" "x \<in> nodes m1" "key m1 x = k" "new \<longleftrightarrow> k \<notin> fst ` content m"
    "content m1 = content m \<union> {(k, val m1 x)}" "k \<in> fst ` content m \<Longrightarrow> content m1 = content m"
proof -
  obtain x where x: "it = Some x" "new \<longleftrightarrow> k \<notin> key m ` nodes m" "inv m1" "nodes m1 = insert x (nodes m)" "key m1 x = k"
    "x \<in> nodes m \<longleftrightarrow> k \<in> key m ` nodes m" "\<forall>y\<in>nodes m. key m1 y = key m y \<and> val m1 y = val m y"
    using enter_law [OF assms(1), of k v] assms(2) by auto
  have c: "content m1 = content m \<union> {(k, val m1 x)}"
    using x(4,5,7) by (auto simp: content_def image_iff)
  moreover have "content m1 = content m" if "k \<in> fst ` content m"
    using that x(4-7) by (auto simp: content_def image_iff insert_absorb)
  moreover have "fst ` content m = key m ` nodes m"
    by (auto simp: content_def image_iff)
  ultimately show ?thesis
    using that [of x] x by auto
qed

end

definition hm_set_value :: "nat \<Rightarrow> 'v \<Rightarrow> ('k, 'v) hash_map \<Rightarrow> ('k, 'v) hash_map" where
  "hm_set_value x v h = h\<lparr>hm_node := (hm_node h)(x := (hm_key h x, v))\<rparr>"

lemma hm_set_value_inv:
  "hm_inv p h \<Longrightarrow> hm_inv p (hm_set_value x v h)" "hm_key (hm_set_value x v h) = hm_key h"
proof -
  have k: "hm_key (hm_set_value x v h) = hm_key h"
    by (auto simp: hm_set_value_def hm_key_def)
  then have "cls_of p (hm_set_value x v h) = cls_of p h"
    by (auto simp: cls_of_def hm_bucket_def hm_set_value_def)
  with k show "hm_inv p h \<Longrightarrow> hm_inv p (hm_set_value x v h)" "hm_key (hm_set_value x v h) = hm_key h"
    by (simp_all add: hm_inv_def) (simp_all add: hm_set_value_def)
qed

interpretation hm: node_map "hm_inv p" "\<lambda>h. set (hm_values h)" hm_key "\<lambda>h x. snd (hm_node h x)" "\<lambda>h k. hm_find p k h"
  "hm_insert p" "\<lambda>x. hm_erase_at p (Some x)" hm_set_value for p :: "('k, 'v) hash_traits"
proof unfold_locales
  fix m :: "('k, 'v) hash_map" and k :: 'k and v :: 'v and x :: nat
  assume inv: "hm_inv p m"
  show "inj_on (hm_key m) (set (hm_values m))"
    by (rule hm_invD(5) [OF inv])
  show "\<exists>it. hm_find p k m = Some it \<and> (case it of None \<Rightarrow> k \<notin> hm_key m ` set (hm_values m) | Some x \<Rightarrow> x \<in> set (hm_values m) \<and> hm_key m x = k)"
    using hm_find_correct [OF inv, of k] by (auto simp: node_with_def hm_map_None split: option.splits)
  have known: "hm_map m k = None \<longleftrightarrow> k \<notin> hm_key m ` set (hm_values m)"
    by (auto simp: hm_map_None)
  obtain h1 y where i: "hm_insert p (k, v) m = Some (h1, Some y, hm_map m k = None)" "hm_inv p h1" "y \<in> set (hm_values h1)" "hm_key h1 y = k"
    and c: "if hm_map m k = None
     then y \<notin> set (hm_values m) \<and> set (hm_values h1) = insert y (set (hm_values m)) \<and> hm_spares h1 = tl (hm_spares m) \<and>
       hm_node h1 = (hm_node m)(y := (k, inserted_value p m v)) \<and> hm_map h1 = (hm_map m)(k \<mapsto> inserted_value p m v)
     else set (hm_values h1) = set (hm_values m) \<and> hm_spares h1 = hm_spares m \<and> hm_node h1 = hm_node m \<and> hm_map h1 = hm_map m"
    using hm_insert_correct [OF inv, of k v] by blast
  show "\<exists>m1 x. hm_insert p (k, v) m = Some (m1, Some x, k \<notin> hm_key m ` set (hm_values m)) \<and> hm_inv p m1 \<and>
      set (hm_values m1) = insert x (set (hm_values m)) \<and> hm_key m1 x = k \<and> (x \<in> set (hm_values m) \<longleftrightarrow> k \<in> hm_key m ` set (hm_values m)) \<and>
      (\<forall>y\<in>set (hm_values m). hm_key m1 y = hm_key m y \<and> snd (hm_node m1 y) = snd (hm_node m y))"
  proof (cases "hm_map m k = None")
    case True
    then show ?thesis
      using i c known by (intro exI [of _ h1] exI [of _ y]) (auto simp: hm_key_def)
  next
    case False
    then show ?thesis
      using i c known by (intro exI [of _ h1] exI [of _ y]) (auto simp: hm_key_def insert_absorb)
  qed
  assume x: "x \<in> set (hm_values m)"
  show "\<exists>m1. hm_erase_at p (Some x) m = Some m1 \<and> hm_inv p m1 \<and> set (hm_values m1) = set (hm_values m) - {x} \<and>
      (\<forall>y\<in>set (hm_values m1). hm_key m1 y = hm_key m y \<and> snd (hm_node m1 y) = snd (hm_node m y))"
    using hm_erase_at_correct [OF inv x] hm_invD(2) [OF inv] by (auto simp: hm_key_def)
  show "hm_inv p (hm_set_value x v m) \<and> set (hm_values (hm_set_value x v m)) = set (hm_values m) \<and> hm_key (hm_set_value x v m) = hm_key m \<and>
      (\<lambda>y. snd (hm_node (hm_set_value x v m) y)) = (\<lambda>y. snd (hm_node m y))(x := v)"
    using hm_set_value_inv(1) [OF inv, of x v] by (simp add: hm_set_value_inv(2)) (simp add: hm_set_value_def fun_eq_iff)
qed

text \<open>C23. The hash map, on any state its operations can produce, stands for a finite map: \<open>find\<close> ends and
  finds a key exactly when it is in the map, \<open>insert\<close> ends (rehashing included), adds the entry or
  finds the old one and moves no other entry to another node, \<open>erase\<close> removes exactly the key, \<open>clear\<close> all.\<close>

theorem hash_map_refines:
  assumes "hm_inv p h"
  shows "(\<exists>it. hm_find p k h = Some it \<and> node_with h k it) \<and>
    (\<exists>h1 x. hm_insert p (k, v) h = Some (h1, Some x, hm_map h k = None) \<and> hm_inv p h1 \<and> node_with h1 k (Some x) \<and>
       hm_map h1 = (if hm_map h k = None then (hm_map h)(k \<mapsto> inserted_value p h v) else hm_map h) \<and>
       (\<forall>y\<in>set (hm_values h). y \<in> set (hm_values h1) \<and> hm_node h1 y = hm_node h y)) \<and>
    (\<exists>h1. hm_erase p k h = Some h1 \<and> hm_inv p h1 \<and> hm_map h1 = (hm_map h)(k := None) \<and> set (hm_values h1) \<subseteq> set (hm_values h)) \<and>
    hm_inv p (hm_clear h) \<and> hm_map (hm_clear h) = Map.empty"
proof (intro conjI)
  obtain h1 y where i: "hm_insert p (k, v) h = Some (h1, Some y, hm_map h k = None)" "hm_inv p h1" "y \<in> set (hm_values h1)" "hm_key h1 y = k"
    and c: "if hm_map h k = None
     then y \<notin> set (hm_values h) \<and> set (hm_values h1) = insert y (set (hm_values h)) \<and> hm_spares h1 = tl (hm_spares h) \<and>
       hm_node h1 = (hm_node h)(y := (k, inserted_value p h v)) \<and> hm_map h1 = (hm_map h)(k \<mapsto> inserted_value p h v)
     else set (hm_values h1) = set (hm_values h) \<and> hm_spares h1 = hm_spares h \<and> hm_node h1 = hm_node h \<and> hm_map h1 = hm_map h"
    using hm_insert_correct [OF assms, of k v] by blast
  have "(\<forall>z\<in>set (hm_values h). z \<in> set (hm_values h1) \<and> hm_node h1 z = hm_node h z) \<and>
      hm_map h1 = (if hm_map h k = None then (hm_map h)(k \<mapsto> inserted_value p h v) else hm_map h)"
    using c by (cases "hm_map h k = None") auto
  then show "\<exists>h1 x. hm_insert p (k, v) h = Some (h1, Some x, hm_map h k = None) \<and> hm_inv p h1 \<and> node_with h1 k (Some x) \<and>
       hm_map h1 = (if hm_map h k = None then (hm_map h)(k \<mapsto> inserted_value p h v) else hm_map h) \<and>
       (\<forall>y\<in>set (hm_values h). y \<in> set (hm_values h1) \<and> hm_node h1 y = hm_node h y)"
    using i by (intro exI [of _ h1] exI [of _ y]) (simp add: node_with_def)
  show "\<exists>it. hm_find p k h = Some it \<and> node_with h k it"
    by (rule hm_find_correct [OF assms])
  show "\<exists>h1. hm_erase p k h = Some h1 \<and> hm_inv p h1 \<and> hm_map h1 = (hm_map h)(k := None) \<and> set (hm_values h1) \<subseteq> set (hm_values h)"
    by (rule hm_erase_correct [OF assms])
  show "hm_inv p (hm_clear h)" "hm_map (hm_clear h) = Map.empty"
    by (rule hm_clear_correct [OF assms])+
qed

section \<open>A concrete map\<close>

definition demo_traits :: "(int, nat) hash_traits" where
  "demo_traits = \<lparr>ht_hash = hash_int, key_default = 0, value_default = 0, value_copy = (\<lambda>v. v), value_assign = (\<lambda>_ v. v)\<rparr>"

definition demo_map :: "(int, nat) hash_map" where
  "demo_map = hash_map_new (\<lambda>_. (0, 0))"

theorem hash_map_refines_witness:
  "\<exists>h1 h2 x y. hm_insert demo_traits (5, 7) demo_map = Some (h1, Some x, True) \<and> hm_insert demo_traits (18, 8) h1 = Some (h2, Some y, True) \<and>
     hm_map h2 = [5 \<mapsto> 7, 18 \<mapsto> 8]"
proof -
  have inv: "hm_inv demo_traits demo_map" and map: "hm_map demo_map = Map.empty"
    unfolding demo_map_def by (rule hm_inv_new) (simp add: hm_map_def hash_map_new_def)
  have v: "inserted_value demo_traits h v = v" for h :: "(int, nat) hash_map" and v
    by (cases "hm_spares h") (simp_all add: inserted_value_def demo_traits_def)
  obtain h1 x where 1: "hm_insert demo_traits (5, 7) demo_map = Some (h1, Some x, True)" "hm_inv demo_traits h1" "hm_map h1 = [5 \<mapsto> 7]"
    using hash_map_refines [OF inv, of 5 7] by (auto simp: map v)
  obtain h2 y where 2: "hm_insert demo_traits (18, 8) h1 = Some (h2, Some y, True)" "hm_map h2 = [5 \<mapsto> 7, 18 \<mapsto> 8]"
    using hash_map_refines [OF 1(2), of 18 8] by (auto simp: 1(3) v)
  show ?thesis
    using 1 2 by blast
qed

end
