(* ===== verification/ReactorOpQueue.thy ===== *)
theory ReactorOpQueue
  imports HashMapProps ReactorPerform
begin

text \<open>
  \<open>include/asio/detail/reactor/reactor_op_queue.hpp\<close>: the operations that wait for each descriptor, a
  hash map from descriptors to queues. The mapped type is a queue that is not copied and whose
  assignment does nothing, so the map's recycled nodes keep the queue they had when they were erased.
  Queues are lists (theory \<open>OpQueue\<close>). The \<open>ec_\<close> fields of the operations are passed along.
\<close>

section \<open>Operations\<close>

type_synonym 'o roq = "(int, 'o list) hash_map"

definition queue_traits :: "(int, 'o list) hash_traits" where
  "queue_traits = \<lparr>ht_hash = hash_int, key_default = 0, value_default = [], value_copy = (\<lambda>_. []), value_assign = (\<lambda>old _. old)\<rparr>"

definition roq_new :: "(nat \<Rightarrow> int \<times> 'o list) \<Rightarrow> 'o roq" where
  "roq_new mem = hash_map_new mem"

definition node_queue :: "'o roq \<Rightarrow> nat \<Rightarrow> 'o list" where
  "node_queue h x = snd (hm_node h x)"

definition enqueue_operation :: "int \<Rightarrow> 'o \<Rightarrow> 'o roq \<Rightarrow> ('o roq \<times> bool) option" where
  "enqueue_operation descriptor op h =
     do {(h1, it, new) \<leftarrow> hm_insert queue_traits (descriptor, []) h;
         x \<leftarrow> it;
         Some (hm_set_value x (node_queue h1 x @ [op]) h1, new)}"

fun cancel_queue :: "error_code \<Rightarrow> 'o list \<Rightarrow> ('o \<Rightarrow> error_code) \<Rightarrow> 'o list \<Rightarrow> ('o \<Rightarrow> error_code) \<times> 'o list" where
  "cancel_queue ec [] ecs ops = (ecs, ops)"
| "cancel_queue ec (op # q) ecs ops = cancel_queue ec q (ecs(op := ec)) (ops @ [op])"

definition cancel_operations_at ::
  "iter \<Rightarrow> error_code \<Rightarrow> 'o roq \<Rightarrow> ('o \<Rightarrow> error_code) \<Rightarrow> 'o list \<Rightarrow> ('o roq \<times> ('o \<Rightarrow> error_code) \<times> 'o list \<times> bool) option" where
  "cancel_operations_at i ec h ecs ops =
     (case i of
        Some x \<Rightarrow>
          (case cancel_queue ec (node_queue h x) ecs ops of
             (ecs1, ops1) \<Rightarrow> do {h1 \<leftarrow> hm_erase_at queue_traits i (hm_set_value x [] h); Some (h1, ecs1, ops1, True)})
      | None \<Rightarrow> Some (h, ecs, ops, False))"

definition cancel_operations ::
  "int \<Rightarrow> error_code \<Rightarrow> 'o roq \<Rightarrow> ('o \<Rightarrow> error_code) \<Rightarrow> 'o list \<Rightarrow> ('o roq \<times> ('o \<Rightarrow> error_code) \<times> 'o list \<times> bool) option" where
  "cancel_operations descriptor ec h ecs ops =
     do {i \<leftarrow> hm_find queue_traits descriptor h; cancel_operations_at i ec h ecs ops}"

definition roq_empty :: "'o roq \<Rightarrow> bool" where
  "roq_empty h \<longleftrightarrow> hm_empty h"

definition has_operation :: "int \<Rightarrow> 'o roq \<Rightarrow> bool option" where
  "has_operation descriptor h = do {it \<leftarrow> hm_find queue_traits descriptor h; Some (it \<noteq> None)}"

text \<open>The loop that performs operations from the front: what stays, the kernel, the codes, what was done.\<close>

fun perform_front ::
  "('o, 'w) performer \<Rightarrow> 'o list \<Rightarrow> 'w \<Rightarrow> ('o \<Rightarrow> error_code) \<Rightarrow> 'o list \<Rightarrow> 'o list \<times> 'w \<times> ('o \<Rightarrow> error_code) \<times> 'o list" where
  "perform_front perform [] w ecs ops = ([], w, ecs, ops)"
| "perform_front perform (op # q) w ecs ops =
     (case perform op w of
        (w1, status, e) \<Rightarrow>
          if status \<noteq> NotDone then perform_front perform q w1 (ecs(op := e)) (ops @ [op])
          else (op # q, w1, ecs(op := e), ops))"

definition perform_operations_at ::
  "('o, 'w) performer \<Rightarrow> iter \<Rightarrow> 'o roq \<Rightarrow> 'w \<Rightarrow> ('o \<Rightarrow> error_code) \<Rightarrow> 'o list \<Rightarrow>
   ('o roq \<times> 'w \<times> ('o \<Rightarrow> error_code) \<times> 'o list \<times> bool) option" where
  "perform_operations_at perform i h w ecs ops =
     (case i of
        Some x \<Rightarrow>
          (case perform_front perform (node_queue h x) w ecs ops of
             (q, w1, ecs1, ops1) \<Rightarrow>
               if q \<noteq> [] then Some (hm_set_value x q h, w1, ecs1, ops1, True)
               else do {h1 \<leftarrow> hm_erase_at queue_traits i (hm_set_value x [] h); Some (h1, w1, ecs1, ops1, False)})
      | None \<Rightarrow> Some (h, w, ecs, ops, False))"

definition perform_operations ::
  "('o, 'w) performer \<Rightarrow> int \<Rightarrow> 'o roq \<Rightarrow> 'w \<Rightarrow> ('o \<Rightarrow> error_code) \<Rightarrow> 'o list \<Rightarrow>
   ('o roq \<times> 'w \<times> ('o \<Rightarrow> error_code) \<times> 'o list \<times> bool) option" where
  "perform_operations perform descriptor h w ecs ops =
     do {i \<leftarrow> hm_find queue_traits descriptor h; perform_operations_at perform i h w ecs ops}"

partial_function (option) get_all_loop :: "iter \<Rightarrow> 'o roq \<Rightarrow> 'o list \<Rightarrow> ('o roq \<times> 'o list) option" where
  "get_all_loop i h ops =
     (case i of
        None \<Rightarrow> Some (h, ops)
      | Some x \<Rightarrow>
          do {i1 \<leftarrow> list_next (hm_values h) i;
              h1 \<leftarrow> hm_erase_at queue_traits i (hm_set_value x [] h);
              get_all_loop i1 h1 (ops @ node_queue h x)})"

declare get_all_loop.simps [code]

definition get_all_operations :: "'o roq \<Rightarrow> 'o list \<Rightarrow> ('o roq \<times> 'o list) option" where
  "get_all_operations h ops = get_all_loop (list_begin (hm_values h)) h ops"

section \<open>The invariant\<close>

text \<open>Every descriptor in the map has an operation, and the recycled nodes have empty queues.\<close>

definition roq_inv :: "'o roq \<Rightarrow> bool" where
  "roq_inv h \<longleftrightarrow> hm_inv queue_traits h \<and> (\<forall>x\<in>set (hm_values h). node_queue h x \<noteq> []) \<and> (\<forall>x\<in>set (hm_spares h). node_queue h x = [])"

definition fd_queue :: "'o roq \<Rightarrow> int \<Rightarrow> 'o list" where
  "fd_queue h d = (case hm_map h d of None \<Rightarrow> [] | Some q \<Rightarrow> q)"

lemma roq_invD:
  assumes "roq_inv h"
  shows "hm_inv queue_traits h" "\<And>x. x \<in> set (hm_values h) \<Longrightarrow> node_queue h x \<noteq> []" "\<And>x. x \<in> set (hm_spares h) \<Longrightarrow> node_queue h x = []"
  using assms by (simp_all add: roq_inv_def)

lemma roq_inv_new: "roq_inv (roq_new mem)" "fd_queue (roq_new mem) = (\<lambda>_. [])"
  by (simp_all add: roq_inv_def roq_new_def hm_inv_new) (simp_all add: hash_map_new_def fd_queue_def hm_map_def fun_eq_iff)

lemma fd_queue_node:
  assumes "roq_inv h" and "x \<in> set (hm_values h)"
  shows "fd_queue h (hm_key h x) = node_queue h x" "fd_queue h (hm_key h x) \<noteq> []"
  using hm_map_node [OF roq_invD(1) [OF assms(1)] assms(2)] roq_invD(2) [OF assms] by (simp_all add: fd_queue_def node_queue_def)

lemma fd_queue_none:
  assumes "roq_inv h"
  shows "hm_map h d = None \<longleftrightarrow> fd_queue h d = []"
proof (cases "hm_map h d")
  case (Some q)
  then obtain x where "x \<in> set (hm_values h)" "hm_node h x = (d, q)"
    using hm_map_Some [OF hm_invD(5,2) [OF roq_invD(1) [OF assms]]] by blast
  then show ?thesis
    using Some roq_invD(2) [OF assms, of x] by (simp add: fd_queue_def node_queue_def)
qed (simp add: fd_queue_def)

text \<open>Changing and erasing a node, over the map's contract.\<close>

lemma content_map:
  assumes "hm_inv p h"
  shows "(k, v) \<in> hm.content h \<longleftrightarrow> hm_map h k = Some v"
  unfolding hm_map_Some [OF hm_invD(5,2) [OF assms]] by (auto simp: hm.content_def hm_key_def image_iff prod_eq_iff)

lemma node_queue_set: "node_queue (hm_set_value x q h) y = (if y = x then q else node_queue h y)"
  by (simp add: node_queue_def hm_set_value_def)

lemma map_set_value:
  assumes "hm_inv p h" and "x \<in> set (hm_values h)"
  shows "hm_map (hm_set_value x v h) = (hm_map h)(hm_key h x \<mapsto> v)"
proof
  fix k
  have "hm_map (hm_set_value x v h) k = Some u \<longleftrightarrow> ((hm_map h)(hm_key h x \<mapsto> v)) k = Some u" for u
    unfolding content_map [OF hm_set_value_inv(1) [OF assms(1)], symmetric] hm.content_assign [OF assms]
    using content_map [OF assms(1)] by auto
  then show "hm_map (hm_set_value x v h) k = ((hm_map h)(hm_key h x \<mapsto> v)) k"
    by (metis option.exhaust)
qed

lemma set_queue:
  assumes "roq_inv h" and "x \<in> set (hm_values h)" and "q \<noteq> []"
  shows "roq_inv (hm_set_value x q h)" and "fd_queue (hm_set_value x q h) = (fd_queue h)(hm_key h x := q)"
    and "hm_values (hm_set_value x q h) = hm_values h"
proof -
  note inv = roq_invD(1) [OF assms(1)]
  have "x \<notin> set (hm_spares h)"
    using hm_invD(1) [OF inv] assms(2) by auto
  then show "roq_inv (hm_set_value x q h)"
    using assms hm_set_value_inv(1) [OF inv, of x q] unfolding roq_inv_def node_queue_set by (auto simp: hm_set_value_def)
  show "fd_queue (hm_set_value x q h) = (fd_queue h)(hm_key h x := q)"
    by (rule ext) (simp add: fd_queue_def map_set_value [OF inv assms(2)])
qed (simp add: hm_set_value_def)

lemma erase_queue:
  assumes "roq_inv h" and "x \<in> set (hm_values h)"
  obtains h1 where "hm_erase_at queue_traits (Some x) (hm_set_value x [] h) = Some h1" "roq_inv h1"
    "fd_queue h1 = (fd_queue h)(hm_key h x := [])" "hm_values h1 = remove1 x (hm_values h)"
    "\<forall>y. y \<noteq> x \<longrightarrow> hm_node h1 y = hm_node h y"
proof -
  note inv = roq_invD(1) [OF assms(1)]
  let ?h = "hm_set_value x [] h"
  have v: "hm_values ?h = hm_values h" "hm_spares ?h = hm_spares h" "hm_node ?h = (hm_node h)(x := (hm_key h x, []))"
    by (simp_all add: hm_set_value_def)
  obtain h1 where h1: "hm_erase_at queue_traits (Some x) ?h = Some h1" "hm_inv queue_traits h1" "hm_values h1 = remove1 x (hm_values h)"
    "hm_spares h1 = x # hm_spares ?h" "hm_map h1 = (hm_map ?h)(hm_key ?h x := None)"
    "hm_node h1 = (hm_node ?h)(x := (0, []))"
    using hm_erase_at_correct [OF hm_set_value_inv(1) [OF inv, of x "[]"], of x, unfolded v(1), OF assms(2)]
    by (elim exE conjE) (rule that, assumption+, simp add: v(3), simp add: queue_traits_def)
  have q: "node_queue h1 y = (if y = x then [] else node_queue h y)" for y
    by (simp add: node_queue_def h1(6) v(3))
  have "set (hm_values h1) = set (hm_values h) - {x}"
    using h1(3) v(1) hm_invD(2) [OF inv] by simp
  then have "roq_inv h1"
    using h1(2,4) roq_invD(2,3) [OF assms(1)] by (auto simp: roq_inv_def q v)
  moreover have "fd_queue h1 = (fd_queue h)(hm_key h x := [])"
    by (rule ext) (simp add: fd_queue_def h1(5) map_set_value [OF inv assms(2)] hm_set_value_inv(2))
  moreover have "\<forall>y. y \<noteq> x \<longrightarrow> hm_node h1 y = hm_node h y"
    by (simp add: h1(6) v(3))
  ultimately show ?thesis
    using that h1(1,3) v(1) by simp
qed

section \<open>The operations keep it\<close>

lemma inserted_empty:
  assumes "roq_inv h"
  shows "inserted_value queue_traits h v = []"
  using roq_invD(3) [OF assms]
  by (cases "hm_spares h") (simp_all add: inserted_value_def queue_traits_def node_queue_def)

lemma enqueue_correct:
  assumes "roq_inv h"
  shows "\<exists>h1. enqueue_operation d op h = Some (h1, fd_queue h d = []) \<and> roq_inv h1 \<and> fd_queue h1 = (fd_queue h)(d := fd_queue h d @ [op])"
proof -
  note inv = roq_invD(1) [OF assms]
  obtain h1 x where i: "hm_insert queue_traits (d, []) h = Some (h1, Some x, hm_map h d = None)" "hm_inv queue_traits h1"
      "x \<in> set (hm_values h1)" "hm_key h1 x = d"
    and c: "if hm_map h d = None
     then x \<notin> set (hm_values h) \<and> set (hm_values h1) = insert x (set (hm_values h)) \<and> hm_spares h1 = tl (hm_spares h) \<and>
       hm_node h1 = (hm_node h)(x := (d, inserted_value queue_traits h [])) \<and> hm_map h1 = (hm_map h)(d \<mapsto> inserted_value queue_traits h [])
     else set (hm_values h1) = set (hm_values h) \<and> hm_spares h1 = hm_spares h \<and> hm_node h1 = hm_node h \<and> hm_map h1 = hm_map h"
    using hm_insert_correct [OF inv, of d "[]"] by blast
  let ?q = "node_queue h1 x @ [op]"
  have e: "enqueue_operation d op h = Some (hm_set_value x ?q h1, fd_queue h d = [])"
    using i(1) fd_queue_none [OF assms] by (simp add: enqueue_operation_def)
  have "x \<notin> set (hm_spares h1)"
    using hm_invD(1) [OF i(2)] i(3) by auto
  moreover have old: "node_queue h1 y = node_queue h y" "y \<in> set (hm_values h1) \<Longrightarrow> y \<in> set (hm_values h)" "y \<in> set (hm_spares h1) \<Longrightarrow> y \<in> set (hm_spares h)"
    if "y \<noteq> x" for y
    using c that by (cases "hm_map h d = None"; cases "hm_spares h"; simp add: node_queue_def)+
  then have "\<forall>y\<in>set (hm_values h1). y \<noteq> x \<longrightarrow> node_queue h1 y \<noteq> []" "\<forall>y\<in>set (hm_spares h1). y \<noteq> x \<longrightarrow> node_queue h1 y = []"
    using roq_invD(2,3) [OF assms] by metis+
  moreover note this
  moreover have "hm_values (hm_set_value x ?q h1) = hm_values h1" "hm_spares (hm_set_value x ?q h1) = hm_spares h1"
    by (simp_all add: hm_set_value_def)
  ultimately have r: "roq_inv (hm_set_value x ?q h1)"
    using hm_set_value_inv(1) [OF i(2), of x ?q] unfolding roq_inv_def node_queue_set by auto
  have "node_queue h1 x = fd_queue h d"
  proof (cases "hm_map h d = None")
    case True
    then show ?thesis
      using c inserted_empty [OF assms] by (simp add: node_queue_def fd_queue_def)
  next
    case False
    then have "hm_map h1 = hm_map h"
      using c by simp
    then show ?thesis
      using hm_map_node [OF i(2,3)] i(4) by (simp add: fd_queue_def node_queue_def)
  qed
  moreover have "hm_map h1 j = hm_map h j" if "j \<noteq> d" for j
    using c that by (cases "hm_map h d = None") auto
  ultimately have "fd_queue (hm_set_value x ?q h1) = (fd_queue h)(d := fd_queue h d @ [op])"
    using map_set_value [OF i(2,3), of ?q] i(4) by (auto simp: fd_queue_def fun_eq_iff)
  with e r show ?thesis
    by blast
qed

lemma cancel_queue_eq: "cancel_queue ec q ecs ops = ((\<lambda>x. if x \<in> set q then ec else ecs x), ops @ q)"
  by (induction q arbitrary: ecs ops) (auto simp: fun_eq_iff)

lemma cancel_at_correct:
  assumes "roq_inv h" and "x \<in> set (hm_values h)"
  obtains h1 where "cancel_operations_at (Some x) ec h ecs ops =
      Some (h1, (\<lambda>y. if y \<in> set (node_queue h x) then ec else ecs y), ops @ node_queue h x, True)" "roq_inv h1"
    "fd_queue h1 = (fd_queue h)(hm_key h x := [])" "hm_values h1 = remove1 x (hm_values h)" "\<forall>y. y \<noteq> x \<longrightarrow> hm_node h1 y = hm_node h y"
proof -
  obtain h1 where "hm_erase_at queue_traits (Some x) (hm_set_value x [] h) = Some h1" "roq_inv h1"
    "fd_queue h1 = (fd_queue h)(hm_key h x := [])" "hm_values h1 = remove1 x (hm_values h)" "\<forall>y. y \<noteq> x \<longrightarrow> hm_node h1 y = hm_node h y"
    using erase_queue [OF assms] by blast
  then show ?thesis
    by (intro that [of h1]) (simp_all add: cancel_operations_at_def cancel_queue_eq)
qed

lemma find_queue:
  assumes "roq_inv h"
  obtains it where "hm_find queue_traits d h = Some it" "it = None \<longleftrightarrow> fd_queue h d = []"
    "\<forall>x. it = Some x \<longrightarrow> x \<in> set (hm_values h) \<and> hm_key h x = d \<and> node_queue h x = fd_queue h d"
proof -
  obtain it where "hm_find queue_traits d h = Some it" "node_with h d it"
    using hm_find_correct [OF roq_invD(1) [OF assms]] by blast
  show ?thesis
  proof (cases it)
    case (Some x)
    then have x: "x \<in> set (hm_values h)" "hm_key h x = d"
      using \<open>node_with h d it\<close> by (simp_all add: node_with_def)
    note q = fd_queue_node [OF assms x(1), unfolded x(2)]
    show ?thesis
    proof (rule that)
      show "it = None \<longleftrightarrow> fd_queue h d = []"
        using Some q(2) by simp
      show "\<forall>x. it = Some x \<longrightarrow> x \<in> set (hm_values h) \<and> hm_key h x = d \<and> node_queue h x = fd_queue h d"
        using Some x q(1) by simp
    qed fact
  next
    case None
    with \<open>node_with h d it\<close> have "fd_queue h d = []"
      by (simp add: node_with_def fd_queue_def)
    with None \<open>hm_find queue_traits d h = Some it\<close> show ?thesis
      by (intro that [of None]) simp_all
  qed
qed

lemma cancel_operations_correct:
  assumes "roq_inv h"
  shows "\<exists>h1. cancel_operations d ec h ecs ops =
      Some (h1, (\<lambda>x. if x \<in> set (fd_queue h d) then ec else ecs x), ops @ fd_queue h d, fd_queue h d \<noteq> []) \<and>
    roq_inv h1 \<and> fd_queue h1 = (fd_queue h)(d := [])"
proof -
  obtain it where it: "hm_find queue_traits d h = Some it" "it = None \<longleftrightarrow> fd_queue h d = []"
    "\<forall>x. it = Some x \<longrightarrow> x \<in> set (hm_values h) \<and> hm_key h x = d \<and> node_queue h x = fd_queue h d"
    using find_queue [OF assms, of d] .
  show ?thesis
  proof (cases it)
    case None
    then show ?thesis
      using it(1,2) assms by (auto simp: cancel_operations_def cancel_operations_at_def fun_eq_iff)
  next
    case (Some x)
    then have x: "x \<in> set (hm_values h)" "hm_key h x = d" "node_queue h x = fd_queue h d"
      using it(3) by simp_all
    from cancel_at_correct [OF assms x(1), of ec ecs ops] x(2,3) Some it(1,2) show ?thesis
      by (force simp: cancel_operations_def)
  qed
qed

text \<open>Performing takes operations from the front until one says that it is not done.\<close>

lemma perform_front_split:
  assumes "perform_front perform q w ecs ops = (q1, w1, ecs1, ops1)"
  shows "\<exists>n. q1 = drop n q \<and> ops1 = ops @ take n q \<and> performed_from perform q n (w, ecs) \<and>
    (w1, ecs1) = attempts perform (take (Suc n) q) (w, ecs)"
  using assms
proof (induction q arbitrary: w ecs ops)
  case Nil
  then show ?case
    by (intro exI [of _ 0]) (auto simp: performed_from_0)
next
  case (Cons op q)
  obtain w2 status e where p: "perform op w = (w2, status, e)"
    by (metis prod_cases3)
  show ?case
  proof (cases "status = NotDone")
    case True
    then show ?thesis
      using Cons.prems p by (intro exI [of _ 0]) (auto simp: performed_from_stop)
  next
    case False
    then have "perform_front perform q w2 (ecs(op := e)) (ops @ [op]) = (q1, w1, ecs1, ops1)"
      using Cons.prems p by simp
    then obtain n where n: "q1 = drop n q" "ops1 = (ops @ [op]) @ take n q" "performed_from perform q n (w2, ecs(op := e))"
      "(w1, ecs1) = attempts perform (take (Suc n) q) (w2, ecs(op := e))"
      using Cons.IH by blast
    then show ?thesis
      using p performed_from_Suc [OF p False n(3)] by (intro exI [of _ "Suc n"]) simp
  qed
qed

lemma performed_from_length: "performed_from perform q n s \<Longrightarrow> n \<le> length q"
  by (simp add: performed_from_def)

lemma perform_at_correct:
  assumes "roq_inv h" and "x \<in> set (hm_values h)"
  obtains h1 w1 ecs1 n where "perform_operations_at perform (Some x) h w ecs ops =
      Some (h1, w1, ecs1, ops @ take n (node_queue h x), n < length (node_queue h x))" "roq_inv h1"
    "performed_from perform (node_queue h x) n (w, ecs)" "(w1, ecs1) = attempts perform (take (Suc n) (node_queue h x)) (w, ecs)"
    "fd_queue h1 = (fd_queue h)(hm_key h x := drop n (node_queue h x))"
    "hm_values h1 = (if n < length (node_queue h x) then hm_values h else remove1 x (hm_values h))" "\<forall>y. y \<noteq> x \<longrightarrow> hm_node h1 y = hm_node h y"
proof -
  obtain q1 w1 ecs1 ops1 where p: "perform_front perform (node_queue h x) w ecs ops = (q1, w1, ecs1, ops1)"
    by (metis prod_cases4)
  from perform_front_split [OF p] obtain n where n: "q1 = drop n (node_queue h x)" "ops1 = ops @ take n (node_queue h x)"
    "performed_from perform (node_queue h x) n (w, ecs)" "(w1, ecs1) = attempts perform (take (Suc n) (node_queue h x)) (w, ecs)"
    by blast
  note len = performed_from_length [OF n(3)]
  show ?thesis
  proof (cases "q1 = []")
    case True
    obtain h1 where h1: "hm_erase_at queue_traits (Some x) (hm_set_value x [] h) = Some h1" "roq_inv h1"
      "fd_queue h1 = (fd_queue h)(hm_key h x := [])" "hm_values h1 = remove1 x (hm_values h)" "\<forall>y. y \<noteq> x \<longrightarrow> hm_node h1 y = hm_node h y"
      using erase_queue [OF assms] by blast
    show ?thesis
      by (rule that [of h1 w1 ecs1 n]) (use True p n h1 len in \<open>simp_all add: perform_operations_at_def\<close>)
  next
    case False
    show ?thesis
      by (rule that [of "hm_set_value x q1 h" w1 ecs1 n])
        (use False p n len set_queue [OF assms False] in \<open>auto simp: perform_operations_at_def hm_set_value_def\<close>)
  qed
qed

lemma perform_operations_correct:
  assumes "roq_inv h"
  shows "\<exists>h1 w1 ecs1 n. perform_operations perform d h w ecs ops =
      Some (h1, w1, ecs1, ops @ take n (fd_queue h d), n < length (fd_queue h d)) \<and>
    roq_inv h1 \<and> fd_queue h1 = (fd_queue h)(d := drop n (fd_queue h d)) \<and>
    performed_from perform (fd_queue h d) n (w, ecs) \<and> (w1, ecs1) = attempts perform (take (Suc n) (fd_queue h d)) (w, ecs)"
proof -
  obtain it where it: "hm_find queue_traits d h = Some it" "it = None \<longleftrightarrow> fd_queue h d = []"
    "\<forall>x. it = Some x \<longrightarrow> x \<in> set (hm_values h) \<and> hm_key h x = d \<and> node_queue h x = fd_queue h d"
    using find_queue [OF assms, of d] .
  show ?thesis
  proof (cases it)
    case None
    then show ?thesis
      using it(1,2) assms by (auto simp: perform_operations_def perform_operations_at_def fun_eq_iff performed_from_0 intro!: exI [of _ 0])
  next
    case (Some x)
    then have x: "x \<in> set (hm_values h)" "hm_key h x = d" "node_queue h x = fd_queue h d"
      using it(3) by simp_all
    obtain h1 w1 ecs1 n where "perform_operations_at perform (Some x) h w ecs ops =
        Some (h1, w1, ecs1, ops @ take n (node_queue h x), n < length (node_queue h x))" "roq_inv h1"
      "performed_from perform (node_queue h x) n (w, ecs)" "(w1, ecs1) = attempts perform (take (Suc n) (node_queue h x)) (w, ecs)"
      "fd_queue h1 = (fd_queue h)(hm_key h x := drop n (node_queue h x))"
      using perform_at_correct [OF assms x(1)] .
    then show ?thesis
      using Some it(1) x(2,3) by (intro exI [of _ h1] exI [of _ w1] exI [of _ ecs1] exI [of _ n]) (simp add: perform_operations_def)
  qed
qed

definition queued :: "'o roq \<Rightarrow> 'o list" where
  "queued h = concat (map (node_queue h) (hm_values h))"

lemma get_all_loop_correct:
  assumes "roq_inv h"
  shows "\<exists>h1. get_all_loop (list_begin (hm_values h)) h ops = Some (h1, ops @ queued h) \<and> roq_inv h1 \<and> hm_values h1 = []"
  using assms
proof (induction "hm_values h" arbitrary: h ops)
  case Nil
  then show ?case
    by (simp add: get_all_loop.simps queued_def)
next
  case (Cons x xs)
  note v = Cons.hyps(2) [symmetric]
  have x: "x \<in> set (hm_values h)"
    by (simp add: v)
  obtain h1 where h1: "hm_erase_at queue_traits (Some x) (hm_set_value x [] h) = Some h1" "roq_inv h1"
    "hm_values h1 = remove1 x (hm_values h)" "\<forall>y. y \<noteq> x \<longrightarrow> hm_node h1 y = hm_node h y"
    by (rule erase_queue [OF Cons.prems x]) (rule that, assumption+)
  have d: "distinct (x # xs)"
    using hm_invD(2) [OF roq_invD(1) [OF Cons.prems]] by (simp add: v)
  have xs: "hm_values h1 = xs"
    using h1(3) v by simp
  have same: "map (node_queue h1) xs = map (node_queue h) xs"
    using h1(4) d by (auto simp: node_queue_def)
  have "queued h = node_queue h x @ queued h1"
    unfolding queued_def v xs same by simp
  moreover have "list_next (hm_values h) (Some x) = Some (list_begin (hm_values h1))"
    using list_next_split [of "[]" x xs] d v xs by simp
  ultimately show ?case
    using Cons.hyps(1) [OF xs [symmetric] h1(2), of "ops @ node_queue h x"] h1(1)
    by (simp add: get_all_loop.simps [of "Some x"] v)
qed

lemma queued_fd_queue:
  assumes r: "roq_inv h"
  shows "set (queued h) = (\<Union>d. set (fd_queue h d))"
proof -
  have "\<exists>x\<in>set (hm_values h). y \<in> set (node_queue h x)" if "y \<in> set (fd_queue h d)" for y d
  proof -
    have "hm_map h d = Some (fd_queue h d)"
      using that by (cases "hm_map h d") (simp_all add: fd_queue_def)
    then obtain x where "x \<in> set (hm_values h)" "hm_node h x = (d, fd_queue h d)"
      using hm_map_Some [OF hm_invD(5,2) [OF roq_invD(1) [OF r]]] by blast
    then show ?thesis
      using that by (intro bexI [of _ x]) (simp_all add: node_queue_def)
  qed
  moreover have "y \<in> set (fd_queue h (hm_key h x))" if "x \<in> set (hm_values h)" "y \<in> set (node_queue h x)" for x y
    using that fd_queue_node(1) [OF r that(1)] by simp
  ultimately show ?thesis
    unfolding queued_def by fastforce
qed

text \<open>C24. The operations that wait in a \<open>reactor_op_queue\<close> are one queue per descriptor. Adding puts an operation
  at the end of its descriptor's queue and reports whether it is the first; cancelling empties the
  queue in order with the given code; performing attempts the operations from the front, each on the
  kernel's state that the one before has left, and takes exactly those whose attempt says that they
  are done, until one is not, which stays first; \<open>get_all_operations\<close> hands over all. The other queues stay as they are, and
  no recycled node of the map brings an old operation back, though assigning to it does nothing.\<close>

theorem reactor_op_queue_correct:
  assumes "roq_inv h"
  shows "(\<exists>h1. enqueue_operation d op h = Some (h1, fd_queue h d = []) \<and> roq_inv h1 \<and> fd_queue h1 = (fd_queue h)(d := fd_queue h d @ [op])) \<and>
    (\<exists>h1. cancel_operations d ec h ecs ops =
        Some (h1, (\<lambda>x. if x \<in> set (fd_queue h d) then ec else ecs x), ops @ fd_queue h d, fd_queue h d \<noteq> []) \<and>
      roq_inv h1 \<and> fd_queue h1 = (fd_queue h)(d := [])) \<and>
    (\<exists>h1 w1 ecs1 n. perform_operations perform d h w ecs ops =
        Some (h1, w1, ecs1, ops @ take n (fd_queue h d), n < length (fd_queue h d)) \<and>
      roq_inv h1 \<and> fd_queue h1 = (fd_queue h)(d := drop n (fd_queue h d)) \<and>
      performed_from perform (fd_queue h d) n (w, ecs) \<and> (w1, ecs1) = attempts perform (take (Suc n) (fd_queue h d)) (w, ecs)) \<and>
    (\<exists>h1. get_all_operations h ops = Some (h1, ops @ queued h) \<and> roq_inv h1 \<and> fd_queue h1 = (\<lambda>_. []) \<and>
      set (queued h) = (\<Union>d. set (fd_queue h d))) \<and>
    has_operation d h = Some (fd_queue h d \<noteq> [])"
proof (intro conjI)
  show "\<exists>h1. get_all_operations h ops = Some (h1, ops @ queued h) \<and> roq_inv h1 \<and> fd_queue h1 = (\<lambda>_. []) \<and>
      set (queued h) = (\<Union>d. set (fd_queue h d))"
    using get_all_loop_correct [OF assms, of ops] queued_fd_queue [OF assms]
    by (auto simp: get_all_operations_def fd_queue_def hm_map_def fun_eq_iff)
  obtain it where "hm_find queue_traits d h = Some it" "it = None \<longleftrightarrow> fd_queue h d = []"
    using find_queue [OF assms, of d] by metis
  then show "has_operation d h = Some (fd_queue h d \<noteq> [])"
    by (auto simp: has_operation_def)
qed (rule enqueue_correct [OF assms] cancel_operations_correct [OF assms] perform_operations_correct [OF assms])+

theorem reactor_op_queue_correct_witness:
  "\<exists>h1 h2 h3 w1 ecs1. enqueue_operation 5 (1::nat) (roq_new (\<lambda>_. (0, []))) = Some (h1, True) \<and> enqueue_operation 5 2 h1 = Some (h2, False) \<and>
     fd_queue h2 = (\<lambda>_. [])(5 := [1, 2]) \<and>
     perform_operations (\<lambda>op w. (w + 1, if op = 1 then Done else NotDone, no_error)) 5 h2 (7::nat) (\<lambda>_. no_error) [] =
       Some (h3, w1, ecs1, [1], True) \<and> w1 = 9 \<and> fd_queue h3 = (\<lambda>_. [])(5 := [2])"
proof -
  note n = roq_inv_new [of "\<lambda>_. (0, []) :: int \<times> nat list"]
  let ?p = "\<lambda>op (w::nat). (w + 1, if op = (1::nat) then Done else NotDone, no_error)"
  obtain h1 where 1: "enqueue_operation 5 1 (roq_new (\<lambda>_. (0, [])) :: nat roq) = Some (h1, True)" "roq_inv h1" "fd_queue h1 = (\<lambda>_. [])(5 := [1])"
    using reactor_op_queue_correct [OF n(1), of 5 1, THEN conjunct1] n(2) by auto
  obtain h2 where 2: "enqueue_operation 5 2 h1 = Some (h2, False)" "roq_inv h2" "fd_queue h2 = (\<lambda>_. [])(5 := [1, 2])"
    using reactor_op_queue_correct [OF 1(2), of 5 2, THEN conjunct1] by (auto simp: 1(3))
  have q: "fd_queue h2 5 = [1, 2]"
    by (simp add: 2(3))
  obtain h3 w1 ecs1 m where 3: "perform_operations ?p 5 h2 7 (\<lambda>_. no_error) [] =
        Some (h3, w1, ecs1, [] @ take m (fd_queue h2 5), m < length (fd_queue h2 5))"
      "fd_queue h3 = (fd_queue h2)(5 := drop m (fd_queue h2 5))" "performed_from ?p (fd_queue h2 5) m (7, \<lambda>_. no_error)"
      "(w1, ecs1) = attempts ?p (take (Suc m) (fd_queue h2 5)) (7, \<lambda>_. no_error)"
    using reactor_op_queue_correct [OF 2(2), of 5 1 no_error "\<lambda>_. no_error" "[]" ?p 7, THEN conjunct2, THEN conjunct2, THEN conjunct1]
    by (elim exE conjE) (rule that)
  have "m = 1"
    using 3(3) unfolding q by (cases m; cases "m - 1") (auto simp: performed_from_def status_at_def all_less_Suc less_Suc_eq)
  then show ?thesis
    using 1(1) 2(1,3) 3(1,2,4) q by (intro exI [of _ h1] exI [of _ h2] exI [of _ h3] exI [of _ w1] exI [of _ ecs1]) simp
qed

end
