(* ===== verification/SelectReactor.thy ===== *)
theory SelectReactor
  imports ReactorOpQueue
begin

text \<open>
  \<open>include/asio/detail/base/posix/posix_fd_set_adapter.hpp\<close>, \<open>detail/reactor/select_reactor.hpp\<close>,
  \<open>detail/reactor/poll/select_reactor.hpp\<close> and \<open>select_reactor.ipp\<close>: the reactor over \<open>select\<close>. The state
  holds the scheduler's and the calling thread's, three \<open>reactor_op_queue\<close>s, the descriptor sets, the timer
  queues, the \<open>ec_\<close> field of every operation and the kernel. \<open>select\<close> and the interrupter's functions
  are parameters. \<open>run\<close> is cut where it releases the mutex: up to \<open>select\<close>, the call itself, and the
  dispatching after it.
\<close>

section \<open>Descriptor sets\<close>

definition FD_SETSIZE :: int where "FD_SETSIZE = 1024"

record fd_adapter =
  fd_bits :: "int set"
  max_descriptor :: int

definition fda_new :: fd_adapter where
  "fda_new = \<lparr>fd_bits = {}, max_descriptor = - 1\<rparr>"

definition fda_reset :: "fd_adapter \<Rightarrow> fd_adapter" where
  "fda_reset a = a\<lparr>fd_bits := {}\<rparr>"

definition fda_set :: "int \<Rightarrow> fd_adapter \<Rightarrow> fd_adapter \<times> bool" where
  "fda_set descriptor a =
     (if descriptor < FD_SETSIZE then
        (a\<lparr>max_descriptor := (if max_descriptor a = - 1 \<or> descriptor > max_descriptor a then descriptor else max_descriptor a),
           fd_bits := insert descriptor (fd_bits a)\<rparr>, True)
      else (a, False))"

definition fda_is_set :: "int \<Rightarrow> fd_adapter \<Rightarrow> bool" where
  "fda_is_set descriptor a \<longleftrightarrow> descriptor \<in> fd_bits a"

text \<open>The loops over the descriptors of a queue; the next iterator is taken before an entry is erased.\<close>

partial_function (option) fda_set_loop ::
  "iter \<Rightarrow> 'o roq \<Rightarrow> ('o \<Rightarrow> error_code) \<Rightarrow> 'o list \<Rightarrow> fd_adapter \<Rightarrow> ('o roq \<times> ('o \<Rightarrow> error_code) \<times> 'o list \<times> fd_adapter) option" where
  "fda_set_loop i h ecs ops a =
     (case i of
        None \<Rightarrow> Some (h, ecs, ops, a)
      | Some x \<Rightarrow>
          do {i1 \<leftarrow> list_next (hm_values h) i;
              (case fda_set (hm_key h x) a of
                 (a1, ok) \<Rightarrow>
                   if ok then fda_set_loop i1 h ecs ops a1
                   else do {r \<leftarrow> cancel_operations_at i (misc_ec fd_set_failure) h ecs ops;
                            fda_set_loop i1 (fst r) (fst (snd r)) (fst (snd (snd r))) a1})})"

declare fda_set_loop.simps [code]

definition fda_set_queue ::
  "'o roq \<Rightarrow> ('o \<Rightarrow> error_code) \<Rightarrow> 'o list \<Rightarrow> fd_adapter \<Rightarrow> ('o roq \<times> ('o \<Rightarrow> error_code) \<times> 'o list \<times> fd_adapter) option" where
  "fda_set_queue h ecs ops a = fda_set_loop (list_begin (hm_values h)) h ecs ops a"

partial_function (option) fda_perform_loop ::
  "('o, 'w) performer \<Rightarrow> fd_adapter \<Rightarrow> iter \<Rightarrow> 'o roq \<Rightarrow> 'w \<Rightarrow> ('o \<Rightarrow> error_code) \<Rightarrow> 'o list \<Rightarrow>
   ('o roq \<times> 'w \<times> ('o \<Rightarrow> error_code) \<times> 'o list) option" where
  "fda_perform_loop perform a i h w ecs ops =
     (case i of
        None \<Rightarrow> Some (h, w, ecs, ops)
      | Some x \<Rightarrow>
          do {i1 \<leftarrow> list_next (hm_values h) i;
              if fda_is_set (hm_key h x) a then
                do {r \<leftarrow> perform_operations_at perform i h w ecs ops;
                    fda_perform_loop perform a i1 (fst r) (fst (snd r)) (fst (snd (snd r))) (fst (snd (snd (snd r))))}
              else fda_perform_loop perform a i1 h w ecs ops})"

declare fda_perform_loop.simps [code]

definition fda_perform ::
  "('o, 'w) performer \<Rightarrow> fd_adapter \<Rightarrow> 'o roq \<Rightarrow> 'w \<Rightarrow> ('o \<Rightarrow> error_code) \<Rightarrow> 'o list \<Rightarrow> ('o roq \<times> 'w \<times> ('o \<Rightarrow> error_code) \<times> 'o list) option" where
  "fda_perform perform a h w ecs ops = fda_perform_loop perform a (list_begin (hm_values h)) h w ecs ops"

section \<open>State\<close>

record ('o, 'w, 'q, 't, 'a) select_reactor =
  s_sched :: "'o sched"
  s_this :: "'o thread_info option"
  s_signals :: "cond_signal list"
  s_queue :: "op_type \<Rightarrow> 'o roq"
  s_fd_sets :: "op_type \<Rightarrow> fd_adapter"
  s_op_ec :: "'o \<Rightarrow> error_code"
  s_kernel :: 'w
  s_timer_queues :: "'q list"
  s_timer_at :: "'q \<Rightarrow> ('t, 'a, 'o) timer_queue"
  s_shutdown :: bool

text \<open>The interrupter: signalling and resetting it act on the kernel.\<close>

record 'w interrupter =
  i_descriptor :: int
  i_interrupt :: "'w \<Rightarrow> 'w"
  i_reset :: "'w \<Rightarrow> 'w"
  i_recreate :: "'w \<Rightarrow> 'w"

type_synonym 'w select_call = "'w \<Rightarrow> int \<Rightarrow> (op_type \<Rightarrow> int set) \<Rightarrow> int \<times> int \<Rightarrow> 'w \<times> int \<times> (op_type \<Rightarrow> int set) \<times> int"

definition select_new ::
  "'o sched \<Rightarrow> 'o thread_info option \<Rightarrow> (nat \<Rightarrow> int \<times> 'o list) \<Rightarrow> ('o \<Rightarrow> error_code) \<Rightarrow> 'w \<Rightarrow> ('q \<Rightarrow> ('t, 'a, 'o) timer_queue) \<Rightarrow>
   ('o, 'w, 'q, 't, 'a) select_reactor" where
  "select_new s this mem ecs w queue_at =
     \<lparr>s_sched = s, s_this = this, s_signals = [], s_queue = (\<lambda>_. roq_new mem), s_fd_sets = (\<lambda>_. fda_new), s_op_ec = ecs,
      s_kernel = w, s_timer_queues = [], s_timer_at = queue_at, s_shutdown = False\<rparr>"

definition sel_sched_call ::
  "('o sched \<Rightarrow> 'o thread_info option \<Rightarrow> 'o sched \<times> 'o thread_info option \<times> cond_signal) \<Rightarrow>
   ('o, 'w, 'q, 't, 'a) select_reactor \<Rightarrow> ('o, 'w, 'q, 't, 'a) select_reactor" where
  "sel_sched_call f r =
     (let (s1, this1, c) = f (s_sched r) (s_this r) in r\<lparr>s_sched := s1, s_this := this1, s_signals := s_signals r @ [c]\<rparr>)"

definition sel_post_immediate :: "'o \<Rightarrow> bool \<Rightarrow> ('o, 'w, 'q, 't, 'a) select_reactor \<Rightarrow> ('o, 'w, 'q, 't, 'a) select_reactor" where
  "sel_post_immediate op is_continuation = sel_sched_call (\<lambda>s this. post_immediate_completion op is_continuation this s)"

definition sel_post_deferred :: "'o list \<Rightarrow> ('o, 'w, 'q, 't, 'a) select_reactor \<Rightarrow> ('o, 'w, 'q, 't, 'a) select_reactor" where
  "sel_post_deferred ops = sel_sched_call (\<lambda>s this. post_deferred_completions ops this s)"

definition sel_work_started :: "('o, 'w, 'q, 't, 'a) select_reactor \<Rightarrow> ('o, 'w, 'q, 't, 'a) select_reactor" where
  "sel_work_started = sel_sched_call (\<lambda>s this. (work_started s, this, NoSignal))"

definition sel_init_task :: "('o, 'w, 'q, 't, 'a) select_reactor \<Rightarrow> ('o, 'w, 'q, 't, 'a) select_reactor" where
  "sel_init_task = sel_sched_call (\<lambda>s this. case init_task s of (s1, c) \<Rightarrow> (s1, this, c))"

definition sel_interrupt :: "'w interrupter \<Rightarrow> ('o, 'w, 'q, 't, 'a) select_reactor \<Rightarrow> ('o, 'w, 'q, 't, 'a) select_reactor" where
  "sel_interrupt it r = r\<lparr>s_kernel := i_interrupt it (s_kernel r)\<rparr>"

section \<open>Descriptors\<close>

text \<open>\<open>register_descriptor\<close> accepts every descriptor; \<open>move_descriptor\<close> and \<open>cleanup_descriptor_data\<close> do
  nothing: the reactor has no data per descriptor.\<close>

definition sel_register_descriptor :: "int \<Rightarrow> int" where
  "sel_register_descriptor descriptor = 0"

definition sel_enqueue ::
  "op_type \<Rightarrow> int \<Rightarrow> 'o \<Rightarrow> ('o, 'w, 'q, 't, 'a) select_reactor \<Rightarrow> (('o, 'w, 'q, 't, 'a) select_reactor \<times> bool) option" where
  "sel_enqueue ty descriptor op r =
     do {(h1, first) \<leftarrow> enqueue_operation descriptor op (s_queue r ty);
         Some (r\<lparr>s_queue := (s_queue r)(ty := h1)\<rparr>, first)}"

definition sel_register_internal ::
  "'w interrupter \<Rightarrow> op_type \<Rightarrow> int \<Rightarrow> 'o \<Rightarrow> ('o, 'w, 'q, 't, 'a) select_reactor \<Rightarrow> (('o, 'w, 'q, 't, 'a) select_reactor \<times> int) option" where
  "sel_register_internal it ty descriptor op r =
     do {(r1, first) \<leftarrow> sel_enqueue ty descriptor op r; Some (sel_interrupt it r1, 0)}"

definition sel_start_op ::
  "'w interrupter \<Rightarrow> op_type \<Rightarrow> int \<Rightarrow> 'o \<Rightarrow> bool \<Rightarrow> ('o, 'w, 'q, 't, 'a) select_reactor \<Rightarrow> ('o, 'w, 'q, 't, 'a) select_reactor option" where
  "sel_start_op it ty descriptor op is_continuation r =
     (if s_shutdown r then Some (sel_post_immediate op is_continuation r)
      else do {(r1, first) \<leftarrow> sel_enqueue ty descriptor op r;
               let r2 = sel_work_started r1;
               Some (if first then sel_interrupt it r2 else r2)})"

fun cancel_types ::
  "op_type list \<Rightarrow> int \<Rightarrow> error_code \<Rightarrow> ('o, 'w, 'q, 't, 'a) select_reactor \<Rightarrow> 'o list \<Rightarrow> bool \<Rightarrow>
   (('o, 'w, 'q, 't, 'a) select_reactor \<times> 'o list \<times> bool) option" where
  "cancel_types [] descriptor ec r ops need = Some (r, ops, need)"
| "cancel_types (ty # tys) descriptor ec r ops need =
     do {(h1, ecs, ops1, found) \<leftarrow> cancel_operations descriptor ec (s_queue r ty) (s_op_ec r) ops;
         cancel_types tys descriptor ec (r\<lparr>s_queue := (s_queue r)(ty := h1), s_op_ec := ecs\<rparr>) ops1 (found \<or> need)}"

definition cancel_ops_unlocked ::
  "'w interrupter \<Rightarrow> int \<Rightarrow> error_code \<Rightarrow> ('o, 'w, 'q, 't, 'a) select_reactor \<Rightarrow> ('o, 'w, 'q, 't, 'a) select_reactor option" where
  "cancel_ops_unlocked it descriptor ec r =
     do {(r1, ops, need) \<leftarrow> cancel_types [ReadOp, WriteOp, ExceptOp] descriptor ec r [] False;
         let r2 = sel_post_deferred ops r1;
         Some (if need then sel_interrupt it r2 else r2)}"

definition sel_cancel_ops ::
  "'w interrupter \<Rightarrow> int \<Rightarrow> ('o, 'w, 'q, 't, 'a) select_reactor \<Rightarrow> ('o, 'w, 'q, 't, 'a) select_reactor option" where
  "sel_cancel_ops it descriptor r = cancel_ops_unlocked it descriptor (basic_ec operation_aborted) r"

definition sel_deregister ::
  "'w interrupter \<Rightarrow> int \<Rightarrow> ('o, 'w, 'q, 't, 'a) select_reactor \<Rightarrow> ('o, 'w, 'q, 't, 'a) select_reactor option" where
  "sel_deregister it descriptor r = cancel_ops_unlocked it descriptor (basic_ec operation_aborted) r"

text \<open>The internal form drops the operations: the local queue's destructor destroys them.\<close>

definition sel_deregister_internal ::
  "int \<Rightarrow> ('o, 'w, 'q, 't, 'a) select_reactor \<Rightarrow> (('o, 'w, 'q, 't, 'a) select_reactor \<times> 'o list) option" where
  "sel_deregister_internal descriptor r =
     do {(r1, ops, need) \<leftarrow> cancel_types [ReadOp, WriteOp, ExceptOp] descriptor (basic_ec operation_aborted) r [] False;
         Some (r1, ops)}"

section \<open>Running\<close>

definition get_timeout_tv :: "('q \<Rightarrow> int \<Rightarrow> int) \<Rightarrow> 'q list \<Rightarrow> int \<Rightarrow> int \<times> int" where
  "get_timeout_tv wait qs usec =
     (let max_usec = 5 * 60 * 1000 * 1000;
          usec1 = tqs_wait_duration wait qs (if usec < 0 \<or> max_usec < usec then max_usec else usec)
      in (usec1 div 1000000, usec1 mod 1000000))"

fun fill_sets ::
  "op_type list \<Rightarrow> ('o, 'w, 'q, 't, 'a) select_reactor \<Rightarrow> 'o list \<Rightarrow> int \<Rightarrow> bool \<Rightarrow>
   (('o, 'w, 'q, 't, 'a) select_reactor \<times> 'o list \<times> int \<times> bool) option" where
  "fill_sets [] r ops max_fd have_work = Some (r, ops, max_fd, have_work)"
| "fill_sets (ty # tys) r ops max_fd have_work =
     do {let have_work1 = (have_work \<or> \<not> roq_empty (s_queue r ty));
         (h1, ecs, ops1, a1) \<leftarrow> fda_set_queue (s_queue r ty) (s_op_ec r) ops (s_fd_sets r ty);
         fill_sets tys (r\<lparr>s_queue := (s_queue r)(ty := h1), s_op_ec := ecs, s_fd_sets := (s_fd_sets r)(ty := a1)\<rparr>) ops1
           (if max_descriptor a1 > max_fd then max_descriptor a1 else max_fd) have_work1}"

text \<open>Until the mutex is released: the number of descriptors and the timeout for \<open>select\<close>, or that there is nothing to do.\<close>

definition select_begin ::
  "'w interrupter \<Rightarrow> ('q \<Rightarrow> ('t, 'a, 'o) timer_queue \<Rightarrow> int \<Rightarrow> int) \<Rightarrow> int \<Rightarrow> 'o list \<Rightarrow> ('o, 'w, 'q, 't, 'a) select_reactor \<Rightarrow>
   (('o, 'w, 'q, 't, 'a) select_reactor \<times> 'o list \<times> (int \<times> (int \<times> int)) option) option" where
  "select_begin it wait_usec usec ops r =
     do {let r1 = r\<lparr>s_fd_sets := (\<lambda>ty. fda_reset (s_fd_sets r ty))\<rparr>;
         let r2 = r1\<lparr>s_fd_sets := (s_fd_sets r1)(ReadOp := fst (fda_set (i_descriptor it) (s_fd_sets r1 ReadOp)))\<rparr>;
         (r3, ops1, max_fd, have_work) \<leftarrow> fill_sets [ReadOp, WriteOp, ExceptOp] r2 ops 0 (\<not> tqs_all_empty (s_timer_at r2) (s_timer_queues r2));
         Some (r3, ops1,
           if usec = 0 \<and> \<not> have_work then None
           else Some (max_fd + 1, if usec \<noteq> 0 then get_timeout_tv (\<lambda>q. wait_usec q (s_timer_at r3 q)) (s_timer_queues r3) usec else (0, 0)))}"

text \<open>\<open>socket_ops::select\<close>, and the call without the mutex with the reset of the interrupter.\<close>

definition socket_select ::
  "'w select_call \<Rightarrow> int \<Rightarrow> (op_type \<Rightarrow> int set) \<Rightarrow> int \<times> int \<Rightarrow> 'w \<Rightarrow> 'w \<times> int \<times> (op_type \<Rightarrow> int set) \<times> error_code" where
  "socket_select sel nfds sets timeout w =
     (case sel w nfds sets timeout of
        (w1, result, sets1, errno) \<Rightarrow> (w1, result, sets1, if result \<ge> 0 then no_error else system_ec errno))"

definition select_wait ::
  "'w interrupter \<Rightarrow> 'w select_call \<Rightarrow> int \<Rightarrow> int \<times> int \<Rightarrow> ('o, 'w, 'q, 't, 'a) select_reactor \<Rightarrow> ('o, 'w, 'q, 't, 'a) select_reactor \<times> int" where
  "select_wait it sel nfds timeout r =
     (case socket_select sel nfds (\<lambda>ty. fd_bits (s_fd_sets r ty)) timeout (s_kernel r) of
        (w1, retval, sets, ec) \<Rightarrow>
          let r1 = r\<lparr>s_kernel := w1, s_fd_sets := (\<lambda>ty. s_fd_sets r ty\<lparr>fd_bits := sets ty\<rparr>)\<rparr>
          in if retval > 0 \<and> fda_is_set (i_descriptor it) (s_fd_sets r1 ReadOp)
             then (r1\<lparr>s_kernel := i_reset it (s_kernel r1)\<rparr>, retval - 1) else (r1, retval))"

fun perform_sets ::
  "('o, 'w) performer \<Rightarrow> op_type list \<Rightarrow> ('o, 'w, 'q, 't, 'a) select_reactor \<Rightarrow> 'o list \<Rightarrow> (('o, 'w, 'q, 't, 'a) select_reactor \<times> 'o list) option" where
  "perform_sets perform [] r ops = Some (r, ops)"
| "perform_sets perform (ty # tys) r ops =
     do {(h1, w1, ecs, ops1) \<leftarrow> fda_perform perform (s_fd_sets r ty) (s_queue r ty) (s_kernel r) (s_op_ec r) ops;
         perform_sets perform tys (r\<lparr>s_queue := (s_queue r)(ty := h1), s_kernel := w1, s_op_ec := ecs\<rparr>) ops1}"

definition select_end ::
  "('o, 'w) performer \<Rightarrow> ('q \<Rightarrow> 't::linorder) \<Rightarrow> int \<Rightarrow> 'o list \<Rightarrow> ('o, 'w, 'q, 't, 'a) select_reactor \<Rightarrow>
   (('o, 'w, 'q, 't, 'a) select_reactor \<times> 'o list) option" where
  "select_end perform now retval ops r =
     do {(r1, ops1) \<leftarrow> (if retval > 0 then perform_sets perform [ExceptOp, WriteOp, ReadOp] r ops else Some (r, ops));
         (queue_at, ops2) \<leftarrow> tqs_get_ready now (s_timer_queues r1) (s_timer_at r1) ops1;
         Some (r1\<lparr>s_timer_at := queue_at\<rparr>, ops2)}"

definition select_run ::
  "'w interrupter \<Rightarrow> 'w select_call \<Rightarrow> ('o, 'w) performer \<Rightarrow> ('q \<Rightarrow> 't::linorder) \<Rightarrow> ('q \<Rightarrow> ('t, 'a, 'o) timer_queue \<Rightarrow> int \<Rightarrow> int) \<Rightarrow>
   int \<Rightarrow> 'o list \<Rightarrow> ('o, 'w, 'q, 't, 'a) select_reactor \<Rightarrow> (('o, 'w, 'q, 't, 'a) select_reactor \<times> 'o list) option" where
  "select_run it sel perform now wait_usec usec ops r =
     do {(r1, ops1, call) \<leftarrow> select_begin it wait_usec usec ops r;
         (case call of
            None \<Rightarrow> Some (r1, ops1)
          | Some (nfds, timeout) \<Rightarrow>
              (case select_wait it sel nfds timeout r1 of (r2, retval) \<Rightarrow> select_end perform now retval ops1 r2))}"

section \<open>Timers, shutdown and forking\<close>

definition sel_schedule_timer ::
  "'w interrupter \<Rightarrow> ('t::linorder \<Rightarrow> bool) \<Rightarrow> 'q \<Rightarrow> 't \<Rightarrow> 'a \<Rightarrow> 'o \<Rightarrow> ('o, 'w, 'q, 't, 'a) select_reactor \<Rightarrow> ('o, 'w, 'q, 't, 'a) select_reactor" where
  "sel_schedule_timer it is_positive_infinity q time timer op r =
     (if s_shutdown r then sel_post_immediate op False r
      else
        let (tq1, earliest) = enqueue_timer is_positive_infinity time timer op (s_timer_at r q);
            r1 = sel_work_started (r\<lparr>s_timer_at := (s_timer_at r)(q := tq1)\<rparr>)
        in if earliest then sel_interrupt it r1 else r1)"

definition sel_cancel_timer ::
  "'q \<Rightarrow> 'a \<Rightarrow> nat \<Rightarrow> ('o, 'w, 'q, 't::linorder, 'a) select_reactor \<Rightarrow> ('o, 'w, 'q, 't, 'a) select_reactor \<times> nat" where
  "sel_cancel_timer q timer max_cancelled r =
     (let (tq1, ecs, ops, n) = timer_cancel (s_timer_at r q) timer (s_op_ec r) [] max_cancelled
      in (sel_post_deferred ops (r\<lparr>s_timer_at := (s_timer_at r)(q := tq1), s_op_ec := ecs\<rparr>), n))"

definition sel_move_timer ::
  "'q \<Rightarrow> 'a \<Rightarrow> 'a \<Rightarrow> ('o, 'w, 'q, 't::linorder, 'a) select_reactor \<Rightarrow> ('o, 'w, 'q, 't, 'a) select_reactor" where
  "sel_move_timer q target source r =
     (let (tq1, ecs, ops, n) = timer_cancel (s_timer_at r q) target (s_op_ec r) [] size_max;
          tq2 = move_timer tq1 target source
      in sel_post_deferred ops (r\<lparr>s_timer_at := (s_timer_at r)(q := tq2), s_op_ec := ecs\<rparr>))"

definition sel_add_timer_queue :: "'q \<Rightarrow> ('o, 'w, 'q, 't, 'a) select_reactor \<Rightarrow> ('o, 'w, 'q, 't, 'a) select_reactor" where
  "sel_add_timer_queue q r = r\<lparr>s_timer_queues := tqs_insert q (s_timer_queues r)\<rparr>"

definition sel_remove_timer_queue :: "'q \<Rightarrow> ('o, 'w, 'q, 't, 'a) select_reactor \<Rightarrow> ('o, 'w, 'q, 't, 'a) select_reactor" where
  "sel_remove_timer_queue q r = r\<lparr>s_timer_queues := tqs_erase q (s_timer_queues r)\<rparr>"

fun get_all_types ::
  "op_type list \<Rightarrow> ('o, 'w, 'q, 't, 'a) select_reactor \<Rightarrow> 'o list \<Rightarrow> (('o, 'w, 'q, 't, 'a) select_reactor \<times> 'o list) option" where
  "get_all_types [] r ops = Some (r, ops)"
| "get_all_types (ty # tys) r ops =
     do {(h1, ops1) \<leftarrow> get_all_operations (s_queue r ty) ops;
         get_all_types tys (r\<lparr>s_queue := (s_queue r)(ty := h1)\<rparr>) ops1}"

text \<open>The operations that \<open>shutdown\<close> hands to \<open>abandon_operations\<close>, which destroys them.\<close>

definition sel_shutdown ::
  "('o, 'w, 'q, 't::linorder, 'a) select_reactor \<Rightarrow> (('o, 'w, 'q, 't, 'a) select_reactor \<times> 'o list) option" where
  "sel_shutdown r =
     do {(r1, ops) \<leftarrow> get_all_types [ReadOp, WriteOp, ExceptOp] (r\<lparr>s_shutdown := True\<rparr>) [];
         (queue_at, ops1) \<leftarrow> tqs_get_all (s_timer_queues r1) (s_timer_at r1) ops;
         Some (r1\<lparr>s_timer_at := queue_at\<rparr>, snd (abandon_operations ops1))}"

definition sel_notify_fork :: "'w interrupter \<Rightarrow> bool \<Rightarrow> ('o, 'w, 'q, 't, 'a) select_reactor \<Rightarrow> ('o, 'w, 'q, 't, 'a) select_reactor" where
  "sel_notify_fork it is_child r = (if is_child then r\<lparr>s_kernel := i_recreate it (s_kernel r)\<rparr> else r)"

end
