(* ===== verification/SelectProps.thy ===== *)
theory SelectProps
  imports SelectReactor EpollRun "HOL-Library.Multiset"
begin

text \<open>
  What the select reactor promises: \<open>select\<close> is asked for exactly the descriptors with pending operations,
  what it reports is performed from the front of the queues with exceptional operations first, and
  operations are neither lost nor duplicated.
\<close>

section \<open>The descriptors of a queue\<close>

definition fds_of :: "'o roq \<Rightarrow> int list" where
  "fds_of h = map (hm_key h) (hm_values h)"

lemma fds_of_props:
  assumes "roq_inv h"
  shows "distinct (fds_of h)" "set (fds_of h) = {d. fd_queue h d \<noteq> []}" "queued h = concat (map (fd_queue h) (fds_of h))"
proof -
  note inv = roq_invD(1) [OF assms]
  show "distinct (fds_of h)"
    using hm_invD(2,5) [OF inv] by (simp add: fds_of_def distinct_map)
  have "fd_queue h d \<noteq> [] \<longleftrightarrow> d \<in> hm_key h ` set (hm_values h)" for d
    using fd_queue_none [OF assms, of d] by (auto simp: hm_map_None)
  then show "set (fds_of h) = {d. fd_queue h d \<noteq> []}"
    by (auto simp: fds_of_def)
  have "map (node_queue h) (hm_values h) = map (fd_queue h) (fds_of h)"
    using fd_queue_node(1) [OF assms] by (simp add: fds_of_def)
  then show "queued h = concat (map (fd_queue h) (fds_of h))"
    unfolding queued_def by simp
qed

text \<open>One round of a loop over the descriptors: the rest of the list, and what is known of it.\<close>

lemma round:
  assumes "roq_inv h" and "hm_values h = A @ x # rest"
  shows "x \<in> set (hm_values h)" "list_next (hm_values h) (Some x) = Some (list_begin rest)" "x \<notin> set rest" "x \<notin> set A"
    "remove1 x (hm_values h) = A @ rest" "\<forall>y\<in>set rest. hm_key h y \<noteq> hm_key h x" "node_queue h x = fd_queue h (hm_key h x)"
proof -
  have d: "distinct (A @ x # rest)"
    using hm_invD(2) [OF roq_invD(1) [OF assms(1)]] assms(2) by simp
  show "x \<in> set (hm_values h)" by (simp add: assms(2))
  then show "node_queue h x = fd_queue h (hm_key h x)"
    using fd_queue_node(1) [OF assms(1)] by simp
  show "list_next (hm_values h) (Some x) = Some (list_begin rest)"
    using list_next_split [OF d] assms(2) by simp
  show "x \<notin> set rest" "x \<notin> set A" using d by simp_all
  show "remove1 x (hm_values h) = A @ rest"
    using d by (simp add: assms(2) remove1_append)
  show "\<forall>y\<in>set rest. hm_key h y \<noteq> hm_key h x"
    using hm_invD(5) [OF roq_invD(1) [OF assms(1)]] d unfolding assms(2) inj_on_def by auto
qed

lemma keys_cong: "\<forall>y. y \<noteq> x \<longrightarrow> hm_node h1 y = hm_node h y \<Longrightarrow> x \<notin> set ys \<Longrightarrow> map (hm_key h1) ys = map (hm_key h) ys"
  by (auto simp: hm_key_def)

section \<open>Filling the sets\<close>

definition too_big :: "'o roq \<Rightarrow> int list \<Rightarrow> 'o list" where
  "too_big h ds = concat (map (fd_queue h) (filter (\<lambda>d. FD_SETSIZE \<le> d) ds))"

lemma max_descriptor_set:
  assumes "fda_set d a = (a1, True)" and "0 \<le> d"
  shows "fd_bits a1 = insert d (fd_bits a)" "d \<le> max_descriptor a1" "max_descriptor a \<le> max_descriptor a1"
  using assms by (auto simp: fda_set_def split: if_splits)

lemma fda_set_loop_correct:
  assumes "roq_inv h" and "hm_values h = A @ rest" and "\<forall>d\<in>set (map (hm_key h) rest). 0 \<le> d"
  shows "\<exists>h1 a1. fda_set_loop (list_begin rest) h ecs ops a =
      Some (h1, (\<lambda>y. if y \<in> set (too_big h (map (hm_key h) rest)) then misc_ec fd_set_failure else ecs y), ops @ too_big h (map (hm_key h) rest), a1) \<and>
    roq_inv h1 \<and> (\<forall>d. fd_queue h1 d = (if d \<in> set (map (hm_key h) rest) \<and> FD_SETSIZE \<le> d then [] else fd_queue h d)) \<and>
    fd_bits a1 = fd_bits a \<union> {d \<in> set (map (hm_key h) rest). d < FD_SETSIZE} \<and>
    max_descriptor a \<le> max_descriptor a1 \<and> (\<forall>d\<in>set (map (hm_key h) rest). d < FD_SETSIZE \<longrightarrow> d \<le> max_descriptor a1)"
  using assms
proof (induction rest arbitrary: A h ecs ops a)
  case Nil
  then show ?case
    by (simp add: fda_set_loop.simps too_big_def)
next
  case (Cons x rest)
  note r = round [OF Cons.prems(1,2)]
  let ?d = "hm_key h x"
  have pos: "0 \<le> ?d" "\<forall>d\<in>set (map (hm_key h) rest). 0 \<le> d"
    using Cons.prems(3) by simp_all
  show ?case
  proof (cases "?d < FD_SETSIZE")
    case True
    then obtain a1 where a1: "fda_set ?d a = (a1, True)"
      by (simp add: fda_set_def)
    from Cons.IH [of h "A @ [x]" ecs ops a1] Cons.prems(1,2) pos(2)
    obtain h2 a2 where ih: "fda_set_loop (list_begin rest) h ecs ops a1 =
        Some (h2, (\<lambda>y. if y \<in> set (too_big h (map (hm_key h) rest)) then misc_ec fd_set_failure else ecs y), ops @ too_big h (map (hm_key h) rest), a2)"
      "roq_inv h2" "\<forall>d. fd_queue h2 d = (if d \<in> set (map (hm_key h) rest) \<and> FD_SETSIZE \<le> d then [] else fd_queue h d)"
      "fd_bits a2 = fd_bits a1 \<union> {d \<in> set (map (hm_key h) rest). d < FD_SETSIZE}"
      "max_descriptor a1 \<le> max_descriptor a2" "\<forall>d\<in>set (map (hm_key h) rest). d < FD_SETSIZE \<longrightarrow> d \<le> max_descriptor a2"
      by auto
    have same: "too_big h (map (hm_key h) (x # rest)) = too_big h (map (hm_key h) rest)"
      using True by (simp add: too_big_def)
    have "fda_set_loop (list_begin (x # rest)) h ecs ops a = fda_set_loop (list_begin rest) h ecs ops a1"
      by (simp add: fda_set_loop.simps [of "Some x"] r(2) a1)
    then show ?thesis
      using ih max_descriptor_set [OF a1 pos(1)] True unfolding same
      by (intro exI [of _ h2] exI [of _ a2]) auto
  next
    case False
    then have a1: "fda_set ?d a = (a, False)"
      by (simp add: fda_set_def)
    obtain h1 where h1: "cancel_operations_at (Some x) (misc_ec fd_set_failure) h ecs ops =
        Some (h1, (\<lambda>y. if y \<in> set (node_queue h x) then misc_ec fd_set_failure else ecs y), ops @ node_queue h x, True)" "roq_inv h1"
      "fd_queue h1 = (fd_queue h)(?d := [])" "hm_values h1 = remove1 x (hm_values h)" "\<forall>y. y \<noteq> x \<longrightarrow> hm_node h1 y = hm_node h y"
      using cancel_at_correct [OF Cons.prems(1) r(1)] .
    have keys: "map (hm_key h1) rest = map (hm_key h) rest"
      using keys_cong [OF h1(5) r(3)] .
    have q: "too_big h1 (map (hm_key h) rest) = too_big h (map (hm_key h) rest)"
      using r(6) unfolding too_big_def h1(3) by (intro arg_cong [of _ _ concat] map_cong) auto
    let ?ecs = "\<lambda>y. if y \<in> set (node_queue h x) then misc_ec fd_set_failure else ecs y"
    from Cons.IH [of h1 A ?ecs "ops @ node_queue h x" a] h1(2,4) r(5) pos(2)
    obtain h2 a2 where ih: "fda_set_loop (list_begin rest) h1 ?ecs (ops @ node_queue h x) a =
        Some (h2, (\<lambda>y. if y \<in> set (too_big h (map (hm_key h) rest)) then misc_ec fd_set_failure else ?ecs y),
          (ops @ node_queue h x) @ too_big h (map (hm_key h) rest), a2)"
      "roq_inv h2" "\<forall>d. fd_queue h2 d = (if d \<in> set (map (hm_key h) rest) \<and> FD_SETSIZE \<le> d then [] else fd_queue h1 d)"
      "fd_bits a2 = fd_bits a \<union> {d \<in> set (map (hm_key h) rest). d < FD_SETSIZE}"
      "max_descriptor a \<le> max_descriptor a2" "\<forall>d\<in>set (map (hm_key h) rest). d < FD_SETSIZE \<longrightarrow> d \<le> max_descriptor a2"
      unfolding keys q by auto
    have same: "too_big h (map (hm_key h) (x # rest)) = node_queue h x @ too_big h (map (hm_key h) rest)"
      using False by (simp add: too_big_def r(7))
    have "fda_set_loop (list_begin (x # rest)) h ecs ops a = fda_set_loop (list_begin rest) h1 ?ecs (ops @ node_queue h x) a"
      by (simp add: fda_set_loop.simps [of "Some x"] r(2) a1 h1(1))
    then have "fda_set_loop (list_begin (x # rest)) h ecs ops a =
        Some (h2, (\<lambda>y. if y \<in> set (too_big h (map (hm_key h) (x # rest))) then misc_ec fd_set_failure else ecs y),
          ops @ too_big h (map (hm_key h) (x # rest)), a2)"
      unfolding ih(1) same by (auto simp: fun_eq_iff)
    then show ?thesis
      using ih(2-) False h1(3) by (intro exI [of _ h2] exI [of _ a2]) auto
  qed
qed

lemma fda_set_queue_correct:
  assumes "roq_inv h" and "\<forall>d. fd_queue h d \<noteq> [] \<longrightarrow> 0 \<le> d"
  obtains h1 a1 where "fda_set_queue h ecs ops a =
      Some (h1, (\<lambda>y. if y \<in> set (too_big h (fds_of h)) then misc_ec fd_set_failure else ecs y), ops @ too_big h (fds_of h), a1)"
    "roq_inv h1" "\<forall>d. fd_queue h1 d = (if FD_SETSIZE \<le> d then [] else fd_queue h d)" "fd_bits a1 = fd_bits a \<union> {d. fd_queue h1 d \<noteq> []}"
    "max_descriptor a \<le> max_descriptor a1" "\<forall>d. fd_queue h1 d \<noteq> [] \<longrightarrow> d \<le> max_descriptor a1"
proof -
  obtain h1 a1 where "fda_set_loop (list_begin (hm_values h)) h ecs ops a =
      Some (h1, (\<lambda>y. if y \<in> set (too_big h (fds_of h)) then misc_ec fd_set_failure else ecs y), ops @ too_big h (fds_of h), a1)"
    "roq_inv h1" and q: "\<forall>d. fd_queue h1 d = (if d \<in> {d. fd_queue h d \<noteq> []} \<and> FD_SETSIZE \<le> d then [] else fd_queue h d)"
    and b: "fd_bits a1 = fd_bits a \<union> {d \<in> {d. fd_queue h d \<noteq> []}. d < FD_SETSIZE}" "max_descriptor a \<le> max_descriptor a1"
    "\<forall>d\<in>{d. fd_queue h d \<noteq> []}. d < FD_SETSIZE \<longrightarrow> d \<le> max_descriptor a1"
    using fda_set_loop_correct [OF assms(1), of "[]" "hm_values h" ecs ops a, folded fds_of_def] assms(2)
    unfolding fds_of_props(2) [OF assms(1)] by auto
  moreover have q1: "\<forall>d. fd_queue h1 d = (if FD_SETSIZE \<le> d then [] else fd_queue h d)"
    using q by auto
  moreover have "fd_bits a1 = fd_bits a \<union> {d. fd_queue h1 d \<noteq> []}" "\<forall>d. fd_queue h1 d \<noteq> [] \<longrightarrow> d \<le> max_descriptor a1"
    using b q1 by (auto simp: not_le)
  ultimately show ?thesis
    using that by (simp add: fda_set_queue_def)
qed

section \<open>Performing\<close>

text \<open>
  The ready descriptors' turns, one after another: of each queue the first \<open>n d\<close> operations are
  performed and done, and the next one, if there is one, is attempted and not done; the kernel's
  state and the codes go from one turn to the next.
\<close>

fun turns ::
  "('o, 'w) performer \<Rightarrow> (int \<Rightarrow> 'o list) \<Rightarrow> (int \<Rightarrow> nat) \<Rightarrow> int list \<Rightarrow>
   'w \<times> ('o \<Rightarrow> error_code) \<Rightarrow> 'w \<times> ('o \<Rightarrow> error_code) \<Rightarrow> bool" where
  "turns perform q n [] s s' \<longleftrightarrow> s' = s"
| "turns perform q n (d # ds) s s' \<longleftrightarrow> performed_from perform (q d) (n d) s \<and>
     turns perform q n ds (attempts perform (take (Suc (n d)) (q d)) s) s'"

text \<open>What a round over the descriptors \<open>ds\<close> of a queue does.\<close>

definition round_done ::
  "('o, 'w) performer \<Rightarrow> int set \<Rightarrow> int list \<Rightarrow> (int \<Rightarrow> 'o list) \<Rightarrow> (int \<Rightarrow> nat) \<Rightarrow>
   'w \<times> ('o \<Rightarrow> error_code) \<Rightarrow> 'w \<times> ('o \<Rightarrow> error_code) \<Rightarrow> bool" where
  "round_done perform ready ds q n s s' \<longleftrightarrow>
     (\<forall>d. d \<notin> ready \<or> d \<notin> set ds \<longrightarrow> n d = 0) \<and> turns perform q n (filter (\<lambda>d. d \<in> ready) ds) s s'"

lemma turns_cong:
  "\<forall>d \<in> set ds. q1 d = q2 d \<and> n1 d = n2 d \<Longrightarrow> turns perform q1 n1 ds s s' = turns perform q2 n2 ds s s'"
  by (induction ds arbitrary: s) auto

lemma fda_perform_loop_correct:
  assumes "roq_inv h" and "hm_values h = A @ rest"
  shows "\<exists>h1 w1 ecs1 n. fda_perform_loop perform a (list_begin rest) h w ecs ops =
      Some (h1, w1, ecs1, ops @ concat (map (\<lambda>d. take (n d) (fd_queue h d)) (map (hm_key h) rest))) \<and> roq_inv h1 \<and>
    round_done perform (fd_bits a) (map (hm_key h) rest) (fd_queue h) n (w, ecs) (w1, ecs1) \<and>
    (\<forall>d. fd_queue h1 d = drop (n d) (fd_queue h d))"
  using assms
proof (induction rest arbitrary: A h w ecs ops)
  case Nil
  then show ?case
    by (intro exI [of _ h] exI [of _ w] exI [of _ ecs] exI [of _ "\<lambda>_. 0"]) (simp add: fda_perform_loop.simps round_done_def)
next
  case (Cons x rest)
  note r = round [OF Cons.prems]
  let ?d = "hm_key h x"
  show ?case
  proof (cases "?d \<in> fd_bits a")
    case False
    from Cons.IH [of h "A @ [x]" w ecs ops] Cons.prems
    obtain h2 w2 ecs2 n where ih: "fda_perform_loop perform a (list_begin rest) h w ecs ops =
        Some (h2, w2, ecs2, ops @ concat (map (\<lambda>d. take (n d) (fd_queue h d)) (map (hm_key h) rest)))" "roq_inv h2"
      "round_done perform (fd_bits a) (map (hm_key h) rest) (fd_queue h) n (w, ecs) (w2, ecs2)" "\<forall>d. fd_queue h2 d = drop (n d) (fd_queue h d)"
      by auto
    have "n ?d = 0" "round_done perform (fd_bits a) (map (hm_key h) (x # rest)) (fd_queue h) n (w, ecs) (w2, ecs2)"
      using ih(3) False by (auto simp: round_done_def)
    moreover have "fda_perform_loop perform a (list_begin (x # rest)) h w ecs ops = fda_perform_loop perform a (list_begin rest) h w ecs ops"
      using False by (simp add: fda_perform_loop.simps [of _ _ "Some x"] r(2) fda_is_set_def)
    ultimately show ?thesis
      using ih by (intro exI [of _ h2] exI [of _ w2] exI [of _ ecs2] exI [of _ n]) simp
  next
    case True
    obtain h1 w1 ecs1 m where p: "perform_operations_at perform (Some x) h w ecs ops =
        Some (h1, w1, ecs1, ops @ take m (node_queue h x), m < length (node_queue h x))" "roq_inv h1"
      "performed_from perform (node_queue h x) m (w, ecs)" "(w1, ecs1) = attempts perform (take (Suc m) (node_queue h x)) (w, ecs)"
      "fd_queue h1 = (fd_queue h)(?d := drop m (node_queue h x))"
      "hm_values h1 = (if m < length (node_queue h x) then hm_values h else remove1 x (hm_values h))" "\<forall>y. y \<noteq> x \<longrightarrow> hm_node h1 y = hm_node h y"
      using perform_at_correct [OF Cons.prems(1) r(1)] .
    have v: "\<exists>A1. hm_values h1 = A1 @ rest"
      using p(6) r(5) Cons.prems(2) by (cases "m < length (node_queue h x)") (auto intro: exI [of _ "A @ [x]"])
    have keys: "map (hm_key h1) rest = map (hm_key h) rest"
      using keys_cong [OF p(7) r(3)] .
    have q: "fd_queue h1 d = fd_queue h d" if "d \<in> set (map (hm_key h) rest)" for d
      using r(6) that by (auto simp: p(5))
    from Cons.IH [OF p(2), of _ w1 ecs1 "ops @ take m (node_queue h x)"] v
    obtain h2 w2 ecs2 n where ih: "fda_perform_loop perform a (list_begin rest) h1 w1 ecs1 (ops @ take m (node_queue h x)) =
        Some (h2, w2, ecs2, (ops @ take m (node_queue h x)) @ concat (map (\<lambda>d. take (n d) (fd_queue h1 d)) (map (hm_key h) rest)))" "roq_inv h2"
      "round_done perform (fd_bits a) (map (hm_key h) rest) (fd_queue h1) n (w1, ecs1) (w2, ecs2)" "\<forall>d. fd_queue h2 d = drop (n d) (fd_queue h1 d)"
      unfolding keys by blast
    let ?n = "n(?d := m)"
    have nd: "?d \<notin> set (map (hm_key h) rest)"
      using r(6) by auto
    then have n0: "n ?d = 0"
      using ih(3) by (auto simp: round_done_def)
    have c: "map (\<lambda>d. take (n d) (fd_queue h1 d)) (map (hm_key h) rest) = map (\<lambda>d. take (?n d) (fd_queue h d)) (map (hm_key h) rest)"
      using q r(6) by (intro map_cong) auto
    have loop: "fda_perform_loop perform a (list_begin (x # rest)) h w ecs ops =
        Some (h2, w2, ecs2, ops @ concat (map (\<lambda>d. take (?n d) (fd_queue h d)) (map (hm_key h) (x # rest))))"
      using True ih(1) r(7) unfolding c by (simp add: fda_perform_loop.simps [of _ _ "Some x"] r(2) fda_is_set_def p(1))
    have "turns perform (fd_queue h1) n (filter (\<lambda>d. d \<in> fd_bits a) (map (hm_key h) rest)) (w1, ecs1) (w2, ecs2)"
      using ih(3) by (simp add: round_done_def)
    then have "turns perform (fd_queue h) ?n (filter (\<lambda>d. d \<in> fd_bits a) (map (hm_key h) rest)) (w1, ecs1) (w2, ecs2)"
      by (subst turns_cong [of _ "fd_queue h" "fd_queue h1" ?n n]) (use q r(6) in auto)
    then have rd: "round_done perform (fd_bits a) (map (hm_key h) (x # rest)) (fd_queue h) ?n (w, ecs) (w2, ecs2)"
      using True p(3,4) r(7) ih(3) by (auto simp: round_done_def)
    have "\<forall>d. fd_queue h2 d = drop (?n d) (fd_queue h d)"
      using ih(4) n0 r(7) by (auto simp: p(5))
    then show ?thesis
      using loop rd ih(2) by (intro exI [of _ h2] exI [of _ w2] exI [of _ ecs2] exI [of _ ?n]) blast
  qed
qed

section \<open>The reactor\<close>

definition sq :: "('o, 'w, 'q, 't, 'a) select_reactor \<Rightarrow> op_type \<Rightarrow> int \<Rightarrow> 'o list" where
  "sq r ty d = fd_queue (s_queue r ty) d"

definition sel_inv :: "('o, 'w, 'q, 't, 'a) select_reactor \<Rightarrow> bool" where
  "sel_inv r \<longleftrightarrow> (\<forall>ty. roq_inv (s_queue r ty) \<and> (\<forall>d. sq r ty d \<noteq> [] \<longrightarrow> 0 \<le> d))"

lemma sel_invD: "sel_inv r \<Longrightarrow> roq_inv (s_queue r ty)" "sel_inv r \<Longrightarrow> sq r ty d \<noteq> [] \<Longrightarrow> 0 \<le> d"
  by (auto simp: sel_inv_def)

lemma sel_inv_shrink:
  "sel_inv r \<Longrightarrow> \<forall>ty. roq_inv (s_queue r1 ty) \<Longrightarrow> \<forall>ty d. sq r ty d = [] \<longrightarrow> sq r1 ty d = [] \<Longrightarrow> sel_inv r1"
  unfolding sel_inv_def by metis

lemma sq_eq: "sq r ty = fd_queue (s_queue r ty)"
  by (simp add: sq_def fun_eq_iff)

text \<open>The operations on descriptors that do not fit into a set.\<close>

definition unwatchable :: "('o, 'w, 'q, 't, 'a) select_reactor \<Rightarrow> op_type \<Rightarrow> 'o list" where
  "unwatchable r ty = too_big (s_queue r ty) (fds_of (s_queue r ty))"

lemma roq_empty_iff: "roq_inv h \<Longrightarrow> roq_empty h \<longleftrightarrow> (\<forall>d. fd_queue h d = [])"
  using fds_of_props(2) [of h] by (auto simp: roq_empty_def hm_empty_def fds_of_def)

lemma fill_sets_correct:
  assumes "distinct tys" and "sel_inv r"
  shows "\<exists>qs ecs sets m1. fill_sets tys r ops m hw =
      Some (r\<lparr>s_queue := qs, s_op_ec := ecs, s_fd_sets := sets\<rparr>, ops @ concat (map (unwatchable r) tys), m1,
        hw \<or> (\<exists>ty\<in>set tys. \<exists>d. sq r ty d \<noteq> [])) \<and>
    (\<forall>ty. roq_inv (qs ty) \<and> (\<forall>d. fd_queue (qs ty) d = (if ty \<in> set tys \<and> FD_SETSIZE \<le> d then [] else sq r ty d))) \<and>
    (\<forall>y. ecs y = (if y \<in> set (concat (map (unwatchable r) tys)) then misc_ec fd_set_failure else s_op_ec r y)) \<and>
    (\<forall>ty. ty \<notin> set tys \<longrightarrow> sets ty = s_fd_sets r ty) \<and> m \<le> m1 \<and>
    (\<forall>ty\<in>set tys. fd_bits (sets ty) = fd_bits (s_fd_sets r ty) \<union> {d. fd_queue (qs ty) d \<noteq> []} \<and>
       max_descriptor (s_fd_sets r ty) \<le> m1 \<and> (\<forall>d. fd_queue (qs ty) d \<noteq> [] \<longrightarrow> d \<le> m1))"
  using assms
proof (induction tys arbitrary: r ops m hw)
  case Nil
  then show ?case
    by (intro exI [of _ "s_queue r"] exI [of _ "s_op_ec r"] exI [of _ "s_fd_sets r"] exI [of _ m]) (simp add: sel_inv_def sq_def)
next
  case (Cons ty tys)
  obtain h1 a1 where f: "fda_set_queue (s_queue r ty) (s_op_ec r) ops (s_fd_sets r ty) =
      Some (h1, (\<lambda>y. if y \<in> set (unwatchable r ty) then misc_ec fd_set_failure else s_op_ec r y), ops @ unwatchable r ty, a1)"
    "roq_inv h1" "\<forall>d. fd_queue h1 d = (if FD_SETSIZE \<le> d then [] else sq r ty d)" "fd_bits a1 = fd_bits (s_fd_sets r ty) \<union> {d. fd_queue h1 d \<noteq> []}"
    "max_descriptor (s_fd_sets r ty) \<le> max_descriptor a1" "\<forall>d. fd_queue h1 d \<noteq> [] \<longrightarrow> d \<le> max_descriptor a1"
    using fda_set_queue_correct [OF sel_invD(1) [OF Cons.prems(2)], of ty "s_op_ec r" ops "s_fd_sets r ty"] sel_invD(2) [OF Cons.prems(2), of ty]
    unfolding unwatchable_def sq_def by blast
  let ?ecs = "\<lambda>y. if y \<in> set (unwatchable r ty) then misc_ec fd_set_failure else s_op_ec r y"
  let ?r = "r\<lparr>s_queue := (s_queue r)(ty := h1), s_op_ec := ?ecs, s_fd_sets := (s_fd_sets r)(ty := a1)\<rparr>"
  let ?m = "if max_descriptor a1 > m then max_descriptor a1 else m"
  let ?hw = "hw \<or> \<not> roq_empty (s_queue r ty)"
  have ty: "ty \<notin> set tys" "distinct tys"
    using Cons.prems(1) by simp_all
  have inv: "sel_inv ?r"
    using Cons.prems(2) f(2,3) by (auto simp: sel_inv_def sq_def)
  have sq: "sq ?r t d = sq r t d" "unwatchable ?r t = unwatchable r t" if "t \<in> set tys" for t d
    using that ty(1) by (auto simp: sq_def unwatchable_def)
  then have u: "map (unwatchable ?r) tys = map (unwatchable r) tys"
    by simp
  obtain qs ecs sets m1 where ih: "fill_sets tys ?r (ops @ unwatchable r ty) ?m ?hw =
      Some (?r\<lparr>s_queue := qs, s_op_ec := ecs, s_fd_sets := sets\<rparr>, (ops @ unwatchable r ty) @ concat (map (unwatchable r) tys), m1,
        ?hw \<or> (\<exists>t\<in>set tys. \<exists>d. sq ?r t d \<noteq> []))"
    and q: "\<forall>t. roq_inv (qs t) \<and> (\<forall>d. fd_queue (qs t) d = (if t \<in> set tys \<and> FD_SETSIZE \<le> d then [] else sq ?r t d))"
    and e: "\<forall>y. ecs y = (if y \<in> set (concat (map (unwatchable r) tys)) then misc_ec fd_set_failure else ?ecs y)"
    and s: "\<forall>t. t \<notin> set tys \<longrightarrow> sets t = ((s_fd_sets r)(ty := a1)) t" and m: "?m \<le> m1"
    and b: "\<forall>t\<in>set tys. fd_bits (sets t) = fd_bits (s_fd_sets ?r t) \<union> {d. fd_queue (qs t) d \<noteq> []} \<and>
       max_descriptor (s_fd_sets ?r t) \<le> m1 \<and> (\<forall>d. fd_queue (qs t) d \<noteq> [] \<longrightarrow> d \<le> m1)"
    using Cons.IH [OF ty(2) inv, of "ops @ unwatchable r ty" ?m ?hw, unfolded u] by auto
  have fill: "fill_sets (ty # tys) r ops m hw =
      Some (r\<lparr>s_queue := qs, s_op_ec := ecs, s_fd_sets := sets\<rparr>, ops @ concat (map (unwatchable r) (ty # tys)), m1,
        hw \<or> (\<exists>t\<in>set (ty # tys). \<exists>d. sq r t d \<noteq> []))"
    using ih f(1) sq(1) roq_empty_iff [OF sel_invD(1) [OF Cons.prems(2)], of ty] by (auto simp: Let_def sq_def)
  have "\<forall>t. roq_inv (qs t) \<and> (\<forall>d. fd_queue (qs t) d = (if t \<in> set (ty # tys) \<and> FD_SETSIZE \<le> d then [] else sq r t d))"
    using q f(3) ty(1) by (auto simp: sq_def)
  moreover have "\<forall>y. ecs y = (if y \<in> set (concat (map (unwatchable r) (ty # tys))) then misc_ec fd_set_failure else s_op_ec r y)"
    using e by auto
  moreover have "\<forall>t. t \<notin> set (ty # tys) \<longrightarrow> sets t = s_fd_sets r t" "m \<le> m1"
    using s m by (auto split: if_splits)
  moreover have "fd_bits (sets t) = fd_bits (s_fd_sets r t) \<union> {d. fd_queue (qs t) d \<noteq> []} \<and>
       max_descriptor (s_fd_sets r t) \<le> m1 \<and> (\<forall>d. fd_queue (qs t) d \<noteq> [] \<longrightarrow> d \<le> m1)" if "t \<in> set (ty # tys)" for t
  proof (cases "t = ty")
    case True
    have "fd_queue (qs ty) = fd_queue h1" "max_descriptor a1 \<le> m1"
      using q ty(1) m by (auto simp: sq_def fun_eq_iff split: if_splits)
    then show ?thesis
      using True s ty(1) f(4-6) by auto
  next
    case False
    then show ?thesis
      using that b ty(1) by auto
  qed
  ultimately show ?case
    using fill by blast
qed

lemma op_types: "set [ReadOp, WriteOp, ExceptOp] = UNIV"
  using op_type.exhaust by auto

text \<open>The sets after the interrupter was entered, and the rest of the first half once they are filled.\<close>

definition sets_with_interrupter :: "'w interrupter \<Rightarrow> ('o, 'w, 'q, 't, 'a) select_reactor \<Rightarrow> ('o, 'w, 'q, 't, 'a) select_reactor" where
  "sets_with_interrupter it r =
     r\<lparr>s_fd_sets := (\<lambda>ty. fda_reset (s_fd_sets r ty))(ReadOp := fst (fda_set (i_descriptor it) (fda_reset (s_fd_sets r ReadOp))))\<rparr>"

lemma select_begin_filled:
  assumes "fill_sets [ReadOp, WriteOp, ExceptOp] (sets_with_interrupter it r) ops 0 (\<not> tqs_all_empty (s_timer_at r) (s_timer_queues r)) =
      Some (r1, ops1, m1, work)"
  shows "select_begin it wait_usec usec ops r = Some (r1, ops1, if usec = 0 \<and> \<not> work then None
      else Some (m1 + 1, if usec \<noteq> 0 then get_timeout_tv (\<lambda>q. wait_usec q (s_timer_at r1 q)) (s_timer_queues r1) usec else (0, 0)))"
proof -
  have "select_begin it wait_usec usec ops r =
      do {(r3, ops1, max_fd, have_work) \<leftarrow> fill_sets [ReadOp, WriteOp, ExceptOp] (sets_with_interrupter it r) ops 0 (\<not> tqs_all_empty (s_timer_at r) (s_timer_queues r));
        Some (r3, ops1, if usec = 0 \<and> \<not> have_work then None
          else Some (max_fd + 1, if usec \<noteq> 0 then get_timeout_tv (\<lambda>q. wait_usec q (s_timer_at r3 q)) (s_timer_queues r3) usec else (0, 0)))}"
    by (simp add: select_begin_def Let_def sets_with_interrupter_def del: fill_sets.simps)
  with assms show ?thesis by simp
qed

lemma sets_with_interrupter_same:
  "sq (sets_with_interrupter it r) = sq r" "unwatchable (sets_with_interrupter it r) = unwatchable r" "sel_inv (sets_with_interrupter it r) = sel_inv r"
  by (simp_all add: sets_with_interrupter_def sq_def fun_eq_iff unwatchable_def sel_inv_def)

text \<open>C25. The first half of \<open>select_reactor::run\<close> asks \<open>select\<close> for exactly what the pending operations wait for:
  each set has the descriptors with operations of its type, and the interrupter's in the read set, all
  below the number passed. Operations on descriptors of 1024 and more do not fit into a set: they
  complete with \<open>fd_set_failure\<close>. It does nothing only when it may not block and nothing waits.\<close>

theorem select_watches:
  assumes "sel_inv r" and "0 \<le> i_descriptor it"
  shows "\<exists>r1 call. select_begin it wait_usec usec ops r =
      Some (r1, ops @ unwatchable r ReadOp @ unwatchable r WriteOp @ unwatchable r ExceptOp, call) \<and> sel_inv r1 \<and>
    (\<forall>ty d. sq r1 ty d = (if FD_SETSIZE \<le> d then [] else sq r ty d)) \<and>
    (\<forall>ty. \<forall>y\<in>set (unwatchable r ty). s_op_ec r1 y = misc_ec fd_set_failure) \<and>
    (\<forall>ty. fd_bits (s_fd_sets r1 ty) = {d. sq r1 ty d \<noteq> []} \<union>
       (if ty = ReadOp \<and> i_descriptor it < FD_SETSIZE then {i_descriptor it} else {})) \<and>
    (call = None \<longleftrightarrow> usec = 0 \<and> tqs_all_empty (s_timer_at r) (s_timer_queues r) \<and> (\<forall>ty d. sq r ty d = [])) \<and>
    (\<forall>nfds timeout. call = Some (nfds, timeout) \<longrightarrow> (\<forall>ty. \<forall>d\<in>fd_bits (s_fd_sets r1 ty). d < nfds))"
proof -
  let ?r2 = "sets_with_interrupter it r"
  have a: "fd_bits (s_fd_sets ?r2 ty) = (if ty = ReadOp \<and> i_descriptor it < FD_SETSIZE then {i_descriptor it} else {})"
    "i_descriptor it < FD_SETSIZE \<Longrightarrow> i_descriptor it \<le> max_descriptor (s_fd_sets ?r2 ReadOp)" for ty
    by (auto simp: sets_with_interrupter_def fda_set_def fda_reset_def)
  let ?tys = "[ReadOp, WriteOp, ExceptOp]"
  let ?hw = "\<not> tqs_all_empty (s_timer_at r) (s_timer_queues r)"
  obtain qs ecs sets m1 where f: "fill_sets ?tys ?r2 ops 0 ?hw =
      Some (?r2\<lparr>s_queue := qs, s_op_ec := ecs, s_fd_sets := sets\<rparr>, ops @ concat (map (unwatchable r) ?tys), m1,
        ?hw \<or> (\<exists>ty\<in>set ?tys. \<exists>d. sq r ty d \<noteq> []))"
    and q: "\<forall>ty. roq_inv (qs ty) \<and> (\<forall>d. fd_queue (qs ty) d = (if ty \<in> set ?tys \<and> FD_SETSIZE \<le> d then [] else sq r ty d))"
    and e: "\<forall>y. ecs y = (if y \<in> set (concat (map (unwatchable r) ?tys)) then misc_ec fd_set_failure else s_op_ec ?r2 y)"
    and b: "\<forall>ty\<in>set ?tys. fd_bits (sets ty) = fd_bits (s_fd_sets ?r2 ty) \<union> {d. fd_queue (qs ty) d \<noteq> []} \<and>
       max_descriptor (s_fd_sets ?r2 ty) \<le> m1 \<and> (\<forall>d. fd_queue (qs ty) d \<noteq> [] \<longrightarrow> d \<le> m1)"
    using fill_sets_correct [of ?tys ?r2 ops 0 ?hw, unfolded sets_with_interrupter_same] assms(1) by auto
  define r1 where "r1 = ?r2\<lparr>s_queue := qs, s_op_ec := ecs, s_fd_sets := sets\<rparr>"
  note q = q [unfolded op_types] and b = b [unfolded op_types]
  have sq: "sq r1 ty d = (if FD_SETSIZE \<le> d then [] else sq r ty d)" for ty d
    using q by (simp add: r1_def sq_def)
  have inv: "sel_inv r1"
    using q sq sel_invD(2) [OF assms(1)] by (auto simp: sel_inv_def r1_def)
  have bits: "fd_bits (s_fd_sets r1 ty) = {d. sq r1 ty d \<noteq> []} \<union> (if ty = ReadOp \<and> i_descriptor it < FD_SETSIZE then {i_descriptor it} else {})" for ty
    using b a(1) by (auto simp: r1_def sq_def)
  have small: "d < m1 + 1" if "d \<in> fd_bits (s_fd_sets r1 ty)" for d ty
  proof (cases "sq r1 ty d \<noteq> []")
    case True
    then show ?thesis using b by (auto simp: r1_def sq_def)
  next
    case False
    then have "ty = ReadOp" "d = i_descriptor it" "i_descriptor it < FD_SETSIZE"
      using that unfolding bits by (auto split: if_splits)
    moreover have "max_descriptor (s_fd_sets ?r2 ReadOp) \<le> m1"
      using b [rule_format, of ReadOp] by simp
    ultimately show ?thesis using a(2) by simp
  qed
  define call where "call = (if usec = 0 \<and> \<not> (?hw \<or> (\<exists>ty\<in>set ?tys. \<exists>d. sq r ty d \<noteq> [])) then None
      else Some (m1 + 1, if usec \<noteq> 0 then get_timeout_tv (\<lambda>q. wait_usec q (s_timer_at r1 q)) (s_timer_queues r1) usec else (0, 0)))"
  have "select_begin it wait_usec usec ops r = Some (r1, ops @ concat (map (unwatchable r) ?tys), call)"
    using select_begin_filled [OF f, folded r1_def] unfolding call_def .
  moreover have "\<forall>ty. \<forall>y\<in>set (unwatchable r ty). s_op_ec r1 y = misc_ec fd_set_failure"
    using e op_types by (auto simp: r1_def) (metis op_type.exhaust)
  moreover have "call = None \<longleftrightarrow> usec = 0 \<and> tqs_all_empty (s_timer_at r) (s_timer_queues r) \<and> (\<forall>ty d. sq r ty d = [])"
    unfolding call_def op_types by auto
  moreover have "\<forall>nfds timeout. call = Some (nfds, timeout) \<longrightarrow> (\<forall>ty. \<forall>d\<in>fd_bits (s_fd_sets r1 ty). d < nfds)"
    using small by (auto simp: call_def split: if_splits)
  ultimately show ?thesis
    using inv sq bits by (intro exI [of _ r1] exI [of _ call]) simp
qed

section \<open>Dispatching\<close>

text \<open>The operations of one type that a dispatch completes, in the order of the descriptors.\<close>

definition completed :: "('o, 'w, 'q, 't, 'a) select_reactor \<Rightarrow> (op_type \<Rightarrow> int \<Rightarrow> nat) \<Rightarrow> op_type \<Rightarrow> 'o list" where
  "completed r n ty = concat (map (\<lambda>d. take (n ty d) (sq r ty d)) (fds_of (s_queue r ty)))"

lemma fda_perform_correct:
  assumes "roq_inv h"
  obtains h1 w1 ecs1 n where "fda_perform perform a h w ecs ops =
      Some (h1, w1, ecs1, ops @ concat (map (\<lambda>d. take (n d) (fd_queue h d)) (fds_of h)))" "roq_inv h1"
    "round_done perform (fd_bits a) (fds_of h) (fd_queue h) n (w, ecs) (w1, ecs1)" "\<forall>d. fd_queue h1 d = drop (n d) (fd_queue h d)"
proof -
  have nil: "hm_values h = [] @ hm_values h"
    by simp
  obtain h1 w1 ecs1 n where l: "fda_perform_loop perform a (list_begin (hm_values h)) h w ecs ops =
      Some (h1, w1, ecs1, ops @ concat (map (\<lambda>d. take (n d) (fd_queue h d)) (fds_of h)))" "roq_inv h1"
    "round_done perform (fd_bits a) (fds_of h) (fd_queue h) n (w, ecs) (w1, ecs1)" "\<forall>d. fd_queue h1 d = drop (n d) (fd_queue h d)"
    using fda_perform_loop_correct [OF assms nil, of perform a w ecs ops, folded fds_of_def] by (elim exE conjE) (rule that, assumption+)
  then show ?thesis
    using that by (simp add: fda_perform_def)
qed

text \<open>The rounds over the queues of some types, one after another.\<close>

fun rounds_done ::
  "('o, 'w) performer \<Rightarrow> op_type list \<Rightarrow> ('o, 'w, 'q, 't, 'a) select_reactor \<Rightarrow> (op_type \<Rightarrow> int \<Rightarrow> nat) \<Rightarrow>
   'w \<times> ('o \<Rightarrow> error_code) \<Rightarrow> 'w \<times> ('o \<Rightarrow> error_code) \<Rightarrow> bool" where
  "rounds_done perform [] r n s s' \<longleftrightarrow> s' = s"
| "rounds_done perform (ty # tys) r n s s' \<longleftrightarrow>
     (\<exists>s1. round_done perform (fd_bits (s_fd_sets r ty)) (fds_of (s_queue r ty)) (sq r ty) (n ty) s s1 \<and>
           rounds_done perform tys r n s1 s')"

lemma rounds_done_cong:
  "\<forall>ty \<in> set tys. s_fd_sets r1 ty = s_fd_sets r2 ty \<and> s_queue r1 ty = s_queue r2 ty \<and> n1 ty = n2 ty \<Longrightarrow>
     rounds_done perform tys r1 n1 s s' = rounds_done perform tys r2 n2 s s'"
  by (induction tys arbitrary: s) (auto simp: sq_eq)

lemma perform_sets_correct:
  assumes "distinct tys" and "sel_inv r"
  shows "\<exists>qs w1 ecs n. perform_sets perform tys r ops =
      Some (r\<lparr>s_queue := qs, s_kernel := w1, s_op_ec := ecs\<rparr>, ops @ concat (map (completed r n) tys)) \<and>
    (\<forall>ty. roq_inv (qs ty) \<and> (\<forall>d. fd_queue (qs ty) d = drop (n ty d) (sq r ty d))) \<and>
    (\<forall>ty. ty \<notin> set tys \<longrightarrow> n ty = (\<lambda>_. 0)) \<and> rounds_done perform tys r n (s_kernel r, s_op_ec r) (w1, ecs)"
  using assms
proof (induction tys arbitrary: r ops)
  case Nil
  then show ?case
    by (intro exI [of _ "s_queue r"] exI [of _ "s_kernel r"] exI [of _ "s_op_ec r"] exI [of _ "\<lambda>_ _. 0"])
      (simp add: sel_inv_def sq_def)
next
  case (Cons ty tys)
  obtain h1 w1 ecs1 m where f: "fda_perform perform (s_fd_sets r ty) (s_queue r ty) (s_kernel r) (s_op_ec r) ops =
      Some (h1, w1, ecs1, ops @ concat (map (\<lambda>d. take (m d) (sq r ty d)) (fds_of (s_queue r ty))))" "roq_inv h1"
    "round_done perform (fd_bits (s_fd_sets r ty)) (fds_of (s_queue r ty)) (sq r ty) m (s_kernel r, s_op_ec r) (w1, ecs1)"
    "\<forall>d. fd_queue h1 d = drop (m d) (sq r ty d)"
    using fda_perform_correct [OF sel_invD(1) [OF Cons.prems(2)], of perform "s_fd_sets r ty" ty "s_kernel r" "s_op_ec r" ops]
    unfolding sq_eq .
  let ?r = "r\<lparr>s_queue := (s_queue r)(ty := h1), s_kernel := w1, s_op_ec := ecs1\<rparr>"
  have ty: "ty \<notin> set tys" "distinct tys"
    using Cons.prems(1) by simp_all
  have inv: "sel_inv ?r"
    by (rule sel_inv_shrink [OF Cons.prems(2)]) (use Cons.prems(2) f(2,4) in \<open>auto simp: sel_inv_def sq_def\<close>)
  obtain qs w2 ecs2 n where ih: "perform_sets perform tys ?r (ops @ concat (map (\<lambda>d. take (m d) (sq r ty d)) (fds_of (s_queue r ty)))) =
      Some (?r\<lparr>s_queue := qs, s_kernel := w2, s_op_ec := ecs2\<rparr>,
        (ops @ concat (map (\<lambda>d. take (m d) (sq r ty d)) (fds_of (s_queue r ty)))) @ concat (map (completed ?r n) tys))"
    and q: "\<forall>t. roq_inv (qs t) \<and> (\<forall>d. fd_queue (qs t) d = drop (n t d) (sq ?r t d))"
    and n0: "\<forall>t. t \<notin> set tys \<longrightarrow> n t = (\<lambda>_. 0)" and "rounds_done perform tys ?r n (s_kernel ?r, s_op_ec ?r) (w2, ecs2)"
    using Cons.IH [OF ty(2) inv] by blast
  then have rd: "rounds_done perform tys ?r n (w1, ecs1) (w2, ecs2)"
    by simp
  let ?n = "n(ty := m)"
  have sq: "sq ?r t = sq r t" if "t \<noteq> ty" for t
    using that by (simp add: sq_def fun_eq_iff)
  have c: "map (completed ?r n) tys = map (completed r ?n) tys"
    using ty(1) by (intro map_cong) (auto simp: completed_def sq_def)
  have "perform_sets perform (ty # tys) r ops =
      Some (r\<lparr>s_queue := qs, s_kernel := w2, s_op_ec := ecs2\<rparr>, ops @ concat (map (completed r ?n) (ty # tys)))"
    using f(1) ih unfolding c by (simp add: completed_def)
  moreover have "roq_inv (qs t) \<and> (\<forall>d. fd_queue (qs t) d = drop (?n t d) (sq r t d))" for t
    using q n0 ty(1) f(4) sq [of t] by (cases "t = ty") (auto simp: sq_def)
  moreover have "\<forall>t. t \<notin> set (ty # tys) \<longrightarrow> ?n t = (\<lambda>_. 0)"
    using n0 by auto
  moreover have "rounds_done perform tys r ?n (w1, ecs1) (w2, ecs2)"
    by (rule iffD1 [OF rounds_done_cong rd]) (use ty(1) in auto)
  then have "rounds_done perform (ty # tys) r ?n (s_kernel r, s_op_ec r) (w2, ecs2)"
    using f(3) by auto
  ultimately show ?case
    by blast
qed

text \<open>C26. The second half of \<open>select_reactor::run\<close>, after \<open>select\<close> returned with some descriptors ready: the
  ready descriptors' operations are performed, the exceptional ones before the writes before the
  reads and each queue from the front, each on the kernel's state that the one before has left; exactly
  those complete whose attempt says that they are done, up to the first of the queue that is not, every
  other operation stays queued, and then the expired timers follow.\<close>

theorem select_dispatches:
  assumes "sel_inv r" and "distinct (s_timer_queues r)" and "\<forall>q\<in>set (s_timer_queues r). tq_inv (s_timer_at r q)"
  shows "\<exists>r1 n es. select_end perform now retval ops r =
      Some (r1, ops @ completed r n ExceptOp @ completed r n WriteOp @ completed r n ReadOp @
        concat (map (\<lambda>q. concat (map (\<lambda>e. op_queue_of (s_timer_at r q) (snd e)) (es q))) (s_timer_queues r))) \<and>
    sel_inv r1 \<and> (\<forall>ty d. sq r1 ty d = drop (n ty d) (sq r ty d)) \<and>
    (if 0 < retval then rounds_done perform [ExceptOp, WriteOp, ReadOp] r n (s_kernel r, s_op_ec r) (s_kernel r1, s_op_ec r1)
     else n = (\<lambda>_ _. 0) \<and> s_kernel r1 = s_kernel r \<and> s_op_ec r1 = s_op_ec r) \<and>
    (\<forall>q\<in>set (s_timer_queues r). tq_inv (s_timer_at r1 q) \<and> ready_split (now q) (s_timer_at r q) (s_timer_at r1 q) (es q))"
proof -
  have "\<exists>qs w1 ecs n. (if retval > 0 then perform_sets perform [ExceptOp, WriteOp, ReadOp] r ops else Some (r, ops)) =
      Some (r\<lparr>s_queue := qs, s_kernel := w1, s_op_ec := ecs\<rparr>, ops @ completed r n ExceptOp @ completed r n WriteOp @ completed r n ReadOp) \<and>
    (\<forall>ty. roq_inv (qs ty) \<and> (\<forall>d. fd_queue (qs ty) d = drop (n ty d) (sq r ty d))) \<and>
    (if 0 < retval then rounds_done perform [ExceptOp, WriteOp, ReadOp] r n (s_kernel r, s_op_ec r) (w1, ecs)
     else n = (\<lambda>_ _. 0) \<and> w1 = s_kernel r \<and> ecs = s_op_ec r)"
  proof (cases "retval > 0")
    case True
    then show ?thesis
      using perform_sets_correct [of "[ExceptOp, WriteOp, ReadOp]" r perform ops] assms(1)
      by (simp del: perform_sets.simps rounds_done.simps) blast
  next
    case False
    then show ?thesis
      using assms(1) by (intro exI [of _ "s_queue r"] exI [of _ "s_kernel r"] exI [of _ "s_op_ec r"] exI [of _ "\<lambda>_ _. 0"])
        (simp add: completed_def sel_inv_def sq_def concat_eq_Nil_conv)
  qed
  then obtain qs w1 ecs n where p: "(if retval > 0 then perform_sets perform [ExceptOp, WriteOp, ReadOp] r ops else Some (r, ops)) =
      Some (r\<lparr>s_queue := qs, s_kernel := w1, s_op_ec := ecs\<rparr>, ops @ completed r n ExceptOp @ completed r n WriteOp @ completed r n ReadOp)"
    and q: "\<forall>ty. roq_inv (qs ty) \<and> (\<forall>d. fd_queue (qs ty) d = drop (n ty d) (sq r ty d))"
    and n: "(if 0 < retval then rounds_done perform [ExceptOp, WriteOp, ReadOp] r n (s_kernel r, s_op_ec r) (w1, ecs)
     else n = (\<lambda>_ _. 0) \<and> w1 = s_kernel r \<and> ecs = s_op_ec r)"
    by blast
  obtain at1 es where t: "tqs_get_ready now (s_timer_queues r) (s_timer_at r) (ops @ completed r n ExceptOp @ completed r n WriteOp @ completed r n ReadOp) =
      Some (at1, (ops @ completed r n ExceptOp @ completed r n WriteOp @ completed r n ReadOp) @
        concat (map (\<lambda>q. concat (map (\<lambda>e. op_queue_of (s_timer_at r q) (snd e)) (es q))) (s_timer_queues r)))"
    "\<forall>q\<in>set (s_timer_queues r). tq_inv (at1 q) \<and> ready_split (now q) (s_timer_at r q) (at1 q) (es q)"
    using tqs_get_ready_correct [OF assms(2,3)] by blast
  let ?r1 = "r\<lparr>s_queue := qs, s_kernel := w1, s_op_ec := ecs, s_timer_at := at1\<rparr>"
  have sq: "sq ?r1 ty d = drop (n ty d) (sq r ty d)" for ty d
    using q by (simp add: sq_def)
  have "sel_inv ?r1"
    by (rule sel_inv_shrink [OF assms(1)]) (use q in \<open>simp_all add: sq_def\<close>)
  moreover have "select_end perform now retval ops r = Some (?r1, ops @ completed r n ExceptOp @ completed r n WriteOp @ completed r n ReadOp @
        concat (map (\<lambda>q. concat (map (\<lambda>e. op_queue_of (s_timer_at r q) (snd e)) (es q))) (s_timer_queues r)))"
    using p t(1) by (simp add: select_end_def)
  ultimately show ?thesis
    using sq n t(2) by (intro exI [of _ ?r1] exI [of _ n] exI [of _ es]) (simp del: rounds_done.simps)
qed

section \<open>Starting and cancelling\<close>

fun ready_ops :: "'o item \<Rightarrow> 'o list" where
  "ready_ops TaskOp = []"
| "ready_ops (Op x) = [x]"

definition sel_posted :: "('o, 'w, 'q, 't, 'a) select_reactor \<Rightarrow> 'o multiset" where
  "sel_posted r = mset (concat (map ready_ops (ready_queue (s_sched r)))) +
     (case s_this r of None \<Rightarrow> {#} | Some ti \<Rightarrow> mset (private_op_queue ti))"

definition sel_work :: "('o, 'w, 'q, 't, 'a) select_reactor \<Rightarrow> int" where
  "sel_work r = outstanding_work (s_sched r) + (case s_this r of None \<Rightarrow> 0 | Some ti \<Rightarrow> private_outstanding_work ti)"

lemma ready_ops_map [simp]: "concat (map (ready_ops \<circ> Op) ops) = ops"
  by (induction ops) simp_all

lemma sel_calls [simp]:
  "sq (sel_post_immediate op c r) = sq r" "sel_inv (sel_post_immediate op c r) = sel_inv r" "s_kernel (sel_post_immediate op c r) = s_kernel r"
  "sel_posted (sel_post_immediate op c r) = add_mset op (sel_posted r)" "sel_work (sel_post_immediate op c r) = sel_work r + 1"
  "sq (sel_post_deferred ops r) = sq r" "sel_inv (sel_post_deferred ops r) = sel_inv r" "s_kernel (sel_post_deferred ops r) = s_kernel r"
  "sel_posted (sel_post_deferred ops r) = sel_posted r + mset ops" "sel_work (sel_post_deferred ops r) = sel_work r"
  "s_op_ec (sel_post_deferred ops r) = s_op_ec r"
  "sq (sel_work_started r) = sq r" "sel_inv (sel_work_started r) = sel_inv r" "s_kernel (sel_work_started r) = s_kernel r"
  "sel_posted (sel_work_started r) = sel_posted r" "sel_work (sel_work_started r) = sel_work r + 1"
  "sq (sel_interrupt it r) = sq r" "sel_inv (sel_interrupt it r) = sel_inv r" "s_kernel (sel_interrupt it r) = i_interrupt it (s_kernel r)"
  "sel_posted (sel_interrupt it r) = sel_posted r" "sel_work (sel_interrupt it r) = sel_work r" "s_op_ec (sel_interrupt it r) = s_op_ec r"
  by (simp_all add: sel_post_immediate_def sel_post_deferred_def sel_work_started_def sel_interrupt_def sel_sched_call_def
      post_immediate_completion_def post_deferred_completions_def work_started_def sel_posted_def sel_work_def sel_inv_def sq_def fun_eq_iff
      case_prod_unfold Let_def wake_one_frame split: option.split)

definition all_of :: "('o, 'w, 'q, 't, 'a) select_reactor \<Rightarrow> int \<Rightarrow> 'o list" where
  "all_of r d = sq r ReadOp d @ sq r WriteOp d @ sq r ExceptOp d"

lemma cancel_types_correct:
  assumes "distinct tys" and "sel_inv r"
  shows "\<exists>qs. cancel_types tys d ec r ops need =
      Some (r\<lparr>s_queue := qs, s_op_ec := (\<lambda>y. if y \<in> set (concat (map (\<lambda>ty. sq r ty d) tys)) then ec else s_op_ec r y)\<rparr>,
        ops @ concat (map (\<lambda>ty. sq r ty d) tys), need \<or> (\<exists>ty\<in>set tys. sq r ty d \<noteq> [])) \<and>
    (\<forall>ty. roq_inv (qs ty) \<and> fd_queue (qs ty) = (if ty \<in> set tys then (sq r ty)(d := []) else sq r ty))"
  using assms
proof (induction tys arbitrary: r ops need)
  case Nil
  then show ?case
    by (intro exI [of _ "s_queue r"]) (simp add: sel_inv_def sq_eq)
next
  case (Cons ty tys)
  obtain h1 where c: "cancel_operations d ec (s_queue r ty) (s_op_ec r) ops =
      Some (h1, (\<lambda>x. if x \<in> set (sq r ty d) then ec else s_op_ec r x), ops @ sq r ty d, sq r ty d \<noteq> [])"
    "roq_inv h1" "fd_queue h1 = (sq r ty)(d := [])"
    using cancel_operations_correct [OF sel_invD(1) [OF Cons.prems(2)], of d ec ty "s_op_ec r" ops] unfolding sq_eq by blast
  let ?ecs = "\<lambda>x. if x \<in> set (sq r ty d) then ec else s_op_ec r x"
  let ?r = "r\<lparr>s_queue := (s_queue r)(ty := h1), s_op_ec := ?ecs\<rparr>"
  have ty: "ty \<notin> set tys" "distinct tys"
    using Cons.prems(1) by simp_all
  have inv: "sel_inv ?r"
    by (rule sel_inv_shrink [OF Cons.prems(2)]) (use Cons.prems(2) c(2,3) in \<open>auto simp: sel_inv_def sq_eq\<close>)
  have sq: "sq ?r t = (if t = ty then (sq r ty)(d := []) else sq r t)" for t
    by (simp add: sq_eq c(3))
  have m: "map (\<lambda>t. sq ?r t d) tys = map (\<lambda>t. sq r t d) tys" "(\<exists>t\<in>set tys. sq ?r t d \<noteq> []) \<longleftrightarrow> (\<exists>t\<in>set tys. sq r t d \<noteq> [])"
    using ty(1) by (auto simp: sq)
  have oe: "s_op_ec ?r = ?ecs"
    by simp
  let ?ops = "concat (map (\<lambda>t. sq r t d) tys)"
  obtain qs where ih: "cancel_types tys d ec ?r (ops @ sq r ty d) (sq r ty d \<noteq> [] \<or> need) =
      Some (?r\<lparr>s_queue := qs, s_op_ec := (\<lambda>y. if y \<in> set ?ops then ec else ?ecs y)\<rparr>,
        (ops @ sq r ty d) @ ?ops, (sq r ty d \<noteq> [] \<or> need) \<or> (\<exists>t\<in>set tys. sq r t d \<noteq> []))"
    and q: "\<forall>t. roq_inv (qs t) \<and> fd_queue (qs t) = (if t \<in> set tys then (sq ?r t)(d := []) else sq ?r t)"
    using Cons.IH [OF ty(2) inv, of "ops @ sq r ty d" "sq r ty d \<noteq> [] \<or> need", unfolded m oe]
    by (elim exE conjE) (rule that, assumption, assumption)
  have e: "(\<lambda>y. if y \<in> set ?ops then ec else ?ecs y) = (\<lambda>y. if y \<in> set (concat (map (\<lambda>t. sq r t d) (ty # tys))) then ec else s_op_ec r y)"
    by auto
  have "cancel_types (ty # tys) d ec r ops need =
      Some (r\<lparr>s_queue := qs, s_op_ec := (\<lambda>y. if y \<in> set (concat (map (\<lambda>t. sq r t d) (ty # tys))) then ec else s_op_ec r y)\<rparr>,
        ops @ concat (map (\<lambda>t. sq r t d) (ty # tys)), need \<or> (\<exists>t\<in>set (ty # tys). sq r t d \<noteq> []))"
    unfolding e [symmetric] using c(1) ih by auto
  moreover have "\<forall>t. roq_inv (qs t) \<and> fd_queue (qs t) = (if t \<in> set (ty # tys) then (sq r t)(d := []) else sq r t)"
    using q ty(1) by (auto simp: sq)
  ultimately show ?case by blast
qed

lemma sel_start_op_accounted:
  assumes "sel_inv r" and "0 \<le> d"
  shows "\<exists>r1. sel_start_op it ty d op c r = Some r1 \<and> sel_inv r1 \<and> sel_work r1 = sel_work r + 1 \<and>
      (if s_shutdown r then sq r1 = sq r \<and> sel_posted r1 = add_mset op (sel_posted r)
       else sq r1 = (sq r)(ty := (sq r ty)(d := sq r ty d @ [op])) \<and> sel_posted r1 = sel_posted r \<and>
         s_kernel r1 = (if sq r ty d = [] then i_interrupt it (s_kernel r) else s_kernel r))"
proof (cases "s_shutdown r")
  case True
  then show ?thesis
    using assms(1) by (simp add: sel_start_op_def)
next
  case False
  obtain h1 where e: "enqueue_operation d op (s_queue r ty) = Some (h1, sq r ty d = [])" "roq_inv h1" "fd_queue h1 = (sq r ty)(d := sq r ty d @ [op])"
    using enqueue_correct [OF sel_invD(1) [OF assms(1)], of d op ty] unfolding sq_eq by blast
  let ?r1 = "r\<lparr>s_queue := (s_queue r)(ty := h1)\<rparr>"
  have "sq ?r1 = (sq r)(ty := (sq r ty)(d := sq r ty d @ [op]))"
    by (rule ext) (simp add: sq_eq e(3))
  moreover have "sel_inv ?r1"
    using assms e(2,3) by (auto simp: sel_inv_def sq_eq)
  moreover have "sel_work ?r1 = sel_work r" "sel_posted ?r1 = sel_posted r"
    by (simp_all add: sel_work_def sel_posted_def)
  ultimately show ?thesis
    using e(1) False by (simp add: sel_start_op_def sel_enqueue_def)
qed

lemma sel_cancel_ops_accounted:
  assumes "sel_inv r"
  shows "\<exists>r1. sel_cancel_ops it d r = Some r1 \<and> sel_deregister it d r = Some r1 \<and> sel_inv r1 \<and> sel_work r1 = sel_work r \<and>
      sq r1 = (\<lambda>ty. (sq r ty)(d := [])) \<and> sel_posted r1 = sel_posted r + mset (all_of r d) \<and>
      s_op_ec r1 = (\<lambda>y. if y \<in> set (all_of r d) then basic_ec operation_aborted else s_op_ec r y) \<and>
      s_kernel r1 = (if all_of r d \<noteq> [] then i_interrupt it (s_kernel r) else s_kernel r)"
proof -
  let ?tys = "[ReadOp, WriteOp, ExceptOp]"
  have dt: "distinct ?tys" by simp
  have all: "concat (map (\<lambda>ty. sq r ty d) ?tys) = all_of r d" "(\<exists>ty\<in>set ?tys. sq r ty d \<noteq> []) \<longleftrightarrow> all_of r d \<noteq> []"
    by (auto simp: all_of_def)
  obtain qs where cc: "cancel_types ?tys d (basic_ec operation_aborted) r [] False =
      Some (r\<lparr>s_queue := qs, s_op_ec := (\<lambda>y. if y \<in> set (all_of r d) then basic_ec operation_aborted else s_op_ec r y)\<rparr>,
        [] @ all_of r d, False \<or> all_of r d \<noteq> [])"
    and q: "\<forall>ty. roq_inv (qs ty) \<and> fd_queue (qs ty) = (if ty \<in> set ?tys then (sq r ty)(d := []) else sq r ty)"
    using cancel_types_correct [of ?tys r d "basic_ec operation_aborted" "[]" False, unfolded all, OF dt assms]
    by (elim exE conjE) (rule that, assumption, assumption)
  define r1 where "r1 = r\<lparr>s_queue := qs, s_op_ec := (\<lambda>y. if y \<in> set (all_of r d) then basic_ec operation_aborted else s_op_ec r y)\<rparr>"
  have q: "roq_inv (qs ty)" "fd_queue (qs ty) = (sq r ty)(d := [])" for ty
    using q unfolding op_types by simp_all
  have "sq r1 = (\<lambda>ty. (sq r ty)(d := []))"
    using q by (intro ext) (simp add: sq_def r1_def)
  moreover have "sel_inv r1"
    by (rule sel_inv_shrink [OF assms]) (use q in \<open>auto simp: sq_def r1_def\<close>)
  moreover have "sel_work r1 = sel_work r" "sel_posted r1 = sel_posted r" "s_kernel r1 = s_kernel r"
    "s_op_ec r1 = (\<lambda>y. if y \<in> set (all_of r d) then basic_ec operation_aborted else s_op_ec r y)"
    by (simp_all add: sel_work_def sel_posted_def r1_def)
  moreover have "sel_cancel_ops it d r = Some (if all_of r d \<noteq> [] then sel_interrupt it (sel_post_deferred (all_of r d) r1) else sel_post_deferred (all_of r d) r1)"
    "sel_deregister it d r = sel_cancel_ops it d r"
    by (simp_all add: sel_cancel_ops_def sel_deregister_def cancel_ops_unlocked_def cc r1_def [symmetric] del: cancel_types.simps)
  ultimately show ?thesis
    by (cases "all_of r d = []") simp_all
qed

text \<open>C27. The select reactor neither loses nor duplicates an operation. Starting one puts it at the end of the one
  queue it belongs to, or posts it after a shutdown, and counts one unit of work; the first operation
  of a descriptor interrupts the running \<open>select\<close>. Cancelling or deregistering a descriptor moves all
  its operations, with \<open>operation_aborted\<close>, to the scheduler, and interrupts when there were any.\<close>

theorem select_ops_accounted:
  assumes "sel_inv r" and "0 \<le> d"
  shows "(\<exists>r1. sel_start_op it ty d op c r = Some r1 \<and> sel_inv r1 \<and> sel_work r1 = sel_work r + 1 \<and>
      (if s_shutdown r then sq r1 = sq r \<and> sel_posted r1 = add_mset op (sel_posted r)
       else sq r1 = (sq r)(ty := (sq r ty)(d := sq r ty d @ [op])) \<and> sel_posted r1 = sel_posted r \<and>
         s_kernel r1 = (if sq r ty d = [] then i_interrupt it (s_kernel r) else s_kernel r))) \<and>
    (\<exists>r1. sel_cancel_ops it d r = Some r1 \<and> sel_deregister it d r = Some r1 \<and> sel_inv r1 \<and> sel_work r1 = sel_work r \<and>
      sq r1 = (\<lambda>ty. (sq r ty)(d := [])) \<and> sel_posted r1 = sel_posted r + mset (all_of r d) \<and>
      s_op_ec r1 = (\<lambda>y. if y \<in> set (all_of r d) then basic_ec operation_aborted else s_op_ec r y) \<and>
      s_kernel r1 = (if all_of r d \<noteq> [] then i_interrupt it (s_kernel r) else s_kernel r))"
  using sel_start_op_accounted [OF assms, of it ty op c] sel_cancel_ops_accounted [OF assms(1), of it d] by (rule conjI)

section \<open>A concrete reactor\<close>

text \<open>Two reads wait on descriptor 5; the interrupter's descriptor is 9 and its signals are counted.\<close>

definition demo_roq :: "nat roq" where
  "demo_roq = \<lparr>hm_size = 1, hm_values = [0], hm_spares = [], hm_buckets = [(None, None), (None, None), (Some 0, Some 0)],
     hm_node = (\<lambda>_. (5, [1, 2])), hm_fresh = 1\<rparr>"

definition demo_interrupter :: "nat interrupter" where
  "demo_interrupter = \<lparr>i_descriptor = 9, i_interrupt = (\<lambda>w. w + 1), i_reset = (\<lambda>_. 0), i_recreate = (\<lambda>_. 0)\<rparr>"

definition demo_select :: "int set \<Rightarrow> (nat, nat, nat, nat, nat) select_reactor" where
  "demo_select ready = \<lparr>s_sched = sched_new 1, s_this = None, s_signals = [],
     s_queue = (\<lambda>ty. if ty = ReadOp then demo_roq else roq_new (\<lambda>_. (0, []))),
     s_fd_sets = (\<lambda>ty. \<lparr>fd_bits = ready, max_descriptor = 9\<rparr>), s_op_ec = (\<lambda>_. no_error), s_kernel = 0,
     s_timer_queues = [], s_timer_at = (\<lambda>_. timer_queue_new), s_shutdown = False\<rparr>"

lemma demo_roq_inv: "roq_inv demo_roq" "fd_queue demo_roq = (\<lambda>_. [])(5 := [1, 2])"
proof -
  have "run_of (\<lambda>x. cls_of queue_traits demo_roq x = 0) [0] (None, None)" "run_of (\<lambda>x. cls_of queue_traits demo_roq x = 1) [0] (None, None)"
    "run_of (\<lambda>x. cls_of queue_traits demo_roq x = 2) [0] (Some 0, Some 0)"
    using run_ofI [of "[]" _ "[0]" "[]"] run_ofI [of "[0]" _ "[]" "[]"]
    by (simp_all add: cls_of_def hm_bucket_def hm_key_def demo_roq_def queue_traits_def hash_int_def last_of_def)
  then have "buckets_ok (cls_of queue_traits demo_roq) (hm_buckets demo_roq) (hm_values demo_roq)"
    by (simp add: buckets_ok_def demo_roq_def less_Suc_eq numeral_3_eq_3 eval_nat_numeral)
  then show "roq_inv demo_roq"
    by (simp add: roq_inv_def hm_inv_def node_queue_def) (simp add: demo_roq_def)
  show "fd_queue demo_roq = (\<lambda>_. [])(5 := [1, 2])"
    by (auto simp: fd_queue_def hm_map_def demo_roq_def fun_eq_iff)
qed

lemma demo_select_inv:
  "sel_inv (demo_select ready)" "sq (demo_select ready) ty d = (if ty = ReadOp \<and> d = 5 then [1, 2] else [])"
  by (simp_all add: sel_inv_def demo_select_def sq_def demo_roq_inv roq_inv_new)

lemma demo_fds: "fds_of demo_roq = [5]" "fds_of (roq_new mem) = []"
  by (simp_all add: fds_of_def demo_roq_def hm_key_def roq_new_def hash_map_new_def)

theorem select_watches_witness:
  "\<exists>r1 nfds timeout. select_begin demo_interrupter (\<lambda>_ _ m. m) 0 [] (demo_select {}) = Some (r1, [], Some (nfds, timeout)) \<and>
     fd_bits (s_fd_sets r1 ReadOp) = {5, 9} \<and> fd_bits (s_fd_sets r1 WriteOp) = {} \<and> 9 < nfds"
proof -
  have i: "0 \<le> i_descriptor demo_interrupter"
    by (simp add: demo_interrupter_def)
  have u: "unwatchable (demo_select {}) ty = []" for ty
    by (simp add: unwatchable_def demo_select_def too_big_def demo_fds FD_SETSIZE_def)
  obtain r1 call where c: "select_begin demo_interrupter (\<lambda>_ _ m. m) 0 [] (demo_select {}) = Some (r1, [], call)"
    and q: "\<forall>ty d. sq r1 ty d = (if FD_SETSIZE \<le> d then [] else sq (demo_select {}) ty d)"
    and b: "\<forall>ty. fd_bits (s_fd_sets r1 ty) = {d. sq r1 ty d \<noteq> []} \<union> (if ty = ReadOp \<and> i_descriptor demo_interrupter < FD_SETSIZE then {i_descriptor demo_interrupter} else {})"
    and n: "call = None \<longleftrightarrow> (0::int) = 0 \<and> tqs_all_empty (s_timer_at (demo_select {})) (s_timer_queues (demo_select {})) \<and> (\<forall>ty d. sq (demo_select {}) ty d = [])"
    and f: "\<forall>nfds timeout. call = Some (nfds, timeout) \<longrightarrow> (\<forall>ty. \<forall>d\<in>fd_bits (s_fd_sets r1 ty). d < nfds)"
    using select_watches [OF demo_select_inv(1) i, of "\<lambda>_ _ m. m" 0 "[]" "{}", unfolded u append_Nil] by (elim exE conjE) (rule that, assumption+)
  have bits: "fd_bits (s_fd_sets r1 ReadOp) = {5, 9}" "fd_bits (s_fd_sets r1 WriteOp) = {}"
    using b q by (auto simp: demo_select_inv(2) demo_interrupter_def FD_SETSIZE_def)
  have "call \<noteq> None"
    using n demo_select_inv(2) [of "{}" ReadOp 5] by force
  then obtain nfds timeout where "call = Some (nfds, timeout)"
    by auto
  moreover have "9 < nfds"
    using f calculation bits(1) by blast
  ultimately show ?thesis
    using c bits by blast
qed

theorem select_dispatches_witness:
  "\<exists>r1. select_end (\<lambda>op w. (w + 1, if op = 1 then Done else NotDone, no_error)) (\<lambda>_. 0) 1 [] (demo_select {5}) = Some (r1, [1]) \<and>
     sq r1 ReadOp 5 = [2] \<and> s_kernel r1 = 2"
proof -
  let ?p = "\<lambda>(op::nat) (w::nat). (w + 1, if op = 1 then Done else NotDone, no_error)" and ?r = "demo_select {5}"
  have t: "distinct (s_timer_queues ?r)" "\<forall>q\<in>set (s_timer_queues ?r). tq_inv (s_timer_at ?r q)" "s_timer_queues ?r = []"
    by (simp_all add: demo_select_def)
  obtain r1 n and es :: "nat \<Rightarrow> (nat \<times> nat) list" where e: "select_end ?p (\<lambda>_. 0) 1 [] ?r =
      Some (r1, [] @ completed ?r n ExceptOp @ completed ?r n WriteOp @ completed ?r n ReadOp @
        concat (map (\<lambda>q. concat (map (\<lambda>e. op_queue_of (s_timer_at ?r q) (snd e)) (es q))) (s_timer_queues ?r)))"
    and q: "\<forall>ty d. sq r1 ty d = drop (n ty d) (sq ?r ty d)"
    and n: "if 0 < (1::int) then rounds_done ?p [ExceptOp, WriteOp, ReadOp] ?r n (s_kernel ?r, s_op_ec ?r) (s_kernel r1, s_op_ec r1)
      else n = (\<lambda>_ _. 0) \<and> s_kernel r1 = s_kernel ?r \<and> s_op_ec r1 = s_op_ec ?r"
    using select_dispatches [OF demo_select_inv(1) t(1,2), of ?p "\<lambda>_. 0" 1 "[]"] by (elim exE conjE) (rule that, assumption+)
  have fds: "fds_of (s_queue ?r ReadOp) = [5]" "fds_of (s_queue ?r WriteOp) = []" "fds_of (s_queue ?r ExceptOp) = []"
    by (simp_all add: demo_select_def demo_fds)
  have bits: "fd_bits (s_fd_sets ?r ty) = {5}" "s_kernel ?r = 0" for ty
    by (simp_all add: demo_select_def)
  have k: "performed_from ?p [1, 2] (n ReadOp 5) (0, s_op_ec ?r)"
      "(s_kernel r1, s_op_ec r1) = attempts ?p (take (Suc (n ReadOp 5)) [1, 2]) (0, s_op_ec ?r)"
    using n by (auto simp: round_done_def fds bits demo_select_inv(2))
  have "n ReadOp 5 = 1"
    using k(1) by (cases "n ReadOp 5"; cases "n ReadOp 5 - 1") (auto simp: performed_from_def status_at_def all_less_Suc less_Suc_eq)
  then have "completed ?r n ReadOp = [1]" "completed ?r n WriteOp = []" "completed ?r n ExceptOp = []" "s_kernel r1 = 2"
      "sq r1 ReadOp 5 = [2]"
    using k(2) q by (simp_all add: completed_def fds demo_select_inv(2))
  with e t(3) show ?thesis
    by simp
qed

theorem select_ops_accounted_witness:
  "\<exists>r1. sel_cancel_ops demo_interrupter 5 (demo_select {}) = Some r1 \<and> sel_posted r1 = {#1, 2#} \<and> s_kernel r1 = 1 \<and> sq r1 ReadOp 5 = []"
proof -
  have five: "0 \<le> (5::int)"
    by simp
  have "all_of (demo_select {}) 5 = [1, 2]" "sel_posted (demo_select {}) = {#}" "s_kernel (demo_select {}) = 0"
    by (simp_all add: all_of_def demo_select_inv(2)) (simp_all add: sel_posted_def demo_select_def sched_new_def)
  then show ?thesis
    using select_ops_accounted [OF demo_select_inv(1) [of "{}"] five, of demo_interrupter, THEN conjunct2]
    by (elim exE conjE) (auto simp: demo_interrupter_def)
qed

end
