(* ===== verification/ChronoTime.thy ===== *)
theory ChronoTime
  imports Main "HOL-Library.Signed_Division"
begin

text \<open>
  \<open>include/asio/service/timer/helper/chrono_time_traits.hpp\<close>: the arithmetic of a timer's times. A
  time point is the signed 64-bit count of its clock's ticks since the epoch, a duration a count of
  ticks; both are integers here, and every operation is none where the source overflows: the lemmas show
  that adding and subtracting never do, and when a conversion does. A clock's period is a fraction of a second, \<open>pnum / pden\<close>.
\<close>

section \<open>Adding and subtracting\<close>

definition int64_max :: int where "int64_max = 2 ^ 63 - 1"
definition int64_min :: int where "int64_min = - (2 ^ 63)"

definition is_int64 :: "int \<Rightarrow> bool" where
  "is_int64 t \<longleftrightarrow> int64_min \<le> t \<and> t \<le> int64_max"

definition clamp64 :: "int \<Rightarrow> int" where
  "clamp64 t = (if t < int64_min then int64_min else if int64_max < t then int64_max else t)"

text \<open>The time traits, with \<open>none\<close> for an intermediate result outside 64 bits.\<close>

definition checked :: "int \<Rightarrow> int option" where
  "checked t = (if is_int64 t then Some t else None)"

definition time_add :: "int \<Rightarrow> int \<Rightarrow> int option" where
  "time_add t d =
     (if t \<ge> 0 then
        Option.bind (checked (int64_max - t)) (\<lambda>room. if room < d then Some int64_max else checked (t + d))
      else
        Option.bind (checked (t - int64_min)) (\<lambda>room.
          Option.bind (checked (- room)) (\<lambda>neg. if neg > d then Some int64_min else checked (t + d))))"

definition time_subtract :: "int \<Rightarrow> int \<Rightarrow> int option" where
  "time_subtract t1 t2 =
     (if t1 \<ge> 0 then
        if t2 \<ge> 0 then checked (t1 - t2)
        else if t2 = int64_min then Some int64_max
        else
          Option.bind (checked (int64_max - t1)) (\<lambda>room.
            Option.bind (checked (- t2)) (\<lambda>neg. if room < neg then Some int64_max else checked (t1 - t2)))
      else
        if t2 < 0 then checked (t1 - t2)
        else if t1 = int64_min then Some int64_min
        else
          Option.bind (checked (int64_max - t2)) (\<lambda>room.
            Option.bind (checked (- t1)) (\<lambda>neg.
              if room < neg then Some int64_min
              else Option.bind (checked (t2 - t1)) (\<lambda>diff. checked (- diff)))))"

definition time_less :: "int \<Rightarrow> int \<Rightarrow> bool" where
  "time_less t1 t2 \<longleftrightarrow> t1 < t2"

section \<open>Converting durations\<close>

text \<open>The template \<open>gcd\<close>; its arguments are the positive terms of two fractions.\<close>

fun ct_gcd :: "nat \<Rightarrow> nat \<Rightarrow> nat" where
  "ct_gcd v1 v2 = (if v2 = 0 then v1 else ct_gcd v2 (v1 mod v2))"

declare ct_gcd.simps [simp del]

text \<open>As above, \<open>none\<close> stands for a product outside 64 bits: unlike \<open>add\<close> and \<open>subtract\<close>, the conversion
  does not guard its multiplications.\<close>

definition duration_cast :: "nat \<times> nat \<Rightarrow> nat \<Rightarrow> nat \<Rightarrow> int \<Rightarrow> int option" where
  "duration_cast period Num Den ticks =
     (case period of (pnum, pden) \<Rightarrow>
        let num1 = pnum div ct_gcd pnum Num;
            num2 = Num div ct_gcd pnum Num;
            den1 = pden div ct_gcd pden Den;
            den2 = Den div ct_gcd pden Den
        in Option.bind (checked (int num1 * int den2)) (\<lambda>num.
           Option.bind (checked (int num2 * int den1)) (\<lambda>den.
             if num = 1 \<and> den = 1 then Some ticks
             else if num \<noteq> 1 \<and> den = 1 then checked (ticks * num)
             else if num = 1 \<and> pden \<noteq> 1 then Some (ticks sdiv den)
             else Option.bind (checked (ticks * num)) (\<lambda>product. Some (product sdiv den)))))"

definition total_seconds :: "nat \<times> nat \<Rightarrow> int \<Rightarrow> int option" where
  "total_seconds period = duration_cast period 1 1"

definition total_milliseconds :: "nat \<times> nat \<Rightarrow> int \<Rightarrow> int option" where
  "total_milliseconds period = duration_cast period 1 1000"

definition total_microseconds :: "nat \<times> nat \<Rightarrow> int \<Rightarrow> int option" where
  "total_microseconds period = duration_cast period 1 1000000"

section \<open>Lemmas\<close>

lemma clamp64_range: "is_int64 (clamp64 t)"
  by (simp add: is_int64_def clamp64_def int64_min_def int64_max_def)

lemma clamp64_id: "is_int64 t \<Longrightarrow> clamp64 t = t"
  by (simp add: is_int64_def clamp64_def)

lemma time_add_clamps: "is_int64 t \<Longrightarrow> is_int64 d \<Longrightarrow> time_add t d = Some (clamp64 (t + d))"
  by (auto simp: time_add_def checked_def clamp64_def is_int64_def int64_min_def int64_max_def)

lemma time_subtract_clamps: "is_int64 t1 \<Longrightarrow> is_int64 t2 \<Longrightarrow> time_subtract t1 t2 = Some (clamp64 (t1 - t2))"
  by (auto simp: time_subtract_def checked_def clamp64_def is_int64_def int64_min_def int64_max_def)

lemma ct_gcd_gcd [simp]: "ct_gcd a b = gcd a b"
proof (induction a b rule: ct_gcd.induct)
  case (1 a b)
  then show ?case
    by (subst ct_gcd.simps) (simp add: gcd_red_nat [of a b])
qed

lemma sdiv_cancel: "0 < c \<Longrightarrow> 0 < b \<Longrightarrow> (a * c) sdiv (b * c) = a sdiv (b :: int)"
  by (simp add: signed_divide_int_def abs_mult sgn_mult)

lemma sdiv_one [simp]: "a sdiv (1 :: int) = a"
  by (simp add: signed_divide_int_def sgn_mult_abs)

text \<open>The reduced fraction a conversion multiplies with.\<close>

definition cast_num :: "nat \<times> nat \<Rightarrow> nat \<Rightarrow> nat \<Rightarrow> int" where
  "cast_num period Num Den = int (fst period div gcd (fst period) Num) * int (Den div gcd (snd period) Den)"

definition cast_den :: "nat \<times> nat \<Rightarrow> nat \<Rightarrow> nat \<Rightarrow> int" where
  "cast_den period Num Den = int (Num div gcd (fst period) Num) * int (snd period div gcd (snd period) Den)"

text \<open>Whether everything a conversion computes fits into 64 bits.\<close>

definition cast_fits :: "nat \<times> nat \<Rightarrow> nat \<Rightarrow> nat \<Rightarrow> int \<Rightarrow> bool" where
  "cast_fits period Num Den ticks \<longleftrightarrow>
     is_int64 (cast_num period Num Den) \<and> is_int64 (cast_den period Num Den) \<and> is_int64 (ticks * cast_num period Num Den)"

lemma cast_exact:
  assumes "0 < pnum" and "0 < pden" and "0 < Num" and "0 < Den"
  shows "(ticks * cast_num (pnum, pden) Num Den) sdiv cast_den (pnum, pden) Num Den = (ticks * int (pnum * Den)) sdiv int (Num * pden)"
proof -
  define g h where "g = gcd pnum Num" and "h = gcd pden Den"
  define a b c d where "a = pnum div g" and "b = Num div g" and "c = pden div h" and "d = Den div h"
  have f: "pnum = a * g" "Num = b * g" "pden = c * h" "Den = d * h"
    by (simp_all add: a_def b_def c_def d_def g_def h_def)
  with assms have pos: "0 < g" "0 < h" "0 < b" "0 < c" by auto
  have "(ticks * int (pnum * Den)) sdiv int (Num * pden) = (ticks * int (a * d) * int (g * h)) sdiv (int (b * c) * int (g * h))"
    by (simp add: f mult_ac)
  also have "\<dots> = (ticks * int (a * d)) sdiv int (b * c)"
    using pos by (intro sdiv_cancel) simp_all
  also have "\<dots> = (ticks * cast_num (pnum, pden) Num Den) sdiv cast_den (pnum, pden) Num Den"
    by (simp add: cast_num_def cast_den_def flip: g_def h_def) (simp flip: a_def b_def c_def d_def)
  finally show ?thesis ..
qed

lemma duration_cast_sdiv:
  assumes "0 < pnum" and "0 < pden" and "0 < Num" and "0 < Den" and "is_int64 ticks"
  shows "duration_cast (pnum, pden) Num Den ticks =
    (if cast_fits (pnum, pden) Num Den ticks then Some ((ticks * int (pnum * Den)) sdiv int (Num * pden)) else None)"
proof -
  have "duration_cast (pnum, pden) Num Den ticks =
      (if cast_fits (pnum, pden) Num Den ticks
       then Some ((ticks * cast_num (pnum, pden) Num Den) sdiv cast_den (pnum, pden) Num Den) else None)"
    using assms(5) by (simp add: duration_cast_def cast_num_def cast_den_def cast_fits_def checked_def Let_def)
  then show ?thesis by (simp only: cast_exact [OF assms(1-4)])
qed

lemma sdiv_nonneg: "0 \<le> a \<Longrightarrow> 0 < b \<Longrightarrow> a sdiv b = a div (b :: int)"
  by (auto simp: signed_divide_int_def sgn_if)

lemma smod_nonneg: "0 \<le> a \<Longrightarrow> 0 < b \<Longrightarrow> a smod b = a mod (b :: int)"
  by (cases "a = 0") (simp_all add: signed_modulo_int_def)

text \<open>The steady clock counts nanoseconds.\<close>

definition nanoseconds :: "nat \<times> nat" where "nanoseconds = (1, 1000000000)"

lemma nanoseconds_casts:
  assumes "is_int64 d"
  shows "total_seconds nanoseconds d = Some (d sdiv 1000000000)"
    and "total_milliseconds nanoseconds d = Some (d sdiv 1000000)"
    and "total_microseconds nanoseconds d = Some (d sdiv 1000)"
  using assms sdiv_cancel [of 1000 1000000 d] sdiv_cancel [of 1000000 1000 d]
  by (simp_all add: total_seconds_def total_milliseconds_def total_microseconds_def nanoseconds_def duration_cast_sdiv
      cast_fits_def cast_num_def cast_den_def is_int64_def int64_min_def int64_max_def)

section \<open>Properties\<close>

text \<open>C28. \<open>add\<close> and \<open>subtract\<close> of the time traits never overflow: on 64-bit counts every intermediate
  result fits into 64 bits, and the result is the exact one cut to the range, in particular for
  \<open>max\<close> and \<open>min\<close>. A conversion of a duration rounds the exact quotient of the two periods towards
  zero, however the fractions were reduced, as long as the reduced fraction and the count times its
  numerator fit into 64 bits, and overflows otherwise. It never does on a clock of nanoseconds; on a
  clock of seconds it does, as for the microseconds of ten to the thirteenth seconds.\<close>

theorem time_arithmetic_saturates:
  "(\<forall>t d. is_int64 t \<and> is_int64 d \<longrightarrow> time_add t d = Some (clamp64 (t + d)) \<and> time_subtract t d = Some (clamp64 (t - d)) \<and>
      is_int64 (clamp64 (t + d)) \<and> is_int64 (clamp64 (t - d))) \<and>
   (\<forall>pnum pden Num Den ticks. 0 < pnum \<and> 0 < pden \<and> 0 < Num \<and> 0 < Den \<and> is_int64 ticks \<longrightarrow>
      duration_cast (pnum, pden) Num Den ticks =
        (if cast_fits (pnum, pden) Num Den ticks then Some ((ticks * int (pnum * Den)) sdiv int (Num * pden)) else None)) \<and>
   (\<forall>d. is_int64 d \<longrightarrow> total_seconds nanoseconds d = Some (d sdiv 1000000000) \<and>
      total_milliseconds nanoseconds d = Some (d sdiv 1000000) \<and> total_microseconds nanoseconds d = Some (d sdiv 1000)) \<and>
   total_microseconds (1, 1) (10 ^ 13) = None"
proof -
  have "\<not> cast_fits (1, 1) 1 1000000 (10 ^ 13)"
    by (simp add: cast_fits_def cast_num_def is_int64_def int64_max_def)
  moreover have "is_int64 (10 ^ 13)" by (simp add: is_int64_def int64_min_def int64_max_def)
  ultimately have "total_microseconds (1, 1) (10 ^ 13) = None"
    by (simp add: total_microseconds_def duration_cast_sdiv)
  then show ?thesis
    by (simp add: time_add_clamps time_subtract_clamps clamp64_range duration_cast_sdiv nanoseconds_casts)
qed

theorem time_arithmetic_saturates_witness:
  "time_add int64_max 5 = Some int64_max \<and> time_subtract int64_min 7 = Some int64_min \<and>
   duration_cast (1, 1000000000) 1 1000 (- 1999999) = Some (- 1) \<and> duration_cast (60, 1) 1 1000 (2 ^ 62) = None \<and>
   total_seconds nanoseconds 2999999999 = Some 2"
proof -
  have r: "is_int64 int64_max \<and> is_int64 5" "is_int64 int64_min \<and> is_int64 7"
      "is_int64 (- 1999999)" "is_int64 (2 ^ 62)" "is_int64 2999999999"
    by (simp_all add: is_int64_def int64_max_def int64_min_def)
  have c: "clamp64 (int64_max + 5) = int64_max" "clamp64 (int64_min - 7) = int64_min"
    by (simp_all add: clamp64_def int64_max_def int64_min_def)
  have f: "cast_fits (1, 1000000000) 1 1000 (- 1999999)" "\<not> cast_fits (60, 1) 1 1000 (2 ^ 62)"
    by (simp_all add: cast_fits_def cast_num_def cast_den_def is_int64_def int64_max_def int64_min_def)
  note cast = time_arithmetic_saturates [THEN conjunct2, THEN conjunct1, rule_format]
  have "duration_cast (1, 1000000000) 1 1000 (- 1999999) = Some (- 1)"
    using cast [of 1 1000000000 1 1000 "- 1999999"] r(3) f(1) by (simp only: if_True) (simp add: signed_divide_int_def)
  moreover have "duration_cast (60, 1) 1 1000 (2 ^ 62) = None"
    using cast [of 60 1 1 1000 "2 ^ 62"] r(4) f(2) by (simp only: if_False) simp
  ultimately show ?thesis
    using time_arithmetic_saturates [THEN conjunct1, rule_format, OF r(1)] time_arithmetic_saturates [THEN conjunct1, rule_format, OF r(2)]
      time_arithmetic_saturates [THEN conjunct2, THEN conjunct2, THEN conjunct1, rule_format, OF r(5)]
    by (simp add: c signed_divide_int_def)
qed

end
