(* ===== verification/DeadlineTimer.thy ===== *)
theory DeadlineTimer
  imports ChronoTime EpollProps SelectReactor
begin

text \<open>
  \<open>include/asio/service/timer/deadline_timer_service.hpp\<close>: timers over a timer queue \<open>q\<close> of the epoll
  reactor. A timer is its expiry, the flag that says whether waits may be pending, and its data in the
  queue, which is named by the timer. The blocking wait reads the clock and calls \<open>select\<close>, whose
  kernel is a parameter; it may run forever and is a partial function. Handlers are the operations.
\<close>

section \<open>The service\<close>

record ('t, 'a) timer_impl =
  ti_expiry :: 't
  might_have_pending_waits :: bool
  ti_data :: 'a

definition timer_service_new :: "'q \<Rightarrow> ('o, 'd, 'w, 'q, 't, 'a) reactor \<Rightarrow> ('o, 'd, 'w, 'q, 't, 'a) reactor" where
  "timer_service_new q r = add_timer_queue q (r_init_task r)"

definition timer_service_delete :: "'q \<Rightarrow> ('o, 'd, 'w, 'q, 't, 'a) reactor \<Rightarrow> ('o, 'd, 'w, 'q, 't, 'a) reactor" where
  "timer_service_delete q r = remove_timer_queue q r"

definition timer_construct :: "'t \<Rightarrow> ('t, 'a) timer_impl \<Rightarrow> ('t, 'a) timer_impl" where
  "timer_construct epoch impl = impl\<lparr>ti_expiry := epoch, might_have_pending_waits := False\<rparr>"

definition timer_service_cancel ::
  "'q \<Rightarrow> ('t, 'a) timer_impl \<Rightarrow> ('o, 'd, 'w, 'q, 't::linorder, 'a) reactor \<Rightarrow>
   ('o, 'd, 'w, 'q, 't, 'a) reactor \<times> ('t, 'a) timer_impl \<times> nat \<times> error_code" where
  "timer_service_cancel q impl r =
     (if \<not> might_have_pending_waits impl then (r, impl, 0, no_error)
      else
        case cancel_timer q (ti_data impl) size_max r of
          (r1, n) \<Rightarrow> (r1, impl\<lparr>might_have_pending_waits := False\<rparr>, n, no_error))"

definition timer_service_cancel_one ::
  "'q \<Rightarrow> ('t, 'a) timer_impl \<Rightarrow> ('o, 'd, 'w, 'q, 't::linorder, 'a) reactor \<Rightarrow>
   ('o, 'd, 'w, 'q, 't, 'a) reactor \<times> ('t, 'a) timer_impl \<times> nat \<times> error_code" where
  "timer_service_cancel_one q impl r =
     (if \<not> might_have_pending_waits impl then (r, impl, 0, no_error)
      else
        case cancel_timer q (ti_data impl) 1 r of
          (r1, n) \<Rightarrow> (r1, if n = 0 then impl\<lparr>might_have_pending_waits := False\<rparr> else impl, n, no_error))"

definition timer_destroy ::
  "'q \<Rightarrow> ('t, 'a) timer_impl \<Rightarrow> ('o, 'd, 'w, 'q, 't::linorder, 'a) reactor \<Rightarrow>
   ('o, 'd, 'w, 'q, 't, 'a) reactor \<times> ('t, 'a) timer_impl" where
  "timer_destroy q impl r = (case timer_service_cancel q impl r of (r1, impl1, n, ec) \<Rightarrow> (r1, impl1))"

text \<open>The new values of the target and the source of a move. The services of a move assignment may be
  those of two contexts; a service is its context and its queue.\<close>

definition timer_move_fields ::
  "'t \<Rightarrow> ('t, 'a) timer_impl \<Rightarrow> ('t, 'a) timer_impl \<Rightarrow> ('t, 'a) timer_impl \<times> ('t, 'a) timer_impl" where
  "timer_move_fields epoch impl other =
     (impl\<lparr>ti_expiry := ti_expiry other, might_have_pending_waits := might_have_pending_waits other\<rparr>,
      other\<lparr>ti_expiry := epoch, might_have_pending_waits := False\<rparr>)"

definition timer_move_construct ::
  "'q \<Rightarrow> 't \<Rightarrow> ('t, 'a) timer_impl \<Rightarrow> ('t, 'a) timer_impl \<Rightarrow> ('o, 'd, 'w, 'q, 't::linorder, 'a) reactor \<Rightarrow>
   ('o, 'd, 'w, 'q, 't, 'a) reactor \<times> ('t, 'a) timer_impl \<times> ('t, 'a) timer_impl" where
  "timer_move_construct q epoch impl other r =
     (reactor_move_timer q (ti_data impl) (ti_data other) r, timer_move_fields epoch impl other)"

definition timer_move_assign ::
  "'c \<times> 'q \<Rightarrow> 'c \<times> 'q \<Rightarrow> 't \<Rightarrow> ('t, 'a) timer_impl \<Rightarrow> ('t, 'a) timer_impl \<Rightarrow>
   ('c \<Rightarrow> ('o, 'd, 'w, 'q, 't::linorder, 'a) reactor) \<Rightarrow>
   ('c \<Rightarrow> ('o, 'd, 'w, 'q, 't, 'a) reactor) \<times> ('t, 'a) timer_impl \<times> ('t, 'a) timer_impl" where
  "timer_move_assign svc other_svc epoch impl other rs =
     (let (c, q) = svc; (c1, q1) = other_svc;
          rs1 = (if svc \<noteq> other_svc \<and> might_have_pending_waits impl
                 then rs(c := fst (cancel_timer q (ti_data impl) size_max (rs c))) else rs);
          rs2 = rs1(c1 := reactor_move_timer q1 (ti_data impl) (ti_data other) (rs1 c1))
      in (rs2, timer_move_fields epoch impl other))"

definition timer_set_expiry ::
  "'q \<Rightarrow> ('t, 'a) timer_impl \<Rightarrow> 't \<Rightarrow> ('o, 'd, 'w, 'q, 't::linorder, 'a) reactor \<Rightarrow>
   ('o, 'd, 'w, 'q, 't, 'a) reactor \<times> ('t, 'a) timer_impl \<times> nat \<times> error_code" where
  "timer_set_expiry q impl expiry_time r =
     (case timer_service_cancel q impl r of
        (r1, impl1, n, ec) \<Rightarrow> (r1, impl1\<lparr>ti_expiry := expiry_time\<rparr>, n, no_error))"

definition timer_async_wait ::
  "('w, 'd) ctl \<Rightarrow> int \<Rightarrow> ('w \<Rightarrow> (int \<times> int) \<times> bool \<Rightarrow> 'w) \<Rightarrow> ('q \<Rightarrow> ('t, 'a, 'o) timer_queue \<Rightarrow> int \<Rightarrow> int) \<Rightarrow> ('t::linorder \<Rightarrow> bool) \<Rightarrow>
   'q \<Rightarrow> ('t, 'a) timer_impl \<Rightarrow> 'o \<Rightarrow> ('o, 'd, 'w, 'q, 't, 'a) reactor \<Rightarrow>
   ('o, 'd, 'w, 'q, 't, 'a) reactor \<times> ('t, 'a) timer_impl" where
  "timer_async_wait ctl interrupter_fd settime wait_usec is_inf q impl op r =
     (let impl1 = impl\<lparr>might_have_pending_waits := True\<rparr>
      in (schedule_timer ctl interrupter_fd settime wait_usec is_inf q (ti_expiry impl1) (ti_data impl1) op r, impl1))"

section \<open>Relative times and the blocking wait\<close>

text \<open>Reading the clock may change the state of the kernel.\<close>

type_synonym 'w clock = "'w \<Rightarrow> 'w \<times> int"

definition timer_expires_from_now :: "'w clock \<Rightarrow> (int, 'a) timer_impl \<Rightarrow> 'w \<Rightarrow> ('w \<times> int) option" where
  "timer_expires_from_now now impl w =
     (case now w of (w1, t) \<Rightarrow> Option.bind (time_subtract (ti_expiry impl) t) (\<lambda>d. Some (w1, d)))"

definition timer_expires_after ::
  "'w clock \<Rightarrow> 'q \<Rightarrow> (int, 'a) timer_impl \<Rightarrow> int \<Rightarrow> ('o, 'd, 'w, 'q, int, 'a) reactor \<Rightarrow>
   (('o, 'd, 'w, 'q, int, 'a) reactor \<times> (int, 'a) timer_impl \<times> nat \<times> error_code) option" where
  "timer_expires_after now q impl d r =
     (case now (r_kernel r) of
        (w1, t) \<Rightarrow> Option.bind (time_add t d) (\<lambda>e. Some (timer_set_expiry q impl e (r\<lparr>r_kernel := w1\<rparr>))))"

definition timer_do_wait :: "'w select_call \<Rightarrow> nat \<times> nat \<Rightarrow> int \<Rightarrow> 'w \<Rightarrow> ('w \<times> error_code) option" where
  "timer_do_wait sel period timeout w =
     Option.bind (total_seconds period timeout) (\<lambda>sec.
     Option.bind (total_microseconds period timeout) (\<lambda>usec.
       case socket_select sel 0 (\<lambda>_. {}) (sec, usec smod 1000000) w of
         (w1, result, sets, ec) \<Rightarrow> Some (w1, ec)))"

text \<open>The loop is \<open>none\<close> when it never ends, and when the conversion of the time left overflows.\<close>

partial_function (option) timer_wait_loop ::
  "'w clock \<Rightarrow> 'w select_call \<Rightarrow> nat \<times> nat \<Rightarrow> int \<Rightarrow> int \<Rightarrow> error_code \<Rightarrow> 'w \<Rightarrow> ('w \<times> error_code) option" where
  "timer_wait_loop now sel period expiry t ec w =
     (if time_less t expiry \<and> \<not> ec_failed ec then
        Option.bind (time_subtract expiry t) (\<lambda>d.
        Option.bind (timer_do_wait sel period d w) (\<lambda>(w1, ec1).
          case now w1 of (w2, t1) \<Rightarrow> timer_wait_loop now sel period expiry t1 ec1 w2))
      else Some (w, ec))"

declare timer_wait_loop.simps [code]

definition timer_wait ::
  "'w clock \<Rightarrow> 'w select_call \<Rightarrow> nat \<times> nat \<Rightarrow> (int, 'a) timer_impl \<Rightarrow> 'w \<Rightarrow> ('w \<times> error_code) option" where
  "timer_wait now sel period impl w =
     (case now w of (w1, t) \<Rightarrow> timer_wait_loop now sel period (ti_expiry impl) t no_error w1)"

section \<open>What the operations do to the queue\<close>

lemma post_deferred_queue [simp]: "timer_queue_at (r_post_deferred ops r) = timer_queue_at r"
  by (simp add: r_post_deferred_def sched_call_def Let_def split: prod.split)

lemma post_immediate_queue [simp]: "timer_queue_at (r_post_immediate op c r) = timer_queue_at r"
  by (simp add: r_post_immediate_def sched_call_def Let_def split: prod.split)

lemma work_started_queue [simp]: "timer_queue_at (r_work_started r) = timer_queue_at r"
  by (simp add: r_work_started_def sched_call_def Let_def split: prod.split)

lemma update_timeout_queue [simp]: "timer_queue_at (update_timeout ctl fd settime wait r) = timer_queue_at r"
  by (simp add: update_timeout_def epoll_ctl_def r_interrupt_def Let_def split: prod.split)

lemma cancel_timer_queue:
  "timer_queue_at (fst (cancel_timer q a m r)) q = fst (timer_cancel (timer_queue_at r q) a (r_op_ec r) [] m)"
  "snd (cancel_timer q a m r) = snd (snd (snd (timer_cancel (timer_queue_at r q) a (r_op_ec r) [] m)))"
  by (simp_all add: cancel_timer_def Let_def split: prod.split)

lemma move_timer_queue:
  "timer_queue_at (reactor_move_timer q a b r) q =
     move_timer (fst (timer_cancel (timer_queue_at r q) a (r_op_ec r) [] size_max)) a b"
  by (simp add: reactor_move_timer_def Let_def split: prod.split)

lemma schedule_timer_queue:
  "timer_queue_at (schedule_timer ctl fd settime wait is_inf q t a op r) q =
     (if r_shutdown r then timer_queue_at r q else fst (enqueue_timer is_inf t a op (timer_queue_at r q)))"
  by (simp add: schedule_timer_def Let_def split: prod.split)

section \<open>The invariant\<close>

text \<open>A timer whose flag is off has no waits, and the heap has a timer exactly once, at its expiry, when it has
  waits and can expire.\<close>

definition timer_ok :: "('t \<Rightarrow> bool) \<Rightarrow> ('t::linorder, 'a, 'o) timer_queue \<Rightarrow> 'a \<Rightarrow> ('t, 'a) timer_impl option \<Rightarrow> bool" where
  "timer_ok is_inf tq a i =
     (case i of
        None \<Rightarrow> op_queue_of tq a = []
      | Some impl \<Rightarrow> ti_data impl = a \<and> (might_have_pending_waits impl \<or> op_queue_of tq a = []) \<and>
          filter_mset (\<lambda>e. snd e = a) (mset (heap tq)) =
            (if op_queue_of tq a = [] \<or> is_inf (ti_expiry impl) then {#} else {#(ti_expiry impl, a)#}))"

definition timers_ok :: "('t \<Rightarrow> bool) \<Rightarrow> ('t::linorder, 'a, 'o) timer_queue \<Rightarrow> ('a \<Rightarrow> ('t, 'a) timer_impl option) \<Rightarrow> bool" where
  "timers_ok is_inf tq I \<longleftrightarrow> tq_inv tq \<and> (\<forall>a. timer_ok is_inf tq a (I a))"

lemma no_ops_not_in_heap:
  assumes "tq_inv tq" and "op_queue_of tq a = []"
  shows "filter_mset (\<lambda>e. snd e = a) (mset (heap tq)) = {#}"
proof -
  obtain ts where w: "tq_inv_with tq ts" using assms(1) by (auto simp: tq_inv_def)
  have "a \<notin> heap_timers tq"
    using tq_inv_withD(5) [OF w] tq_inv_withD(7) [OF w, of a] assms(2) by auto
  then show ?thesis
    by (force simp: filter_mset_eq_mempty_iff)
qed

lemma timer_ok_same:
  assumes "op_queue_of tq' a = op_queue_of tq a"
    and "filter_mset (\<lambda>e. snd e = a) (mset (heap tq')) = filter_mset (\<lambda>e. snd e = a) (mset (heap tq))"
  shows "timer_ok is_inf tq' a i = timer_ok is_inf tq a i"
  by (simp only: timer_ok_def assms)

lemma timer_ok_idle:
  "tq_inv tq \<Longrightarrow> op_queue_of tq a = [] \<Longrightarrow> ti_data impl = a \<Longrightarrow> timer_ok is_inf tq a (Some impl)"
  by (simp add: timer_ok_def no_ops_not_in_heap)

lemma timers_ok_upd:
  assumes "timers_ok is_inf tq I" and "tq_inv tq'" and "timer_ok is_inf tq' a i"
    and "\<And>b. b \<noteq> a \<Longrightarrow> op_queue_of tq' b = op_queue_of tq b"
    and "\<And>b. b \<noteq> a \<Longrightarrow> filter_mset (\<lambda>e. snd e = b) (mset (heap tq')) = filter_mset (\<lambda>e. snd e = b) (mset (heap tq))"
  shows "timers_ok is_inf tq' (I(a := i))"
  using assms timer_ok_same [of tq' _ tq is_inf] by (auto simp: timers_ok_def)

lemma cancelled_queue:
  assumes "tq_inv tq"
  shows "\<exists>tq' ecs ops. timer_cancel tq a ecs0 [] m = (tq', ecs, ops, min m (length (op_queue_of tq a))) \<and> tq_inv tq' \<and>
    op_queue_of tq' = (op_queue_of tq)(a := drop m (op_queue_of tq a)) \<and>
    (\<forall>b. b \<noteq> a \<longrightarrow> filter_mset (\<lambda>e. snd e = b) (mset (heap tq')) = filter_mset (\<lambda>e. snd e = b) (mset (heap tq))) \<and>
    (drop m (op_queue_of tq a) \<noteq> [] \<longrightarrow> mset (heap tq') = mset (heap tq))"
proof -
  have d: "drop (min m (length (op_queue_of tq a))) (op_queue_of tq a) = drop m (op_queue_of tq a)"
    by (simp add: min_def)
  obtain tq' where c: "timer_cancel tq a ecs0 [] m = (tq', set_ec (basic_ec operation_aborted)
        (take (min m (length (op_queue_of tq a))) (op_queue_of tq a)) ecs0,
        [] @ take (min m (length (op_queue_of tq a))) (op_queue_of tq a), min m (length (op_queue_of tq a)))"
      "tq_inv tq'" "op_queue_of tq' = (op_queue_of tq)(a := drop m (op_queue_of tq a))"
      "mset (heap tq') = (if drop m (op_queue_of tq a) = [] then drop_timer a (mset (heap tq)) else mset (heap tq))"
    using timer_cancel_correct [OF assms, of a ecs0 "[]" m] unfolding d by (elim exE conjE) (rule that, assumption+)
  have "filter_mset (\<lambda>e. snd e = b) (mset (heap tq')) = filter_mset (\<lambda>e. snd e = b) (mset (heap tq))" if "b \<noteq> a" for b
    using that by (simp add: c(4) drop_timer_def filter_filter_mset conj_commute) (auto intro: filter_mset_cong)
  with c show ?thesis by auto
qed

lemma cancelled_ok:
  assumes "timers_ok is_inf tq I" and "timer_cancel tq a ecs0 [] m = (tq', ecs, ops, k)" and "I a = Some impl"
    and "ti_data impl1 = a" and "drop m (op_queue_of tq a) \<noteq> [] \<longrightarrow> impl1 = impl"
  shows "k = min m (length (op_queue_of tq a)) \<and> op_queue_of tq' = (op_queue_of tq)(a := drop m (op_queue_of tq a)) \<and>
    timers_ok is_inf tq' (I(a := Some impl1))"
proof -
  have inv: "tq_inv tq" using assms(1) by (simp add: timers_ok_def)
  have c: "k = min m (length (op_queue_of tq a))" "tq_inv tq'"
      "op_queue_of tq' = (op_queue_of tq)(a := drop m (op_queue_of tq a))"
      "\<And>b. b \<noteq> a \<Longrightarrow> filter_mset (\<lambda>e. snd e = b) (mset (heap tq')) = filter_mset (\<lambda>e. snd e = b) (mset (heap tq))"
      "drop m (op_queue_of tq a) \<noteq> [] \<Longrightarrow> mset (heap tq') = mset (heap tq)"
    using cancelled_queue [OF inv, of a ecs0 m] assms(2) by auto
  have "timer_ok is_inf tq' a (Some impl1)"
  proof (cases "drop m (op_queue_of tq a) = []")
    case True
    then show ?thesis
      using c assms(4) by (intro timer_ok_idle) auto
  next
    case False
    then have "op_queue_of tq a \<noteq> []" by auto
    moreover have "timer_ok is_inf tq a (Some impl)" using assms(1,3) unfolding timers_ok_def by metis
    ultimately show ?thesis
      using False assms(5) c(3,5) by (simp add: timer_ok_def split: if_splits)
  qed
  from timers_ok_upd [OF assms(1) c(2) this] c show ?thesis by simp
qed

lemma enqueued_ok:
  fixes op
  assumes "timers_ok is_inf tq I" and "Suc (length (heap tq)) < size_max" and "I a = Some impl"
  defines "tq' \<equiv> fst (enqueue_timer is_inf (ti_expiry impl) a op tq)"
  shows "op_queue_of tq' = (op_queue_of tq)(a := op_queue_of tq a @ [op]) \<and>
    timers_ok is_inf tq' (I(a := Some (impl\<lparr>might_have_pending_waits := True\<rparr>)))"
proof -
  obtain ts where w: "tq_inv_with tq ts" using assms(1) by (auto simp: timers_ok_def tq_inv_def)
  note c = enqueue_timer_correct [OF w assms(2), of is_inf "ti_expiry impl" a op, folded tq'_def]
  have act: "a \<in> set ts \<longleftrightarrow> op_queue_of tq a \<noteq> []" using tq_inv_withD(7) [OF w, of a] by blast
  have inv: "tq_inv tq'" using c unfolding tq_inv_def by blast
  have ok: "timer_ok is_inf tq a (Some impl)" using assms(1,3) unfolding timers_ok_def by metis
  have "timer_ok is_inf tq' a (Some (impl\<lparr>might_have_pending_waits := True\<rparr>))"
    using ok c act no_ops_not_in_heap [of tq a] w
    by (auto simp: timer_ok_def new_entries_def tq_inv_def split: if_splits)
  moreover have "filter_mset (\<lambda>e. snd e = b) (mset (heap tq')) = filter_mset (\<lambda>e. snd e = b) (mset (heap tq))" if "b \<noteq> a" for b
    using c that by (simp add: new_entries_def)
  ultimately show ?thesis
    using c timers_ok_upd [OF assms(1) inv] by simp
qed

lemma moved_ok:
  assumes "timers_ok is_inf tq I" and "I b = Some other" and "a \<noteq> b" and "op_queue_of tq a = []"
    and "ti_data impl = a"
  shows "timers_ok is_inf (move_timer tq a b) (I(a := Some (fst (timer_move_fields epoch impl other)),
      b := Some (snd (timer_move_fields epoch impl other)))) \<and>
    op_queue_of (move_timer tq a b) = (op_queue_of tq)(a := op_queue_of tq b, b := [])"
proof -
  obtain ts where w: "tq_inv_with tq ts" using assms(1) by (auto simp: timers_ok_def tq_inv_def)
  have out: "a \<notin> set ts" using tq_inv_withD(7) [OF w, of a] assms(4) by blast
  note m = move_timer_correct [OF w out, of b] and e = move_timer_eq [OF w out, of b]
  have ne: "b \<noteq> a" using assms(3) by simp
  have ops: "op_queue_of (move_timer tq a b) = (op_queue_of tq)(a := op_queue_of tq b, b := [])"
    and hp: "heap (move_timer tq a b) = map (\<lambda>e. (fst e, rename1 b a (snd e))) (heap tq)"
    using e [OF ne] by simp_all
  have inv: "tq_inv (move_timer tq a b)" using m [OF ne] unfolding tq_inv_def by blast
  have ok: "timer_ok is_inf tq b (Some other)" using assms(1,2) unfolding timers_ok_def by metis
  have fb: "filter_mset (\<lambda>e. snd e = a) (mset (heap tq)) = {#}"
    using no_ops_not_in_heap [OF _ assms(4)] w by (auto simp: tq_inv_def)
  have ren: "filter_mset (\<lambda>e. snd e = x) (mset (heap (move_timer tq a b))) =
      image_mset (\<lambda>e. (fst e, rename1 b a (snd e))) (filter_mset (\<lambda>e. rename1 b a (snd e) = x) (mset (heap tq)))" for x
    by (simp add: hp filter_mset_image_mset)
  have noa: "\<forall>e\<in>#mset (heap tq). snd e \<noteq> a" using fb by (simp only: filter_mset_eq_mempty_iff) blast
  have keep: "filter_mset (\<lambda>e. snd e = x) (mset (heap (move_timer tq a b))) = filter_mset (\<lambda>e. snd e = x) (mset (heap tq))"
    if x: "x \<noteq> a" "x \<noteq> b" for x
  proof -
    have "filter_mset (\<lambda>e. rename1 b a (snd e) = x) (mset (heap tq)) = filter_mset (\<lambda>e. snd e = x) (mset (heap tq))"
      using x by (intro filter_mset_cong refl) (auto simp: rename1_def)
    moreover have "image_mset (\<lambda>e. (fst e, rename1 b a (snd e))) (filter_mset (\<lambda>e. snd e = x) (mset (heap tq))) =
        filter_mset (\<lambda>e. snd e = x) (mset (heap tq))"
      using x by (intro multiset.map_ident_strong) (auto simp: rename1_def)
    ultimately show ?thesis by (simp add: ren)
  qed
  have toa: "filter_mset (\<lambda>e. snd e = a) (mset (heap (move_timer tq a b))) =
      image_mset (\<lambda>e. (fst e, a)) (filter_mset (\<lambda>e. snd e = b) (mset (heap tq)))"
  proof -
    have "filter_mset (\<lambda>e. rename1 b a (snd e) = a) (mset (heap tq)) = filter_mset (\<lambda>e. snd e = b) (mset (heap tq))"
      using noa by (intro filter_mset_cong refl) (auto simp: rename1_def)
    then show ?thesis
      unfolding ren by (simp only:) (intro image_mset_cong, auto simp: rename1_def)
  qed
  have oka: "timer_ok is_inf (move_timer tq a b) a (Some (fst (timer_move_fields epoch impl other)))"
    using ok assms(3,5) by (auto simp: timer_ok_def timer_move_fields_def ops toa)
  have okb: "timer_ok is_inf (move_timer tq a b) b (Some (snd (timer_move_fields epoch impl other)))"
    using ok by (intro timer_ok_idle [OF inv]) (simp_all add: ops timer_ok_def timer_move_fields_def)
  have "timer_ok is_inf (move_timer tq a b) x (I x)" if "x \<noteq> a" "x \<noteq> b" for x
    using assms(1) timer_ok_same [of "move_timer tq a b" x tq is_inf "I x"] keep [OF that] that
    by (auto simp: timers_ok_def ops)
  with oka okb inv ops show ?thesis by (auto simp: timers_ok_def)
qed

lemma expired_ok:
  assumes "timers_ok is_inf tq I" and "ready_split now tq tq' es" and "tq_inv tq'"
  shows "timers_ok is_inf tq' I"
proof -
  have s: "mset (heap tq) = mset es + mset (heap tq')" "op_queue_of tq' = (\<lambda>t. if t \<in> snd ` set es then [] else op_queue_of tq t)"
    using assms(2) by (simp_all add: ready_split_def)
  have "timer_ok is_inf tq' a (I a)" for a
  proof (cases "a \<in> snd ` set es")
    case True
    then have "op_queue_of tq' a = []" by (simp add: s)
    moreover have "timer_ok is_inf tq a (I a)" using assms(1) by (simp add: timers_ok_def)
    ultimately show ?thesis
      using timer_ok_idle [OF assms(3)] by (cases "I a") (auto simp: timer_ok_def)
  next
    case False
    then have "filter_mset (\<lambda>e. snd e = a) (mset es) = {#}" by (force simp: filter_mset_eq_mempty_iff)
    moreover have "timer_ok is_inf tq a (I a)" using assms(1) by (simp add: timers_ok_def)
    ultimately show ?thesis
      using False timer_ok_same [of tq' a tq is_inf "I a"] by (simp add: s)
  qed
  with assms(3) show ?thesis by (simp add: timers_ok_def)
qed

section \<open>Steps\<close>

text \<open>What a program does with the timers of one service: the operations on timers, the expiry of timers
  in the reactor, and anything that leaves the queue alone. The timers that exist are the domain of \<open>I\<close>;
  they and their waits are never so many that a \<open>size_t\<close> overflows. The shutdown of the reactor empties the
  queue for good and is not a step.\<close>

inductive timer_step ::
  "('w, 'd) ctl \<Rightarrow> int \<Rightarrow> ('w \<Rightarrow> (int \<times> int) \<times> bool \<Rightarrow> 'w) \<Rightarrow> ('q \<Rightarrow> ('t, 'a, 'o) timer_queue \<Rightarrow> int \<Rightarrow> int) \<Rightarrow> ('t::linorder \<Rightarrow> bool) \<Rightarrow> 't \<Rightarrow> 'q \<Rightarrow>
   ('o, 'd, 'w, 'q, 't, 'a) reactor \<times> ('a \<Rightarrow> ('t, 'a) timer_impl option) \<Rightarrow>
   ('o, 'd, 'w, 'q, 't, 'a) reactor \<times> ('a \<Rightarrow> ('t, 'a) timer_impl option) \<Rightarrow> bool"
  for ctl fd settime wait_usec is_inf epoch q where
  construct: "I a = None \<Longrightarrow> ti_data impl = a \<Longrightarrow>
    timer_step ctl fd settime wait_usec is_inf epoch q (r, I) (r, I(a := Some (timer_construct epoch impl)))"
| destroy: "I a = Some impl \<Longrightarrow> timer_destroy q impl r = (r1, impl1) \<Longrightarrow>
    timer_step ctl fd settime wait_usec is_inf epoch q (r, I) (r1, I(a := None))"
| cancel: "I a = Some impl \<Longrightarrow> timer_service_cancel q impl r = (r1, impl1, n, ec) \<Longrightarrow>
    timer_step ctl fd settime wait_usec is_inf epoch q (r, I) (r1, I(a := Some impl1))"
| cancel_one: "I a = Some impl \<Longrightarrow> timer_service_cancel_one q impl r = (r1, impl1, n, ec) \<Longrightarrow>
    timer_step ctl fd settime wait_usec is_inf epoch q (r, I) (r1, I(a := Some impl1))"
| set_expiry: "I a = Some impl \<Longrightarrow> timer_set_expiry q impl t r = (r1, impl1, n, ec) \<Longrightarrow>
    timer_step ctl fd settime wait_usec is_inf epoch q (r, I) (r1, I(a := Some impl1))"
| async_wait: "I a = Some impl \<Longrightarrow> Suc (length (heap (timer_queue_at r q))) < size_max \<Longrightarrow>
    length (op_queue_of (timer_queue_at r q) a) < size_max \<Longrightarrow>
    timer_async_wait ctl fd settime wait_usec is_inf q impl op r = (r1, impl1) \<Longrightarrow>
    timer_step ctl fd settime wait_usec is_inf epoch q (r, I) (r1, I(a := Some impl1))"
| move_construct: "I a = None \<Longrightarrow> ti_data impl = a \<Longrightarrow> I b = Some other \<Longrightarrow>
    timer_move_construct q epoch impl other r = (r1, impl1, other1) \<Longrightarrow>
    timer_step ctl fd settime wait_usec is_inf epoch q (r, I) (r1, I(a := Some impl1, b := Some other1))"
| move_assign: "I a = Some impl \<Longrightarrow> I b = Some other \<Longrightarrow> a \<noteq> b \<Longrightarrow>
    timer_move_assign ((), q) ((), q) epoch impl other (\<lambda>c. r) = (rs1, impl1, other1) \<Longrightarrow>
    timer_step ctl fd settime wait_usec is_inf epoch q (r, I) (rs1 (), I(a := Some impl1, b := Some other1))"
| expired: "get_ready_timers now (timer_queue_at r q) ops = Some (timer_queue_at r1 q, ops1) \<Longrightarrow>
    timer_step ctl fd settime wait_usec is_inf epoch q (r, I) (r1, I)"
| other: "timer_queue_at r1 q = timer_queue_at r q \<Longrightarrow>
    timer_step ctl fd settime wait_usec is_inf epoch q (r, I) (r1, I)"

definition timers_after ::
  "('w, 'd) ctl \<Rightarrow> int \<Rightarrow> ('w \<Rightarrow> (int \<times> int) \<times> bool \<Rightarrow> 'w) \<Rightarrow> ('q \<Rightarrow> ('t, 'a, 'o) timer_queue \<Rightarrow> int \<Rightarrow> int) \<Rightarrow> ('t::linorder \<Rightarrow> bool) \<Rightarrow> 't \<Rightarrow> 'q \<Rightarrow>
   ('o, 'd, 'w, 'q, 't, 'a) reactor \<Rightarrow> ('o, 'd, 'w, 'q, 't, 'a) reactor \<times> ('a \<Rightarrow> ('t, 'a) timer_impl option) \<Rightarrow> bool" where
  "timers_after ctl fd settime wait_usec is_inf epoch q r0 s \<longleftrightarrow>
     (timer_step ctl fd settime wait_usec is_inf epoch q)\<^sup>*\<^sup>* (r0, \<lambda>_. None) s"

lemma timers_ok_live:
  assumes "timers_ok is_inf tq I" and "I a = Some impl"
  shows "ti_data impl = a" "might_have_pending_waits impl \<or> op_queue_of tq a = []" "timer_ok is_inf tq a (Some impl)"
proof -
  have "timer_ok is_inf tq a (I a)" using assms(1) by (simp add: timers_ok_def)
  then show "ti_data impl = a" "might_have_pending_waits impl \<or> op_queue_of tq a = []" "timer_ok is_inf tq a (Some impl)"
    using assms(2) by (simp_all add: timer_ok_def)
qed

text \<open>Fewer waits than a \<open>size_t\<close> can count.\<close>

definition waits_fit :: "('t, 'a, 'o) timer_queue \<Rightarrow> bool" where
  "waits_fit tq \<longleftrightarrow> (\<forall>a. length (op_queue_of tq a) \<le> size_max)"

lemma same_impl: "I a = Some impl \<Longrightarrow> I(a := Some impl) = I"
  by auto

lemma service_cancel_ok:
  assumes "timers_ok is_inf (timer_queue_at r q) I" and "waits_fit (timer_queue_at r q)" and "I a = Some impl"
    and "timer_service_cancel q impl r = (r1, impl1, n, ec)"
  shows "timers_ok is_inf (timer_queue_at r1 q) (I(a := Some impl1)) \<and>
    op_queue_of (timer_queue_at r1 q) = (op_queue_of (timer_queue_at r q))(a := []) \<and>
    n = length (op_queue_of (timer_queue_at r q) a) \<and> impl1 = impl\<lparr>might_have_pending_waits := False\<rparr>"
proof (cases "might_have_pending_waits impl")
  case False
  then have "op_queue_of (timer_queue_at r q) a = []" "impl\<lparr>might_have_pending_waits := False\<rparr> = impl"
    using timers_ok_live [OF assms(1,3)] by (cases impl; simp)+
  with False assms(4) assms(1) same_impl [of I a impl, OF assms(3)] show ?thesis
    by (auto simp: timer_service_cancel_def fun_upd_idem)
next
  case True
  obtain tq' ecs ops k where t: "timer_cancel (timer_queue_at r q) a (r_op_ec r) [] size_max = (tq', ecs, ops, k)"
    by (metis prod_cases4)
  have fit: "drop size_max (op_queue_of (timer_queue_at r q) a) = []" "min size_max (length (op_queue_of (timer_queue_at r q) a)) = length (op_queue_of (timer_queue_at r q) a)"
    using assms(2) by (simp_all add: waits_fit_def)
  from True assms(4) t timers_ok_live(1) [OF assms(1,3)]
  have i: "impl1 = impl\<lparr>might_have_pending_waits := False\<rparr>" "timer_queue_at r1 q = tq'" "n = k"
    using cancel_timer_queue [of q a size_max r] by (auto simp: timer_service_cancel_def split: prod.splits)
  from cancelled_ok [OF assms(1) t assms(3), of impl1] fit timers_ok_live(1) [OF assms(1,3)] show ?thesis
    by (simp add: i)
qed

lemma service_cancel_one_ok:
  assumes "timers_ok is_inf (timer_queue_at r q) I" and "I a = Some impl"
    and "timer_service_cancel_one q impl r = (r1, impl1, n, ec)"
  shows "timers_ok is_inf (timer_queue_at r1 q) (I(a := Some impl1)) \<and>
    op_queue_of (timer_queue_at r1 q) = (op_queue_of (timer_queue_at r q))(a := drop 1 (op_queue_of (timer_queue_at r q) a)) \<and>
    n = min 1 (length (op_queue_of (timer_queue_at r q) a))"
proof (cases "might_have_pending_waits impl")
  case False
  then have "op_queue_of (timer_queue_at r q) a = []"
    using timers_ok_live [OF assms(1,2)] by simp
  with False assms(3) assms(1) same_impl [of I a impl, OF assms(2)] show ?thesis
    by (auto simp: timer_service_cancel_one_def fun_upd_idem)
next
  case True
  obtain tq' ecs ops k where t: "timer_cancel (timer_queue_at r q) a (r_op_ec r) [] 1 = (tq', ecs, ops, k)"
    by (metis prod_cases4)
  from True assms(3) t timers_ok_live(1) [OF assms(1,2)]
  have i: "impl1 = (if k = 0 then impl\<lparr>might_have_pending_waits := False\<rparr> else impl)" "timer_queue_at r1 q = tq'" "n = k"
    using cancel_timer_queue [of q a 1 r] by (auto simp: timer_service_cancel_one_def split: prod.splits)
  have "k = min 1 (length (op_queue_of (timer_queue_at r q) a))"
    using cancelled_queue [of "timer_queue_at r q" a "r_op_ec r" 1] t assms(1) by (auto simp: timers_ok_def)
  then have "drop 1 (op_queue_of (timer_queue_at r q) a) \<noteq> [] \<longrightarrow> impl1 = impl"
    by (auto simp: i)
  from cancelled_ok [OF assms(1) t assms(2) _ this] timers_ok_live(1) [OF assms(1,2)] show ?thesis
    by (simp add: i)
qed

lemma moved_queue:
  assumes "timers_ok is_inf (timer_queue_at r q) I" and "waits_fit (timer_queue_at r q)"
    and "I b = Some other" and "a \<noteq> b" and "ti_data impl = a" and "I a = None \<or> I a = Some impl"
  shows "timers_ok is_inf (timer_queue_at (reactor_move_timer q a b r) q)
      (I(a := Some (fst (timer_move_fields epoch impl other)), b := Some (snd (timer_move_fields epoch impl other)))) \<and>
    op_queue_of (timer_queue_at (reactor_move_timer q a b r) q) =
      (op_queue_of (timer_queue_at r q))(a := op_queue_of (timer_queue_at r q) b, b := [])"
proof -
  let ?tq = "timer_queue_at r q"
  obtain tq' ecs ops k where t: "timer_cancel ?tq a (r_op_ec r) [] size_max = (tq', ecs, ops, k)"
    by (metis prod_cases4)
  have fit: "drop size_max (op_queue_of ?tq a) = []" using assms(2) by (simp add: waits_fit_def)
  have c: "timers_ok is_inf tq' I \<and> op_queue_of tq' = (op_queue_of ?tq)(a := [])"
  proof (cases "I a")
    case None
    have "timer_ok is_inf ?tq a (I a)" using assms(1) by (simp add: timers_ok_def)
    with None have e: "op_queue_of ?tq a = []" by (simp add: timer_ok_def)
    have inv: "tq_inv ?tq" using assms(1) by (simp add: timers_ok_def)
    have q: "tq_inv tq'" "op_queue_of tq' = op_queue_of ?tq"
        "\<And>x. x \<noteq> a \<Longrightarrow> filter_mset (\<lambda>e. snd e = x) (mset (heap tq')) = filter_mset (\<lambda>e. snd e = x) (mset (heap ?tq))"
      using cancelled_queue [OF inv, of a "r_op_ec r" size_max] t by (auto simp: e fun_upd_idem)
    have "timer_ok is_inf tq' a None" using e q(2) by (simp add: timer_ok_def)
    then have "timers_ok is_inf tq' (I(a := None))"
      by (rule timers_ok_upd [OF assms(1) q(1)]) (simp_all add: q(2,3))
    moreover have "I(a := None) = I" "(op_queue_of ?tq)(a := []) = op_queue_of ?tq"
      using None e by (auto simp: fun_upd_idem)
    ultimately show ?thesis by (simp only: q(2) simp_thms)
  next
    case (Some i)
    with assms(6) have ia: "I a = Some impl" by simp
    have "timers_ok is_inf tq' (I(a := Some impl)) \<and> op_queue_of tq' = (op_queue_of ?tq)(a := drop size_max (op_queue_of ?tq a))"
      using cancelled_ok [OF assms(1) t ia assms(5)] by blast
    then show ?thesis unfolding fit same_impl [of I, OF ia] .
  qed
  have "timer_queue_at (reactor_move_timer q a b r) q = move_timer tq' a b"
    by (simp add: move_timer_queue t)
  with moved_ok [of is_inf tq' I b other a impl epoch] c assms(3-5) show ?thesis by (simp add: fun_upd_twist)
qed

lemma waits_fit_upd: "waits_fit tq \<Longrightarrow> op_queue_of tq' = (op_queue_of tq)(a := xs) \<Longrightarrow> length xs \<le> size_max \<Longrightarrow> waits_fit tq'"
  by (simp add: waits_fit_def)

lemma timers_ok_replace:
  assumes "timers_ok is_inf tq (I(a := x))" and "timer_ok is_inf tq a y"
  shows "timers_ok is_inf tq (I(a := y))"
proof -
  have "timer_ok is_inf tq b ((I(a := y)) b)" for b
    using assms spec [of "\<lambda>b. timer_ok is_inf tq b ((I(a := x)) b)" b] by (cases "b = a") (auto simp: timers_ok_def)
  with assms(1) show ?thesis by (simp add: timers_ok_def)
qed

lemma timer_step_ok:
  assumes "timer_step ctl fd settime wait_usec is_inf epoch q s s'"
    and "timers_ok is_inf (timer_queue_at (fst s) q) (snd s)" and "waits_fit (timer_queue_at (fst s) q)"
  shows "timers_ok is_inf (timer_queue_at (fst s') q) (snd s') \<and> waits_fit (timer_queue_at (fst s') q)"
  using assms
proof (induction rule: timer_step.induct)
  case (construct I a impl r)
  have "timer_ok is_inf (timer_queue_at r q) a (I a)" "tq_inv (timer_queue_at r q)"
    using construct(3) by (simp_all add: timers_ok_def)
  then have "timer_ok is_inf (timer_queue_at r q) a (Some (timer_construct epoch impl))"
    using construct(1,2) by (intro timer_ok_idle) (simp_all add: timer_ok_def timer_construct_def)
  with construct(3,4) show ?case by (simp add: timers_ok_def)
next
  case (destroy I a impl r r1 impl1)
  then obtain n ec where c: "timer_service_cancel q impl r = (r1, impl1, n, ec)"
    by (auto simp: timer_destroy_def split: prod.splits)
  note k = service_cancel_ok [OF destroy(3) [unfolded fst_conv snd_conv] destroy(4) [unfolded fst_conv] destroy(1) c]
  have "timer_ok is_inf (timer_queue_at r1 q) a None" using k by (simp add: timer_ok_def)
  with k have "timers_ok is_inf (timer_queue_at r1 q) (I(a := None))" by (blast intro: timers_ok_replace)
  moreover have "waits_fit (timer_queue_at r1 q)" using k destroy(4) by (simp add: waits_fit_def)
  ultimately show ?case unfolding fst_conv snd_conv by (rule conjI)
next
  case (cancel I a impl r r1 impl1 n ec)
  note k = service_cancel_ok [OF cancel(3) [unfolded fst_conv snd_conv] cancel(4) [unfolded fst_conv] cancel(1,2)]
  moreover have "waits_fit (timer_queue_at r1 q)" using k cancel(4) by (simp add: waits_fit_def)
  ultimately show ?case unfolding fst_conv snd_conv by blast
next
  case (cancel_one I a impl r r1 impl1 n ec)
  note k = service_cancel_one_ok [OF cancel_one(3) [unfolded fst_conv snd_conv] cancel_one(1,2)]
  moreover have "waits_fit (timer_queue_at r1 q)"
    using k cancel_one(4) by (simp add: waits_fit_def) (meson diff_le_self order_trans)
  ultimately show ?case unfolding fst_conv snd_conv by blast
next
  case (set_expiry I a impl t r r1 impl1 n ec)
  then obtain impl2 n2 ec2 where c: "timer_service_cancel q impl r = (r1, impl2, n2, ec2)" "impl1 = impl2\<lparr>ti_expiry := t\<rparr>"
    by (auto simp: timer_set_expiry_def split: prod.splits)
  note k = service_cancel_ok [OF set_expiry(3) [unfolded fst_conv snd_conv] set_expiry(4) [unfolded fst_conv] set_expiry(1) c(1)]
  have "tq_inv (timer_queue_at r1 q)" "ti_data impl = a"
    using k timers_ok_live(1) [OF set_expiry(3) [unfolded fst_conv snd_conv] set_expiry(1)] by (auto simp: timers_ok_def)
  then have "timer_ok is_inf (timer_queue_at r1 q) a (Some impl1)" using k by (intro timer_ok_idle) (simp_all add: c(2))
  with k have "timers_ok is_inf (timer_queue_at r1 q) (I(a := Some impl1))" by (blast intro: timers_ok_replace)
  moreover have "waits_fit (timer_queue_at r1 q)" using k set_expiry(4) by (simp add: waits_fit_def)
  ultimately show ?case unfolding fst_conv snd_conv by (rule conjI)
next
  case (async_wait I a impl r op r1 impl1)
  have d: "ti_data impl = a" using timers_ok_live(1) [OF async_wait(5) [unfolded fst_conv snd_conv] async_wait(1)] .
  have i: "impl1 = impl\<lparr>might_have_pending_waits := True\<rparr>"
      "timer_queue_at r1 q = (if r_shutdown r then timer_queue_at r q else fst (enqueue_timer is_inf (ti_expiry impl) a op (timer_queue_at r q)))"
    using async_wait(4) d by (auto simp: timer_async_wait_def schedule_timer_queue)
  show ?case
  proof (cases "r_shutdown r")
    case True
    have "timer_ok is_inf (timer_queue_at r q) a (Some impl1)"
      using timers_ok_live(3) [OF async_wait(5) [unfolded fst_conv snd_conv] async_wait(1)] by (simp add: timer_ok_def i split: if_splits)
    with True async_wait(5,6) i show ?thesis by (simp add: timers_ok_def)
  next
    case False
    note k = enqueued_ok [OF async_wait(5) [unfolded fst_conv snd_conv] async_wait(2,1), of op]
    moreover have "waits_fit (timer_queue_at r1 q)" using k async_wait(3,6) False i by (simp add: waits_fit_def)
    ultimately show ?thesis using False i unfolding fst_conv snd_conv by metis
  qed
next
  case (move_construct I a impl b other r r1 impl1 other1)
  have "a \<noteq> b" "ti_data other = b"
    using move_construct(1,3) timers_ok_live(1) [OF move_construct(5) [unfolded fst_conv snd_conv] move_construct(3)] by auto
  note ab = this
  let ?r = "reactor_move_timer q a b r"
  have e: "r1 = ?r" "impl1 = fst (timer_move_fields epoch impl other)" "other1 = snd (timer_move_fields epoch impl other)"
    using move_construct(2,4) ab(2) by (auto simp: timer_move_construct_def)
  note k = moved_queue [OF move_construct(5) [unfolded fst_conv snd_conv] move_construct(6) [unfolded fst_conv] move_construct(3) ab(1)
      move_construct(2) disjI1 [OF move_construct(1)], of epoch]
  moreover have "waits_fit (timer_queue_at ?r q)" using k move_construct(6) by (simp add: waits_fit_def)
  ultimately show ?case unfolding e fst_conv snd_conv by blast
next
  case (move_assign I a impl b other r rs1 impl1 other1)
  have "ti_data impl = a" "ti_data other = b"
    using timers_ok_live(1) [OF move_assign(5) [unfolded fst_conv snd_conv]] move_assign(1,2) by auto
  note ab = this
  let ?r = "reactor_move_timer q a b r"
  have e: "rs1 () = ?r" "impl1 = fst (timer_move_fields epoch impl other)" "other1 = snd (timer_move_fields epoch impl other)"
    using move_assign(4) ab by (auto simp: timer_move_assign_def)
  note k = moved_queue [OF move_assign(5) [unfolded fst_conv snd_conv] move_assign(6) [unfolded fst_conv] move_assign(2,3)
      ab(1) disjI2 [OF move_assign(1)], of epoch]
  moreover have "waits_fit (timer_queue_at ?r q)" using k move_assign(6) by (simp add: waits_fit_def)
  ultimately show ?case unfolding e fst_conv snd_conv by blast
next
  case (expired now r ops r1 ops1 I)
  have "tq_inv (timer_queue_at r q)" using expired(2) by (simp add: timers_ok_def)
  from get_ready_timers_correct [OF this, of now ops] expired(1)
  obtain es where "tq_inv (timer_queue_at r1 q)" "ready_split now (timer_queue_at r q) (timer_queue_at r1 q) es" by auto
  with expired_ok [of is_inf "timer_queue_at r q" I now "timer_queue_at r1 q" es] expired(2,3) show ?case
    by (auto simp: ready_split_def waits_fit_def)
next
  case (other r1 r I)
  then show ?case by simp
qed

lemma timers_after_ok:
  assumes "timers_after ctl fd settime wait_usec is_inf epoch q r0 s" and "timer_queue_at r0 q = timer_queue_new"
  shows "timers_ok is_inf (timer_queue_at (fst s) q) (snd s) \<and> waits_fit (timer_queue_at (fst s) q)"
  using assms(1) unfolding timers_after_def
proof (induction rule: rtranclp_induct)
  case base
  have "tq_inv (timer_queue_at r0 q)"
    using tq_inv_with_new unfolding tq_inv_def assms(2) by blast
  moreover have "op_queue_of (timer_queue_at r0 q) = (\<lambda>_. [])" by (simp add: assms(2) timer_queue_new_def)
  ultimately show ?case by (simp add: timers_ok_def timer_ok_def waits_fit_def)
next
  case (step s1 s2)
  from timer_step_ok [OF step(2)] step(3) show ?case by blast
qed

section \<open>The blocking wait\<close>

text \<open>A clock and a \<open>select\<close>: \<open>time_of\<close> is the clock's next reading. Readings never decrease, and \<open>select\<close>
  does not turn the clock back. A reading may be the one before, and \<open>select\<close> may return before any time
  has passed, but not forever: \<open>stuck\<close> bounds the rounds in which the clock stands still.\<close>

definition clock_law :: "('w \<Rightarrow> int) \<Rightarrow> ('w \<Rightarrow> nat) \<Rightarrow> 'w clock \<Rightarrow> 'w select_call \<Rightarrow> bool" where
  "clock_law time_of stuck now sel \<longleftrightarrow>
     (\<forall>w. is_int64 (time_of w) \<and> snd (now w) = time_of w \<and> time_of w \<le> time_of (fst (now w))) \<and>
     (\<forall>w tv. time_of w \<le> time_of (fst (sel w 0 (\<lambda>_. {}) tv))) \<and>
     (\<forall>w tv. let w1 = fst (now (fst (sel w 0 (\<lambda>_. {}) tv)))
             in time_of w1 = time_of w \<and> time_of w < int64_max \<longrightarrow> stuck w1 < stuck w)"

text \<open>A sequence of calls of \<open>select\<close>, each with its timeout and the reading of the clock before it: the clock
  is read after each call, and no call follows one that failed.\<close>

inductive select_calls ::
  "'w clock \<Rightarrow> 'w select_call \<Rightarrow> int \<Rightarrow> error_code \<Rightarrow> 'w \<Rightarrow> (int \<times> int \<times> int) list \<Rightarrow> int \<Rightarrow> error_code \<Rightarrow> 'w \<Rightarrow> bool"
  for now :: "'w clock" and sel :: "'w select_call" where
  no_call: "select_calls now sel t ec w [] t ec w"
| one_call: "\<not> ec_failed ec \<Longrightarrow> socket_select sel 0 (\<lambda>_. {}) tv w = (w1, n, sets, ec1) \<Longrightarrow> now w1 = (w2, t1) \<Longrightarrow>
    select_calls now sel t1 ec1 w2 calls t' ec' w' \<Longrightarrow> select_calls now sel t ec w ((t, tv) # calls) t' ec' w'"

text \<open>A call is made before the expiry and asks for what is left then, in whole microseconds: never for longer.\<close>

definition asks_for_rest :: "int \<Rightarrow> int \<times> int \<times> int \<Rightarrow> bool" where
  "asks_for_rest expiry call \<longleftrightarrow>
     (case call of (t, sec, usec) \<Rightarrow>
        t < expiry \<and> 0 \<le> sec \<and> 0 \<le> usec \<and> usec < 1000000 \<and>
        sec * 1000000 + usec = clamp64 (expiry - t) div 1000 \<and> (sec * 1000000 + usec) * 1000 \<le> expiry - t)"

lemma do_wait_rest:
  assumes "t < expiry"
  obtains tv where "asks_for_rest expiry (t, tv)"
    and "\<And>w. timer_do_wait sel nanoseconds (clamp64 (expiry - t)) w =
      (case socket_select sel 0 (\<lambda>_. {}) tv w of (w1, n, sets, ec) \<Rightarrow> Some (w1, ec))"
proof
  let ?d = "clamp64 (expiry - t)"
  let ?tv = "(?d div 1000 div 1000000, ?d div 1000 mod 1000000)"
  have d: "0 \<le> ?d" "?d \<le> expiry - t"
    using assms by (simp_all add: clamp64_def int64_min_def int64_max_def)
  have "?d div 1000 * 1000 \<le> ?d" by (simp add: minus_mod_eq_div_mult [symmetric])
  moreover have "?d div 1000 div 1000000 * 1000000 + ?d div 1000 mod 1000000 = ?d div 1000" by simp
  ultimately show "asks_for_rest expiry (t, ?tv)"
    using assms d by (simp only: asks_for_rest_def prod.case) (simp add: pos_imp_zdiv_nonneg_iff)
  show "timer_do_wait sel nanoseconds ?d w = (case socket_select sel 0 (\<lambda>_. {}) ?tv w of (w1, n, sets, ec) \<Rightarrow> Some (w1, ec))" for w
    using d(1) by (simp add: timer_do_wait_def nanoseconds_casts clamp64_range sdiv_nonneg smod_nonneg pos_imp_zdiv_nonneg_iff
        flip: zdiv_zmult2_eq)
qed

lemma clock_lawD:
  assumes "clock_law time_of stuck now sel"
  shows "now w = (w1, t) \<Longrightarrow> t = time_of w \<and> is_int64 t \<and> time_of w \<le> time_of w1"
    and "socket_select sel 0 (\<lambda>_. {}) tv w = (w1, n, sets, ec) \<Longrightarrow> time_of w \<le> time_of w1"
    and "socket_select sel 0 (\<lambda>_. {}) tv w = (w1, n, sets, ec) \<Longrightarrow> now w1 = (w2, t) \<Longrightarrow>
      time_of w2 = time_of w \<Longrightarrow> time_of w < int64_max \<Longrightarrow> stuck w2 < stuck w"
proof -
  show "now w = (w1, t) \<Longrightarrow> t = time_of w \<and> is_int64 t \<and> time_of w \<le> time_of w1"
    using assms unfolding clock_law_def by (metis fst_conv snd_conv)
  have s: "w1 = fst (sel w 0 (\<lambda>_. {}) tv)" if "socket_select sel 0 (\<lambda>_. {}) tv w = (w1, n, sets, ec)"
    using that by (auto simp: socket_select_def split: prod.splits)
  then show "socket_select sel 0 (\<lambda>_. {}) tv w = (w1, n, sets, ec) \<Longrightarrow> time_of w \<le> time_of w1"
    using assms unfolding clock_law_def by metis
  show "socket_select sel 0 (\<lambda>_. {}) tv w = (w1, n, sets, ec) \<Longrightarrow> now w1 = (w2, t) \<Longrightarrow>
      time_of w2 = time_of w \<Longrightarrow> time_of w < int64_max \<Longrightarrow> stuck w2 < stuck w"
    using assms s unfolding clock_law_def Let_def by (metis fst_conv)
qed

lemma wait_loop_returns:
  assumes law: "clock_law time_of stuck now sel" and e: "is_int64 expiry"
  shows "t \<le> time_of w \<Longrightarrow> is_int64 t \<Longrightarrow>
    \<exists>w' ec' calls t'. timer_wait_loop now sel nanoseconds expiry t ec w = Some (w', ec') \<and>
      select_calls now sel t ec w calls t' ec' w' \<and> (\<forall>c\<in>set calls. asks_for_rest expiry c) \<and> (\<not> ec_failed ec' \<longrightarrow> expiry \<le> t')"
proof (induction w arbitrary: t ec rule: wf_induct_rule [OF wf_measures [of "[\<lambda>w. nat (expiry - time_of w), stuck]"]])
  case less: (1 w)
  show ?case
  proof (cases "t < expiry \<and> \<not> ec_failed ec")
    case False
    then show ?thesis
      by (subst timer_wait_loop.simps) (auto simp: time_less_def intro!: exI [of _ "[]"] no_call)
  next
    case True
    then obtain tv where tv: "asks_for_rest expiry (t, tv)" and wait: "\<And>w. timer_do_wait sel nanoseconds (clamp64 (expiry - t)) w =
        (case socket_select sel 0 (\<lambda>_. {}) tv w of (w1, n, sets, ec) \<Rightarrow> Some (w1, ec))"
      using do_wait_rest by blast
    obtain w1 n sets ec1 where s: "socket_select sel 0 (\<lambda>_. {}) tv w = (w1, n, sets, ec1)" by (metis prod_cases4)
    obtain w2 t1 where r: "now w1 = (w2, t1)" by fastforce
    have run: "timer_wait_loop now sel nanoseconds expiry t ec w = timer_wait_loop now sel nanoseconds expiry t1 ec1 w2"
      using True less.prems(2) e wait s r by (subst timer_wait_loop.simps) (simp add: time_less_def time_subtract_clamps)
    have t1: "time_of w \<le> t1" "t1 \<le> time_of w2" "is_int64 t1"
      using clock_lawD(1) [OF law r] clock_lawD(2) [OF law s] by auto
    have "\<exists>w' ec' calls t'. timer_wait_loop now sel nanoseconds expiry t1 ec1 w2 = Some (w', ec') \<and>
      select_calls now sel t1 ec1 w2 calls t' ec' w' \<and> (\<forall>c\<in>set calls. asks_for_rest expiry c) \<and> (\<not> ec_failed ec' \<longrightarrow> expiry \<le> t')"
    proof (cases "time_of w < expiry")
      case False
      with t1 show ?thesis
        by (subst timer_wait_loop.simps) (auto simp: time_less_def intro!: exI [of _ "[]"] no_call)
    next
      case True
      have "(w2, w) \<in> measures [\<lambda>w. nat (expiry - time_of w), stuck]"
      proof (cases "time_of w2 = time_of w")
        case same: True
        with True e have "stuck w2 < stuck w" by (intro clock_lawD(3) [OF law s r]) (auto simp: is_int64_def)
        with same show ?thesis by simp
      next
        case False
        with True t1 show ?thesis by simp
      qed
      from less.IH [OF this t1(2,3)] show ?thesis .
    qed
    then obtain w' ec' calls t' where "timer_wait_loop now sel nanoseconds expiry t1 ec1 w2 = Some (w', ec')"
        "select_calls now sel t1 ec1 w2 calls t' ec' w'" "\<forall>c\<in>set calls. asks_for_rest expiry c" "\<not> ec_failed ec' \<longrightarrow> expiry \<le> t'"
      by blast
    with tv True s r show ?thesis
      unfolding run by (intro exI [of _ w'] exI [of _ ec'] exI [of _ "(t, tv) # calls"] exI [of _ t']) (auto intro: one_call)
  qed
qed

section \<open>Properties\<close>

text \<open>C29. A timer's flag and heap entry agree with its waits, whatever was done with the timers of the service
  before: a timer with waits is in the heap exactly once, at its expiry (unless that is infinite), one
  without is not. So \<open>cancel\<close>, which returns early when the flag is off, always aborts and posts every
  pending wait, in order, and reports how many; setting a new expiry does the same first.\<close>

theorem deadline_timers_scheduled:
  assumes "timers_after ctl fd settime wait_usec is_inf epoch q r0 (r, I)" and "timer_queue_at r0 q = timer_queue_new"
    and "I a = Some impl"
  defines "waits \<equiv> op_queue_of (timer_queue_at r q) a"
  shows "filter_mset (\<lambda>e. snd e = a) (mset (heap (timer_queue_at r q))) =
      (if waits = [] \<or> is_inf (ti_expiry impl) then {#} else {#(ti_expiry impl, a)#}) \<and>
    (\<exists>tq1. op_queue_of tq1 = (op_queue_of (timer_queue_at r q))(a := []) \<and> (\<forall>e\<in>set (heap tq1). snd e \<noteq> a) \<and>
      timer_service_cancel q impl r =
        (if might_have_pending_waits impl
         then r_post_deferred waits (r\<lparr>timer_queue_at := (timer_queue_at r)(q := tq1),
                r_op_ec := (\<lambda>x. if x \<in> set waits then basic_ec operation_aborted else r_op_ec r x)\<rparr>)
         else r,
         impl\<lparr>might_have_pending_waits := False\<rparr>, length waits, no_error) \<and>
      timer_set_expiry q impl t r =
        (fst (timer_service_cancel q impl r), impl\<lparr>might_have_pending_waits := False, ti_expiry := t\<rparr>, length waits, no_error))"
proof -
  have ok: "timers_ok is_inf (timer_queue_at r q) I" "waits_fit (timer_queue_at r q)"
    using timers_after_ok [OF assms(1,2)] by simp_all
  note live = timers_ok_live [OF ok(1) assms(3)]
  have h: "filter_mset (\<lambda>e. snd e = a) (mset (heap (timer_queue_at r q))) =
      (if waits = [] \<or> is_inf (ti_expiry impl) then {#} else {#(ti_expiry impl, a)#})"
    using live(3) by (simp add: timer_ok_def waits_def)
  have inv: "tq_inv (timer_queue_at r q)" using ok(1) by (simp add: timers_ok_def)
  have fit: "min size_max (length waits) = length waits" "drop size_max waits = []"
    using ok(2) by (simp_all add: waits_fit_def waits_def)
  obtain tq1 where c: "timer_cancel (timer_queue_at r q) a (r_op_ec r) [] size_max =
        (tq1, set_ec (basic_ec operation_aborted) waits (r_op_ec r), waits, length waits)"
      "tq_inv tq1" "op_queue_of tq1 = (op_queue_of (timer_queue_at r q))(a := [])"
    using timer_cancel_correct [OF inv, of a "r_op_ec r" "[]" size_max, folded waits_def] by (auto simp: fit)
  have gone: "\<forall>e\<in>set (heap tq1). snd e \<noteq> a"
  proof -
    have "filter_mset (\<lambda>e. snd e = a) (mset (heap tq1)) = {#}"
      using c(2,3) by (intro no_ops_not_in_heap) simp_all
    then show ?thesis by (simp only: filter_mset_eq_mempty_iff set_mset_mset) blast
  qed
  have cancel: "timer_service_cancel q impl r =
        (if might_have_pending_waits impl
         then r_post_deferred waits (r\<lparr>timer_queue_at := (timer_queue_at r)(q := tq1),
                r_op_ec := (\<lambda>x. if x \<in> set waits then basic_ec operation_aborted else r_op_ec r x)\<rparr>)
         else r,
         impl\<lparr>might_have_pending_waits := False\<rparr>, length waits, no_error)"
  proof (cases "might_have_pending_waits impl")
    case True
    then show ?thesis by (simp add: timer_service_cancel_def cancel_timer_def live(1) c(1) set_ec_def)
  next
    case False
    then have "waits = []" "impl\<lparr>might_have_pending_waits := False\<rparr> = impl"
      using live(2) by (cases impl; simp add: waits_def)+
    with False show ?thesis by (simp add: timer_service_cancel_def)
  qed
  show ?thesis
    using h c(3) gone cancel by (intro conjI exI [of _ tq1]) (simp_all add: timer_set_expiry_def)
qed

text \<open>C30. The blocking wait returns, however often \<open>select\<close> returns early, when the clock does not stand still
  forever. What it does is to call \<open>select\<close> and to read the clock again, over and over: each call is made
  before the expiry and asks for what is left of the time at the last reading, rounded down to
  microseconds, so it never sleeps for longer than that; and unless \<open>select\<close> fails, the wait ends only
  at a reading that has reached the expiry.\<close>

theorem timer_wait_returns:
  assumes "clock_law time_of stuck now sel" and "is_int64 (ti_expiry impl)"
  shows "\<exists>w' ec calls t'. timer_wait now sel nanoseconds impl w = Some (w', ec) \<and>
    select_calls now sel (snd (now w)) no_error (fst (now w)) calls t' ec w' \<and>
    (\<forall>c\<in>set calls. asks_for_rest (ti_expiry impl) c) \<and> (\<not> ec_failed ec \<longrightarrow> ti_expiry impl \<le> t')"
proof -
  obtain w1 t where n: "now w = (w1, t)" by fastforce
  with clock_lawD(1) [OF assms(1) n] have "t \<le> time_of w1" "is_int64 t" by auto
  from wait_loop_returns [OF assms this, of no_error] n show ?thesis
    by (simp add: timer_wait_def)
qed

text \<open>A clock that gives every reading three times, and a \<open>select\<close> that returns at once.\<close>

definition demo_clock :: "(int \<times> nat) clock" where
  "demo_clock w = (if snd w = 0 then (clamp64 (clamp64 (fst w) + 1), 2) else (fst w, snd w - 1), clamp64 (fst w))"

definition demo_sleep :: "(int \<times> nat) select_call" where
  "demo_sleep w nfds sets timeout = (w, 0, sets, 0)"

definition demo_timer :: "(int, nat) timer_impl" where
  "demo_timer = \<lparr>ti_expiry = 3, might_have_pending_waits = False, ti_data = 1\<rparr>"

theorem timer_wait_returns_witness:
  "\<exists>w' ec calls t'. timer_wait demo_clock demo_sleep nanoseconds demo_timer (0, 1) = Some (w', ec) \<and>
     select_calls demo_clock demo_sleep 0 no_error (0, 0) calls t' ec w' \<and> (\<forall>c\<in>set calls. asks_for_rest 3 c) \<and>
     (\<not> ec_failed ec \<longrightarrow> 3 \<le> t')"
proof -
  have passes: "c \<le> clamp64 (c + 1)" "clamp64 (c + 1) = c \<longrightarrow> \<not> c < int64_max" if "is_int64 c" for c
    using that by (auto simp: is_int64_def clamp64_def int64_min_def int64_max_def)
  have "clock_law (\<lambda>w. clamp64 (fst w)) snd demo_clock demo_sleep"
    using passes [OF clamp64_range] by (auto simp: clock_law_def demo_clock_def demo_sleep_def clamp64_range clamp64_id)
  from timer_wait_returns [OF this, of demo_timer "(0, 1)"] show ?thesis
    by (simp add: demo_timer_def demo_clock_def is_int64_def clamp64_def int64_min_def int64_max_def)
qed

abbreviation demo_timer_step where
  "demo_timer_step \<equiv> timer_step demo_ctl 9 (\<lambda>w _. w) (\<lambda>_ _ _. 0) (\<lambda>_. False) (0 :: nat) (0 :: nat)"

theorem deadline_timers_scheduled_witness:
  "\<exists>r I impl. timers_after demo_ctl 9 (\<lambda>w _. w) (\<lambda>_ _ _. 0) (\<lambda>_. False) 0 0 (demo_reactor []) (r, I) \<and> I 1 = Some impl \<and>
     filter_mset (\<lambda>e. snd e = 1) (mset (heap (timer_queue_at r 0))) = {#(0, 1)#} \<and>
     fst (snd (snd (timer_service_cancel 0 impl r))) = 1"
proof -
  let ?I0 = "\<lambda>_. None :: (nat, nat) timer_impl option"
  let ?impl = "timer_construct 0 \<lparr>ti_expiry = 0, might_have_pending_waits = False, ti_data = 1\<rparr>"
  let ?I1 = "?I0(1 := Some ?impl)"
  obtain r2 impl2 where w: "timer_async_wait demo_ctl 9 (\<lambda>w _. w) (\<lambda>_ _ _. 0) (\<lambda>_. False) 0 ?impl 10 (demo_reactor []) = (r2, impl2)"
    by fastforce
  have new: "timer_queue_at (demo_reactor []) 0 = timer_queue_new" by (simp add: demo_reactor_def)
  have "demo_timer_step (demo_reactor [], ?I0) (demo_reactor [], ?I1)"
    by (rule construct) simp_all
  moreover have "demo_timer_step (demo_reactor [], ?I1) (r2, ?I1(1 := Some impl2))"
    by (rule async_wait [OF _ _ _ w]) (simp_all add: new timer_queue_new_def size_max_def)
  ultimately have reach: "timers_after demo_ctl 9 (\<lambda>w _. w) (\<lambda>_ _ _. 0) (\<lambda>_. False) 0 0 (demo_reactor []) (r2, ?I1(1 := Some impl2))"
    unfolding timers_after_def by (meson converse_rtranclp_into_rtranclp r_into_rtranclp)
  have i2: "ti_expiry impl2 = 0" and q2: "op_queue_of (timer_queue_at r2 0) 1 = [10]"
  proof -
    show "ti_expiry impl2 = 0" using w by (auto simp: timer_async_wait_def timer_construct_def)
    have "timer_queue_at r2 0 = fst (enqueue_timer (\<lambda>_. False) 0 1 10 timer_queue_new)"
      using w new by (auto simp: timer_async_wait_def schedule_timer_queue timer_construct_def demo_reactor_def)
    moreover have len: "Suc (length (heap (timer_queue_new :: (nat, nat, nat) timer_queue))) < size_max"
      by (simp add: timer_queue_new_def size_max_def)
    moreover have "op_queue_of (timer_queue_new :: (nat, nat, nat) timer_queue) = (\<lambda>_. [])" by (simp add: timer_queue_new_def)
    ultimately show "op_queue_of (timer_queue_at r2 0) 1 = [10]"
      using enqueue_timer_correct [OF tq_inv_with_new len, of "\<lambda>_. False" 0 1 "10 :: nat"] by simp
  qed
  have "fst (snd (snd (timer_service_cancel 0 impl2 r2))) = 1 \<and>
    filter_mset (\<lambda>e. snd e = 1) (mset (heap (timer_queue_at r2 0))) = {#(0, 1)#}"
  proof -
    have i1: "(?I1(1 := Some impl2)) 1 = Some impl2" by simp
    note D = deadline_timers_scheduled [OF reach new i1, of 0, unfolded q2 i2]
    from conjunct2 [OF D] have "fst (snd (snd (timer_service_cancel 0 impl2 r2))) = length [10 :: nat]"
      by (elim exE conjE) (simp only: fst_conv snd_conv)
    with conjunct1 [OF D] show ?thesis by simp
  qed
  then show ?thesis using reach by (intro exI [of _ r2] exI [of _ "?I1(1 := Some impl2)"] exI [of _ impl2]) simp
qed

end
