(* ===== verification/Connect.thy ===== *)
theory Connect
  imports SocketProps
begin

text \<open>
  \<open>include/asio/transmit/impl/connect.hpp\<close>: connecting a socket to the first of several endpoints that
  accepts. The endpoints are a list, an iterator is an index into it, and the end is its length. What
  chooses the next endpoint, \<open>call_connect_condition\<close>, is a function of the condition's state, the last
  error and the iterator; both its forms are below. \<open>close\<close> and \<open>connect\<close> of the socket are arguments of the
  loop, and those of \<open>basic_socket\<close> over the socket service follow it. The asynchronous operation is
  its function call operator, one call at a time, and its run, where an attempt stands for all that
  happens between \<open>async_connect\<close> and the call of its handler.
\<close>

section \<open>The condition\<close>

text \<open>The form that is asked for an endpoint, the older one that returns an iterator, and the condition that
  accepts everything, with which the asynchronous operation's check is empty.\<close>

type_synonym 'c pick = "'c \<Rightarrow> error_code \<Rightarrow> nat \<Rightarrow> 'c \<times> nat"

function call_connect_condition :: "('c \<Rightarrow> error_code \<Rightarrow> 'e \<Rightarrow> 'c \<times> bool) \<Rightarrow> 'e list \<Rightarrow> 'c pick" where
  "call_connect_condition cond eps c ec next =
     (if next \<ge> length eps then (c, length eps)
      else case cond c ec (eps ! next) of
             (c1, ok) \<Rightarrow> if ok then (c1, next) else call_connect_condition cond eps c1 ec (Suc next))"
  by pat_completeness auto
termination by (relation "measure (\<lambda>(cond, eps, c, ec, next). length eps - next)") auto

declare call_connect_condition.simps [simp del]

definition call_legacy_condition :: "('c \<Rightarrow> error_code \<Rightarrow> nat \<Rightarrow> 'c \<times> nat) \<Rightarrow> 'e list \<Rightarrow> 'c pick" where
  "call_legacy_condition cond eps c ec next = (if next \<noteq> length eps then cond c ec next else (c, length eps))"

definition default_connect_condition :: "'c \<Rightarrow> error_code \<Rightarrow> 'e \<Rightarrow> 'c \<times> bool" where
  "default_connect_condition c ec e = (c, True)"

definition default_check_condition :: "'c pick" where
  "default_check_condition c ec iter = (c, iter)"

section \<open>The synchronous loop\<close>

type_synonym 'w close_call = "'w \<Rightarrow> 'w \<times> error_code"
type_synonym ('e, 'w) connect_call = "'e \<Rightarrow> 'w \<Rightarrow> 'w \<times> error_code"

definition connect_failed :: "error_code \<Rightarrow> error_code" where
  "connect_failed ec = (if \<not> ec_failed ec then misc_ec not_found else ec)"

partial_function (option) connect_loop ::
  "'c pick \<Rightarrow> 'w close_call \<Rightarrow> ('e, 'w) connect_call \<Rightarrow> 'e list \<Rightarrow> nat \<Rightarrow> 'c \<Rightarrow> error_code \<Rightarrow> 'w \<Rightarrow> ('w \<times> nat \<times> error_code) option" where
  "connect_loop pick close conn eps iter c ec w =
     (if iter = length eps then Some (w, length eps, connect_failed ec)
      else
        case pick c ec iter of
          (c1, iter1) \<Rightarrow>
            if iter1 \<noteq> length eps then
              (case close w of
                 (w1, ec1) \<Rightarrow>
                   case conn (eps ! iter1) w1 of
                     (w2, ec2) \<Rightarrow>
                       if \<not> ec_failed ec2 then Some (w2, iter1, ec2)
                       else connect_loop pick close conn eps (Suc iter1) c1 ec2 w2)
            else Some (w, length eps, connect_failed ec))"

declare connect_loop.simps [code]

definition connect_range ::
  "'c pick \<Rightarrow> 'w close_call \<Rightarrow> ('e, 'w) connect_call \<Rightarrow> 'e list \<Rightarrow> 'c \<Rightarrow> 'w \<Rightarrow> ('w \<times> nat \<times> error_code) option" where
  "connect_range pick close conn eps c w = connect_loop pick close conn eps 0 c no_error w"

text \<open>The overloads for sequences return the endpoint or a default one.\<close>

definition deref_connect_result :: "'e \<Rightarrow> 'e list \<Rightarrow> nat \<Rightarrow> error_code \<Rightarrow> 'e" where
  "deref_connect_result none eps iter ec = (if ec_failed ec then none else eps ! iter)"

definition connect_sequence ::
  "'e \<Rightarrow> 'c pick \<Rightarrow> 'w close_call \<Rightarrow> ('e, 'w) connect_call \<Rightarrow> 'e list \<Rightarrow> 'c \<Rightarrow> 'w \<Rightarrow> ('w \<times> 'e \<times> error_code) option" where
  "connect_sequence none pick close conn eps c w =
     map_option (\<lambda>(w1, iter, ec). (w1, deref_connect_result none eps iter ec, ec)) (connect_range pick close conn eps c w)"

text \<open>The overloads without an error code throw.\<close>

definition connect_throwing ::
  "'c pick \<Rightarrow> 'w close_call \<Rightarrow> ('e, 'w) connect_call \<Rightarrow> 'e list \<Rightarrow> 'c \<Rightarrow> 'w \<Rightarrow> ('w \<times> (error_code + nat)) option" where
  "connect_throwing pick close conn eps c w =
     map_option (\<lambda>(w1, iter, ec). (w1, case throw_error ec of Inl e \<Rightarrow> Inl e | Inr _ \<Rightarrow> Inr iter))
       (connect_range pick close conn eps c w)"

section \<open>The asynchronous operation\<close>

text \<open>What a call of the operation ends with: a new attempt, itself posted with an error, or its handler called.\<close>

datatype connect_outcome = Attempt nat | Repost error_code | Handler error_code nat

definition connect_op_check ::
  "'c pick \<Rightarrow> 'w close_call \<Rightarrow> 'e list \<Rightarrow> nat \<Rightarrow> 'c \<Rightarrow> error_code \<Rightarrow> int \<Rightarrow> 'w \<Rightarrow> 'w \<times> nat \<times> 'c \<times> connect_outcome" where
  "connect_op_check pick close eps index c ec start w =
     (case pick c ec index of
        (c1, iter) \<Rightarrow>
          if iter \<noteq> length eps then (fst (close w), iter, c1, Attempt iter)
          else if start \<noteq> 0 then (w, iter, c1, Repost (misc_ec not_found))
          else (w, iter, c1, Handler ec iter))"

definition connect_op_call ::
  "'c pick \<Rightarrow> 'w close_call \<Rightarrow> ('w \<Rightarrow> bool) \<Rightarrow> 'e list \<Rightarrow> nat \<Rightarrow> 'c \<Rightarrow> error_code \<Rightarrow> int \<Rightarrow> 'w \<Rightarrow> 'w \<times> nat \<times> 'c \<times> connect_outcome" where
  "connect_op_call pick close is_opened eps index c ec start w =
     (if start = 1 then connect_op_check pick close eps index c ec start w
      else if index = length eps then (w, index, c, Handler ec index)
      else if \<not> is_opened w then (w, index, c, Handler (basic_ec operation_aborted) index)
      else if \<not> ec_failed ec then (w, index, c, Handler ec index)
      else connect_op_check pick close eps (Suc index) c ec start w)"

partial_function (option) connect_op_run ::
  "'c pick \<Rightarrow> 'w close_call \<Rightarrow> ('w \<Rightarrow> bool) \<Rightarrow> ('e, 'w) connect_call \<Rightarrow> 'e list \<Rightarrow> nat \<Rightarrow> 'c \<Rightarrow> error_code \<Rightarrow> int \<Rightarrow> 'w \<Rightarrow>
   ('w \<times> nat \<times> error_code) option" where
  "connect_op_run pick close is_opened attempt eps index c ec start w =
     (case connect_op_call pick close is_opened eps index c ec start w of
        (w1, index1, c1, outcome) \<Rightarrow>
          (case outcome of
             Handler ec1 iter \<Rightarrow> Some (w1, iter, ec1)
           | Repost ec1 \<Rightarrow> connect_op_run pick close is_opened attempt eps index1 c1 ec1 0 w1
           | Attempt iter \<Rightarrow>
               (case attempt (eps ! iter) w1 of
                  (w2, ec2) \<Rightarrow> connect_op_run pick close is_opened attempt eps index1 c1 ec2 0 w2)))"

declare connect_op_run.simps [code]

definition async_connect_range ::
  "'c pick \<Rightarrow> 'w close_call \<Rightarrow> ('w \<Rightarrow> bool) \<Rightarrow> ('e, 'w) connect_call \<Rightarrow> 'e list \<Rightarrow> 'c \<Rightarrow> 'w \<Rightarrow> ('w \<times> nat \<times> error_code) option" where
  "async_connect_range pick close is_opened attempt eps c w = connect_op_run pick close is_opened attempt eps 0 c no_error 1 w"

text \<open>For a sequence of endpoints the handler is called with the endpoint, or a default one after an error.\<close>

definition range_connect_result :: "'e \<Rightarrow> 'e list \<Rightarrow> nat \<Rightarrow> error_code \<Rightarrow> 'e" where
  "range_connect_result none eps iter ec = (if ec_failed ec \<or> iter = length eps then none else eps ! iter)"

definition async_connect_sequence ::
  "'e \<Rightarrow> 'c pick \<Rightarrow> 'w close_call \<Rightarrow> ('w \<Rightarrow> bool) \<Rightarrow> ('e, 'w) connect_call \<Rightarrow> 'e list \<Rightarrow> 'c \<Rightarrow> 'w \<Rightarrow>
   ('w \<times> 'e \<times> error_code) option" where
  "async_connect_sequence none pick close is_opened attempt eps c w =
     map_option (\<lambda>(w1, iter, ec). (w1, range_connect_result none eps iter ec, ec))
       (async_connect_range pick close is_opened attempt eps c w)"

section \<open>The socket\<close>

text \<open>\<open>close\<close>, \<open>connect\<close> and \<open>async_connect\<close> of \<open>basic_socket\<close>. An endpoint is its protocol, its address and the
  address's length; the state is the reactor and the socket. How an attempt of the reactor ends is an
  argument of the asynchronous form.\<close>

record endpoint_ptr =
  ep_protocol :: protocol
  ep_data :: nat
  ep_size :: nat

type_synonym ('o, 'd, 'w, 'q, 't, 'a) socket_state = "('o, 'd, 'w, 'q, 't, 'a) reactor \<times> 'd socket_impl"

definition basic_socket_close :: "('w, 'd) ctl \<Rightarrow> 'w kernel \<Rightarrow> ('o, 'd, 'w, 'q, 't, 'a) socket_state close_call" where
  "basic_socket_close ctl k s =
     (case s of (r, impl) \<Rightarrow> case service_close ctl k impl r of (r1, impl1, ec) \<Rightarrow> ((r1, impl1), ec))"

definition basic_socket_connect ::
  "('w, 'd) ctl \<Rightarrow> 'w kernel \<Rightarrow> 'd \<Rightarrow> (endpoint_ptr, ('o, 'd, 'w, 'q, 't, 'a) socket_state) connect_call" where
  "basic_socket_connect ctl k created peer s =
     (case s of
        (r, impl) \<Rightarrow>
          case (if \<not> is_open impl then service_open ctl k created impl (ep_protocol peer) r else (r, impl, no_error)) of
            (r1, impl1, ec) \<Rightarrow>
              if ec_failed ec then ((r1, impl1), ec)
              else
                case on_kernel (service_connect k impl1 (ep_data peer) (ep_size peer)) r1 of
                  (r2, ec1) \<Rightarrow> ((r2, impl1), ec1))"

definition basic_socket_async_connect ::
  "('w, 'd) ctl \<Rightarrow> 'w kernel \<Rightarrow> 'd \<Rightarrow> (endpoint_ptr, ('o, 'd, 'w, 'q, 't, 'a) socket_state) connect_call \<Rightarrow>
   (endpoint_ptr, ('o, 'd, 'w, 'q, 't, 'a) socket_state) connect_call" where
  "basic_socket_async_connect ctl k created reactor_connect peer s =
     (case s of
        (r, impl) \<Rightarrow>
          case (if \<not> is_open impl then service_open ctl k created impl (ep_protocol peer) r else (r, impl, no_error)) of
            (r1, impl1, ec) \<Rightarrow> if ec_failed ec then ((r1, impl1), ec) else reactor_connect peer (r1, impl1))"

section \<open>One pass over the endpoints\<close>

text \<open>What connecting means: the endpoints one after the other, without those the condition refuses, each with a
  freshly closed socket, until one connects.\<close>

fun first_connect ::
  "('c \<Rightarrow> error_code \<Rightarrow> 'e \<Rightarrow> 'c \<times> bool) \<Rightarrow> 'w close_call \<Rightarrow> ('e, 'w) connect_call \<Rightarrow> 'e list \<Rightarrow> nat \<Rightarrow> 'c \<Rightarrow> error_code \<Rightarrow> 'w \<Rightarrow> 'w \<times> nat \<times> error_code" where
  "first_connect cond close conn [] i c ec w = (w, i, connect_failed ec)"
| "first_connect cond close conn (e # es) i c ec w =
     (case cond c ec e of
        (c1, ok) \<Rightarrow>
          if \<not> ok then first_connect cond close conn es (Suc i) c1 ec w
          else
            case conn e (fst (close w)) of
              (w2, ec2) \<Rightarrow> if \<not> ec_failed ec2 then (w2, i, ec2) else first_connect cond close conn es (Suc i) c1 ec2 w2)"

lemma connect_failed_simps [simp]:
  "ec_failed (connect_failed ec)" "ec_failed ec \<Longrightarrow> connect_failed ec = ec" "connect_failed no_error = misc_ec not_found"
  by (simp_all add: connect_failed_def)

lemma condition_end: "length eps \<le> i \<Longrightarrow> call_connect_condition cond eps c ec i = (c, length eps)"
  by (simp add: call_connect_condition.simps)

lemma condition_step:
  "i < length eps \<Longrightarrow> cond c ec (eps ! i) = (c1, ok) \<Longrightarrow>
    call_connect_condition cond eps c ec i = (if ok then (c1, i) else call_connect_condition cond eps c1 ec (Suc i))"
  by (subst call_connect_condition.simps) simp

lemma condition_next:
  "i \<le> length eps \<Longrightarrow> call_connect_condition cond eps c ec i = (c1, j) \<Longrightarrow> i \<le> j \<and> j \<le> length eps"
proof (induction "length eps - i" arbitrary: i c rule: less_induct)
  case less
  show ?case
  proof (cases "i < length eps")
    case False
    with less.prems show ?thesis by (simp add: condition_end)
  next
    case True
    obtain c2 ok where r: "cond c ec (eps ! i) = (c2, ok)" by fastforce
    note u = condition_step [of i eps cond c ec, OF True r]
    show ?thesis
    proof (cases ok)
      case ok: True
      with less.prems u True show ?thesis by simp
    next
      case False
      with less.prems(2) u have n: "call_connect_condition cond eps c2 ec (Suc i) = (c1, j)" by simp
      have "Suc i \<le> j \<and> j \<le> length eps" using True by (intro less.hyps [OF _ _ n]) auto
      then show ?thesis by simp
    qed
  qed
qed

lemma first_connect_pick:
  "i \<le> length eps \<Longrightarrow> call_connect_condition cond eps c ec i = (c1, j) \<Longrightarrow>
    first_connect cond close conn (drop i eps) i c ec w =
      (if j = length eps then (w, j, connect_failed ec)
       else case conn (eps ! j) (fst (close w)) of
              (w2, ec2) \<Rightarrow> if \<not> ec_failed ec2 then (w2, j, ec2)
                          else first_connect cond close conn (drop (Suc j) eps) (Suc j) c1 ec2 w2)"
proof (induction "length eps - i" arbitrary: i c rule: less_induct)
  case less
  show ?case
  proof (cases "i < length eps")
    case False
    with less.prems show ?thesis by (auto simp: condition_end)
  next
    case True
    obtain c2 ok where r: "cond c ec (eps ! i) = (c2, ok)" by fastforce
    note u = condition_step [of i eps cond c ec, OF True r]
    have d: "drop i eps = eps ! i # drop (Suc i) eps" using True by (simp add: Cons_nth_drop_Suc)
    show ?thesis
    proof (cases ok)
      case ok: True
      with less.prems u have j: "j = i" "c1 = c2" by simp_all
      show ?thesis unfolding j d using True ok by (simp add: r)
    next
      case False
      with less.prems(2) u have n: "call_connect_condition cond eps c2 ec (Suc i) = (c1, j)" by simp
      from less.hyps [OF _ _ this] True False show ?thesis by (simp add: d r)
    qed
  qed
qed

lemma connect_loop_one_pass:
  "i \<le> length eps \<Longrightarrow> connect_loop (call_connect_condition cond eps) close conn eps i c ec w =
     Some (first_connect cond close conn (drop i eps) i c ec w)"
proof (induction "length eps - i" arbitrary: i c ec w rule: less_induct)
  case less
  show ?case
  proof (cases "i = length eps")
    case True
    then show ?thesis by (simp add: connect_loop.simps)
  next
    case False
    obtain c1 j where p: "call_connect_condition cond eps c ec i = (c1, j)" by fastforce
    note n = condition_next [OF less.prems p]
    have "connect_loop (call_connect_condition cond eps) close conn eps (Suc j) c1 ec2 w2 =
        Some (first_connect cond close conn (drop (Suc j) eps) (Suc j) c1 ec2 w2)" if "j \<noteq> length eps" for ec2 w2
      using that n False less.prems by (intro less.hyps) auto
    then show ?thesis
      unfolding first_connect_pick [OF less.prems p]
      using False p by (subst connect_loop.simps) (auto split: prod.splits)
  qed
qed

lemma first_connect_result:
  "first_connect cond close conn es i c ec w = (w', j, ec') \<Longrightarrow>
     i \<le> j \<and> j \<le> i + length es \<and> (j < i + length es \<longleftrightarrow> \<not> ec_failed ec')"
proof (induction cond close conn es i c ec w rule: first_connect.induct)
  case (2 cond close conn e es i c ec w)
  obtain c1 ok where r: "cond c ec e = (c1, ok)" by fastforce
  obtain w2 ec2 where a: "conn e (fst (close w)) = (w2, ec2)" by fastforce
  show ?case
  proof (cases "ok \<and> \<not> ec_failed ec2")
    case True
    with 2(3) r a show ?thesis by auto
  next
    case False
    have "Suc i \<le> j \<and> j \<le> Suc i + length es \<and> (j < Suc i + length es \<longleftrightarrow> \<not> ec_failed ec')"
    proof (cases ok)
      case True
      with 2(2) [OF r [symmetric] _ a [symmetric]] 2(3) r a False show ?thesis by simp
    next
      case False
      with 2(1) [OF r [symmetric]] 2(3) r show ?thesis by simp
    qed
    then show ?thesis by auto
  qed
qed auto

text \<open>The asynchronous operation, when an attempt leaves the socket open.\<close>

definition stays_open :: "'w close_call \<Rightarrow> ('w \<Rightarrow> bool) \<Rightarrow> ('e, 'w) connect_call \<Rightarrow> 'e list \<Rightarrow> bool" where
  "stays_open close is_opened conn eps \<longleftrightarrow> (\<forall>e\<in>set eps. \<forall>w. is_opened (fst (conn e (fst (close w)))))"

definition after_check where
  "after_check pick close is_opened attempt eps x =
     (case x of
        (w1, index1, c1, outcome) \<Rightarrow>
          (case outcome of
             Handler ec1 iter \<Rightarrow> Some (w1, iter, ec1)
           | Repost ec1 \<Rightarrow> connect_op_run pick close is_opened attempt eps index1 c1 ec1 0 w1
           | Attempt iter \<Rightarrow>
               (case attempt (eps ! iter) w1 of
                  (w2, ec2) \<Rightarrow> connect_op_run pick close is_opened attempt eps index1 c1 ec2 0 w2)))"

lemma run_after_check:
  "connect_op_run pick close is_opened attempt eps index c ec start w =
     after_check pick close is_opened attempt eps (connect_op_call pick close is_opened eps index c ec start w)"
  unfolding after_check_def by (rule connect_op_run.simps)

lemma run_after_attempt:
  "connect_op_run pick close is_opened attempt eps (length eps) c ec 0 w = Some (w, length eps, ec)"
  "j < length eps \<Longrightarrow> \<not> is_opened w \<Longrightarrow>
    connect_op_run pick close is_opened attempt eps j c ec 0 w = Some (w, j, basic_ec operation_aborted)"
  "j < length eps \<Longrightarrow> is_opened w \<Longrightarrow> \<not> ec_failed ec \<Longrightarrow>
    connect_op_run pick close is_opened attempt eps j c ec 0 w = Some (w, j, ec)"
  "j < length eps \<Longrightarrow> is_opened w \<Longrightarrow> ec_failed ec \<Longrightarrow>
    connect_op_run pick close is_opened attempt eps j c ec 0 w =
      after_check pick close is_opened attempt eps (connect_op_check pick close eps (Suc j) c ec 0 w)"
  by (subst run_after_check; simp add: connect_op_call_def after_check_def)+

lemma run_first:
  "connect_op_run pick close is_opened attempt eps i c ec 1 w =
     after_check pick close is_opened attempt eps (connect_op_check pick close eps i c ec 1 w)"
  by (subst run_after_check) (simp add: connect_op_call_def)

lemma connect_op_one_pass:
  assumes "stays_open close is_opened conn eps"
  shows "i \<le> length eps \<Longrightarrow> start = 0 \<and> ec_failed ec \<or> start = 1 \<and> ec = no_error \<Longrightarrow>
    after_check (call_connect_condition cond eps) close is_opened conn eps
        (connect_op_check (call_connect_condition cond eps) close eps i c ec start w) =
      Some (first_connect cond close conn (drop i eps) i c ec w)"
proof (induction "length eps - i" arbitrary: i c ec w start rule: less_induct)
  case less
  let ?run = "connect_op_run (call_connect_condition cond eps) close is_opened conn eps"
  obtain c1 j where p: "call_connect_condition cond eps c ec i = (c1, j)" by fastforce
  note n = condition_next [OF less.prems(1) p] and f = first_connect_pick [OF less.prems(1) p]
  show ?case
  proof (cases "j = length eps")
    case True
    then show ?thesis
      using p less.prems(2) by (auto simp: f connect_op_check_def after_check_def run_after_attempt)
  next
    case False
    obtain w2 ec2 where a: "conn (eps ! j) (fst (close w)) = (w2, ec2)" by fastforce
    have j: "j < length eps" using False n by simp
    have o: "is_opened w2"
    proof -
      have "eps ! j \<in> set eps" using j by simp
      then have "is_opened (fst (conn (eps ! j) (fst (close w))))" using assms unfolding stays_open_def by blast
      with a show ?thesis by simp
    qed
    have "?run j c1 ec2 0 w2 = (if \<not> ec_failed ec2 then Some (w2, j, ec2)
        else Some (first_connect cond close conn (drop (Suc j) eps) (Suc j) c1 ec2 w2))"
    proof (cases "ec_failed ec2")
      case True
      have "length eps - Suc j < length eps - i" using n j by simp
      from less.hyps [OF this _ disjI1, of 0 ec2 c1 w2] True j o show ?thesis
        by (simp add: run_after_attempt)
    next
      case ok: False
      with j o show ?thesis by (simp add: run_after_attempt)
    qed
    then show ?thesis
      using False p a by (simp add: f connect_op_check_def after_check_def)
  qed
qed

section \<open>Properties\<close>

text \<open>C31. Both forms of \<open>connect\<close> return and come to the one pass over the endpoints: the first that the condition
  accepts and that connects, with the socket closed before every attempt; otherwise the error of the last
  attempt, or \<open>not_found\<close> when there was none. For the asynchronous form this needs that every attempt
  leaves the socket open. The overloads for a sequence agree on the endpoint they give.\<close>

theorem connect_takes_first:
  "connect_range (call_connect_condition cond eps) close conn eps c w = Some (first_connect cond close conn eps 0 c no_error w) \<and>
   (stays_open close is_opened conn eps \<longrightarrow>
     async_connect_range (call_connect_condition cond eps) close is_opened conn eps c w =
       Some (first_connect cond close conn eps 0 c no_error w)) \<and>
   (stays_open close is_opened conn eps \<longrightarrow>
     async_connect_sequence none (call_connect_condition cond eps) close is_opened conn eps c w =
       connect_sequence none (call_connect_condition cond eps) close conn eps c w) \<and>
   (case first_connect cond close conn eps 0 c no_error w of
      (w1, i, ec) \<Rightarrow> i \<le> length eps \<and> (i < length eps \<longleftrightarrow> \<not> ec_failed ec))"
proof -
  let ?first = "first_connect cond close conn eps 0 c no_error w"
  have a: "async_connect_range (call_connect_condition cond eps) close is_opened conn eps c w = Some ?first"
    if "stays_open close is_opened conn eps"
    using connect_op_one_pass [OF that, of 0 1 no_error cond c w]
    by (simp add: async_connect_range_def run_first)
  have s: "connect_range (call_connect_condition cond eps) close conn eps c w = Some ?first"
    using connect_loop_one_pass [of 0 eps cond close conn c no_error w] by (simp add: connect_range_def)
  have r: "case ?first of (w1, i, ec) \<Rightarrow> i \<le> length eps \<and> (i < length eps \<longleftrightarrow> \<not> ec_failed ec)"
    using first_connect_result [of cond close conn eps 0 c no_error w] by (auto split: prod.splits)
  then have "async_connect_sequence none (call_connect_condition cond eps) close is_opened conn eps c w =
       connect_sequence none (call_connect_condition cond eps) close conn eps c w" if "stays_open close is_opened conn eps"
    using a [OF that] s
    by (auto simp: async_connect_sequence_def connect_sequence_def range_connect_result_def deref_connect_result_def split: prod.splits)
  with a s r show ?thesis by simp
qed

lemma service_close_closed: "service_close ctl k impl r = (r1, impl1, ec) \<Longrightarrow> \<not> is_open impl1"
  by (auto simp: service_close_def construct_def is_open_def Let_def split: prod.splits if_splits)

lemma service_open_failed:
  "service_open ctl k created impl p r = (r1, impl1, ec) \<Longrightarrow> ec_failed ec \<Longrightarrow> \<not> is_open impl \<Longrightarrow> \<not> is_open impl1"
  by (auto simp: service_open_def do_open_def is_open_def split: prod.splits if_splits)

text \<open>C32. When no socket can be opened for the first endpoint (an address family the system does not have), the
  synchronous \<open>connect\<close> goes on to the next endpoint and connects; the asynchronous one takes the closed
  socket for an abort and reports \<open>operation_aborted\<close> without trying any other endpoint.\<close>

theorem async_connect_gives_up:
  assumes "basic_socket_close ctl k s = ((r1, impl1), ec1)"
    and "service_open ctl k created impl1 (ep_protocol e0) r1 = (r2, impl2, ec)" and "ec_failed ec"
    and "basic_socket_connect ctl k created e1 (fst (basic_socket_close ctl k (r2, impl2))) = (s3, no_error)"
  shows "connect_range (call_connect_condition default_connect_condition [e0, e1]) (basic_socket_close ctl k)
      (basic_socket_connect ctl k created) [e0, e1] c s = Some (s3, 1, no_error) \<and>
    async_connect_range default_check_condition (basic_socket_close ctl k) (\<lambda>s. is_open (snd s))
      (basic_socket_async_connect ctl k created reactor_connect) (e0 # es) c s = Some ((r2, impl2), 0, basic_ec operation_aborted)"
proof -
  have c1: "\<not> is_open impl1"
    using assms(1) by (auto simp: basic_socket_close_def dest: service_close_closed split: prod.splits)
  have c2: "\<not> is_open impl2" using service_open_failed [OF assms(2,3) c1] .
  have a0: "basic_socket_connect ctl k created e0 (r1, impl1) = ((r2, impl2), ec)"
    "basic_socket_async_connect ctl k created reactor_connect e0 (r1, impl1) = ((r2, impl2), ec)"
    using c1 assms(2,3) by (simp_all add: basic_socket_connect_def basic_socket_async_connect_def)
  have "first_connect default_connect_condition (basic_socket_close ctl k) (basic_socket_connect ctl k created) [e0, e1] 0 c no_error s = (s3, 1, no_error)"
    using assms(3,4) by (simp add: default_connect_condition_def assms(1) a0)
  moreover have "async_connect_range default_check_condition (basic_socket_close ctl k) (\<lambda>s. is_open (snd s))
      (basic_socket_async_connect ctl k created reactor_connect) (e0 # es) c s = Some ((r2, impl2), 0, basic_ec operation_aborted)"
    by (simp add: async_connect_range_def run_first connect_op_check_def default_check_condition_def
        after_check_def assms(1) a0 c2 run_after_attempt)
  ultimately show ?thesis
    using connect_loop_one_pass [of 0 "[e0, e1]" default_connect_condition "basic_socket_close ctl k" "basic_socket_connect ctl k created" c no_error s]
    by (simp add: connect_range_def)
qed

text \<open>A world that counts attempts, where the third one connects; and the kernel of the socket theories without IPv6.\<close>

definition demo_attempt :: "(nat, nat) connect_call" where
  "demo_attempt e w = (w + 1, if w = 2 then no_error else basic_ec connection_refused)"

theorem connect_takes_first_witness:
  "async_connect_range (call_connect_condition (\<lambda>c ec e. (c, odd e)) [1, 2, 3, 5, 7 :: nat]) (\<lambda>w. (w, no_error)) (\<lambda>_. True) demo_attempt [1, 2, 3, 5, 7] () 0
     = Some (3, 3, no_error)"
proof -
  have "stays_open (\<lambda>w. (w, no_error)) (\<lambda>_. True) demo_attempt [1, 2, 3, 5, 7]" by (simp add: stays_open_def)
  from connect_takes_first [THEN conjunct2, THEN conjunct1, rule_format, OF this, of "\<lambda>c ec e. (c, odd e)" "()" 0]
  show ?thesis by (simp add: demo_attempt_def numeral_3_eq_3)
qed

definition no_ipv6_kernel :: "demo_os world kernel" where
  "no_ipv6_kernel = demo_kernel\<lparr>k_socket := (\<lambda>af ty protocol w. if af = 10 then (w, - 1, 97) else demo_create w)\<rparr>"

definition demo_endpoint :: "int \<Rightarrow> endpoint_ptr" where
  "demo_endpoint family = \<lparr>ep_protocol = \<lparr>p_family = family, p_type = 1, p_protocol = 6\<rparr>, ep_data = 0, ep_size = 16\<rparr>"

theorem async_connect_gives_up_witness:
  "\<exists>s3 s2. connect_range (call_connect_condition default_connect_condition [demo_endpoint 10, demo_endpoint 2])
       (basic_socket_close demo_ctl_os no_ipv6_kernel) (basic_socket_connect demo_ctl_os no_ipv6_kernel 0)
       [demo_endpoint 10, demo_endpoint 2] () (demo_os_reactor, closed_socket) = Some (s3, 1, no_error) \<and>
     async_connect_range default_check_condition (basic_socket_close demo_ctl_os no_ipv6_kernel) (\<lambda>s. is_open (snd s))
       (basic_socket_async_connect demo_ctl_os no_ipv6_kernel 0 (\<lambda>e s. (s, no_error))) [demo_endpoint 10, demo_endpoint 2] ()
       (demo_os_reactor, closed_socket) = Some (s2, 0, basic_ec operation_aborted)"
proof -
  let ?k = no_ipv6_kernel and ?r = demo_os_reactor and ?impl = "construct closed_socket"
  have c: "basic_socket_close demo_ctl_os ?k (demo_os_reactor, closed_socket) = ((?r, ?impl), no_error)"
    by (simp add: basic_socket_close_def service_close_def)
  have n: "\<not> is_open ?impl" by (simp add: construct_def is_open_def)
  have r: "?r\<lparr>r_kernel := r_kernel ?r\<rparr> = ?r" by simp
  have o: "service_open demo_ctl_os ?k 0 ?impl (ep_protocol (demo_endpoint 10)) ?r = (?r, ?impl, system_ec 97)"
    using n by (simp add: service_open_def do_open_def demo_endpoint_def on_kernel_def sock_socket_def no_ipv6_kernel_def nonneg_ok_def
        error_wrapper_def invalid_socket_def)
  have c2: "fst (basic_socket_close demo_ctl_os ?k (?r, ?impl)) = (?r, ?impl)"
    using n by (simp add: basic_socket_close_def service_close_def construct_def)
  obtain s3 where "basic_socket_connect demo_ctl_os ?k 0 (demo_endpoint 2) (?r, ?impl) = (s3, no_error)"
  proof -
    obtain w1 where "k_socket ?k 2 1 6 (r_kernel ?r) = (w1, 4, 0)"
      by (simp add: no_ipv6_kernel_def demo_os_reactor_def demo_os_start_def fresh_fd_def)
    then have s: "on_kernel (sock_socket ?k 2 1 6) ?r = (?r\<lparr>r_kernel := w1\<rparr>, 4, no_error)"
      by (simp add: on_kernel_def sock_socket_def nonneg_ok_def)
    have "snd (snd (register_descriptor demo_ctl_os 0 4 R)) = 0" for R
      by (cases "allocate_descriptor_state 0 R") (simp add: register_descriptor_def epoll_ctl_def demo_ctl_os_def Let_def)
    then obtain r2 d where "register_descriptor demo_ctl_os 0 4 (?r\<lparr>r_kernel := w1\<rparr>) = (r2, d, 0)"
      by (metis prod.collapse)
    then obtain impl2 where i: "service_open demo_ctl_os ?k 0 ?impl (ep_protocol (demo_endpoint 2)) ?r = (r2, impl2, no_error)"
        "si_socket impl2 = 4"
      using n s by (auto simp: service_open_def do_open_def demo_endpoint_def invalid_socket_def)
    have "k_connect ?k s a l w = (w, 0, 0)" for s a l w by (simp add: no_ipv6_kernel_def demo_kernel_def)
    then have "service_connect ?k impl2 a l w = (w, no_error)" for a l w
      using i(2) by (simp add: service_connect_def sync_connect_def sock_connect_def invalid_socket_def basic_ec_system)
    then show thesis
      using n i(1) by (intro that) (simp add: basic_socket_connect_def on_kernel_def)
  qed
  then have "basic_socket_connect demo_ctl_os ?k 0 (demo_endpoint 2) (fst (basic_socket_close demo_ctl_os ?k (?r, ?impl))) = (s3, no_error)"
    by (simp only: c2)
  from async_connect_gives_up [OF c o _ this] show ?thesis by (intro exI) simp
qed

end
