(* ===== verification/SocketStreambuf.thy ===== *)
theory SocketStreambuf
  imports SocketProps DeadlineTimer
begin

text \<open>
  \<open>include/asio/network/basic_socket_streambuf.hpp\<close>: a stream buffer over a socket, compiled with
  \<open>std::chrono\<close>. The two vectors are ranges of the world's memory, the six pointers of \<open>std::streambuf\<close>
  are addresses, and a character is a byte. A character or the end of file is an integer, \<open>- 1\<close> for the
  end of file, as in \<open>std::char_traits\<close>. The functions of \<open>std::streambuf\<close> that the streams call are
  those of the C++ standard. The kernel and the clock are parameters; a loop that waits for the kernel
  may run forever and is a partial function, with no value as well where a time would overflow.
\<close>

section \<open>The object\<close>

definition sb_buffer_size :: nat where "sb_buffer_size = 512"
definition putback_max :: nat where "putback_max = 8"

record 'd streambuf =
  sb_socket :: "'d socket_impl"
  sb_io_context :: "nat option"
  sb_get_data :: nat
  sb_get_size :: nat
  sb_put_data :: nat
  sb_put_size :: nat
  sb_eback :: nat
  sb_gptr :: nat
  sb_egptr :: nat
  sb_pbase :: nat
  sb_pptr :: nat
  sb_epptr :: nat
  sb_ec :: error_code
  sb_expiry :: int

definition sb_setg :: "nat \<Rightarrow> nat \<Rightarrow> nat \<Rightarrow> 'd streambuf \<Rightarrow> 'd streambuf" where
  "sb_setg b n e sb = sb\<lparr>sb_eback := b, sb_gptr := n, sb_egptr := e\<rparr>"

definition sb_setp :: "nat \<Rightarrow> nat \<Rightarrow> 'd streambuf \<Rightarrow> 'd streambuf" where
  "sb_setp b e sb = sb\<lparr>sb_pbase := b, sb_pptr := b, sb_epptr := e\<rparr>"

definition init_buffers :: "'d streambuf \<Rightarrow> 'd streambuf" where
  "init_buffers sb =
     (let sb1 = sb_setg (sb_get_data sb) (sb_get_data sb + putback_max) (sb_get_data sb + putback_max) sb
      in if sb_put_size sb = 0 then sb_setp 0 0 sb1 else sb_setp (sb_put_data sb) (sb_put_data sb + sb_put_size sb) sb1)"

definition max_expiry_time :: int where "max_expiry_time = int64_max"

text \<open>Both constructors without another stream buffer: the default one has a context of its own. The addresses
  are those of the new vectors.\<close>

definition streambuf_new :: "nat option \<Rightarrow> 'd socket_impl \<Rightarrow> nat \<Rightarrow> nat \<Rightarrow> 'd streambuf" where
  "streambuf_new ctx impl get_data put_data =
     init_buffers \<lparr>sb_socket = impl, sb_io_context = ctx, sb_get_data = get_data, sb_get_size = sb_buffer_size,
       sb_put_data = put_data, sb_put_size = sb_buffer_size, sb_eback = 0, sb_gptr = 0, sb_egptr = 0,
       sb_pbase = 0, sb_pptr = 0, sb_epptr = 0, sb_ec = no_error, sb_expiry = max_expiry_time\<rparr>"

section \<open>Reading and writing\<close>

definition eof_int :: int where "eof_int = - 1"

definition to_int_type :: "byte \<Rightarrow> int" where "to_int_type c = uint c"

definition to_char_type :: "int \<Rightarrow> byte" where "to_char_type c = word_of_int c"

definition not_eof :: "int \<Rightarrow> int" where "not_eof c = (if c = eof_int then 0 else c)"

definition sb_timeout :: "'w clock \<Rightarrow> int \<Rightarrow> 'w \<Rightarrow> ('w \<times> int) option" where
  "sb_timeout now expiry w =
     (case now w of
        (w1, t) \<Rightarrow>
          Option.bind (time_subtract expiry t) (\<lambda>d.
          Option.bind (total_milliseconds nanoseconds d) (\<lambda>msec.
            Some (w1, if msec > 2 ^ 31 - 1 then 2 ^ 31 - 1 else if msec < 0 then 0 else msec))))"

text \<open>The mode is set before each attempt, unless it is known to be set.\<close>

definition sb_non_blocking :: "'w kernel \<Rightarrow> 'd streambuf \<Rightarrow> 'w \<Rightarrow> 'w \<times> 'd streambuf" where
  "sb_non_blocking k sb w =
     (if \<not> is_native_non_blocking (sb_socket sb) then
        case service_native_non_blocking k (sb_socket sb) True w of
          (w1, impl, ec) \<Rightarrow> (w1, sb\<lparr>sb_socket := impl, sb_ec := ec\<rparr>)
      else (w, sb))"

partial_function (option) underflow_loop ::
  "'s world kernel \<Rightarrow> 's world clock \<Rightarrow> 'd streambuf \<Rightarrow> 's world \<Rightarrow> ('s world \<times> 'd streambuf \<times> int) option" where
  "underflow_loop k now sb w =
     (case now w of
        (w0, t) \<Rightarrow>
          if time_less (sb_expiry sb) t then Some (w0, sb\<lparr>sb_ec := basic_ec timed_out\<rparr>, eof_int)
          else
            case sb_non_blocking k sb w0 of
              (w1, sb1) \<Rightarrow>
                case sock_recv k (si_socket (sb_socket sb1))
                       (adapter_buffers [buf_plus (buffer_of_vector (sb_get_data sb1) (sb_get_size sb1) 1 None) putback_max]) 0 w1 of
                  (w2, bytes, ec) \<Rightarrow>
                    if bytes > 0 then
                      (let sb2 = sb_setg (sb_get_data sb1) (sb_get_data sb1 + putback_max)
                                   (sb_get_data sb1 + putback_max + nat bytes) (sb1\<lparr>sb_ec := ec\<rparr>)
                       in Some (w2, sb2, to_int_type (snd w2 (sb_gptr sb2))))
                    else if bytes = 0 then Some (w2, sb1\<lparr>sb_ec := misc_ec eof\<rparr>, eof_int)
                    else if \<not> ec_blocked ec then Some (w2, sb1\<lparr>sb_ec := ec\<rparr>, eof_int)
                    else
                      Option.bind (sb_timeout now (sb_expiry sb1) w2) (\<lambda>(w3, msec).
                        case poll_read k (si_socket (sb_socket sb1)) 0 msec w3 of
                          (w4, ready, ec1) \<Rightarrow>
                            if ready < 0 then Some (w4, sb1\<lparr>sb_ec := ec1\<rparr>, eof_int)
                            else underflow_loop k now (sb1\<lparr>sb_ec := ec1\<rparr>) w4))"

declare underflow_loop.simps [code]

definition underflow ::
  "'s world kernel \<Rightarrow> 's world clock \<Rightarrow> 'd streambuf \<Rightarrow> 's world \<Rightarrow> ('s world \<times> 'd streambuf \<times> int) option" where
  "underflow k now sb w = (if sb_gptr sb \<noteq> sb_egptr sb then Some (w, sb, eof_int) else underflow_loop k now sb w)"

text \<open>The loop of \<open>overflow\<close>: whether everything was sent.\<close>

partial_function (option) overflow_loop ::
  "'s world kernel \<Rightarrow> 's world clock \<Rightarrow> buf \<Rightarrow> 'd streambuf \<Rightarrow> 's world \<Rightarrow> ('s world \<times> 'd streambuf \<times> bool) option" where
  "overflow_loop k now output sb w =
     (if buf_size output > 0 then
        case now w of
          (w0, t) \<Rightarrow>
            if time_less (sb_expiry sb) t then Some (w0, sb\<lparr>sb_ec := basic_ec timed_out\<rparr>, False)
            else
              case sb_non_blocking k sb w0 of
                (w1, sb1) \<Rightarrow>
                  case sock_send k (si_socket (sb_socket sb1)) (adapter_buffers [output]) 0 w1 of
                    (w2, bytes, ec) \<Rightarrow>
                      if bytes > 0 then overflow_loop k now (buf_advance output (nat bytes)) (sb1\<lparr>sb_ec := ec\<rparr>) w2
                      else if \<not> ec_blocked ec then Some (w2, sb1\<lparr>sb_ec := ec\<rparr>, False)
                      else
                        Option.bind (sb_timeout now (sb_expiry sb1) w2) (\<lambda>(w3, msec).
                          case poll_write k (si_socket (sb_socket sb1)) 0 msec w3 of
                            (w4, ready, ec1) \<Rightarrow>
                              if ready < 0 then Some (w4, sb1\<lparr>sb_ec := ec1\<rparr>, False)
                              else overflow_loop k now output (sb1\<lparr>sb_ec := ec1\<rparr>) w4)
      else Some (w, sb, True))"

declare overflow_loop.simps [code]

text \<open>Without a put buffer the character itself is sent, from a local variable at \<open>ch_addr\<close>.\<close>

definition overflow ::
  "'s world kernel \<Rightarrow> 's world clock \<Rightarrow> nat \<Rightarrow> int \<Rightarrow> 'd streambuf \<Rightarrow> 's world \<Rightarrow> ('s world \<times> 'd streambuf \<times> int) option" where
  "overflow k now ch_addr c sb w =
     (if sb_put_size sb = 0 then
        if c = eof_int then Some (w, sb, not_eof c)
        else
          Option.bind (overflow_loop k now (buffer_of_memory ch_addr 1) sb (fst w, (snd w)(ch_addr := to_char_type c)))
            (\<lambda>(w1, sb1, ok). Some (w1, sb1, if ok then c else eof_int))
      else
        Option.bind (overflow_loop k now (buffer_of_memory (sb_pbase sb) (sb_pptr sb - sb_pbase sb)) sb w)
          (\<lambda>(w1, sb1, ok).
            if \<not> ok then Some (w1, sb1, eof_int)
            else
              let sb2 = sb_setp (sb_put_data sb1) (sb_put_data sb1 + sb_put_size sb1) sb1
              in if c = eof_int then Some (w1, sb2, not_eof c)
                 else Some ((fst w1, (snd w1)(sb_pptr sb2 := to_char_type c)), sb2\<lparr>sb_pptr := sb_pptr sb2 + 1\<rparr>, c)))"

definition sync_streambuf ::
  "'s world kernel \<Rightarrow> 's world clock \<Rightarrow> nat \<Rightarrow> 'd streambuf \<Rightarrow> 's world \<Rightarrow> ('s world \<times> 'd streambuf \<times> int) option" where
  "sync_streambuf k now ch_addr sb w = overflow k now ch_addr eof_int sb w"

text \<open>\<open>setbuf\<close> with a null pointer and no size makes the stream unbuffered; the result is whether it did.\<close>

definition setbuf ::
  "'s world kernel \<Rightarrow> 's world clock \<Rightarrow> nat \<Rightarrow> nat \<Rightarrow> nat \<Rightarrow> 'd streambuf \<Rightarrow> 's world \<Rightarrow> ('s world \<times> 'd streambuf \<times> bool) option" where
  "setbuf k now ch_addr s n sb w =
     (if sb_pptr sb = sb_pbase sb \<and> s = 0 \<and> n = 0 then
        Option.bind (sync_streambuf k now ch_addr (sb_setp 0 0 (sb\<lparr>sb_put_size := 0\<rparr>)) w) (\<lambda>(w1, sb1, c). Some (w1, sb1, True))
      else Some (w, sb, False))"

definition streambuf_destroy ::
  "'s world kernel \<Rightarrow> 's world clock \<Rightarrow> nat \<Rightarrow> 'd streambuf \<Rightarrow> 's world \<Rightarrow> ('s world \<times> 'd streambuf) option" where
  "streambuf_destroy k now ch_addr sb w =
     (if sb_pptr sb \<noteq> sb_pbase sb then
        Option.bind (overflow k now ch_addr eof_int sb w) (\<lambda>(w1, sb1, c). Some (w1, sb1))
      else Some (w, sb))"

text \<open>\<open>std::streambuf::sputc\<close> and \<open>sbumpc\<close>, with the default \<open>uflow\<close>.\<close>

definition sputc ::
  "'s world kernel \<Rightarrow> 's world clock \<Rightarrow> nat \<Rightarrow> byte \<Rightarrow> 'd streambuf \<Rightarrow> 's world \<Rightarrow> ('s world \<times> 'd streambuf \<times> int) option" where
  "sputc k now ch_addr c sb w =
     (if sb_pptr sb < sb_epptr sb
      then Some ((fst w, (snd w)(sb_pptr sb := c)), sb\<lparr>sb_pptr := sb_pptr sb + 1\<rparr>, to_int_type c)
      else overflow k now ch_addr (to_int_type c) sb w)"

definition sbumpc ::
  "'s world kernel \<Rightarrow> 's world clock \<Rightarrow> 'd streambuf \<Rightarrow> 's world \<Rightarrow> ('s world \<times> 'd streambuf \<times> int) option" where
  "sbumpc k now sb w =
     (if sb_gptr sb < sb_egptr sb then Some (w, sb\<lparr>sb_gptr := sb_gptr sb + 1\<rparr>, to_int_type (snd w (sb_gptr sb)))
      else
        Option.bind (underflow k now sb w) (\<lambda>(w1, sb1, c).
          if c = eof_int then Some (w1, sb1, c)
          else Some (w1, sb1\<lparr>sb_gptr := sb_gptr sb1 + 1\<rparr>, to_int_type (snd w1 (sb_gptr sb1)))))"

text \<open>\<open>sputn\<close> and \<open>sgetn\<close>, by the standard repeated \<open>sputc\<close> and \<open>sbumpc\<close>: whether all were written, what was read.\<close>

fun sputn ::
  "'s world kernel \<Rightarrow> 's world clock \<Rightarrow> nat \<Rightarrow> byte list \<Rightarrow> 'd streambuf \<Rightarrow> 's world \<Rightarrow> ('s world \<times> 'd streambuf \<times> bool) option" where
  "sputn k now ch_addr [] sb w = Some (w, sb, True)"
| "sputn k now ch_addr (c # cs) sb w =
     Option.bind (sputc k now ch_addr c sb w) (\<lambda>(w1, sb1, r).
       if r = eof_int then Some (w1, sb1, False) else sputn k now ch_addr cs sb1 w1)"

fun sgetn ::
  "'s world kernel \<Rightarrow> 's world clock \<Rightarrow> nat \<Rightarrow> 'd streambuf \<Rightarrow> 's world \<Rightarrow> ('s world \<times> 'd streambuf \<times> byte list) option" where
  "sgetn k now 0 sb w = Some (w, sb, [])"
| "sgetn k now (Suc n) sb w =
     Option.bind (sbumpc k now sb w) (\<lambda>(w1, sb1, c).
       if c = eof_int then Some (w1, sb1, [])
       else map_option (\<lambda>(w2, sb2, cs). (w2, sb2, to_char_type c # cs)) (sgetn k now n sb1 w1))"

section \<open>Connecting, closing and moving\<close>

type_synonym ('o, 'd, 's, 'q, 't, 'a) sb_state = "('o, 'd, 's world, 'q, 't, 'a) reactor \<times> 'd streambuf"

fun connect_to_endpoints ::
  "('s world, 'd) ctl \<Rightarrow> 's world kernel \<Rightarrow> 's world clock \<Rightarrow> 'd \<Rightarrow> (protocol \<times> nat \<times> nat) list \<Rightarrow>
   ('o, 'd, 's, 'q, 't, 'a) sb_state \<Rightarrow> ('o, 'd, 's, 'q, 't, 'a) sb_state option" where
  "connect_to_endpoints ctl k now created [] s = Some s"
| "connect_to_endpoints ctl k now created (ep # eps) (r, sb) =
     (case on_kernel now r of
        (r0, t) \<Rightarrow>
          if time_less (sb_expiry sb) t then Some (r0, sb\<lparr>sb_ec := basic_ec timed_out\<rparr>)
          else
            case service_close ctl k (sb_socket sb) r0 of
              (r1, impl1, ignored_ec) \<Rightarrow>
                case service_open ctl k created impl1 (fst ep) r1 of
                  (r2, impl2, ec2) \<Rightarrow>
                    if ec_failed ec2 then connect_to_endpoints ctl k now created eps (r2, sb\<lparr>sb_socket := impl2, sb_ec := ec2\<rparr>)
                    else
                      case on_kernel (sb_non_blocking k (sb\<lparr>sb_socket := impl2, sb_ec := ec2\<rparr>)) r2 of
                        (r3, sb3) \<Rightarrow>
                          case on_kernel (sock_connect k (si_socket (sb_socket sb3)) (fst (snd ep)) (snd (snd ep))) r3 of
                            (r4, result, ec4) \<Rightarrow>
                              if \<not> ec_failed ec4 then Some (r4, sb3\<lparr>sb_ec := ec4\<rparr>)
                              else if ec4 \<noteq> basic_ec in_progress \<and> ec4 \<noteq> basic_ec would_block
                              then connect_to_endpoints ctl k now created eps (r4, sb3\<lparr>sb_ec := ec4\<rparr>)
                              else
                                Option.bind (sb_timeout now (sb_expiry sb3) (r_kernel r4)) (\<lambda>(w5, msec).
                                  case on_kernel (poll_connect k (si_socket (sb_socket sb3)) msec) (r4\<lparr>r_kernel := w5\<rparr>) of
                                    (r6, ready, ec6) \<Rightarrow>
                                      if ready < 0 then connect_to_endpoints ctl k now created eps (r6, sb3\<lparr>sb_ec := ec6\<rparr>)
                                      else
                                        case on_kernel (sock_getsockopt k (si_socket (sb_socket sb3)) 0 SOL_SOCKET SO_ERROR (put_int 0) 4) r6 of
                                          (r7, result7, connect_error, len, ec7) \<Rightarrow>
                                            if result7 = socket_error_retval then Some (r7, sb3\<lparr>sb_ec := ec7\<rparr>)
                                            else if \<not> ec_failed (system_ec (get_int connect_error))
                                            then Some (r7, sb3\<lparr>sb_ec := system_ec (get_int connect_error)\<rparr>)
                                            else connect_to_endpoints ctl k now created eps
                                                   (r7, sb3\<lparr>sb_ec := system_ec (get_int connect_error)\<rparr>)))"

text \<open>Nothing is tried after an earlier error. The two \<open>connect\<close> functions: for an endpoint, and for what a
  resolver, a parameter, returned. The result is whether the stream buffer is connected.\<close>

definition connect_to_all ::
  "('s world, 'd) ctl \<Rightarrow> 's world kernel \<Rightarrow> 's world clock \<Rightarrow> 'd \<Rightarrow> (protocol \<times> nat \<times> nat) list \<Rightarrow>
   ('o, 'd, 's, 'q, 't, 'a) sb_state \<Rightarrow> (('o, 'd, 's, 'q, 't, 'a) sb_state \<times> bool) option" where
  "connect_to_all ctl k now created eps s =
     (case s of
        (r, sb) \<Rightarrow>
          if ec_failed (sb_ec sb) then Some ((r, sb), False)
          else
            Option.bind (connect_to_endpoints ctl k now created eps (r, sb\<lparr>sb_ec := misc_ec not_found\<rparr>))
              (\<lambda>(r1, sb1). Some ((r1, sb1), \<not> ec_failed (sb_ec sb1))))"

definition streambuf_connect ::
  "('s world, 'd) ctl \<Rightarrow> 's world kernel \<Rightarrow> 's world clock \<Rightarrow> 'd \<Rightarrow> protocol \<times> nat \<times> nat \<Rightarrow>
   ('o, 'd, 's, 'q, 't, 'a) sb_state \<Rightarrow> (('o, 'd, 's, 'q, 't, 'a) sb_state \<times> bool) option" where
  "streambuf_connect ctl k now created ep s =
     (case s of (r, sb) \<Rightarrow> connect_to_all ctl k now created [ep] (r, (init_buffers sb)\<lparr>sb_ec := no_error\<rparr>))"

definition streambuf_connect_resolved ::
  "('s world, 'd) ctl \<Rightarrow> 's world kernel \<Rightarrow> 's world clock \<Rightarrow> 'd \<Rightarrow> (protocol \<times> nat \<times> nat) list \<times> error_code \<Rightarrow>
   ('o, 'd, 's, 'q, 't, 'a) sb_state \<Rightarrow> (('o, 'd, 's, 'q, 't, 'a) sb_state \<times> bool) option" where
  "streambuf_connect_resolved ctl k now created resolved s =
     (case s of (r, sb) \<Rightarrow> connect_to_all ctl k now created (fst resolved) (r, (init_buffers sb)\<lparr>sb_ec := snd resolved\<rparr>))"

definition streambuf_close ::
  "('s world, 'd) ctl \<Rightarrow> 's world kernel \<Rightarrow> 's world clock \<Rightarrow> nat \<Rightarrow> ('o, 'd, 's, 'q, 't, 'a) sb_state \<Rightarrow>
   (('o, 'd, 's, 'q, 't, 'a) sb_state \<times> bool) option" where
  "streambuf_close ctl k now ch_addr s =
     (case s of
        (r, sb) \<Rightarrow>
          Option.bind (sync_streambuf k now ch_addr sb (r_kernel r)) (\<lambda>(w1, sb1, c).
            case service_close ctl k (sb_socket sb1) (r\<lparr>r_kernel := w1\<rparr>) of
              (r2, impl2, ec) \<Rightarrow>
                let sb2 = sb1\<lparr>sb_socket := impl2, sb_ec := ec\<rparr>
                in Some ((r2, if \<not> ec_failed ec then init_buffers sb2 else sb2), \<not> ec_failed ec)))"

text \<open>Moving: the new values of the target and the source. The target's vectors are swapped with the
  source's, whose put buffer a move assignment makes full size again, perhaps elsewhere.\<close>

definition streambuf_move_construct :: "protocol \<Rightarrow> nat \<Rightarrow> nat \<Rightarrow> 'd socket_impl \<Rightarrow> 'd streambuf \<Rightarrow> 'd streambuf \<times> 'd streambuf" where
  "streambuf_move_construct default_protocol get_data put_data new_impl other =
     (case move_construct default_protocol new_impl (sb_socket other) of
        (impl, other_impl) \<Rightarrow>
          let sb = \<lparr>sb_socket = impl, sb_io_context = sb_io_context other, sb_get_data = sb_get_data other, sb_get_size = sb_get_size other,
                    sb_put_data = sb_put_data other, sb_put_size = sb_put_size other, sb_eback = 0, sb_gptr = 0, sb_egptr = 0,
                    sb_pbase = 0, sb_pptr = 0, sb_epptr = 0, sb_ec = sb_ec other, sb_expiry = sb_expiry other\<rparr>;
              sb1 = sb_setp (sb_pptr other) (sb_epptr other) (sb_setg (sb_eback other) (sb_gptr other) (sb_egptr other) sb);
              other1 = other\<lparr>sb_socket := other_impl, sb_get_data := get_data, sb_get_size := sb_buffer_size,
                             sb_put_data := put_data, sb_put_size := sb_buffer_size, sb_ec := no_error, sb_expiry := max_expiry_time\<rparr>
          in (sb1, init_buffers other1))"

definition streambuf_move_assign ::
  "('s world, 'd) ctl \<Rightarrow> 's world kernel \<Rightarrow> 's world clock \<Rightarrow> nat \<Rightarrow> protocol \<Rightarrow> nat \<Rightarrow>
   ('o, 'd, 's world, 'q, 't, 'a) reactor \<Rightarrow> 'd streambuf \<Rightarrow> 'd streambuf \<Rightarrow>
   (('o, 'd, 's world, 'q, 't, 'a) reactor \<times> 'd streambuf \<times> 'd streambuf) option" where
  "streambuf_move_assign ctl k now ch_addr default_protocol resized r sb other =
     Option.bind (streambuf_close ctl k now ch_addr (r, sb)) (\<lambda>((r1, sb1), ok).
       case move_assign ctl k default_protocol (sb_socket sb1) (sb_socket other) r1 of
         (r2, impl, other_impl) \<Rightarrow>
           let sb2 = sb1\<lparr>sb_socket := impl, sb_io_context := sb_io_context other, sb_ec := sb_ec other, sb_expiry := sb_expiry other,
                         sb_get_data := sb_get_data other, sb_get_size := sb_get_size other,
                         sb_put_data := sb_put_data other, sb_put_size := sb_put_size other\<rparr>;
               sb3 = sb_setp (sb_pptr other) (sb_epptr other) (sb_setg (sb_eback other) (sb_gptr other) (sb_egptr other) sb2);
               other1 = other\<lparr>sb_socket := other_impl, sb_get_data := sb_get_data sb1, sb_get_size := sb_get_size sb1,
                              sb_put_data := (if sb_put_size sb1 < sb_buffer_size then resized else sb_put_data sb1),
                              sb_put_size := sb_buffer_size, sb_ec := no_error, sb_expiry := max_expiry_time\<rparr>
           in Some (r2, sb3, init_buffers other1))"

definition streambuf_expires_after :: "'w clock \<Rightarrow> int \<Rightarrow> 'd streambuf \<Rightarrow> 'w \<Rightarrow> ('w \<times> 'd streambuf) option" where
  "streambuf_expires_after now d sb w =
     (case now w of (w1, t) \<Rightarrow> Option.bind (time_add t d) (\<lambda>e. Some (w1, sb\<lparr>sb_expiry := e\<rparr>)))"

end
