(* ===== verification/StreambufProps.thy ===== *)
theory StreambufProps
  imports SocketStreambuf
begin

text \<open>
  What the stream buffer promises: the bytes written come out of the socket in order, once they are
  flushed; the bytes that come into the socket are read in order. And where it does not hold: a flush
  that fails, a move, a connect that times out.
\<close>

section \<open>Laws of the kernel\<close>

text \<open>
  The documented behaviour of the calls on one socket. \<open>view\<close> is a stream of bytes the system keeps: those
  that were sent, or those to be received. Waiting, setting the mode and reading the clock leave it and
  the memory alone. \<open>sendmsg\<close> takes bytes from the front of the buffers and does not take none of
  some. \<open>patience\<close> bounds how often it reports that it would block.
\<close>

definition same :: "('s \<Rightarrow> byte list) \<Rightarrow> 's world \<Rightarrow> 's world \<Rightarrow> bool" where
  "same view w w1 \<longleftrightarrow> view (fst w1) = view (fst w) \<and> snd w1 = snd w"

definition wait_law :: "('s \<Rightarrow> byte list) \<Rightarrow> ('s world \<Rightarrow> nat) \<Rightarrow> 's world kernel \<Rightarrow> 's world clock \<Rightarrow> sock \<Rightarrow> bool" where
  "wait_law view patience k now s \<longleftrightarrow>
     (\<forall>cmd arg w w1 r e a. k_ioctl k s cmd arg w = (w1, r, e, a) \<longrightarrow> same view w w1 \<and> patience w1 \<le> patience w) \<and>
     (\<forall>events msec w w1 r e. k_poll k s events msec w = (w1, r, e) \<longrightarrow>
        same view w w1 \<and> patience w1 \<le> patience w \<and> (r < 0 \<longrightarrow> e \<noteq> 0)) \<and>
     (\<forall>w w1 t. now w = (w1, t) \<longrightarrow> same view w w1 \<and> patience w1 \<le> patience w \<and> is_int64 t)"

definition send_law :: "('s \<Rightarrow> byte list) \<Rightarrow> ('s world \<Rightarrow> nat) \<Rightarrow> 's world kernel \<Rightarrow> sock \<Rightarrow> bool" where
  "send_law outgoing patience k s \<longleftrightarrow> (\<forall>bufs flags w w1 r e. k_sendmsg k s bufs flags None 0 w = (w1, r, e) \<longrightarrow>
     snd w1 = snd w \<and> nat r \<le> length (baddrs bufs) \<and> (baddrs bufs \<noteq> [] \<longrightarrow> r \<noteq> 0) \<and>
     outgoing (fst w1) = outgoing (fst w) @ map (snd w) (take (nat r) (baddrs bufs)) \<and>
     (r < 0 \<longrightarrow> e \<noteq> 0 \<and> (ec_blocked (system_ec e) \<longrightarrow> patience w1 < patience w)))"

text \<open>A receive that would block, in the same way.\<close>

definition recv_patience :: "('s world \<Rightarrow> nat) \<Rightarrow> 's world kernel \<Rightarrow> sock \<Rightarrow> bool" where
  "recv_patience patience k s \<longleftrightarrow> (\<forall>bufs w w1 r e x. k_recvmsg k s bufs 0 None 0 w = (w1, r, e, x) \<longrightarrow>
     r < 0 \<longrightarrow> ec_blocked (system_ec e) \<longrightarrow> patience w1 < patience w)"

lemma same_refl [simp]: "same view w w" by (simp add: same_def)

lemma same_trans [trans]: "same view w w1 \<Longrightarrow> same view w1 w2 \<Longrightarrow> same view w w2" by (simp add: same_def)

lemma wait_lawD:
  assumes "wait_law view patience k now s"
  shows "k_ioctl k s cmd arg w = (w1, r, e, a) \<Longrightarrow> same view w w1 \<and> patience w1 \<le> patience w"
    and "k_poll k s events msec w = (w1, r, e) \<Longrightarrow> same view w w1 \<and> patience w1 \<le> patience w \<and> (r < 0 \<longrightarrow> e \<noteq> 0)"
    and "now w = (w1, t) \<Longrightarrow> same view w w1 \<and> patience w1 \<le> patience w \<and> is_int64 t"
  using assms unfolding wait_law_def by blast+

lemma send_lawD:
  assumes "send_law outgoing patience k s" and "k_sendmsg k s bufs flags None 0 w = (w1, r, e)"
  shows "snd w1 = snd w \<and> nat r \<le> length (baddrs bufs) \<and> (baddrs bufs \<noteq> [] \<longrightarrow> r \<noteq> 0)"
    and "outgoing (fst w1) = outgoing (fst w) @ map (snd w) (take (nat r) (baddrs bufs))"
    and "r < 0 \<Longrightarrow> e \<noteq> 0 \<and> (ec_blocked (system_ec e) \<longrightarrow> patience w1 < patience w)"
  using assms unfolding send_law_def by blast+

section \<open>What the loops share\<close>

text \<open>The operations touch the socket's state bits and the error code, not the buffers.\<close>

definition socket_only :: "'d streambuf \<Rightarrow> 'd streambuf \<Rightarrow> bool" where
  "socket_only sb sb1 \<longleftrightarrow> sb1 = sb\<lparr>sb_socket := sb_socket sb1, sb_ec := sb_ec sb1\<rparr> \<and>
     si_socket (sb_socket sb1) = si_socket (sb_socket sb)"

lemma socket_only_ec [simp]: "socket_only sb (sb\<lparr>sb_ec := ec\<rparr>)" "socket_only sb sb"
  by (simp_all add: socket_only_def)

lemma socket_only_trans [trans]:
  assumes "socket_only sb sb1" and "socket_only sb1 sb2"
  shows "socket_only sb sb2"
proof -
  have e: "sb1 = sb\<lparr>sb_socket := sb_socket sb1, sb_ec := sb_ec sb1\<rparr>" "sb2 = sb1\<lparr>sb_socket := sb_socket sb2, sb_ec := sb_ec sb2\<rparr>"
      "si_socket (sb_socket sb2) = si_socket (sb_socket sb)"
    using assms by (simp_all add: socket_only_def)
  have "sb2 = sb\<lparr>sb_socket := sb_socket sb2, sb_ec := sb_ec sb2\<rparr>"
    by (subst e(2), subst e(1)) simp
  with e(3) show ?thesis by (simp add: socket_only_def)
qed

lemma socket_onlyD:
  assumes "socket_only sb sb1"
  shows "si_socket (sb_socket sb1) = si_socket (sb_socket sb)" "sb_expiry sb1 = sb_expiry sb" "sb_get_data sb1 = sb_get_data sb"
    "sb_get_size sb1 = sb_get_size sb" "sb_put_data sb1 = sb_put_data sb" "sb_put_size sb1 = sb_put_size sb"
    "sb_eback sb1 = sb_eback sb" "sb_gptr sb1 = sb_gptr sb" "sb_egptr sb1 = sb_egptr sb" "sb_pbase sb1 = sb_pbase sb"
    "sb_pptr sb1 = sb_pptr sb" "sb_epptr sb1 = sb_epptr sb"
proof -
  have e: "sb1 = sb\<lparr>sb_socket := sb_socket sb1, sb_ec := sb_ec sb1\<rparr>" and s: "si_socket (sb_socket sb1) = si_socket (sb_socket sb)"
    using assms by (simp_all add: socket_only_def)
  show "si_socket (sb_socket sb1) = si_socket (sb_socket sb)" by (rule s)
  show "sb_expiry sb1 = sb_expiry sb" "sb_get_data sb1 = sb_get_data sb"
    "sb_get_size sb1 = sb_get_size sb" "sb_put_data sb1 = sb_put_data sb" "sb_put_size sb1 = sb_put_size sb"
    "sb_eback sb1 = sb_eback sb" "sb_gptr sb1 = sb_gptr sb" "sb_egptr sb1 = sb_egptr sb" "sb_pbase sb1 = sb_pbase sb"
    "sb_pptr sb1 = sb_pptr sb" "sb_epptr sb1 = sb_epptr sb"
    by (subst e, simp)+
qed

lemma sb_timeout_returns:
  assumes "wait_law view patience k now s" and "is_int64 expiry"
  shows "\<exists>w1 msec. sb_timeout now expiry w = Some (w1, msec) \<and> same view w w1 \<and> patience w1 \<le> patience w"
proof -
  obtain w1 t where n: "now w = (w1, t)" by fastforce
  with wait_lawD(3) [OF assms(1) n] assms(2) show ?thesis
    by (simp add: sb_timeout_def time_subtract_clamps nanoseconds_casts clamp64_range del: split_paired_Ex)
qed

lemma sb_non_blocking_keeps:
  assumes "wait_law view patience k now (si_socket (sb_socket sb))" and "sb_non_blocking k sb w = (w1, sb1)"
  shows "same view w w1 \<and> patience w1 \<le> patience w \<and> socket_only sb sb1"
proof -
  obtain w2 r e a where i: "k_ioctl k (si_socket (sb_socket sb)) FIONBIO 1 w = (w2, r, e, a)" by (metis prod_cases4)
  have u: "socket_only sb (sb\<lparr>sb_socket := (sb_socket sb)\<lparr>si_state := st\<rparr>, sb_ec := ec\<rparr>)" for st ec
    by (simp add: socket_only_def)
  show ?thesis
    using assms(2) wait_lawD(1) [OF assms(1) i] u i
    by (auto simp: sb_non_blocking_def service_native_non_blocking_def set_internal_non_blocking_def Let_def split: if_splits)
qed

text \<open>The wait for the socket between two attempts.\<close>

lemma poll_for_keeps:
  assumes "wait_law view patience k now s" and "poll_for k events s 0 msec w = (w1, ready, ec)"
  shows "same view w w1 \<and> patience w1 \<le> patience w \<and> (ready < 0 \<longrightarrow> ec_failed ec)"
proof -
  obtain w2 r e where p: "k_poll k s events msec w = (w2, r, e)" by (metis prod_cases3)
  show ?thesis
    using assms(2) wait_lawD(2) [OF assms(1) p] p
    by (auto simp: poll_for_def error_wrapper_def system_ec_def basic_ec_def ec_failed_def split: if_splits)
qed

section \<open>Sending\<close>

text \<open>What a flush comes to: some of the bytes at these addresses were sent, all of them if it succeeded.\<close>

definition sends ::
  "('s \<Rightarrow> byte list) \<Rightarrow> 'd streambuf \<Rightarrow> 's world \<Rightarrow> nat list \<Rightarrow> ('s world \<times> 'd streambuf \<times> bool) option \<Rightarrow> bool" where
  "sends outgoing sb w A result \<longleftrightarrow>
     (case result of
        None \<Rightarrow> False
      | Some (w1, sb1, ok) \<Rightarrow>
          socket_only sb sb1 \<and> snd w1 = snd w \<and> (\<not> ok \<longrightarrow> ec_failed (sb_ec sb1)) \<and>
          (\<exists>n \<le> length A. outgoing (fst w1) = outgoing (fst w) @ map (snd w) (take n A) \<and> (ok \<longrightarrow> n = length A)))"

lemma sendsE:
  assumes "sends outgoing sb w A result"
  obtains w1 sb1 ok n where "result = Some (w1, sb1, ok)" "socket_only sb sb1" "snd w1 = snd w" "\<not> ok \<longrightarrow> ec_failed (sb_ec sb1)"
    "n \<le> length A" "outgoing (fst w1) = outgoing (fst w) @ map (snd w) (take n A)" "ok \<longrightarrow> n = length A"
proof -
  obtain w1 sb1 ok where r: "result = Some (w1, sb1, ok)"
    using assms by (cases result) (auto simp: sends_def)
  with assms have s: "socket_only sb sb1" "snd w1 = snd w" "\<not> ok \<longrightarrow> ec_failed (sb_ec sb1)"
      "\<exists>n \<le> length A. outgoing (fst w1) = outgoing (fst w) @ map (snd w) (take n A) \<and> (ok \<longrightarrow> n = length A)"
    by (simp_all add: sends_def)
  from s(4) show thesis by (elim exE conjE) (rule that [OF r s(1-3)], assumption+)
qed

lemma sends_more:
  assumes "sends outgoing sb1 w1 (drop n A) result" and "socket_only sb sb1" and "snd w1 = snd w" and "n \<le> length A"
    and "outgoing (fst w1) = outgoing (fst w) @ map (snd w) (take n A)"
  shows "sends outgoing sb w A result"
proof -
  obtain w2 sb2 ok m where r: "result = Some (w2, sb2, ok)" and s: "socket_only sb1 sb2" "snd w2 = snd w1" "\<not> ok \<longrightarrow> ec_failed (sb_ec sb2)"
      and m: "m \<le> length (drop n A)" "outgoing (fst w2) = outgoing (fst w1) @ map (snd w1) (take m (drop n A))" "ok \<longrightarrow> m = length (drop n A)"
    using assms(1) by (rule sendsE)
  have "take (n + m) A = take n A @ take m (drop n A)" by (simp add: take_add)
  with m assms(3-5) have "\<exists>n \<le> length A. outgoing (fst w2) = outgoing (fst w) @ map (snd w) (take n A) \<and> (ok \<longrightarrow> n = length A)"
    by (intro exI [of _ "n + m"]) auto
  then show ?thesis
    using r s(2,3) assms(3) socket_only_trans [OF assms(2) s(1)] by (simp add: sends_def)
qed

lemma sends_after:
  assumes "sends outgoing sb1 w1 A result" and "same outgoing w w1" and "socket_only sb sb1"
  shows "sends outgoing sb w A result"
  using sends_more [where n = 0, of outgoing sb1 w1 A result sb w] assms by (simp add: same_def)

lemma sends_failed:
  assumes "same outgoing w w1" and "socket_only sb sb1" and "ec_failed (sb_ec sb1)"
  shows "sends outgoing sb w A (Some (w1, sb1, False))"
  using assms by (auto simp: sends_def same_def intro!: exI [of _ 0])

lemma overflow_loop_step:
  assumes "0 < buf_size buffer" and "now w = (w0, t)" and "sb_non_blocking k sb w0 = (w1, sb1)"
    and "k_sendmsg k (si_socket (sb_socket sb1)) (adapter_buffers [buffer]) (0 OR MSG_NOSIGNAL) None 0 w1 = (w2, bytes, e)"
  shows "overflow_loop k now buffer sb w =
    (if time_less (sb_expiry sb) t then Some (w0, sb\<lparr>sb_ec := basic_ec timed_out\<rparr>, False)
     else if bytes > 0 then overflow_loop k now (buf_advance buffer (nat bytes)) (sb1\<lparr>sb_ec := no_error\<rparr>) w2
     else if bytes = 0 then Some (w2, sb1\<lparr>sb_ec := no_error\<rparr>, False)
     else if \<not> ec_blocked (system_ec e) then Some (w2, sb1\<lparr>sb_ec := system_ec e\<rparr>, False)
     else
       Option.bind (sb_timeout now (sb_expiry sb1) w2) (\<lambda>(w3, msec).
         case poll_write k (si_socket (sb_socket sb1)) 0 msec w3 of
           (w4, ready, ec1) \<Rightarrow>
             if ready < 0 then Some (w4, sb1\<lparr>sb_ec := ec1\<rparr>, False)
             else overflow_loop k now buffer (sb1\<lparr>sb_ec := ec1\<rparr>) w4))"
  using assms
  by (subst overflow_loop.simps)
    (simp add: sock_send_def nonneg_ok_def error_wrapper_def ec_blocked_def basic_ec_def no_error_def system_ec_def)

lemma size_patience_induct:
  fixes patience :: "'w \<Rightarrow> nat"
  assumes step: "\<And>buffer w. (\<And>buffer1 w1. buf_size buffer1 < buf_size buffer \<or> buf_size buffer1 = buf_size buffer \<and> patience w1 < patience w \<Longrightarrow>
      P buffer1 w1) \<Longrightarrow> P buffer w"
  shows "P buffer w"
proof -
  have "wf (inv_image (less_than <*lex*> less_than) (\<lambda>(buffer, w). (buf_size buffer, patience w)))"
    by (intro wf_inv_image wf_lex_prod wf_less_than)
  then have "(case x of (buffer, w) \<Rightarrow> P buffer w)" for x
    by (induction x rule: wf_induct_rule) (use assms in auto)
  from this [of "(buffer, w)"] show ?thesis by simp
qed

lemma overflow_loop_sends:
  assumes L: "wait_law outgoing patience k now s" and S: "send_law outgoing patience k s"
    and "is_int64 (sb_expiry sb)" and "si_socket (sb_socket sb) = s"
  shows "sends outgoing sb w (addrs buffer) (overflow_loop k now buffer sb w)"
  using assms(3,4)
proof (induction buffer w arbitrary: sb rule: size_patience_induct [of patience, case_names less])
  case (less buffer w)
  show ?case
  proof (cases "buf_size buffer = 0")
    case True
    then show ?thesis
      by (subst overflow_loop.simps) (simp add: sends_def addrs_def)
  next
    case False
    obtain w0 t where n: "now w = (w0, t)" by fastforce
    obtain w1 sb1 where m: "sb_non_blocking k sb w0 = (w1, sb1)" by fastforce
    note W0 = wait_lawD(3) [OF L n] and W1 = sb_non_blocking_keeps [OF L [folded less.prems(2)] m]
    then have o1: "socket_only sb sb1" and q1: "same outgoing w w1" and p1: "patience w1 \<le> patience w"
      by (blast intro: same_trans le_trans)+
    note F = socket_onlyD [OF o1]
    obtain w2 bytes e where c: "k_sendmsg k (si_socket (sb_socket sb1)) (adapter_buffers [buffer]) (0 OR MSG_NOSIGNAL) None 0 w1 = (w2, bytes, e)"
      by (metis prod_cases3)
    have A: "baddrs (adapter_buffers [buffer]) = addrs buffer" "addrs buffer \<noteq> []"
      using False by (simp_all add: adapter_props adapter_max_buffers_def addrs_def)
    note C = send_lawD [OF S c [unfolded F(1) less.prems(2)], unfolded A(1)]
    have pos: "0 < buf_size buffer" using False by simp
    note step = overflow_loop_step [where now = now and w = w and sb = sb, OF pos n m c]
    have q2: "same outgoing w w2" if "bytes < 0" using that C(1,2) q1 by (simp add: same_def)
    have ih: "sends outgoing sb' w' (addrs buffer') (overflow_loop k now buffer' sb' w')"
      if "buf_size buffer' < buf_size buffer \<or> buf_size buffer' = buf_size buffer \<and> patience w' < patience w" and "socket_only sb sb'"
      for buffer' sb' w'
      using less.IH [of buffer' w' sb'] that(1) socket_onlyD(1,2) [OF that(2)] less.prems by auto
    consider (expired) "time_less (sb_expiry sb) t" | (more) "\<not> time_less (sb_expiry sb) t" "bytes > 0"
      | (failed) "\<not> time_less (sb_expiry sb) t" "bytes < 0" "\<not> ec_blocked (system_ec e)"
      | (blocked) "\<not> time_less (sb_expiry sb) t" "bytes < 0" "ec_blocked (system_ec e)"
      using C(1) A(2) by linarith
    then show ?thesis
    proof cases
      case expired
      with W0 show ?thesis
        unfolding step by (simp add: sends_failed)
    next
      case more
      have o: "socket_only sb (sb1\<lparr>sb_ec := no_error\<rparr>)" using o1 by (rule socket_only_trans) simp
      have n: "0 < nat bytes" "nat bytes \<le> length (addrs buffer)" using more C(1) by auto
      have "sends outgoing (sb1\<lparr>sb_ec := no_error\<rparr>) w2 (drop (nat bytes) (addrs buffer))
          (overflow_loop k now (buf_advance buffer (nat bytes)) (sb1\<lparr>sb_ec := no_error\<rparr>) w2)"
        using ih [of "buf_advance buffer (nat bytes)" w2, OF _ o] n False by (simp add: addrs_advance)
      then have "sends outgoing sb w (addrs buffer) (overflow_loop k now (buf_advance buffer (nat bytes)) (sb1\<lparr>sb_ec := no_error\<rparr>) w2)"
        by (rule sends_more [OF _ o]) (use n C q1 in \<open>simp_all add: same_def\<close>)
      with more show ?thesis unfolding step by simp
    next
      case failed
      have "socket_only sb (sb1\<lparr>sb_ec := system_ec e\<rparr>)" using o1 by (rule socket_only_trans) simp
      with failed q2 C(3) show ?thesis
        unfolding step by (simp add: sends_failed)
    next
      case blocked
      obtain w3 msec where T: "sb_timeout now (sb_expiry sb1) w2 = Some (w3, msec)" "same outgoing w2 w3" "patience w3 \<le> patience w2"
        using sb_timeout_returns [OF L, of "sb_expiry sb1" w2] F(2) less.prems(1) by auto
      obtain w4 ready ec1 where P: "poll_write k (si_socket (sb_socket sb1)) 0 msec w3 = (w4, ready, ec1)" by (metis prod_cases3)
      note K = poll_for_keeps [OF L P [unfolded poll_write_def F(1) less.prems(2)]]
      have q4: "same outgoing w w4" using q2 blocked T(2) K by (blast intro: same_trans)
      have o: "socket_only sb (sb1\<lparr>sb_ec := ec1\<rparr>)" using o1 by (rule socket_only_trans) simp
      have "patience w4 < patience w" using C(3) blocked T(3) K p1 by simp
      then have "sends outgoing sb w (addrs buffer) (overflow_loop k now buffer (sb1\<lparr>sb_ec := ec1\<rparr>) w4)"
        by (intro sends_after [OF ih q4 o]) (simp_all add: o)
      with blocked T(1) P K q4 o show ?thesis
        unfolding step by (simp add: sends_failed)
    qed
  qed
qed

section \<open>Receiving\<close>

text \<open>What filling the get area comes to: the next bytes are in it, behind the room for putting back; or none
  came and the error says why.\<close>

definition get_addrs :: "'d streambuf \<Rightarrow> nat list" where
  "get_addrs sb = [sb_get_data sb + putback_max ..< sb_get_data sb + sb_get_size sb]"

definition fills ::
  "('s \<Rightarrow> byte list) \<Rightarrow> 'd streambuf \<Rightarrow> 's world \<Rightarrow> ('s world \<times> 'd streambuf \<times> int) option \<Rightarrow> bool" where
  "fills incoming sb w result \<longleftrightarrow>
     (case result of
        None \<Rightarrow> False
      | Some (w1, sb1, c) \<Rightarrow>
          if c = eof_int then same incoming w w1 \<and> socket_only sb sb1 \<and> ec_failed (sb_ec sb1)
          else \<exists>n. 0 < n \<and> n \<le> length (get_addrs sb) \<and> received incoming w (take n (get_addrs sb)) w1 \<and>
                 socket_only (sb_setg (sb_get_data sb) (sb_get_data sb + putback_max) (sb_get_data sb + putback_max + n) sb) sb1 \<and>
                 c = to_int_type (snd w1 (sb_get_data sb + putback_max)))"

lemma to_int_not_eof [simp]: "to_int_type c \<noteq> eof_int" "to_char_type (to_int_type c) = c"
proof -
  have "0 \<le> uint c" by simp
  then show "to_int_type c \<noteq> eof_int" unfolding to_int_type_def eof_int_def by linarith
qed (simp add: to_int_type_def to_char_type_def)

lemma received_same: "received incoming w [] w1 \<longleftrightarrow> same incoming w w1"
  by (auto simp: received_def same_def)

lemma received_after: "same incoming w w1 \<Longrightarrow> received incoming w1 A w2 \<Longrightarrow> received incoming w A w2"
  by (simp add: received_def same_def)

lemma socket_only_setg: "socket_only sb sb1 \<Longrightarrow> socket_only (sb_setg b n e sb) (sb_setg b n e sb1)"
proof (unfold socket_only_def, elim conjE, intro conjI)
  assume e: "sb1 = sb\<lparr>sb_socket := sb_socket sb1, sb_ec := sb_ec sb1\<rparr>"
  show "sb_setg b n e sb1 = (sb_setg b n e sb)\<lparr>sb_socket := sb_socket (sb_setg b n e sb1), sb_ec := sb_ec (sb_setg b n e sb1)\<rparr>"
    by (subst e) (simp add: sb_setg_def)
qed (simp add: sb_setg_def)

lemma fills_after:
  assumes "fills incoming sb1 w1 result" and "same incoming w w1" and "socket_only sb sb1"
  shows "fills incoming sb w result"
proof -
  note F = socket_onlyD [OF assms(3)]
  obtain w2 sb2 c where r: "result = Some (w2, sb2, c)"
    using assms(1) by (cases result) (auto simp: fills_def)
  have a: "get_addrs sb1 = get_addrs sb" by (simp add: get_addrs_def F)
  show ?thesis
  proof (cases "c = eof_int")
    case True
    then show ?thesis
      using assms unfolding r by (auto simp: fills_def intro: same_trans socket_only_trans)
  next
    case False
    then obtain n where n: "0 < n" "n \<le> length (get_addrs sb)" "received incoming w1 (take n (get_addrs sb)) w2"
        "socket_only (sb_setg (sb_get_data sb) (sb_get_data sb + putback_max) (sb_get_data sb + putback_max + n) sb1) sb2"
        "c = to_int_type (snd w2 (sb_get_data sb + putback_max))"
      using assms(1) a unfolding r by (auto simp: fills_def F)
    with False received_after [OF assms(2) n(3)] socket_only_trans [OF socket_only_setg [OF assms(3)] n(4)]
    show ?thesis unfolding r by (auto simp: fills_def)
  qed
qed

lemma fills_failed: "same incoming w w1 \<Longrightarrow> socket_only sb sb1 \<Longrightarrow> ec_failed (sb_ec sb1) \<Longrightarrow> fills incoming sb w (Some (w1, sb1, eof_int))"
  by (simp add: fills_def)

lemma underflow_loop_step:
  fixes sb1 :: "'d streambuf"
  defines "area \<equiv> buf_plus (buffer_of_vector (sb_get_data sb1) (sb_get_size sb1) 1 None) putback_max"
  assumes "now w = (w0, t)" and "sb_non_blocking k sb w0 = (w1, sb1)"
    and "k_recvmsg k (si_socket (sb_socket sb1)) (adapter_buffers [area]) 0 None 0 w1 = (w2, bytes, e, x)"
  shows "underflow_loop k now sb w =
    (if time_less (sb_expiry sb) t then Some (w0, sb\<lparr>sb_ec := basic_ec timed_out\<rparr>, eof_int)
     else if bytes > 0 then
       Some (w2, sb_setg (sb_get_data sb1) (sb_get_data sb1 + putback_max) (sb_get_data sb1 + putback_max + nat bytes) (sb1\<lparr>sb_ec := no_error\<rparr>),
         to_int_type (snd w2 (sb_get_data sb1 + putback_max)))
     else if bytes = 0 then Some (w2, sb1\<lparr>sb_ec := misc_ec eof\<rparr>, eof_int)
     else if \<not> ec_blocked (system_ec e) then Some (w2, sb1\<lparr>sb_ec := system_ec e\<rparr>, eof_int)
     else
       Option.bind (sb_timeout now (sb_expiry sb1) w2) (\<lambda>(w3, msec).
         case poll_read k (si_socket (sb_socket sb1)) 0 msec w3 of
           (w4, ready, ec1) \<Rightarrow>
             if ready < 0 then Some (w4, sb1\<lparr>sb_ec := ec1\<rparr>, eof_int)
             else underflow_loop k now (sb1\<lparr>sb_ec := ec1\<rparr>) w4))"
  using assms(2,3) assms(4) [unfolded area_def]
  by (subst underflow_loop.simps)
    (simp add: sock_recv_def nonneg_ok_def error_wrapper_def Let_def sb_setg_def)

lemma get_area_addrs:
  assumes "putback_max < sb_get_size sb"
  shows "baddrs (adapter_buffers [buf_plus (buffer_of_vector (sb_get_data sb) (sb_get_size sb) 1 None) putback_max]) = get_addrs sb"
  using assms by (simp add: adapter_props adapter_max_buffers_def addrs_plus get_addrs_def)
    (simp add: addrs_def buffer_of_vector_def bounded_size_def)

lemma underflow_loop_fills:
  assumes L: "wait_law incoming patience k now s" and R: "recv_law incoming k s" and P: "recv_patience patience k s"
    and "is_int64 (sb_expiry sb)" and "si_socket (sb_socket sb) = s" and "putback_max < sb_get_size sb"
  shows "fills incoming sb w (underflow_loop k now sb w)"
  using assms(4-)
proof (induction "patience w" arbitrary: w sb rule: less_induct)
  case less
  obtain w0 t where n: "now w = (w0, t)" by fastforce
  obtain w1 sb1 where m: "sb_non_blocking k sb w0 = (w1, sb1)" by fastforce
  note W0 = wait_lawD(3) [OF L n] and W1 = sb_non_blocking_keeps [OF L [folded less.prems(2)] m]
  then have o1: "socket_only sb sb1" and q1: "same incoming w w1" and p1: "patience w1 \<le> patience w"
    by (blast intro: same_trans le_trans)+
  note F = socket_onlyD [OF o1]
  let ?area = "buf_plus (buffer_of_vector (sb_get_data sb1) (sb_get_size sb1) 1 None) putback_max"
  obtain w2 bytes e x where c: "k_recvmsg k (si_socket (sb_socket sb1)) (adapter_buffers [?area]) 0 None 0 w1 = (w2, bytes, e, x)"
    by (metis prod_cases4)
  have A: "baddrs (adapter_buffers [?area]) = get_addrs sb" "distinct (get_addrs sb)"
    using get_area_addrs [of sb1] less.prems(3) F by (simp_all add: get_addrs_def)
  note C = recv_lawD [OF R c [unfolded F(1) less.prems(2)], unfolded A(1)]
  have q2: "same incoming w w2" if "bytes \<le> 0"
    using that C q1 A(2) by (cases "bytes = 0") (auto simp: received_same intro: same_trans)
  note step = underflow_loop_step [where now = now and w = w and sb = sb, OF n m c]
  consider (expired) "time_less (sb_expiry sb) t" | (some) "\<not> time_less (sb_expiry sb) t" "bytes > 0"
    | (eof) "\<not> time_less (sb_expiry sb) t" "bytes = 0"
    | (failed) "\<not> time_less (sb_expiry sb) t" "bytes < 0" "\<not> ec_blocked (system_ec e)"
    | (blocked) "\<not> time_less (sb_expiry sb) t" "bytes < 0" "ec_blocked (system_ec e)"
    by linarith
  then show ?case
  proof cases
    case expired
    with W0 show ?thesis unfolding step by (simp add: fills_failed)
  next
    case some
    have r: "nat bytes \<le> length (get_addrs sb)" "received incoming w (take (nat bytes) (get_addrs sb)) w2"
      using C(1) some A(2) received_after [OF q1] by auto
    have "socket_only (sb_setg (sb_get_data sb) (sb_get_data sb + putback_max) (sb_get_data sb + putback_max + nat bytes) sb)
        (sb_setg (sb_get_data sb) (sb_get_data sb + putback_max) (sb_get_data sb + putback_max + nat bytes) (sb1\<lparr>sb_ec := no_error\<rparr>))"
    proof (rule socket_only_setg)
      show "socket_only sb (sb1\<lparr>sb_ec := no_error\<rparr>)" using o1 by (rule socket_only_trans) simp
    qed
    with some r show ?thesis unfolding step F(3) by (auto simp: fills_def intro!: exI [of _ "nat bytes"])
  next
    case eof
    have "socket_only sb (sb1\<lparr>sb_ec := misc_ec eof\<rparr>)" using o1 by (rule socket_only_trans) simp
    with eof q2 show ?thesis unfolding step by (simp add: fills_failed)
  next
    case failed
    have "socket_only sb (sb1\<lparr>sb_ec := system_ec e\<rparr>)" using o1 by (rule socket_only_trans) simp
    with failed q2 C(2) show ?thesis unfolding step by (simp add: fills_failed)
  next
    case blocked
    obtain w3 msec where T: "sb_timeout now (sb_expiry sb1) w2 = Some (w3, msec)" "same incoming w2 w3" "patience w3 \<le> patience w2"
      using sb_timeout_returns [OF L, of "sb_expiry sb1" w2] F(2) less.prems(1) by auto
    obtain w4 ready ec1 where p: "poll_read k (si_socket (sb_socket sb1)) 0 msec w3 = (w4, ready, ec1)" by (metis prod_cases3)
    note K = poll_for_keeps [OF L p [unfolded poll_read_def F(1) less.prems(2)]]
    have q4: "same incoming w w4" using q2 blocked T(2) K by (auto intro: same_trans)
    have o: "socket_only sb (sb1\<lparr>sb_ec := ec1\<rparr>)" using o1 by (rule socket_only_trans) simp
    have lt: "patience w4 < patience w"
      using P [unfolded recv_patience_def, rule_format, OF c [unfolded F(1) less.prems(2)]] blocked T(3) K p1 by simp
    have "fills incoming (sb1\<lparr>sb_ec := ec1\<rparr>) w4 (underflow_loop k now (sb1\<lparr>sb_ec := ec1\<rparr>) w4)"
      using less.hyps [OF lt, of "sb1\<lparr>sb_ec := ec1\<rparr>"] socket_onlyD(1,2,4) [OF o] less.prems by simp
    then have "fills incoming sb w (underflow_loop k now (sb1\<lparr>sb_ec := ec1\<rparr>) w4)"
      using q4 o by (rule fills_after)
    with blocked T(1) p K q4 o show ?thesis unfolding step by (simp add: fills_failed)
  qed
qed

section \<open>The streams\<close>

text \<open>The bytes written are those that were sent and those in the put area; the bytes to be read are those in
  the get area and those to be received.\<close>

definition pending_out :: "'d streambuf \<Rightarrow> 's world \<Rightarrow> byte list" where
  "pending_out sb w = map (snd w) [sb_pbase sb ..< sb_pptr sb]"

definition out_stream :: "('s \<Rightarrow> byte list) \<Rightarrow> 'd streambuf \<Rightarrow> 's world \<Rightarrow> byte list" where
  "out_stream outgoing sb w = outgoing (fst w) @ pending_out sb w"

definition in_stream :: "('s \<Rightarrow> byte list) \<Rightarrow> 'd streambuf \<Rightarrow> 's world \<Rightarrow> byte list" where
  "in_stream incoming sb w = map (snd w) [sb_gptr sb ..< sb_egptr sb] @ incoming (fst w)"

definition put_ok :: "'d streambuf \<Rightarrow> bool" where
  "put_ok sb \<longleftrightarrow>
     (if sb_put_size sb = 0 then sb_pptr sb = sb_pbase sb \<and> sb_epptr sb = sb_pbase sb
      else sb_pbase sb \<le> sb_pptr sb \<and> sb_pptr sb \<le> sb_epptr sb)"

definition get_ok :: "'d streambuf \<Rightarrow> bool" where
  "get_ok sb \<longleftrightarrow> sb_gptr sb \<le> sb_egptr sb \<and> putback_max < sb_get_size sb"

text \<open>What the buffer functions keep of the socket and the expiry time.\<close>

definition same_socket :: "'d streambuf \<Rightarrow> 'd streambuf \<Rightarrow> bool" where
  "same_socket sb sb1 \<longleftrightarrow> si_socket (sb_socket sb1) = si_socket (sb_socket sb) \<and> sb_expiry sb1 = sb_expiry sb"

lemma overflow_writes:
  assumes "wait_law outgoing patience k now s" and "send_law outgoing patience k s"
    and "is_int64 (sb_expiry sb)" and "si_socket (sb_socket sb) = s" and "put_ok sb"
  shows "\<exists>w1 sb1 r. overflow k now a c sb w = Some (w1, sb1, r) \<and> put_ok sb1 \<and> same_socket sb sb1 \<and>
    (if r = eof_int
     then ec_failed (sb_ec sb1) \<and> (c = eof_int \<longrightarrow> pending_out sb1 w1 = pending_out sb w \<and>
            (\<exists>n. outgoing (fst w1) = outgoing (fst w) @ take n (pending_out sb w)))
     else out_stream outgoing sb1 w1 = out_stream outgoing sb w @ (if c = eof_int then [] else [to_char_type c]) \<and>
          (c = eof_int \<longrightarrow> pending_out sb1 w1 = []))"
proof (cases "sb_put_size sb = 0")
  case True
  then have p: "sb_pptr sb = sb_pbase sb" "sb_epptr sb = sb_pbase sb" using assms(5) by (simp_all add: put_ok_def)
  let ?w = "(fst w, (snd w)(a := to_char_type c))"
  have "sends outgoing sb ?w [a] (overflow_loop k now (buffer_of_memory a 1) sb ?w)"
    using overflow_loop_sends [OF assms(1-4), of ?w "buffer_of_memory a 1"] by (simp add: addrs_def buffer_of_memory_def)
  then obtain w1 sb1 ok n where l: "overflow_loop k now (buffer_of_memory a 1) sb ?w = Some (w1, sb1, ok)" "socket_only sb sb1"
      "snd w1 = snd ?w" "\<not> ok \<longrightarrow> ec_failed (sb_ec sb1)" "n \<le> length [a]"
      "outgoing (fst w1) = outgoing (fst ?w) @ map (snd ?w) (take n [a])" "ok \<longrightarrow> n = length [a]"
    by (rule sendsE)
  note F = socket_onlyD [OF l(2)]
  show ?thesis
  proof (cases "c = eof_int")
    case eof: True
    with True p assms(5) show ?thesis
      by (intro exI [of _ w] exI [of _ sb] exI [of _ "not_eof c"]) (simp add: overflow_def same_socket_def not_eof_def eof_int_def pending_out_def out_stream_def)
  next
    case False
    with True p l F show ?thesis
      by (intro exI [of _ w1] exI [of _ sb1] exI [of _ "if ok then c else eof_int"])
        (auto simp: overflow_def same_socket_def pending_out_def out_stream_def put_ok_def)
  qed
next
  case False
  then have p: "sb_pbase sb \<le> sb_pptr sb" "sb_pptr sb \<le> sb_epptr sb" using assms(5) by (simp_all add: put_ok_def)
  let ?b = "buffer_of_memory (sb_pbase sb) (sb_pptr sb - sb_pbase sb)"
  have "addrs ?b = [sb_pbase sb ..< sb_pptr sb]" using p by (simp add: addrs_def buffer_of_memory_def)
  then have "sends outgoing sb w [sb_pbase sb ..< sb_pptr sb] (overflow_loop k now ?b sb w)"
    using overflow_loop_sends [OF assms(1-4), of w ?b] by simp
  then obtain w1 sb1 ok n where l: "overflow_loop k now ?b sb w = Some (w1, sb1, ok)" "socket_only sb sb1"
      "snd w1 = snd w" "\<not> ok \<longrightarrow> ec_failed (sb_ec sb1)" "n \<le> length [sb_pbase sb ..< sb_pptr sb]"
      "outgoing (fst w1) = outgoing (fst w) @ map (snd w) (take n [sb_pbase sb ..< sb_pptr sb])" "ok \<longrightarrow> n = length [sb_pbase sb ..< sb_pptr sb]"
    by (rule sendsE)
  note F = socket_onlyD [OF l(2)]
  have t: "outgoing (fst w1) = outgoing (fst w) @ take n (pending_out sb w)"
    using l(6) by (simp add: pending_out_def take_map)
  show ?thesis
  proof (cases ok)
    case failed: False
    have "pending_out sb1 w1 = pending_out sb w" "put_ok sb1"
      using p False l(3) F by (simp_all add: pending_out_def put_ok_def)
    with failed False l(1,4) t F show ?thesis
      by (intro exI [of _ w1] exI [of _ sb1] exI [of _ eof_int]) (auto simp: overflow_def same_socket_def)
  next
    case ok: True
    let ?sb2 = "sb_setp (sb_put_data sb1) (sb_put_data sb1 + sb_put_size sb1) sb1"
    have s: "outgoing (fst w1) = out_stream outgoing sb w"
      using l(7) ok t by (simp add: out_stream_def pending_out_def)
    show ?thesis
    proof (cases "c = eof_int")
      case True
      with ok False l s F show ?thesis
        by (intro exI [of _ w1] exI [of _ ?sb2] exI [of _ "not_eof c"])
          (simp add: overflow_def Let_def same_socket_def out_stream_def pending_out_def sb_setp_def put_ok_def not_eof_def eof_int_def)
    next
      case c: False
      with ok False l s F show ?thesis
        by (intro exI [of _ "(fst w1, (snd w1)(sb_pptr ?sb2 := to_char_type c))"] exI [of _ "?sb2\<lparr>sb_pptr := sb_pptr ?sb2 + 1\<rparr>"] exI [of _ c])
          (simp add: overflow_def Let_def same_socket_def out_stream_def pending_out_def sb_setp_def put_ok_def)
    qed
  qed
qed

lemma same_socketD: "same_socket sb sb1 \<Longrightarrow> si_socket (sb_socket sb1) = si_socket (sb_socket sb) \<and> sb_expiry sb1 = sb_expiry sb"
  by (simp add: same_socket_def)

lemma sputc_writes:
  assumes "wait_law outgoing patience k now s" and "send_law outgoing patience k s"
    and "is_int64 (sb_expiry sb)" and "si_socket (sb_socket sb) = s" and "put_ok sb"
  obtains w1 sb1 r where "sputc k now a c sb w = Some (w1, sb1, r)" "put_ok sb1" "same_socket sb sb1"
    "r = eof_int \<longrightarrow> ec_failed (sb_ec sb1)" "r \<noteq> eof_int \<longrightarrow> out_stream outgoing sb1 w1 = out_stream outgoing sb w @ [c]"
proof (cases "sb_pptr sb < sb_epptr sb")
  case True
  let ?w1 = "(fst w, (snd w)(sb_pptr sb := c))" and ?sb1 = "sb\<lparr>sb_pptr := sb_pptr sb + 1\<rparr>"
  have "sb_pbase sb \<le> sb_pptr sb" "sb_put_size sb \<noteq> 0" using True assms(5) by (simp_all add: put_ok_def split: if_splits)
  then have "out_stream outgoing ?sb1 ?w1 = out_stream outgoing sb w @ [c]" "put_ok ?sb1"
    using True by (simp_all add: out_stream_def pending_out_def put_ok_def)
  with True show thesis
    by (intro that [of ?w1 ?sb1 "to_int_type c"]) (simp_all add: sputc_def same_socket_def)
next
  case False
  from overflow_writes [OF assms, of a "to_int_type c" w] show thesis
    by (elim exE conjE) (rule that, use False in \<open>auto simp: sputc_def split: if_splits\<close>)
qed

lemma sputn_writes:
  assumes "wait_law outgoing patience k now s" and "send_law outgoing patience k s"
    and "is_int64 (sb_expiry sb)" and "si_socket (sb_socket sb) = s" and "put_ok sb"
  shows "\<exists>w1 sb1 ok. sputn k now a cs sb w = Some (w1, sb1, ok) \<and> put_ok sb1 \<and> same_socket sb sb1 \<and>
    (if ok then out_stream outgoing sb1 w1 = out_stream outgoing sb w @ cs else ec_failed (sb_ec sb1))"
  using assms(3-)
proof (induction cs arbitrary: sb w)
  case Nil
  then show ?case by (intro exI [of _ w] exI [of _ sb] exI [of _ True]) (simp add: same_socket_def)
next
  case (Cons c cs)
  obtain w1 sb1 r where c: "sputc k now a c sb w = Some (w1, sb1, r)" "put_ok sb1" "same_socket sb sb1"
      "r = eof_int \<longrightarrow> ec_failed (sb_ec sb1)" "r \<noteq> eof_int \<longrightarrow> out_stream outgoing sb1 w1 = out_stream outgoing sb w @ [c]"
    using sputc_writes [OF assms(1,2) Cons.prems] .
  show ?case
  proof (cases "r = eof_int")
    case True
    with c show ?thesis by (intro exI [of _ w1] exI [of _ sb1] exI [of _ False]) simp
  next
    case False
    obtain w2 sb2 ok where d: "sputn k now a cs sb1 w1 = Some (w2, sb2, ok)" "put_ok sb2" "same_socket sb1 sb2"
        "if ok then out_stream outgoing sb2 w2 = out_stream outgoing sb1 w1 @ cs else ec_failed (sb_ec sb2)"
      using Cons.IH [of sb1 w1] Cons.prems c(2) same_socketD [OF c(3)] by auto
    with False c show ?thesis
      by (intro exI [of _ w2] exI [of _ sb2] exI [of _ ok]) (simp add: same_socket_def)
  qed
qed

lemma sbumpc_reads:
  assumes "wait_law incoming patience k now s" and "recv_law incoming k s" and "recv_patience patience k s"
    and "is_int64 (sb_expiry sb)" and "si_socket (sb_socket sb) = s" and "get_ok sb"
  obtains w1 sb1 r where "sbumpc k now sb w = Some (w1, sb1, r)" "get_ok sb1" "same_socket sb sb1"
    "r = eof_int \<longrightarrow> ec_failed (sb_ec sb1) \<and> in_stream incoming sb1 w1 = in_stream incoming sb w"
    "r \<noteq> eof_int \<longrightarrow> in_stream incoming sb w = to_char_type r # in_stream incoming sb1 w1"
proof (cases "sb_gptr sb < sb_egptr sb")
  case True
  then show thesis
    using assms(6)
    by (intro that [of w "sb\<lparr>sb_gptr := sb_gptr sb + 1\<rparr>" "to_int_type (snd w (sb_gptr sb))"])
      (simp_all add: sbumpc_def same_socket_def get_ok_def in_stream_def upt_rec [of "sb_gptr sb"])
next
  case False
  with assms(6) have g: "sb_gptr sb = sb_egptr sb" "putback_max < sb_get_size sb" by (simp_all add: get_ok_def)
  have "fills incoming sb w (underflow_loop k now sb w)"
    using underflow_loop_fills [OF assms(1-5) g(2)] .
  then obtain w1 sb1 c where l: "underflow_loop k now sb w = Some (w1, sb1, c)" "fills incoming sb w (Some (w1, sb1, c))"
    by (cases "underflow_loop k now sb w") (auto simp: fills_def)
  show thesis
  proof (cases "c = eof_int")
    case True
    with l(2) have e: "same incoming w w1" "socket_only sb sb1" "ec_failed (sb_ec sb1)" by (simp_all add: fills_def)
    with l(1) True False g socket_onlyD [OF e(2)] show thesis
      by (intro that [of w1 sb1 eof_int]) (simp_all add: sbumpc_def underflow_def same_socket_def get_ok_def in_stream_def same_def)
  next
    case c: False
    with l(2) obtain n where n: "0 < n" "n \<le> length (get_addrs sb)" "received incoming w (take n (get_addrs sb)) w1"
        "socket_only (sb_setg (sb_get_data sb) (sb_get_data sb + putback_max) (sb_get_data sb + putback_max + n) sb) sb1"
        "c = to_int_type (snd w1 (sb_get_data sb + putback_max))"
      by (auto simp: fills_def)
    note F = socket_onlyD [OF n(4), unfolded sb_setg_def, simplified]
    let ?A = "[sb_get_data sb + putback_max ..< sb_get_data sb + putback_max + n]"
    have A: "take n (get_addrs sb) = ?A" using n(2) g(2) by (simp add: get_addrs_def take_upt)
    have i: "incoming (fst w) = map (snd w1) ?A @ incoming (fst w1)"
      using n(3) unfolding A received_def
      by (intro nth_equalityI) (auto simp: nth_append)
    have "?A = (sb_get_data sb + putback_max) # [Suc (sb_get_data sb + putback_max) ..< sb_get_data sb + putback_max + n]"
      using n(1) by (simp add: upt_rec)
    with i have "in_stream incoming sb w = to_char_type c # in_stream incoming (sb1\<lparr>sb_gptr := sb_gptr sb1 + 1\<rparr>) w1"
      using g n(5) F by (simp add: in_stream_def)
    with l(1) c n(1,5) False g F show thesis
      by (intro that [of w1 "sb1\<lparr>sb_gptr := sb_gptr sb1 + 1\<rparr>" c]) (simp_all add: sbumpc_def underflow_def same_socket_def get_ok_def)
  qed
qed

section \<open>Properties\<close>

text \<open>C33. Writing always returns. The bytes that were sent and those in the put area are together the bytes
  that were written, in order; once a flush succeeds, all of them were sent. A flush that fails reports an
  error and keeps the whole put area, although the socket may have taken a part of it: the next flush
  sends that part again.\<close>

theorem streambuf_sends_stream:
  assumes "wait_law outgoing patience k now s" and "send_law outgoing patience k s"
    and "is_int64 (sb_expiry sb)" and "si_socket (sb_socket sb) = s" and "put_ok sb"
  shows "\<exists>w1 sb1 ok. sputn k now a cs sb w = Some (w1, sb1, ok) \<and>
    (if ok
     then out_stream outgoing sb1 w1 = out_stream outgoing sb w @ cs \<and>
          (\<exists>w2 sb2 r. sync_streambuf k now a sb1 w1 = Some (w2, sb2, r) \<and>
            (if r \<noteq> eof_int then pending_out sb2 w2 = [] \<and> outgoing (fst w2) = out_stream outgoing sb w @ cs
             else ec_failed (sb_ec sb2) \<and> pending_out sb2 w2 = pending_out sb1 w1 \<and>
                  (\<exists>n. outgoing (fst w2) = outgoing (fst w1) @ take n (pending_out sb1 w1))))
     else ec_failed (sb_ec sb1))"
proof -
  obtain w1 sb1 ok where p: "sputn k now a cs sb w = Some (w1, sb1, ok)" "put_ok sb1" "same_socket sb sb1"
      "if ok then out_stream outgoing sb1 w1 = out_stream outgoing sb w @ cs else ec_failed (sb_ec sb1)"
    using sputn_writes [OF assms, of a cs w] by (elim exE conjE) (rule that, assumption+)
  obtain w2 sb2 r where f: "overflow k now a eof_int sb1 w1 = Some (w2, sb2, r)"
      "if r = eof_int then ec_failed (sb_ec sb2) \<and> (eof_int = eof_int \<longrightarrow> pending_out sb2 w2 = pending_out sb1 w1 \<and>
            (\<exists>n. outgoing (fst w2) = outgoing (fst w1) @ take n (pending_out sb1 w1)))
       else out_stream outgoing sb2 w2 = out_stream outgoing sb1 w1 @ (if eof_int = eof_int then [] else [to_char_type eof_int]) \<and>
          (eof_int = eof_int \<longrightarrow> pending_out sb2 w2 = [])"
    using overflow_writes [OF assms(1,2) _ _ p(2), of a eof_int w1] same_socketD [OF p(3)] assms(3,4) by (elim exE conjE) auto
  show ?thesis
  proof (cases ok)
    case True
    from f(2) True p(4) have "if r \<noteq> eof_int then pending_out sb2 w2 = [] \<and> outgoing (fst w2) = out_stream outgoing sb w @ cs
        else ec_failed (sb_ec sb2) \<and> pending_out sb2 w2 = pending_out sb1 w1 \<and>
             (\<exists>n. outgoing (fst w2) = outgoing (fst w1) @ take n (pending_out sb1 w1))"
      by (auto simp: out_stream_def split: if_splits)
    with True p(1,4) f(1) show ?thesis
      by (intro exI [of _ w1] exI [of _ sb1] exI [of _ ok]) (simp add: sync_streambuf_def)
  next
    case False
    with p(1,4) show ?thesis by (intro exI [of _ w1] exI [of _ sb1] exI [of _ ok]) simp
  qed
qed

text \<open>C34. Reading always returns, with the next bytes of the socket's stream in order; when it returns fewer bytes than it was
  asked for, the error code says why, and nothing was lost.\<close>

theorem streambuf_receives_stream:
  assumes "wait_law incoming patience k now s" and "recv_law incoming k s" and "recv_patience patience k s"
    and "is_int64 (sb_expiry sb)" and "si_socket (sb_socket sb) = s" and "get_ok sb"
  shows "\<exists>w1 sb1 cs. sgetn k now n sb w = Some (w1, sb1, cs) \<and> in_stream incoming sb w = cs @ in_stream incoming sb1 w1 \<and>
    length cs \<le> n \<and> (length cs < n \<longrightarrow> ec_failed (sb_ec sb1))"
  using assms(4-)
proof (induction n arbitrary: sb w)
  case 0
  then show ?case by simp
next
  case (Suc n)
  obtain w1 sb1 r where c: "sbumpc k now sb w = Some (w1, sb1, r)" "get_ok sb1" "same_socket sb sb1"
      "r = eof_int \<longrightarrow> ec_failed (sb_ec sb1) \<and> in_stream incoming sb1 w1 = in_stream incoming sb w"
      "r \<noteq> eof_int \<longrightarrow> in_stream incoming sb w = to_char_type r # in_stream incoming sb1 w1"
    using sbumpc_reads [OF assms(1-3) Suc.prems] .
  show ?case
  proof (cases "r = eof_int")
    case True
    with c show ?thesis by (intro exI [of _ w1] exI [of _ sb1] exI [of _ "[]"]) simp
  next
    case False
    obtain w2 sb2 cs where d: "sgetn k now n sb1 w1 = Some (w2, sb2, cs)" "in_stream incoming sb1 w1 = cs @ in_stream incoming sb2 w2"
        "length cs \<le> n" "length cs < n \<longrightarrow> ec_failed (sb_ec sb2)"
      using Suc.IH [of sb1 w1] Suc.prems c(2) same_socketD [OF c(3)] by auto
    with False c show ?thesis
      by (intro exI [of _ w2] exI [of _ sb2] exI [of _ "to_char_type r # cs"]) simp
  qed
qed

text \<open>C35. A stream buffer that is moved from loses what was written and not flushed: neither the new nor the
  old one has it to send, and destroying both calls no \<open>send\<close>.\<close>

theorem moved_streambuf_drops_output:
  assumes "streambuf_move_construct p get_data put_data new_impl other = (sb, other1)"
  shows "pending_out sb w = [] \<and> pending_out other1 w = [] \<and> streambuf_destroy k now a sb w = Some (w, sb) \<and>
    streambuf_destroy k now a other1 w = Some (w, other1)"
proof -
  have "sb_pptr sb = sb_pbase sb" "sb_pptr other1 = sb_pbase other1"
    using assms by (auto simp: streambuf_move_construct_def Let_def init_buffers_def sb_setp_def sb_setg_def split: prod.splits)
  then show ?thesis by (simp add: pending_out_def streambuf_destroy_def)
qed

lemma connect_error_none [simp]: "get_int (put_int 0) = 0" "\<not> ec_failed (system_ec 0)"
  by (simp_all add: get_int_def put_int_def ec_failed_def system_ec_def)

lemma non_blocking_same_socket: "sb_non_blocking k sb w = (w1, sb1) \<Longrightarrow> same_socket sb sb1"
  by (auto simp: sb_non_blocking_def service_native_non_blocking_def set_internal_non_blocking_def same_socket_def Let_def
      split: prod.splits if_splits)

text \<open>C36. A connection that is not made before the time runs out counts as made: after a \<open>poll\<close> that ends by
  its timeout, with the connection still in progress, the socket has no pending error, and so the
  stream buffer reports success.\<close>

theorem connect_timeout_succeeds:
  assumes "\<forall>w. snd (now w) \<le> sb_expiry sb \<and> is_int64 (snd (now w))" and "is_int64 (sb_expiry sb)"
    and "service_close ctl k (sb_socket sb) (fst (on_kernel now r)) = (r1, impl1, ec1)"
    and "service_open ctl k created impl1 p r1 = (r2, impl2, no_error)" and "si_socket impl2 \<noteq> invalid_socket"
    and "\<forall>s a l w. \<exists>w1. k_connect k s a l w = (w1, - 1, basic_value in_progress)"
    and "\<forall>s events msec w. \<exists>w1 e. k_poll k s events msec w = (w1, 0, e)"
    and "\<forall>s w. \<exists>w1 e. k_getsockopt k s SOL_SOCKET SO_ERROR (put_int 0) 4 w = (w1, 0, e, put_int 0, 4)"
  shows "\<exists>s1. streambuf_connect ctl k now created (p, a, l) (r, sb) = Some (s1, True)"
proof -
  let ?sb = "(init_buffers sb)\<lparr>sb_ec := no_error\<rparr>\<lparr>sb_ec := misc_ec not_found\<rparr>"
  have i: "sb_expiry (init_buffers sb) = sb_expiry sb" "sb_socket (init_buffers sb) = sb_socket sb"
    by (simp_all add: init_buffers_def sb_setp_def sb_setg_def Let_def)
  obtain r3 sb3 where m: "on_kernel (sb_non_blocking k (?sb\<lparr>sb_socket := impl2, sb_ec := no_error\<rparr>)) r2 = (r3, sb3)" by fastforce
  then have f: "si_socket (sb_socket sb3) = si_socket impl2" "sb_expiry sb3 = sb_expiry sb"
    using i by (auto simp: on_kernel_def same_socket_def dest!: non_blocking_same_socket split: prod.splits)
  let ?s = "si_socket impl2"
  obtain w0 t where n: "now (r_kernel r) = (w0, t)" by fastforce
  with assms(1) have t: "\<not> time_less (sb_expiry sb) t" by (metis snd_conv time_less_def not_le)
  obtain w4 where c: "k_connect k ?s a l (r_kernel r3) = (w4, - 1, basic_value in_progress)" using assms(6) by blast
  obtain w5 t5 where n5: "now w4 = (w5, t5)" by fastforce
  with assms(1) have "is_int64 t5" by (metis snd_conv)
  with n5 assms(2) obtain msec where T: "sb_timeout now (sb_expiry sb) w4 = Some (w5, msec)"
    by (simp add: sb_timeout_def time_subtract_clamps nanoseconds_casts clamp64_range)
  obtain w6 e6 where P: "k_poll k ?s POLLOUT msec w5 = (w6, 0, e6)" using assms(7) by blast
  obtain w7 e7 where G: "k_getsockopt k ?s SOL_SOCKET SO_ERROR (put_int 0) 4 w6 = (w7, 0, e7, put_int 0, 4)" using assms(8) by blast
  have calls: "on_kernel (sock_connect k ?s a l) r3 = (r3\<lparr>r_kernel := w4\<rparr>, - 1, basic_ec in_progress)"
      "poll_connect k ?s msec w5 = (w6, 0, no_error)"
      "sock_getsockopt k ?s 0 SOL_SOCKET SO_ERROR (put_int 0) 4 w6 = (w7, 0, put_int 0, 4, no_error)"
    using assms(5) c P G
    by (simp_all add: on_kernel_def sock_connect_def poll_connect_def nonneg_ok_def sock_getsockopt_def error_wrapper_def basic_ec_system
        SOL_SOCKET_def SO_ERROR_def SO_SNDBUF_def SO_RCVBUF_def custom_socket_option_level_def)
  have e: "ec_failed (basic_ec in_progress)" "basic_ec in_progress \<noteq> no_error" by (simp_all add: basic_ec_def ec_failed_def no_error_def)
  have r0: "on_kernel now r = (r\<lparr>r_kernel := w0\<rparr>, t)" "fst (on_kernel now r) = r\<lparr>r_kernel := w0\<rparr>" using n by (simp_all add: on_kernel_def)
  show ?thesis
    using m
    by (simp add: streambuf_connect_def connect_to_all_def r0(1) i t assms(3) [unfolded r0(2)] assms(4) f calls e T on_kernel_def [of "poll_connect k ?s msec"]
        on_kernel_def [of "sock_getsockopt k ?s 0 SOL_SOCKET SO_ERROR (put_int 0) 4"] socket_error_retval_def)
qed

section \<open>A concrete kernel\<close>

text \<open>It blocks as often as the system's delay says, then takes two bytes at a time; its clock stands still.\<close>

fun demo_send :: "buf list \<Rightarrow> demo_os world \<Rightarrow> demo_os world \<times> int \<times> int" where
  "demo_send bufs (d, m) =
     (if 0 < os_delay d then ((d\<lparr>os_delay := os_delay d - 1\<rparr>, m), - 1, 11)
      else ((d\<lparr>os_in := os_in d @ map m (take 2 (baddrs bufs))\<rparr>, m), int (min 2 (length (baddrs bufs))), 0))"

definition stream_kernel :: "demo_os world kernel" where
  "stream_kernel = demo_kernel\<lparr>k_sendmsg := (\<lambda>s bufs flags name len w. demo_send bufs w),
     k_recvmsg := (\<lambda>s bufs flags name len w.
       if 0 < os_delay (fst w) then (((fst w)\<lparr>os_delay := os_delay (fst w) - 1\<rparr>, snd w), - 1, 11, 0, 0)
       else k_recvmsg demo_kernel s bufs flags name len w)\<rparr>"

definition demo_clock :: "demo_os world clock" where "demo_clock w = (w, 5)"

definition demo_streambuf :: "nat streambuf" where "demo_streambuf = streambuf_new None demo_socket 0 1000"

lemma stream_laws:
  "wait_law os_in (\<lambda>w. os_delay (fst w)) stream_kernel demo_clock s" "send_law os_in (\<lambda>w. os_delay (fst w)) stream_kernel s"
  "recv_law os_in stream_kernel s" "recv_patience (\<lambda>w. os_delay (fst w)) stream_kernel s"
proof -
  have i: "is_int64 5" by (simp add: is_int64_def int64_min_def int64_max_def)
  have two: "nat (min 2 (int n)) = min 2 n" "take (min 2 (length xs)) xs = take 2 xs" for n and xs :: "nat list"
    by (auto simp: min_def)
  show "wait_law os_in (\<lambda>w. os_delay (fst w)) stream_kernel demo_clock s"
    by (auto simp: wait_law_def stream_kernel_def demo_kernel_def demo_clock_def same_def i split: if_splits)
  show "send_law os_in (\<lambda>w. os_delay (fst w)) stream_kernel s"
    by (auto simp: send_law_def stream_kernel_def two split: if_splits)
  show "recv_law os_in stream_kernel s"
    unfolding recv_law_def
  proof (intro allI impI)
    fix bufs w w1 r e x
    assume c: "k_recvmsg stream_kernel s bufs 0 None 0 w = (w1, r, e, x)"
    show "(0 \<le> r \<longrightarrow> nat r \<le> length (baddrs bufs) \<and> (distinct (baddrs bufs) \<longrightarrow> received os_in w (take (nat r) (baddrs bufs)) w1)) \<and>
      (r < 0 \<longrightarrow> r = - 1 \<and> e \<noteq> 0 \<and> received os_in w [] w1)"
    proof (cases "0 < os_delay (fst w)")
      case True
      with c show ?thesis by (auto simp: stream_kernel_def received_def)
    next
      case False
      with c have "k_recvmsg demo_kernel s bufs 0 None 0 w = (w1, r, e, x)" by (simp add: stream_kernel_def)
      from recv_lawD [OF demo_laws_os(1) this] show ?thesis by blast
    qed
  qed
  show "recv_patience (\<lambda>w. os_delay (fst w)) stream_kernel s"
    by (auto simp: recv_patience_def stream_kernel_def demo_kernel_def basic_ec_system ec_blocked_def split: if_splits prod.splits list.splits)
qed

lemma demo_streambuf_ok: "is_int64 (sb_expiry demo_streambuf)" "si_socket (sb_socket demo_streambuf) = 3" "put_ok demo_streambuf" "get_ok demo_streambuf"
    "pending_out demo_streambuf w = []" "sb_gptr demo_streambuf = sb_egptr demo_streambuf"
  by (simp_all add: demo_streambuf_def streambuf_new_def init_buffers_def sb_setp_def sb_setg_def Let_def sb_buffer_size_def max_expiry_time_def
      is_int64_def int64_min_def int64_max_def put_ok_def get_ok_def putback_max_def pending_out_def)

text \<open>A kernel that takes two bytes at a time and fails the second call.\<close>

definition flaky_kernel :: "demo_os world kernel" where
  "flaky_kernel = demo_kernel\<lparr>k_sendmsg := (\<lambda>s bufs flags name len (d, m).
     if os_delay d = 1 then ((d\<lparr>os_delay := 2\<rparr>, m), - 1, 32)
     else ((d\<lparr>os_in := os_in d @ map m (take 2 (baddrs bufs)), os_delay := os_delay d + 1\<rparr>, m), int (min 2 (length (baddrs bufs))), 0))\<rparr>"

definition flush_again :: "(demo_os world \<times> nat streambuf \<times> int) option" where
  "flush_again =
     Option.bind (sputn flaky_kernel demo_clock 99 [7, 8, 9] demo_streambuf (demo_os_start\<lparr>os_in := [], os_delay := 0\<rparr>, \<lambda>_. 0)) (\<lambda>(w1, sb1, ok).
     Option.bind (sync_streambuf flaky_kernel demo_clock 99 sb1 w1) (\<lambda>(w2, sb2, r2).
       if r2 = eof_int then sync_streambuf flaky_kernel demo_clock 99 sb2 w2 else None))"

lemma flush_sends_twice: "map_option (\<lambda>(w, sb, r). os_in (fst w)) flush_again = Some [7, 8, 7, 8, 9]"
  by code_simp

theorem streambuf_sends_stream_witness:
  "(\<exists>w1 sb1 ok. sputn stream_kernel demo_clock 99 [7, 8, 9] demo_streambuf (demo_os_start, \<lambda>_. 0) = Some (w1, sb1, ok) \<and>
    (ok \<longrightarrow> out_stream os_in sb1 w1 = [1, 2, 3, 7, 8, 9])) \<and>
   map_option (\<lambda>(w, sb, r). os_in (fst w)) flush_again = Some [7, 8, 7, 8, 9]"
  unfolding flush_sends_twice
  using streambuf_sends_stream [OF stream_laws(1,2) demo_streambuf_ok(1-3), of 99 "[7, 8, 9]" "(demo_os_start, \<lambda>_. 0)"]
  by (elim exE conjE) (auto simp: out_stream_def demo_streambuf_ok(5) demo_os_start_def)

theorem streambuf_receives_stream_witness:
  "\<exists>w1 sb1 cs. sgetn stream_kernel demo_clock 2 demo_streambuf (demo_os_start, \<lambda>_. 0) = Some (w1, sb1, cs) \<and>
    [1, 2, 3] = cs @ in_stream os_in sb1 w1"
  using streambuf_receives_stream [OF stream_laws(1,3,4) demo_streambuf_ok(1,2,4), of 2 "(demo_os_start, \<lambda>_. 0)"]
  by (elim exE conjE) (auto simp: in_stream_def [of _ demo_streambuf] demo_streambuf_ok(6) demo_os_start_def)

theorem moved_streambuf_drops_output_witness:
  "\<exists>sb other1. streambuf_move_construct (si_protocol demo_socket) 3000 4000 closed_socket (demo_streambuf\<lparr>sb_pptr := 1003\<rparr>) = (sb, other1) \<and>
    length (pending_out (demo_streambuf\<lparr>sb_pptr := 1003\<rparr>) (demo_os_start, \<lambda>_. 7)) = 3 \<and>
    pending_out sb (demo_os_start, \<lambda>_. 7) = [] \<and> pending_out other1 (demo_os_start, \<lambda>_. 7) = []"
proof -
  obtain sb other1 where m: "streambuf_move_construct (si_protocol demo_socket) 3000 4000 closed_socket (demo_streambuf\<lparr>sb_pptr := 1003\<rparr>) = (sb, other1)"
    by fastforce
  have "length (pending_out (demo_streambuf\<lparr>sb_pptr := 1003\<rparr>) (demo_os_start, \<lambda>_. 7)) = 3"
    by (simp add: pending_out_def demo_streambuf_def streambuf_new_def init_buffers_def sb_setp_def sb_setg_def Let_def sb_buffer_size_def)
  with m moved_streambuf_drops_output [OF m, of "(demo_os_start, \<lambda>_. 7)" stream_kernel demo_clock 0] show ?thesis by blast
qed

text \<open>And one where no connection is ever made and every wait runs to its end.\<close>

definition timeout_kernel :: "demo_os world kernel" where
  "timeout_kernel = demo_kernel\<lparr>k_connect := (\<lambda>s a l w. (w, - 1, basic_value in_progress)), k_poll := (\<lambda>s events msec w. (w, 0, 0))\<rparr>"

lemma timeout_kernel_opens:
  "\<exists>r2 impl2. service_open demo_ctl_os timeout_kernel 0 (construct closed_socket) (si_protocol demo_socket) demo_os_reactor = (r2, impl2, no_error) \<and>
     si_socket impl2 \<noteq> invalid_socket"
proof -
  let ?r = demo_os_reactor and ?impl = "construct closed_socket"
  have n: "\<not> is_open ?impl" by (simp add: construct_def is_open_def)
  obtain w1 where "k_socket timeout_kernel 2 1 6 (r_kernel ?r) = (w1, 4, 0)"
    by (simp add: timeout_kernel_def demo_kernel_def demo_os_reactor_def demo_os_start_def fresh_fd_def)
  then have s: "on_kernel (sock_socket timeout_kernel 2 1 6) ?r = (?r\<lparr>r_kernel := w1\<rparr>, 4, no_error)"
    by (simp add: on_kernel_def sock_socket_def nonneg_ok_def)
  have "snd (snd (register_descriptor demo_ctl_os 0 4 R)) = 0" for R
    by (cases "allocate_descriptor_state 0 R") (simp add: register_descriptor_def epoll_ctl_def demo_ctl_os_def Let_def)
  then obtain r2 d where "register_descriptor demo_ctl_os 0 4 (?r\<lparr>r_kernel := w1\<rparr>) = (r2, d, 0)"
    by (metis prod.collapse)
  with n s show ?thesis
    by (auto simp: service_open_def do_open_def demo_socket_def invalid_socket_def)
qed

theorem connect_timeout_succeeds_witness:
  "\<exists>s1. streambuf_connect demo_ctl_os timeout_kernel demo_clock 0 (si_protocol demo_socket, 0, 16)
     (demo_os_reactor, demo_streambuf\<lparr>sb_socket := closed_socket\<rparr>) = Some (s1, True)"
proof -
  let ?sb = "demo_streambuf\<lparr>sb_socket := closed_socket\<rparr>"
  have r: "fst (on_kernel demo_clock demo_os_reactor) = demo_os_reactor" by (simp add: on_kernel_def demo_clock_def)
  have c: "service_close demo_ctl_os timeout_kernel (sb_socket ?sb) (fst (on_kernel demo_clock demo_os_reactor)) =
      (demo_os_reactor, construct closed_socket, no_error)"
    by (simp add: r service_close_def)
  obtain r2 impl2 where o: "service_open demo_ctl_os timeout_kernel 0 (construct closed_socket) (si_protocol demo_socket) demo_os_reactor =
      (r2, impl2, no_error)" "si_socket impl2 \<noteq> invalid_socket"
    using timeout_kernel_opens by blast
  have e: "\<forall>w. snd (demo_clock w) \<le> sb_expiry ?sb \<and> is_int64 (snd (demo_clock w))" "is_int64 (sb_expiry ?sb)"
    using demo_streambuf_ok(1)
    by (simp_all add: demo_clock_def is_int64_def int64_min_def int64_max_def demo_streambuf_def streambuf_new_def init_buffers_def sb_setp_def
        sb_setg_def Let_def max_expiry_time_def)
  show ?thesis
    by (rule connect_timeout_succeeds [OF e c o]) (simp_all add: timeout_kernel_def demo_kernel_def)
qed

end
