(* ===== verification/BuffersIterator.thy ===== *)
theory BuffersIterator
  imports Buffer
begin

text \<open>
  \<open>include/asio/buffer/buffers_iterator.hpp\<close>: a random access iterator over the bytes of a buffer sequence.
  An iterator into the sequence is an index, \<open>begin\<close> is 0 and \<open>end\<close> the length. The assertions are not
  part of the functions; what they state is a hypothesis of the theorems. A loop that would read behind
  the sequence has no result.
\<close>

section \<open>The iterator\<close>

record buf_iter =
  bi_bufs :: "buf list"
  bi_buffer :: buf
  bi_offset :: nat
  bi_current :: nat
  bi_position :: nat

definition no_buffer :: buf where "no_buffer = \<lparr>buf_data = 0, buf_size = 0\<rparr>"

text \<open>The search for a buffer that is not empty, forwards and backwards.\<close>

function bi_skip_empty :: "buf list \<Rightarrow> nat \<Rightarrow> buf \<Rightarrow> nat \<times> buf" where
  "bi_skip_empty bs cur b =
     (if cur < length bs then
        let b1 = bs ! cur in if buf_size b1 > 0 then (cur, b1) else bi_skip_empty bs (Suc cur) b1
      else (cur, b))"
  by pat_completeness auto
termination by (relation "measure (\<lambda>(bs, cur, b). length bs - cur)") auto

declare bi_skip_empty.simps [simp del]

fun bi_previous :: "buf list \<Rightarrow> nat \<Rightarrow> nat option" where
  "bi_previous bs 0 = None"
| "bi_previous bs (Suc iter) = (if buf_size (bs ! iter) > 0 then Some iter else bi_previous bs iter)"

definition buffers_begin :: "buf list \<Rightarrow> buf_iter" where
  "buffers_begin bs =
     (case bi_skip_empty bs 0 no_buffer of
        (cur, b) \<Rightarrow> \<lparr>bi_bufs = bs, bi_buffer = b, bi_offset = 0, bi_current = cur, bi_position = 0\<rparr>)"

definition buffers_end :: "buf list \<Rightarrow> buf_iter" where
  "buffers_end bs =
     \<lparr>bi_bufs = bs, bi_buffer = no_buffer, bi_offset = 0, bi_current = length bs,
      bi_position = foldl (\<lambda>position b. position + buf_size b) 0 bs\<rparr>"

definition bi_dereference :: "memory \<Rightarrow> buf_iter \<Rightarrow> byte" where
  "bi_dereference m it = m (buf_data (bi_buffer it) + bi_offset it)"

definition bi_increment :: "buf_iter \<Rightarrow> buf_iter" where
  "bi_increment it =
     (let it1 = it\<lparr>bi_position := bi_position it + 1, bi_offset := bi_offset it + 1\<rparr>
      in if bi_offset it1 \<noteq> buf_size (bi_buffer it1) then it1
         else
           case bi_skip_empty (bi_bufs it1) (bi_current it1 + 1) (bi_buffer it1) of
             (cur, b) \<Rightarrow> it1\<lparr>bi_current := cur, bi_offset := 0, bi_buffer := b\<rparr>)"

definition bi_decrement :: "buf_iter \<Rightarrow> buf_iter" where
  "bi_decrement it =
     (let it1 = it\<lparr>bi_position := bi_position it - 1\<rparr>
      in if bi_offset it1 \<noteq> 0 then it1\<lparr>bi_offset := bi_offset it1 - 1\<rparr>
         else
           case bi_previous (bi_bufs it1) (bi_current it1) of
             Some iter \<Rightarrow> it1\<lparr>bi_current := iter, bi_buffer := bi_bufs it1 ! iter, bi_offset := buf_size (bi_bufs it1 ! iter) - 1\<rparr>
           | None \<Rightarrow> it1)"

function bi_forward :: "buf_iter \<Rightarrow> nat \<Rightarrow> buf_iter option" where
  "bi_forward it n =
     (let balance = buf_size (bi_buffer it) - bi_offset it
      in if balance > n then Some (it\<lparr>bi_position := bi_position it + n, bi_offset := bi_offset it + n\<rparr>)
         else
           let n1 = n - balance;
               it1 = it\<lparr>bi_position := bi_position it + balance, bi_current := bi_current it + 1\<rparr>
           in if bi_current it1 = length (bi_bufs it1) then Some (it1\<lparr>bi_buffer := no_buffer, bi_offset := 0\<rparr>)
              else if bi_current it1 > length (bi_bufs it1) then None
              else bi_forward (it1\<lparr>bi_buffer := bi_bufs it1 ! bi_current it1, bi_offset := 0\<rparr>) n1)"
  by pat_completeness auto
termination by (relation "measure (\<lambda>(it, n). length (bi_bufs it) - bi_current it)") (auto simp: Let_def)

declare bi_forward.simps [simp del]

text \<open>Backwards; without a buffer to go back to the loop goes round with the same offset.\<close>

partial_function (option) bi_backward :: "buf_iter \<Rightarrow> nat \<Rightarrow> buf_iter option" where
  "bi_backward it abs_n =
     (if bi_offset it \<ge> abs_n then Some (it\<lparr>bi_position := bi_position it - abs_n, bi_offset := bi_offset it - abs_n\<rparr>)
      else
        let abs_n1 = abs_n - bi_offset it;
            it1 = it\<lparr>bi_position := bi_position it - bi_offset it\<rparr>
        in if bi_current it1 = 0 then Some (it1\<lparr>bi_offset := 0\<rparr>)
           else
             bi_backward
               (case bi_previous (bi_bufs it1) (bi_current it1) of
                  Some iter \<Rightarrow> it1\<lparr>bi_current := iter, bi_buffer := bi_bufs it1 ! iter, bi_offset := buf_size (bi_bufs it1 ! iter)\<rparr>
                | None \<Rightarrow> it1)
               abs_n1)"

declare bi_backward.simps [code]

definition bi_advance :: "int \<Rightarrow> buf_iter \<Rightarrow> buf_iter option" where
  "bi_advance n it = (if n > 0 then bi_forward it (nat n) else if n < 0 then bi_backward it (nat (- n)) else Some it)"

definition bi_distance_to :: "buf_iter \<Rightarrow> buf_iter \<Rightarrow> int" where
  "bi_distance_to it other = int (bi_position other) - int (bi_position it)"

definition bi_equal :: "buf_iter \<Rightarrow> buf_iter \<Rightarrow> bool" where
  "bi_equal it other \<longleftrightarrow> bi_position it = bi_position other"

definition bi_less :: "buf_iter \<Rightarrow> buf_iter \<Rightarrow> bool" where
  "bi_less a b \<longleftrightarrow> bi_distance_to a b > 0"

text \<open>The element at a distance.\<close>

definition bi_at :: "memory \<Rightarrow> buf_iter \<Rightarrow> int \<Rightarrow> byte option" where
  "bi_at m it difference = map_option (bi_dereference m) (bi_advance difference it)"

section \<open>The position\<close>

text \<open>An iterator of a sequence stands in a buffer, before its end, or at the end of the sequence; what it has
  passed is its position. So the position alone says where it stands.\<close>

definition bi_ok :: "buf list \<Rightarrow> buf_iter \<Rightarrow> bool" where
  "bi_ok bs it \<longleftrightarrow> bi_bufs it = bs \<and> bi_current it \<le> length bs \<and>
     bi_position it = length (baddrs (take (bi_current it) bs)) + bi_offset it \<and>
     (if bi_current it < length bs then bi_buffer it = bs ! bi_current it \<and> bi_offset it < buf_size (bi_buffer it)
      else bi_offset it = 0)"

lemma baddrs_take_Suc: "i < length bs \<Longrightarrow> baddrs (take (Suc i) bs) = baddrs (take i bs) @ addrs (bs ! i)"
  by (simp add: take_Suc_conv_app_nth)

lemma baddrs_take_le: "i \<le> j \<Longrightarrow> length (baddrs (take i bs)) \<le> length (baddrs (take j bs))"
proof -
  assume "i \<le> j"
  then have "take j bs = take i bs @ take (j - i) (drop i bs)" by (metis le_add_diff_inverse take_add)
  then show ?thesis by simp
qed

lemma bi_skip_empty_next:
  assumes "bi_skip_empty bs cur b = (cur1, b1)" and "cur \<le> length bs"
  shows "cur \<le> cur1 \<and> cur1 \<le> length bs \<and> length (baddrs (take cur1 bs)) = length (baddrs (take cur bs)) \<and>
    (cur1 < length bs \<longrightarrow> b1 = bs ! cur1 \<and> 0 < buf_size b1)"
  using assms
proof (induction bs cur b rule: bi_skip_empty.induct)
  case (1 bs cur b)
  show ?case
  proof (cases "cur < length bs \<and> buf_size (bs ! cur) = 0")
    case True
    with 1 show ?thesis
      by (subst (asm) (2) bi_skip_empty.simps) (auto simp: baddrs_take_Suc Let_def)
  next
    case False
    with 1(2,3) show ?thesis
      by (subst (asm) bi_skip_empty.simps) (auto simp: Let_def split: if_splits)
  qed
qed

lemma bi_previous_found:
  "bi_previous bs cur = Some i \<Longrightarrow> cur \<le> length bs \<Longrightarrow>
    i < cur \<and> 0 < buf_size (bs ! i) \<and> length (baddrs (take cur bs)) = length (baddrs (take i bs)) + buf_size (bs ! i)"
  by (induction cur) (auto simp: baddrs_take_Suc split: if_splits)

lemma bi_previous_none: "bi_previous bs cur = None \<Longrightarrow> cur \<le> length bs \<Longrightarrow> baddrs (take cur bs) = []"
  by (induction cur) (auto simp: baddrs_take_Suc addrs_def split: if_splits)

lemma bi_ok_inside:
  assumes "bi_ok bs it" and "bi_current it < length bs"
  shows "bi_bufs it = bs" "bi_buffer it = bs ! bi_current it" "bi_offset it < buf_size (bs ! bi_current it)"
    "bi_position it = length (baddrs (take (bi_current it) bs)) + bi_offset it"
  using assms by (auto simp: bi_ok_def)

lemma bi_ok_bounds:
  assumes "bi_ok bs it"
  shows "bi_position it \<le> length (baddrs bs)" "bi_current it < length bs \<longleftrightarrow> bi_position it < length (baddrs bs)"
proof -
  let ?c = "bi_current it"
  have o: "?c \<le> length bs" "bi_position it = length (baddrs (take ?c bs)) + bi_offset it"
    using assms by (simp_all add: bi_ok_def)
  show "?c < length bs \<longleftrightarrow> bi_position it < length (baddrs bs)"
  proof (cases "?c < length bs")
    case True
    then have "length (baddrs (take (Suc ?c) bs)) = length (baddrs (take ?c bs)) + buf_size (bs ! ?c)"
      by (simp add: baddrs_take_Suc)
    with True bi_ok_inside(3,4) [OF assms True] baddrs_take_le [of "Suc ?c" "length bs" bs] show ?thesis by simp
  next
    case False
    with assms o show ?thesis by (simp add: bi_ok_def)
  qed
  then show "bi_position it \<le> length (baddrs bs)"
    using o assms by (cases "?c < length bs") (simp_all add: bi_ok_def)
qed

lemma bi_dereference_at:
  assumes "bi_ok bs it" and "bi_position it < length (baddrs bs)"
  shows "bi_dereference m it = m (baddrs bs ! bi_position it)"
proof -
  let ?c = "bi_current it"
  have c: "?c < length bs" using bi_ok_bounds(2) [OF assms(1)] assms(2) by simp
  note b = bi_ok_inside [OF assms(1) c]
  have "bs = take ?c bs @ bs ! ?c # drop (Suc ?c) bs" using c by (simp add: id_take_nth_drop)
  then have "baddrs bs = baddrs (take ?c bs) @ addrs (bs ! ?c) @ baddrs (drop (Suc ?c) bs)"
    by (metis baddrs_simps(2,3))
  with b show ?thesis by (simp add: bi_dereference_def nth_append) (simp add: addrs_def)
qed

lemma bi_begin_ok: "bi_ok bs (buffers_begin bs) \<and> bi_position (buffers_begin bs) = 0"
proof -
  obtain c b where s: "bi_skip_empty bs 0 no_buffer = (c, b)" by fastforce
  from bi_skip_empty_next [OF s] show ?thesis by (auto simp: buffers_begin_def s bi_ok_def)
qed

lemma bi_end_ok: "bi_ok bs (buffers_end bs) \<and> bi_position (buffers_end bs) = length (baddrs bs)"
  by (simp add: buffers_end_def bi_ok_def buffer_size_acc)

lemma bi_increment_ok:
  assumes "bi_ok bs it" and "bi_position it < length (baddrs bs)"
  shows "bi_ok bs (bi_increment it) \<and> bi_position (bi_increment it) = bi_position it + 1"
proof -
  let ?c = "bi_current it"
  have c: "?c < length bs" using bi_ok_bounds(2) [OF assms(1)] assms(2) by simp
  note b = bi_ok_inside [OF assms(1) c]
  show ?thesis
  proof (cases "bi_offset it + 1 = buf_size (bs ! ?c)")
    case False
    with b c show ?thesis by (auto simp: bi_increment_def bi_ok_def Let_def)
  next
    case True
    obtain c1 b1 where s: "bi_skip_empty bs (Suc ?c) (bs ! ?c) = (c1, b1)" by fastforce
    have e: "bi_increment it = it\<lparr>bi_position := bi_position it + 1, bi_offset := 0, bi_current := c1, bi_buffer := b1\<rparr>"
      using True b s by (simp add: bi_increment_def Let_def)
    from bi_skip_empty_next [OF s] c b(1,4) True baddrs_take_Suc [OF c] show ?thesis
      unfolding e by (auto simp: bi_ok_def)
  qed
qed

lemma bi_decrement_ok:
  assumes "bi_ok bs it" and "0 < bi_position it"
  shows "bi_ok bs (bi_decrement it) \<and> bi_position (bi_decrement it) = bi_position it - 1"
proof (cases "bi_offset it = 0")
  case False
  with assms(1) show ?thesis by (auto simp: bi_decrement_def bi_ok_def Let_def)
next
  case True
  with assms have c: "bi_current it \<le> length bs" "bi_position it = length (baddrs (take (bi_current it) bs))" by (simp_all add: bi_ok_def)
  then obtain i where i: "bi_previous bs (bi_current it) = Some i"
    using bi_previous_none [of bs "bi_current it"] assms(2) by (cases "bi_previous bs (bi_current it)") auto
  from bi_previous_found [OF i c(1)] i True assms(1) c show ?thesis
    by (auto simp: bi_decrement_def bi_ok_def Let_def)
qed

lemma bi_forward_ok:
  assumes "bi_current it < length bs" and "bi_bufs it = bs" and "bi_buffer it = bs ! bi_current it" and "bi_offset it \<le> buf_size (bi_buffer it)"
    and "bi_position it = length (baddrs (take (bi_current it) bs)) + bi_offset it" and "bi_position it + n \<le> length (baddrs bs)"
  shows "\<exists>it1. bi_forward it n = Some it1 \<and> bi_ok bs it1 \<and> bi_position it1 = bi_position it + n"
  using assms
proof (induction it n rule: bi_forward.induct)
  case (1 it n)
  let ?c = "bi_current it" and ?balance = "buf_size (bi_buffer it) - bi_offset it"
  let ?it1 = "it\<lparr>bi_position := bi_position it + ?balance, bi_current := ?c + 1\<rparr>"
  show ?case
  proof (cases "?balance > n")
    case True
    with "1.prems" show ?thesis by (subst bi_forward.simps) (auto simp: bi_ok_def Let_def)
  next
    case False
    have p: "length (baddrs (take (Suc ?c) bs)) = bi_position it + ?balance"
      using "1.prems" by (simp add: baddrs_take_Suc)
    show ?thesis
    proof (cases "Suc ?c = length bs")
      case True
      with p "1.prems" False have "n = ?balance" by simp
      with True p "1.prems" show ?thesis
        by (subst bi_forward.simps) (auto simp: bi_ok_def Let_def)
    next
      case more: False
      let ?it2 = "?it1\<lparr>bi_buffer := bi_bufs it ! Suc ?c, bi_offset := 0\<rparr>"
      have f: "bi_forward it n = bi_forward ?it2 (n - ?balance)"
        using False more "1.prems"(1,2) by (subst bi_forward.simps) (simp add: Let_def)
      have "\<exists>it1. bi_forward ?it2 (n - ?balance) = Some it1 \<and> bi_ok bs it1 \<and> bi_position it1 = bi_position ?it2 + (n - ?balance)"
        using "1.IH" [OF refl False refl refl] more p "1.prems" False by (simp add: Let_def)
      with False show ?thesis unfolding f by auto
    qed
  qed
qed

lemma bi_backward_ok:
  assumes "bi_bufs it = bs" and "bi_current it \<le> length bs" and "0 < abs_n" and "abs_n \<le> bi_position it"
    and "bi_position it = length (baddrs (take (bi_current it) bs)) + bi_offset it"
    and "bi_current it < length bs \<Longrightarrow> bi_buffer it = bs ! bi_current it \<and> bi_offset it \<le> buf_size (bi_buffer it)"
    and "bi_current it = length bs \<Longrightarrow> bi_offset it = 0"
  shows "\<exists>it1. bi_backward it abs_n = Some it1 \<and> bi_ok bs it1 \<and> bi_position it1 = bi_position it - abs_n"
  using assms
proof (induction "bi_current it" arbitrary: it abs_n rule: less_induct)
  case less
  let ?c = "bi_current it"
  show ?case
  proof (cases "bi_offset it \<ge> abs_n")
    case True
    with less.prems show ?thesis
      by (subst bi_backward.simps) (cases "?c < length bs"; auto simp: bi_ok_def)
  next
    case False
    let ?it1 = "it\<lparr>bi_position := bi_position it - bi_offset it\<rparr>"
    have "baddrs (take ?c bs) \<noteq> []" using False less.prems(4,5) by auto
    then obtain i where i: "bi_previous bs ?c = Some i"
      using bi_previous_none [OF _ less.prems(2)] by (cases "bi_previous bs ?c") auto
    note I = bi_previous_found [OF i less.prems(2)]
    let ?it2 = "?it1\<lparr>bi_current := i, bi_buffer := bs ! i, bi_offset := buf_size (bs ! i)\<rparr>"
    have f: "bi_backward it abs_n = bi_backward ?it2 (abs_n - bi_offset it)"
      using False i I less.prems(1) by (subst bi_backward.simps) (simp add: Let_def)
    have "\<exists>it1. bi_backward ?it2 (abs_n - bi_offset it) = Some it1 \<and> bi_ok bs it1 \<and> bi_position it1 = bi_position ?it2 - (abs_n - bi_offset it)"
      using I False less.prems by (intro less.hyps) auto
    with False show ?thesis unfolding f by auto
  qed
qed

section \<open>Iterating\<close>

text \<open>What an algorithm relies on that goes from one iterator towards another: a position, the element there, and
  the next position.\<close>

fun elements_from :: "('i \<Rightarrow> 'a) \<Rightarrow> ('i \<Rightarrow> 'i) \<Rightarrow> nat \<Rightarrow> 'i \<Rightarrow> 'a list" where
  "elements_from deref increment 0 it = []"
| "elements_from deref increment (Suc n) it = deref it # elements_from deref increment n (increment it)"

locale cursor =
  fixes ok :: "'i \<Rightarrow> bool" and pos :: "'i \<Rightarrow> nat" and deref :: "'i \<Rightarrow> 'a" and increment :: "'i \<Rightarrow> 'i" and xs :: "'a list"
  assumes deref_at: "ok it \<Longrightarrow> pos it < length xs \<Longrightarrow> deref it = xs ! pos it"
    and increment_ok: "ok it \<Longrightarrow> pos it < length xs \<Longrightarrow> ok (increment it) \<and> pos (increment it) = pos it + 1"
begin

lemma elements_from_pos:
  "ok it \<Longrightarrow> pos it + n \<le> length xs \<Longrightarrow> elements_from deref increment n it = take n (drop (pos it) xs)"
proof (induction n arbitrary: it)
  case (Suc n)
  then have "pos it < length xs" by simp
  with Suc increment_ok [OF Suc.prems(1) this] deref_at [OF Suc.prems(1) this] show ?case
    by (simp add: Cons_nth_drop_Suc [symmetric])
qed simp

lemma all_elements: "ok it \<Longrightarrow> pos it = 0 \<Longrightarrow> n = length xs \<Longrightarrow> elements_from deref increment n it = xs"
  using elements_from_pos [of it n] by simp

end

interpretation bytes: cursor "bi_ok bs" bi_position "bi_dereference m" bi_increment "map m (baddrs bs)" for bs m
  by unfold_locales (simp_all add: bi_dereference_at bi_increment_ok)

section \<open>Properties\<close>

lemma bi_advance_ok:
  assumes "bi_ok bs it" and "0 \<le> int (bi_position it) + n" and "int (bi_position it) + n \<le> int (length (baddrs bs))"
  shows "\<exists>it1. bi_advance n it = Some it1 \<and> bi_ok bs it1 \<and> int (bi_position it1) = int (bi_position it) + n"
proof -
  consider "n = 0" | (pos) "0 < n" | (neg) "n < 0" by linarith
  then show ?thesis
  proof cases
    case pos
    then have c: "bi_current it < length bs" using bi_ok_bounds(2) [OF assms(1)] assms(3) by simp
    note b = bi_ok_inside [OF assms(1) c]
    have "bi_position it + nat n \<le> length (baddrs bs)" using pos assms(3) by linarith
    with bi_forward_ok [OF c b(1,2), of "nat n"] b pos show ?thesis by (auto simp: bi_advance_def)
  next
    case neg
    have "0 < nat (- n)" "nat (- n) \<le> bi_position it" using neg assms(2) by auto
    moreover have "bi_bufs it = bs" "bi_current it \<le> length bs" "bi_position it = length (baddrs (take (bi_current it) bs)) + bi_offset it"
        "bi_current it < length bs \<Longrightarrow> bi_buffer it = bs ! bi_current it \<and> bi_offset it \<le> buf_size (bi_buffer it)"
        "bi_current it = length bs \<Longrightarrow> bi_offset it = 0"
      using assms(1) by (auto simp: bi_ok_def)
    ultimately obtain it1 where "bi_backward it (nat (- n)) = Some it1" "bi_ok bs it1" "bi_position it1 = bi_position it - nat (- n)"
      using bi_backward_ok [of it bs "nat (- n)"] by blast
    with neg \<open>nat (- n) \<le> bi_position it\<close> show ?thesis by (auto simp: bi_advance_def)
  qed (use assms(1) in \<open>simp add: bi_advance_def\<close>)
qed

text \<open>C37. An iterator over a buffer sequence, with empty buffers or not, is an index into the bytes of the
  sequence: a loop from begin to end reads them all, advancing by any distance within the sequence returns
  and adds it to the index, decrementing takes one from it, indexing reads the byte there, and the
  comparisons are those of the indices.\<close>

theorem buffers_iterator_is_index:
  "elements_from (bi_dereference m) bi_increment (nat (bi_distance_to (buffers_begin bs) (buffers_end bs))) (buffers_begin bs) = map m (baddrs bs) \<and>
   (\<forall>it n. bi_ok bs it \<and> 0 \<le> int (bi_position it) + n \<and> int (bi_position it) + n \<le> int (length (baddrs bs)) \<longrightarrow>
      (\<exists>it1. bi_advance n it = Some it1 \<and> bi_ok bs it1 \<and> int (bi_position it1) = int (bi_position it) + n) \<and>
      (int (bi_position it) + n < int (length (baddrs bs)) \<longrightarrow> bi_at m it n = Some (m (baddrs bs ! nat (int (bi_position it) + n)))) \<and>
      (0 < bi_position it \<longrightarrow> bi_ok bs (bi_decrement it) \<and> bi_position (bi_decrement it) = bi_position it - 1)) \<and>
   bi_ok bs (buffers_end bs) \<and>
   (\<forall>a b. (bi_equal a b \<longleftrightarrow> bi_position a = bi_position b) \<and> (bi_less a b \<longleftrightarrow> bi_position a < bi_position b))"
proof (intro conjI allI impI; (elim conjE)?)
  show "elements_from (bi_dereference m) bi_increment (nat (bi_distance_to (buffers_begin bs) (buffers_end bs))) (buffers_begin bs) = map m (baddrs bs)"
    using bi_begin_ok [of bs] bi_end_ok [of bs] by (intro bytes.all_elements) (simp_all add: bi_distance_to_def)
next
  fix it n
  assume a: "bi_ok bs it" "0 \<le> int (bi_position it) + n" "int (bi_position it) + n \<le> int (length (baddrs bs))"
  show adv: "\<exists>it1. bi_advance n it = Some it1 \<and> bi_ok bs it1 \<and> int (bi_position it1) = int (bi_position it) + n"
    using bi_advance_ok [OF a] .
  then obtain it1 where i: "bi_advance n it = Some it1" "bi_ok bs it1" "bi_position it1 = nat (int (bi_position it) + n)" by auto
  {
    assume "int (bi_position it) + n < int (length (baddrs bs))"
    with i a(2) have "bi_position it1 < length (baddrs bs)" by simp
    from bi_dereference_at [OF i(2) this, of m] i(1,3) show "bi_at m it n = Some (m (baddrs bs ! nat (int (bi_position it) + n)))"
      by (simp add: bi_at_def)
  next
    assume "0 < bi_position it"
    from bi_decrement_ok [OF a(1) this] show "bi_ok bs (bi_decrement it)" "bi_position (bi_decrement it) = bi_position it - 1" by simp_all
  }
qed (auto simp: bi_end_ok bi_equal_def bi_less_def bi_distance_to_def)

definition demo_bytes :: "buf list" where
  "demo_bytes = [\<lparr>buf_data = 5, buf_size = 0\<rparr>, \<lparr>buf_data = 10, buf_size = 2\<rparr>, \<lparr>buf_data = 7, buf_size = 0\<rparr>, \<lparr>buf_data = 20, buf_size = 1\<rparr>]"

theorem buffers_iterator_is_index_witness: "bi_at of_nat (buffers_end demo_bytes) (- 2) = Some 11"
proof -
  have b: "baddrs demo_bytes = [10, 11, 20]" by (simp add: demo_bytes_def addrs_def upt_rec)
  from bi_end_ok [of demo_bytes] have e: "bi_ok demo_bytes (buffers_end demo_bytes)" "bi_position (buffers_end demo_bytes) = 3" by (simp_all add: b)
  show ?thesis
    using buffers_iterator_is_index [THEN conjunct2, THEN conjunct1, rule_format, of demo_bytes "buffers_end demo_bytes" "- 2" of_nat] e
    by (simp add: b)
qed

end
