(* ===== verification/HandlerMemory.thy ===== *)
theory HandlerMemory
  imports Buffer
begin

text \<open>
  \<open>include/asio/detail/thread/thread_info_base.hpp\<close>: each thread keeps up to one block of memory per purpose and
  reuses it for the next handler. How many chunks a block has is in the byte behind the handler while it
  is in use, and in the block's first byte while it is kept. \<open>operator new\<close> and \<open>operator delete\<close> work on a
  heap, a map from the addresses of the blocks to their sizes; the address of a new block is an
  argument, and deleting what is no block has no result.
\<close>

section \<open>The functions\<close>

record heap =
  h_blocks :: "nat \<rightharpoonup> nat"
  h_mem :: memory

definition heap_new :: "nat \<Rightarrow> nat \<Rightarrow> heap \<Rightarrow> heap" where
  "heap_new created n h = h\<lparr>h_blocks := (h_blocks h)(created \<mapsto> n)\<rparr>"

definition heap_delete :: "nat \<Rightarrow> heap \<Rightarrow> heap option" where
  "heap_delete p h = (if h_blocks h p = None then None else Some (h\<lparr>h_blocks := (h_blocks h)(p := None)\<rparr>))"

definition heap_write :: "nat \<Rightarrow> byte \<Rightarrow> heap \<Rightarrow> heap" where
  "heap_write a b h = h\<lparr>h_mem := (h_mem h)(a := b)\<rparr>"

datatype purpose = DefaultTag | AwaiteeTag | ExecutorFunctionTag

text \<open>\<open>reusable_memory_\<close>, and the pointer to a thread's information, which may be null.\<close>

type_synonym thread_memory = "purpose \<Rightarrow> nat option"

definition thread_memory_new :: thread_memory where "thread_memory_new = (\<lambda>_. None)"

definition chunk_size :: nat where "chunk_size = 4"
definition uchar_max :: nat where "uchar_max = 255"

text \<open>The size is that of a handler's operation, so adding \<open>chunk_size - 1\<close> does not leave the range of \<open>size_t\<close>.\<close>

definition chunks_for :: "nat \<Rightarrow> nat" where "chunks_for sz = (sz + chunk_size - 1) div chunk_size"

definition allocate_new :: "nat \<Rightarrow> nat \<Rightarrow> heap \<Rightarrow> heap \<times> nat" where
  "allocate_new sz created h =
     (let chunks = chunks_for sz
      in (heap_write (created + sz) (if chunks \<le> uchar_max then of_nat chunks else 0) (heap_new created (chunks * chunk_size + 1) h), created))"

definition thread_allocate ::
  "purpose \<Rightarrow> thread_memory option \<Rightarrow> nat \<Rightarrow> nat \<Rightarrow> heap \<Rightarrow> (heap \<times> thread_memory option \<times> nat) option" where
  "thread_allocate tag this_thread sz created h =
     (case this_thread of
        Some ti \<Rightarrow>
          (case ti tag of
             Some pointer \<Rightarrow>
               let ti1 = ti(tag := None)
               in if unat (h_mem h pointer) \<ge> chunks_for sz
                  then Some (heap_write (pointer + sz) (h_mem h pointer) h, Some ti1, pointer)
                  else map_option (\<lambda>h1. case allocate_new sz created h1 of (h2, p) \<Rightarrow> (h2, Some ti1, p)) (heap_delete pointer h)
           | None \<Rightarrow> (case allocate_new sz created h of (h1, p) \<Rightarrow> Some (h1, Some ti, p)))
      | None \<Rightarrow> (case allocate_new sz created h of (h1, p) \<Rightarrow> Some (h1, None, p)))"

definition thread_deallocate ::
  "purpose \<Rightarrow> thread_memory option \<Rightarrow> nat \<Rightarrow> nat \<Rightarrow> heap \<Rightarrow> (heap \<times> thread_memory option) option" where
  "thread_deallocate tag this_thread pointer sz h =
     (if sz \<le> chunk_size * uchar_max \<and> (\<exists>ti. this_thread = Some ti \<and> ti tag = None)
      then Some (heap_write pointer (h_mem h (pointer + sz)) h, map_option (\<lambda>ti. ti(tag \<mapsto> pointer)) this_thread)
      else map_option (\<lambda>h1. (h1, this_thread)) (heap_delete pointer h))"

text \<open>The destructor deletes what is kept.\<close>

fun delete_all :: "nat option list \<Rightarrow> heap \<Rightarrow> heap option" where
  "delete_all [] h = Some h"
| "delete_all (None # ps) h = delete_all ps h"
| "delete_all (Some p # ps) h = Option.bind (heap_delete p h) (delete_all ps)"

definition thread_memory_destroy :: "thread_memory \<Rightarrow> heap \<Rightarrow> heap option" where
  "thread_memory_destroy ti h = delete_all (map ti [DefaultTag, AwaiteeTag, ExecutorFunctionTag]) h"

section \<open>What a program does with them\<close>

text \<open>The state of a program: the heap, the memory its threads keep, and the memory in use, by address with its
  size. It allocates and deallocates on its threads and outside of them, with the size it asked for,
  writes into the memory it has, and ends threads. A new block is apart from the others.\<close>

record 't mem_state =
  ms_heap :: heap
  ms_threads :: "'t \<Rightarrow> thread_memory"
  ms_live :: "nat \<rightharpoonup> nat"

definition apart :: "nat \<Rightarrow> nat \<Rightarrow> nat \<Rightarrow> nat \<Rightarrow> bool" where
  "apart p n q m \<longleftrightarrow> p + n \<le> q \<or> q + m \<le> p"

definition is_fresh :: "nat \<Rightarrow> nat \<Rightarrow> heap \<Rightarrow> bool" where
  "is_fresh p n h \<longleftrightarrow> (\<forall>q m. h_blocks h q = Some m \<longrightarrow> apart p n q m)"

text \<open>\<open>operator new\<close> is called after the block the thread keeps, when it is too small, was deleted, so it may
  give the same address again.\<close>

definition new_is_fresh :: "purpose \<Rightarrow> thread_memory option \<Rightarrow> nat \<Rightarrow> nat \<Rightarrow> heap \<Rightarrow> bool" where
  "new_is_fresh tag this_thread sz created h \<longleftrightarrow>
     is_fresh created (chunks_for sz * chunk_size + 1)
       (case Option.bind this_thread (\<lambda>ti. ti tag) of
          None \<Rightarrow> h | Some pointer \<Rightarrow> h\<lparr>h_blocks := (h_blocks h)(pointer := None)\<rparr>)"

definition set_thread :: "'t option \<Rightarrow> thread_memory option \<Rightarrow> ('t \<Rightarrow> thread_memory) \<Rightarrow> 't \<Rightarrow> thread_memory" where
  "set_thread t ti ts = (case (t, ti) of (Some t, Some ti) \<Rightarrow> ts(t := ti) | _ \<Rightarrow> ts)"

inductive mem_step :: "'t mem_state \<Rightarrow> 't mem_state \<Rightarrow> bool" where
  allocates:
    "thread_allocate tag (map_option (ms_threads s) t) sz created (ms_heap s) = Some (h1, ti, p) \<Longrightarrow>
     new_is_fresh tag (map_option (ms_threads s) t) sz created (ms_heap s) \<Longrightarrow>
     mem_step s (s\<lparr>ms_heap := h1, ms_threads := set_thread t ti (ms_threads s), ms_live := (ms_live s)(p \<mapsto> sz)\<rparr>)"
| deallocates:
    "ms_live s p = Some sz \<Longrightarrow> thread_deallocate tag (map_option (ms_threads s) t) p sz (ms_heap s) = Some (h1, ti) \<Longrightarrow>
     mem_step s (s\<lparr>ms_heap := h1, ms_threads := set_thread t ti (ms_threads s), ms_live := (ms_live s)(p := None)\<rparr>)"
| writes:
    "ms_live s p = Some sz \<Longrightarrow> i < sz \<Longrightarrow> mem_step s (s\<lparr>ms_heap := heap_write (p + i) b (ms_heap s)\<rparr>)"
| ends:
    "thread_memory_destroy (ms_threads s t) (ms_heap s) = Some h1 \<Longrightarrow>
     mem_step s (s\<lparr>ms_heap := h1, ms_threads := (ms_threads s)(t := thread_memory_new)\<rparr>)"

definition mem_start :: "'t mem_state" where
  "mem_start = \<lparr>ms_heap = \<lparr>h_blocks = Map.empty, h_mem = (\<lambda>_. 0)\<rparr>, ms_threads = (\<lambda>_. thread_memory_new), ms_live = Map.empty\<rparr>"

section \<open>Blocks and their marks\<close>

text \<open>A block is marked at an offset when the byte there says at most what it has.\<close>

definition marked :: "heap \<Rightarrow> nat \<Rightarrow> nat \<Rightarrow> bool" where
  "marked h p s \<longleftrightarrow> (\<exists>n. h_blocks h p = Some n \<and> s < n \<and> chunk_size * unat (h_mem h (p + s)) < n)"

definition blocks_apart :: "heap \<Rightarrow> bool" where
  "blocks_apart h \<longleftrightarrow> (\<forall>p n. h_blocks h p = Some n \<longrightarrow> 0 < n \<and> (\<forall>q m. h_blocks h q = Some m \<longrightarrow> p \<noteq> q \<longrightarrow> apart p n q m))"

definition mem_ok :: "heap \<Rightarrow> ('x \<rightharpoonup> nat) \<Rightarrow> (nat \<rightharpoonup> nat) \<Rightarrow> bool" where
  "mem_ok h keep live \<longleftrightarrow> blocks_apart h \<and> (\<forall>p sz. live p = Some sz \<longrightarrow> marked h p sz) \<and>
     (\<forall>x p. keep x = Some p \<longrightarrow> marked h p 0 \<and> live p = None) \<and>
     (\<forall>x y p. keep x = Some p \<longrightarrow> keep y = Some p \<longrightarrow> x = y) \<and>
     (\<forall>p. h_blocks h p \<noteq> None \<longrightarrow> live p \<noteq> None \<or> p \<in> ran keep)"

text \<open>What all threads keep.\<close>

definition kept :: "('t \<Rightarrow> thread_memory) \<Rightarrow> 't \<times> purpose \<rightharpoonup> nat" where
  "kept ts = (\<lambda>(t, tag). ts t tag)"

definition mem_inv :: "'t mem_state \<Rightarrow> bool" where
  "mem_inv s \<longleftrightarrow> mem_ok (ms_heap s) (kept (ms_threads s)) (ms_live s)"

lemma marked_block: "marked h p s \<Longrightarrow> h_blocks h p \<noteq> None"
  by (auto simp: marked_def)

lemma elsewhere:
  assumes "blocks_apart h" and "h_blocks h p = Some n" and "i < n" and "h_blocks h q = Some m" and "j < m" and "q \<noteq> p"
  shows "q + j \<noteq> p + i"
proof -
  have "apart q m p n" using assms(1,2,4,6) unfolding blocks_apart_def by blast
  with assms(3,5) show ?thesis unfolding apart_def by linarith
qed

lemma marked_write_other:
  assumes "blocks_apart h" and "h_blocks h p = Some n" and "i < n" and "q \<noteq> p"
  shows "marked (heap_write (p + i) b h) q s \<longleftrightarrow> marked h q s"
  using elsewhere [OF assms(1-3) _ _ assms(4)] by (auto simp: marked_def heap_write_def)

lemma blocks_apart_simps [simp]:
  "blocks_apart (heap_write a b h) = blocks_apart h" "h_blocks (heap_write a b h) = h_blocks h"
  by (simp_all add: blocks_apart_def heap_write_def)

lemma heap_delete_apart: "heap_delete p h = Some h1 \<Longrightarrow> blocks_apart h \<Longrightarrow> blocks_apart h1"
  by (auto simp: heap_delete_def blocks_apart_def split: if_splits)

lemma heap_delete_marked: "heap_delete p h = Some h1 \<Longrightarrow> q \<noteq> p \<Longrightarrow> marked h1 q s = marked h q s"
  by (auto simp: heap_delete_def marked_def split: if_splits)

lemma apart_sym: "apart p n q m \<Longrightarrow> apart q m p n"
  by (auto simp: apart_def)

lemma allocate_new_block:
  assumes "blocks_apart h" and "is_fresh created (chunks_for sz * chunk_size + 1) h" and "allocate_new sz created h = (h1, p)"
  shows "p = created \<and> h_blocks h created = None \<and> h_blocks h1 = (h_blocks h)(created \<mapsto> chunks_for sz * chunk_size + 1) \<and>
    blocks_apart h1 \<and> marked h1 created sz \<and> (\<forall>q s. q \<noteq> created \<longrightarrow> marked h q s \<longrightarrow> marked h1 q s)"
proof -
  let ?n = "chunks_for sz * chunk_size + 1"
  have n: "sz < ?n" by (simp add: chunks_for_def chunk_size_def)
  have p: "p = created" and b: "h_blocks h1 = (h_blocks h)(created \<mapsto> ?n)"
    and h1: "h1 = heap_write (created + sz) (if chunks_for sz \<le> uchar_max then of_nat (chunks_for sz) else 0) (heap_new created ?n h)"
    using assms(3) by (auto simp: allocate_new_def Let_def heap_new_def)
  have fresh: "apart created ?n q m" if "h_blocks h q = Some m" for q m
    using assms(2) that by (simp add: is_fresh_def)
  have none: "h_blocks h created = None"
    using fresh [of created] assms(1) by (cases "h_blocks h created") (force simp: blocks_apart_def apart_def)+
  have a: "blocks_apart (heap_new created ?n h)"
    using assms(1) fresh by (auto simp: blocks_apart_def heap_new_def intro: apart_sym)
  have byte: "chunk_size * unat (if chunks_for sz \<le> uchar_max then of_nat (chunks_for sz) else 0 :: byte) < ?n"
    by (auto simp: uchar_max_def unat_of_nat)
  have "marked h1 created sz"
    using b n byte unfolding h1 by (auto simp: marked_def heap_write_def)
  moreover have "marked h1 q s" if "q \<noteq> created" "marked h q s" for q s
    using marked_write_other [OF a _ n that(1)] that unfolding h1 by (auto simp: heap_new_def marked_def)
  ultimately show ?thesis using p none b a h1 by simp
qed

lemma mem_okD:
  assumes "mem_ok h keep live"
  shows "blocks_apart h" "live p = Some sz \<Longrightarrow> marked h p sz" "keep x = Some p \<Longrightarrow> marked h p 0 \<and> live p = None"
    "keep x = Some p \<Longrightarrow> keep y = Some p \<Longrightarrow> x = y" "h_blocks h p \<noteq> None \<Longrightarrow> live p \<noteq> None \<or> p \<in> ran keep"
  using assms unfolding mem_ok_def by blast+

text \<open>A change of one block.\<close>

lemma mem_ok_change:
  assumes "mem_ok h keep live" and "blocks_apart h1"
    and other: "\<And>q s. q \<noteq> p \<Longrightarrow> marked h q s \<Longrightarrow> marked h1 q s" "\<And>q. q \<noteq> p \<Longrightarrow> h_blocks h1 q \<noteq> None \<Longrightarrow> h_blocks h q \<noteq> None"
      "\<And>q. q \<noteq> p \<Longrightarrow> live1 q = live q" "\<And>q x. q \<noteq> p \<Longrightarrow> keep1 x = Some q \<longleftrightarrow> keep x = Some q"
    and at_p: "\<And>sz. live1 p = Some sz \<Longrightarrow> marked h1 p sz" "\<And>x. keep1 x = Some p \<Longrightarrow> marked h1 p 0 \<and> live1 p = None"
      "\<And>x y. keep1 x = Some p \<Longrightarrow> keep1 y = Some p \<Longrightarrow> x = y" "h_blocks h1 p \<noteq> None \<Longrightarrow> live1 p \<noteq> None \<or> p \<in> ran keep1"
  shows "mem_ok h1 keep1 live1"
proof -
  note I = mem_okD [OF assms(1)]
  have "marked h1 q sz" if "live1 q = Some sz" for q sz
    using that other(1,3) I(2) at_p(1) by (cases "q = p") auto
  moreover have "marked h1 q 0 \<and> live1 q = None" if "keep1 x = Some q" for x q
    using that other(1,3,4) I(3) at_p(2) by (cases "q = p") auto
  moreover have "x = y" if "keep1 x = Some q" "keep1 y = Some q" for x y q
    using that other(4) I(4) at_p(3) by (cases "q = p") blast+
  moreover have "live1 q \<noteq> None \<or> q \<in> ran keep1" if "h_blocks h1 q \<noteq> None" for q
  proof (cases "q = p")
    case False
    with that I(5) [of q] other(2,3,4) show ?thesis by (auto simp: ran_def)
  qed (use that at_p(4) in simp)
  ultimately show ?thesis using assms(2) unfolding mem_ok_def by blast
qed

text \<open>What the operations are made of: taking a kept block, deleting it, a new block, keeping one, deleting one
  that was in use.\<close>

lemma ok_take:
  assumes "mem_ok h keep live" and "keep x = Some p" and "chunks_for sz \<le> unat (h_mem h p)"
  shows "mem_ok (heap_write (p + sz) (h_mem h p) h) (keep(x := None)) (live(p \<mapsto> sz))"
proof -
  note I = mem_okD [OF assms(1)]
  from I(3) [OF assms(2)] obtain n where n: "h_blocks h p = Some n" "chunk_size * unat (h_mem h p) < n" "live p = None"
    by (auto simp: marked_def)
  have "sz \<le> chunk_size * chunks_for sz" by (simp add: chunks_for_def chunk_size_def)
  also have "\<dots> \<le> chunk_size * unat (h_mem h p)" using assms(3) by simp
  finally have sz: "sz < n" using n(2) by simp
  show ?thesis
  proof (rule mem_ok_change [OF assms(1), where p = p])
    show "marked (heap_write (p + sz) (h_mem h p) h) q s" if "q \<noteq> p" "marked h q s" for q s
      using marked_write_other [OF I(1) n(1) sz that(1)] that(2) by simp
    show "marked (heap_write (p + sz) (h_mem h p) h) p s" if "(live(p \<mapsto> sz)) p = Some s" for s
      using that n sz by (simp add: marked_def heap_write_def)
  qed (use I assms(2) in \<open>auto split: if_splits\<close>)
qed

lemma ok_keep:
  assumes "mem_ok h keep live" and "live p = Some sz" and "keep x = None"
  shows "mem_ok (heap_write p (h_mem h (p + sz)) h) (keep(x \<mapsto> p)) (live(p := None))"
proof -
  note I = mem_okD [OF assms(1)]
  from I(2) [OF assms(2)] obtain n where n: "h_blocks h p = Some n" "chunk_size * unat (h_mem h (p + sz)) < n" "sz < n"
    by (auto simp: marked_def)
  have no: "keep y \<noteq> Some p" for y using I(3) [of y p] assms(2) by auto
  show ?thesis
  proof (rule mem_ok_change [OF assms(1), where p = p])
    show "marked (heap_write p (h_mem h (p + sz)) h) q s" if "q \<noteq> p" "marked h q s" for q s
      using marked_write_other [OF I(1) n(1) _ that(1), of 0] n(3) that(2) by simp
    show "marked (heap_write p (h_mem h (p + sz)) h) p 0 \<and> (live(p := None)) p = None" for y
      using n by (simp add: marked_def heap_write_def)
  qed (use I assms(3) no in \<open>auto simp: ran_def split: if_splits\<close>)
qed

lemma ok_new:
  assumes "mem_ok h keep live" and "is_fresh created (chunks_for sz * chunk_size + 1) h" and "allocate_new sz created h = (h1, p)"
  shows "mem_ok h1 keep (live(p \<mapsto> sz)) \<and> live p = None"
proof -
  note I = mem_okD [OF assms(1)] and N = allocate_new_block [OF I(1) assms(2,3)]
  then have p: "p = created" "h_blocks h p = None" by auto
  then have no: "live p = None" "keep x \<noteq> Some p" for x
    using I(2) [of p] I(3) [of x p] marked_block [of h p] by (cases "live p"; auto)+
  have "mem_ok h1 keep (live(p \<mapsto> sz))"
    by (rule mem_ok_change [OF assms(1), where p = p]) (use N p no in \<open>auto split: if_splits\<close>)
  with no show ?thesis by simp
qed

lemma ok_delete_kept:
  assumes "mem_ok h keep live" and "keep x = Some p"
  obtains h1 where "heap_delete p h = Some h1" "mem_ok h1 (keep(x := None)) live"
proof -
  note I = mem_okD [OF assms(1)]
  obtain h1 where d: "heap_delete p h = Some h1"
    using I(3) [OF assms(2)] marked_block [of h p] by (auto simp: heap_delete_def)
  have "mem_ok h1 (keep(x := None)) live"
  proof (rule mem_ok_change [OF assms(1) heap_delete_apart [OF d I(1)], where p = p])
    show "marked h1 q s" if "q \<noteq> p" "marked h q s" for q s using heap_delete_marked [OF d] that by simp
  qed (use I assms(2) d in \<open>auto simp: heap_delete_def split: if_splits\<close>)
  with d that show thesis by blast
qed

lemma ok_delete_live:
  assumes "mem_ok h keep live" and "live p = Some sz"
  obtains h1 where "heap_delete p h = Some h1" "mem_ok h1 keep (live(p := None))"
proof -
  note I = mem_okD [OF assms(1)]
  obtain h1 where d: "heap_delete p h = Some h1"
    using I(2) [OF assms(2)] marked_block [of h p] by (auto simp: heap_delete_def)
  have no: "keep y \<noteq> Some p" for y using I(3) [of y p] assms(2) by auto
  have "mem_ok h1 keep (live(p := None))"
  proof (rule mem_ok_change [OF assms(1) heap_delete_apart [OF d I(1)], where p = p])
    show "marked h1 q s" if "q \<noteq> p" "marked h q s" for q s using heap_delete_marked [OF d] that by simp
  qed (use no d in \<open>auto simp: heap_delete_def split: if_splits\<close>)
  with d that show thesis by blast
qed

section \<open>The operations\<close>

lemma kept_upd [simp]: "kept (ts(t := (ts t)(tag := v))) = (kept ts)((t, tag) := v)"
  by (auto simp: kept_def fun_eq_iff)

text \<open>What is in the memory in use stays.\<close>

definition same_content :: "(nat \<rightharpoonup> nat) \<Rightarrow> heap \<Rightarrow> heap \<Rightarrow> bool" where
  "same_content live h h1 \<longleftrightarrow> (\<forall>q sz i. live q = Some sz \<longrightarrow> i < sz \<longrightarrow> h_mem h1 (q + i) = h_mem h (q + i))"

lemma same_content_write:
  assumes "mem_ok h keep live" and "h_blocks h p = Some n" and "i < n" and "live p = None"
  shows "same_content live h (heap_write (p + i) b h)"
  unfolding same_content_def
proof (intro allI impI)
  fix q sz j assume q: "live q = Some sz" "j < sz"
  from mem_okD(2) [OF assms(1) q(1)] obtain m where m: "h_blocks h q = Some m" "sz < m" by (auto simp: marked_def)
  have "q \<noteq> p" using q(1) assms(4) by auto
  with elsewhere [OF mem_okD(1) [OF assms(1)] assms(2,3) m(1)] q(2) m(2) show "h_mem (heap_write (p + i) b h) (q + j) = h_mem h (q + j)"
    by (simp add: heap_write_def)
qed

lemma same_content_new:
  assumes "mem_ok h keep live" and "is_fresh created (chunks_for sz * chunk_size + 1) h" and "allocate_new sz created h = (h1, p)"
  shows "same_content live h h1"
  unfolding same_content_def
proof (intro allI impI)
  fix q s j assume q: "live q = Some s" "j < s"
  from mem_okD(2) [OF assms(1) q(1)] obtain m where m: "h_blocks h q = Some m" "s < m" by (auto simp: marked_def)
  have "apart created (chunks_for sz * chunk_size + 1) q m" using assms(2) m(1) by (simp add: is_fresh_def)
  then have "q + j \<noteq> created + sz"
    using q(2) m(2) by (auto simp: apart_def chunks_for_def chunk_size_def)
  with assms(3) show "h_mem h1 (q + j) = h_mem h (q + j)"
    by (auto simp: allocate_new_def Let_def heap_write_def heap_new_def)
qed

lemma thread_allocate_ok:
  assumes "mem_ok h (kept ts) live" and "new_is_fresh tag (map_option ts t) sz created h"
  obtains h1 ti p where "thread_allocate tag (map_option ts t) sz created h = Some (h1, ti, p)"
    "mem_ok h1 (kept (set_thread t ti ts)) (live(p \<mapsto> sz))" "live p = None" "same_content live h h1"
proof (cases "\<exists>t1 p. t = Some t1 \<and> ts t1 tag = Some p")
  case False
  obtain h1 p where n: "allocate_new sz created h = (h1, p)" by fastforce
  from False n have a: "thread_allocate tag (map_option ts t) sz created h = Some (h1, map_option ts t, p)"
    by (cases t) (auto simp: thread_allocate_def split: option.splits)
  have f: "is_fresh created (chunks_for sz * chunk_size + 1) h"
    using assms(2) False by (cases t) (auto simp: new_is_fresh_def split: option.splits)
  have "set_thread t (map_option ts t) ts = ts" by (cases t) (simp_all add: set_thread_def)
  with ok_new [OF assms(1) f n] same_content_new [OF assms(1) f n] show thesis by (intro that [OF a]) simp_all
next
  case True
  then obtain t1 p where t: "t = Some t1" "ts t1 tag = Some p" by blast
  then have k: "kept ts (t1, tag) = Some p" by (simp add: kept_def)
  from mem_okD(3) [OF assms(1) k] obtain n where n: "h_blocks h p = Some n" "live p = None" "chunk_size * unat (h_mem h p) < n"
    by (auto simp: marked_def)
  show thesis
  proof (cases "chunks_for sz \<le> unat (h_mem h p)")
    case enough: True
    have "sz \<le> chunk_size * chunks_for sz" by (simp add: chunks_for_def chunk_size_def)
    also have "\<dots> \<le> chunk_size * unat (h_mem h p)" using enough by simp
    finally have "sz < n" using n(3) by simp
    with ok_take [OF assms(1) k enough] t enough n same_content_write [OF assms(1) n(1) _ n(2)] show thesis
      by (intro that [of "heap_write (p + sz) (h_mem h p) h" "Some ((ts t1)(tag := None))" p])
        (simp_all add: thread_allocate_def set_thread_def)
  next
    case False
    obtain h1 where d: "heap_delete p h = Some h1" "mem_ok h1 ((kept ts)((t1, tag) := None)) live"
      using ok_delete_kept [OF assms(1) k] .
    obtain h2 q where m: "allocate_new sz created h1 = (h2, q)" by fastforce
    have f: "is_fresh created (chunks_for sz * chunk_size + 1) h1" and c: "h_mem h1 = h_mem h"
      using assms(2) d(1) t by (auto simp: new_is_fresh_def heap_delete_def split: if_splits)
    from ok_new [OF d(2) f m] same_content_new [OF d(2) f m] t False d(1) m c show thesis
      by (intro that [of h2 "Some ((ts t1)(tag := None))" q]) (simp_all add: thread_allocate_def set_thread_def same_content_def)
  qed
qed

lemma thread_deallocate_ok:
  assumes "mem_ok h (kept ts) live" and "live p = Some sz"
  obtains h1 ti where "thread_deallocate tag (map_option ts t) p sz h = Some (h1, ti)"
    "mem_ok h1 (kept (set_thread t ti ts)) (live(p := None))" "same_content (live(p := None)) h h1"
proof (cases "sz \<le> chunk_size * uchar_max \<and> (\<exists>t1. t = Some t1 \<and> ts t1 tag = None)")
  case True
  then obtain t1 where t: "t = Some t1" "ts t1 tag = None" by blast
  then have k: "kept ts (t1, tag) = None" by (simp add: kept_def)
  from mem_okD(2) [OF assms] obtain n where n: "h_blocks h p = Some n" "sz < n" by (auto simp: marked_def)
  let ?h1 = "heap_write p (h_mem h (p + sz)) h"
  have "same_content (live(p := None)) h ?h1"
    unfolding same_content_def
  proof (intro allI impI)
    fix q s j assume q: "(live(p := None)) q = Some s" "j < s"
    then have "q \<noteq> p" "live q = Some s" by (auto split: if_splits)
    moreover obtain m where m: "h_blocks h q = Some m" "s < m"
      using mem_okD(2) [OF assms(1), of q s] calculation(2) by (auto simp: marked_def)
    ultimately have "q + j \<noteq> p + 0"
      using elsewhere [OF mem_okD(1) [OF assms(1)] n(1), of 0 q m j] n(2) q(2) by simp
    then show "h_mem ?h1 (q + j) = h_mem h (q + j)" by (simp add: heap_write_def)
  qed
  with ok_keep [OF assms k] t True show thesis
    by (intro that [of ?h1 "Some ((ts t1)(tag \<mapsto> p))"]) (simp_all add: thread_deallocate_def set_thread_def)
next
  case False
  obtain h1 where d: "heap_delete p h = Some h1" "mem_ok h1 (kept ts) (live(p := None))"
    using ok_delete_live [OF assms] .
  have "set_thread t (map_option ts t) ts = ts" by (cases t) (simp_all add: set_thread_def)
  with d False show thesis
    by (intro that [of h1 "map_option ts t"])
      (auto simp: thread_deallocate_def same_content_def heap_delete_def split: if_splits)
qed

lemma delete_kept_all:
  assumes "mem_ok h keep live" and "distinct xs"
  shows "\<exists>h1. delete_all (map keep xs) h = Some h1 \<and> mem_ok h1 (\<lambda>x. if x \<in> set xs then None else keep x) live"
  using assms
proof (induction xs arbitrary: h keep)
  case (Cons x xs)
  show ?case
  proof (cases "keep x")
    case None
    then have "(\<lambda>y. if y \<in> set (x # xs) then None else keep y) = (\<lambda>y. if y \<in> set xs then None else keep y)" by auto
    with None Cons show ?thesis by simp
  next
    case (Some p)
    obtain h1 where d: "heap_delete p h = Some h1" "mem_ok h1 (keep(x := None)) live"
      using ok_delete_kept [OF Cons.prems(1) Some] .
    have m: "map (keep(x := None)) xs = map keep xs" using Cons.prems(2) by auto
    have "(\<lambda>y. if y \<in> set xs then None else (keep(x := None)) y) = (\<lambda>y. if y \<in> set (x # xs) then None else keep y)" by auto
    moreover obtain h2 where "delete_all (map keep xs) h1 = Some h2" "mem_ok h2 (\<lambda>y. if y \<in> set xs then None else (keep(x := None)) y) live"
      using Cons.IH [OF d(2)] Cons.prems(2) unfolding m by auto
    ultimately show ?thesis using d(1) Some by simp
  qed
qed simp

lemma thread_destroy_ok:
  assumes "mem_ok h (kept ts) live"
  obtains h1 where "thread_memory_destroy (ts t) h = Some h1" "mem_ok h1 (kept (ts(t := thread_memory_new))) live"
proof -
  let ?xs = "[(t, DefaultTag), (t, AwaiteeTag), (t, ExecutorFunctionTag)]"
  obtain h1 where d: "delete_all (map (kept ts) ?xs) h = Some h1" "mem_ok h1 (\<lambda>x. if x \<in> set ?xs then None else kept ts x) live"
    using delete_kept_all [OF assms, of ?xs] by auto
  have "(\<lambda>x. if x \<in> set ?xs then None else kept ts x) = kept (ts(t := thread_memory_new))"
    by (auto simp: kept_def thread_memory_new_def fun_eq_iff) (metis purpose.exhaust)
  with d show thesis by (intro that [of h1]) (simp_all add: thread_memory_destroy_def kept_def)
qed

section \<open>Properties\<close>

lemma mem_inv_start: "mem_inv mem_start"
  by (simp add: mem_inv_def mem_ok_def mem_start_def blocks_apart_def kept_def thread_memory_new_def)

lemma mem_inv_step:
  assumes "mem_step s s1" and "mem_inv s"
  shows "mem_inv s1"
  using assms
proof (induction rule: mem_step.induct)
  case (allocates tag s t sz created h1 ti p)
  from allocates(3) have m: "mem_ok (ms_heap s) (kept (ms_threads s)) (ms_live s)" by (simp add: mem_inv_def)
  from thread_allocate_ok [OF m allocates(2)] allocates(1) show ?case by (auto simp: mem_inv_def)
next
  case (deallocates s p sz tag t h1 ti)
  from deallocates(3) have m: "mem_ok (ms_heap s) (kept (ms_threads s)) (ms_live s)" by (simp add: mem_inv_def)
  from thread_deallocate_ok [OF m deallocates(1), of tag t] deallocates(2) show ?case by (auto simp: mem_inv_def)
next
  case (writes s p sz i b)
  from writes(3) have m: "mem_ok (ms_heap s) (kept (ms_threads s)) (ms_live s)" by (simp add: mem_inv_def)
  from mem_okD(2) [OF m writes(1)] obtain n where n: "h_blocks (ms_heap s) p = Some n" "sz < n" "chunk_size * unat (h_mem (ms_heap s) (p + sz)) < n"
    by (auto simp: marked_def)
  have no: "kept (ms_threads s) x \<noteq> Some p" for x using mem_okD(3) [OF m, of x p] writes(1) by auto
  have "mem_ok (heap_write (p + i) b (ms_heap s)) (kept (ms_threads s)) (ms_live s)"
  proof (rule mem_ok_change [OF m, where p = p])
    show "marked (heap_write (p + i) b (ms_heap s)) q j" if "q \<noteq> p" "marked (ms_heap s) q j" for q j
      using marked_write_other [OF mem_okD(1) [OF m] n(1) _ that(1)] that(2) writes(2) n(2) by simp
    show "marked (heap_write (p + i) b (ms_heap s)) p j" if "ms_live s p = Some j" for j
      using that writes(1,2) n by (simp add: marked_def heap_write_def)
  qed (use m no writes(1) in \<open>auto simp: mem_okD(1)\<close>)
  then show ?case by (simp add: mem_inv_def)
next
  case (ends s t h1)
  from ends(2) have m: "mem_ok (ms_heap s) (kept (ms_threads s)) (ms_live s)" by (simp add: mem_inv_def)
  from thread_destroy_ok [OF m, of t] ends(1) show ?case by (auto simp: mem_inv_def)
qed

lemma mem_inv_reachable: "mem_step\<^sup>*\<^sup>* mem_start s \<Longrightarrow> mem_inv s"
  by (induction rule: rtranclp_induct) (simp_all add: mem_inv_start mem_inv_step)

text \<open>C38. Whatever the threads allocated, deallocated and wrote before: memory in use has a block of its own, big enough,
  apart from the others; every block is in use or kept by one thread, so none is lost and none is kept
  twice; allocating always gives memory that was not in use and leaves what is in use as it is, and so
  does deallocating; neither they nor the end of a thread delete what is no block.\<close>

theorem handler_memory_sound:
  assumes "mem_step\<^sup>*\<^sup>* mem_start s"
  shows "(\<forall>p sz. ms_live s p = Some sz \<longrightarrow> (\<exists>n. h_blocks (ms_heap s) p = Some n \<and> sz < n)) \<and>
    (\<forall>p q n m. h_blocks (ms_heap s) p = Some n \<and> h_blocks (ms_heap s) q = Some m \<and> p \<noteq> q \<longrightarrow> apart p n q m) \<and>
    dom (h_blocks (ms_heap s)) = dom (ms_live s) \<union> ran (kept (ms_threads s)) \<and> dom (ms_live s) \<inter> ran (kept (ms_threads s)) = {} \<and>
    inj_on (kept (ms_threads s)) (dom (kept (ms_threads s))) \<and>
    (\<forall>tag t sz created. new_is_fresh tag (map_option (ms_threads s) t) sz created (ms_heap s) \<longrightarrow>
       (\<exists>h1 ti p. thread_allocate tag (map_option (ms_threads s) t) sz created (ms_heap s) = Some (h1, ti, p) \<and> ms_live s p = None \<and>
         same_content (ms_live s) (ms_heap s) h1)) \<and>
    (\<forall>tag t p sz. ms_live s p = Some sz \<longrightarrow>
       (\<exists>h1 ti. thread_deallocate tag (map_option (ms_threads s) t) p sz (ms_heap s) = Some (h1, ti) \<and>
         same_content ((ms_live s)(p := None)) (ms_heap s) h1)) \<and>
    (\<forall>t. thread_memory_destroy (ms_threads s t) (ms_heap s) \<noteq> None)"
proof (intro conjI)
  have m: "mem_ok (ms_heap s) (kept (ms_threads s)) (ms_live s)" using mem_inv_reachable [OF assms] by (simp add: mem_inv_def)
  note I = mem_okD [OF m]
  show "\<forall>p sz. ms_live s p = Some sz \<longrightarrow> (\<exists>n. h_blocks (ms_heap s) p = Some n \<and> sz < n)" using I(2) by (auto simp: marked_def)
  show "\<forall>p q n m. h_blocks (ms_heap s) p = Some n \<and> h_blocks (ms_heap s) q = Some m \<and> p \<noteq> q \<longrightarrow> apart p n q m"
    using I(1) by (auto simp: blocks_apart_def)
  show "dom (h_blocks (ms_heap s)) = dom (ms_live s) \<union> ran (kept (ms_threads s))"
  proof (intro equalityI subsetI)
    fix p assume "p \<in> dom (ms_live s) \<union> ran (kept (ms_threads s))"
    then show "p \<in> dom (h_blocks (ms_heap s))" by (auto simp: ran_def marked_def dest!: I(2) I(3))
  qed (use I(5) in auto)
  show "dom (ms_live s) \<inter> ran (kept (ms_threads s)) = {}" using I(3) by (auto simp: ran_def)
  show "inj_on (kept (ms_threads s)) (dom (kept (ms_threads s)))" using I(4) unfolding inj_on_def dom_def by (metis (mono_tags, lifting) mem_Collect_eq not_None_eq)
  show "\<forall>tag t sz created. new_is_fresh tag (map_option (ms_threads s) t) sz created (ms_heap s) \<longrightarrow>
       (\<exists>h1 ti p. thread_allocate tag (map_option (ms_threads s) t) sz created (ms_heap s) = Some (h1, ti, p) \<and> ms_live s p = None \<and>
         same_content (ms_live s) (ms_heap s) h1)"
    using thread_allocate_ok [OF m] by metis
  show "\<forall>tag t p sz. ms_live s p = Some sz \<longrightarrow>
       (\<exists>h1 ti. thread_deallocate tag (map_option (ms_threads s) t) p sz (ms_heap s) = Some (h1, ti) \<and>
         same_content ((ms_live s)(p := None)) (ms_heap s) h1)"
    using thread_deallocate_ok [OF m] by metis
  show "\<forall>t. thread_memory_destroy (ms_threads s t) (ms_heap s) \<noteq> None"
    using thread_destroy_ok [OF m] by (metis option.discI)
qed

text \<open>A thread that asks for ten bytes and gives them back keeps the block, which is big enough for twelve.\<close>

definition demo_memory :: "nat mem_state" where
  "demo_memory =
     \<lparr>ms_heap = heap_write 100 3 (heap_write 110 3 (heap_new 100 13 (ms_heap (mem_start :: nat mem_state)))),
      ms_threads = (ms_threads mem_start)(0 := thread_memory_new(DefaultTag \<mapsto> 100)), ms_live = Map.empty\<rparr>"

lemma demo_memory_reachable: "mem_step\<^sup>*\<^sup>* mem_start demo_memory"
proof -
  let ?h1 = "heap_write 110 3 (heap_new 100 13 (ms_heap (mem_start :: nat mem_state)))"
  let ?s1 = "(mem_start :: nat mem_state)\<lparr>ms_heap := ?h1, ms_threads := set_thread (Some 0) (Some thread_memory_new) (ms_threads mem_start),
    ms_live := (ms_live (mem_start :: nat mem_state))(100 \<mapsto> 10)\<rparr>"
  have a: "thread_allocate DefaultTag (map_option (ms_threads (mem_start :: nat mem_state)) (Some 0)) 10 100 (ms_heap (mem_start :: nat mem_state)) =
      Some (?h1, Some thread_memory_new, 100)"
    by (simp add: thread_allocate_def allocate_new_def mem_start_def thread_memory_new_def chunks_for_def chunk_size_def uchar_max_def Let_def)
  have "is_fresh 100 (chunks_for 10 * chunk_size + 1) (ms_heap (mem_start :: nat mem_state))" by (simp add: is_fresh_def mem_start_def)
  then have "new_is_fresh DefaultTag (map_option (ms_threads (mem_start :: nat mem_state)) (Some 0)) 10 100 (ms_heap (mem_start :: nat mem_state))"
    by (simp add: new_is_fresh_def mem_start_def thread_memory_new_def)
  from allocates [OF a this] have "mem_step mem_start ?s1" .
  moreover have d: "thread_deallocate DefaultTag (map_option (ms_threads ?s1) (Some 0)) 100 10 (ms_heap ?s1) =
      Some (ms_heap demo_memory, Some (thread_memory_new(DefaultTag \<mapsto> 100)))"
    by (simp add: thread_deallocate_def set_thread_def thread_memory_new_def chunk_size_def uchar_max_def demo_memory_def heap_write_def)
  have "mem_step ?s1 (?s1\<lparr>ms_heap := ms_heap demo_memory, ms_threads := set_thread (Some 0) (Some (thread_memory_new(DefaultTag \<mapsto> 100))) (ms_threads ?s1),
      ms_live := (ms_live ?s1)(100 := None)\<rparr>)"
    by (rule deallocates [OF _ d]) simp
  moreover have "?s1\<lparr>ms_heap := ms_heap demo_memory, ms_threads := set_thread (Some 0) (Some (thread_memory_new(DefaultTag \<mapsto> 100))) (ms_threads ?s1),
      ms_live := (ms_live ?s1)(100 := None)\<rparr> = demo_memory"
    by (simp add: demo_memory_def set_thread_def mem_start_def fun_eq_iff)
  ultimately show ?thesis by (metis rtranclp.rtrancl_refl rtranclp.rtrancl_into_rtrancl)
qed

theorem handler_memory_sound_witness:
  "(\<exists>h1 ti p. thread_allocate DefaultTag (Some (ms_threads demo_memory 0)) 20 100 (ms_heap demo_memory) = Some (h1, ti, p)) \<and>
   thread_memory_destroy (ms_threads demo_memory 0) (ms_heap demo_memory) \<noteq> None"
proof -
  have "new_is_fresh DefaultTag (map_option (ms_threads demo_memory) (Some 0)) 20 100 (ms_heap demo_memory)"
    by (simp add: new_is_fresh_def is_fresh_def demo_memory_def heap_write_def heap_new_def mem_start_def apart_def chunks_for_def chunk_size_def
        thread_memory_new_def)
  with handler_memory_sound [OF demo_memory_reachable, THEN conjunct2, THEN conjunct2, THEN conjunct2, THEN conjunct2, THEN conjunct2, THEN conjunct1,
      rule_format, of DefaultTag "Some 0" 20 100]
    handler_memory_sound [OF demo_memory_reachable, THEN conjunct2, THEN conjunct2, THEN conjunct2, THEN conjunct2, THEN conjunct2, THEN conjunct2,
      THEN conjunct2, rule_format, of 0]
  show ?thesis by auto
qed

end
