(* ===== verification/ServiceRegistry.thy ===== *)
theory ServiceRegistry
  imports AsioPrelude "HOL-Library.Multiset"
begin

text \<open>
  \<open>include/asio/core/impl/service_registry.ipp\<close> and \<open>core/impl/service_registry.hpp\<close>: the services of an execution
  context, a list linked by their \<open>next_\<close> fields, found by their keys. A service is named by its object;
  its key and its link are fields of the state. \<open>do_use_service\<close> releases the mutex while it constructs a
  new service, so it is cut there, and threads run the parts in any order. A walk along the list that
  does not end has no result.
\<close>

section \<open>Keys\<close>

record service_key =
  key_type_info :: "nat option"
  key_id :: "nat option"

definition init_key_from_id :: "nat \<Rightarrow> service_key" where
  "init_key_from_id i = \<lparr>key_type_info = None, key_id = Some i\<rparr>"

definition init_key_from_type :: "nat \<Rightarrow> service_key" where
  "init_key_from_type t = \<lparr>key_type_info = Some t, key_id = None\<rparr>"

definition keys_match :: "service_key \<Rightarrow> service_key \<Rightarrow> bool" where
  "keys_match key1 key2 =
     (if key_id key1 \<noteq> None \<and> key_id key2 \<noteq> None \<and> key_id key1 = key_id key2 then True
      else if key_type_info key1 \<noteq> None \<and> key_type_info key2 \<noteq> None \<and> key_type_info key1 = key_type_info key2 then True
      else False)"

section \<open>The registry\<close>

record 's registry =
  reg_owner :: nat
  first_service :: "'s ptr"
  sv_next :: "'s field"
  sv_key :: "'s \<Rightarrow> service_key"

definition registry_new :: "nat \<Rightarrow> 's field \<Rightarrow> ('s \<Rightarrow> service_key) \<Rightarrow> 's registry" where
  "registry_new owner nx keys = \<lparr>reg_owner = owner, first_service = None, sv_next = nx, sv_key = keys\<rparr>"

partial_function (option) find_service :: "'s registry \<Rightarrow> service_key \<Rightarrow> 's ptr \<Rightarrow> 's ptr option" where
  "find_service r k p =
     (case p of
        None \<Rightarrow> Some None
      | Some s \<Rightarrow> if keys_match (sv_key r s) k then Some (Some s) else find_service r k (sv_next r s))"

declare find_service.simps [code]

definition do_has_service :: "service_key \<Rightarrow> 's registry \<Rightarrow> bool option" where
  "do_has_service k r = map_option (\<lambda>p. p \<noteq> None) (find_service r k (first_service r))"

text \<open>\<open>do_use_service\<close> up to the release of the mutex, and from where it has the new service on: the new registry,
  the service, and the service that is destroyed because another one was there first.\<close>

definition use_service_begin :: "service_key \<Rightarrow> 's registry \<Rightarrow> 's ptr option" where
  "use_service_begin k r = find_service r k (first_service r)"

definition use_service_end :: "service_key \<Rightarrow> 's \<Rightarrow> 's registry \<Rightarrow> ('s registry \<times> 's \<times> 's ptr) option" where
  "use_service_end k new r =
     (let r1 = r\<lparr>sv_key := (sv_key r)(new := k)\<rparr>
      in map_option (\<lambda>p. case p of
             Some s \<Rightarrow> (r1, s, Some new)
           | None \<Rightarrow> (r1\<lparr>sv_next := (sv_next r1)(new := first_service r1), first_service := Some new\<rparr>, new, None))
           (find_service r1 k (first_service r1)))"

text \<open>The whole of it, when the factory, which may use the registry itself, is all that happens in between.\<close>

definition do_use_service :: "service_key \<Rightarrow> ('s registry \<Rightarrow> 's registry \<times> 's) \<Rightarrow> 's registry \<Rightarrow> ('s registry \<times> 's \<times> 's ptr) option" where
  "do_use_service k factory r =
     Option.bind (use_service_begin k r) (\<lambda>p. case p of
         Some s \<Rightarrow> Some (r, s, None)
       | None \<Rightarrow> (case factory r of (r1, new) \<Rightarrow> use_service_end k new r1))"

datatype registry_error = InvalidServiceOwner | ServiceAlreadyExists

definition do_add_service :: "service_key \<Rightarrow> 's \<Rightarrow> nat \<Rightarrow> 's registry \<Rightarrow> (registry_error + 's registry) option" where
  "do_add_service k new context r =
     (if reg_owner r \<noteq> context then Some (Inl InvalidServiceOwner)
      else
        map_option (\<lambda>p. case p of
            Some s \<Rightarrow> Inl ServiceAlreadyExists
          | None \<Rightarrow> Inr (r\<lparr>sv_key := (sv_key r)(new := k), sv_next := (sv_next r)(new := first_service r), first_service := Some new\<rparr>))
          (find_service r k (first_service r)))"

text \<open>Shutting the services down and destroying them, with the services in the order of the calls.\<close>

partial_function (option) shutdown_loop :: "'s field \<Rightarrow> 's ptr \<Rightarrow> 's list option" where
  "shutdown_loop nx p = (case p of None \<Rightarrow> Some [] | Some s \<Rightarrow> Option.bind (shutdown_loop nx (nx s)) (\<lambda>ss. Some (s # ss)))"

declare shutdown_loop.simps [code]

definition shutdown_services :: "'s registry \<Rightarrow> 's list option" where
  "shutdown_services r = shutdown_loop (sv_next r) (first_service r)"

partial_function (option) destroy_services :: "'s registry \<Rightarrow> ('s registry \<times> 's list) option" where
  "destroy_services r =
     (case first_service r of
        None \<Rightarrow> Some (r, [])
      | Some s \<Rightarrow> Option.bind (destroy_services (r\<lparr>first_service := sv_next r s\<rparr>)) (\<lambda>(r1, ss). Some (r1, s # ss)))"

declare destroy_services.simps [code]

datatype fork_event = ForkPrepare | ForkParent | ForkChild

definition registry_notify_fork :: "fork_event \<Rightarrow> 's registry \<Rightarrow> 's list option" where
  "registry_notify_fork ev r =
     map_option (\<lambda>services. if ev = ForkPrepare then services else rev services) (shutdown_loop (sv_next r) (first_service r))"

section \<open>Threads\<close>

text \<open>The registry, the keys for which a thread is constructing a service, the results of \<open>use_service\<close> so far,
  and the objects that ever were services, with those that were destroyed.\<close>

record 's registry_system =
  sy_registry :: "'s registry"
  sy_creating :: "service_key multiset"
  sy_used :: "(service_key \<times> 's) set"
  sy_objects :: "'s set"
  sy_destroyed :: "'s set"

definition key_ok :: "service_key \<Rightarrow> bool" where
  "key_ok k \<longleftrightarrow> (key_type_info k = None) \<noteq> (key_id k = None)"

inductive registry_step :: "'s registry_system \<Rightarrow> 's registry_system \<Rightarrow> bool" where
  finds: "use_service_begin k (sy_registry y) = Some (Some s) \<Longrightarrow> key_ok k \<Longrightarrow>
    registry_step y (y\<lparr>sy_used := insert (k, s) (sy_used y)\<rparr>)"
| creates: "use_service_begin k (sy_registry y) = Some None \<Longrightarrow> key_ok k \<Longrightarrow>
    registry_step y (y\<lparr>sy_creating := add_mset k (sy_creating y)\<rparr>)"
| created: "k \<in># sy_creating y \<Longrightarrow> new \<notin> sy_objects y \<Longrightarrow> use_service_end k new (sy_registry y) = Some (r1, s, d) \<Longrightarrow>
    registry_step y (y\<lparr>sy_registry := r1, sy_creating := sy_creating y - {#k#}, sy_used := insert (k, s) (sy_used y),
      sy_objects := insert new (sy_objects y), sy_destroyed := set_option d \<union> sy_destroyed y\<rparr>)"
| adds: "new \<notin> sy_objects y \<Longrightarrow> key_ok k \<Longrightarrow> do_add_service k new context (sy_registry y) = Some (Inr r1) \<Longrightarrow>
    registry_step y (y\<lparr>sy_registry := r1, sy_objects := insert new (sy_objects y)\<rparr>)"

definition registry_start :: "nat \<Rightarrow> 's field \<Rightarrow> ('s \<Rightarrow> service_key) \<Rightarrow> 's registry_system" where
  "registry_start owner nx keys = \<lparr>sy_registry = registry_new owner nx keys, sy_creating = {#}, sy_used = {}, sy_objects = {}, sy_destroyed = {}\<rparr>"

section \<open>The list of services\<close>

lemma keys_match_eq: "key_ok k1 \<Longrightarrow> key_ok k2 \<Longrightarrow> keys_match k1 k2 \<longleftrightarrow> k1 = k2"
  by (cases k1; cases k2) (auto simp: keys_match_def key_ok_def)

lemma find_service_list:
  "chain (sv_next r) p ss \<Longrightarrow> find_service r k p = Some (find (\<lambda>s. keys_match (sv_key r s) k) ss)"
  by (induction ss arbitrary: p) (subst find_service.simps, auto)+

lemma shutdown_loop_list: "chain nx p ss \<Longrightarrow> shutdown_loop nx p = Some ss"
  by (induction ss arbitrary: p) (subst shutdown_loop.simps, auto)+

lemma destroy_services_list:
  "chain (sv_next r) (first_service r) ss \<Longrightarrow> destroy_services r = Some (r\<lparr>first_service := None\<rparr>, ss)"
proof (induction ss arbitrary: r)
  case Nil
  then show ?case by (subst destroy_services.simps) simp
next
  case (Cons s ss)
  from Cons.prems Cons.IH [of "r\<lparr>first_service := sv_next r s\<rparr>"] show ?case
    by (subst destroy_services.simps) simp
qed

text \<open>The services of a registry, with different keys; what was used is among them, what was destroyed is not.\<close>

definition services :: "'s registry \<Rightarrow> 's list \<Rightarrow> bool" where
  "services r ss \<longleftrightarrow> chain (sv_next r) (first_service r) ss \<and> distinct ss \<and> inj_on (sv_key r) (set ss) \<and> (\<forall>s \<in> set ss. key_ok (sv_key r s))"

lemma find_by_key:
  assumes "services r ss" and "key_ok k"
  shows "find_service r k (first_service r) = Some p \<longleftrightarrow> (case p of Some s \<Rightarrow> s \<in> set ss \<and> sv_key r s = k | None \<Rightarrow> k \<notin> sv_key r ` set ss)"
proof -
  have s: "chain (sv_next r) (first_service r) ss" "inj_on (sv_key r) (set ss)" "\<forall>s \<in> set ss. key_ok (sv_key r s)"
    using assms(1) by (simp_all add: services_def)
  have m: "keys_match (sv_key r s) k \<longleftrightarrow> sv_key r s = k" if "s \<in> set ss" for s using that s(3) keys_match_eq assms(2) by blast
  have "find (\<lambda>s. keys_match (sv_key r s) k) ss = p \<longleftrightarrow> (case p of Some s \<Rightarrow> s \<in> set ss \<and> sv_key r s = k | None \<Rightarrow> k \<notin> sv_key r ` set ss)"
  proof (cases "find (\<lambda>s. keys_match (sv_key r s) k) ss")
    case None
    then have "k \<notin> sv_key r ` set ss" using m by (auto simp: find_None_iff)
    with None show ?thesis by (auto split: option.splits)
  next
    case (Some a)
    then have "a \<in> set ss" "sv_key r a = k" using m by (auto simp: find_Some_iff)
    with Some s(2) show ?thesis by (auto simp: inj_on_def split: option.splits)
  qed
  then show ?thesis by (simp add: find_service_list [OF s(1)])
qed

lemma services_set_key:
  assumes "services r ss" and "new \<notin> set ss"
  shows "services (r\<lparr>sv_key := (sv_key r)(new := k)\<rparr>) ss"
  using assms by (auto simp: services_def inj_on_def)

lemma services_push:
  assumes "services r ss" and "new \<notin> set ss" and "key_ok k" and "k \<notin> sv_key r ` set ss"
  shows "services (r\<lparr>sv_key := (sv_key r)(new := k), sv_next := (sv_next r)(new := first_service r), first_service := Some new\<rparr>) (new # ss)"
  using assms by (auto simp: services_def chain_simps inj_on_def)

text \<open>The parts of \<open>use_service\<close> and \<open>add_service\<close> on the list.\<close>

lemma use_service_begin_list:
  assumes "services r ss" and "key_ok k"
  shows "use_service_begin k r = Some p \<longleftrightarrow> (case p of Some s \<Rightarrow> s \<in> set ss \<and> sv_key r s = k | None \<Rightarrow> k \<notin> sv_key r ` set ss)"
  using find_by_key [OF assms] by (simp add: use_service_begin_def)

lemma use_service_end_list:
  assumes "services r ss" and "key_ok k" and "new \<notin> set ss"
  obtains (kept) s r1 where "use_service_end k new r = Some (r1, s, Some new)" "services r1 ss" "s \<in> set ss" "sv_key r1 s = k"
      "\<forall>x \<in> set ss. sv_key r1 x = sv_key r x"
    | (pushed) r1 where "use_service_end k new r = Some (r1, new, None)" "services r1 (new # ss)" "sv_key r1 new = k"
      "\<forall>x \<in> set ss. sv_key r1 x = sv_key r x"
proof -
  let ?r = "r\<lparr>sv_key := (sv_key r)(new := k)\<rparr>"
  note F = find_by_key [OF services_set_key [OF assms(1,3)] assms(2), of k]
  have same: "\<forall>x \<in> set ss. sv_key ?r x = sv_key r x" using assms(3) by auto
  show thesis
  proof (cases "\<exists>s \<in> set ss. sv_key r s = k")
    case True
    then obtain s where s: "s \<in> set ss" "sv_key ?r s = k" using same by auto
    with F [of "Some s"] have "find_service ?r k (first_service ?r) = Some (Some s)" by simp
    with s same show thesis by (intro kept [of ?r s]) (simp_all add: use_service_end_def services_set_key [OF assms(1,3)])
  next
    case False
    then have n: "k \<notin> sv_key ?r ` set ss" "k \<notin> sv_key r ` set ss" using same by (auto simp: image_iff)
    with F [of None] have "find_service ?r k (first_service ?r) = Some None" by simp
    with same services_push [OF assms(1,3,2) n(2)] show thesis
      by (intro pushed [of "?r\<lparr>sv_next := (sv_next r)(new := first_service r), first_service := Some new\<rparr>"]) (simp_all add: use_service_end_def)
  qed
qed

lemma do_add_service_list:
  assumes "services r ss" and "key_ok k" and "do_add_service k new context r = Some (Inr r1)" and "new \<notin> set ss"
  shows "services r1 (new # ss) \<and> (\<forall>x \<in> set ss. sv_key r1 x = sv_key r x)"
proof -
  have f: "find_service r k (first_service r) = Some None"
    and r1: "r1 = r\<lparr>sv_key := (sv_key r)(new := k), sv_next := (sv_next r)(new := first_service r), first_service := Some new\<rparr>"
    using assms(3) by (auto simp: do_add_service_def split: if_splits option.splits)
  from find_by_key [OF assms(1,2), of None] f have "k \<notin> sv_key r ` set ss" by simp
  with services_push [OF assms(1,4,2)] assms(4) show ?thesis unfolding r1 by auto
qed

section \<open>Properties\<close>

definition registry_inv :: "'s registry_system \<Rightarrow> 's list \<Rightarrow> bool" where
  "registry_inv y ss \<longleftrightarrow> services (sy_registry y) ss \<and> set ss \<subseteq> sy_objects y \<and> sy_destroyed y \<subseteq> sy_objects y \<and> set ss \<inter> sy_destroyed y = {} \<and>
     (\<forall>k s. (k, s) \<in> sy_used y \<longrightarrow> s \<in> set ss \<and> sv_key (sy_registry y) s = k) \<and> (\<forall>k \<in># sy_creating y. key_ok k)"

lemma registry_inv_step:
  assumes "registry_step y y1" and "registry_inv y ss"
  shows "\<exists>ss1. registry_inv y1 ss1"
  using assms
proof (induction rule: registry_step.induct)
  case (finds k y s)
  with use_service_begin_list [of "sy_registry y" ss k "Some s"] show ?case by (auto simp: registry_inv_def)
next
  case (creates k y)
  then show ?case by (auto simp: registry_inv_def)
next
  case (created k y new r1 s d)
  then have c: "services (sy_registry y) ss" "key_ok k" "new \<notin> set ss" by (auto simp: registry_inv_def)
  have rest: "\<forall>k' \<in># sy_creating y - {#k#}. key_ok k'" using created(4) by (auto simp: registry_inv_def dest: in_diffD)
  from c show ?case
  proof (cases rule: use_service_end_list)
    case (kept s2 r2)
    with created rest show ?thesis by (intro exI [of _ ss]) (auto simp: registry_inv_def)
  next
    case (pushed r2)
    with created rest show ?thesis by (intro exI [of _ "new # ss"]) (auto simp: registry_inv_def)
  qed
next
  case (adds new y k ctx r1)
  then have "services (sy_registry y) ss" "new \<notin> set ss" by (auto simp: registry_inv_def)
  with do_add_service_list [of "sy_registry y" ss k new ctx r1] adds show ?case
    by (intro exI [of _ "new # ss"]) (auto simp: registry_inv_def)
qed

lemma registry_inv_reachable: "registry_step\<^sup>*\<^sup>* (registry_start owner nx keys) y \<Longrightarrow> \<exists>ss. registry_inv y ss"
proof (induction rule: rtranclp_induct)
  case base
  show ?case by (intro exI [of _ "[]"]) (simp add: registry_inv_def registry_start_def registry_new_def services_def)
next
  case (step y y1)
  then show ?case using registry_inv_step by blast
qed

text \<open>C39. However the threads interleave, even when two of them construct the same service at once: all uses of a
  key get the same service, it is still there and not destroyed, and a lookup finds it; services have
  different keys; every walk along the list returns. Shutdown, destruction and the preparation of a fork
  take each service once, the latest first, and after a fork the order is reversed.\<close>

theorem service_registry_unique:
  assumes "registry_step\<^sup>*\<^sup>* (registry_start owner nx keys) y"
  shows "\<exists>ss. shutdown_services (sy_registry y) = Some ss \<and> distinct ss \<and> inj_on (sv_key (sy_registry y)) (set ss) \<and>
    set ss \<inter> sy_destroyed y = {} \<and>
    destroy_services (sy_registry y) = Some ((sy_registry y)\<lparr>first_service := None\<rparr>, ss) \<and>
    (\<forall>ev. registry_notify_fork ev (sy_registry y) = Some (if ev = ForkPrepare then ss else rev ss)) \<and>
    (\<forall>k s. (k, s) \<in> sy_used y \<longrightarrow> s \<in> set ss \<and> (\<forall>s1. (k, s1) \<in> sy_used y \<longrightarrow> s1 = s) \<and>
       (key_ok k \<longrightarrow> use_service_begin k (sy_registry y) = Some (Some s))) \<and>
    (\<forall>k. key_ok k \<longrightarrow> do_has_service k (sy_registry y) = Some (k \<in> sv_key (sy_registry y) ` set ss)) \<and>
    (\<forall>k new. key_ok k \<and> new \<notin> sy_objects y \<longrightarrow> use_service_end k new (sy_registry y) \<noteq> None)"
proof -
  obtain ss where I: "registry_inv y ss" using registry_inv_reachable [OF assms] by blast
  then have s: "services (sy_registry y) ss" "set ss \<subseteq> sy_objects y" "set ss \<inter> sy_destroyed y = {}"
    and u: "\<And>k s. (k, s) \<in> sy_used y \<Longrightarrow> s \<in> set ss \<and> sv_key (sy_registry y) s = k"
    by (auto simp: registry_inv_def)
  then have c: "chain (sv_next (sy_registry y)) (first_service (sy_registry y)) ss" "distinct ss" "inj_on (sv_key (sy_registry y)) (set ss)"
    by (simp_all add: services_def)
  have "do_has_service k (sy_registry y) = Some (k \<in> sv_key (sy_registry y) ` set ss)" if "key_ok k" for k
  proof (cases "k \<in> sv_key (sy_registry y) ` set ss")
    case True
    then obtain x where "x \<in> set ss" "sv_key (sy_registry y) x = k" by blast
    with find_by_key [OF s(1) that, of "Some x"] True show ?thesis by (simp add: do_has_service_def)
  next
    case False
    with find_by_key [OF s(1) that, of None] show ?thesis by (simp add: do_has_service_def)
  qed
  moreover have "use_service_end k new (sy_registry y) \<noteq> None" if "key_ok k" "new \<notin> sy_objects y" for k new
  proof -
    have "new \<notin> set ss" using that s(2) by blast
    with s(1) that(1) show ?thesis by (cases rule: use_service_end_list) auto
  qed
  moreover have "s1 = x" if "(k, x) \<in> sy_used y" "(k, s1) \<in> sy_used y" for k x s1
    using u [OF that(1)] u [OF that(2)] c(3) by (auto simp: inj_on_def)
  moreover have "use_service_begin k (sy_registry y) = Some (Some x)" if "(k, x) \<in> sy_used y" "key_ok k" for k x
    using use_service_begin_list [OF s(1) that(2), of "Some x"] u [OF that(1)] by simp
  ultimately show ?thesis
    using s u c shutdown_loop_list [OF c(1)] destroy_services_list [OF c(1)]
    by (intro exI [of _ ss]) (auto simp: shutdown_services_def registry_notify_fork_def)
qed

text \<open>Two threads construct the same service: the second one is destroyed.\<close>

definition demo_registry :: "nat registry_system" where
  "demo_registry = registry_start 0 (\<lambda>_. None) (\<lambda>_. init_key_from_id 0)"

definition demo_key :: service_key where "demo_key = init_key_from_type 7"

lemma demo_registry_race:
  "\<exists>y. registry_step\<^sup>*\<^sup>* demo_registry y \<and> (demo_key, 1) \<in> sy_used y \<and> sy_destroyed y = {2} \<and> sy_creating y = {#}"
proof -
  have k: "key_ok demo_key" by (simp add: demo_key_def init_key_from_type_def key_ok_def)
  let ?r0 = "sy_registry demo_registry"
  let ?y1 = "demo_registry\<lparr>sy_creating := {#demo_key#}\<rparr>"
  let ?y2 = "demo_registry\<lparr>sy_creating := {#demo_key, demo_key#}\<rparr>"
  have b: "use_service_begin demo_key ?r0 = Some None"
    by (simp add: use_service_begin_def demo_registry_def registry_start_def registry_new_def find_service.simps)
  have s1: "registry_step demo_registry ?y1"
    using creates [OF b k] by (simp add: demo_registry_def registry_start_def)
  have s2: "registry_step ?y1 ?y2"
    using creates [of demo_key ?y1] b k by simp
  obtain r1 where e1: "use_service_end demo_key 1 ?r0 = Some (r1, 1, None)" "first_service r1 = Some 1" "sv_key r1 1 = demo_key"
    by (simp add: use_service_end_def demo_registry_def registry_start_def registry_new_def find_service.simps Let_def)
  let ?y3 = "?y2\<lparr>sy_registry := r1, sy_creating := {#demo_key#}, sy_used := {(demo_key, 1)}, sy_objects := {1}, sy_destroyed := {}\<rparr>"
  have s3: "registry_step ?y2 ?y3"
    using created [of demo_key ?y2 1 r1 1 None] e1(1) by (simp add: demo_registry_def registry_start_def)
  have "keys_match demo_key demo_key" using keys_match_eq [OF k k] by simp
  then obtain r2 where e2: "use_service_end demo_key 2 r1 = Some (r2, 1, Some 2)"
    using e1(2,3) by (simp add: use_service_end_def find_service.simps Let_def)
  let ?y4 = "demo_registry\<lparr>sy_registry := r2, sy_creating := {#}, sy_used := {(demo_key, 1)}, sy_objects := {1, 2}, sy_destroyed := {2}\<rparr>"
  have s4: "registry_step ?y3 ?y4"
    using created [of demo_key ?y3 2 r2 1 "Some 2"] e2 by (simp add: insert_commute)
  from s1 s2 s3 s4 have "registry_step\<^sup>*\<^sup>* demo_registry ?y4" by (meson rtranclp.rtrancl_refl rtranclp.rtrancl_into_rtrancl)
  then show ?thesis by (intro exI [of _ ?y4]) simp
qed

theorem service_registry_unique_witness:
  "\<exists>y :: nat registry_system. 2 \<in> sy_destroyed y \<and> use_service_begin demo_key (sy_registry y) = Some (Some 1)"
proof -
  obtain y where y: "registry_step\<^sup>*\<^sup>* demo_registry y" "(demo_key, 1) \<in> sy_used y" "sy_destroyed y = {2}" using demo_registry_race by blast
  have "key_ok demo_key" by (simp add: demo_key_def init_key_from_type_def key_ok_def)
  with service_registry_unique [OF y(1) [unfolded demo_registry_def]] y(2,3) show ?thesis by blast
qed

end
