(* ===== verification/SocketOption.thy ===== *)
theory SocketOption
  imports SocketProps
begin

text \<open>
  \<open>include/asio/network/socket_option.hpp\<close>, \<open>include/asio/ip/detail/socket_option.hpp\<close>,
  \<open>include/asio/network/io_control.hpp\<close> and the option types of \<open>socket_base.hpp\<close>, \<open>multicast.hpp\<close> and
  \<open>unicast.hpp\<close>: the objects that hold an option's value and lend their memory to \<open>setsockopt\<close> and
  \<open>getsockopt\<close>. An option class is a record of the members the service calls: the level and the name, the
  bytes at \<open>data()\<close> (as many as \<open>size()\<close> says), the object after the kernel has written these bytes, and
  \<open>resize\<close>, whose exception is a value. The parameters of the templates are arguments. Members in
  memory are words; a kernel that reports the bytes it was given is a hypothesis on its two calls.
\<close>

section \<open>Option values\<close>

datatype option_error = Length_error string | Out_of_range string

record 'o option_class =
  oc_level :: "protocol \<Rightarrow> int"
  oc_name :: "protocol \<Rightarrow> int"
  oc_data :: "protocol \<Rightarrow> 'o \<Rightarrow> byte list"
  oc_store :: "protocol \<Rightarrow> byte list \<Rightarrow> 'o \<Rightarrow> 'o"
  oc_resize :: "protocol \<Rightarrow> nat \<Rightarrow> 'o \<Rightarrow> option_error + 'o"

definition flag_int :: "bool \<Rightarrow> 32 word" where "flag_int v = (if v then 1 else 0)"

text \<open>Booleans. A kernel may report one byte only; the three others are then as they were.\<close>

record boolean_option = bool_int :: "32 word"

definition boolean_default :: boolean_option where "boolean_default = \<lparr>bool_int = 0\<rparr>"
definition boolean_new :: "bool \<Rightarrow> boolean_option" where "boolean_new v = \<lparr>bool_int = flag_int v\<rparr>"
definition boolean_assign :: "boolean_option \<Rightarrow> bool \<Rightarrow> boolean_option" where
  "boolean_assign x v = x\<lparr>bool_int := flag_int v\<rparr>"
definition boolean_value :: "boolean_option \<Rightarrow> bool" where "boolean_value x \<longleftrightarrow> bool_int x \<noteq> 0"
definition boolean_not :: "boolean_option \<Rightarrow> bool" where "boolean_not x \<longleftrightarrow> bool_int x = 0"

definition boolean_data :: "protocol \<Rightarrow> boolean_option \<Rightarrow> byte list" where
  "boolean_data p x = bytes_of_u32 (bool_int x)"

definition boolean_store :: "protocol \<Rightarrow> byte list \<Rightarrow> boolean_option \<Rightarrow> boolean_option" where
  "boolean_store p bs x = x\<lparr>bool_int := u32_of_bytes bs\<rparr>"

definition boolean_resize :: "protocol \<Rightarrow> nat \<Rightarrow> boolean_option \<Rightarrow> option_error + boolean_option" where
  "boolean_resize p s x =
     (if s = 1 then Inr (x\<lparr>bool_int := flag_int (bytes_of_u32 (bool_int x) ! 0 \<noteq> 0)\<rparr>)
      else if s = 4 then Inr x
      else Inl (Length_error ''boolean socket option resize''))"

definition boolean_class :: "int \<Rightarrow> int \<Rightarrow> boolean_option option_class" where
  "boolean_class level name =
     \<lparr>oc_level = \<lambda>_. level, oc_name = \<lambda>_. name, oc_data = boolean_data, oc_store = boolean_store, oc_resize = boolean_resize\<rparr>"

text \<open>Integers.\<close>

record integer_option = int_value :: "32 word"

definition integer_default :: integer_option where "integer_default = \<lparr>int_value = 0\<rparr>"
definition integer_new :: "32 word \<Rightarrow> integer_option" where "integer_new v = \<lparr>int_value = v\<rparr>"
definition integer_assign :: "integer_option \<Rightarrow> 32 word \<Rightarrow> integer_option" where
  "integer_assign x v = x\<lparr>int_value := v\<rparr>"
definition integer_value :: "integer_option \<Rightarrow> 32 word" where "integer_value x = int_value x"

definition integer_data :: "protocol \<Rightarrow> integer_option \<Rightarrow> byte list" where
  "integer_data p x = bytes_of_u32 (int_value x)"

definition integer_store :: "protocol \<Rightarrow> byte list \<Rightarrow> integer_option \<Rightarrow> integer_option" where
  "integer_store p bs x = x\<lparr>int_value := u32_of_bytes bs\<rparr>"

definition integer_resize :: "protocol \<Rightarrow> nat \<Rightarrow> integer_option \<Rightarrow> option_error + integer_option" where
  "integer_resize p s x = (if s \<noteq> 4 then Inl (Length_error ''integer socket option resize'') else Inr x)"

definition integer_class :: "int \<Rightarrow> int \<Rightarrow> integer_option option_class" where
  "integer_class level name =
     \<lparr>oc_level = \<lambda>_. level, oc_name = \<lambda>_. name, oc_data = integer_data, oc_store = integer_store, oc_resize = integer_resize\<rparr>"

text \<open>Lingering: a \<open>struct linger\<close> of two integers.\<close>

record linger_option =
  l_onoff :: "32 word"
  l_linger :: "32 word"

definition linger_default :: linger_option where "linger_default = \<lparr>l_onoff = 0, l_linger = 0\<rparr>"
definition linger_set_enabled :: "linger_option \<Rightarrow> bool \<Rightarrow> linger_option" where
  "linger_set_enabled x v = x\<lparr>l_onoff := flag_int v\<rparr>"
definition linger_set_timeout :: "linger_option \<Rightarrow> 32 word \<Rightarrow> linger_option" where
  "linger_set_timeout x v = x\<lparr>l_linger := v\<rparr>"
definition linger_new :: "linger_option \<Rightarrow> bool \<Rightarrow> 32 word \<Rightarrow> linger_option" where
  "linger_new x e t = linger_set_timeout (linger_set_enabled x e) t"
definition linger_enabled :: "linger_option \<Rightarrow> bool" where "linger_enabled x \<longleftrightarrow> l_onoff x \<noteq> 0"
definition linger_timeout :: "linger_option \<Rightarrow> 32 word" where "linger_timeout x = l_linger x"

definition linger_data :: "protocol \<Rightarrow> linger_option \<Rightarrow> byte list" where
  "linger_data p x = bytes_of_u32 (l_onoff x) @ bytes_of_u32 (l_linger x)"

definition linger_store :: "protocol \<Rightarrow> byte list \<Rightarrow> linger_option \<Rightarrow> linger_option" where
  "linger_store p bs x = x\<lparr>l_onoff := u32_of_bytes (take 4 bs), l_linger := u32_of_bytes (drop 4 bs)\<rparr>"

definition linger_resize :: "protocol \<Rightarrow> nat \<Rightarrow> linger_option \<Rightarrow> option_error + linger_option" where
  "linger_resize p s x = (if s \<noteq> 8 then Inl (Length_error ''linger socket option resize'') else Inr x)"

definition linger_class :: "int \<Rightarrow> int \<Rightarrow> linger_option option_class" where
  "linger_class level name =
     \<lparr>oc_level = \<lambda>_. level, oc_name = \<lambda>_. name, oc_data = linger_data, oc_store = linger_store, oc_resize = linger_resize\<rparr>"

section \<open>Options of the IP protocols\<close>

text \<open>Their level and name depend on the socket's protocol.\<close>

definition by_family :: "'b \<Rightarrow> 'b \<Rightarrow> protocol \<Rightarrow> 'b" where
  "by_family v4 v6 p = (if p_family p = AF_INET6 then v6 else v4)"

record loopback_option =
  lb_v4 :: "32 word"
  lb_v6 :: "32 word"

definition loopback_default :: loopback_option where "loopback_default = \<lparr>lb_v4 = 0, lb_v6 = 0\<rparr>"
definition loopback_new :: "bool \<Rightarrow> loopback_option" where
  "loopback_new v = \<lparr>lb_v4 = flag_int v, lb_v6 = flag_int v\<rparr>"
definition loopback_assign :: "loopback_option \<Rightarrow> bool \<Rightarrow> loopback_option" where
  "loopback_assign x v = x\<lparr>lb_v4 := flag_int v, lb_v6 := flag_int v\<rparr>"
definition loopback_value :: "loopback_option \<Rightarrow> bool" where "loopback_value x \<longleftrightarrow> lb_v4 x \<noteq> 0"
definition loopback_not :: "loopback_option \<Rightarrow> bool" where "loopback_not x \<longleftrightarrow> lb_v4 x = 0"

definition loopback_data :: "protocol \<Rightarrow> loopback_option \<Rightarrow> byte list" where
  "loopback_data p x = (if p_family p = AF_INET6 then bytes_of_u32 (lb_v6 x) else bytes_of_u32 (lb_v4 x))"

definition loopback_store :: "protocol \<Rightarrow> byte list \<Rightarrow> loopback_option \<Rightarrow> loopback_option" where
  "loopback_store p bs x =
     (if p_family p = AF_INET6 then x\<lparr>lb_v6 := u32_of_bytes bs\<rparr> else x\<lparr>lb_v4 := u32_of_bytes bs\<rparr>)"

definition loopback_resize :: "protocol \<Rightarrow> nat \<Rightarrow> loopback_option \<Rightarrow> option_error + loopback_option" where
  "loopback_resize p s x =
     (if p_family p = AF_INET6 then
        (if s \<noteq> 4 then Inl (Length_error ''multicast_enable_loopback socket option resize'')
         else Inr (x\<lparr>lb_v4 := flag_int (lb_v6 x \<noteq> 0)\<rparr>))
      else
        (if s \<noteq> 4 then Inl (Length_error ''multicast_enable_loopback socket option resize'')
         else Inr (x\<lparr>lb_v6 := flag_int (lb_v4 x \<noteq> 0)\<rparr>)))"

definition loopback_class :: "int \<Rightarrow> int \<Rightarrow> int \<Rightarrow> int \<Rightarrow> loopback_option option_class" where
  "loopback_class level4 name4 level6 name6 =
     \<lparr>oc_level = by_family level4 level6, oc_name = by_family name4 name6, oc_data = loopback_data,
      oc_store = loopback_store, oc_resize = loopback_resize\<rparr>"

text \<open>The hop limit of unicast packets.\<close>

record unicast_hops = uh_value :: "32 word"

definition unicast_hops_default :: unicast_hops where "unicast_hops_default = \<lparr>uh_value = 0\<rparr>"
definition unicast_hops_new :: "32 word \<Rightarrow> unicast_hops" where "unicast_hops_new v = \<lparr>uh_value = v\<rparr>"
definition unicast_hops_assign :: "unicast_hops \<Rightarrow> 32 word \<Rightarrow> unicast_hops" where
  "unicast_hops_assign x v = x\<lparr>uh_value := v\<rparr>"
definition unicast_hops_value :: "unicast_hops \<Rightarrow> 32 word" where "unicast_hops_value x = uh_value x"

definition unicast_hops_data :: "protocol \<Rightarrow> unicast_hops \<Rightarrow> byte list" where
  "unicast_hops_data p x = bytes_of_u32 (uh_value x)"

definition unicast_hops_store :: "protocol \<Rightarrow> byte list \<Rightarrow> unicast_hops \<Rightarrow> unicast_hops" where
  "unicast_hops_store p bs x = x\<lparr>uh_value := u32_of_bytes bs\<rparr>"

definition unicast_hops_resize :: "protocol \<Rightarrow> nat \<Rightarrow> unicast_hops \<Rightarrow> option_error + unicast_hops" where
  "unicast_hops_resize p s x = (if s \<noteq> 4 then Inl (Length_error ''unicast hops socket option resize'') else Inr x)"

definition unicast_hops_class :: "int \<Rightarrow> int \<Rightarrow> int \<Rightarrow> int \<Rightarrow> unicast_hops option_class" where
  "unicast_hops_class level4 name4 level6 name6 =
     \<lparr>oc_level = by_family level4 level6, oc_name = by_family name4 name6, oc_data = unicast_hops_data,
      oc_store = unicast_hops_store, oc_resize = unicast_hops_resize\<rparr>"

text \<open>The hop limit of multicast packets, one byte for IPv4 and an integer for IPv6.\<close>

record multicast_hops =
  mh_v4 :: "8 word"
  mh_v6 :: "32 word"

definition multicast_hops_default :: multicast_hops where "multicast_hops_default = \<lparr>mh_v4 = 0, mh_v6 = 0\<rparr>"

definition multicast_hops_new :: "32 word \<Rightarrow> option_error + multicast_hops" where
  "multicast_hops_new v =
     (if v <s 0 \<or> 255 <s v then Inl (Out_of_range ''multicast hops value out of range'')
      else Inr \<lparr>mh_v4 = ucast v, mh_v6 = v\<rparr>)"

definition multicast_hops_assign :: "multicast_hops \<Rightarrow> 32 word \<Rightarrow> option_error + multicast_hops" where
  "multicast_hops_assign x v =
     (if v <s 0 \<or> 255 <s v then Inl (Out_of_range ''multicast hops value out of range'')
      else Inr (x\<lparr>mh_v4 := ucast v, mh_v6 := v\<rparr>))"

definition multicast_hops_value :: "multicast_hops \<Rightarrow> 32 word" where "multicast_hops_value x = mh_v6 x"

definition multicast_hops_data :: "protocol \<Rightarrow> multicast_hops \<Rightarrow> byte list" where
  "multicast_hops_data p x = (if p_family p = AF_INET6 then bytes_of_u32 (mh_v6 x) else [mh_v4 x])"

definition multicast_hops_store :: "protocol \<Rightarrow> byte list \<Rightarrow> multicast_hops \<Rightarrow> multicast_hops" where
  "multicast_hops_store p bs x =
     (if p_family p = AF_INET6 then x\<lparr>mh_v6 := u32_of_bytes bs\<rparr> else x\<lparr>mh_v4 := bs ! 0\<rparr>)"

definition multicast_hops_resize :: "protocol \<Rightarrow> nat \<Rightarrow> multicast_hops \<Rightarrow> option_error + multicast_hops" where
  "multicast_hops_resize p s x =
     (if p_family p = AF_INET6 then
        (if s \<noteq> 4 then Inl (Length_error ''multicast hops socket option resize'')
         else if mh_v6 x <s 0 then Inr (x\<lparr>mh_v4 := 0\<rparr>)
         else if 255 <s mh_v6 x then Inr (x\<lparr>mh_v4 := 255\<rparr>)
         else Inr (x\<lparr>mh_v4 := ucast (mh_v6 x)\<rparr>))
      else
        (if s \<noteq> 1 then Inl (Length_error ''multicast hops socket option resize'')
         else Inr (x\<lparr>mh_v6 := ucast (mh_v4 x)\<rparr>)))"

definition multicast_hops_class :: "int \<Rightarrow> int \<Rightarrow> int \<Rightarrow> int \<Rightarrow> multicast_hops option_class" where
  "multicast_hops_class level4 name4 level6 name6 =
     \<lparr>oc_level = by_family level4 level6, oc_name = by_family name4 name6, oc_data = multicast_hops_data,
      oc_store = multicast_hops_store, oc_resize = multicast_hops_resize\<rparr>"

text \<open>Joining and leaving a group, and the interface of outgoing packets: options that are only set. The
  members are in network byte order, as the structures of the system have them.\<close>

record multicast_request =
  imr_multiaddr :: "32 word"
  imr_interface :: "32 word"
  ipv6mr_multiaddr :: "byte list"
  ipv6mr_interface :: "32 word"

definition multicast_request_default :: multicast_request where
  "multicast_request_default =
     \<lparr>imr_multiaddr = 0, imr_interface = 0, ipv6mr_multiaddr = replicate 16 0, ipv6mr_interface = 0\<rparr>"

definition multicast_request_of_v4 :: "address_v4 \<Rightarrow> address_v4 \<Rightarrow> multicast_request" where
  "multicast_request_of_v4 multicast_address network_interface =
     multicast_request_default\<lparr>imr_multiaddr := host_to_network_long (v4_to_uint multicast_address),
       imr_interface := host_to_network_long (v4_to_uint network_interface)\<rparr>"

definition multicast_request_of_v6 :: "address_v6 \<Rightarrow> 64 word \<Rightarrow> multicast_request" where
  "multicast_request_of_v6 multicast_address network_interface =
     multicast_request_default\<lparr>ipv6mr_multiaddr := v6_to_bytes multicast_address,
       ipv6mr_interface := ucast (if network_interface \<noteq> 0 then network_interface else v6_scope_id multicast_address)\<rparr>"

definition multicast_request_of_address :: "address \<Rightarrow> multicast_request" where
  "multicast_request_of_address multicast_address =
     (case a_type multicast_address of
        Ipv6 \<Rightarrow> multicast_request_default\<lparr>ipv6mr_multiaddr := v6_to_bytes (a_v6 multicast_address),
          ipv6mr_interface := ucast (v6_scope_id (a_v6 multicast_address))\<rparr>
      | Ipv4 \<Rightarrow> multicast_request_default\<lparr>imr_multiaddr := host_to_network_long (v4_to_uint (a_v4 multicast_address)),
          imr_interface := host_to_network_long (v4_to_uint v4_any)\<rparr>)"

definition multicast_request_data :: "protocol \<Rightarrow> multicast_request \<Rightarrow> byte list" where
  "multicast_request_data p x =
     (if p_family p = AF_INET6 then ipv6mr_multiaddr x @ bytes_of_u32 (ipv6mr_interface x)
      else bytes_of_u32 (imr_multiaddr x) @ bytes_of_u32 (imr_interface x))"

record network_interface =
  ni_v4 :: "32 word"
  ni_v6 :: "32 word"

definition network_interface_default :: network_interface where
  "network_interface_default = \<lparr>ni_v4 = host_to_network_long (v4_to_uint v4_any), ni_v6 = 0\<rparr>"
definition network_interface_of_v4 :: "address_v4 \<Rightarrow> network_interface" where
  "network_interface_of_v4 a = \<lparr>ni_v4 = host_to_network_long (v4_to_uint a), ni_v6 = 0\<rparr>"
definition network_interface_of_v6 :: "32 word \<Rightarrow> network_interface" where
  "network_interface_of_v6 i = \<lparr>ni_v4 = host_to_network_long (v4_to_uint v4_any), ni_v6 = i\<rparr>"

definition network_interface_data :: "protocol \<Rightarrow> network_interface \<Rightarrow> byte list" where
  "network_interface_data p x = (if p_family p = AF_INET6 then bytes_of_u32 (ni_v6 x) else bytes_of_u32 (ni_v4 x))"

text \<open>The command that asks for the number of readable bytes.\<close>

record bytes_readable = br_value :: "32 word"

definition bytes_readable_default :: bytes_readable where "bytes_readable_default = \<lparr>br_value = 0\<rparr>"
definition bytes_readable_new :: "64 word \<Rightarrow> bytes_readable" where "bytes_readable_new v = \<lparr>br_value = ucast v\<rparr>"
definition bytes_readable_name :: "bytes_readable \<Rightarrow> int" where "bytes_readable_name x = FIONREAD"
definition bytes_readable_set :: "bytes_readable \<Rightarrow> 64 word \<Rightarrow> bytes_readable" where
  "bytes_readable_set x v = x\<lparr>br_value := ucast v\<rparr>"
definition bytes_readable_get :: "bytes_readable \<Rightarrow> 64 word" where "bytes_readable_get x = scast (br_value x)"

section \<open>Setting and getting\<close>

definition set_option ::
  "'o option_class \<Rightarrow> 'w kernel \<Rightarrow> ('d, 'z) socket_impl_scheme \<Rightarrow> 'o \<Rightarrow> 'w \<Rightarrow> 'w \<times> ('d, 'z) socket_impl_scheme \<times> error_code" where
  "set_option C k impl x w =
     service_set_option k impl (oc_level C (si_protocol impl)) (oc_name C (si_protocol impl)) (oc_data C (si_protocol impl) x) w"

text \<open>\<open>getsockopt\<close> writes into the option itself; without an error the option is told how many bytes.\<close>

definition get_option ::
  "'o option_class \<Rightarrow> 'w kernel \<Rightarrow> ('d, 'z) socket_impl_scheme \<Rightarrow> 'o \<Rightarrow> 'w \<Rightarrow> 'w \<times> (option_error + 'o) \<times> error_code" where
  "get_option C k impl x w =
     (let p = si_protocol impl in
      case service_get_option k impl (oc_level C p) (oc_name C p) (oc_data C p x) w of
        (w1, dat, len, ec) \<Rightarrow>
          let x1 = oc_store C p dat x in
          (w1, if \<not> ec_failed ec then oc_resize C p len x1 else Inr x1, ec))"

text \<open>What a kernel reports for an option that was set: the same bytes, but twice the number for the sizes of
  the buffers. It keeps an option when setting it succeeds and the next call to get it reports that.\<close>

definition buffer_size_option :: "int \<Rightarrow> int \<Rightarrow> byte list \<Rightarrow> bool" where
  "buffer_size_option level name dat \<longleftrightarrow> level = SOL_SOCKET \<and> (name = SO_SNDBUF \<or> name = SO_RCVBUF) \<and> length dat = 4"

definition kernel_reports :: "int \<Rightarrow> int \<Rightarrow> byte list \<Rightarrow> byte list" where
  "kernel_reports level name dat =
     (if buffer_size_option level name dat then bytes_of_u32 (2 * u32_of_bytes dat) else dat)"

definition option_kept :: "'w kernel \<Rightarrow> sock \<Rightarrow> int \<Rightarrow> int \<Rightarrow> byte list \<Rightarrow> 'w \<Rightarrow> bool" where
  "option_kept k s level name dat w \<longleftrightarrow>
     (\<exists>w1 e. k_setsockopt k s level name dat (length dat) w = (w1, 0, e) \<and>
       (\<forall>d. length d = length dat \<longrightarrow>
         (\<exists>w2 e2. k_getsockopt k s level name d (length dat) w1 = (w2, 0, e2, kernel_reports level name dat, length dat))))"

text \<open>An option of the system, and for a buffer size one whose double is an \<open>int\<close>.\<close>

definition system_option :: "int \<Rightarrow> int \<Rightarrow> byte list \<Rightarrow> bool" where
  "system_option level name dat \<longleftrightarrow> level \<noteq> custom_socket_option_level \<and>
     (buffer_size_option level name dat \<longrightarrow> - (2 ^ 30) \<le> sint (u32_of_bytes dat) \<and> sint (u32_of_bytes dat) < 2 ^ 30)"

text \<open>Setting an option from \<open>x\<close> succeeds, and getting it next, into any object, gives the value \<open>v\<close>.\<close>

definition reads_back :: "'o option_class \<Rightarrow> ('o \<Rightarrow> 'v) \<Rightarrow> 'w kernel \<Rightarrow> ('d, 'z) socket_impl_scheme \<Rightarrow> 'o \<Rightarrow> 'v \<Rightarrow> 'w \<Rightarrow> bool" where
  "reads_back C val k impl x v w \<longleftrightarrow>
     (\<exists>w1 impl1. set_option C k impl x w = (w1, impl1, no_error) \<and>
       (\<forall>y. \<exists>w2 y1. get_option C k impl1 y w1 = (w2, Inr y1, no_error) \<and> val y1 = v))"

definition kept_by :: "'w kernel \<Rightarrow> 'o option_class \<Rightarrow> ('d, 'z) socket_impl_scheme \<Rightarrow> 'o \<Rightarrow> 'w \<Rightarrow> bool" where
  "kept_by k C impl x w \<longleftrightarrow>
     (let p = si_protocol impl; level = oc_level C p; name = oc_name C p; dat = oc_data C p x
      in system_option level name dat \<and> option_kept k (si_socket impl) level name dat w)"

subsection \<open>Integers in bytes\<close>

lemma byte_of_int:
  assumes "n \<le> 24"
  shows "(word_of_int (drop_bit n v) :: byte) = ucast (drop_bit n (word_of_int v :: 32 word))"
  using assms by (auto simp: bit_simps intro!: bit_word_eqI)

lemma put_int_word: "put_int v = bytes_of_u32 (word_of_int v)"
proof -
  have "v div 256 ^ 0 = drop_bit 0 v" "v div 256 ^ 1 = drop_bit 8 v" "v div 256 ^ 2 = drop_bit 16 v" "v div 256 ^ 3 = drop_bit 24 v"
    by (simp_all add: drop_bit_eq_div)
  then have "put_int v = map (\<lambda>n. word_of_int (drop_bit n v)) [0, 8, 16, 24]"
    by (simp only: put_int_def list.map)
  also have "\<dots> = map (\<lambda>n. ucast (drop_bit n (word_of_int v :: 32 word))) [0, 8, 16, 24]"
    by (rule map_cong [OF refl], rule byte_of_int) auto
  finally show ?thesis by (simp add: bytes_of_u32_def)
qed

lemma byte_shift:
  fixes b :: byte and v :: int
  shows "drop_bit 8 (uint b + 256 * v) = v" "(word_of_int (uint b + 256 * v) :: byte) = b"
proof -
  have "0 \<le> uint b" "uint b < 256" using uint_lt2p [of b] by simp_all
  then show "drop_bit 8 (uint b + 256 * v) = v" by (simp add: drop_bit_eq_div)
  have "(word_of_int (uint b + 256 * v) :: byte) = word_of_int (uint b) + word_of_int 256 * word_of_int v"
    by (simp only: of_int_add of_int_mult)
  moreover have "(word_of_int 256 :: byte) = 0" by simp
  ultimately show "(word_of_int (uint b + 256 * v) :: byte) = b" by (simp only: mult_zero_left) simp
qed

lemma get_int_word:
  assumes "length bs = 4"
  shows "get_int bs = sint (u32_of_bytes bs)"
proof -
  obtain a b c d where bs: "bs = [a, b, c, d]" using list4 [OF assms] by blast
  define v0 where "v0 = uint d + 256 * 0"
  define v1 where "v1 = uint c + 256 * v0"
  define v2 where "v2 = uint b + 256 * v1"
  define v3 where "v3 = uint a + 256 * v2"
  have "drop_bit 8 v3 = v2" "drop_bit 8 v2 = v1" "drop_bit 8 v1 = v0"
    by (simp_all only: v3_def v2_def v1_def byte_shift)
  moreover have "drop_bit 16 v3 = drop_bit 8 (drop_bit 8 v3)" "drop_bit 24 v3 = drop_bit 8 (drop_bit 8 (drop_bit 8 v3))"
    by (simp_all add: drop_bit_drop_bit)
  ultimately have "drop_bit 8 v3 = v2" "drop_bit 16 v3 = v1" "drop_bit 24 v3 = v0" by simp_all
  then have "bytes_of_u32 (word_of_int v3) = [word_of_int v3, word_of_int v2, word_of_int v1, word_of_int v0]"
    using byte_of_int [of 0 v3] by (simp add: bytes_of_u32_def byte_of_int [symmetric])
  also have "\<dots> = bs"
    by (simp only: bs v0_def v1_def v2_def v3_def byte_shift)
  finally have "u32_of_bytes bs = word_of_int v3" by (metis u32_of_bytes_bytes)
  moreover have "get_int bs = signed_take_bit 31 v3"
    by (simp add: get_int_def bs v0_def v1_def v2_def v3_def)
  ultimately show ?thesis by (simp add: signed_of_int)
qed

lemma double_half:
  fixes v :: "32 word"
  assumes "- (2 ^ 30) \<le> sint v" "sint v < 2 ^ 30"
  shows "sint (2 * v) sdiv 2 = sint v"
proof -
  have "sint (2 * v) = signed_take_bit 31 (2 * sint v)"
    by (simp add: signed_take_bit_mult sint_word_ariths)
  also have "\<dots> = 2 * sint v"
    using assms by (simp add: signed_take_bit_int_eq_self)
  finally have "sint (2 * v) = 2 * sint v" .
  then show ?thesis by (cases "sint v" "0 :: int" rule: linorder_cases) (simp_all add: signed_divide_int_def sgn_if)
qed

lemma get_put [simp]: "get_int (bytes_of_u32 v) = sint v" "put_int (sint v) = bytes_of_u32 v"
  by (simp_all add: get_int_word put_int_word u32_of_bytes_bytes)

section \<open>Reading back what was set\<close>

text \<open>The contract of an option class: the bytes are as many for every object, and an object with the bytes of
  \<open>x\<close> in its memory, once told their number, has the value of \<open>x\<close>, whatever it held before.\<close>

locale gettable_option =
  fixes C :: "'o option_class" and ok :: "'o \<Rightarrow> bool" and val :: "'o \<Rightarrow> 'v"
  assumes data_length: "length (oc_data C p x) = length (oc_data C p y)"
    and reread: "ok x \<Longrightarrow> \<exists>y1. oc_resize C p (length (oc_data C p x)) (oc_store C p (oc_data C p x) y) = Inr y1 \<and> val y1 = val x"
begin

lemma set_reads_back:
  assumes "is_open impl" and "ok x" and "kept_by k C impl x w"
  shows "reads_back C val k impl x (val x) w"
proof -
  define p level name dat where "p = si_protocol impl" and "level = oc_level C p" and "name = oc_name C p" and "dat = oc_data C p x"
  note defs = p_def [symmetric] level_def [symmetric] name_def [symmetric] dat_def [symmetric]
  from assms(3) have sys: "level \<noteq> custom_socket_option_level"
      "buffer_size_option level name dat \<longrightarrow> - (2 ^ 30) \<le> sint (u32_of_bytes dat) \<and> sint (u32_of_bytes dat) < 2 ^ 30"
    and "option_kept k (si_socket impl) level name dat w"
    by (simp_all add: kept_by_def Let_def system_option_def defs)
  then obtain w1 e where s: "k_setsockopt k (si_socket impl) level name dat (length dat) w = (w1, 0, e)"
    and g: "\<And>d. length d = length dat \<Longrightarrow>
      \<exists>w2 e2. k_getsockopt k (si_socket impl) level name d (length dat) w1 = (w2, 0, e2, kernel_reports level name dat, length dat)"
    unfolding option_kept_def by blast
  obtain impl1 where set1: "set_option C k impl x w = (w1, impl1, no_error)" and same: "si_socket impl1 = si_socket impl" "si_protocol impl1 = p"
    using assms(1) sys(1) s
    by (simp add: set_option_def service_set_option_def sock_setsockopt_def zero_ok_def is_open_def defs)
  have "\<exists>w2 y1. get_option C k impl1 y w1 = (w2, Inr y1, no_error) \<and> val y1 = val x" for y
  proof -
    have len: "length (oc_data C p y) = length dat" using data_length [of p y x] by (simp add: dat_def)
    from g [OF len] obtain w2 e2 where
      r: "k_getsockopt k (si_socket impl) level name (oc_data C p y) (length dat) w1 = (w2, 0, e2, kernel_reports level name dat, length dat)"
      by blast
    obtain y1 where y1: "oc_resize C p (length dat) (oc_store C p dat y) = Inr y1" "val y1 = val x"
      using reread [OF assms(2), of p y] by (auto simp: dat_def)
    have "service_get_option k impl1 level name (oc_data C p y) w1 = (w2, dat, length dat, no_error)"
      using assms(1) sys r by (cases "buffer_size_option level name dat")
        (auto simp: service_get_option_def sock_getsockopt_def is_open_def same len kernel_reports_def buffer_size_option_def double_half
          bytes_of_u32_of_bytes)
    then have "get_option C k impl1 y w1 = (w2, Inr y1, no_error)"
      using y1 by (simp add: get_option_def same defs)
    with y1 show ?thesis by blast
  qed
  with set1 show ?thesis unfolding reads_back_def by blast
qed

end

interpretation boolean_options: gettable_option "boolean_class level name" "\<lambda>_. True" boolean_value for level name
  by unfold_locales
    (auto simp: boolean_class_def boolean_data_def boolean_store_def boolean_resize_def boolean_value_def u32_of_bytes_bytes)

interpretation integer_options: gettable_option "integer_class level name" "\<lambda>_. True" integer_value for level name
  by unfold_locales
    (auto simp: integer_class_def integer_data_def integer_store_def integer_resize_def integer_value_def u32_of_bytes_bytes)

interpretation linger_options: gettable_option "linger_class level name" "\<lambda>_. True" "\<lambda>x. (linger_enabled x, linger_timeout x)" for level name
  by unfold_locales
    (auto simp: linger_class_def linger_data_def linger_store_def linger_resize_def linger_enabled_def linger_timeout_def u32_of_bytes_bytes)

interpretation unicast_options: gettable_option "unicast_hops_class level4 name4 level6 name6" "\<lambda>_. True" unicast_hops_value
  for level4 name4 level6 name6
  by unfold_locales
    (auto simp: unicast_hops_class_def unicast_hops_data_def unicast_hops_store_def unicast_hops_resize_def unicast_hops_value_def
      u32_of_bytes_bytes)

text \<open>The two members of the options for both families agree in an object that a constructor or \<open>resize\<close> left.\<close>

definition loopback_ok :: "loopback_option \<Rightarrow> bool" where "loopback_ok x \<longleftrightarrow> (lb_v4 x \<noteq> 0 \<longleftrightarrow> lb_v6 x \<noteq> 0)"

definition multicast_hops_ok :: "multicast_hops \<Rightarrow> bool" where "multicast_hops_ok x \<longleftrightarrow> mh_v6 x = ucast (mh_v4 x)"

interpretation loopback_options: gettable_option "loopback_class level4 name4 level6 name6" loopback_ok loopback_value
  for level4 name4 level6 name6
  by unfold_locales
    (auto simp: loopback_class_def loopback_data_def loopback_store_def loopback_resize_def loopback_value_def loopback_ok_def
      flag_int_def u32_of_bytes_bytes)

interpretation multicast_options: gettable_option "multicast_hops_class level4 name4 level6 name6" multicast_hops_ok multicast_hops_value
  for level4 name4 level6 name6
  by unfold_locales
    (auto simp: multicast_hops_class_def multicast_hops_data_def multicast_hops_store_def multicast_hops_resize_def
      multicast_hops_value_def multicast_hops_ok_def u32_of_bytes_bytes)

lemma loopback_new_ok [simp]: "loopback_ok (loopback_new v)"
  by (simp add: loopback_ok_def loopback_new_def)

lemma range_byte:
  fixes v :: "32 word"
  assumes "0 \<le> sint v" "sint v \<le> 255"
  shows "ucast (ucast v :: byte) = v"
proof -
  have "v = word_of_int (sint v)" by simp
  moreover have "uint v = sint v"
    using assms by (simp add: uint_sint signed_take_bit_int_eq_self take_bit_int_eq_self)
  ultimately have "uint v < 2 ^ 8" using assms by simp
  then show ?thesis
    by (simp add: unsigned_ucast_eq unsigned_take_bit_eq take_bit_int_eq_self word_uint_eq_iff)
qed

lemma multicast_hops_new_ok:
  "multicast_hops_new v = (if 0 \<le> sint v \<and> sint v \<le> 255 then Inr \<lparr>mh_v4 = ucast v, mh_v6 = v\<rparr>
     else Inl (Out_of_range ''multicast hops value out of range''))"
  "multicast_hops_new v = Inr x \<Longrightarrow> multicast_hops_ok x \<and> multicast_hops_value x = v"
  using range_byte [of v]
  by (auto simp: multicast_hops_new_def multicast_hops_ok_def multicast_hops_value_def word_sless_alt not_less split: if_splits)

lemma multicast_hops_resize_ok:
  "multicast_hops_resize p s x = Inr y \<Longrightarrow> p_family p \<noteq> AF_INET6 \<or> (0 \<le> sint (mh_v6 x) \<and> sint (mh_v6 x) \<le> 255) \<Longrightarrow> multicast_hops_ok y"
  using range_byte [of "mh_v6 x"]
  by (auto simp: multicast_hops_resize_def multicast_hops_ok_def word_sless_alt split: if_splits)

text \<open>A kernel that reports a boolean in one byte.\<close>

lemma boolean_one_byte:
  "boolean_resize p 1 x = Inr y \<Longrightarrow> boolean_value y \<longleftrightarrow> hd (boolean_data p x) \<noteq> 0"
  by (auto simp: boolean_resize_def boolean_value_def boolean_data_def flag_int_def bytes_of_u32_def split: if_splits)

text \<open>The option that the socket's state keeps.\<close>

lemma bit_set_clear: "(st OR b) AND b = (b :: 8 word)" "(st AND NOT b) AND b = 0"
  by (auto intro!: bit_word_eqI simp: bit_simps)

lemma connection_aborted_reads_back:
  assumes "is_open impl"
  shows "reads_back (boolean_class custom_socket_option_level enable_connection_aborted_option) boolean_value k impl (boolean_new v) v w"
proof -
  let ?C = "boolean_class custom_socket_option_level enable_connection_aborted_option"
  define st where "st = (if v then si_state impl OR enable_connection_aborted else si_state impl AND NOT enable_connection_aborted)"
  have bit: "has st enable_connection_aborted = v"
    by (cases v) (simp_all only: st_def bit_set_clear if_True if_False, simp_all add: enable_connection_aborted_def)
  have "set_option ?C k impl (boolean_new v) w = (w, impl\<lparr>si_state := st\<rparr>, no_error)"
    using assms by (simp add: set_option_def service_set_option_def sock_setsockopt_def boolean_class_def boolean_data_def boolean_new_def
        flag_int_def is_open_def st_def always_fail_option_def enable_connection_aborted_option_def)
  moreover have "get_option ?C k (impl\<lparr>si_state := st\<rparr>) y w = (w, Inr (boolean_new v), no_error)" for y
    using assms bit by (simp add: get_option_def service_get_option_def sock_getsockopt_def boolean_class_def boolean_data_def boolean_new_def
        flag_int_def is_open_def always_fail_option_def enable_connection_aborted_option_def boolean_store_def boolean_resize_def
        put_int_word u32_of_bytes_bytes)
  moreover have "boolean_value (boolean_new v) = v" by (simp add: boolean_value_def boolean_new_def flag_int_def)
  ultimately show ?thesis unfolding reads_back_def by blast
qed

text \<open>What the kernel is given to join a group.\<close>

lemma multicast_request_bytes:
  "p_family p \<noteq> AF_INET6 \<Longrightarrow> multicast_request_data p (multicast_request_of_v4 g i) = v4_to_bytes g @ v4_to_bytes i"
  "p_family p \<noteq> AF_INET6 \<Longrightarrow> multicast_request_data p (multicast_request_of_address (address_of_v4 g)) = v4_to_bytes g @ [0, 0, 0, 0]"
  "p_family p = AF_INET6 \<Longrightarrow> multicast_request_data p (multicast_request_of_address (address_of_v6 h)) =
     v6_to_bytes h @ bytes_of_u32 (ucast (v6_scope_id h))"
  "multicast_request_of_address (address_of_v6 h) = multicast_request_of_v6 h 0"
  by (simp_all add: multicast_request_data_def multicast_request_of_v4_def multicast_request_of_address_def address_of_v4_def
      address_of_v6_def v4_to_uint_def v4_to_bytes_def v4_any_def v4_default_def bytes_of_u32_def multicast_request_of_v6_def)

lemma new_values:
  "boolean_value (boolean_new b) = b" "integer_value (integer_new v) = v" "loopback_value (loopback_new b) = b"
  "linger_enabled (linger_new l b v) = b" "linger_timeout (linger_new l b v) = v" "unicast_hops_value (unicast_hops_new v) = v"
  by (simp_all add: boolean_value_def boolean_new_def flag_int_def integer_value_def integer_new_def loopback_value_def loopback_new_def
      linger_enabled_def linger_timeout_def linger_new_def linger_set_enabled_def linger_set_timeout_def unicast_hops_value_def
      unicast_hops_new_def)

section \<open>The property\<close>

text \<open>C40. An option that was set is read back with the same value, into whatever object, for booleans, integers,
  lingering, the loopback of multicast packets and the hop limits, on sockets of both families: when the
  kernel keeps the option, and although Linux reports twice the size of a socket's buffers. Reporting aborted
  connections needs no kernel: it is a bit of the socket's state.\<close>

theorem option_roundtrip:
  assumes "is_open impl"
  shows "(kept_by k (boolean_class level name) impl (boolean_new b) w \<longrightarrow>
      reads_back (boolean_class level name) boolean_value k impl (boolean_new b) b w) \<and>
    (kept_by k (integer_class level name) impl (integer_new v) w \<longrightarrow>
      reads_back (integer_class level name) integer_value k impl (integer_new v) v w) \<and>
    (kept_by k (linger_class level name) impl (linger_new l b v) w \<longrightarrow>
      reads_back (linger_class level name) (\<lambda>x. (linger_enabled x, linger_timeout x)) k impl (linger_new l b v) (b, v) w) \<and>
    (kept_by k (unicast_hops_class level4 name4 level6 name6) impl (unicast_hops_new v) w \<longrightarrow>
      reads_back (unicast_hops_class level4 name4 level6 name6) unicast_hops_value k impl (unicast_hops_new v) v w) \<and>
    (kept_by k (loopback_class level4 name4 level6 name6) impl (loopback_new b) w \<longrightarrow>
      reads_back (loopback_class level4 name4 level6 name6) loopback_value k impl (loopback_new b) b w) \<and>
    (multicast_hops_new v = Inr h \<and> kept_by k (multicast_hops_class level4 name4 level6 name6) impl h w \<longrightarrow>
      reads_back (multicast_hops_class level4 name4 level6 name6) multicast_hops_value k impl h v w) \<and>
    reads_back (boolean_class custom_socket_option_level enable_connection_aborted_option) boolean_value k impl (boolean_new b) b w"
proof (intro conjI impI; (elim conjE)?)
  show "reads_back (boolean_class custom_socket_option_level enable_connection_aborted_option) boolean_value k impl (boolean_new b) b w"
    by (rule connection_aborted_reads_back [OF assms])
  show "reads_back (multicast_hops_class level4 name4 level6 name6) multicast_hops_value k impl h v w"
    if "multicast_hops_new v = Inr h" "kept_by k (multicast_hops_class level4 name4 level6 name6) impl h w"
    using multicast_options.set_reads_back [OF assms _ that(2)] multicast_hops_new_ok(2) [OF that(1)] by simp
qed (use boolean_options.set_reads_back [OF assms TrueI, where x = "boolean_new b"] integer_options.set_reads_back [OF assms TrueI, where x = "integer_new v"]
    linger_options.set_reads_back [OF assms TrueI, where x = "linger_new l b v"] unicast_options.set_reads_back [OF assms TrueI, where x = "unicast_hops_new v"]
    loopback_options.set_reads_back [OF assms loopback_new_ok, where v1 = b]
    in \<open>simp_all add: new_values\<close>)

text \<open>A kernel that remembers the bytes of every option.\<close>

definition memory_kernel :: "(int \<times> int \<Rightarrow> byte list) kernel" where
  "memory_kernel =
     \<lparr>k_accept = (\<lambda>s addr len w. (w, - 1, 22, 0)), k_bind = (\<lambda>s addr len w. (w, 0, 0)), k_close = (\<lambda>s w. (w, 0, 0)),
      k_ioctl = (\<lambda>s cmd arg w. (w, 0, 0, arg)), k_shutdown = (\<lambda>s what w. (w, 0, 0)), k_connect = (\<lambda>s addr len w. (w, 0, 0)),
      k_socketpair = (\<lambda>af ty protocol w. (w, - 1, 22, (0, 0))), k_listen = (\<lambda>s backlog w. (w, 0, 0)),
      k_recvmsg = (\<lambda>s bufs flags name len w. (w, 0, 0, 0, 0)), k_sendmsg = (\<lambda>s bufs flags name len w. (w, 0, 0)),
      k_socket = (\<lambda>af ty protocol w. (w, 3, 0)),
      k_setsockopt = (\<lambda>s level name dat len w. (w((level, name) := dat), 0, 0)),
      k_getsockopt = (\<lambda>s level name dat len w. (w, 0, 0, kernel_reports level name (w (level, name)), len)),
      k_getpeername = (\<lambda>s addr len w. (w, 0, 0, len)), k_getsockname = (\<lambda>s addr len w. (w, 0, 0, len)),
      k_poll = (\<lambda>s events msec w. (w, 1, 0))\<rparr>"

lemma memory_kernel_keeps: "option_kept memory_kernel s level name dat w"
  by (simp add: option_kept_def memory_kernel_def)

theorem option_roundtrip_witness:
  "reads_back (integer_class SOL_SOCKET SO_SNDBUF) integer_value memory_kernel demo_socket (integer_new 8191) 8191 (\<lambda>_. []) \<and>
   reads_back (multicast_hops_class 0 33 41 18) multicast_hops_value memory_kernel demo_socket \<lparr>mh_v4 = 200, mh_v6 = 200\<rparr> 200 (\<lambda>_. [])"
proof -
  note R = option_roundtrip [OF demo_socket_open(1), of memory_kernel]
  have "kept_by memory_kernel (integer_class SOL_SOCKET SO_SNDBUF) demo_socket (integer_new 8191) (\<lambda>_. [])"
    by (simp add: kept_by_def memory_kernel_keeps system_option_def integer_class_def integer_data_def integer_new_def
        u32_of_bytes_bytes SOL_SOCKET_def custom_socket_option_level_def)
  moreover have "multicast_hops_new 200 = Inr \<lparr>mh_v4 = 200, mh_v6 = 200\<rparr>"
    by (simp add: multicast_hops_new_ok)
  moreover have "kept_by memory_kernel (multicast_hops_class 0 33 41 18) demo_socket \<lparr>mh_v4 = 200, mh_v6 = 200\<rparr> (\<lambda>_. [])"
    by (simp add: kept_by_def memory_kernel_keeps system_option_def multicast_hops_class_def by_family_def demo_socket_def AF_INET6_def
        custom_socket_option_level_def buffer_size_option_def SOL_SOCKET_def)
  ultimately show ?thesis
    using R [of SOL_SOCKET SO_SNDBUF True "\<lambda>_. []" 8191] R [of 0 0 True "\<lambda>_. []" 200 _ 0 33 41 18 "\<lparr>mh_v4 = 200, mh_v6 = 200\<rparr>"]
    by blast
qed

end
