(* ===== verification/SocketSetup.thy ===== *)
theory SocketSetup
  imports SocketOption
begin

text \<open>
  The constructors of \<open>include/asio/network/basic_socket.hpp\<close> and \<open>basic_socket_acceptor.hpp\<close> that open a
  socket: open, set an option, bind, listen, each with an exception when it fails. The exception leaves
  through the base class \<open>basic_io_object\<close>, whose destructor destroys the socket; it is the left value.
\<close>

section \<open>The constructors\<close>

definition SO_REUSEADDR :: int where "SO_REUSEADDR = 2"
definition max_listen_connections :: int where "max_listen_connections = 4096"

definition reuse_address :: "boolean_option option_class" where
  "reuse_address = boolean_class SOL_SOCKET SO_REUSEADDR"

text \<open>\<open>throw_error\<close> in the body of a constructor: what is next, or the exception, after the base is destroyed.\<close>

definition or_throw ::
  "('w, 'd) ctl \<Rightarrow> 'w kernel \<Rightarrow> ('d, 'z) base_impl_scheme \<Rightarrow> error_code \<Rightarrow> ('o, 'd, 'w, 'q, 't, 'a) reactor \<Rightarrow>
   ('o, 'd, 'w, 'q, 't, 'a) reactor \<times> (error_code + ('d, 'z) base_impl_scheme) \<Rightarrow>
   ('o, 'd, 'w, 'q, 't, 'a) reactor \<times> (error_code + ('d, 'z) base_impl_scheme)" where
  "or_throw ctl k impl ec r rest =
     (case throw_error ec of Inl e \<Rightarrow> (fst (service_destroy ctl k impl r), Inl e) | Inr _ \<Rightarrow> rest)"

definition socket_new_open ::
  "('w, 'd) ctl \<Rightarrow> 'w kernel \<Rightarrow> 'd \<Rightarrow> 'd socket_impl \<Rightarrow> protocol \<Rightarrow> ('o, 'd, 'w, 'q, 't, 'a) reactor \<Rightarrow>
   ('o, 'd, 'w, 'q, 't, 'a) reactor \<times> (error_code + 'd socket_impl)" where
  "socket_new_open ctl k created impl protocol r =
     (case service_open ctl k created (construct impl) protocol r of
        (r1, impl1, ec) \<Rightarrow> or_throw ctl k impl1 ec r1 (r1, Inr impl1))"

definition socket_new_bound ::
  "('w, 'd) ctl \<Rightarrow> 'w kernel \<Rightarrow> 'd \<Rightarrow> 'd socket_impl \<Rightarrow> protocol \<Rightarrow> nat \<Rightarrow> nat \<Rightarrow> ('o, 'd, 'w, 'q, 't, 'a) reactor \<Rightarrow>
   ('o, 'd, 'w, 'q, 't, 'a) reactor \<times> (error_code + 'd socket_impl)" where
  "socket_new_bound ctl k created impl protocol addr addrlen r =
     (case service_open ctl k created (construct impl) protocol r of
        (r1, impl1, ec1) \<Rightarrow> or_throw ctl k impl1 ec1 r1
          (case on_kernel (service_bind k impl1 addr addrlen) r1 of
             (r2, ec2) \<Rightarrow> or_throw ctl k impl1 ec2 r2 (r2, Inr impl1)))"

definition acceptor_new ::
  "('w, 'd) ctl \<Rightarrow> 'w kernel \<Rightarrow> 'd \<Rightarrow> 'd socket_impl \<Rightarrow> protocol \<Rightarrow> nat \<Rightarrow> nat \<Rightarrow> bool \<Rightarrow> ('o, 'd, 'w, 'q, 't, 'a) reactor \<Rightarrow>
   ('o, 'd, 'w, 'q, 't, 'a) reactor \<times> (error_code + 'd socket_impl)" where
  "acceptor_new ctl k created impl protocol addr addrlen reuse_addr r =
     (case service_open ctl k created (construct impl) protocol r of
        (r1, impl1, ec1) \<Rightarrow> or_throw ctl k impl1 ec1 r1
          (case (if reuse_addr then on_kernel (set_option reuse_address k impl1 (boolean_new True)) r1
                 else (r1, impl1, no_error)) of
             (r2, impl2, ec2) \<Rightarrow> or_throw ctl k impl2 ec2 r2
               (case on_kernel (service_bind k impl2 addr addrlen) r2 of
                  (r3, ec3) \<Rightarrow> or_throw ctl k impl2 ec3 r3
                    (case on_kernel (service_listen k impl2 max_listen_connections) r3 of
                       (r4, ec4) \<Rightarrow> or_throw ctl k impl2 ec4 r4 (r4, Inr impl2)))))"

section \<open>Descriptors\<close>

definition setup_law :: "('w \<Rightarrow> sock set) \<Rightarrow> 'w kernel \<Rightarrow> bool" where
  "setup_law fds k \<longleftrightarrow>
     (\<forall>s addr len w w1 x. k_bind k s addr len w = (w1, x) \<longrightarrow> fds w1 = fds w) \<and>
     (\<forall>s backlog w w1 x. k_listen k s backlog w = (w1, x) \<longrightarrow> fds w1 = fds w)"

lemma deregister_fds:
  assumes "fd_law fds ctl k"
  shows "fds (r_kernel (fst (deregister_descriptor ctl s dat closing r))) = fds (r_kernel r)"
proof (cases dat)
  case (Some d)
  obtain w1 x where c: "ctl (r_kernel r) CtlDel s 0 (Descriptor d) = (w1, x)" by fastforce
  with fd_lawD(7) [OF assms c] Some show ?thesis
    by (simp add: deregister_descriptor_def epoll_ctl_def abort_all Let_def upd_state_def del: abort_queues.simps split: prod.split)
qed (simp add: deregister_descriptor_def)

lemma service_destroy_fds:
  assumes law: "fd_law fds ctl k"
  shows "fds (r_kernel (fst (service_destroy ctl k impl r))) =
    (if is_open impl then fds (r_kernel r) - {si_socket impl} else fds (r_kernel r))"
proof (cases "is_open impl")
  case True
  then have valid: "si_socket impl \<noteq> invalid_socket" by (simp add: is_open_def)
  obtain r1 dat where d: "deregister_descriptor ctl (si_socket impl) (si_data impl) (closing_flag impl) r = (r1, dat)" by fastforce
  obtain w2 st res ec where c: "sock_close k (si_socket impl) (si_state impl) True (r_kernel r1) = (w2, st, res, ec)" by (metis prod_cases4)
  have "r_kernel (fst (service_destroy ctl k impl r)) = w2"
    using valid d c by (simp add: service_destroy_def on_kernel_def cleanup_descriptor_data_def free_descriptor_state_def split: option.split)
  with True show ?thesis
    using sock_close_fds [OF law valid, of "si_state impl" True "r_kernel r1"] deregister_fds [OF law, of "si_socket impl" "si_data impl" "closing_flag impl" r] d c
    by simp
qed (simp add: service_destroy_def is_open_def)

lemma service_open_owned:
  assumes "fd_law fds ctl k" and "service_open ctl k created (construct impl) protocol r = (r1, impl1, ec)"
  shows "owned fds (r_kernel r) impl1 ec (r_kernel r1)"
proof -
  obtain impl0 where o: "do_open ctl k created (construct impl) (p_family protocol) (p_type protocol) (p_protocol protocol) r = (r1, impl0, ec)"
    and i: "impl1 = (if \<not> ec_failed ec then impl0\<lparr>si_protocol := protocol\<rparr> else impl0)"
    using assms(2) by (auto simp: service_open_def split: prod.splits)
  have "\<not> is_open (construct impl)" by (simp add: is_open_def construct_def)
  from do_open_owned [OF assms(1) o this] i show ?thesis by (cases "ec_failed ec") (auto simp: owned_def is_open_def)
qed

text \<open>What a constructor leaves: the socket and its descriptor, or the exception and nothing.\<close>

definition constructed ::
  "('w \<Rightarrow> sock set) \<Rightarrow> 'w \<Rightarrow> ('o, 'd, 'w, 'q, 't, 'a) reactor \<times> (error_code + ('d, 'z) base_impl_scheme) \<Rightarrow> bool" where
  "constructed fds w result \<longleftrightarrow>
     (case result of
        (r1, Inl ec) \<Rightarrow> ec_failed ec \<and> fds (r_kernel r1) = fds w
      | (r1, Inr impl) \<Rightarrow> owned fds w impl no_error (r_kernel r1))"

text \<open>The step shared by the constructors: with the descriptor owned, or no socket after a failed \<open>open\<close>, the
  exception leaves nothing behind.\<close>

lemma or_throw_constructed:
  assumes "fd_law fds ctl k" and "ec_failed ec \<and> owned fds w impl ec (r_kernel r) \<or> owned fds w impl no_error (r_kernel r)"
    and "\<not> ec_failed ec \<Longrightarrow> owned fds w impl no_error (r_kernel r) \<Longrightarrow> constructed fds w rest"
  shows "constructed fds w (or_throw ctl k impl ec r rest)"
proof (cases "ec_failed ec")
  case True
  then show ?thesis
    using assms(2) service_destroy_fds [OF assms(1), of impl r]
    by (auto simp: or_throw_def throw_error_def constructed_def owned_def split: prod.split)
next
  case False
  then show ?thesis using assms(2,3) by (simp add: or_throw_def throw_error_def)
qed

lemma constructed_simps [simp]: "constructed fds w (r, Inr impl) \<longleftrightarrow> owned fds w impl no_error (r_kernel r)"
  by (simp add: constructed_def)

lemma open_constructed:
  assumes "fd_law fds ctl k" and "service_open ctl k created (construct impl) protocol r = (r1, impl1, ec)"
    and "owned fds (r_kernel r) impl1 no_error (r_kernel r1) \<Longrightarrow> constructed fds (r_kernel r) rest"
  shows "constructed fds (r_kernel r) (or_throw ctl k impl1 ec r1 rest)"
  using service_open_owned [OF assms(1,2)] assms(3)
  by (intro or_throw_constructed [OF assms(1)]) (auto simp: owned_def split: if_splits)

lemma bind_listen_fds:
  assumes "setup_law fds k"
  shows "fds (fst (service_bind k impl addr len w)) = fds w" "fds (fst (service_listen k impl backlog w)) = fds w"
  using assms by (auto simp: service_bind_def service_listen_def sock_bind_def sock_listen_def zero_ok_def setup_law_def split: prod.splits)

lemma set_option_same:
  assumes "fd_law fds ctl k" and "set_option C k impl x w = (w1, impl1, ec)"
  shows "fds w1 = fds w" "si_socket impl1 = si_socket impl"
  using assms(2) sock_setsockopt_fds [OF assms(1), of "si_socket impl" "si_state impl" "oc_level C (si_protocol impl)"
      "oc_name C (si_protocol impl)" "oc_data C (si_protocol impl) x" "length (oc_data C (si_protocol impl) x)" w]
  by (auto simp: set_option_def service_set_option_def split: prod.splits)

lemma bind_constructed:
  assumes law: "fd_law fds ctl k" "setup_law fds k" and own: "owned fds w impl no_error (r_kernel r)"
    and b: "on_kernel (service_bind k impl addr len) r = (r1, ec) \<or> on_kernel (service_listen k impl backlog) r = (r1, ec)"
    and rest: "owned fds w impl no_error (r_kernel r1) \<Longrightarrow> constructed fds w rest"
  shows "constructed fds w (or_throw ctl k impl ec r1 rest)"
proof -
  have "fds (r_kernel r1) = fds (r_kernel r)"
    using b bind_listen_fds(1) [OF law(2), of impl addr len "r_kernel r"] bind_listen_fds(2) [OF law(2), of impl backlog "r_kernel r"]
    by (auto simp: on_kernel_def split: prod.splits)
  then have "owned fds w impl no_error (r_kernel r1)" using own by (simp add: owned_def)
  with rest show ?thesis by (intro or_throw_constructed [OF law(1)]) auto
qed

lemma socket_new_bound_constructed:
  assumes "fd_law fds ctl k" "setup_law fds k"
  shows "constructed fds (r_kernel r) (socket_new_bound ctl k created impl protocol addr len r)"
    "constructed fds (r_kernel r) (socket_new_open ctl k created impl protocol r)"
proof -
  obtain r1 impl1 ec1 where o: "service_open ctl k created (construct impl) protocol r = (r1, impl1, ec1)" by (metis prod_cases3)
  obtain r2 ec2 where b: "on_kernel (service_bind k impl1 addr len) r1 = (r2, ec2)" by fastforce
  show "constructed fds (r_kernel r) (socket_new_bound ctl k created impl protocol addr len r)"
    unfolding socket_new_bound_def o b prod.case
    by (rule open_constructed [OF assms(1) o], rule bind_constructed [OF assms _ disjI1 [OF b]]) simp_all
  show "constructed fds (r_kernel r) (socket_new_open ctl k created impl protocol r)"
    unfolding socket_new_open_def o prod.case by (rule open_constructed [OF assms(1) o]) simp
qed

lemma reuse_same:
  assumes "fd_law fds ctl k"
    and "(if reuse then on_kernel (set_option C k impl x) r else (r, impl, no_error)) = (r1, impl1, ec)"
  shows "fds (r_kernel r1) = fds (r_kernel r)" "si_socket impl1 = si_socket impl"
proof -
  obtain w1 impl2 ec2 where s: "set_option C k impl x (r_kernel r) = (w1, impl2, ec2)" by (metis prod_cases3)
  from assms(2) have "r1 = (if reuse then r\<lparr>r_kernel := w1\<rparr> else r)" "impl1 = (if reuse then impl2 else impl)"
    by (cases reuse; simp add: on_kernel_def s)+
  with set_option_same [OF assms(1) s] show "fds (r_kernel r1) = fds (r_kernel r)" "si_socket impl1 = si_socket impl"
    by simp_all
qed

lemma acceptor_new_constructed:
  assumes law: "fd_law fds ctl k" "setup_law fds k"
  shows "constructed fds (r_kernel r) (acceptor_new ctl k created impl protocol addr len reuse r)"
proof -
  obtain r1 impl1 ec1 where o: "service_open ctl k created (construct impl) protocol r = (r1, impl1, ec1)" by (metis prod_cases3)
  obtain r2 impl2 ec2 where s: "(if reuse then on_kernel (set_option reuse_address k impl1 (boolean_new True)) r1
      else (r1, impl1, no_error)) = (r2, impl2, ec2)" by (metis prod_cases3)
  have same: "fds (r_kernel r2) = fds (r_kernel r1)" "si_socket impl2 = si_socket impl1"
    by (rule reuse_same [OF law(1) s])+
  obtain r3 ec3 where b: "on_kernel (service_bind k impl2 addr len) r2 = (r3, ec3)" by fastforce
  obtain r4 ec4 where l: "on_kernel (service_listen k impl2 max_listen_connections) r3 = (r4, ec4)" by fastforce
  show ?thesis
    unfolding acceptor_new_def o s b l prod.case
  proof (rule open_constructed [OF law(1) o], rule or_throw_constructed [OF law(1)])
    assume "owned fds (r_kernel r) impl1 no_error (r_kernel r1)"
    then show "ec_failed ec2 \<and> owned fds (r_kernel r) impl2 ec2 (r_kernel r2) \<or> owned fds (r_kernel r) impl2 no_error (r_kernel r2)"
      using same by (simp add: owned_def is_open_def)
  qed (rule bind_constructed [OF law _ disjI1 [OF b]], assumption, rule bind_constructed [OF law _ disjI2 [OF l]], simp_all)
qed

lemma or_throw_Inr: "or_throw ctl k impl ec r rest = (r1, Inr x) \<longleftrightarrow> \<not> ec_failed ec \<and> rest = (r1, Inr x)"
  by (simp add: or_throw_def throw_error_def)

text \<open>The calls that succeeded, in their order.\<close>

definition listening ::
  "'w kernel \<Rightarrow> 'd socket_impl \<Rightarrow> nat \<Rightarrow> nat \<Rightarrow> bool \<Rightarrow> 'w \<Rightarrow> bool" where
  "listening k impl addr addrlen reuse w3 \<longleftrightarrow>
     (\<exists>w1 w2 e1 e2 e3. \<not> ec_failed e1 \<and> \<not> ec_failed e2 \<and> \<not> ec_failed e3 \<and>
       (reuse \<longrightarrow> (\<exists>w impl0. set_option reuse_address k impl0 (boolean_new True) w = (w1, impl, e1))) \<and>
       service_bind k impl addr addrlen w1 = (w2, e2) \<and>
       service_listen k impl max_listen_connections w2 = (w3, e3))"

lemma acceptor_new_listening:
  assumes "acceptor_new ctl k created impl protocol addr len reuse r = (r5, Inr impl3)"
  shows "listening k impl3 addr len reuse (r_kernel r5)"
proof -
  obtain r1 impl1 ec1 where o: "service_open ctl k created (construct impl) protocol r = (r1, impl1, ec1)" by (metis prod_cases3)
  obtain r2 impl2 ec2 where s: "(if reuse then on_kernel (set_option reuse_address k impl1 (boolean_new True)) r1
      else (r1, impl1, no_error)) = (r2, impl2, ec2)" by (metis prod_cases3)
  obtain r3 ec3 where b: "on_kernel (service_bind k impl2 addr len) r2 = (r3, ec3)" by fastforce
  obtain r4 ec4 where l: "on_kernel (service_listen k impl2 max_listen_connections) r3 = (r4, ec4)" by fastforce
  from assms have ok: "\<not> ec_failed ec2" "\<not> ec_failed ec3" "\<not> ec_failed ec4" "r5 = r4" "impl3 = impl2"
    unfolding acceptor_new_def o s b l prod.case or_throw_Inr by simp_all
  have b1: "service_bind k impl2 addr len (r_kernel r2) = (r_kernel r3, ec3)"
    using b by (auto simp: on_kernel_def split: prod.splits)
  have l1: "service_listen k impl2 max_listen_connections (r_kernel r3) = (r_kernel r4, ec4)"
    using l by (auto simp: on_kernel_def split: prod.splits)
  have "set_option reuse_address k impl1 (boolean_new True) (r_kernel r1) = (r_kernel r2, impl2, ec2)" if reuse
    using s that by (auto simp: on_kernel_def split: prod.splits)
  with b1 l1 ok show ?thesis unfolding listening_def by blast
qed

section \<open>The property\<close>

text \<open>C21. Descriptors do not leak: opening a closed socket, or accepting a connection into one, either succeeds,
  and then the socket has a descriptor that was not open before and is the only new one, or it fails,
  and then the socket is still closed and no descriptor more is open than before: when the reactor
  refuses the descriptor, or the peer's address does not fit, the descriptor is closed again. The same
  for the constructors of a bound socket and of an acceptor, whichever of their calls fails and throws;
  an acceptor that was constructed has its option set, is bound and listens, in this order.\<close>

theorem sockets_do_not_leak:
  assumes "fd_law fds ctl k" and "setup_law fds k"
  shows "(do_open ctl k created impl af ty protocol r = (r1, impl1, ec) \<and> \<not> is_open impl \<longrightarrow>
      owned fds (r_kernel r) impl1 ec (r_kernel r1)) \<and>
    (service_accept ctl k created acceptor peer peer_endpoint r = Some (r2, result) \<and> is_open acceptor \<and> \<not> is_open peer \<longrightarrow>
      (case result of Inl e \<Rightarrow> fds (r_kernel r2) = fds (r_kernel r) | Inr (peer1, ec1) \<Rightarrow> owned fds (r_kernel r) peer1 ec1 (r_kernel r2))) \<and>
    constructed fds (r_kernel r) (socket_new_bound ctl k created impl2 p addr len r) \<and>
    constructed fds (r_kernel r) (acceptor_new ctl k created impl2 p addr len reuse r) \<and>
    (acceptor_new ctl k created impl2 p addr len reuse r = (r3, Inr impl3) \<longrightarrow> listening k impl3 addr len reuse (r_kernel r3))"
proof -
  note owns = descriptors_owned [OF assms(1), of created impl af ty protocol r r1 impl1 ec acceptor peer peer_endpoint r2 result]
  show ?thesis
    by (intro conjI) (rule owns [THEN conjunct1], rule owns [THEN conjunct2], rule socket_new_bound_constructed [OF assms],
      rule acceptor_new_constructed [OF assms], rule impI, erule acceptor_new_listening)
qed

lemma demo_setup_law: "setup_law (\<lambda>w. set (os_fds (fst w))) demo_kernel"
  by (simp add: setup_law_def demo_kernel_def)

theorem sockets_do_not_leak_witness:
  "(case do_open demo_ctl_os demo_kernel 0 closed_socket 2 1 6 demo_os_reactor of
      (r1, impl1, ec) \<Rightarrow> owned (\<lambda>w. set (os_fds (fst w))) (r_kernel demo_os_reactor) impl1 ec (r_kernel r1)) \<and>
   constructed (\<lambda>w. set (os_fds (fst w))) (r_kernel demo_os_reactor)
     (acceptor_new demo_ctl_os demo_kernel 0 closed_socket \<lparr>p_family = 2, p_type = 1, p_protocol = 6\<rparr> 100 16 True demo_os_reactor)"
proof -
  obtain r1 impl1 ec where o: "do_open demo_ctl_os demo_kernel 0 closed_socket 2 1 6 demo_os_reactor = (r1, impl1, ec)"
    by (metis prod_cases3)
  note L = sockets_do_not_leak [OF demo_laws_os(4) demo_setup_law]
  from L [THEN conjunct1, rule_format, OF conjI [OF o demo_socket_open(2)]] o
    L [of 0 closed_socket 2 1 6 demo_os_reactor r1 impl1 ec demo_socket closed_socket None demo_os_reactor "Inl no_error" closed_socket
      "\<lparr>p_family = 2, p_type = 1, p_protocol = 6\<rparr>" 100 16 True]
  show ?thesis by simp
qed

end
