(* ===== verification/Spec2Isabelle.thy ===== *)
theory Spec2Isabelle
  imports TimerQueueOps SchedulerProps ReadUntil EpollRun Endpoint SocketProps SelectProps DeadlineTimer Connect StreambufProps BuffersIterator HandlerMemory ServiceRegistry SocketSetup
begin

text \<open>
  A model of the asio library under \<open>src/include/asio\<close>, as it is compiled for Linux: the scheduler that runs
  handlers, the reactors that wait for descriptors and timers, sockets over the system calls, buffers,
  and the composed operations that read, write and connect.

  Foundations. \<open>AsioPrelude\<close> has pointers, fields, list segments of linked nodes and the lemmas they
  share. \<open>ErrorCodes\<close> (\<open>error/\<close>) has error codes and categories. \<open>OpQueue\<close> (\<open>detail/container/op_queue.hpp\<close>)
  is the intrusive operation queue over an explicit store of \<open>next_\<close> pointers, refined to a list; its
  contract is the locale \<open>fifo\<close>. \<open>ObjectPool\<close> (\<open>detail/memory/object_pool.hpp\<close>) is the pool of descriptor
  states. \<open>HashMap\<close>, \<open>HashMapInv\<close>, \<open>HashMapProps\<close> (\<open>detail/base/stdcpp/hash_map.hpp\<close>) have the chained hash map over
  one list of nodes, its invariant, and the locale \<open>node_map\<close> that gives its users a map;
  \<open>ReactorOpQueue\<close> (\<open>detail/reactor/reactor_op_queue.hpp\<close>) is one of them, a queue per descriptor.
  \<open>PosixEvent\<close> (\<open>detail/base/posix/posix_event.hpp\<close>) has the event's state word and timed wait.
  \<open>HandlerMemory\<close> (\<open>detail/thread/thread_info_base.hpp\<close>) has the memory that threads reuse for handlers, under any
  sequence of allocations; \<open>ServiceRegistry\<close> (\<open>core/impl/service_registry.ipp\<close>) the services of a context, found
  by key while threads construct new ones.

  Timers. \<open>TimerQueue\<close>, \<open>TimerHeap\<close>, \<open>TimerQueueInv\<close>, \<open>TimerQueueOps\<close> (\<open>detail/reactor/timeQueue/timer_queue.hpp\<close>) have
  the timer queue, a binary heap of expiry times with a doubly linked list of timers, the invariant that
  ties the two together, and its operations. \<open>ChronoTime\<close> (\<open>service/timer/helper/chrono_time_traits.hpp\<close>)
  has the saturating arithmetic of times and the conversions of durations, which are none where the code's
  64-bit products overflow, \<open>DeadlineTimer\<close> (\<open>service/timer/deadline_timer_service.hpp\<close>) the
  service over a timer queue: reachable states keep the flag of each timer and the heap together, and
  the blocking wait asks in every round for the time that is left.

  Running handlers. \<open>Scheduler\<close> has the member functions of \<open>core/scheduler/scheduler.ipp\<close> cut where the
  mutex is released, \<open>SchedulerSteps\<close> the step relation of several threads calling them,
  \<open>SchedulerInv\<close>, \<open>SchedulerWake\<close>, \<open>SchedulerProps\<close> the invariants by rule induction and what follows from
  them: the count of outstanding work, no lost wake-up. The steps have the set of run functions that the
  program calls and the set of descriptor operations, which the reactor queues without counting them as
  work, as arguments. A call may be made in a handler of another one, and \<open>poll\<close> then takes over the
  private queue of that one; the count with what the threads are still to add stays exact, but with one thread it may reach zero
  while work is left. Two ghost fields say for what a running handler stands (\<open>c_phase\<close>) and in
  whose handler a call was made (\<open>c_outer\<close>). \<open>ReactorPerform\<close> says what it means to perform a queue of
  operations, for both reactors. \<open>EpollReactor\<close>, \<open>EpollProps\<close>, \<open>EpollRun\<close>
  (\<open>detail/reactor/poll/epoll_reactor.ipp\<close>) have the epoll reactor with its descriptor states and the
  round of \<open>run\<close>; \<open>SelectReactor\<close>, \<open>SelectProps\<close> (\<open>detail/reactor/poll/select_reactor.ipp\<close>) the reactor over \<open>select\<close>.
  For both: no operation is lost or duplicated, pending operations are watched, and of the ready ones
  exactly those complete whose attempt on the kernel's state says that they are done.

  Sockets. \<open>SocketOps\<close>, \<open>SocketOpsProps\<close> (\<open>network/socket_ops.ipp\<close>) wrap the system calls, \<open>SocketService\<close>,
  \<open>SocketProps\<close> (\<open>network/reactive_socket_service_base.ipp\<close>, \<open>reactive_socket_service.hpp\<close>, \<open>op/\<close>) have the service,
  its operations and the ownership of descriptors. \<open>Connect\<close> (\<open>transmit/impl/connect.hpp\<close>) tries a range of
  endpoints; \<open>SocketOption\<close> (\<open>network/socket_option.hpp\<close>, \<open>ip/detail/socket_option.hpp\<close>) has the types of
  options, with the locale \<open>gettable_option\<close> of those that can be read back; \<open>SocketSetup\<close>
  (\<open>network/basic_socket.hpp\<close>, \<open>basic_socket_acceptor.hpp\<close>) the constructors that open, set, bind and listen;
  \<open>SocketStreambuf\<close>, \<open>StreambufProps\<close> (\<open>network/basic_socket_streambuf.hpp\<close>) are the stream buffer and
  what it makes of the streams of bytes on both sides.

  Addresses. \<open>DecimalText\<close> has decimal text, \<open>AddressV4\<close>, \<open>AddressV6\<close>, \<open>NetworkV4\<close>, \<open>NetworkV6\<close>, \<open>Endpoint\<close> (\<open>ip/\<close>)
  the address classes, their iterators and networks, their text forms and the order of endpoints.

  Buffers and transfers. \<open>Buffer\<close>, \<open>ConsumingBuffers\<close>, \<open>DynamicBuffer\<close> (\<open>buffer/\<close>) have buffers as address ranges over a
  memory, copying, the three classes of partly transferred sequences behind the locale \<open>consuming\<close>, and
  the dynamic buffers as queues; \<open>BuffersIterator\<close> has the random access iterator over a sequence's bytes,
  with the locale \<open>cursor\<close>. \<open>ComposedTransfer\<close>, \<open>DynamicRead\<close>, \<open>ReadUntil\<close> (\<open>transmit/\<close>) have completion
  conditions, \<open>read\<close>, \<open>write\<close>, \<open>read_until\<close> with its searches behind the locale \<open>until_search\<close>, each also as
  asynchronous operation, and the equality of both forms.

  State and effects. A member function takes the state of its object as a record and returns it updated. A
  pointer is an option of the object it names, or an address where memory is read, an exception the left
  side of a sum. Sizes that the code
  cannot make wrap are natural numbers; flags, addresses, event masks and hashes are words. What is not
  in the repository is an argument: the system calls (the records \<open>kernel\<close> and \<open>ctl\<close>), the clock, the
  functions of the C library, an operation's \<open>perform\<close>, a condition. Its documented behaviour is a named
  law (\<open>recv_law\<close> for receiving without flags, \<open>send_law\<close>, \<open>fd_law\<close>, \<open>mode_law\<close>, \<open>connect_keeps_mode\<close>, \<open>wait_law\<close>,
  \<open>clock_law\<close>, \<open>patient\<close> and others), and each law has an
  instance in a concrete system, on which the theorems that rest on it are applied. The laws of time
  allow a clock to stand still and \<open>select\<close> to return early, any number of times but not for ever.

  Loops. Most are structural or have a measure. Those that may run for ever are option-valued partial
  functions: none means that the loop does not return (or, in the stream buffer and the timers, that a
  time overflows), and the theorems say that there is a result. Where a system call may say that it would
  block any number of times, a law bounds how often. Three loops have a bound on the number of rounds as an
  argument: the destructor's walk along a pool (\<open>destroy_list\<close>) and the reactor's \<open>shutdown_descriptors\<close>, for
  which the number of objects is enough, and a client's loop over an address range (\<open>v4_walk\<close>), for which
  \<open>2 ^ 32\<close> is.

  Not modelled. The parts that only forward to a modelled one: the public classes of sockets and acceptors
  (\<open>network/basic_*.hpp\<close>) apart from what the components name, timers and resolvers as objects, the overloads in
  \<open>transmit/*.hpp\<close>, \<open>ts/\<close>. Executors, handlers, their allocation hooks and association (\<open>core/executor\<close>, \<open>core/handler\<close>,
  the rest of \<open>detail/memory\<close>, \<open>detail/tracking\<close>): template dispatch and type erasure, whose effect is a call or a \<open>post\<close>. The
  interrupters, mutexes, threads and thread-local pointers: each is one call of the system. The resolver:
  its work is \<open>getaddrinfo\<close> in another thread. The
  configuration headers, the parts compiled only for Windows or boost, the examples.
\<close>

end
